(* ===== verification/Prelude.thy ===== *)
theory Prelude
  imports Main "HOL-Library.AList" "HOL-Library.Word"
begin

text \<open>
  Shared vocabulary of the development: Python's exceptions as values and the sequencing of
  fallible steps (\<open>ebind\<close>, \<open>eassert\<close>, \<open>foldE\<close>), Python's list indexing and slicing with
  signed indices, dictionaries as insertion-ordered association lists, \<open>cdiv\<close> of
  \<open>vllm/utils/math_utils.py\<close>, and the generic lemmas that the component theories use.
\<close>

subsection \<open>Exceptions as values\<close>

datatype py_error =
    AssertionError | ValueError | RuntimeError | IndexError | KeyError | OverflowError
  | AttributeError | NotImplementedError | TypeError
  | ZeroDivisionError | StopIteration
  | NonTermination \<comment> \<open>not an exception: the value of a loop that never ends\<close>

type_synonym 'a result = "py_error + 'a"

definition ebind :: "'e + 'a \<Rightarrow> ('a \<Rightarrow> 'e + 'b) \<Rightarrow> 'e + 'b" where
  "ebind m f = (case m of Inl e \<Rightarrow> Inl e | Inr x \<Rightarrow> f x)"

definition eassert :: "bool \<Rightarrow> unit result" where
  "eassert b = (if b then Inr () else Inl AssertionError)"

text \<open>Evaluation opens a step only when the one before has returned.\<close>

declare ebind_def [code_unfold]

lemma ebind_simps [simp]: "ebind (Inl e) f = Inl e" "ebind (Inr x) f = f x"
  by (simp_all add: ebind_def)

lemma ebind_eq_Inr: "ebind m f = Inr y \<longleftrightarrow> (\<exists>x. m = Inr x \<and> f x = Inr y)"
  by (cases m) auto

lemma ebind_eq_Inl: "ebind m f = Inl e \<longleftrightarrow> m = Inl e \<or> (\<exists>x. m = Inr x \<and> f x = Inl e)"
  by (cases m) auto

lemma ebind_assoc: "ebind (ebind m f) g = ebind m (\<lambda>x. ebind (f x) g)"
  by (cases m) auto

lemma eassert_eq [simp]:
  "eassert b = Inr u \<longleftrightarrow> b" "eassert b = Inl e \<longleftrightarrow> \<not> b \<and> e = AssertionError"
  by (auto simp: eassert_def)

lemma eassert_True [simp]: "eassert True = Inr ()" "eassert False = Inl AssertionError"
  by (simp_all add: eassert_def)

text \<open>A \<open>for\<close> loop over a list whose body may raise.\<close>

fun foldE :: "('a \<Rightarrow> 's \<Rightarrow> 'e + 's) \<Rightarrow> 'a list \<Rightarrow> 's \<Rightarrow> 'e + 's" where
  "foldE f [] s = Inr s"
| "foldE f (x # xs) s = ebind (f x s) (foldE f xs)"

lemma foldE_append: "foldE f (xs @ ys) s = ebind (foldE f xs s) (foldE f ys)"
  by (induction xs arbitrary: s) (auto simp: ebind_def split: sum.splits)

lemma foldE_invariant:
  assumes "foldE f xs s = Inr t" and "P s"
    and "\<And>x s t. x \<in> set xs \<Longrightarrow> P s \<Longrightarrow> f x s = Inr t \<Longrightarrow> P t"
  shows "P t"
  using assms
proof (induction xs arbitrary: s)
  case Nil
  then show ?case by simp
next
  case (Cons x xs)
  from Cons.prems(1) obtain u where u: "f x s = Inr u" "foldE f xs u = Inr t"
    by (auto simp: ebind_eq_Inr)
  have "P u" by (rule Cons.prems(3) [OF _ Cons.prems(2) u(1)]) simp
  then show ?case by (rule Cons.IH [OF u(2)]) (auto intro: Cons.prems(3))
qed

lemma foldE_total:
  assumes "P s" and "\<And>x s. x \<in> set xs \<Longrightarrow> P s \<Longrightarrow> \<exists>t. f x s = Inr t \<and> P t"
  shows "\<exists>t. foldE f xs s = Inr t \<and> P t"
  using assms
proof (induction xs arbitrary: s)
  case Nil
  then show ?case by simp
next
  case (Cons x xs)
  obtain t where "f x s = Inr t" "P t" using Cons.prems by (meson list.set_intros(1))
  then show ?case using Cons.IH [of t] Cons.prems(2) by simp
qed

text \<open>A loop that also collects a result per element.\<close>

fun mapE :: "('a \<Rightarrow> 's \<Rightarrow> 'e + ('b \<times> 's)) \<Rightarrow> 'a list \<Rightarrow> 's \<Rightarrow> 'e + ('b list \<times> 's)" where
  "mapE f [] s = Inr ([], s)"
| "mapE f (x # xs) s =
     ebind (f x s) (\<lambda>(y, s). ebind (mapE f xs s) (\<lambda>(ys, s). Inr (y # ys, s)))"

text \<open>A comprehension whose element may raise, and the sum of one.\<close>

fun collectE :: "('a \<Rightarrow> 'e + 'b) \<Rightarrow> 'a list \<Rightarrow> 'e + 'b list" where
  "collectE f [] = Inr []"
| "collectE f (x # xs) = ebind (f x) (\<lambda>y. ebind (collectE f xs) (\<lambda>ys. Inr (y # ys)))"

fun sumE :: "('a \<Rightarrow> 'e + int) \<Rightarrow> 'a list \<Rightarrow> 'e + int" where
  "sumE f [] = Inr 0"
| "sumE f (x # xs) = ebind (f x) (\<lambda>a. ebind (sumE f xs) (\<lambda>b. Inr (a + b)))"

subsection \<open>Python lists\<close>

text \<open>Indices count from the end when negative; out of range raises.\<close>

definition py_index :: "'a list \<Rightarrow> int \<Rightarrow> 'a result" where
  "py_index xs i =
     (let size = int (length xs); k = (if 0 \<le> i then i else size + i)
      in if k < 0 \<or> size \<le> k then Inl IndexError else Inr (xs ! nat k))"

definition py_clip :: "'a list \<Rightarrow> int \<Rightarrow> nat" where
  "py_clip xs i =
     (let n = int (length xs) in nat (if i < 0 then max 0 (n + i) else min n i))"

definition py_slice :: "'a list \<Rightarrow> int \<Rightarrow> int \<Rightarrow> 'a list" where
  "py_slice xs a b = take (py_clip xs b - py_clip xs a) (drop (py_clip xs a) xs)"

definition py_drop :: "'a list \<Rightarrow> int \<Rightarrow> 'a list" where
  "py_drop xs a = drop (py_clip xs a) xs"

definition py_take :: "'a list \<Rightarrow> int \<Rightarrow> 'a list" where
  "py_take xs b = take (py_clip xs b) xs"

text \<open>Assignment to an index.\<close>

definition py_set :: "'a list \<Rightarrow> int \<Rightarrow> 'a \<Rightarrow> 'a list result" where
  "py_set xs i v =
     (let size = int (length xs); k = (if 0 \<le> i then i else size + i)
      in if k < 0 \<or> size \<le> k then Inl IndexError else Inr (xs[nat k := v]))"

lemma py_index_nonneg:
  "0 \<le> i \<Longrightarrow> py_index xs i = (if nat i < length xs then Inr (xs ! nat i) else Inl IndexError)"
  by (auto simp: py_index_def Let_def nat_less_iff)

lemma py_clip_nonneg: "0 \<le> i \<Longrightarrow> py_clip xs i = min (length xs) (nat i)"
  by (auto simp: py_clip_def Let_def min_def)

lemma py_drop_nonneg: "0 \<le> a \<Longrightarrow> py_drop xs a = drop (nat a) xs"
  by (auto simp: py_drop_def py_clip_nonneg min_def)

lemma py_take_nonneg: "0 \<le> a \<Longrightarrow> py_take xs a = take (nat a) xs"
  by (auto simp: py_take_def py_clip_nonneg min_def)

lemma py_slice_nonneg:
  "0 \<le> a \<Longrightarrow> 0 \<le> b \<Longrightarrow> py_slice xs a b = take (nat b - nat a) (drop (nat a) xs)"
  by (auto simp: py_slice_def py_clip_nonneg min_def)

lemma set_py_drop: "set (py_drop xs a) \<subseteq> set xs"
  by (simp add: py_drop_def set_drop_subset)

lemma set_py_slice: "set (py_slice xs a b) \<subseteq> set xs"
  unfolding py_slice_def by (meson order_trans set_drop_subset set_take_subset)

lemma distinct_py_drop [intro]: "distinct xs \<Longrightarrow> distinct (py_drop xs a)"
  by (simp add: py_drop_def)

lemma last_index_py: "xs \<noteq> [] \<Longrightarrow> py_index xs (-1) = Inr (last xs)"
  by (cases xs) (auto simp: py_index_def Let_def last_conv_nth nat_diff_distrib')

lemma distinct_set_take_drop: "distinct xs \<Longrightarrow> set (take n xs) \<inter> set (drop n xs) = {}"
  by (rule set_take_disj_set_drop_if_distinct) auto

lemma set_take_Un_drop: "set (take n xs) \<union> set (drop n xs) = set xs"
  by (metis append_take_drop_id set_append)

text \<open>Ranges of Python integers, ascending and descending.\<close>

definition py_range :: "int \<Rightarrow> int \<Rightarrow> int list" where
  "py_range a b = [a .. b - 1]"

definition py_range_down :: "int \<Rightarrow> int list" where
  \<comment> \<open>\<open>range(n - 1, -1, -1)\<close>\<close>
  "py_range_down n = rev [0 .. n - 1]"

subsection \<open>Ceiling division\<close>

definition cdiv :: "int \<Rightarrow> int \<Rightarrow> int" where
  "cdiv a b = - (a div (- b))"

text \<open>Both divisions raise on a zero divisor.\<close>

definition pdiv :: "int \<Rightarrow> int \<Rightarrow> int result" where
  "pdiv a b = (if b = 0 then Inl ZeroDivisionError else Inr (a div b))"

definition pcdiv :: "int \<Rightarrow> int \<Rightarrow> int result" where
  "pcdiv a b = (if b = 0 then Inl ZeroDivisionError else Inr (cdiv a b))"

lemma pdiv_simps [simp]: "b \<noteq> 0 \<Longrightarrow> pdiv a b = Inr (a div b)" "b \<noteq> 0 \<Longrightarrow> pcdiv a b = Inr (cdiv a b)"
  by (simp_all add: pdiv_def pcdiv_def)

lemma cdiv_0 [simp]: "cdiv 0 b = 0"
  by (simp add: cdiv_def)

lemma cdiv_bounds:
  assumes "0 < b"
  shows "a \<le> cdiv a b * b" and "cdiv a b * b < a + b"
proof -
  have eq: "a div (- b) = (- a) div b"
    by (metis div_minus_minus minus_minus)
  have "(- a) div b * b + (- a) mod b = - a" by (rule div_mult_mod_eq)
  moreover have "0 \<le> (- a) mod b" "(- a) mod b < b" using assms by auto
  moreover have "cdiv a b * b = - ((- a) div b * b)" by (simp add: cdiv_def eq)
  ultimately show "a \<le> cdiv a b * b" and "cdiv a b * b < a + b" by linarith+
qed

lemma cdiv_least:
  assumes "0 < b" and "a \<le> k * b"
  shows "cdiv a b \<le> k"
proof -
  have "cdiv a b * b < (k + 1) * b"
    using cdiv_bounds(2) [OF assms(1), of a] assms(2) by (simp add: distrib_right)
  then have "cdiv a b < k + 1" using assms(1) by (simp add: mult_less_cancel_right)
  then show ?thesis by simp
qed

lemma cdiv_mono: "0 < b \<Longrightarrow> a \<le> a' \<Longrightarrow> cdiv a b \<le> cdiv a' b"
  by (meson cdiv_bounds(1) cdiv_least order_trans)

lemma cdiv_nonneg: "0 < b \<Longrightarrow> 0 \<le> a \<Longrightarrow> 0 \<le> cdiv a b"
  using cdiv_mono [of b 0 a] by simp

lemma div_le_cdiv:
  assumes "0 < b"
  shows "a div b \<le> cdiv a b"
proof -
  have "a div b * b + a mod b = a" by (rule div_mult_mod_eq)
  moreover have "0 \<le> a mod b" using assms by simp
  ultimately have "a div b * b \<le> a" by linarith
  also have "a \<le> cdiv a b * b" by (rule cdiv_bounds(1) [OF assms])
  finally show ?thesis using assms by simp
qed

subsection \<open>Dictionaries\<close>

text \<open>
  A dictionary is an association list with distinct keys, in insertion order:
  \<open>map_of\<close> looks up, \<open>AList.update\<close> stores (in place when the key is there, at the end
  otherwise, as Python does), \<open>AList.delete\<close> pops.
\<close>

definition dict_get :: "'k \<Rightarrow> ('k \<times> 'v) list \<Rightarrow> 'v result" where
  "dict_get k d = (case map_of d k of None \<Rightarrow> Inl KeyError | Some v \<Rightarrow> Inr v)"

lemma set_alist_delete: "set (AList.delete k d) = {(j, v) \<in> set d. j \<noteq> k}"
  by (auto simp: AList.delete_eq)

lemma set_alist_update: "set (AList.update k v d) \<subseteq> insert (k, v) (set d)"
  by (induction d) auto

lemma distinct_alist_delete [intro, simp]: "distinct (map fst d) \<Longrightarrow> distinct (map fst (AList.delete k d))"
  by (simp add: AList.distinct_delete)

lemma distinct_alist_update [intro, simp]: "distinct (map fst d) \<Longrightarrow> distinct (map fst (AList.update k v d))"
  by (simp add: AList.distinct_update)

end
