(* ===== verification/Block_Queue.thy ===== *)
theory Block_Queue
  imports Prelude
begin

text \<open>
  \<open>vllm/v1/core/kv_cache_utils.py\<close>: the block metadata object \<open>KVCacheBlock\<close> and the
  doubly linked list \<open>FreeKVCacheBlockQueue\<close> that the block pool allocates from.

  Objects are mutable and shared (the pool's block list, the free queue, the prefix-cache map
  and the per-request block tables all hold the same \<open>KVCacheBlock\<close> objects), so the model has
  a heap: \<open>heap\<close> maps a reference to the current fields of the object.  A reference is one of
  the two sentinels of the queue or \<open>Blk i\<close>, the pool's block with index \<open>i\<close>.  The queue's
  operations are polymorphic in the rest of the record, so that the block pool can extend it.
\<close>

type_synonym bytes = "8 word list"

datatype bref = FakeHead | FakeTail | Blk nat

record kv_block =
  block_id :: int
  ref_cnt :: int
  bl_hash :: "bytes option"
  prev_free_block :: "bref option"
  next_free_block :: "bref option"
  is_null :: bool

definition new_kv_block :: "int \<Rightarrow> kv_block" where
  "new_kv_block i =
     \<lparr>block_id = i, ref_cnt = 0, bl_hash = None, prev_free_block = None,
      next_free_block = None, is_null = False\<rparr>"

record free_queue =
  heap :: "bref \<Rightarrow> kv_block"
  num_free_blocks :: int

subsection \<open>Field access\<close>

definition set_prev :: "bref \<Rightarrow> bref option \<Rightarrow> 'a free_queue_scheme \<Rightarrow> 'a free_queue_scheme" where
  "set_prev r v q = q\<lparr>heap := (heap q)(r := (heap q r)\<lparr>prev_free_block := v\<rparr>)\<rparr>"

definition set_next :: "bref \<Rightarrow> bref option \<Rightarrow> 'a free_queue_scheme \<Rightarrow> 'a free_queue_scheme" where
  "set_next r v q = q\<lparr>heap := (heap q)(r := (heap q r)\<lparr>next_free_block := v\<rparr>)\<rparr>"

definition nxt :: "'a free_queue_scheme \<Rightarrow> bref \<Rightarrow> bref option" where
  "nxt q r = next_free_block (heap q r)"

definition prv :: "'a free_queue_scheme \<Rightarrow> bref \<Rightarrow> bref option" where
  "prv q r = prev_free_block (heap q r)"

lemma nxt_set_next [simp]: "nxt (set_next r v q) s = (if s = r then v else nxt q s)"
  and prv_set_next [simp]: "prv (set_next r v q) s = prv q s"
  and nxt_set_prev [simp]: "nxt (set_prev r v q) s = nxt q s"
  and prv_set_prev [simp]: "prv (set_prev r v q) s = (if s = r then v else prv q s)"
  by (simp_all add: nxt_def prv_def set_next_def set_prev_def)

lemma num_free_set [simp]:
  "num_free_blocks (set_next r v q) = num_free_blocks q"
  "num_free_blocks (set_prev r v q) = num_free_blocks q"
  by (simp_all add: set_next_def set_prev_def)

lemma links_num_free_update [simp]:
  "nxt (num_free_blocks_update f q) = nxt q" "prv (num_free_blocks_update f q) = prv q"
  by (simp_all add: nxt_def prv_def fun_eq_iff)

subsection \<open>FreeKVCacheBlockQueue\<close>

text \<open>\<open>__init__\<close>: link consecutive blocks, then hang them between the two sentinels.\<close>

fun link_consecutive :: "bref list \<Rightarrow> 'a free_queue_scheme \<Rightarrow> 'a free_queue_scheme" where
  "link_consecutive (b # c # bs) q =
     link_consecutive (c # bs) (set_prev c (Some b) (set_next b (Some c) q))"
| "link_consecutive _ q = q"

definition init_free_queue :: "bref list \<Rightarrow> 'a free_queue_scheme \<Rightarrow> 'a free_queue_scheme" where
  "init_free_queue blocks q =
     (let q = link_consecutive blocks (q\<lparr>num_free_blocks := int (length blocks)\<rparr>);
          q = q\<lparr>heap := (heap q)(FakeHead := new_kv_block (-1), FakeTail := new_kv_block (-1))\<rparr>
      in if num_free_blocks q > 0
         then set_next (last blocks) (Some FakeTail) (set_prev FakeTail (Some (last blocks))
                (set_prev (hd blocks) (Some FakeHead) (set_next FakeHead (Some (hd blocks)) q)))
         else set_prev FakeTail (Some FakeHead) (set_next FakeHead (Some FakeTail) q))"

definition popleft :: "'a free_queue_scheme \<Rightarrow> (bref \<times> 'a free_queue_scheme) result" where
  "popleft q =
     (case nxt q FakeHead of
        None \<Rightarrow> (if num_free_blocks q = 0 then Inl ValueError else Inl AssertionError)
      | Some first_block \<Rightarrow>
          if first_block = FakeTail
          then (if num_free_blocks q = 0 then Inl ValueError else Inl AssertionError)
          else (case nxt q first_block of
                  None \<Rightarrow> Inl RuntimeError
                | Some second \<Rightarrow>
                    let q = set_next FakeHead (Some second) q;
                        q = set_prev second (Some FakeHead) q;
                        q = set_next first_block None (set_prev first_block None q)
                    in Inr (first_block, q\<lparr>num_free_blocks := num_free_blocks q - 1\<rparr>)))"

fun popleft_n_loop ::
  "nat \<Rightarrow> bref option \<Rightarrow> 'a free_queue_scheme
    \<Rightarrow> (bref list \<times> bref option \<times> 'a free_queue_scheme) result" where
  "popleft_n_loop 0 cur q = Inr ([], cur, q)"
| "popleft_n_loop (Suc n) cur q =
     (case cur of
        None \<Rightarrow> Inl AssertionError
      | Some b \<Rightarrow>
          ebind (popleft_n_loop n (nxt q b) (set_next b None (set_prev b None q)))
            (\<lambda>(ret, cur, q). Inr (b # ret, cur, q)))"

definition popleft_n :: "int \<Rightarrow> 'a free_queue_scheme \<Rightarrow> (bref list \<times> 'a free_queue_scheme) result" where
  "popleft_n n q =
     (if n = 0 then Inr ([], q)
      else ebind (eassert (num_free_blocks q \<ge> n)) (\<lambda>_.
        let q = q\<lparr>num_free_blocks := num_free_blocks q - n\<rparr> in
        ebind (popleft_n_loop (nat n) (nxt q FakeHead) q) (\<lambda>(ret, cur, q).
          case cur of
            None \<Rightarrow> Inr (ret, q)
          | Some c \<Rightarrow> Inr (ret, set_prev c (Some FakeHead) (set_next FakeHead (Some c) q)))))"

definition remove :: "bref \<Rightarrow> 'a free_queue_scheme \<Rightarrow> 'a free_queue_scheme result" where
  "remove b q =
     (case (prv q b, nxt q b) of
        (Some p, Some n) \<Rightarrow>
          let q = set_next p (Some n) q;
              q = set_prev n (Some p) q;
              q = set_next b None (set_prev b None q)
          in Inr (q\<lparr>num_free_blocks := num_free_blocks q - 1\<rparr>)
      | _ \<Rightarrow> Inl RuntimeError)"

definition append_block :: "bref \<Rightarrow> 'a free_queue_scheme \<Rightarrow> 'a free_queue_scheme result" where
  "append_block b q =
     (case prv q FakeTail of
        None \<Rightarrow> Inl RuntimeError
      | Some last_block \<Rightarrow>
          let q = set_next last_block (Some b) q;
              q = set_prev b (Some last_block) q;
              q = set_next b (Some FakeTail) q;
              q = set_prev FakeTail (Some b) q
          in Inr (q\<lparr>num_free_blocks := num_free_blocks q + 1\<rparr>))"

fun append_n_loop ::
  "bref list \<Rightarrow> bref \<Rightarrow> 'a free_queue_scheme \<Rightarrow> bref \<times> 'a free_queue_scheme" where
  "append_n_loop [] last_block q = (last_block, q)"
| "append_n_loop (b # bs) last_block q =
     append_n_loop bs b (set_next last_block (Some b) (set_prev b (Some last_block) q))"

definition append_n :: "bref list \<Rightarrow> 'a free_queue_scheme \<Rightarrow> 'a free_queue_scheme result" where
  "append_n blocks q =
     (if blocks = [] then Inr q
      else (case prv q FakeTail of
              None \<Rightarrow> Inl AssertionError
            | Some last_block \<Rightarrow>
                let (last_block, q) = append_n_loop blocks last_block q;
                    q = set_next last_block (Some FakeTail) q;
                    q = set_prev FakeTail (Some last_block) q
                in Inr (q\<lparr>num_free_blocks := num_free_blocks q + int (length blocks)\<rparr>)))"

text \<open>The pointer walk of \<open>get_all_free_blocks\<close> need not end on a corrupted list: \<open>None\<close>.\<close>

partial_function (option) walk_free_blocks ::
  "(bref \<Rightarrow> bref option) \<Rightarrow> bref \<Rightarrow> bref list \<Rightarrow> bref list option" where
  "walk_free_blocks nx cur ret =
     (case nx cur of None \<Rightarrow> Some ret | Some n \<Rightarrow> walk_free_blocks nx n (ret @ [cur]))"

definition get_all_free_blocks :: "'a free_queue_scheme \<Rightarrow> bref list result option" where
  "get_all_free_blocks q =
     (case nxt q FakeHead of
        None \<Rightarrow> Some (Inl RuntimeError)
      | Some cur \<Rightarrow> map_option Inr (walk_free_blocks (nxt q) cur []))"

subsection \<open>The list that a queue represents\<close>

text \<open>
  \<open>links n p a xs z\<close>: following \<open>next\<close> from \<open>a\<close> one meets exactly \<open>xs\<close> and then \<open>z\<close>, and the
  \<open>prev\<close> pointers lead back.  \<open>queue_rep q xs\<close>: the queue holds exactly the blocks \<open>xs\<close>, in
  this order, its counter is right, and every other block has both pointers unset.
\<close>

fun links :: "(bref \<Rightarrow> bref option) \<Rightarrow> (bref \<Rightarrow> bref option) \<Rightarrow> bref \<Rightarrow> bref list \<Rightarrow> bref \<Rightarrow> bool" where
  "links n p a [] z \<longleftrightarrow> n a = Some z \<and> p z = Some a"
| "links n p a (x # xs) z \<longleftrightarrow> n a = Some x \<and> p x = Some a \<and> links n p x xs z"

definition queue_rep :: "'a free_queue_scheme \<Rightarrow> bref list \<Rightarrow> bool" where
  "queue_rep q xs \<longleftrightarrow>
     links (nxt q) (prv q) FakeHead xs FakeTail \<and> distinct xs
     \<and> FakeHead \<notin> set xs \<and> FakeTail \<notin> set xs
     \<and> prv q FakeHead = None \<and> nxt q FakeTail = None
     \<and> num_free_blocks q = int (length xs)
     \<and> (\<forall>r. r \<notin> set xs \<and> r \<noteq> FakeHead \<and> r \<noteq> FakeTail \<longrightarrow> nxt q r = None \<and> prv q r = None)"

lemma links_append:
  "links n p a (xs @ y # ys) z \<longleftrightarrow> links n p a xs y \<and> links n p y ys z"
  by (induction xs arbitrary: a) auto

lemma links_first: "links n p a xs z \<Longrightarrow> n a = Some (case xs of [] \<Rightarrow> z | x # _ \<Rightarrow> x)"
  by (cases xs) auto

lemma links_last: "links n p a xs z \<Longrightarrow> p z = Some (if xs = [] then a else last xs)"
  by (induction xs arbitrary: a) auto

lemma links_cong:
  assumes "\<And>r. r = a \<or> r \<in> set xs \<Longrightarrow> n r = n' r" and "\<And>r. r \<in> set xs \<or> r = z \<Longrightarrow> p r = p' r"
  shows "links n p a xs z \<longleftrightarrow> links n' p' a xs z"
  using assms by (induction xs arbitrary: a) auto

lemma links_next_some: "links n p a xs z \<Longrightarrow> r \<in> set xs \<Longrightarrow> n r \<noteq> None \<and> p r \<noteq> None"
  by (induction xs arbitrary: a) (auto dest: links_first)

lemma queue_repD:
  assumes "queue_rep q xs"
  shows "links (nxt q) (prv q) FakeHead xs FakeTail" "distinct xs" "FakeHead \<notin> set xs"
    "FakeTail \<notin> set xs" "prv q FakeHead = None" "nxt q FakeTail = None"
    "num_free_blocks q = int (length xs)"
    "\<And>r. r \<notin> set xs \<Longrightarrow> r \<noteq> FakeHead \<Longrightarrow> r \<noteq> FakeTail \<Longrightarrow> nxt q r = None \<and> prv q r = None"
  using assms by (auto simp: queue_rep_def)

subsection \<open>What the queue operations leave alone\<close>

text \<open>
  The metadata of every block and the fields of a record that extends the queue: no operation
  of the queue touches them.
\<close>

definition meta :: "kv_block \<Rightarrow> int \<times> int \<times> bytes option \<times> bool" where
  "meta b = (block_id b, ref_cnt b, bl_hash b, is_null b)"

definition frame :: "'a free_queue_scheme \<Rightarrow> (bref \<Rightarrow> int \<times> int \<times> bytes option \<times> bool) \<times> 'a" where
  "frame q = ((\<lambda>r. meta (heap q r)), free_queue.more q)"

lemma frame_set [simp]:
  "frame (set_next r v q) = frame q" "frame (set_prev r v q) = frame q"
  "frame (num_free_blocks_update f q) = frame q"
  by (auto simp: frame_def set_next_def set_prev_def meta_def fun_eq_iff)

lemma frame_meta: "frame q = frame q' \<Longrightarrow> meta (heap q r) = meta (heap q' r)"
  by (auto simp: frame_def fun_eq_iff)

lemma frame_fields:
  assumes "frame q = frame q'"
  shows "block_id (heap q r) = block_id (heap q' r)" "ref_cnt (heap q r) = ref_cnt (heap q' r)"
    "bl_hash (heap q r) = bl_hash (heap q' r)" "is_null (heap q r) = is_null (heap q' r)"
    "free_queue.more q = free_queue.more q'"
  using frame_meta [OF assms, of r] assms by (auto simp: meta_def frame_def)

subsection \<open>Each operation on the represented list\<close>

lemma popleft_empty:
  assumes "queue_rep q []" shows "popleft q = Inl ValueError"
  using queue_repD [OF assms] by (simp add: popleft_def)

lemma popleft_rep:
  assumes rep: "queue_rep q (x # xs)"
  shows "\<exists>q'. popleft q = Inr (x, q') \<and> queue_rep q' xs \<and> frame q' = frame q"
proof -
  note d = queue_repD [OF rep]
  from d(1) have hd: "nxt q FakeHead = Some x" by simp
  define y where "y = (case xs of [] \<Rightarrow> FakeTail | z # _ \<Rightarrow> z)"
  have nx: "nxt q x = Some y" using d(1) by (auto simp: y_def dest: links_first)
  have xy: "x \<noteq> y" "x \<noteq> FakeHead" "x \<noteq> FakeTail" "y \<noteq> FakeHead"
    using d(2-4) by (auto simp: y_def split: list.splits)
  define q' where "q' = (let q = set_next FakeHead (Some y) q; q = set_prev y (Some FakeHead) q;
    q = set_next x None (set_prev x None q) in q\<lparr>num_free_blocks := num_free_blocks q - 1\<rparr>)"
  have n': "nxt q' = (\<lambda>r. if r = x then None else if r = FakeHead then Some y else nxt q r)"
    and p': "prv q' = (\<lambda>r. if r = x then None else if r = y then Some FakeHead else prv q r)"
    by (auto simp: q'_def Let_def fun_eq_iff)
  have "links (nxt q') (prv q') FakeHead xs FakeTail"
  proof (cases xs)
    case Nil
    then show ?thesis using xy by (simp add: n' p' y_def)
  next
    case (Cons z zs)
    have "links (nxt q') (prv q') z zs FakeTail = links (nxt q) (prv q) z zs FakeTail"
      using Cons d(2-4) by (intro links_cong) (auto simp: n' p' y_def)
    then show ?thesis using Cons d(1-4) by (auto simp: n' p' y_def)
  qed
  moreover have "popleft q = Inr (x, q')"
    using hd nx xy by (simp add: popleft_def q'_def Let_def)
  moreover have "frame q' = frame q" by (simp add: q'_def Let_def)
  moreover have "num_free_blocks q' = int (length xs)" using d(7) by (simp add: q'_def Let_def)
  moreover have "\<forall>r. r \<notin> set xs \<and> r \<noteq> FakeHead \<and> r \<noteq> FakeTail \<longrightarrow> nxt q' r = None \<and> prv q' r = None"
    using d(8) by (auto simp: n' p' y_def split: list.splits)
  ultimately show ?thesis using d xy by (auto simp: queue_rep_def n' p')
qed

text \<open>The walk of \<open>popleft_n\<close> follows the forward pointers only.\<close>

fun fwd_path :: "(bref \<Rightarrow> bref option) \<Rightarrow> bref option \<Rightarrow> bref list \<Rightarrow> bref \<Rightarrow> bool" where
  "fwd_path n c [] z \<longleftrightarrow> c = Some z"
| "fwd_path n c (x # xs) z \<longleftrightarrow> c = Some x \<and> fwd_path n (n x) xs z"

lemma links_fwd_path: "links n p a xs z \<Longrightarrow> fwd_path n (n a) xs z"
  by (induction xs arbitrary: a) auto

lemma fwd_path_cong:
  "(\<And>r. r \<in> set xs \<Longrightarrow> n r = n' r) \<Longrightarrow> fwd_path n c xs z = fwd_path n' c xs z"
  by (induction xs arbitrary: c) auto

lemma popleft_n_loop_eq:
  assumes "fwd_path (nxt q) c xs z" "distinct xs" "k \<le> length xs"
  shows "\<exists>q'. popleft_n_loop k c q = Inr (take k xs, Some (hd (drop k xs @ [z])), q')
    \<and> nxt q' = (\<lambda>r. if r \<in> set (take k xs) then None else nxt q r)
    \<and> prv q' = (\<lambda>r. if r \<in> set (take k xs) then None else prv q r)
    \<and> frame q' = frame q \<and> num_free_blocks q' = num_free_blocks q"
  using assms
proof (induction k arbitrary: q c xs)
  case 0
  then show ?case by (cases xs) auto
next
  case (Suc k)
  then obtain x ys where xs: "xs = x # ys" by (cases xs) auto
  let ?q = "set_next x None (set_prev x None q)"
  from Suc.prems xs have c: "c = Some x" and d: "distinct ys" "x \<notin> set ys" "k \<le> length ys"
    and path: "fwd_path (nxt q) (nxt q x) ys z" by auto
  have "fwd_path (nxt ?q) (nxt q x) ys z"
    using path d(2) by (subst fwd_path_cong [where n' = "nxt q"]) auto
  from Suc.IH [OF this d(1) d(3)] obtain q' where
    q': "popleft_n_loop k (nxt q x) ?q = Inr (take k ys, Some (hd (drop k ys @ [z])), q')"
      "nxt q' = (\<lambda>r. if r \<in> set (take k ys) then None else nxt ?q r)"
      "prv q' = (\<lambda>r. if r \<in> set (take k ys) then None else prv ?q r)"
      "frame q' = frame ?q" "num_free_blocks q' = num_free_blocks ?q"
    by blast
  then show ?case using xs c by (auto simp: fun_eq_iff)
qed

lemma popleft_n_rep:
  assumes rep: "queue_rep q xs" and n: "0 \<le> n" "n \<le> int (length xs)"
  shows "\<exists>q'. popleft_n n q = Inr (take (nat n) xs, q') \<and> queue_rep q' (drop (nat n) xs)
    \<and> frame q' = frame q"
proof (cases "n = 0")
  case True
  then show ?thesis using rep by (simp add: popleft_n_def)
next
  case False
  note d = queue_repD [OF rep]
  let ?k = "nat n" and ?q0 = "q\<lparr>num_free_blocks := num_free_blocks q - n\<rparr>"
  have k: "?k \<le> length xs" using n by simp
  have path: "fwd_path (nxt ?q0) (nxt q FakeHead) xs FakeTail"
    using links_fwd_path [OF d(1)] by simp
  define c where "c = hd (drop ?k xs @ [FakeTail])"
  from popleft_n_loop_eq [OF path d(2) k] obtain q1 where
    q1: "popleft_n_loop ?k (nxt q FakeHead) ?q0 = Inr (take ?k xs, Some c, q1)"
      "nxt q1 = (\<lambda>r. if r \<in> set (take ?k xs) then None else nxt q r)"
      "prv q1 = (\<lambda>r. if r \<in> set (take ?k xs) then None else prv q r)"
      "frame q1 = frame q" "num_free_blocks q1 = num_free_blocks q - n"
    unfolding c_def by (auto cong: if_cong)
  define q2 where "q2 = set_prev c (Some FakeHead) (set_next FakeHead (Some c) q1)"
  have nk: "\<not> n \<le> 0" using False n by simp
  obtain w ws where tk: "take ?k xs = ws @ [w]"
    using nk k False n by (cases "take ?k xs" rule: rev_cases) auto
  have xs: "xs = ws @ w # drop ?k xs" using tk by (metis append_Cons append_Nil append_assoc append_take_drop_id)
  have sub: "set (take ?k xs) \<subseteq> set xs" "set (drop ?k xs) \<subseteq> set xs"
    by (rule set_take_subset, rule set_drop_subset)
  have c_notin: "c \<notin> set (take ?k xs)" "c \<noteq> FakeHead"
  proof -
    have "c \<in> set (drop ?k xs) \<or> c = FakeTail" by (cases "drop ?k xs") (auto simp: c_def)
    then show "c \<notin> set (take ?k xs)" "c \<noteq> FakeHead"
      using distinct_set_take_drop [OF d(2), of ?k] d(3,4) sub by auto
  qed
  have lk: "links (nxt q) (prv q) w (drop ?k xs) FakeTail"
    using d(1) links_append [of "nxt q" "prv q" FakeHead ws w "drop ?k xs" FakeTail] xs by simp
  have "links (nxt q2) (prv q2) FakeHead (drop ?k xs) FakeTail"
  proof (cases "drop ?k xs")
    case Nil
    then show ?thesis using c_notin by (simp add: q2_def q1 c_def)
  next
    case (Cons z zs)
    have "links (nxt q2) (prv q2) z zs FakeTail = links (nxt q) (prv q) z zs FakeTail"
    proof (rule links_cong)
      have dj: "set (take ?k xs) \<inter> set (z # zs) = {}"
        using distinct_set_take_drop [OF d(2), of ?k] Cons by simp
      have "distinct (z # zs)" using d(2) Cons by (metis distinct_drop)
      then show "nxt q2 r = nxt q r" if "r = z \<or> r \<in> set zs" for r
        using that dj d(3) sub Cons by (auto simp: q2_def q1)
      show "prv q2 r = prv q r" if "r \<in> set zs \<or> r = FakeTail" for r
        using that dj d(4) sub Cons \<open>distinct (z # zs)\<close>
        by (auto simp: q2_def q1 c_def)
    qed
    then show ?thesis using Cons lk c_notin by (simp add: q2_def q1 c_def)
  qed
  moreover have "popleft_n n q = Inr (take ?k xs, q2)"
    using False d(7) n q1 by (simp add: popleft_n_def q2_def)
  moreover have "frame q2 = frame q" "num_free_blocks q2 = int (length (drop ?k xs))"
    using d(7) n q1 by (simp_all add: q2_def)
  moreover have "\<forall>r. r \<notin> set (drop ?k xs) \<and> r \<noteq> FakeHead \<and> r \<noteq> FakeTail
      \<longrightarrow> nxt q2 r = None \<and> prv q2 r = None"
    using d(8) set_take_Un_drop [of ?k xs] by (auto simp: q2_def q1 c_def hd_append)
  moreover have "FakeHead \<notin> set (drop ?k xs)" "FakeTail \<notin> set (drop ?k xs)" "distinct (drop ?k xs)"
    using d(2-4) by (auto dest: in_set_dropD)
  moreover have "prv q2 FakeHead = None" "nxt q2 FakeTail = None"
    using d(5,6) c_notin by (auto simp: q2_def q1)
  ultimately show ?thesis by (auto simp: queue_rep_def)
qed

lemma remove_rep:
  assumes rep: "queue_rep q (xs @ x # ys)"
  shows "\<exists>q'. remove x q = Inr q' \<and> queue_rep q' (xs @ ys) \<and> frame q' = frame q"
proof -
  note d = queue_repD [OF rep]
  define a where "a = (if xs = [] then FakeHead else last xs)"
  define z where "z = (case ys of [] \<Rightarrow> FakeTail | y # _ \<Rightarrow> y)"
  have lk: "links (nxt q) (prv q) FakeHead xs x" "links (nxt q) (prv q) x ys FakeTail"
    using d(1) links_append by blast+
  have px: "prv q x = Some a" using links_last [OF lk(1)] by (simp add: a_def)
  have nx: "nxt q x = Some z" using links_first [OF lk(2)] by (simp add: z_def)
  have ax: "a \<noteq> x" "a \<notin> set ys" "a \<noteq> FakeTail" using d(2-4) by (cases xs rule: rev_cases; auto simp: a_def)+
  have zx: "z \<noteq> x" "z \<notin> set xs" "z \<noteq> FakeHead" using d(2-4) by (auto simp: z_def split: list.splits)
  define q' where "q' = (let q = set_next a (Some z) q; q = set_prev z (Some a) q;
    q = set_next x None (set_prev x None q) in q\<lparr>num_free_blocks := num_free_blocks q - 1\<rparr>)"
  have n': "nxt q' r = (if r = x then None else if r = a then Some z else nxt q r)"
    and p': "prv q' r = (if r = x then None else if r = z then Some a else prv q r)" for r
    by (auto simp: q'_def Let_def)
  have "links (nxt q') (prv q') FakeHead (xs @ ys) FakeTail"
  proof (cases ys)
    case Nil
    then have zT: "z = FakeTail" by (simp add: z_def)
    show ?thesis
    proof (cases xs rule: rev_cases)
      case Nil
      then show ?thesis using \<open>ys = []\<close> ax zx by (simp add: n' p' a_def z_def)
    next
      case (snoc ws w)
      have "links (nxt q) (prv q) FakeHead ws w"
        using lk(1) snoc by (simp add: links_append)
      then have "links (nxt q') (prv q') FakeHead ws w"
        by (subst links_cong [where n' = "nxt q" and p' = "prv q"])
          (use snoc d(2-4) zT in \<open>auto simp: n' p' a_def\<close>)
      then show ?thesis using snoc \<open>ys = []\<close> ax zx by (simp add: links_append n' p' a_def zT)
    qed
  next
    case (Cons y zs)
    then have zy: "z = y" by (simp add: z_def)
    have "links (nxt q) (prv q) y zs FakeTail" using lk(2) Cons by simp
    then have tl: "links (nxt q') (prv q') y zs FakeTail"
      by (subst links_cong [where n' = "nxt q" and p' = "prv q"])
        (use Cons d(2-4) ax in \<open>auto simp: n' p' zy\<close>)
    have "links (nxt q') (prv q') FakeHead xs y"
    proof (cases xs rule: rev_cases)
      case Nil
      then show ?thesis using ax zx by (simp add: n' p' a_def zy)
    next
      case (snoc ws w)
      have "links (nxt q) (prv q) FakeHead ws w" using lk(1) snoc by (simp add: links_append)
      then have "links (nxt q') (prv q') FakeHead ws w"
        by (subst links_cong [where n' = "nxt q" and p' = "prv q"])
          (use snoc d(2-4) zx in \<open>auto simp: n' p' a_def\<close>)
      then show ?thesis using snoc ax zx by (simp add: links_append n' p' a_def zy)
    qed
    then show ?thesis using tl Cons by (simp add: links_append)
  qed
  moreover have "remove x q = Inr q'" using px nx by (simp add: remove_def q'_def Let_def)
  moreover have "frame q' = frame q" "num_free_blocks q' = int (length (xs @ ys))"
    using d(7) by (simp_all add: q'_def Let_def)
  moreover have "prv q' FakeHead = None" "nxt q' FakeTail = None" using d(5,6) ax zx by (simp_all add: n' p')
  moreover have "\<forall>r. r \<notin> set (xs @ ys) \<and> r \<noteq> FakeHead \<and> r \<noteq> FakeTail \<longrightarrow> nxt q' r = None \<and> prv q' r = None"
    using d(8) by (auto simp: n' p' a_def z_def split: list.splits if_splits)
  ultimately show ?thesis using d(2-4) by (auto simp: queue_rep_def)
qed

lemma remove_detached:
  assumes rep: "queue_rep q xs" and r: "r \<notin> set xs"
  shows "remove r q = Inl RuntimeError"
proof (cases "r = FakeHead \<or> r = FakeTail")
  case True
  then show ?thesis using queue_repD(5,6) [OF rep] by (auto simp: remove_def split: option.splits)
next
  case False
  then show ?thesis using queue_repD(8) [OF rep r] by (simp add: remove_def)
qed

text \<open>A linked segment without its right end, for the loops that attach blocks one by one.\<close>

fun seg :: "(bref \<Rightarrow> bref option) \<Rightarrow> (bref \<Rightarrow> bref option) \<Rightarrow> bref \<Rightarrow> bref list \<Rightarrow> bool" where
  "seg n p a [] \<longleftrightarrow> True"
| "seg n p a (x # xs) \<longleftrightarrow> n a = Some x \<and> p x = Some a \<and> seg n p x xs"

lemma links_seg:
  "links n p a xs z \<longleftrightarrow> seg n p a xs \<and> n (last (a # xs)) = Some z \<and> p z = Some (last (a # xs))"
  by (induction xs arbitrary: a) auto

lemma seg_append: "seg n p a (xs @ ys) \<longleftrightarrow> seg n p a xs \<and> seg n p (last (a # xs)) ys"
  by (induction xs arbitrary: a) auto

lemma seg_cong:
  assumes "\<And>r. r \<in> set (butlast (a # xs)) \<Longrightarrow> n r = n' r" and "\<And>r. r \<in> set xs \<Longrightarrow> p r = p' r"
  shows "seg n p a xs \<longleftrightarrow> seg n' p' a xs"
  using assms by (induction xs arbitrary: a) auto

lemma last_notin_butlast: "distinct xs \<Longrightarrow> xs \<noteq> [] \<Longrightarrow> last xs \<notin> set (butlast xs)"
  by (cases xs rule: rev_cases) auto

lemma append_n_loop_eq:
  assumes "distinct (l # ys)"
  shows "\<exists>q'. append_n_loop ys l q = (last (l # ys), q') \<and> seg (nxt q') (prv q') l ys
    \<and> (\<forall>r. r \<notin> set (butlast (l # ys)) \<longrightarrow> nxt q' r = nxt q r)
    \<and> (\<forall>r. r \<notin> set ys \<longrightarrow> prv q' r = prv q r)
    \<and> frame q' = frame q \<and> num_free_blocks q' = num_free_blocks q"
  using assms
proof (induction ys arbitrary: l q)
  case Nil
  then show ?case by simp
next
  case (Cons y ys)
  let ?q = "set_next l (Some y) (set_prev y (Some l) q)"
  from Cons.IH [of y ?q] Cons.prems obtain q' where
    q': "append_n_loop ys y ?q = (last (y # ys), q')" "seg (nxt q') (prv q') y ys"
      "\<forall>r. r \<notin> set (butlast (y # ys)) \<longrightarrow> nxt q' r = nxt ?q r"
      "\<forall>r. r \<notin> set ys \<longrightarrow> prv q' r = prv ?q r"
      "frame q' = frame ?q" "num_free_blocks q' = num_free_blocks ?q"
    by auto
  have "l \<notin> set (butlast (y # ys))" using Cons.prems by (auto dest: in_set_butlastD)
  then show ?case using q' Cons.prems by auto
qed

lemma append_n_rep:
  assumes rep: "queue_rep q xs" and ys: "distinct ys" "set ys \<inter> set xs = {}"
    "FakeHead \<notin> set ys" "FakeTail \<notin> set ys"
  shows "\<exists>q'. append_n ys q = Inr q' \<and> queue_rep q' (xs @ ys) \<and> frame q' = frame q"
proof (cases "ys = []")
  case True
  then show ?thesis using rep by (simp add: append_n_def)
next
  case False
  note d = queue_repD [OF rep]
  define l where "l = last (FakeHead # xs)"
  have pt: "prv q FakeTail = Some l" using d(1) by (simp add: links_seg l_def)
  have ly: "l \<notin> set ys" "l \<noteq> FakeTail" using ys d(4) by (cases xs rule: rev_cases; auto simp: l_def)+
  have dl: "distinct (l # ys)" using ly ys by simp
  from append_n_loop_eq [OF dl, of q] obtain q1 where
    q1: "append_n_loop ys l q = (last (l # ys), q1)" "seg (nxt q1) (prv q1) l ys"
      "\<forall>r. r \<notin> set (butlast (l # ys)) \<longrightarrow> nxt q1 r = nxt q r" "\<forall>r. r \<notin> set ys \<longrightarrow> prv q1 r = prv q r"
      "frame q1 = frame q" "num_free_blocks q1 = num_free_blocks q"
    by blast
  define w where "w = last ys"
  have w: "w \<in> set ys" "last (l # ys) = w" using False by (auto simp: w_def)
  define q2 where "q2 = (let q = set_next w (Some FakeTail) q1; q = set_prev FakeTail (Some w) q
    in q\<lparr>num_free_blocks := num_free_blocks q + int (length ys)\<rparr>)"
  have n2: "nxt q2 r = (if r = w then Some FakeTail else nxt q1 r)"
    and p2: "prv q2 r = (if r = FakeTail then Some w else prv q1 r)" for r
    by (auto simp: q2_def Let_def)
  have wl: "w \<notin> set (butlast (l # ys))"
    using last_notin_butlast [OF dl] w(2) by simp
  have seg_ys: "seg (nxt q2) (prv q2) l ys"
    using q1(2) by (subst seg_cong [where n' = "nxt q1" and p' = "prv q1"]) (use wl ys in \<open>auto simp: n2 p2\<close>)
  have keep: "nxt q2 r = nxt q r" if "r \<notin> set ys" "r \<noteq> l" for r
    using that q1(3) w(1) by (auto simp: n2 dest: in_set_butlastD split: if_splits)
  have bl: "r \<noteq> l" if "r \<in> set (butlast (FakeHead # xs))" for r
    using last_notin_butlast [of "FakeHead # xs"] d(2,3) that unfolding l_def by auto
  have "seg (nxt q2) (prv q2) FakeHead xs"
  proof (subst seg_cong [where n' = "nxt q" and p' = "prv q"])
    show "nxt q2 r = nxt q r" if "r \<in> set (butlast (FakeHead # xs))" for r
    proof (rule keep [OF _ bl [OF that]])
      show "r \<notin> set ys" using that ys by (auto dest: in_set_butlastD split: if_splits)
    qed
    show "prv q2 r = prv q r" if "r \<in> set xs" for r
      using that q1(4) ys d(4) by (auto simp: p2)
    show "seg (nxt q) (prv q) FakeHead xs" using d(1) by (simp add: links_seg)
  qed
  then have "links (nxt q2) (prv q2) FakeHead (xs @ ys) FakeTail"
    using seg_ys False w by (auto simp: links_seg seg_append l_def n2 p2 w_def)
  moreover have "append_n ys q = Inr q2"
    using False pt q1(1) w(2) by (simp add: append_n_def q2_def Let_def)
  moreover have "frame q2 = frame q" "num_free_blocks q2 = int (length (xs @ ys))"
    using d(7) q1 by (simp_all add: q2_def Let_def)
  moreover have "prv q2 FakeHead = None" "nxt q2 FakeTail = None"
    using d(5,6) ys q1(4) keep [of FakeTail] ly by (auto simp: p2)
  moreover have "\<forall>r. r \<notin> set (xs @ ys) \<and> r \<noteq> FakeHead \<and> r \<noteq> FakeTail \<longrightarrow> nxt q2 r = None \<and> prv q2 r = None"
  proof (intro allI impI)
    fix r assume r: "r \<notin> set (xs @ ys) \<and> r \<noteq> FakeHead \<and> r \<noteq> FakeTail"
    then have "r \<noteq> l" by (cases xs rule: rev_cases) (auto simp: l_def)
    then show "nxt q2 r = None \<and> prv q2 r = None"
      using r keep [of r] q1(4) d(8) [of r] by (auto simp: p2)
  qed
  ultimately show ?thesis using d(2-4) ys by (auto simp: queue_rep_def)
qed

lemma set_next_prev_commute: "set_next r v (set_prev s w q) = set_prev s w (set_next r v q)"
  by (auto simp: set_next_def set_prev_def fun_eq_iff)

lemma append_block_append_n:
  "prv q FakeTail \<noteq> None \<Longrightarrow> append_block b q = append_n [b] q"
  by (auto simp: append_block_def append_n_def Let_def set_next_prev_commute)

lemma append_block_rep:
  assumes rep: "queue_rep q xs" and b: "b \<notin> set xs" "b \<noteq> FakeHead" "b \<noteq> FakeTail"
  shows "\<exists>q'. append_block b q = Inr q' \<and> queue_rep q' (xs @ [b]) \<and> frame q' = frame q"
proof -
  have "prv q FakeTail \<noteq> None" using links_last [OF queue_repD(1) [OF rep]] by simp
  then show ?thesis using append_n_rep [OF rep, of "[b]"] b by (simp add: append_block_append_n)
qed

subsection \<open>Initialisation and the debug walk\<close>

lemma link_consecutive_eq:
  assumes "distinct (b # bs)"
  shows "seg (nxt (link_consecutive (b # bs) q)) (prv (link_consecutive (b # bs) q)) b bs
    \<and> (\<forall>r. r \<notin> set (butlast (b # bs)) \<longrightarrow> nxt (link_consecutive (b # bs) q) r = nxt q r)
    \<and> (\<forall>r. r \<notin> set bs \<longrightarrow> prv (link_consecutive (b # bs) q) r = prv q r)
    \<and> frame (link_consecutive (b # bs) q) = frame q
    \<and> num_free_blocks (link_consecutive (b # bs) q) = num_free_blocks q"
  using assms
proof (induction bs arbitrary: b q)
  case Nil
  then show ?case by simp
next
  case (Cons c bs)
  let ?q = "set_prev c (Some b) (set_next b (Some c) q)"
  note IH = Cons.IH [of c ?q]
  have "b \<notin> set (butlast (c # bs))" using Cons.prems by (auto dest: in_set_butlastD)
  then show ?case using IH Cons.prems by auto
qed

definition fresh_links :: "'a free_queue_scheme \<Rightarrow> bool" where
  "fresh_links q \<longleftrightarrow> (\<forall>r. nxt q r = None \<and> prv q r = None)"

lemma init_free_queue_rep:
  assumes fresh: "fresh_links q" and d: "distinct bs" "FakeHead \<notin> set bs" "FakeTail \<notin> set bs"
  shows "queue_rep (init_free_queue bs q) bs"
    and "\<And>r. r \<noteq> FakeHead \<Longrightarrow> r \<noteq> FakeTail \<Longrightarrow> meta (heap (init_free_queue bs q) r) = meta (heap q r)"
    and "free_queue.more (init_free_queue bs q) = free_queue.more q"
proof -
  define q1 where "q1 = link_consecutive bs (q\<lparr>num_free_blocks := int (length bs)\<rparr>)"
  define q2 where
    "q2 = q1\<lparr>heap := (heap q1)(FakeHead := new_kv_block (-1), FakeTail := new_kv_block (-1))\<rparr>"
  have n2: "nxt q2 r = (if r = FakeHead \<or> r = FakeTail then None else nxt q1 r)"
    and p2: "prv q2 r = (if r = FakeHead \<or> r = FakeTail then None else prv q1 r)" for r
    by (auto simp: q2_def nxt_def prv_def new_kv_block_def)
  have fr1: "frame q1 = frame q" "num_free_blocks q1 = int (length bs)"
    using link_consecutive_eq [of "hd bs" "tl bs" "q\<lparr>num_free_blocks := int (length bs)\<rparr>"] d
    by (cases bs; simp add: q1_def)+
  have m2: "meta (heap q2 r) = meta (heap q r)" if "r \<noteq> FakeHead" "r \<noteq> FakeTail" for r
    using that frame_meta [OF fr1(1), of r] by (simp add: q2_def)
  have more2: "free_queue.more q2 = free_queue.more q"
    using frame_fields(5) [OF fr1(1)] by (simp add: q2_def)
  define q3 where "q3 = init_free_queue bs q"
  have rep: "queue_rep q3 bs \<and> frame q3 = frame q2"
  proof (cases bs)
    case Nil
    then have q3: "q3 = set_prev FakeTail (Some FakeHead) (set_next FakeHead (Some FakeTail) q2)"
      by (simp add: q3_def init_free_queue_def q2_def q1_def)
    have "num_free_blocks q2 = 0" using fr1(2) Nil by (simp add: q2_def)
    moreover have "nxt q1 = nxt q" "prv q1 = prv q" using Nil by (simp_all add: q1_def)
    ultimately show ?thesis using Nil fresh n2 p2
      by (auto simp: q3 queue_rep_def fresh_links_def)
  next
    case (Cons b cs)
    have q3: "q3 = set_next (last bs) (Some FakeTail) (set_prev FakeTail (Some (last bs))
                (set_prev (hd bs) (Some FakeHead) (set_next FakeHead (Some (hd bs)) q2)))"
      using Cons fr1(2) by (simp add: q3_def init_free_queue_def Let_def q2_def q1_def)
    have n3: "nxt q3 r = (if r = last bs then Some FakeTail else if r = FakeHead then Some b
                else nxt q2 r)"
      and p3: "prv q3 r = (if r = FakeTail then Some (last bs) else if r = b then Some FakeHead
                else prv q2 r)" for r
      using Cons d by (auto simp: q3)
    note lc = link_consecutive_eq [of b cs "q\<lparr>num_free_blocks := int (length bs)\<rparr>",
        folded Cons, OF d(1), folded q1_def]
    have lastb: "last bs \<notin> set (butlast bs)" using last_notin_butlast [OF d(1)] Cons by simp
    have "seg (nxt q3) (prv q3) b cs"
    proof (subst seg_cong [where n' = "nxt q1" and p' = "prv q1"])
      show "nxt q3 r = nxt q1 r" if "r \<in> set (butlast (b # cs))" for r
        using that lastb d Cons by (auto simp: n3 n2 dest: in_set_butlastD split: if_splits)
      show "prv q3 r = prv q1 r" if "r \<in> set cs" for r
        using that d Cons by (auto simp: p3 p2)
      show "seg (nxt q1) (prv q1) b cs" using lc by simp
    qed
    moreover have lb: "last bs \<noteq> FakeTail" "last bs \<noteq> FakeHead" "b \<noteq> FakeHead"
      using d Cons last_in_set [of bs] by auto
    ultimately have "links (nxt q3) (prv q3) FakeHead bs FakeTail"
      using Cons d by (auto simp: links_seg n3 p3)
    moreover have "nxt q3 r = None \<and> prv q3 r = None"
      if "r \<notin> set bs" "r \<noteq> FakeHead" "r \<noteq> FakeTail" for r
    proof -
      have "r \<noteq> last bs" "r \<noteq> b" "r \<notin> set (butlast bs)" "r \<notin> set cs"
        using that(1) Cons by (auto dest: in_set_butlastD)
      then show ?thesis using that lc fresh by (auto simp: n3 p3 n2 p2 fresh_links_def)
    qed
    moreover have "frame q3 = frame q2" by (simp add: q3)
    moreover have "num_free_blocks q3 = int (length bs)" using fr1(2) by (simp add: q3 q2_def)
    ultimately show ?thesis using d lb by (auto simp: queue_rep_def n3 p3 n2 p2)
  qed
  then show "queue_rep (init_free_queue bs q) bs" by (simp add: q3_def)
  have fr: "frame (init_free_queue bs q) = frame q2" using rep by (simp add: q3_def)
  show "meta (heap (init_free_queue bs q) r) = meta (heap q r)"
    if "r \<noteq> FakeHead" "r \<noteq> FakeTail" for r
    using frame_meta [OF fr, of r] m2 [OF that] by simp
  show "free_queue.more (init_free_queue bs q) = free_queue.more q"
    using frame_fields(5) [OF fr] more2 by simp
qed

lemma walk_free_blocks_eq:
  "fwd_path n (Some c) xs z \<Longrightarrow> n z = None \<Longrightarrow> walk_free_blocks n c ret = Some (ret @ xs)"
proof (induction xs arbitrary: c ret)
  case Nil
  then show ?case by (subst walk_free_blocks.simps) simp
next
  case (Cons x xs)
  then obtain m where "n x = Some m" by (cases xs) auto
  with Cons show ?case by (subst walk_free_blocks.simps) auto
qed

lemma get_all_free_blocks_rep:
  assumes "queue_rep q xs" shows "get_all_free_blocks q = Some (Inr xs)"
proof -
  note d = queue_repD [OF assms]
  obtain c where c: "nxt q FakeHead = Some c" using links_first [OF d(1)] by blast
  have "walk_free_blocks (nxt q) c [] = Some ([] @ xs)"
    using links_fwd_path [OF d(1)] c d(6) by (intro walk_free_blocks_eq [where z = FakeTail]) auto
  then show ?thesis using c by (simp add: get_all_free_blocks_def)
qed

lemma queue_rep_unique: "queue_rep q xs \<Longrightarrow> queue_rep q ys \<Longrightarrow> xs = ys"
  using get_all_free_blocks_rep [of q xs] get_all_free_blocks_rep [of q ys] by simp

subsection \<open>The contract of the free queue, as the block pool relies on it\<close>

text \<open>
  \<open>rep q xs\<close>: the queue represents \<open>xs\<close>; \<open>obs q\<close>: everything about the state that no queue
  operation changes; \<open>real\<close>: the references that may be enqueued.
\<close>

locale block_queue =
  fixes rep :: "'q \<Rightarrow> 'b list \<Rightarrow> bool"
    and obs :: "'q \<Rightarrow> 'o"
    and real :: "'b \<Rightarrow> bool"
    and count :: "'q \<Rightarrow> int"
    and pop_n :: "int \<Rightarrow> 'q \<Rightarrow> ('b list \<times> 'q) result"
    and rem :: "'b \<Rightarrow> 'q \<Rightarrow> 'q result"
    and app_n :: "'b list \<Rightarrow> 'q \<Rightarrow> 'q result"
  assumes rep_unique: "rep q xs \<Longrightarrow> rep q ys \<Longrightarrow> xs = ys"
    and rep_distinct: "rep q xs \<Longrightarrow> distinct xs"
    and count_rep: "rep q xs \<Longrightarrow> count q = int (length xs)"
    and pop_n_rep: "rep q xs \<Longrightarrow> 0 \<le> n \<Longrightarrow> n \<le> count q \<Longrightarrow>
      \<exists>q'. pop_n n q = Inr (take (nat n) xs, q') \<and> rep q' (drop (nat n) xs) \<and> obs q' = obs q"
    and rem_rep: "rep q xs \<Longrightarrow> x \<in> set xs \<Longrightarrow>
      \<exists>q'. rem x q = Inr q' \<and> rep q' (remove1 x xs) \<and> obs q' = obs q"
    and app_n_rep: "rep q xs \<Longrightarrow> distinct ys \<Longrightarrow> set ys \<inter> set xs = {} \<Longrightarrow> \<forall>y \<in> set ys. real y \<Longrightarrow>
      \<exists>q'. app_n ys q = Inr q' \<and> rep q' (xs @ ys) \<and> obs q' = obs q"
begin

lemma pop_n_inv:
  assumes "rep q xs" "0 \<le> n" "n \<le> count q" "pop_n n q = Inr (ys, q')"
  shows "ys = take (nat n) xs" "rep q' (drop (nat n) xs)" "obs q' = obs q"
  using pop_n_rep [OF assms(1-3)] assms(4) by auto

lemma rem_inv:
  assumes "rep q xs" "x \<in> set xs" "rem x q = Inr q'"
  shows "rep q' (remove1 x xs)" "obs q' = obs q" "count q' = count q - 1"
proof -
  from rem_rep [OF assms(1,2)] assms(3) show r: "rep q' (remove1 x xs)" and "obs q' = obs q" by auto
  have "length xs = Suc (length (remove1 x xs))"
    using length_pos_if_in_set [OF assms(2)] assms(2) by (simp add: length_remove1)
  then show "count q' = count q - 1"
    using count_rep [OF r] count_rep [OF assms(1)] by simp
qed

lemma app_n_inv:
  assumes "rep q xs" "distinct ys" "set ys \<inter> set xs = {}" "\<forall>y \<in> set ys. real y" "app_n ys q = Inr q'"
  shows "rep q' (xs @ ys)" "obs q' = obs q" "count q' = count q + int (length ys)"
proof -
  from app_n_rep [OF assms(1-4)] assms(5) show r: "rep q' (xs @ ys)" and "obs q' = obs q" by auto
  then show "count q' = count q + int (length ys)"
    using count_rep [OF r] count_rep [OF assms(1)] by simp
qed

text \<open>Least recently freed first: what was free before an append is popped before it.\<close>

lemma freed_last_popped_last:
  assumes "rep q xs" "distinct ys" "set ys \<inter> set xs = {}" "\<forall>y \<in> set ys. real y" "app_n ys q = Inr q'"
    and "0 \<le> n" "n \<le> count q'" "pop_n n q' = Inr (zs, q'')"
  shows "zs = take (nat n) xs @ take (nat n - length xs) ys"
  using pop_n_inv(1) [OF app_n_inv(1) [OF assms(1-5)] assms(6-8)] by simp

text \<open>Popping in two steps is popping at once.\<close>

lemma pop_n_add:
  assumes "rep q xs" "0 \<le> m" "0 \<le> n" "m + n \<le> count q"
  obtains q1 q2 where "pop_n m q = Inr (take (nat m) xs, q1)"
    "pop_n n q1 = Inr (take (nat n) (drop (nat m) xs), q2)" "rep q2 (drop (nat (m + n)) xs)"
    "obs q2 = obs q"
proof -
  obtain q1 where q1: "pop_n m q = Inr (take (nat m) xs, q1)" "rep q1 (drop (nat m) xs)" "obs q1 = obs q"
    using pop_n_rep [OF assms(1,2)] assms(3,4) by auto
  have "n \<le> count q1" using count_rep [OF q1(2)] count_rep [OF assms(1)] assms(2-4) by simp
  from pop_n_rep [OF q1(2) assms(3) this] q1 assms(2,3) that show thesis
    by (auto simp: nat_add_distrib add.commute)
qed

text \<open>Taking back a block that has just been freed undoes the free.\<close>

lemma app_then_rem:
  assumes "rep q xs" "x \<notin> set xs" "real x" "app_n [x] q = Inr q'"
  shows "\<exists>q''. rem x q' = Inr q'' \<and> rep q'' xs \<and> obs q'' = obs q"
proof -
  have r: "rep q' (xs @ [x])" "obs q' = obs q" using app_n_inv [OF assms(1), of "[x]"] assms(2-4) by auto
  show ?thesis using rem_rep [OF r(1), of x] r(2) assms(2) by (simp add: remove1_append)
qed

end

lemma remove_rep_remove1:
  assumes "queue_rep q xs" "x \<in> set xs"
  shows "\<exists>q'. remove x q = Inr q' \<and> queue_rep q' (remove1 x xs) \<and> frame q' = frame q"
proof -
  obtain ys zs where xs: "xs = ys @ x # zs" "x \<notin> set ys" using assms(2) by (meson split_list_first)
  then show ?thesis using remove_rep [of q ys x zs] assms(1) by (simp add: remove1_append)
qed

interpretation fq: block_queue queue_rep frame "\<lambda>b. b \<noteq> FakeHead \<and> b \<noteq> FakeTail"
  num_free_blocks popleft_n remove append_n
proof unfold_locales
  show "\<exists>q'. append_n ys q = Inr q' \<and> queue_rep q' (xs @ ys) \<and> frame q' = frame q"
    if "queue_rep q xs" "distinct ys" "set ys \<inter> set xs = {}"
      "\<forall>y \<in> set ys. y \<noteq> FakeHead \<and> y \<noteq> FakeTail" for q :: "'a free_queue_scheme" and xs ys
    using that by (intro append_n_rep) auto
qed (auto dest: queue_rep_unique queue_repD(2,7) intro!: popleft_n_rep remove_rep_remove1)

subsection \<open>Properties of the queue\<close>

definition example_queue :: free_queue where
  "example_queue = init_free_queue [Blk 1, Blk 2, Blk 3] \<lparr>heap = (\<lambda>_. new_kv_block 0), num_free_blocks = 0\<rparr>"

lemma example_queue_rep: "queue_rep example_queue [Blk 1, Blk 2, Blk 3]"
  unfolding example_queue_def
  by (rule init_free_queue_rep) (simp_all add: fresh_links_def nxt_def prv_def new_kv_block_def)

text \<open>
  The pointer manipulation of \<open>popleft_n\<close> takes exactly the first \<open>n\<close> blocks of the list that the
  queue represents, leaves the rest in order and touches nothing else; asking for more blocks than
  there are is refused.
\<close>

theorem popleft_n_correct:
  assumes "queue_rep q xs" "0 \<le> n"
  shows "if n \<le> int (length xs)
    then \<exists>q'. popleft_n n q = Inr (take (nat n) xs, q') \<and> queue_rep q' (drop (nat n) xs) \<and> frame q' = frame q
    else popleft_n n q = Inl AssertionError"
  using popleft_n_rep [OF assms] assms queue_repD(7) [OF assms(1)] by (auto simp: popleft_n_def)

theorem popleft_n_correct_witness:
  "(\<exists>q'. popleft_n 2 example_queue = Inr ([Blk 1, Blk 2], q') \<and> queue_rep q' [Blk 3])
    \<and> popleft_n 4 example_queue = Inl AssertionError"
  using popleft_n_correct [OF example_queue_rep, of 2] popleft_n_correct [OF example_queue_rep, of 4]
  by auto

text \<open>
  C32: The free list is a queue: blocks that are freed together are handed out after everything that
  was free before, in the order in which they were freed.
\<close>

theorem free_queue_lru:
  assumes rep: "queue_rep q xs" and ys: "distinct ys" "set ys \<inter> set xs = {}" "FakeHead \<notin> set ys" "FakeTail \<notin> set ys"
    and app: "append_n ys q = Inr q'" and n: "0 \<le> n" and pop: "popleft_n n q' = Inr (zs, q'')"
  shows "zs = take (nat n) xs @ take (nat n - length xs) ys \<and> queue_rep q'' (drop (nat n) (xs @ ys))
    \<and> frame q'' = frame q"
proof -
  have r: "\<forall>y \<in> set ys. y \<noteq> FakeHead \<and> y \<noteq> FakeTail" using ys by auto
  note q' = fq.app_n_inv [OF rep ys(1,2) r app]
  have "n \<le> num_free_blocks q'" using pop n q'(3) queue_repD(7) [OF rep] by (auto simp: popleft_n_def ebind_eq_Inr split: if_splits)
  with fq.pop_n_inv [OF q'(1) n _ pop] q'(2) show ?thesis by simp
qed

theorem free_queue_lru_witness:
  "\<exists>q' q''. append_n [Blk 7, Blk 5] example_queue = Inr q'
    \<and> popleft_n 4 q' = Inr ([Blk 1, Blk 2, Blk 3, Blk 7], q'') \<and> queue_rep q'' [Blk 5]"
proof -
  obtain q' where a: "append_n [Blk 7, Blk 5] example_queue = Inr q'"
    and r: "queue_rep q' ([Blk 1, Blk 2, Blk 3] @ [Blk 7, Blk 5])"
    using append_n_rep [OF example_queue_rep, of "[Blk 7, Blk 5]"] by auto
  obtain zs q'' where p: "popleft_n 4 q' = Inr (zs, q'')" using popleft_n_rep [OF r, of 4] by auto
  from free_queue_lru [OF example_queue_rep _ _ _ _ a _ p] a p show ?thesis by auto
qed

text \<open>
  Removing a block from the middle and appending it again moves it to the end: reusing a cached
  block and freeing it makes it the most recently used one.
\<close>

theorem remove_then_append:
  assumes "queue_rep q (xs @ b # ys)"
  shows "\<exists>q' q''. remove b q = Inr q' \<and> queue_rep q' (xs @ ys) \<and> append_block b q' = Inr q''
    \<and> queue_rep q'' (xs @ ys @ [b]) \<and> frame q'' = frame q"
proof -
  obtain q' where q': "remove b q = Inr q'" "queue_rep q' (xs @ ys)" "frame q' = frame q"
    using remove_rep [OF assms] by blast
  have "b \<notin> set (xs @ ys)" "b \<noteq> FakeHead" "b \<noteq> FakeTail" using queue_repD(2,3,4) [OF assms] by auto
  from append_block_rep [OF q'(2) this] q' show ?thesis by auto
qed

theorem remove_then_append_witness:
  "\<exists>q' q''. remove (Blk 2) example_queue = Inr q' \<and> append_block (Blk 2) q' = Inr q''
    \<and> queue_rep q'' [Blk 1, Blk 3, Blk 2]"
  using remove_then_append [of example_queue "[Blk 1]" "Blk 2" "[Blk 3]"] example_queue_rep by auto

text \<open>
  Building the queue over a list of blocks and reading it back along the forward pointers gives
  the same list.
\<close>

theorem init_free_queue_roundtrip:
  assumes "fresh_links q" "distinct bs" "FakeHead \<notin> set bs" "FakeTail \<notin> set bs"
  shows "get_all_free_blocks (init_free_queue bs q) = Some (Inr bs)
    \<and> num_free_blocks (init_free_queue bs q) = int (length bs)"
  using get_all_free_blocks_rep [OF init_free_queue_rep(1) [OF assms]]
    queue_repD(7) [OF init_free_queue_rep(1) [OF assms]] by simp

theorem init_free_queue_roundtrip_witness:
  "get_all_free_blocks example_queue = Some (Inr [Blk 1, Blk 2, Blk 3])"
  unfolding example_queue_def
  by (rule init_free_queue_roundtrip [THEN conjunct1])
     (simp_all add: fresh_links_def nxt_def prv_def new_kv_block_def)

end
