(* ===== verification/Request_Model.thy ===== *)
theory Request_Model
  imports Complex_Main Block_Queue
begin

text \<open>
  \<open>vllm/v1/request.py\<close>: the request object, its status machine and its token lists, and the
  stop check and repetition detection of \<open>vllm/v1/core/sched/utils.py\<close>.  Fields that the
  code only forwards (client index, trace headers, events, KV-transfer parameters) are left
  out.  A hasher is a function of the request, as in the code (\<open>_block_hasher\<close> never changes
  after construction, so it is an argument here instead of a field).
\<close>

subsection \<open>Status\<close>

datatype request_status =
    WAITING | WAITING_FOR_STRUCTURED_OUTPUT_GRAMMAR | WAITING_FOR_REMOTE_KVS
  | WAITING_FOR_STREAMING_REQ | RUNNING | PREEMPTED
  | FINISHED_STOPPED | FINISHED_LENGTH_CAPPED | FINISHED_ABORTED | FINISHED_IGNORED
  | FINISHED_ERROR | FINISHED_REPETITION

text \<open>\<open>enum.auto()\<close> numbers the members from 1 in the order of declaration.\<close>

fun status_value :: "request_status \<Rightarrow> nat" where
  "status_value WAITING = 1"
| "status_value WAITING_FOR_STRUCTURED_OUTPUT_GRAMMAR = 2"
| "status_value WAITING_FOR_REMOTE_KVS = 3"
| "status_value WAITING_FOR_STREAMING_REQ = 4"
| "status_value RUNNING = 5"
| "status_value PREEMPTED = 6"
| "status_value FINISHED_STOPPED = 7"
| "status_value FINISHED_LENGTH_CAPPED = 8"
| "status_value FINISHED_ABORTED = 9"
| "status_value FINISHED_IGNORED = 10"
| "status_value FINISHED_ERROR = 11"
| "status_value FINISHED_REPETITION = 12"

lemma status_value_inj: "status_value s = status_value t \<Longrightarrow> s = t"
  by (cases s; cases t) simp_all

instantiation request_status :: linorder
begin

definition less_eq_request_status :: "request_status \<Rightarrow> request_status \<Rightarrow> bool" where
  "less_eq_request_status s t \<longleftrightarrow> status_value s \<le> status_value t"

definition less_request_status :: "request_status \<Rightarrow> request_status \<Rightarrow> bool" where
  "less_request_status s t \<longleftrightarrow> status_value s < status_value t"

instance
  by standard (auto simp: less_eq_request_status_def less_request_status_def dest: status_value_inj)

end

definition status_is_finished :: "request_status \<Rightarrow> bool" where
  "status_is_finished s \<longleftrightarrow> s > PREEMPTED"

datatype finish_reason = FR_STOP | FR_LENGTH | FR_ABORT | FR_ERROR | FR_REPETITION

definition finished_reason_map :: "request_status \<Rightarrow> finish_reason option" where
  "finished_reason_map = map_of
     [(FINISHED_STOPPED, FR_STOP), (FINISHED_LENGTH_CAPPED, FR_LENGTH), (FINISHED_ABORTED, FR_ABORT),
      (FINISHED_IGNORED, FR_LENGTH), (FINISHED_ERROR, FR_ERROR), (WAITING_FOR_STREAMING_REQ, FR_STOP),
      (FINISHED_REPETITION, FR_REPETITION)]"

definition status_get_finished_reason :: "request_status \<Rightarrow> finish_reason option" where
  "status_get_finished_reason s = finished_reason_map s"

subsection \<open>Parameters and the request object\<close>

record mm_position =
  mm_offset :: int
  mm_length :: int
  is_embed :: "bool list option"

record mm_feature =
  mm_identifier :: string
  mm_pos :: mm_position

definition get_num_embeds :: "mm_position \<Rightarrow> int result" where
  "get_num_embeds p =
     (case is_embed p of
        None \<Rightarrow> Inr (mm_length p)
      | Some emb \<Rightarrow>
          \<comment> \<open>\<open>int(cumsum[-1])\<close>: an empty mask has no last element\<close>
          if emb = [] then Inl IndexError else Inr (int (length (filter (\<lambda>b. b) emb))))"

record lora_request =
  lora_name :: string
  lora_int_id :: int

record repetition_params =
  max_pattern_size :: int
  min_pattern_size :: int
  min_count :: int

record sampling_params =
  min_tokens :: int
  sp_max_tokens :: "int option"
  eos_token_id :: "int option"
  stop_token_ids :: "int list option"
  repetition_detection :: "repetition_params option"
  structured_outputs :: "string option"
  sp_skip_reading_prefix_cache :: "bool option"

record pooling_params =
  pp_skip_reading_prefix_cache :: "bool option"

datatype stop_reason = StopToken int | StopString string

record streaming_update =
  su_mm_features :: "mm_feature list option"
  su_prompt_token_ids :: "int list option"
  su_max_tokens :: int
  su_arrival_time :: rat
  su_sampling_params :: "sampling_params option"

record request =
  request_id :: string
  priority :: int
  arrival_time :: rat
  rq_sampling_params :: "sampling_params option"
  rq_pooling_params :: "pooling_params option"
  lora_req :: "lora_request option"
  structured_output_request :: "string option"
  reasoning_ended :: "bool option"
  status :: request_status
  rq_stop_reason :: "stop_reason option"
  max_tokens :: int
  prompt_token_ids :: "int list option"
  prompt_embeds :: "bytes list option"
  num_prompt_tokens :: int
  output_token_ids :: "int list"
  all_token_ids :: "int list"
  num_output_placeholders :: int
  discard_latest_async_tokens :: bool
  spec_token_ids :: "int list"
  num_computed_tokens :: int
  cache_salt :: "string option"
  mm_features :: "mm_feature list"
  num_cached_tokens :: int
  is_prefill_chunk :: bool
  num_nans_in_logits :: int
  num_preemptions :: int
  rq_num_external_computed_tokens :: int
  block_hashes :: "bytes list"
  skip_reading_prefix_cache :: bool
  resumable :: bool
  streaming_queue :: "streaming_update option list option"

type_synonym hasher = "request \<Rightarrow> bytes list result"

definition length_from_prompt_token_ids_or_embeds ::
  "int list option \<Rightarrow> bytes list option \<Rightarrow> int result" where
  "length_from_prompt_token_ids_or_embeds ids embeds =
     (case ids of
        None \<Rightarrow> (case embeds of None \<Rightarrow> Inl ValueError | Some e \<Rightarrow> Inr (int (length e)))
      | Some ts \<Rightarrow>
          (case embeds of
             None \<Rightarrow> Inr (int (length ts))
           | Some e \<Rightarrow> if length e \<noteq> length ts then Inl ValueError else Inr (int (length ts))))"

definition structured_output_from_sampling_params :: "sampling_params option \<Rightarrow> string option" where
  "structured_output_from_sampling_params sp =
     (case sp of None \<Rightarrow> None | Some p \<Rightarrow> structured_outputs p)"

definition get_skip_reading_prefix_cache :: "request \<Rightarrow> bool" where
  "get_skip_reading_prefix_cache r =
     (case map_option sp_skip_reading_prefix_cache (rq_sampling_params r) of
        Some (Some b) \<Rightarrow> b
      | _ \<Rightarrow> (case map_option pp_skip_reading_prefix_cache (rq_pooling_params r) of
                Some (Some b) \<Rightarrow> b
              | _ \<Rightarrow> False))"

definition update_block_hashes :: "hasher option \<Rightarrow> request \<Rightarrow> request result" where
  "update_block_hashes block_hasher r =
     (case block_hasher of
        None \<Rightarrow> Inr r
      | Some h \<Rightarrow> ebind (h r) (\<lambda>new. Inr (r\<lparr>block_hashes := block_hashes r @ new\<rparr>)))"

text \<open>\<open>Request.__init__\<close>; \<open>now\<close> is the clock reading used when no arrival time is given.\<close>

definition init_request ::
  "hasher option \<Rightarrow> rat \<Rightarrow> string \<Rightarrow> int list option \<Rightarrow> sampling_params option
    \<Rightarrow> pooling_params option \<Rightarrow> rat option \<Rightarrow> bytes list option \<Rightarrow> mm_feature list option
    \<Rightarrow> lora_request option \<Rightarrow> string option \<Rightarrow> int \<Rightarrow> bool \<Rightarrow> bool option \<Rightarrow> request result" where
  "init_request block_hasher now rid ids sp pp arr embeds mm lora salt prio resum ended =
     (let so = structured_output_from_sampling_params sp in
      ebind
        (case pp of
           Some _ \<Rightarrow> Inr (1, WAITING)
         | None \<Rightarrow>
             (case sp of
                None \<Rightarrow> Inl ValueError
              | Some p \<Rightarrow>
                  (case sp_max_tokens p of
                     None \<Rightarrow> Inl AssertionError
                   | Some m \<Rightarrow>
                       Inr (m, if so \<noteq> None then WAITING_FOR_STRUCTURED_OUTPUT_GRAMMAR
                               else WAITING))))
        (\<lambda>(mt, st).
      ebind (length_from_prompt_token_ids_or_embeds ids embeds) (\<lambda>n.
      ebind (update_block_hashes block_hasher
        \<lparr>request_id = rid, priority = prio,
         arrival_time = (case arr of Some t \<Rightarrow> t | None \<Rightarrow> now),
         rq_sampling_params = sp, rq_pooling_params = pp, lora_req = lora,
         structured_output_request = so,
         reasoning_ended = (if so \<noteq> None then ended else None),
         status = st, rq_stop_reason = None, max_tokens = mt,
         prompt_token_ids = ids, prompt_embeds = embeds, num_prompt_tokens = n,
         output_token_ids = [],
         all_token_ids = (case ids of Some ts \<Rightarrow> ts | None \<Rightarrow> replicate (nat n) 0),
         num_output_placeholders = 0, discard_latest_async_tokens = False,
         spec_token_ids = [], num_computed_tokens = 0, cache_salt = salt,
         mm_features = (case mm of None \<Rightarrow> [] | Some fs \<Rightarrow> fs),
         num_cached_tokens = -1, is_prefill_chunk = False, num_nans_in_logits = 0,
         num_preemptions = 0, rq_num_external_computed_tokens = 0, block_hashes = [],
         skip_reading_prefix_cache = False, resumable = resum, streaming_queue = None\<rparr>)
      (\<lambda>r. Inr (r\<lparr>skip_reading_prefix_cache := get_skip_reading_prefix_cache r\<rparr>)))))"

definition append_output_token_ids :: "hasher option \<Rightarrow> int list \<Rightarrow> request \<Rightarrow> request result" where
  "append_output_token_ids block_hasher token_ids r =
     update_block_hashes block_hasher
       (r\<lparr>output_token_ids := output_token_ids r @ token_ids,
          all_token_ids := all_token_ids r @ token_ids\<rparr>)"

definition use_structured_output :: "request \<Rightarrow> bool" where
  "use_structured_output r \<longleftrightarrow> structured_output_request r \<noteq> None"

definition num_tokens :: "request \<Rightarrow> int" where
  "num_tokens r = int (length (all_token_ids r))"

definition num_tokens_with_spec :: "request \<Rightarrow> int" where
  "num_tokens_with_spec r = int (length (all_token_ids r)) + int (length (spec_token_ids r))"

definition num_output_tokens :: "request \<Rightarrow> int" where
  "num_output_tokens r = int (length (output_token_ids r))"

definition num_encoder_inputs :: "request \<Rightarrow> int" where
  "num_encoder_inputs r = int (length (mm_features r))"

definition has_encoder_inputs :: "request \<Rightarrow> bool" where
  "has_encoder_inputs r \<longleftrightarrow> num_encoder_inputs r > 0"

definition is_finished :: "request \<Rightarrow> bool" where
  "is_finished r \<longleftrightarrow> status_is_finished (status r)"

definition get_finished_reason :: "request \<Rightarrow> finish_reason option" where
  "get_finished_reason r = status_get_finished_reason (status r)"

definition get_num_encoder_embeds :: "request \<Rightarrow> nat \<Rightarrow> int result" where
  "get_num_encoder_embeds r input_id =
     ebind (eassert (input_id < length (mm_features r))) (\<lambda>_.
       get_num_embeds (mm_pos (mm_features r ! input_id)))"

definition streaming_update_from_request :: "request \<Rightarrow> streaming_update option" where
  "streaming_update_from_request r =
     (if \<not> resumable r then None
      else Some \<lparr>su_mm_features = Some (mm_features r), su_prompt_token_ids = prompt_token_ids r,
                 su_max_tokens = max_tokens r, su_arrival_time = arrival_time r,
                 su_sampling_params = rq_sampling_params r\<rparr>)"

subsection \<open>A request for the examples\<close>

definition example_params :: sampling_params where
  "example_params = \<lparr>min_tokens = 0, sp_max_tokens = Some 4, eos_token_id = Some 2, stop_token_ids = None,
     repetition_detection = None, structured_outputs = None, sp_skip_reading_prefix_cache = None\<rparr>"

text \<open>A request with a prompt of six tokens.\<close>

definition example_request :: "request" where
  "example_request =
     (case init_request None 0 ''r'' (Some [11, 12, 13, 14, 15, 16]) (Some example_params) None (Some 0)
        None None None None 0 False None of Inr r \<Rightarrow> r)"

lemma example_request_eq:
  "example_request = \<lparr>request_id = ''r'', priority = 0, arrival_time = 0,
     rq_sampling_params = Some example_params, rq_pooling_params = None, lora_req = None,
     structured_output_request = None, reasoning_ended = None, status = WAITING, rq_stop_reason = None,
     max_tokens = 4, prompt_token_ids = Some [11, 12, 13, 14, 15, 16], prompt_embeds = None,
     num_prompt_tokens = 6, output_token_ids = [], all_token_ids = [11, 12, 13, 14, 15, 16],
     num_output_placeholders = 0, discard_latest_async_tokens = False, spec_token_ids = [],
     num_computed_tokens = 0, cache_salt = None, mm_features = [], num_cached_tokens = -1,
     is_prefill_chunk = False, num_nans_in_logits = 0, num_preemptions = 0,
     rq_num_external_computed_tokens = 0, block_hashes = [], skip_reading_prefix_cache = False,
     resumable = False, streaming_queue = None\<rparr>"
  by (simp add: example_request_def init_request_def example_params_def update_block_hashes_def
      structured_output_from_sampling_params_def length_from_prompt_token_ids_or_embeds_def
      get_skip_reading_prefix_cache_def)

end
