(* ===== verification/Block_Hash.thy ===== *)
theory Block_Hash
  imports Request_Model
begin

text \<open>
  The hashing half of \<open>vllm/v1/core/kv_cache_utils.py\<close>: keys that pack a block hash with a group
  id, the extra keys of a block (LoRA, multi-modal, salt, prompt embeddings), the incremental
  block hasher of a request, and the view of a hash list at a coarser block size.

  The hash function is the caller's (\<open>caching_hash_fn\<close>): a parameter \<open>H\<close>.  \<open>none_hash\<close> is
  the process-wide seed \<open>NONE_HASH\<close>, \<open>sha256\<close> the digest of prompt embeddings.  The memo table
  \<open>_prompt_embeds_per_block_hashes\<close> only avoids recomputation and is not modelled.
\<close>

subsection \<open>Packing a hash with a group id\<close>

definition to_bytes4 :: "int \<Rightarrow> bytes result" where
  "to_bytes4 g =
     (if 0 \<le> g \<and> g < 4294967296 \<comment> \<open>\<open>2 ^ 32\<close>; the bytes are taken modulo 256\<close>
      then Inr [word_of_int (g div 16777216), word_of_int (g div 65536),
                word_of_int (g div 256), word_of_int g]
      else Inl OverflowError)"

definition from_bytes_big :: "bytes \<Rightarrow> int" where
  "from_bytes_big bs = foldl (\<lambda>a b. a * 256 + uint b) 0 bs"

definition make_block_hash_with_group_id :: "bytes \<Rightarrow> int \<Rightarrow> bytes result" where
  "make_block_hash_with_group_id h g = ebind (to_bytes4 g) (\<lambda>gb. Inr (h @ gb))"

definition get_block_hash :: "bytes \<Rightarrow> bytes" where
  "get_block_hash key = py_take key (-4)"

definition get_group_id :: "bytes \<Rightarrow> int" where
  "get_group_id key = from_bytes_big (py_drop key (-4))"

datatype external_hash = ExtBytes bytes | ExtInt int

definition maybe_convert_block_hash :: "bool \<Rightarrow> bytes \<Rightarrow> external_hash" where
  "maybe_convert_block_hash use_int h =
     (if \<not> use_int then ExtBytes h else ExtInt (from_bytes_big h mod 2 ^ 64))"

lemma uint_byte: "uint (word_of_int x :: 8 word) = x mod 256"
  by (simp add: uint_word_of_int)

lemma from_bytes_big_4:
  "from_bytes_big [word_of_int a, word_of_int b, word_of_int c, word_of_int d] =
     (((a mod 256) * 256 + b mod 256) * 256 + c mod 256) * 256 + d mod 256"
  by (simp only: from_bytes_big_def uint_byte foldl.simps mult_zero_left add_0)

lemma to_bytes4_eq_Inr:
  "to_bytes4 g = Inr bs \<longleftrightarrow> 0 \<le> g \<and> g < 4294967296 \<and>
     bs = [word_of_int (g div 16777216), word_of_int (g div 65536), word_of_int (g div 256),
           word_of_int g]"
  by (simp only: to_bytes4_def split: if_split) (simp only: sum.inject sum.distinct; blast)

lemma from_to_bytes4:
  assumes "to_bytes4 g = Inr bs"
  shows "from_bytes_big bs = g" "length bs = 4"
proof -
  from assms have g: "0 \<le> g" "g < 4294967296"
    and bs: "bs = [word_of_int (g div 16777216), word_of_int (g div 65536), word_of_int (g div 256),
                   word_of_int g]"
    by (simp_all only: to_bytes4_eq_Inr)
  have e1: "256 * (g div 256 mod 256) + g mod 256 = g mod 65536"
    using zmod_zmult2_eq [of 256 g 256] by simp
  have e2: "65536 * (g div 65536 mod 256) + g mod 65536 = g mod 16777216"
    using zmod_zmult2_eq [of 256 g 65536] by simp
  have e3: "16777216 * (g div 16777216 mod 256) + g mod 16777216 = g mod 4294967296"
    using zmod_zmult2_eq [of 256 g 16777216] by simp
  have horner: "((a * 256 + b) * 256 + c) * 256 + d = 16777216 * a + (65536 * b + (256 * c + d))"
    for a b c d :: int by simp
  have "(((g div 16777216 mod 256) * 256 + g div 65536 mod 256) * 256 + g div 256 mod 256) * 256
      + g mod 256 = g mod 4294967296"
    by (simp only: horner e1 e2 e3)
  also have "\<dots> = g" by (rule mod_pos_pos_trivial [OF g])
  finally have "(((g div 16777216 mod 256) * 256 + g div 65536 mod 256) * 256 + g div 256 mod 256) * 256
      + g mod 256 = g" .
  then show "from_bytes_big bs = g" by (simp only: bs from_bytes_big_4)
  show "length bs = 4" by (simp add: bs)
qed

lemma py_take_drop_suffix4:
  "length gb = 4 \<Longrightarrow> py_take (h @ gb) (-4) = h" "length gb = 4 \<Longrightarrow> py_drop (h @ gb) (-4) = gb"
  by (simp_all add: py_take_def py_drop_def py_clip_def Let_def)

lemma make_block_hash_roundtrip:
  assumes "make_block_hash_with_group_id h g = Inr key"
  shows "get_block_hash key = h" "get_group_id key = g"
  using assms from_to_bytes4
  by (auto simp: make_block_hash_with_group_id_def ebind_eq_Inr get_block_hash_def get_group_id_def
      py_take_drop_suffix4)

lemma make_block_hash_total:
  "0 \<le> g \<Longrightarrow> g < 4294967296 \<Longrightarrow> \<exists>k. make_block_hash_with_group_id h g = Inr k"
  by (simp add: make_block_hash_with_group_id_def to_bytes4_def)

lemma make_block_hash_inj:
  "make_block_hash_with_group_id h g = Inr k \<Longrightarrow> make_block_hash_with_group_id h' g' = Inr k
    \<Longrightarrow> h = h' \<and> g = g'"
  using make_block_hash_roundtrip by metis

subsection \<open>Extra keys\<close>

text \<open>
  The keys are untyped in the code: a LoRA name and a cache salt are both plain strings, a
  multi-modal item is the pair of its identifier and its offset from the start of the block.
\<close>

datatype extra_key = StrKey string | MMKey string int | BytesKey bytes

definition need_extra_keys :: "request \<Rightarrow> bool" where
  "need_extra_keys r \<longleftrightarrow> mm_features r \<noteq> [] \<or> lora_req r \<noteq> None \<or> cache_salt r \<noteq> None"

text \<open>The \<open>while\<close> loop over the features, from index \<open>i\<close>.\<close>

function mm_keys_loop ::
  "mm_feature list \<Rightarrow> int \<Rightarrow> int \<Rightarrow> nat \<Rightarrow> extra_key list \<times> nat" where
  "mm_keys_loop feats start_token_idx end_token_idx i =
     (if i < length feats then
        let f = feats ! i; offset = mm_offset (mm_pos f); len = mm_length (mm_pos f) in
        if end_token_idx > offset then
          if start_token_idx \<ge> offset + len
          then mm_keys_loop feats start_token_idx end_token_idx (Suc i)
          else
            let key = MMKey (mm_identifier f) (offset - start_token_idx) in
            if end_token_idx \<ge> offset + len
            then let (ks, j) = mm_keys_loop feats start_token_idx end_token_idx (Suc i)
                 in (key # ks, j)
            else ([key], i)
        else ([], i)
      else ([], i))"
  by pat_completeness auto
termination
  by (relation "measure (\<lambda>(feats, s, e, i). length feats - i)") auto

declare mm_keys_loop.simps [simp del]

definition gen_mm_extra_hash_keys ::
  "request \<Rightarrow> int \<Rightarrow> int \<Rightarrow> int \<Rightarrow> (extra_key list \<times> int) result" where
  "gen_mm_extra_hash_keys r start_token_idx end_token_idx start_mm_idx =
     (let feats = mm_features r in
      if feats = [] then Inr ([], start_mm_idx)
      else
        let last_pos = mm_pos (last feats) in
        if mm_offset last_pos + mm_length last_pos \<le> start_token_idx
        then Inr ([], start_mm_idx)
        else
          ebind (if start_mm_idx < 0
                 then ebind (eassert (- start_mm_idx \<le> int (length feats)))
                        (\<lambda>_. Inr (int (length feats) + start_mm_idx))
                 else Inr start_mm_idx)
            (\<lambda>idx. let (ks, j) = mm_keys_loop feats start_token_idx end_token_idx (nat idx)
                   in Inr (ks, int j)))"

definition gen_lora_extra_hash_keys :: "request \<Rightarrow> string list" where
  "gen_lora_extra_hash_keys r = (case lora_req r of None \<Rightarrow> [] | Some l \<Rightarrow> [lora_name l])"

definition gen_prompt_embeds_extra_hash_keys ::
  "(bytes \<Rightarrow> bytes) \<Rightarrow> request \<Rightarrow> int \<Rightarrow> int \<Rightarrow> bytes list" where
  "gen_prompt_embeds_extra_hash_keys sha256 r start_token_idx end_token_idx =
     (case prompt_embeds r of
        None \<Rightarrow> []
      | Some rows \<Rightarrow> [sha256 (concat (py_slice rows start_token_idx end_token_idx))])"

definition generate_block_hash_extra_keys ::
  "(bytes \<Rightarrow> bytes) \<Rightarrow> request \<Rightarrow> int \<Rightarrow> int \<Rightarrow> int
    \<Rightarrow> (extra_key list option \<times> int) result" where
  "generate_block_hash_extra_keys sha256 r start_token_idx end_token_idx start_mm_idx =
     ebind (gen_mm_extra_hash_keys r start_token_idx end_token_idx start_mm_idx)
       (\<lambda>(mm_keys, new_start_mm_idx).
     let lora_keys = map StrKey (gen_lora_extra_hash_keys r);
         salt_keys = (case cache_salt r of
                        Some s \<Rightarrow> if start_token_idx = 0 \<and> s \<noteq> [] then [StrKey s] else []
                      | None \<Rightarrow> []);
         embed_keys = map BytesKey
           (gen_prompt_embeds_extra_hash_keys sha256 r start_token_idx end_token_idx);
         extra_keys = lora_keys @ mm_keys @ salt_keys @ embed_keys
     in if extra_keys = [] then Inr (None, new_start_mm_idx)
        else Inr (Some extra_keys, new_start_mm_idx))"

subsection \<open>Hashing a request block by block\<close>

type_synonym hash_input = "bytes \<times> int list \<times> extra_key list option"

definition hash_block_tokens ::
  "bytes \<Rightarrow> (hash_input \<Rightarrow> bytes) \<Rightarrow> bytes option \<Rightarrow> int list \<Rightarrow> extra_key list option \<Rightarrow> bytes" where
  "hash_block_tokens none_hash H parent_block_hash curr_block_token_ids extra_keys =
     (let parent = (case parent_block_hash of
                      None \<Rightarrow> none_hash
                    | Some p \<Rightarrow> if p = [] then none_hash else p)
      in H (parent, curr_block_token_ids, extra_keys))"

text \<open>
  The \<open>while True\<close> loop.  With a positive block size each turn moves on by one block; with a
  block size of at most zero the exit test never becomes true again.
\<close>

function block_hash_loop ::
  "(bytes \<Rightarrow> bytes) \<Rightarrow> bytes \<Rightarrow> (hash_input \<Rightarrow> bytes) \<Rightarrow> int \<Rightarrow> request \<Rightarrow> int \<Rightarrow> int
    \<Rightarrow> bytes option \<Rightarrow> bytes list result" where
  "block_hash_loop sha256 none_hash H block_size r start_token_idx curr_mm_idx prev =
     (let end_token_idx = start_token_idx + block_size in
      if end_token_idx > num_tokens r then Inr []
      else
        ebind (generate_block_hash_extra_keys sha256 r start_token_idx end_token_idx curr_mm_idx)
          (\<lambda>(extra_keys, curr_mm_idx).
        let block_tokens = py_slice (all_token_ids r) start_token_idx end_token_idx;
            block_hash = hash_block_tokens none_hash H prev block_tokens extra_keys
        in if block_size \<le> 0 then Inl NonTermination
           else ebind (block_hash_loop sha256 none_hash H block_size r (start_token_idx + block_size)
                         curr_mm_idx (Some block_hash))
                  (\<lambda>hs. Inr (block_hash # hs))))"
  by pat_completeness auto
termination
  by (relation "measure (\<lambda>(sha, nh, H, bs, r, s, i, p). nat (num_tokens r - s))") auto

declare block_hash_loop.simps [simp del]

definition request_block_hasher ::
  "(bytes \<Rightarrow> bytes) \<Rightarrow> bytes \<Rightarrow> (hash_input \<Rightarrow> bytes) \<Rightarrow> int \<Rightarrow> hasher" where
  "request_block_hasher sha256 none_hash H block_size r =
     (let start_token_idx = int (length (block_hashes r)) * block_size in
      if start_token_idx + block_size > num_tokens r then Inr []
      else
        let curr_mm_idx = (if start_token_idx > 0 then -1 else 0);
            prev = (if block_hashes r = [] then None else Some (last (block_hashes r)))
        in block_hash_loop sha256 none_hash H block_size r start_token_idx curr_mm_idx prev)"

subsection \<open>A hash list at a coarser block size\<close>

datatype block_hash_list = PlainHashes "bytes list" | ScaledHashes "bytes list" int

definition block_hash_list_with_block_size ::
  "bytes list \<Rightarrow> int \<Rightarrow> int \<Rightarrow> block_hash_list result" where
  "block_hash_list_with_block_size hs hash_block_size target_block_size =
     (if hash_block_size = 0 then Inl ZeroDivisionError
      else ebind (eassert (target_block_size mod hash_block_size = 0)) (\<lambda>_.
        Inr (ScaledHashes hs (target_block_size div hash_block_size))))"

fun concat_hashes :: "bytes list \<Rightarrow> int list \<Rightarrow> bytes \<Rightarrow> bytes result" where
  "concat_hashes hs [] merged = Inr merged"
| "concat_hashes hs (i # is) merged =
     ebind (py_index hs i) (\<lambda>h. concat_hashes hs is (merged @ h))"

definition get_value_at :: "bytes list \<Rightarrow> int \<Rightarrow> int \<Rightarrow> bytes result" where
  "get_value_at hs scale_factor idx =
     (let base = idx * scale_factor; stop = base + scale_factor in
      ebind (py_index hs base) (\<lambda>merged_hash.
        concat_hashes hs (py_range (base + 1) stop) merged_hash))"

fun bhl_length :: "block_hash_list \<Rightarrow> int" where
  "bhl_length (PlainHashes hs) = int (length hs)"
| "bhl_length (ScaledHashes hs k) = int (length hs) div k"

fun bhl_get :: "block_hash_list \<Rightarrow> int \<Rightarrow> bytes result" where
  "bhl_get (PlainHashes hs) i = py_index hs i"
| "bhl_get (ScaledHashes hs k) i = get_value_at hs k i"

text \<open>The slice \<open>block_hashes[start:]\<close>.\<close>

fun bhl_from :: "block_hash_list \<Rightarrow> int \<Rightarrow> bytes list result" where
  "bhl_from (PlainHashes hs) start = Inr (py_drop hs start)"
| "bhl_from (ScaledHashes hs k) start =
     (let n = int (length hs) div k;
          a = (if start < 0 then max 0 (n + start) else min n start)
      in collectE (get_value_at hs k) (py_range a n))"

text \<open>Iteration over the first \<open>n\<close> entries, as \<open>itertools.islice\<close> does.\<close>

fun bhl_take :: "block_hash_list \<Rightarrow> int \<Rightarrow> bytes list result" where
  "bhl_take (PlainHashes hs) n = (if n < 0 then Inl ValueError else Inr (take (nat n) hs))"
| "bhl_take (ScaledHashes hs k) n =
     (if n < 0 then Inl ValueError
      else collectE (get_value_at hs k) (py_range 0 (min n (int (length hs) div k))))"

subsection \<open>The extra keys do not depend on where the feature scan starts\<close>

definition mm_start :: "mm_feature \<Rightarrow> int" where "mm_start f = mm_offset (mm_pos f)"
definition mm_end :: "mm_feature \<Rightarrow> int" where "mm_end f = mm_offset (mm_pos f) + mm_length (mm_pos f)"

definition mm_wf :: "mm_feature list \<Rightarrow> bool" where
  "mm_wf feats \<longleftrightarrow> (\<forall>f \<in> set feats. mm_start f < mm_end f) \<and> sorted_wrt (\<lambda>f g. mm_end f \<le> mm_start g) feats"

text \<open>The items that a block overlaps, with their offset from its start.\<close>

definition mm_keys_of :: "mm_feature list \<Rightarrow> int \<Rightarrow> int \<Rightarrow> extra_key list" where
  "mm_keys_of feats s e =
     map (\<lambda>f. MMKey (mm_identifier f) (mm_start f - s)) (filter (\<lambda>f. mm_start f < e \<and> s < mm_end f) feats)"

lemma mm_wf_Cons: "mm_wf (f # fs) \<longleftrightarrow> mm_start f < mm_end f \<and> (\<forall>g \<in> set fs. mm_end f \<le> mm_start g) \<and> mm_wf fs"
  by (auto simp: mm_wf_def)

lemma mm_wf_drop: "mm_wf fs \<Longrightarrow> mm_wf (drop n fs)"
  by (auto simp: mm_wf_def sorted_wrt_drop dest: in_set_dropD)

lemma mm_keys_loop_spec:
  assumes "mm_wf feats" "i \<le> length feats" "\<forall>k < i. mm_end (feats ! k) \<le> e" "s < e"
  shows "\<exists>j. mm_keys_loop feats s e i = (mm_keys_of (drop i feats) s e, j) \<and> i \<le> j
    \<and> j \<le> length feats \<and> (\<forall>k < j. mm_end (feats ! k) \<le> e)"
  using assms
proof (induction feats s e i rule: mm_keys_loop.induct)
  case (1 feats s e i)
  note unf = mm_keys_loop.simps [of feats s e i]
  show ?case
  proof (cases "i < length feats")
    case False
    then have "mm_keys_loop feats s e i = (mm_keys_of (drop i feats) s e, i)"
      using "1.prems"(2) by (subst unf) (simp add: mm_keys_of_def)
    then show ?thesis using "1.prems" by blast
  next
    case True
    define f where "f = feats ! i"
    have dr: "drop i feats = f # drop (Suc i) feats" using True by (simp add: f_def Cons_nth_drop_Suc)
    have wf: "mm_start f < mm_end f" "\<forall>g \<in> set (drop (Suc i) feats). mm_end f \<le> mm_start g"
      using mm_wf_drop [OF "1.prems"(1), of i] by (auto simp: dr mm_wf_Cons)
    have rest: "mm_keys_of (drop (Suc i) feats) s e = []" if "e \<le> mm_end f"
      using that wf by (force simp: mm_keys_of_def filter_empty_conv)
    have step: "mm_keys_loop feats s e i =
      (if mm_start f < e then
         if mm_end f \<le> s then mm_keys_loop feats s e (Suc i)
         else if mm_end f \<le> e
              then (let (ks, j) = mm_keys_loop feats s e (Suc i)
                    in (MMKey (mm_identifier f) (mm_start f - s) # ks, j))
              else ([MMKey (mm_identifier f) (mm_start f - s)], i)
       else ([], i))"
      using True by (simp add: unf f_def [symmetric] mm_start_def mm_end_def Let_def)
    have IH: "\<exists>j. mm_keys_loop feats s e (Suc i) = (mm_keys_of (drop (Suc i) feats) s e, j) \<and> Suc i \<le> j
        \<and> j \<le> length feats \<and> (\<forall>k < j. mm_end (feats ! k) \<le> e)"
      if "mm_start f < e" "mm_end f \<le> e"
    proof (cases "mm_end f \<le> s")
      case True': True
      show ?thesis
      proof (rule "1.IH"(1) [OF True refl refl refl])
        show "mm_offset (mm_pos (feats ! i)) < e"
          "mm_offset (mm_pos (feats ! i)) + mm_length (mm_pos (feats ! i)) \<le> s"
          using that True' by (auto simp: f_def mm_start_def mm_end_def)
        show "\<forall>k < Suc i. mm_end (feats ! k) \<le> e"
          using "1.prems"(3) that(2) by (auto simp: less_Suc_eq f_def)
      qed (use True "1.prems" in auto)
    next
      case False': False
      show ?thesis
      proof (rule "1.IH"(2) [OF True refl refl refl _ _ refl])
        show "mm_offset (mm_pos (feats ! i)) < e"
          "\<not> mm_offset (mm_pos (feats ! i)) + mm_length (mm_pos (feats ! i)) \<le> s"
          "mm_offset (mm_pos (feats ! i)) + mm_length (mm_pos (feats ! i)) \<le> e"
          using that False' by (auto simp: f_def mm_start_def mm_end_def)
        show "\<forall>k < Suc i. mm_end (feats ! k) \<le> e"
          using "1.prems"(3) that(2) by (auto simp: less_Suc_eq f_def)
      qed (use True "1.prems" in auto)
    qed
    consider (before) "e \<le> mm_start f" | (on) "mm_start f < e" "mm_end f \<le> e"
      | (beyond) "mm_start f < e" "e < mm_end f" by linarith
    then show ?thesis
    proof cases
      case before
      then have "mm_keys_of (drop i feats) s e = []" using rest wf(1) by (simp add: dr mm_keys_of_def)
      then have "mm_keys_loop feats s e i = (mm_keys_of (drop i feats) s e, i)" using before step by simp
      then show ?thesis using "1.prems" by blast
    next
      case on
      from IH [OF on] obtain j where "mm_keys_loop feats s e (Suc i) = (mm_keys_of (drop (Suc i) feats) s e, j)"
        "Suc i \<le> j" "j \<le> length feats" "\<forall>k < j. mm_end (feats ! k) \<le> e" by blast
      then show ?thesis using on by (auto simp: step dr mm_keys_of_def)
    next
      case beyond
      then have "mm_keys_of (drop i feats) s e = [MMKey (mm_identifier f) (mm_start f - s)]"
        using rest "1.prems"(4) by (simp add: dr mm_keys_of_def)
      then have "mm_keys_loop feats s e i = (mm_keys_of (drop i feats) s e, i)"
        using beyond step "1.prems"(4) by simp
      then show ?thesis using "1.prems" by blast
    qed
  qed
qed

lemma mm_keys_of_drop:
  assumes "\<forall>k < i. mm_end (feats ! k) \<le> s" "i \<le> length feats"
  shows "mm_keys_of (drop i feats) s e = mm_keys_of feats s e"
proof -
  have "mm_end f \<le> s" if "f \<in> set (take i feats)" for f
    using that assms by (auto simp: in_set_conv_nth)
  then have "filter (\<lambda>f. mm_start f < e \<and> s < mm_end f) (take i feats) = []"
    by (force simp: filter_empty_conv)
  moreover have "filter P feats = filter P (take i feats) @ filter P (drop i feats)" for P
    by (metis append_take_drop_id filter_append)
  ultimately show ?thesis by (simp add: mm_keys_of_def)
qed

text \<open>
  \<open>mm_idx_ok feats s idx\<close>: starting the scan for a block at \<open>s\<close> from index \<open>idx\<close> misses nothing.
  The code also starts from \<open>-1\<close>, the last feature.
\<close>

definition mm_idx_ok :: "mm_feature list \<Rightarrow> int \<Rightarrow> int \<Rightarrow> bool" where
  "mm_idx_ok feats s idx \<longleftrightarrow>
     (idx = -1 \<and> (\<forall>f \<in> set (butlast feats). mm_end f \<le> s))
     \<or> (0 \<le> idx \<and> nat idx \<le> length feats \<and> (\<forall>k < nat idx. mm_end (feats ! k) \<le> s))"

lemma mm_wf_last_max: "mm_wf feats \<Longrightarrow> f \<in> set feats \<Longrightarrow> mm_end f \<le> mm_end (last feats)"
proof (induction feats)
  case (Cons g gs)
  show ?case
  proof (cases "gs = []")
    case True
    then show ?thesis using Cons.prems by simp
  next
    case False
    then have "last gs \<in> set gs" by simp
    then have "mm_end g \<le> mm_start (last gs)" "mm_start (last gs) < mm_end (last gs)" "mm_wf gs"
      using Cons.prems(1) by (auto simp: mm_wf_Cons mm_wf_def)
    then show ?thesis using Cons False by auto
  qed
qed simp

lemma mm_idx_ok_mono: "mm_idx_ok feats s idx \<Longrightarrow> s \<le> e \<Longrightarrow> mm_idx_ok feats e idx"
  unfolding mm_idx_ok_def by force

lemma gen_mm_extra_hash_keys_spec:
  assumes wf: "mm_wf (mm_features r)" and idx: "mm_idx_ok (mm_features r) s idx" and se: "s < e"
  shows "\<exists>idx'. gen_mm_extra_hash_keys r s e idx = Inr (mm_keys_of (mm_features r) s e, idx')
    \<and> mm_idx_ok (mm_features r) e idx'"
proof -
  let ?fs = "mm_features r"
  show ?thesis
  proof (cases "?fs = []")
    case True
    then show ?thesis using mm_idx_ok_mono [OF idx] se
      by (simp add: gen_mm_extra_hash_keys_def mm_keys_of_def)
  next
    case ne: False
    show ?thesis
    proof (cases "mm_end (last ?fs) \<le> s")
      case True
      then have "\<forall>f \<in> set ?fs. mm_end f \<le> s" using mm_wf_last_max [OF wf] by force
      then have "mm_keys_of ?fs s e = []" by (force simp: mm_keys_of_def filter_empty_conv)
      then show ?thesis using True ne mm_idx_ok_mono [OF idx, of e] se
        by (simp add: gen_mm_extra_hash_keys_def mm_end_def)
    next
      case False
      define i where "i = (if idx < 0 then length ?fs - 1 else nat idx)"
      have i: "i \<le> length ?fs" "\<forall>k < i. mm_end (?fs ! k) \<le> s"
      proof -
        have "\<forall>k < length ?fs - 1. mm_end (?fs ! k) \<le> s" if "\<forall>f \<in> set (butlast ?fs). mm_end f \<le> s"
          using that by (metis length_butlast nth_butlast nth_mem)
        then show "i \<le> length ?fs" "\<forall>k < i. mm_end (?fs ! k) \<le> s"
          using idx by (auto simp: i_def mm_idx_ok_def)
      qed
      have "\<forall>k < i. mm_end (?fs ! k) \<le> e" using i(2) se by force
      from mm_keys_loop_spec [OF wf i(1) this se] obtain j where
        j: "mm_keys_loop ?fs s e i = (mm_keys_of (drop i ?fs) s e, j)" "j \<le> length ?fs"
          "\<forall>k < j. mm_end (?fs ! k) \<le> e" by blast
      have "gen_mm_extra_hash_keys r s e idx = Inr (mm_keys_of (drop i ?fs) s e, int j)"
      proof (cases "idx < 0")
        case True
        then have "idx = -1" using idx by (simp add: mm_idx_ok_def)
        moreover have "nat (int (length ?fs) - 1) = i" using True by (simp add: i_def)
        moreover have "1 \<le> length ?fs" using ne by (simp add: Suc_le_eq)
        ultimately show ?thesis using False ne j
          by (simp add: gen_mm_extra_hash_keys_def mm_end_def)
      next
        case nn: False
        then show ?thesis using False ne j by (simp add: gen_mm_extra_hash_keys_def mm_end_def i_def)
      qed
      then show ?thesis using mm_keys_of_drop [OF i(2,1)] j by (auto simp: mm_idx_ok_def)
    qed
  qed
qed

subsection \<open>The hash chain of a request\<close>

text \<open>
  The specification: the hash of block \<open>i\<close> depends on the tokens and extra keys of blocks
  \<open>0..i\<close> only, through the chain of parents.
\<close>

definition block_keys ::
  "(bytes \<Rightarrow> bytes) \<Rightarrow> int \<Rightarrow> request \<Rightarrow> nat \<Rightarrow> extra_key list option" where
  "block_keys sha256 bs r i =
     (let s = int i * bs; e = s + bs;
          ks = map StrKey (gen_lora_extra_hash_keys r) @ mm_keys_of (mm_features r) s e
               @ (case cache_salt r of
                    Some t \<Rightarrow> if i = 0 \<and> t \<noteq> [] then [StrKey t] else [] | None \<Rightarrow> [])
               @ map BytesKey (gen_prompt_embeds_extra_hash_keys sha256 r s e)
      in if ks = [] then None else Some ks)"

definition block_tokens :: "int \<Rightarrow> request \<Rightarrow> nat \<Rightarrow> int list" where
  "block_tokens bs r i = take (nat bs) (drop (i * nat bs) (all_token_ids r))"

fun block_hash_at ::
  "(bytes \<Rightarrow> bytes) \<Rightarrow> bytes \<Rightarrow> (hash_input \<Rightarrow> bytes) \<Rightarrow> int \<Rightarrow> request \<Rightarrow> nat \<Rightarrow> bytes" where
  "block_hash_at sha256 none_hash H bs r 0 =
     hash_block_tokens none_hash H None (block_tokens bs r 0) (block_keys sha256 bs r 0)"
| "block_hash_at sha256 none_hash H bs r (Suc i) =
     hash_block_tokens none_hash H (Some (block_hash_at sha256 none_hash H bs r i))
       (block_tokens bs r (Suc i)) (block_keys sha256 bs r (Suc i))"

definition full_block_count :: "int \<Rightarrow> request \<Rightarrow> nat" where
  "full_block_count bs r = length (all_token_ids r) div nat bs"

definition hashes_wf ::
  "(bytes \<Rightarrow> bytes) \<Rightarrow> bytes \<Rightarrow> (hash_input \<Rightarrow> bytes) \<Rightarrow> int \<Rightarrow> request \<Rightarrow> bool" where
  "hashes_wf sha256 none_hash H bs r \<longleftrightarrow>
     block_hashes r = map (block_hash_at sha256 none_hash H bs r) [0 ..< full_block_count bs r]"

lemma generate_extra_keys_spec:
  assumes "mm_wf (mm_features r)" "mm_idx_ok (mm_features r) (int i * bs) idx" "0 < bs"
  shows "\<exists>idx'. generate_block_hash_extra_keys sha256 r (int i * bs) (int i * bs + bs) idx
      = Inr (block_keys sha256 bs r i, idx') \<and> mm_idx_ok (mm_features r) (int i * bs + bs) idx'"
proof -
  from gen_mm_extra_hash_keys_spec [OF assms(1,2), of "int i * bs + bs"] assms(3)
  obtain idx' where g: "gen_mm_extra_hash_keys r (int i * bs) (int i * bs + bs) idx
      = Inr (mm_keys_of (mm_features r) (int i * bs) (int i * bs + bs), idx')"
    "mm_idx_ok (mm_features r) (int i * bs + bs) idx'" by auto
  have "int i * bs = 0 \<longleftrightarrow> i = 0" using assms(3) by simp
  then have "generate_block_hash_extra_keys sha256 r (int i * bs) (int i * bs + bs) idx
      = Inr (block_keys sha256 bs r i, idx')"
    using g(1) by (simp add: generate_block_hash_extra_keys_def block_keys_def Let_def split: option.splits)
  then show ?thesis using g(2) by blast
qed

lemma block_in_range:
  assumes "0 < bs"
  shows "int i * bs + bs \<le> num_tokens r \<longleftrightarrow> i < full_block_count bs r"
proof -
  define b where "b = nat bs"
  have b: "bs = int b" "0 < b" using assms by (auto simp: b_def)
  have "int i * bs + bs \<le> num_tokens r \<longleftrightarrow> int (Suc i * b) \<le> int (length (all_token_ids r))"
    by (simp add: b num_tokens_def algebra_simps)
  also have "\<dots> \<longleftrightarrow> Suc i * b \<le> length (all_token_ids r)" by (simp only: of_nat_le_iff)
  also have "\<dots> \<longleftrightarrow> i < length (all_token_ids r) div b"
    using b(2) by (metis Suc_le_eq less_eq_div_iff_mult_less_eq)
  finally show ?thesis by (simp add: full_block_count_def b)
qed

lemma py_slice_block:
  "0 < bs \<Longrightarrow> py_slice (all_token_ids r) (int i * bs) (int i * bs + bs) = block_tokens bs r i"
  by (simp add: py_slice_nonneg block_tokens_def nat_mult_distrib nat_add_distrib)

lemma block_hash_loop_spec:
  assumes "mm_wf (mm_features r)" "0 < bs" "mm_idx_ok (mm_features r) (int i * bs) idx"
    and "prev = (if i = 0 then None else Some (block_hash_at sha256 none_hash H bs r (i - 1)))"
  shows "block_hash_loop sha256 none_hash H bs r (int i * bs) idx prev
    = Inr (map (block_hash_at sha256 none_hash H bs r) [i ..< full_block_count bs r])"
  using assms(3,4)
proof (induction "full_block_count bs r - i" arbitrary: i idx prev)
  case 0
  then have "\<not> i < full_block_count bs r" by simp
  then show ?case using block_in_range [OF assms(2), of i r] by (subst block_hash_loop.simps) simp
next
  case (Suc n)
  then have i: "i < full_block_count bs r" by simp
  from generate_extra_keys_spec [OF assms(1) Suc.prems(1) assms(2), of sha256] obtain idx' where
    g: "generate_block_hash_extra_keys sha256 r (int i * bs) (int i * bs + bs) idx
          = Inr (block_keys sha256 bs r i, idx')"
       "mm_idx_ok (mm_features r) (int i * bs + bs) idx'" by blast
  have h: "hash_block_tokens none_hash H prev (block_tokens bs r i) (block_keys sha256 bs r i)
      = block_hash_at sha256 none_hash H bs r i"
    using Suc.prems(2) by (cases i) simp_all
  have "int i * bs + bs = int (Suc i) * bs" by (simp add: algebra_simps)
  then have "block_hash_loop sha256 none_hash H bs r (int i * bs + bs) idx'
        (Some (block_hash_at sha256 none_hash H bs r i))
      = Inr (map (block_hash_at sha256 none_hash H bs r) [Suc i ..< full_block_count bs r])"
    using Suc.hyps(1) [of "Suc i" idx'] Suc.hyps(2) g(2) by simp
  then show ?case
    using i block_in_range [OF assms(2), of i r] assms(2) g(1) h
    by (subst block_hash_loop.simps) (simp add: Let_def py_slice_block upt_conv_Cons)
qed

text \<open>
  The hasher extends a correct prefix of the chain to the whole chain, if the scan that starts at
  the last feature misses nothing: the other features end before the first new block.
\<close>

definition resume_ok :: "int \<Rightarrow> request \<Rightarrow> bool" where
  "resume_ok bs r \<longleftrightarrow> block_hashes r = []
     \<or> (\<forall>f \<in> set (butlast (mm_features r)). mm_end f \<le> int (length (block_hashes r)) * bs)"

lemma request_block_hasher_spec:
  assumes wf: "mm_wf (mm_features r)" and bs: "0 < bs"
    and pre: "block_hashes r = map (block_hash_at sha256 none_hash H bs r) [0 ..< k]"
    and k: "k \<le> full_block_count bs r" and res: "resume_ok bs r"
  shows "request_block_hasher sha256 none_hash H bs r
    = Inr (map (block_hash_at sha256 none_hash H bs r) [k ..< full_block_count bs r])"
proof -
  have len: "length (block_hashes r) = k" by (simp add: pre)
  show ?thesis
  proof (cases "k < full_block_count bs r")
    case False
    then show ?thesis using block_in_range [OF bs, of k r] len k
      by (simp add: request_block_hasher_def Let_def)
  next
    case True
    have prev: "(if block_hashes r = [] then None else Some (last (block_hashes r)))
        = (if k = 0 then None else Some (block_hash_at sha256 none_hash H bs r (k - 1)))"
      by (cases k) (simp_all add: pre)
    have pos: "int k * bs > 0 \<longleftrightarrow> k \<noteq> 0" using bs by (simp add: zero_less_mult_iff)
    have "mm_idx_ok (mm_features r) (int k * bs) (if int k * bs > 0 then -1 else 0)"
      using res len by (auto simp: mm_idx_ok_def resume_ok_def)
    from block_hash_loop_spec [OF wf bs this prev] show ?thesis
      using True block_in_range [OF bs, of k r] len
      by (simp add: request_block_hasher_def Let_def)
  qed
qed

lemma block_hash_at_cong:
  assumes "\<forall>j \<le> i. block_tokens bs r j = block_tokens bs r' j \<and> block_keys sha256 bs r j = block_keys sha256 bs r' j"
  shows "block_hash_at sha256 none_hash H bs r i = block_hash_at sha256 none_hash H bs r' i"
  using assms by (induction i) auto

lemma append_output_hashes_wf:
  assumes r: "hashes_wf sha256 none_hash H bs r" and wf: "mm_wf (mm_features r)" and bs: "0 < bs"
    and res: "resume_ok bs r"
  shows "\<exists>r'. append_output_token_ids (Some (request_block_hasher sha256 none_hash H bs)) ts r = Inr r'
    \<and> hashes_wf sha256 none_hash H bs r' \<and> all_token_ids r' = all_token_ids r @ ts
    \<and> output_token_ids r' = output_token_ids r @ ts"
proof -
  let ?q = "r\<lparr>output_token_ids := output_token_ids r @ ts, all_token_ids := all_token_ids r @ ts\<rparr>"
  let ?k = "full_block_count bs r"
  let ?h = "block_hash_at sha256 none_hash H bs"
  have keys: "block_keys sha256 bs (q\<lparr>block_hashes := hs\<rparr>) j = block_keys sha256 bs q j"
    and toks: "block_tokens bs (q\<lparr>block_hashes := hs\<rparr>) j = block_tokens bs q j" for q hs j
    by (simp_all add: block_keys_def gen_lora_extra_hash_keys_def gen_prompt_embeds_extra_hash_keys_def
        block_tokens_def)
  have tk: "block_tokens bs r j = block_tokens bs ?q j" if "j < ?k" for j
  proof -
    have "Suc j * nat bs \<le> ?k * nat bs" using that by (intro mult_le_mono1) simp
    also have "\<dots> \<le> length (all_token_ids r)" by (simp add: full_block_count_def)
    finally show ?thesis by (simp add: block_tokens_def)
  qed
  have ks: "block_keys sha256 bs r j = block_keys sha256 bs ?q j" for j
    by (simp add: block_keys_def gen_lora_extra_hash_keys_def gen_prompt_embeds_extra_hash_keys_def)
  have "?h r j = ?h ?q j" if "j < ?k" for j
    using that tk ks by (intro block_hash_at_cong) auto
  then have pre: "block_hashes ?q = map (?h ?q) [0 ..< ?k]" using r by (simp add: hashes_wf_def)
  have k: "?k \<le> full_block_count bs ?q" by (simp add: full_block_count_def div_le_mono)
  have "resume_ok bs ?q" using res by (simp add: resume_ok_def)
  from request_block_hasher_spec [OF _ bs pre k this] wf
  have hs: "request_block_hasher sha256 none_hash H bs ?q = Inr (map (?h ?q) [?k ..< full_block_count bs ?q])"
    by simp
  define r' where "r' = ?q\<lparr>block_hashes := block_hashes ?q @ map (?h ?q) [?k ..< full_block_count bs ?q]\<rparr>"
  have "append_output_token_ids (Some (request_block_hasher sha256 none_hash H bs)) ts r = Inr r'"
    using hs by (simp add: append_output_token_ids_def update_block_hashes_def r'_def)
  moreover have "?h r' j = ?h ?q j" for j
    by (rule block_hash_at_cong) (simp add: r'_def keys toks)
  moreover have "full_block_count bs r' = full_block_count bs ?q" by (simp add: r'_def full_block_count_def)
  moreover have "map (?h ?q) [0 ..< ?k] @ map (?h ?q) [?k ..< full_block_count bs ?q]
      = map (?h ?q) [0 ..< full_block_count bs ?q]"
    using upt_add_eq_append [of 0 ?k "full_block_count bs ?q - ?k"] k by (simp flip: map_append)
  ultimately have "hashes_wf sha256 none_hash H bs r'"
    using pre by (simp add: hashes_wf_def r'_def)
  then show ?thesis using \<open>append_output_token_ids _ ts r = Inr r'\<close> by (auto simp: r'_def)
qed

text \<open>Sharing a block means sharing the whole prefix, unless the hash function collides.\<close>

lemma block_hash_at_sound:
  assumes "block_hash_at sha256 none_hash H bs r i = block_hash_at sha256 none_hash H bs r' i"
    and "\<forall>x. H x \<noteq> []"
  shows "(\<forall>j \<le> i. block_tokens bs r j = block_tokens bs r' j
              \<and> block_keys sha256 bs r j = block_keys sha256 bs r' j)
    \<or> (\<exists>x y. x \<noteq> y \<and> H x = H y)"
proof (cases "\<exists>x y. x \<noteq> y \<and> H x = H y")
  case False
  then have inj: "H x = H y \<Longrightarrow> x = y" for x y by blast
  have "\<forall>j \<le> i. block_tokens bs r j = block_tokens bs r' j \<and> block_keys sha256 bs r j = block_keys sha256 bs r' j"
    using assms(1)
  proof (induction i)
    case 0
    then show ?case by (auto simp: hash_block_tokens_def Let_def dest!: inj)
  next
    case (Suc i)
    have ne: "block_hash_at sha256 none_hash H bs q i \<noteq> []" for q
      using assms(2) by (cases i) (simp_all add: hash_block_tokens_def Let_def)
    from Suc.prems ne have "block_hash_at sha256 none_hash H bs r i = block_hash_at sha256 none_hash H bs r' i"
      "block_tokens bs r (Suc i) = block_tokens bs r' (Suc i)"
      "block_keys sha256 bs r (Suc i) = block_keys sha256 bs r' (Suc i)"
      by (auto simp: hash_block_tokens_def Let_def dest!: inj)
    then show ?case using Suc.IH by (auto simp: le_Suc_eq)
  qed
  then show ?thesis by blast
qed blast

subsection \<open>A request over its lifetime\<close>

text \<open>
  What makes resuming at the last feature safe from the first append on: the items lie in the
  prompt, and all but the last lie in the blocks that the prompt already fills.
\<close>

definition hash_inv ::
  "(bytes \<Rightarrow> bytes) \<Rightarrow> bytes \<Rightarrow> (hash_input \<Rightarrow> bytes) \<Rightarrow> int \<Rightarrow> request \<Rightarrow> bool" where
  "hash_inv sha256 none_hash H bs r \<longleftrightarrow>
     hashes_wf sha256 none_hash H bs r \<and> mm_wf (mm_features r) \<and> resume_ok bs r
     \<and> (block_hashes r = [] \<longrightarrow> (\<forall>f \<in> set (mm_features r). mm_end f \<le> bs))"

lemma append_output_hash_inv:
  assumes inv: "hash_inv sha256 none_hash H bs r" and bs: "0 < bs"
  shows "\<exists>r'. append_output_token_ids (Some (request_block_hasher sha256 none_hash H bs)) ts r = Inr r'
    \<and> hash_inv sha256 none_hash H bs r' \<and> all_token_ids r' = all_token_ids r @ ts"
proof -
  note i = inv [unfolded hash_inv_def]
  obtain r' where r': "append_output_token_ids (Some (request_block_hasher sha256 none_hash H bs)) ts r = Inr r'"
    "hashes_wf sha256 none_hash H bs r'" "all_token_ids r' = all_token_ids r @ ts"
    using append_output_hashes_wf [of sha256 none_hash H bs r ts] i bs by blast
  have mm: "mm_features r' = mm_features r"
    using r'(1) by (auto simp: append_output_token_ids_def update_block_hashes_def ebind_eq_Inr)
  obtain new where new: "block_hashes r' = block_hashes r @ new"
    using r'(1) by (auto simp: append_output_token_ids_def update_block_hashes_def ebind_eq_Inr)
  have "\<forall>f \<in> set (butlast (mm_features r)). mm_end f \<le> int (length (block_hashes r')) * bs"
    if "block_hashes r' \<noteq> []"
  proof
    fix f assume f: "f \<in> set (butlast (mm_features r))"
    show "mm_end f \<le> int (length (block_hashes r')) * bs"
    proof (cases "block_hashes r = []")
      case True
      then have "mm_end f \<le> bs" using i f by (auto dest: in_set_butlastD)
      also have "1 * bs \<le> int (length (block_hashes r')) * bs"
        using that bs by (intro mult_right_mono) (cases "block_hashes r'"; simp)+
      finally show ?thesis by simp
    next
      case False
      then have "mm_end f \<le> int (length (block_hashes r)) * bs" using i f by (auto simp: resume_ok_def)
      also have "\<dots> \<le> int (length (block_hashes r')) * bs" using bs by (simp add: new)
      finally show ?thesis .
    qed
  qed
  then have "hash_inv sha256 none_hash H bs r'"
    using r'(2) i new by (auto simp: hash_inv_def resume_ok_def mm)
  then show ?thesis using r' by blast
qed

lemma append_all_hash_inv:
  assumes "hash_inv sha256 none_hash H bs r" "0 < bs"
  shows "\<exists>r'. foldE (append_output_token_ids (Some (request_block_hasher sha256 none_hash H bs))) tss r = Inr r'
    \<and> hash_inv sha256 none_hash H bs r' \<and> all_token_ids r' = all_token_ids r @ concat tss"
  using assms(1)
proof (induction tss arbitrary: r)
  case Nil
  then show ?case by simp
next
  case (Cons ts tss)
  then show ?case using append_output_hash_inv [OF Cons.prems assms(2), of ts] by fastforce
qed

lemma update_new_request_hashes:
  assumes "block_hashes r = []" "mm_wf (mm_features r)" "0 < bs"
    and mm: "\<forall>f \<in> set (mm_features r). mm_end f \<le> num_tokens r"
    and tail: "full_block_count bs r \<noteq> 0 \<Longrightarrow>
      \<forall>f \<in> set (butlast (mm_features r)). mm_end f \<le> int (full_block_count bs r) * bs"
  shows "\<exists>r'. update_block_hashes (Some (request_block_hasher sha256 none_hash H bs)) r = Inr r'
    \<and> hash_inv sha256 none_hash H bs r' \<and> all_token_ids r' = all_token_ids r"
proof -
  let ?h = "block_hash_at sha256 none_hash H bs"
  have "request_block_hasher sha256 none_hash H bs r = Inr (map (?h r) [0 ..< full_block_count bs r])"
    using request_block_hasher_spec [of r bs sha256 none_hash H 0] assms(1-3) by (simp add: resume_ok_def)
  moreover define r' where "r' = r\<lparr>block_hashes := map (?h r) [0 ..< full_block_count bs r]\<rparr>"
  moreover have "?h r' j = ?h r j" for j
    by (rule block_hash_at_cong) (simp add: r'_def block_keys_def gen_lora_extra_hash_keys_def
        gen_prompt_embeds_extra_hash_keys_def block_tokens_def)
  then have "hashes_wf sha256 none_hash H bs r'" by (simp add: hashes_wf_def r'_def full_block_count_def)
  moreover have "mm_end f \<le> bs" if "full_block_count bs r = 0" "f \<in> set (mm_features r)" for f
  proof -
    have "num_tokens r < bs" using that(1) block_in_range [OF assms(3), of 0 r] by simp
    then show ?thesis using mm that(2) by force
  qed
  ultimately show ?thesis using assms(1,2) tail
    by (auto simp: update_block_hashes_def hash_inv_def resume_ok_def full_block_count_def)
qed

subsection \<open>Properties\<close>

text \<open>
  A key that packs a block hash with a group id unpacks to both parts, for every group id that
  fits four bytes; so two different pairs never share a key.  Larger ids raise \<open>OverflowError\<close>.
\<close>

theorem group_key_roundtrip:
  "if 0 \<le> g \<and> g < 4294967296
   then \<exists>key. make_block_hash_with_group_id h g = Inr key \<and> get_block_hash key = h \<and> get_group_id key = g
   else make_block_hash_with_group_id h g = Inl OverflowError"
  using make_block_hash_total [of g h] make_block_hash_roundtrip [of h g]
  by (auto simp: make_block_hash_with_group_id_def to_bytes4_def)

text \<open>
  C20: Hashing is incremental: however the output tokens arrive, the block hashes of the request are
  those of the chain computed from scratch over its tokens, one for every full block, and nothing
  is raised.  The multi-modal items have to be ordered and disjoint, and all but the last one have
  to end before the first block that is not hashed yet.
\<close>

theorem incremental_hashing_equals_chain:
  assumes "hash_inv sha256 none_hash H bs r" "0 < bs"
  shows "\<exists>r'. foldE (append_output_token_ids (Some (request_block_hasher sha256 none_hash H bs))) tss r = Inr r'
    \<and> all_token_ids r' = all_token_ids r @ concat tss
    \<and> block_hashes r' = map (block_hash_at sha256 none_hash H bs r') [0 ..< length (all_token_ids r') div nat bs]
    \<and> hash_inv sha256 none_hash H bs r'"
  using append_all_hash_inv [OF assms, of tss] by (auto simp: hash_inv_def hashes_wf_def full_block_count_def)

theorem incremental_hashing_equals_chain_witness:
  "\<exists>r'. foldE (append_output_token_ids (Some (request_block_hasher (\<lambda>b. b) [0] (\<lambda>(p, ts, ks). 1 # p) 4)))
      [[5], [6, 7]] (example_request\<lparr>block_hashes := [[1, 0]]\<rparr>) = Inr r'
    \<and> block_hashes r' = [[1, 0], [1, 1, 0]]"
proof -
  let ?H = "\<lambda>(p, ts, ks). (1 :: 8 word) # p"
  let ?r = "example_request\<lparr>block_hashes := [[1, 0]]\<rparr>"
  have "hash_inv (\<lambda>b. b) [0] ?H 4 ?r"
    by (simp add: hash_inv_def hashes_wf_def full_block_count_def resume_ok_def mm_wf_def example_request_eq
        hash_block_tokens_def)
  from incremental_hashing_equals_chain [OF this, of "[[5], [6, 7]]"] show ?thesis
    by (auto simp: example_request_eq hash_block_tokens_def upt_rec)
qed

text \<open>What the hash function is applied to for block \<open>i\<close>.\<close>

fun hash_input_at ::
  "(bytes \<Rightarrow> bytes) \<Rightarrow> bytes \<Rightarrow> (hash_input \<Rightarrow> bytes) \<Rightarrow> int \<Rightarrow> request \<Rightarrow> nat \<Rightarrow> hash_input" where
  "hash_input_at sha256 none_hash H bs r 0 = (none_hash, block_tokens bs r 0, block_keys sha256 bs r 0)"
| "hash_input_at sha256 none_hash H bs r (Suc i) =
     (block_hash_at sha256 none_hash H bs r i, block_tokens bs r (Suc i), block_keys sha256 bs r (Suc i))"

lemma block_hash_at_nonempty: "\<forall>x. H x \<noteq> [] \<Longrightarrow> block_hash_at sha256 none_hash H bs r i \<noteq> []"
  by (cases i) (simp_all add: hash_block_tokens_def Let_def)

lemma block_hash_at_input:
  assumes "\<forall>x. H x \<noteq> []"
  shows "block_hash_at sha256 none_hash H bs r i = H (hash_input_at sha256 none_hash H bs r i)"
  using block_hash_at_nonempty [OF assms, of sha256 none_hash bs r]
  by (cases i) (simp_all add: hash_block_tokens_def)

lemma hash_input_at_parts:
  "hash_input_at sha256 none_hash H bs r i = hash_input_at sha256 none_hash H bs r' j \<Longrightarrow>
    block_tokens bs r i = block_tokens bs r' j \<and> block_keys sha256 bs r i = block_keys sha256 bs r' j"
  by (cases i; cases j) auto

text \<open>
  C19: Sharing a block is sound.  Blocks are shared by hash alone; if block \<open>i\<close> of one request and
  block \<open>j\<close> of another have the same hash then they are at the same position and all tokens and
  extra keys up to there agree, unless two of the inputs that were hashed on the way collide or a
  block hash hits the seed of the chain.
\<close>

theorem shared_hash_means_shared_prefix:
  fixes sha256 none_hash H bs
  defines "inp \<equiv> hash_input_at sha256 none_hash H bs"
  assumes "block_hash_at sha256 none_hash H bs r i = block_hash_at sha256 none_hash H bs r' j"
    and ne: "\<forall>x. H x \<noteq> []"
  shows "i = j \<and> (\<forall>k \<le> i. block_tokens bs r k = block_tokens bs r' k \<and> block_keys sha256 bs r k = block_keys sha256 bs r' k)
    \<or> (\<exists>k \<le> i. \<exists>l \<le> j. inp r k \<noteq> inp r' l \<and> H (inp r k) = H (inp r' l))
    \<or> (\<exists>k < i. H (inp r k) = none_hash) \<or> (\<exists>l < j. H (inp r' l) = none_hash)"
  using assms(2)
proof (induction i arbitrary: j)
  note hi = block_hash_at_input [OF ne, of sha256 none_hash bs, folded inp_def]
  case 0
  show ?case
  proof (cases "inp r 0 = inp r' j")
    case True
    then show ?thesis
    proof (cases j)
      case 0
      then show ?thesis using hash_input_at_parts [of sha256 none_hash H bs r 0 r' 0] True by (simp add: inp_def)
    next
      case (Suc l)
      then have "H (inp r' l) = none_hash" using True hi [of r' l] by (simp add: inp_def)
      then show ?thesis using Suc by auto
    qed
  next
    case False
    then show ?thesis using 0 hi [of r 0] hi [of r' j] by auto
  qed
next
  note hi = block_hash_at_input [OF ne, of sha256 none_hash bs, folded inp_def]
  case (Suc i)
  show ?case
  proof (cases "inp r (Suc i) = inp r' j")
    case True
    show ?thesis
    proof (cases j)
      case 0
      then have "H (inp r i) = none_hash" using True hi [of r i] by (simp add: inp_def)
      then show ?thesis by auto
    next
      case (Suc l)
      then have "block_hash_at sha256 none_hash H bs r i = block_hash_at sha256 none_hash H bs r' l"
        using True by (simp add: inp_def)
      from Suc.IH [OF this] hash_input_at_parts [of sha256 none_hash H bs r "Suc i" r' j] True show ?thesis
        unfolding \<open>j = Suc l\<close> inp_def by (elim disjE) (auto simp: le_Suc_eq less_Suc_eq)
    qed
  next
    case False
    then show ?thesis using Suc.prems hi [of r "Suc i"] hi [of r' j] by (metis le_refl)
  qed
qed

theorem shared_hash_means_shared_prefix_witness:
  "\<exists>r' :: request. all_token_ids r' \<noteq> all_token_ids example_request
    \<and> block_hash_at (\<lambda>b. b) [0] (\<lambda>(p, ts, ks). 1 # p) 4 example_request 0
      = block_hash_at (\<lambda>b. b) [0] (\<lambda>(p, ts, ks). 1 # p) 4 r' 0
    \<and> block_tokens 4 example_request 0 = block_tokens 4 r' 0"
proof (intro exI [of _ "example_request\<lparr>all_token_ids := [11, 12, 13, 14, 99]\<rparr>"] conjI)
  let ?r' = "example_request\<lparr>all_token_ids := [11, 12, 13, 14, 99]\<rparr>" and ?H = "\<lambda>(p, ts, ks). (1 :: 8 word) # p"
  show eq: "block_hash_at (\<lambda>b. b) [0] ?H 4 example_request 0 = block_hash_at (\<lambda>b. b) [0] ?H 4 ?r' 0"
    by (simp add: hash_block_tokens_def)
  from shared_hash_means_shared_prefix [OF eq] show "block_tokens 4 example_request 0 = block_tokens 4 ?r' 0"
    by (auto simp: block_tokens_def example_request_eq)
qed (simp add: example_request_eq)

end
