(* ===== verification/Hash_Block_Map.thy ===== *)
theory Hash_Block_Map
  imports Block_Hash
begin

text \<open>
  \<open>BlockHashToBlockMap\<close> of \<open>vllm/v1/core/block_pool.py\<close>: the prefix-cache index from a packed
  hash to the block that holds it, or to a dict of blocks when several blocks hold the same
  content.  Dicts are association lists in insertion order; \<open>bid\<close> reads a block's id.
\<close>

datatype block_entry = OneBlock bref | ManyBlocks "(int \<times> bref) list"

type_synonym hash_block_map = "(bytes \<times> block_entry) list"

definition hbm_get_one_block :: "hash_block_map \<Rightarrow> bytes \<Rightarrow> bref option result" where
  "hbm_get_one_block cache key =
     (case map_of cache key of
        None \<Rightarrow> Inr None
      | Some (OneBlock b) \<Rightarrow> Inr (Some b)
      | Some (ManyBlocks d) \<Rightarrow>
          (case d of [] \<Rightarrow> Inl StopIteration | (_, b) # _ \<Rightarrow> Inr (Some b)))"

definition hbm_insert :: "(bref \<Rightarrow> int) \<Rightarrow> bytes \<Rightarrow> bref \<Rightarrow> hash_block_map \<Rightarrow> hash_block_map" where
  "hbm_insert bid key block cache =
     (case map_of cache key of
        None \<Rightarrow> AList.update key (OneBlock block) cache
      | Some (OneBlock b) \<Rightarrow>
          AList.update key (ManyBlocks (AList.update (bid block) block [(bid b, b)])) cache
      | Some (ManyBlocks d) \<Rightarrow>
          AList.update key (ManyBlocks (AList.update (bid block) block d)) cache)"

definition hbm_pop ::
  "(bref \<Rightarrow> int) \<Rightarrow> bytes \<Rightarrow> int \<Rightarrow> hash_block_map \<Rightarrow> bref option \<times> hash_block_map" where
  "hbm_pop bid key i cache =
     (case map_of cache key of
        None \<Rightarrow> (None, cache)
      | Some blocks \<Rightarrow>
          let cache = AList.delete key cache in
          (case blocks of
             OneBlock b \<Rightarrow>
               if bid b = i then (Some b, cache)
               else (None, AList.update key (OneBlock b) cache)
           | ManyBlocks d \<Rightarrow>
               let block = map_of d i; d = AList.delete i d in
               (block, if length d > 0 then AList.update key (ManyBlocks d) cache else cache)))"

definition hbm_len :: "hash_block_map \<Rightarrow> nat" where
  "hbm_len cache = length cache"

subsection \<open>The relation it represents\<close>

fun entry_blocks :: "block_entry \<Rightarrow> bref set" where
  "entry_blocks (OneBlock b) = {b}"
| "entry_blocks (ManyBlocks d) = snd ` set d"

definition cached :: "hash_block_map \<Rightarrow> bytes \<Rightarrow> bref set" where
  "cached cache key = (case map_of cache key of None \<Rightarrow> {} | Some e \<Rightarrow> entry_blocks e)"

fun entry_wf :: "(bref \<Rightarrow> int) \<Rightarrow> block_entry \<Rightarrow> bool" where
  "entry_wf bid (OneBlock b) \<longleftrightarrow> True"
| "entry_wf bid (ManyBlocks d) \<longleftrightarrow>
     d \<noteq> [] \<and> distinct (map fst d) \<and> (\<forall>(i, b) \<in> set d. bid b = i)"

definition hbm_wf :: "(bref \<Rightarrow> int) \<Rightarrow> hash_block_map \<Rightarrow> bool" where
  "hbm_wf bid cache \<longleftrightarrow> distinct (map fst cache) \<and> (\<forall>(k, e) \<in> set cache. entry_wf bid e)"

lemma entry_wf_lookup: "hbm_wf bid cache \<Longrightarrow> map_of cache k = Some e \<Longrightarrow> entry_wf bid e"
  by (auto simp: hbm_wf_def dest: map_of_SomeD)

lemma hbm_wf_update: "hbm_wf bid cache \<Longrightarrow> entry_wf bid e \<Longrightarrow> hbm_wf bid (AList.update k e cache)"
  unfolding hbm_wf_def
  by (induction cache) (auto simp: AList.dom_update dest: AList.distinct_update)

lemma hbm_wf_delete: "hbm_wf bid cache \<Longrightarrow> hbm_wf bid (AList.delete k cache)"
  by (auto simp: hbm_wf_def set_alist_delete)

lemma entry_wf_many_update:
  assumes "entry_wf bid (ManyBlocks d)"
  shows "entry_wf bid (ManyBlocks (AList.update (bid b) b d))"
proof -
  have "\<forall>(i, c) \<in> set (AList.update (bid b) b d). bid c = i"
    using assms set_alist_update [of "bid b" b d] by auto
  then show ?thesis using assms by auto
qed

lemma snd_set_update_bid:
  assumes "\<forall>(i, c) \<in> set d. bid c = i" "distinct (map fst d)" "\<forall>c \<in> snd ` set d. bid c = bid b \<longrightarrow> c = b"
  shows "snd ` set (AList.update (bid b) b d) = insert b (snd ` set d)"
  using assms by (induction d) auto

lemma cached_insert:
  assumes wf: "hbm_wf bid cache" and inj: "\<forall>c \<in> cached cache k. bid c = bid b \<longrightarrow> c = b"
  shows "hbm_wf bid (hbm_insert bid k b cache)"
    and "cached (hbm_insert bid k b cache) = (cached cache)(k := insert b (cached cache k))"
proof -
  have "hbm_wf bid (hbm_insert bid k b cache)
    \<and> cached (hbm_insert bid k b cache) = (cached cache)(k := insert b (cached cache k))"
  proof (cases "map_of cache k")
    case None
    then show ?thesis using wf
      by (auto simp: hbm_insert_def cached_def AList.update_conv' fun_eq_iff intro!: hbm_wf_update)
  next
    case (Some e)
    show ?thesis
    proof (cases e)
      case (OneBlock c)
      have "bid c = bid b \<longrightarrow> c = b" using inj Some OneBlock by (simp add: cached_def)
      then have "snd ` set (AList.update (bid b) b [(bid c, c)]) = {b, c}"
        "entry_wf bid (ManyBlocks (AList.update (bid b) b [(bid c, c)]))" by auto
      then show ?thesis using wf Some OneBlock
        by (auto simp: hbm_insert_def cached_def AList.update_conv' fun_eq_iff intro!: hbm_wf_update)
    next
      case (ManyBlocks d)
      have e: "entry_wf bid (ManyBlocks d)" using entry_wf_lookup [OF wf Some] ManyBlocks by simp
      have "snd ` set (AList.update (bid b) b d) = insert b (snd ` set d)"
        using e inj Some ManyBlocks by (intro snd_set_update_bid) (auto simp: cached_def)
      then show ?thesis using wf Some ManyBlocks entry_wf_many_update [OF e, of b]
        by (auto simp: hbm_insert_def cached_def AList.update_conv' fun_eq_iff simp del: entry_wf.simps
            intro!: hbm_wf_update)
    qed
  qed
  then show "hbm_wf bid (hbm_insert bid k b cache)"
    and "cached (hbm_insert bid k b cache) = (cached cache)(k := insert b (cached cache k))" by auto
qed

lemma get_one_block_spec:
  assumes wf: "hbm_wf bid cache"
  shows "\<exists>res. hbm_get_one_block cache k = Inr res
    \<and> (case res of None \<Rightarrow> cached cache k = {} | Some b \<Rightarrow> b \<in> cached cache k)"
proof (cases "map_of cache k")
  case None
  then show ?thesis by (simp add: hbm_get_one_block_def cached_def)
next
  case (Some e)
  then show ?thesis using entry_wf_lookup [OF wf Some]
    by (cases e) (auto simp: hbm_get_one_block_def cached_def split: list.splits)
qed

lemma snd_delete_bid:
  assumes "\<forall>(i, c) \<in> set d. bid c = i"
  shows "snd ` set (AList.delete (i :: int) d) = {c \<in> snd ` set d. bid c \<noteq> i}"
  using assms by (force simp: set_alist_delete image_iff)

lemma cached_pop:
  assumes wf: "hbm_wf bid cache" and p: "hbm_pop bid k i cache = (res, cache')"
  shows "hbm_wf bid cache'"
    and "cached cache' = (cached cache)(k := {c \<in> cached cache k. bid c \<noteq> i})"
    and "case res of None \<Rightarrow> \<forall>c \<in> cached cache k. bid c \<noteq> i | Some b \<Rightarrow> b \<in> cached cache k \<and> bid b = i"
proof -
  have "hbm_wf bid cache' \<and> cached cache' = (cached cache)(k := {c \<in> cached cache k. bid c \<noteq> i})
    \<and> (case res of None \<Rightarrow> \<forall>c \<in> cached cache k. bid c \<noteq> i | Some b \<Rightarrow> b \<in> cached cache k \<and> bid b = i)"
  proof (cases "map_of cache k")
    case None
    then show ?thesis using wf p by (auto simp: hbm_pop_def cached_def fun_eq_iff)
  next
    case (Some e)
    note w = hbm_wf_delete [OF wf, of k]
    show ?thesis
    proof (cases e)
      case (OneBlock b)
      then show ?thesis using p Some w
        by (auto simp: hbm_pop_def cached_def fun_eq_iff AList.update_conv' AList.delete_conv' Let_def
            split: if_splits intro!: hbm_wf_update)
    next
      case (ManyBlocks d)
      have e: "distinct (map fst d)" "\<forall>(i, c) \<in> set d. bid c = i"
        using entry_wf_lookup [OF wf Some] ManyBlocks by auto
      let ?d = "AList.delete i d"
      have sd: "snd ` set ?d = {c \<in> snd ` set d. bid c \<noteq> i}" by (rule snd_delete_bid [OF e(2)])
      have c': "cache' = (if length ?d > 0 then AList.update k (ManyBlocks ?d) (AList.delete k cache)
          else AList.delete k cache)" and res: "res = map_of d i"
        using p Some ManyBlocks by (auto simp: hbm_pop_def Let_def)
      have "entry_wf bid (ManyBlocks ?d)" if "length ?d > 0"
        using that e by (auto simp: set_alist_delete)
      then have "hbm_wf bid cache'" using c' w by (auto intro!: hbm_wf_update)
      moreover have "cached cache' = (cached cache)(k := {c \<in> cached cache k. bid c \<noteq> i})"
        using Some ManyBlocks sd
        by (auto simp: c' cached_def fun_eq_iff AList.update_conv' AList.delete_conv' simp del: AList.delete_eq)
      moreover have "case res of None \<Rightarrow> \<forall>c \<in> cached cache k. bid c \<noteq> i
          | Some b \<Rightarrow> b \<in> cached cache k \<and> bid b = i"
        using Some ManyBlocks e(2)
        by (auto simp: res cached_def map_of_eq_None_iff split: option.splits dest!: map_of_SomeD)
          (force simp: image_iff)+
      ultimately show ?thesis by blast
    qed
  qed
  then show "hbm_wf bid cache'"
    and "cached cache' = (cached cache)(k := {c \<in> cached cache k. bid c \<noteq> i})"
    and "case res of None \<Rightarrow> \<forall>c \<in> cached cache k. bid c \<noteq> i | Some b \<Rightarrow> b \<in> cached cache k \<and> bid b = i"
    by auto
qed

lemma cached_empty [simp]: "cached [] k = {}" "hbm_wf bid []"
  by (simp_all add: cached_def hbm_wf_def)

subsection \<open>The contract of the index, as the block pool relies on it\<close>

locale prefix_index =
  fixes wf :: "'m \<Rightarrow> bool"
    and blocks_of :: "'m \<Rightarrow> 'k \<Rightarrow> 'b set"
    and ident :: "'b \<Rightarrow> int"
    and lookup :: "'m \<Rightarrow> 'k \<Rightarrow> 'b option result"
    and ins :: "'k \<Rightarrow> 'b \<Rightarrow> 'm \<Rightarrow> 'm"
    and pop :: "'k \<Rightarrow> int \<Rightarrow> 'm \<Rightarrow> 'b option \<times> 'm"
  assumes lookup_ok: "wf m \<Longrightarrow> \<exists>res. lookup m k = Inr res
      \<and> (case res of None \<Rightarrow> blocks_of m k = {} | Some b \<Rightarrow> b \<in> blocks_of m k)"
    and ins_wf: "wf m \<Longrightarrow> \<forall>c \<in> blocks_of m k. ident c = ident b \<longrightarrow> c = b \<Longrightarrow> wf (ins k b m)"
    and ins_blocks: "wf m \<Longrightarrow> \<forall>c \<in> blocks_of m k. ident c = ident b \<longrightarrow> c = b \<Longrightarrow>
      blocks_of (ins k b m) = (blocks_of m)(k := insert b (blocks_of m k))"
    and pop_wf: "wf m \<Longrightarrow> pop k i m = (res, m') \<Longrightarrow> wf m'"
    and pop_blocks: "wf m \<Longrightarrow> pop k i m = (res, m') \<Longrightarrow>
      blocks_of m' = (blocks_of m)(k := {c \<in> blocks_of m k. ident c \<noteq> i})"
    and pop_res: "wf m \<Longrightarrow> pop k i m = (res, m') \<Longrightarrow>
      (case res of None \<Rightarrow> \<forall>c \<in> blocks_of m k. ident c \<noteq> i | Some b \<Rightarrow> b \<in> blocks_of m k \<and> ident b = i)"
begin

lemma lookup_miss: "wf m \<Longrightarrow> lookup m k = Inr None \<longleftrightarrow> blocks_of m k = {}"
  using lookup_ok [of m k] by (auto split: option.splits)

lemma lookup_hit: "wf m \<Longrightarrow> lookup m k = Inr (Some b) \<Longrightarrow> b \<in> blocks_of m k"
  using lookup_ok [of m k] by auto

lemma lookup_after_ins:
  assumes "wf m" "\<forall>c \<in> blocks_of m k. ident c = ident b \<longrightarrow> c = b"
  shows "\<exists>c. lookup (ins k b m) k = Inr (Some c) \<and> c \<in> insert b (blocks_of m k)"
  using lookup_ok [OF ins_wf [OF assms], of k] ins_blocks [OF assms] by (auto split: option.splits)

lemma pop_present:
  assumes "wf m" "b \<in> blocks_of m k" "\<forall>c \<in> blocks_of m k. ident c = ident b \<longrightarrow> c = b"
  shows "\<exists>m'. pop k (ident b) m = (Some b, m') \<and> wf m'
    \<and> blocks_of m' = (blocks_of m)(k := blocks_of m k - {b})"
proof -
  obtain res m' where p: "pop k (ident b) m = (res, m')" by fastforce
  have "res = Some b" using pop_res [OF assms(1) p] assms(2,3) by (cases res) auto
  moreover have "{c \<in> blocks_of m k. ident c \<noteq> ident b} = blocks_of m k - {b}" using assms(2,3) by auto
  ultimately show ?thesis using p pop_wf [OF assms(1) p] pop_blocks [OF assms(1) p] by auto
qed

text \<open>Evicting the block that was just cached restores the index.\<close>

lemma pop_after_ins:
  assumes "wf m" "\<forall>c \<in> blocks_of m k. ident c \<noteq> ident b"
  shows "\<exists>m'. pop k (ident b) (ins k b m) = (Some b, m') \<and> wf m' \<and> blocks_of m' = blocks_of m"
proof -
  have c: "\<forall>c \<in> blocks_of m k. ident c = ident b \<longrightarrow> c = b" using assms(2) by blast
  have "b \<notin> blocks_of m k" using assms(2) by blast
  then show ?thesis
    using pop_present [OF ins_wf [OF assms(1) c], of b k] ins_blocks [OF assms(1) c] c by auto
qed

end

interpretation hbm: prefix_index "hbm_wf bid" cached bid hbm_get_one_block "hbm_insert bid" "hbm_pop bid"
  for bid
  by unfold_locales (blast intro: get_one_block_spec cached_insert cached_pop)+

subsection \<open>Properties\<close>

text \<open>
  C33: The prefix-cache index behaves as a relation between keys and blocks: an insertion adds one pair
  and nothing else, a lookup finds a block of the key if there is one, and popping the inserted
  block by its id returns it and restores the relation.
\<close>

theorem prefix_index_insert_pop:
  assumes "hbm_wf bid cache" "\<forall>c \<in> cached cache key. bid c \<noteq> bid block"
  shows "cached (hbm_insert bid key block cache) = (cached cache)(key := insert block (cached cache key))
    \<and> (\<exists>c. hbm_get_one_block (hbm_insert bid key block cache) key = Inr (Some c)
         \<and> c \<in> insert block (cached cache key))
    \<and> (\<exists>cache'. hbm_pop bid key (bid block) (hbm_insert bid key block cache) = (Some block, cache')
         \<and> hbm_wf bid cache' \<and> cached cache' = cached cache)"
  using assms hbm.ins_blocks [of bid cache key block] hbm.lookup_after_ins [of bid cache key block]
    hbm.pop_after_ins [of bid cache key block] by metis

theorem prefix_index_insert_pop_witness:
  "\<exists>cache'. hbm_pop (\<lambda>b. case b of Blk i \<Rightarrow> int i | _ \<Rightarrow> -1) [7] 2
       (hbm_insert (\<lambda>b. case b of Blk i \<Rightarrow> int i | _ \<Rightarrow> -1) [7] (Blk 2) [([7], OneBlock (Blk 1))]) = (Some (Blk 2), cache')
    \<and> cached cache' [7] = {Blk 1}"
proof -
  let ?bid = "\<lambda>b. case b of Blk i \<Rightarrow> int i | _ \<Rightarrow> -1" and ?m = "[([7], OneBlock (Blk 1))] :: hash_block_map"
  have c: "cached ?m [7] = {Blk 1}" by (simp add: cached_def)
  have "hbm_wf ?bid ?m" "\<forall>c \<in> cached ?m [7]. ?bid c \<noteq> ?bid (Blk 2)" using c by (simp_all add: hbm_wf_def)
  from prefix_index_insert_pop [OF this] c show ?thesis by auto
qed

end
