(* ===== verification/Block_Pool.thy ===== *)
theory Block_Pool
  imports Hash_Block_Map
begin

text \<open>
  \<open>BlockPool\<close> of \<open>vllm/v1/core/block_pool.py\<close>: the owner of all KV-cache blocks.  The pool's
  record extends the free queue's (the two share the block objects, hence the heap), holds the
  prefix-cache index, and logs the cache events of \<open>vllm/distributed/kv_events.py\<close>.

  \<open>env\<close> carries what the code reads from its surroundings: the digest of prompt embeddings and
  the flag \<open>VLLM_KV_EVENTS_USE_INT_BLOCK_HASHES\<close>.  The optional metrics collector samples block
  lifetimes with a clock and a random generator; it never writes to the pool and is not modelled.
\<close>

record pool_env =
  env_sha256 :: "bytes \<Rightarrow> bytes"
  env_int_hashes :: bool

datatype kv_event =
    BlockStored (ev_hashes: "external_hash list") (ev_parent: "external_hash option")
      (ev_tokens: "int list") (ev_block_size: int) (ev_lora_id: "int option")
      (ev_medium: string) (ev_lora_name: "string option")
      (ev_extra_keys: "extra_key list option list option")
  | BlockRemoved "external_hash list" string
  | AllBlocksCleared

definition MEDIUM_GPU :: string where "MEDIUM_GPU = ''GPU''"

record block_pool = free_queue +
  num_gpu_blocks :: int
  enable_caching :: bool
  hash_block_size :: int
  pool_blocks :: "bref list"
  cached_block_hash_to_block :: hash_block_map
  null_block :: bref
  enable_kv_cache_events :: bool
  kv_event_queue :: "kv_event list"

definition upd_block :: "bref \<Rightarrow> (kv_block \<Rightarrow> kv_block) \<Rightarrow> 'a free_queue_scheme \<Rightarrow> 'a free_queue_scheme" where
  "upd_block r f q = q\<lparr>heap := (heap q)(r := f (heap q r))\<rparr>"

definition bid_of :: "'a free_queue_scheme \<Rightarrow> bref \<Rightarrow> int" where
  "bid_of q r = block_id (heap q r)"

subsection \<open>Construction\<close>

definition fresh_heap :: "bref \<Rightarrow> kv_block" where
  "fresh_heap r = (case r of Blk i \<Rightarrow> new_kv_block (int i) | _ \<Rightarrow> new_kv_block (-1))"

definition init_block_pool :: "int \<Rightarrow> bool \<Rightarrow> int \<Rightarrow> bool \<Rightarrow> block_pool result" where
  "init_block_pool n caching hbs events =
     ebind (eassert (n > 0)) (\<lambda>_.
     let blocks = map Blk [0 ..< nat n];
         p = \<lparr>heap = fresh_heap, num_free_blocks = 0, num_gpu_blocks = n, enable_caching = caching,
              hash_block_size = hbs, pool_blocks = blocks, cached_block_hash_to_block = [],
              null_block = FakeHead, enable_kv_cache_events = events, kv_event_queue = []\<rparr>
     in ebind (popleft (init_free_queue blocks p)) (\<lambda>(nb, p).
        Inr (upd_block nb (\<lambda>b. b\<lparr>is_null := True\<rparr>) (p\<lparr>null_block := nb\<rparr>))))"

definition get_num_free_blocks :: "block_pool \<Rightarrow> int" where
  "get_num_free_blocks p = num_free_blocks p"

subsection \<open>Looking up and filling the prefix cache\<close>

fun get_cached_block :: "block_pool \<Rightarrow> bytes \<Rightarrow> int list \<Rightarrow> bref list option result" where
  "get_cached_block p h [] = Inr (Some [])"
| "get_cached_block p h (g # gs) =
     ebind (make_block_hash_with_group_id h g) (\<lambda>key.
     ebind (hbm_get_one_block (cached_block_hash_to_block p) key) (\<lambda>block.
       case block of
         None \<Rightarrow> Inr None
       | Some b \<Rightarrow>
           ebind (get_cached_block p h gs) (\<lambda>rest.
             case rest of None \<Rightarrow> Inr None | Some bs \<Rightarrow> Inr (Some (b # bs)))))"

text \<open>One turn of the loop over the new full blocks: \<open>i\<close> indexes the new hashes.\<close>

definition cache_one_block ::
  "pool_env \<Rightarrow> bytes list \<Rightarrow> int \<Rightarrow> nat \<times> bref \<Rightarrow> block_pool \<times> external_hash list option
    \<Rightarrow> (block_pool \<times> external_hash list option) result" where
  "cache_one_block env new_block_hashes group_id = (\<lambda>(i, blk) (p, new_hashes).
     if is_null (heap p blk) then Inr (p, new_hashes)
     else
       ebind (eassert (bl_hash (heap p blk) = None)) (\<lambda>_.
       ebind (py_index new_block_hashes (int i)) (\<lambda>block_hash.
       ebind (make_block_hash_with_group_id block_hash group_id) (\<lambda>key.
         let p = upd_block blk (\<lambda>b. b\<lparr>bl_hash := Some key\<rparr>) p;
             p = p\<lparr>cached_block_hash_to_block :=
                     hbm_insert (bid_of p) key blk (cached_block_hash_to_block p)\<rparr>
         in Inr (p, map_option (\<lambda>hs. hs @ [maybe_convert_block_hash (env_int_hashes env) block_hash])
                      new_hashes)))))"

text \<open>The extra keys of the blocks in the stored event, recomputed from feature index 0.\<close>

fun event_extra_keys ::
  "pool_env \<Rightarrow> block_pool \<Rightarrow> request \<Rightarrow> bref list \<Rightarrow> int \<Rightarrow> int list \<Rightarrow> int
    \<Rightarrow> extra_key list option list result" where
  "event_extra_keys env p r blocks block_size [] curr_mm_idx = Inr []"
| "event_extra_keys env p r blocks block_size (i # is) curr_mm_idx =
     ebind (py_index blocks i) (\<lambda>blk.
       if is_null (heap p blk) then event_extra_keys env p r blocks block_size is curr_mm_idx
       else
         let block_start = i * block_size; block_end = block_start + block_size in
         ebind (generate_block_hash_extra_keys (env_sha256 env) r block_start block_end curr_mm_idx)
           (\<lambda>(extra_keys, curr_mm_idx).
         ebind (event_extra_keys env p r blocks block_size is curr_mm_idx) (\<lambda>rest.
           Inr (extra_keys # rest))))"

definition cache_full_blocks ::
  "pool_env \<Rightarrow> request \<Rightarrow> bref list \<Rightarrow> int \<Rightarrow> int \<Rightarrow> int \<Rightarrow> int \<Rightarrow> block_pool \<Rightarrow> block_pool result" where
  "cache_full_blocks env r blocks num_cached_blocks num_full_blocks block_size group_id p =
     (if num_cached_blocks \<ge> num_full_blocks then Inr p
      else
        let new_full_blocks = py_slice blocks num_cached_blocks num_full_blocks in
        ebind (eassert (int (length (block_hashes r)) \<ge> num_full_blocks)) (\<lambda>_.
        ebind (if block_size = hash_block_size p then Inr (PlainHashes (block_hashes r))
               else if hash_block_size p = 0 then Inl ZeroDivisionError
               else ebind (eassert (block_size mod hash_block_size p = 0)) (\<lambda>_.
                 block_hash_list_with_block_size (block_hashes r) (hash_block_size p) block_size))
          (\<lambda>hashes.
        ebind (bhl_from hashes num_cached_blocks) (\<lambda>new_block_hashes.
        ebind (foldE (cache_one_block env new_block_hashes group_id)
                 (enumerate 0 new_full_blocks)
                 (p, if enable_kv_cache_events p then Some [] else None)) (\<lambda>(p, new_hashes).
        if \<not> enable_kv_cache_events p then Inr p
        else
          ebind (if num_cached_blocks = 0 then Inr None
                 else ebind (bhl_get hashes (num_cached_blocks - 1)) (\<lambda>h.
                   Inr (Some (maybe_convert_block_hash (env_int_hashes env) h)))) (\<lambda>parent_block_hash.
          let start_token_idx = num_cached_blocks * block_size;
              end_token_idx = num_full_blocks * block_size in
          ebind (event_extra_keys env p r blocks block_size
                   (py_range num_cached_blocks num_full_blocks) 0) (\<lambda>extra_keys_list.
            Inr (p\<lparr>kv_event_queue := kv_event_queue p @
              [BlockStored (case new_hashes of None \<Rightarrow> [] | Some hs \<Rightarrow> hs) parent_block_hash
                 (py_slice (all_token_ids r) start_token_idx end_token_idx) block_size
                 (map_option lora_int_id (lora_req r)) MEDIUM_GPU (map_option lora_name (lora_req r))
                 (if extra_keys_list = [] then None else Some extra_keys_list)]\<rparr>))))))))"

subsection \<open>Eviction, allocation, sharing and release\<close>

definition maybe_evict_cached_block :: "pool_env \<Rightarrow> bref \<Rightarrow> block_pool \<Rightarrow> (bool \<times> block_pool) result" where
  "maybe_evict_cached_block env blk p =
     (case bl_hash (heap p blk) of
        None \<Rightarrow> Inr (False, p)
      | Some block_hash \<Rightarrow>
          let (popped, cache) = hbm_pop (bid_of p) block_hash (block_id (heap p blk))
                                  (cached_block_hash_to_block p);
              p = p\<lparr>cached_block_hash_to_block := cache\<rparr>
          in (case popped of
                None \<Rightarrow> Inr (False, p)
              | Some _ \<Rightarrow>
                  let p = upd_block blk (\<lambda>b. b\<lparr>bl_hash := None\<rparr>) p in
                  Inr (True,
                    if enable_kv_cache_events p
                    then p\<lparr>kv_event_queue := kv_event_queue p @
                           [BlockRemoved [maybe_convert_block_hash (env_int_hashes env)
                                            (get_block_hash block_hash)] MEDIUM_GPU]\<rparr>
                    else p)))"

definition take_fresh_block :: "pool_env \<Rightarrow> bref \<Rightarrow> block_pool \<Rightarrow> block_pool result" where
  "take_fresh_block env blk p =
     ebind (if enable_caching p then ebind (maybe_evict_cached_block env blk p) (\<lambda>(_, p). Inr p)
            else Inr p) (\<lambda>p.
     ebind (eassert (ref_cnt (heap p blk) = 0)) (\<lambda>_.
       Inr (upd_block blk (\<lambda>b. b\<lparr>ref_cnt := ref_cnt b + 1\<rparr>) p)))"

definition get_new_blocks :: "pool_env \<Rightarrow> int \<Rightarrow> block_pool \<Rightarrow> (bref list \<times> block_pool) result" where
  "get_new_blocks env num_blocks p =
     (if num_blocks > get_num_free_blocks p then Inl ValueError
      else
        ebind (popleft_n num_blocks p) (\<lambda>(ret, p).
        ebind (foldE (take_fresh_block env) ret p) (\<lambda>p. Inr (ret, p))))"

definition touch_block :: "bref \<Rightarrow> block_pool \<Rightarrow> block_pool result" where
  "touch_block blk p =
     ebind (if ref_cnt (heap p blk) = 0 \<and> \<not> is_null (heap p blk) then remove blk p else Inr p)
       (\<lambda>p. Inr (upd_block blk (\<lambda>b. b\<lparr>ref_cnt := ref_cnt b + 1\<rparr>) p))"

definition touch :: "bref list \<Rightarrow> block_pool \<Rightarrow> block_pool result" where
  "touch blocks p = foldE touch_block blocks p"

definition free_blocks :: "bref list \<Rightarrow> block_pool \<Rightarrow> block_pool result" where
  "free_blocks ordered_blocks p =
     (let p = fold (\<lambda>blk. upd_block blk (\<lambda>b. b\<lparr>ref_cnt := ref_cnt b - 1\<rparr>)) ordered_blocks p
      in append_n (filter (\<lambda>blk. ref_cnt (heap p blk) = 0 \<and> \<not> is_null (heap p blk)) ordered_blocks) p)"

definition evict_block_id :: "pool_env \<Rightarrow> int \<Rightarrow> block_pool \<Rightarrow> block_pool result" where
  "evict_block_id env i p =
     ebind (eassert (i < int (length (pool_blocks p)))) (\<lambda>_.
     ebind (py_index (pool_blocks p) i) (\<lambda>blk.
     ebind (maybe_evict_cached_block env blk p) (\<lambda>(_, p). Inr p)))"

definition evict_blocks :: "pool_env \<Rightarrow> int list \<Rightarrow> block_pool \<Rightarrow> block_pool result" where
  "evict_blocks env block_ids p = foldE (evict_block_id env) block_ids p"

definition reset_prefix_cache :: "block_pool \<Rightarrow> bool \<times> block_pool" where
  "reset_prefix_cache p =
     (let num_used_blocks = num_gpu_blocks p - get_num_free_blocks p in
      if num_used_blocks \<noteq> 1 then (False, p)
      else
        let p = p\<lparr>cached_block_hash_to_block := []\<rparr>;
            p = fold (\<lambda>blk. upd_block blk (\<lambda>b. b\<lparr>bl_hash := None\<rparr>)) (pool_blocks p) p
        in (True, if enable_kv_cache_events p
                  then p\<lparr>kv_event_queue := kv_event_queue p @ [AllBlocksCleared]\<rparr> else p))"

definition get_usage :: "block_pool \<Rightarrow> rat" where
  "get_usage p =
     (let total_gpu_blocks = num_gpu_blocks p - 1 in
      if total_gpu_blocks = 0 then 0
      else 1 - of_int (get_num_free_blocks p) / of_int total_gpu_blocks)"

definition take_events :: "block_pool \<Rightarrow> kv_event list \<times> block_pool" where
  "take_events p =
     (if \<not> enable_kv_cache_events p then ([], p)
      else (kv_event_queue p, p\<lparr>kv_event_queue := []\<rparr>))"

subsection \<open>The invariant of the pool\<close>

definition nblocks :: "block_pool \<Rightarrow> nat" where "nblocks p = nat (num_gpu_blocks p)"
definition refs :: "block_pool \<Rightarrow> nat \<Rightarrow> int" where "refs p i = ref_cnt (heap p (Blk i))"
definition hash_of :: "block_pool \<Rightarrow> nat \<Rightarrow> bytes option" where "hash_of p i = bl_hash (heap p (Blk i))"

definition pool_ref :: "block_pool \<Rightarrow> bref \<Rightarrow> bool" where
  "pool_ref p r \<longleftrightarrow> (\<exists>i < nblocks p. r = Blk i)"

text \<open>What no operation of the pool changes once it is constructed.\<close>

definition static ::
  "block_pool \<Rightarrow> (int \<times> bool \<times> int \<times> bref list \<times> bref \<times> bool) \<times> (bref \<Rightarrow> int) \<times> (bref \<Rightarrow> bool)" where
  "static p = ((num_gpu_blocks p, enable_caching p, hash_block_size p, pool_blocks p, null_block p,
     enable_kv_cache_events p), bid_of p, (\<lambda>r. is_null (heap p r)))"

text \<open>The index lists exactly the blocks that carry a hash, under that hash.\<close>

definition index_inv :: "block_pool \<Rightarrow> bool" where
  "index_inv p \<longleftrightarrow> hash_of p 0 = None \<and> hbm_wf (bid_of p) (cached_block_hash_to_block p)
     \<and> (\<forall>k b. b \<in> cached (cached_block_hash_to_block p) k
       \<longleftrightarrow> (\<exists>i < nblocks p. b = Blk i \<and> hash_of p i = Some k))"

text \<open>
  \<open>pool_core p xs S\<close>: the free queue is \<open>xs\<close>; the blocks with reference count 0 are those of the
  free queue and those of \<open>S\<close>, which an operation in progress has popped but not yet counted.
\<close>

definition pool_core :: "block_pool \<Rightarrow> bref list \<Rightarrow> bref set \<Rightarrow> bool" where
  "pool_core p xs S \<longleftrightarrow>
     0 < num_gpu_blocks p \<and> pool_blocks p = map Blk [0 ..< nblocks p] \<and> null_block p = Blk 0
     \<and> queue_rep p xs
     \<and> (\<forall>i. block_id (heap p (Blk i)) = int i)
     \<and> (\<forall>i. is_null (heap p (Blk i)) \<longleftrightarrow> i = 0)
     \<and> (\<forall>i. 0 < i \<and> i < nblocks p \<longrightarrow> 0 \<le> refs p i)
     \<and> set xs \<inter> S = {} \<and> set xs \<union> S = Blk ` {i. 0 < i \<and> i < nblocks p \<and> refs p i = 0}
     \<and> index_inv p"

abbreviation pool_inv :: "block_pool \<Rightarrow> bref list \<Rightarrow> bool" where
  "pool_inv p xs \<equiv> pool_core p xs {}"

lemma heap_upd_block [simp]:
  "heap (upd_block r f q) = (heap q)(r := f (heap q r))"
  by (simp add: upd_block_def)

lemma upd_block_fields [simp]:
  fixes p :: block_pool
  shows "num_gpu_blocks (upd_block r f p) = num_gpu_blocks p"
    "enable_caching (upd_block r f p) = enable_caching p"
    "hash_block_size (upd_block r f p) = hash_block_size p"
    "pool_blocks (upd_block r f p) = pool_blocks p"
    "cached_block_hash_to_block (upd_block r f p) = cached_block_hash_to_block p"
    "null_block (upd_block r f p) = null_block p"
    "enable_kv_cache_events (upd_block r f p) = enable_kv_cache_events p"
    "kv_event_queue (upd_block r f p) = kv_event_queue p"
    "num_free_blocks (upd_block r f p) = num_free_blocks p"
  by (simp_all add: upd_block_def)

lemma more_upd_block [simp]: "free_queue.more (upd_block r f q) = free_queue.more q"
  by (simp add: upd_block_def)

lemma queue_rep_cong:
  assumes "\<And>r. nxt q r = nxt q' r" "\<And>r. prv q r = prv q' r" "num_free_blocks q = num_free_blocks q'"
  shows "queue_rep q xs = queue_rep q' xs"
proof -
  have "nxt q = nxt q'" "prv q = prv q'" using assms by auto
  then show ?thesis using assms(3) by (simp add: queue_rep_def)
qed

lemma queue_rep_upd_block:
  assumes "\<And>b. next_free_block (f b) = next_free_block b" "\<And>b. prev_free_block (f b) = prev_free_block b"
  shows "queue_rep (upd_block r f q) xs = queue_rep q xs"
  by (rule queue_rep_cong) (auto simp: nxt_def prv_def assms upd_block_def)

lemma queue_rep_fields [simp]:
  fixes p :: block_pool
  shows "queue_rep (p\<lparr>cached_block_hash_to_block := m\<rparr>) xs = queue_rep p xs"
    "queue_rep (p\<lparr>kv_event_queue := ev\<rparr>) xs = queue_rep p xs"
  by (rule queue_rep_cong; simp add: nxt_def prv_def)+

lemma bid_of_fields [simp]:
  fixes p :: block_pool
  shows "bid_of (p\<lparr>cached_block_hash_to_block := m\<rparr>) = bid_of p"
    "bid_of (p\<lparr>kv_event_queue := ev\<rparr>) = bid_of p"
  by (simp_all add: bid_of_def fun_eq_iff)

lemma staticD:
  assumes "static p' = static p"
  shows "num_gpu_blocks p' = num_gpu_blocks p" "enable_caching p' = enable_caching p"
    "hash_block_size p' = hash_block_size p" "pool_blocks p' = pool_blocks p"
    "null_block p' = null_block p" "enable_kv_cache_events p' = enable_kv_cache_events p"
    "bid_of p' = bid_of p" "is_null (heap p' r) = is_null (heap p r)" "nblocks p' = nblocks p"
    "pool_ref p' r = pool_ref p r" "block_id (heap p' r) = block_id (heap p r)"
proof -
  show a: "num_gpu_blocks p' = num_gpu_blocks p" "enable_caching p' = enable_caching p"
    "hash_block_size p' = hash_block_size p" "pool_blocks p' = pool_blocks p"
    "null_block p' = null_block p" "enable_kv_cache_events p' = enable_kv_cache_events p"
    "bid_of p' = bid_of p" "is_null (heap p' r) = is_null (heap p r)"
    using assms by (simp_all add: static_def fun_eq_iff)
  show b: "nblocks p' = nblocks p" using a by (simp add: nblocks_def)
  show "pool_ref p' r = pool_ref p r" using b by (simp add: pool_ref_def)
  show "block_id (heap p' r) = block_id (heap p r)" using a(7) by (simp add: bid_of_def fun_eq_iff)
qed

lemma frame_pool:
  fixes p p' :: block_pool
  assumes "frame p' = frame p"
  shows "static p' = static p" "cached_block_hash_to_block p' = cached_block_hash_to_block p"
    "kv_event_queue p' = kv_event_queue p" "refs p' = refs p" "hash_of p' = hash_of p"
proof -
  have m: "free_queue.more p' = free_queue.more p" by (rule frame_fields(5) [OF assms])
  show "cached_block_hash_to_block p' = cached_block_hash_to_block p"
    "kv_event_queue p' = kv_event_queue p"
    using m by (cases p; cases p'; simp)+
  have "num_gpu_blocks p' = num_gpu_blocks p" "enable_caching p' = enable_caching p"
    "hash_block_size p' = hash_block_size p" "pool_blocks p' = pool_blocks p"
    "null_block p' = null_block p" "enable_kv_cache_events p' = enable_kv_cache_events p"
    using m by (cases p; cases p'; simp)+
  then show "static p' = static p"
    by (simp add: static_def bid_of_def fun_eq_iff frame_fields [OF assms])
qed (simp_all add: refs_def hash_of_def fun_eq_iff frame_fields [OF assms])

lemma pool_coreD:
  assumes "pool_core p xs S"
  shows "0 < num_gpu_blocks p" "pool_blocks p = map Blk [0 ..< nblocks p]" "null_block p = Blk 0"
    "queue_rep p xs" "\<And>i. block_id (heap p (Blk i)) = int i" "\<And>i. is_null (heap p (Blk i)) \<longleftrightarrow> i = 0"
    "\<And>i. 0 < i \<Longrightarrow> i < nblocks p \<Longrightarrow> 0 \<le> refs p i" "set xs \<inter> S = {}"
    "set xs \<union> S = Blk ` {i. 0 < i \<and> i < nblocks p \<and> refs p i = 0}" "index_inv p"
  using assms unfolding pool_core_def by simp_all

lemma pool_core_distinct: "pool_core p xs S \<Longrightarrow> distinct xs"
  by (meson pool_coreD(4) queue_repD(2))

lemma pool_core_num_free: "pool_core p xs S \<Longrightarrow> get_num_free_blocks p = int (length xs)"
  by (simp add: get_num_free_blocks_def queue_repD(7) [OF pool_coreD(4)])

lemma pool_core_free_ref:
  assumes "pool_core p xs S" "b \<in> set xs \<union> S"
  shows "\<exists>i. b = Blk i \<and> 0 < i \<and> i < nblocks p \<and> refs p i = 0"
  using assms(2) unfolding pool_coreD(9) [OF assms(1)] by auto

lemma free_iff_unreferenced:
  assumes "pool_inv p xs" "0 < i" "i < nblocks p"
  shows "Blk i \<in> set xs \<longleftrightarrow> refs p i = 0"
  using pool_coreD(9) [OF assms(1)] assms(2,3) by auto

text \<open>Changing a reference count: the free list and the pending set have to follow.\<close>

lemma pool_core_change:
  assumes core: "pool_core p xs S" and st: "static p' = static p" and q: "queue_rep p' xs'"
    and pos: "\<And>i. 0 < i \<Longrightarrow> i < nblocks p \<Longrightarrow> 0 \<le> refs p' i"
    and dj: "set xs' \<inter> S' = {}"
    and zero: "set xs' \<union> S' = Blk ` {i. 0 < i \<and> i < nblocks p \<and> refs p' i = 0}"
    and ix: "index_inv p'"
  shows "pool_core p' xs' S'"
proof -
  note s = staticD [OF st]
  show ?thesis
    unfolding pool_core_def s using pool_coreD(1-3,5,6) [OF core] q pos dj zero ix by simp
qed

lemma index_inv_keep:
  assumes "index_inv p" "static p' = static p" "hash_of p' = hash_of p"
    "cached_block_hash_to_block p' = cached_block_hash_to_block p"
  shows "index_inv p'"
  using assms(1) unfolding index_inv_def staticD [OF assms(2)] assms(3,4) .

lemma pool_core_frame:
  assumes "pool_core p xs S" "frame p' = frame p" "queue_rep p' xs'" "set xs' \<union> S' = set xs \<union> S"
    "set xs' \<inter> S' = {}"
  shows "pool_core p' xs' S'"
proof (rule pool_core_change [OF assms(1) frame_pool(1) [OF assms(2)] assms(3)])
  show "0 \<le> refs p' i" if "0 < i" "i < nblocks p" for i
    using that pool_coreD(7) [OF assms(1)] by (simp add: frame_pool [OF assms(2)])
  show "index_inv p'"
    by (rule index_inv_keep [OF pool_coreD(10) [OF assms(1)]]) (simp_all add: frame_pool [OF assms(2)])
qed (use assms pool_coreD(9) [OF assms(1)] in \<open>simp_all add: frame_pool [OF assms(2)]\<close>)

text \<open>Setting the reference count of one block.\<close>

definition set_refs :: "nat \<Rightarrow> int \<Rightarrow> block_pool \<Rightarrow> block_pool" where
  "set_refs i n p = upd_block (Blk i) (\<lambda>b. b\<lparr>ref_cnt := n\<rparr>) p"

lemma set_refs_facts:
  "static (set_refs i n p) = static p" "refs (set_refs i n p) = (refs p)(i := n)"
  "hash_of (set_refs i n p) = hash_of p"
  "cached_block_hash_to_block (set_refs i n p) = cached_block_hash_to_block p"
  "kv_event_queue (set_refs i n p) = kv_event_queue p"
  "queue_rep (set_refs i n p) xs = queue_rep p xs"
  by (auto simp: set_refs_def static_def bid_of_def refs_def hash_of_def fun_eq_iff queue_rep_upd_block)

lemma upd_ref_set_refs:
  "upd_block (Blk i) (\<lambda>b. b\<lparr>ref_cnt := ref_cnt b + d\<rparr>) p = set_refs i (refs p i + d) p"
  "upd_block (Blk i) (\<lambda>b. b\<lparr>ref_cnt := ref_cnt b - d\<rparr>) p = set_refs i (refs p i - d) p"
  by (simp_all add: set_refs_def upd_block_def refs_def)

lemma index_inv_set_refs: "index_inv p \<Longrightarrow> index_inv (set_refs i n p)"
  by (rule index_inv_keep) (simp_all add: set_refs_facts)

subsection \<open>Eviction from the index\<close>

lemma index_inv_cached:
  assumes "index_inv p" "i < nblocks p"
  shows "Blk i \<in> cached (cached_block_hash_to_block p) k \<longleftrightarrow> hash_of p i = Some k"
  using assms unfolding index_inv_def by auto

lemma maybe_evict_spec:
  assumes core: "pool_core p xs S" and i: "i < nblocks p"
  shows "\<exists>p'. maybe_evict_cached_block env (Blk i) p = Inr (hash_of p i \<noteq> None, p')
    \<and> static p' = static p \<and> refs p' = refs p \<and> hash_of p' = (hash_of p)(i := None)
    \<and> pool_core p' xs S"
proof (cases "hash_of p i")
  case None
  then have "maybe_evict_cached_block env (Blk i) p = Inr (False, p)"
    by (simp add: maybe_evict_cached_block_def hash_of_def)
  moreover have "hash_of p = (hash_of p)(i := None)" using None by auto
  ultimately show ?thesis using core None by auto
next
  case (Some key)
  let ?m = "cached_block_hash_to_block p"
  have ix: "hash_of p 0 = None" "hbm_wf (bid_of p) ?m"
    "\<And>k b. b \<in> cached ?m k \<longleftrightarrow> (\<exists>i < nblocks p. b = Blk i \<and> hash_of p i = Some k)"
    using pool_coreD(10) [OF core] by (auto simp: index_inv_def)
  have bid: "bid_of p (Blk j) = int j" for j using pool_coreD(5) [OF core] by (simp add: bid_of_def)
  have mem: "Blk i \<in> cached ?m key" using i Some ix(3) by auto
  have inj: "\<forall>c \<in> cached ?m key. bid_of p c = bid_of p (Blk i) \<longrightarrow> c = Blk i"
    using ix(3) by (auto simp: bid)
  obtain m' where pop: "hbm_pop (bid_of p) key (bid_of p (Blk i)) ?m = (Some (Blk i), m')"
    "hbm_wf (bid_of p) m'" "cached m' = (cached ?m)(key := cached ?m key - {Blk i})"
    using hbm.pop_present [OF ix(2) mem inj] by blast
  define p1 where "p1 = upd_block (Blk i) (\<lambda>b. b\<lparr>bl_hash := None\<rparr>) (p\<lparr>cached_block_hash_to_block := m'\<rparr>)"
  define p' where "p' = (if enable_kv_cache_events p1
    then p1\<lparr>kv_event_queue := kv_event_queue p1 @ [BlockRemoved [maybe_convert_block_hash (env_int_hashes env)
      (get_block_hash key)] MEDIUM_GPU]\<rparr> else p1)"
  have eq: "maybe_evict_cached_block env (Blk i) p = Inr (True, p')"
    using Some pop(1) by (simp add: maybe_evict_cached_block_def hash_of_def bid_of_def p1_def p'_def Let_def)
  have st: "static p' = static p" and rf: "refs p' = refs p"
    and h: "hash_of p' = (hash_of p)(i := None)" and m: "cached_block_hash_to_block p' = m'"
    by (auto simp: p'_def p1_def static_def bid_of_def refs_def hash_of_def fun_eq_iff)
  have q: "queue_rep p' xs"
  proof -
    have "queue_rep p' xs = queue_rep p xs"
      by (rule queue_rep_cong) (auto simp: p'_def p1_def nxt_def prv_def)
    then show ?thesis using pool_coreD(4) [OF core] by simp
  qed
  have h': "hash_of p' j = Some k \<longleftrightarrow> j \<noteq> i \<and> hash_of p j = Some k" for j k by (simp add: h)
  have "b \<in> cached m' k \<longleftrightarrow> (\<exists>j < nblocks p. b = Blk j \<and> j \<noteq> i \<and> hash_of p j = Some k)" for k b
    using ix(3) [of b k] Some by (auto simp: pop(3))
  then have "index_inv p'"
    unfolding index_inv_def staticD [OF st] m h' using pop(2) ix(1) by (simp add: h)
  then have "pool_core p' xs S"
    using pool_coreD(7,8,9) [OF core] q by (intro pool_core_change [OF core st]) (simp_all add: rf)
  then show ?thesis using eq st rf h Some by auto
qed

subsection \<open>Allocation\<close>

lemma take_fresh_block_spec:
  assumes core: "pool_core p xs S" and b: "Blk i \<in> S"
  shows "\<exists>p'. take_fresh_block env (Blk i) p = Inr p' \<and> static p' = static p
    \<and> refs p' = (refs p)(i := 1)
    \<and> hash_of p' = (if enable_caching p then (hash_of p)(i := None) else hash_of p)
    \<and> pool_core p' xs (S - {Blk i})"
proof -
  have i: "0 < i" "i < nblocks p" "refs p i = 0" using pool_core_free_ref [OF core, of "Blk i"] b by auto
  obtain p1 where p1: "(if enable_caching p then ebind (maybe_evict_cached_block env (Blk i) p) (\<lambda>(_, p). Inr p)
      else Inr p) = Inr p1" "static p1 = static p" "refs p1 = refs p"
      "hash_of p1 = (if enable_caching p then (hash_of p)(i := None) else hash_of p)" "pool_core p1 xs S"
    using maybe_evict_spec [OF core i(2), of env] core by (cases "enable_caching p") auto
  let ?p = "set_refs i 1 p1"
  have eq: "take_fresh_block env (Blk i) p = Inr ?p"
    using p1(1) i(3) p1(3) upd_ref_set_refs(1) [of i 1 p1]
    by (simp add: take_fresh_block_def refs_def fun_eq_iff)
  have "pool_core ?p xs (S - {Blk i})"
  proof (rule pool_core_change [OF p1(5)])
    show "set xs \<union> (S - {Blk i}) = Blk ` {j. 0 < j \<and> j < nblocks p1 \<and> refs ?p j = 0}"
      using pool_coreD(8,9) [OF core] b p1(3) staticD(9) [OF p1(2)] by (auto simp: set_refs_facts)
  qed (use pool_coreD [OF p1(5)] in \<open>auto simp: set_refs_facts intro: index_inv_set_refs\<close>)
  then show ?thesis using eq p1 by (auto simp: set_refs_facts)
qed

lemma take_fresh_blocks_spec:
  assumes "pool_core p xs (set bs)" "distinct bs"
  shows "\<exists>p'. foldE (take_fresh_block env) bs p = Inr p' \<and> static p' = static p
    \<and> refs p' = (\<lambda>i. if Blk i \<in> set bs then 1 else refs p i)
    \<and> hash_of p' = (\<lambda>i. if enable_caching p \<and> Blk i \<in> set bs then None else hash_of p i)
    \<and> pool_inv p' xs"
  using assms
proof (induction bs arbitrary: p)
  case Nil
  then show ?case by simp
next
  case (Cons b bs)
  obtain i where b: "b = Blk i" using pool_core_free_ref [OF Cons.prems(1), of b] by auto
  obtain p1 where p1: "take_fresh_block env b p = Inr p1" "static p1 = static p"
      "refs p1 = (refs p)(i := 1)"
      "hash_of p1 = (if enable_caching p then (hash_of p)(i := None) else hash_of p)"
      "pool_core p1 xs (set (b # bs) - {b})"
    using take_fresh_block_spec [of p xs "set (b # bs)" i env] Cons.prems(1) b by auto
  have "set (b # bs) - {b} = set bs" using Cons.prems(2) by auto
  then obtain p' where p': "foldE (take_fresh_block env) bs p1 = Inr p'" "static p' = static p1"
      "refs p' = (\<lambda>i. if Blk i \<in> set bs then 1 else refs p1 i)"
      "hash_of p' = (\<lambda>i. if enable_caching p1 \<and> Blk i \<in> set bs then None else hash_of p1 i)"
      "pool_inv p' xs"
    using Cons.IH [of p1] p1(5) Cons.prems(2) by auto
  then show ?case using p1 staticD(2) [OF p1(2)] b by (auto simp: fun_eq_iff)
qed

lemma get_new_blocks_spec:
  assumes inv: "pool_inv p xs" and n: "0 \<le> n" "n \<le> int (length xs)"
  shows "\<exists>p'. get_new_blocks env n p = Inr (take (nat n) xs, p') \<and> static p' = static p
    \<and> refs p' = (\<lambda>i. if Blk i \<in> set (take (nat n) xs) then 1 else refs p i)
    \<and> hash_of p' = (\<lambda>i. if enable_caching p \<and> Blk i \<in> set (take (nat n) xs) then None else hash_of p i)
    \<and> pool_inv p' (drop (nat n) xs)"
proof -
  let ?ys = "take (nat n) xs" and ?zs = "drop (nat n) xs"
  obtain p1 where p1: "popleft_n n p = Inr (?ys, p1)" "queue_rep p1 ?zs" "frame p1 = frame p"
    using popleft_n_rep [OF pool_coreD(4) [OF inv] n] by blast
  note d = pool_core_distinct [OF inv]
  have "pool_core p1 ?zs (set ?ys)"
    using distinct_set_take_drop [OF d, of "nat n"] set_take_Un_drop [of "nat n" xs]
    by (intro pool_core_frame [OF inv p1(3) p1(2)]) auto
  then obtain p' where p': "foldE (take_fresh_block env) ?ys p1 = Inr p'" "static p' = static p1"
      "refs p' = (\<lambda>i. if Blk i \<in> set ?ys then 1 else refs p1 i)"
      "hash_of p' = (\<lambda>i. if enable_caching p1 \<and> Blk i \<in> set ?ys then None else hash_of p1 i)"
      "pool_inv p' ?zs"
    using take_fresh_blocks_spec [of p1 ?zs ?ys env] d by auto
  have "\<not> n > get_num_free_blocks p" using n pool_core_num_free [OF inv] by simp
  then show ?thesis
    using p1(1) p' frame_pool [OF p1(3)] staticD(2) [OF frame_pool(1) [OF p1(3)]]
    by (simp add: get_new_blocks_def cong: if_cong)
qed

lemma get_new_blocks_exhausted:
  assumes "pool_inv p xs" "n > int (length xs)"
  shows "get_new_blocks env n p = Inl ValueError"
  using assms pool_core_num_free [OF assms(1)] by (simp add: get_new_blocks_def)

subsection \<open>Sharing and release\<close>

lemma touch_block_spec:
  assumes inv: "pool_inv p xs" and i: "i < nblocks p"
  shows "\<exists>p'. touch_block (Blk i) p = Inr p' \<and> static p' = static p
    \<and> refs p' = (refs p)(i := refs p i + 1) \<and> hash_of p' = hash_of p
    \<and> pool_inv p' (filter (\<lambda>b. b \<noteq> Blk i) xs)"
proof -
  note null = pool_coreD(6) [OF inv]
  define S where "S = (if refs p i = 0 \<and> 0 < i then {Blk i} else {})"
  let ?ys = "filter (\<lambda>b. b \<noteq> Blk i) xs"
  have free: "Blk i \<in> set xs \<longleftrightarrow> 0 < i \<and> refs p i = 0"
    using pool_coreD(9) [OF inv] i by auto
  have rm: "remove1 (Blk i) xs = ?ys"
    unfolding distinct_remove1_removeAll [OF pool_core_distinct [OF inv]] removeAll_filter_not_eq
    by (rule filter_cong) auto
  obtain p1 where p1: "(if ref_cnt (heap p (Blk i)) = 0 \<and> \<not> is_null (heap p (Blk i)) then remove (Blk i) p
      else Inr p) = Inr p1" "frame p1 = frame p" "queue_rep p1 ?ys"
  proof (cases "0 < i \<and> refs p i = 0")
    case True
    then obtain p1 where "remove (Blk i) p = Inr p1" "queue_rep p1 (remove1 (Blk i) xs)" "frame p1 = frame p"
      using remove_rep_remove1 [OF pool_coreD(4) [OF inv]] free by blast
    then show ?thesis
      using that [of p1] True null rm by (simp add: refs_def)
  next
    case False
    then have "?ys = xs" using free by (auto simp: filter_id_conv)
    then show ?thesis
      by (intro that [of p]) (use False null pool_coreD(4) [OF inv] in \<open>auto simp: refs_def\<close>)
  qed
  note f = frame_pool [OF p1(2)]
  have c1: "pool_core p1 ?ys S"
    using free by (intro pool_core_frame [OF inv p1(2,3)]) (auto simp: S_def)
  let ?p = "set_refs i (refs p1 i + 1) p1"
  have "pool_inv ?p ?ys"
  proof (rule pool_core_change [OF c1])
    show "set ?ys \<union> {} = Blk ` {j. 0 < j \<and> j < nblocks p1 \<and> refs ?p j = 0}"
      using pool_coreD(7) [OF inv _ i] pool_coreD(9) [OF inv] i staticD(9) [OF f(1)]
      by (auto simp: set_refs_facts f)
    show "0 \<le> refs ?p j" if "0 < j" "j < nblocks p1" for j
      using pool_coreD(7) [OF c1 that] pool_coreD(7) [OF c1] by (auto simp: set_refs_facts)
  qed (use pool_coreD [OF c1] in \<open>auto simp: set_refs_facts intro: index_inv_set_refs\<close>)
  then show ?thesis
    using p1(1) upd_ref_set_refs(1) [of i 1 p1] by (auto simp: touch_block_def set_refs_facts f)
qed

lemma touch_spec:
  assumes "pool_inv p xs" "\<forall>b \<in> set bs. pool_ref p b"
  shows "\<exists>p'. touch bs p = Inr p' \<and> static p' = static p
    \<and> refs p' = (\<lambda>i. refs p i + int (count_list bs (Blk i))) \<and> hash_of p' = hash_of p
    \<and> pool_inv p' (filter (\<lambda>b. b \<notin> set bs) xs)"
  using assms
proof (induction bs arbitrary: p xs)
  case Nil
  then show ?case by (simp add: touch_def)
next
  case (Cons b bs)
  obtain i where b: "b = Blk i" "i < nblocks p" using Cons.prems(2) by (auto simp: pool_ref_def)
  obtain p1 where p1: "touch_block b p = Inr p1" "static p1 = static p"
      "refs p1 = (refs p)(i := refs p i + 1)" "hash_of p1 = hash_of p"
      "pool_inv p1 (filter (\<lambda>c. c \<noteq> b) xs)"
    using touch_block_spec [OF Cons.prems(1) b(2)] b(1) by auto
  have "\<forall>b \<in> set bs. pool_ref p1 b" using Cons.prems(2) staticD(10) [OF p1(2)] by simp
  from Cons.IH [OF p1(5) this] obtain p' where p': "touch bs p1 = Inr p'" "static p' = static p1"
      "refs p' = (\<lambda>i. refs p1 i + int (count_list bs (Blk i)))" "hash_of p' = hash_of p1"
      "pool_inv p' (filter (\<lambda>c. c \<notin> set bs) (filter (\<lambda>c. c \<noteq> b) xs))" by blast
  have "filter (\<lambda>c. c \<notin> set bs) (filter (\<lambda>c. c \<noteq> b) xs) = filter (\<lambda>c. c \<notin> set (b # bs)) xs"
    by (simp add: filter_filter conj_commute)
  then show ?case using p1 p' b by (simp add: touch_def fun_eq_iff)
qed

lemma refs_fold_decrement:
  fixes p :: block_pool
  assumes "\<forall>b \<in> set bs. \<exists>i. b = Blk i"
  defines "p' \<equiv> fold (\<lambda>blk. upd_block blk (\<lambda>b. b\<lparr>ref_cnt := ref_cnt b - 1\<rparr>)) bs p"
  shows "static p' = static p" "refs p' = (\<lambda>i. refs p i - int (count_list bs (Blk i)))"
    "hash_of p' = hash_of p" "cached_block_hash_to_block p' = cached_block_hash_to_block p"
    "queue_rep p' xs = queue_rep p xs"
proof -
  have "static p' = static p \<and> refs p' = (\<lambda>i. refs p i - int (count_list bs (Blk i)))
    \<and> hash_of p' = hash_of p \<and> cached_block_hash_to_block p' = cached_block_hash_to_block p
    \<and> queue_rep p' xs = queue_rep p xs"
    unfolding p'_def using assms(1)
  proof (induction bs arbitrary: p)
    case Nil
    then show ?case by simp
  next
    case (Cons b bs)
    then obtain i where b: "b = Blk i" by auto
    have bs: "\<forall>b \<in> set bs. \<exists>i. b = Blk i" using Cons.prems by simp
    note IH = Cons.IH [OF bs, of "set_refs i (refs p i - 1) p"]
    show ?case using IH by (simp add: b upd_ref_set_refs set_refs_facts fun_eq_iff)
  qed
  then show "static p' = static p" "refs p' = (\<lambda>i. refs p i - int (count_list bs (Blk i)))"
    "hash_of p' = hash_of p" "cached_block_hash_to_block p' = cached_block_hash_to_block p"
    "queue_rep p' xs = queue_rep p xs" by blast+
qed

text \<open>
  What a caller of \<open>free_blocks\<close> has to respect: the blocks belong to the pool, no block other
  than the null block is listed twice, and each is still referenced.
\<close>

definition freeable :: "block_pool \<Rightarrow> bref list \<Rightarrow> bool" where
  "freeable p bs \<longleftrightarrow> (\<forall>b \<in> set bs. pool_ref p b) \<and> distinct (filter (\<lambda>b. b \<noteq> Blk 0) bs)
     \<and> (\<forall>i. 0 < i \<and> Blk i \<in> set bs \<longrightarrow> 0 < refs p i)"

lemma count_list_distinct_filter:
  "distinct (filter P xs) \<Longrightarrow> P x \<Longrightarrow> count_list xs x = (if x \<in> set xs then 1 else 0)"
  by (induction xs) (auto split: if_splits)

lemma free_blocks_spec:
  assumes inv: "pool_inv p xs" and fr: "freeable p bs"
  defines "ys \<equiv> filter (\<lambda>b. b \<noteq> Blk 0 \<and> ref_cnt (heap p b) = 1) bs"
  shows "\<exists>p'. free_blocks bs p = Inr p' \<and> static p' = static p
    \<and> refs p' = (\<lambda>i. refs p i - int (count_list bs (Blk i))) \<and> hash_of p' = hash_of p
    \<and> pool_inv p' (xs @ ys)"
proof -
  have pr: "\<forall>b \<in> set bs. \<exists>i. b = Blk i" using fr by (auto simp: freeable_def pool_ref_def)
  define p1 where "p1 = fold (\<lambda>blk. upd_block blk (\<lambda>b. b\<lparr>ref_cnt := ref_cnt b - 1\<rparr>)) bs p"
  note r1 = refs_fold_decrement [OF pr, of p, folded p1_def]
  note null = pool_coreD(6) [OF inv]
  have cnt: "count_list bs (Blk i) = (if Blk i \<in> set bs then 1 else 0)" if "0 < i" for i
    using fr that by (intro count_list_distinct_filter [of "\<lambda>b. b \<noteq> Blk 0"]) (auto simp: freeable_def)
  have flt: "filter (\<lambda>blk. ref_cnt (heap p1 blk) = 0 \<and> \<not> is_null (heap p1 blk)) bs = ys"
    unfolding ys_def
  proof (rule filter_cong [OF refl])
    fix b assume b: "b \<in> set bs"
    then obtain i where i: "b = Blk i" using pr by auto
    have r: "ref_cnt (heap p1 b) = ref_cnt (heap p b) - int (count_list bs b)"
      using fun_cong [OF r1(2), of i] i by (simp add: refs_def)
    have n: "is_null (heap p1 b) \<longleftrightarrow> i = 0" using staticD(8) [OF r1(1), of b] null [of i] i by simp
    show "(ref_cnt (heap p1 b) = 0 \<and> \<not> is_null (heap p1 b)) = (b \<noteq> Blk 0 \<and> ref_cnt (heap p b) = 1)"
    proof (cases "i = 0")
      case False
      then have "count_list bs b = 1" using cnt [of i] b i by simp
      then show ?thesis using r n False i by simp
    qed (use n i in simp)
  qed
  have eq: "free_blocks bs p = append_n ys p1"
    by (simp add: free_blocks_def Let_def p1_def [symmetric] flt)
  have ys: "\<forall>b \<in> set ys. \<exists>i. b = Blk i \<and> 0 < i \<and> i < nblocks p \<and> refs p i = 1 \<and> Blk i \<in> set bs"
    using fr by (auto simp: ys_def freeable_def pool_ref_def refs_def)
  have "distinct ys"
  proof -
    have "ys = filter (\<lambda>b. ref_cnt (heap p b) = 1) (filter (\<lambda>b. b \<noteq> Blk 0) bs)"
      by (simp add: ys_def conj_commute)
    then show ?thesis using fr unfolding freeable_def by (metis distinct_filter)
  qed
  moreover have "set ys \<inter> set xs = {}" using ys pool_core_free_ref [OF inv] by fastforce
  moreover have "FakeHead \<notin> set ys" "FakeTail \<notin> set ys" using ys by auto
  ultimately obtain p2 where p2: "append_n ys p1 = Inr p2" "queue_rep p2 (xs @ ys)" "frame p2 = frame p1"
    using append_n_rep [of p1 xs ys] r1(5) pool_coreD(4) [OF inv] by blast
  note f2 = frame_pool [OF p2(3)]
  have st: "static p2 = static p" using f2(1) r1(1) by simp
  have rf: "refs p2 i = refs p i - (if Blk i \<in> set bs then 1 else 0)" if "0 < i" for i
    using cnt [OF that] by (simp add: f2(4) r1(2))
  have "pool_inv p2 (xs @ ys)"
  proof (rule pool_core_change [OF inv st p2(2)])
    show "0 \<le> refs p2 i" if "0 < i" "i < nblocks p" for i
      using rf [OF that(1)] pool_coreD(7) [OF inv that] fr that by (auto simp: freeable_def)
    show "set (xs @ ys) \<union> {} = Blk ` {i. 0 < i \<and> i < nblocks p \<and> refs p2 i = 0}" (is "?l = Blk ` ?r")
    proof -
      have eq: "Blk i \<in> ?l \<longleftrightarrow> i \<in> ?r" for i
      proof (cases "0 < i")
        case True
        have "Blk i \<in> set xs \<longleftrightarrow> 0 < i \<and> i < nblocks p \<and> refs p i = 0"
          using pool_coreD(9) [OF inv] by (simp add: inj_image_mem_iff inj_def)
        moreover have "Blk i \<in> set ys \<longleftrightarrow> 0 < i \<and> refs p i = 1 \<and> Blk i \<in> set bs"
          by (auto simp: ys_def refs_def)
        moreover have "Blk i \<in> set bs \<Longrightarrow> i < nblocks p \<and> 0 < refs p i"
          using fr True by (auto simp: freeable_def pool_ref_def)
        ultimately show ?thesis using rf [OF True] True by auto
      next
        case False
        then show ?thesis using pool_core_free_ref [OF inv, of "Blk i"] ys by auto
      qed
      have bl: "\<exists>i. b = Blk i" if "b \<in> ?l" for b
        using that ys pool_core_free_ref [OF inv, of b] by auto
      show ?thesis
      proof (rule set_eqI)
        fix b
        show "b \<in> ?l \<longleftrightarrow> b \<in> Blk ` ?r" using eq bl [of b] by (cases b) (auto simp: image_iff)
      qed
    qed
    show "index_inv p2"
      by (rule index_inv_keep [OF pool_coreD(10) [OF inv] st]) (simp_all add: f2 r1)
  qed simp
  then show ?thesis using eq p2(1) st f2 r1 by auto
qed

subsection \<open>Explicit eviction and reset\<close>

lemma evict_blocks_spec:
  assumes "pool_inv p xs" "\<forall>i \<in> set ids. 0 \<le> i \<and> i < num_gpu_blocks p"
  shows "\<exists>p'. evict_blocks env ids p = Inr p' \<and> static p' = static p \<and> refs p' = refs p
    \<and> hash_of p' = (\<lambda>i. if int i \<in> set ids then None else hash_of p i) \<and> pool_inv p' xs"
  using assms
proof (induction ids arbitrary: p)
  case Nil
  then show ?case by (simp add: evict_blocks_def)
next
  case (Cons i ids)
  have i: "0 \<le> i" "nat i < nblocks p" using Cons.prems by (auto simp: nblocks_def)
  have "int (nblocks p) = num_gpu_blocks p" using pool_coreD(1) [OF Cons.prems(1)] by (simp add: nblocks_def)
  then have bl: "i < int (length (pool_blocks p))" "py_index (pool_blocks p) i = Inr (Blk (nat i))"
    using i Cons.prems(2) by (simp_all add: pool_coreD(2) [OF Cons.prems(1)] py_index_nonneg)
  obtain p1 where p1: "maybe_evict_cached_block env (Blk (nat i)) p = Inr (hash_of p (nat i) \<noteq> None, p1)"
      "static p1 = static p" "refs p1 = refs p" "hash_of p1 = (hash_of p)(nat i := None)" "pool_inv p1 xs"
    using maybe_evict_spec [OF Cons.prems(1) i(2), of env] by blast
  have "\<forall>j \<in> set ids. 0 \<le> j \<and> j < num_gpu_blocks p1" using Cons.prems(2) staticD(1) [OF p1(2)] by simp
  from Cons.IH [OF p1(5) this] obtain p' where p': "evict_blocks env ids p1 = Inr p'"
      "static p' = static p1" "refs p' = refs p1"
      "hash_of p' = (\<lambda>i. if int i \<in> set ids then None else hash_of p1 i)" "pool_inv p' xs" by blast
  have "evict_blocks env (i # ids) p = Inr p'"
    using bl p1(1) p'(1) by (simp add: evict_blocks_def evict_block_id_def)
  moreover have "hash_of p' = (\<lambda>j. if int j \<in> set (i # ids) then None else hash_of p j)"
    using i(1) by (auto simp: p' p1 fun_eq_iff)
  ultimately show ?case using p' p1 by auto
qed

lemma evict_blocks_out_of_range:
  assumes "pool_inv p xs" "num_gpu_blocks p \<le> i"
  shows "evict_blocks env (i # ids) p = Inl AssertionError"
  using assms(2) pool_coreD(1,2) [OF assms(1)]
  by (simp add: evict_blocks_def evict_block_id_def nblocks_def eassert_def)

lemma fold_clear_hashes:
  fixes p :: block_pool
  defines "p' n \<equiv> fold (\<lambda>blk. upd_block blk (\<lambda>b. b\<lparr>bl_hash := None\<rparr>)) (map Blk [0 ..< n]) p"
  shows "static (p' n) = static p \<and> refs (p' n) = refs p
    \<and> hash_of (p' n) = (\<lambda>i. if i < n then None else hash_of p i)
    \<and> cached_block_hash_to_block (p' n) = cached_block_hash_to_block p
    \<and> queue_rep (p' n) xs = queue_rep p xs"
proof (induction n)
  case 0
  then show ?case by (simp add: p'_def)
next
  case (Suc n)
  have "p' (Suc n) = upd_block (Blk n) (\<lambda>b. b\<lparr>bl_hash := None\<rparr>) (p' n)" by (simp add: p'_def)
  then show ?case using Suc.IH
    by (auto simp: static_def bid_of_def refs_def hash_of_def fun_eq_iff queue_rep_upd_block)
qed

lemma reset_prefix_cache_spec:
  assumes inv: "pool_inv p xs"
  shows "reset_prefix_cache p = (False, p) \<and> length xs + 1 \<noteq> nblocks p
    \<or> (\<exists>p'. reset_prefix_cache p = (True, p') \<and> length xs + 1 = nblocks p \<and> static p' = static p
        \<and> refs p' = refs p \<and> (\<forall>i < nblocks p. hash_of p' i = None)
        \<and> cached_block_hash_to_block p' = [] \<and> pool_inv p' xs)"
proof (cases "num_gpu_blocks p - get_num_free_blocks p = 1")
  case False
  then have "length xs + 1 \<noteq> nblocks p"
    using pool_core_num_free [OF inv] pool_coreD(1) [OF inv] by (auto simp: nblocks_def)
  then show ?thesis using False by (simp add: reset_prefix_cache_def)
next
  case True
  let ?p = "p\<lparr>cached_block_hash_to_block := []\<rparr>"
  define p1 where "p1 = fold (\<lambda>blk. upd_block blk (\<lambda>b. b\<lparr>bl_hash := None\<rparr>)) (pool_blocks p) ?p"
  define p' where "p' = (if enable_kv_cache_events p1
    then p1\<lparr>kv_event_queue := kv_event_queue p1 @ [AllBlocksCleared]\<rparr> else p1)"
  have eq: "reset_prefix_cache p = (True, p')"
    using True by (simp add: reset_prefix_cache_def p1_def p'_def Let_def)
  have f1: "static p1 = static ?p \<and> refs p1 = refs ?p
    \<and> hash_of p1 = (\<lambda>i. if i < nblocks p then None else hash_of ?p i)
    \<and> cached_block_hash_to_block p1 = cached_block_hash_to_block ?p
    \<and> queue_rep p1 xs = queue_rep ?p xs" (is ?F)
    unfolding p1_def pool_coreD(2) [OF inv] by (rule fold_clear_hashes)
  have "static ?p = static p" "refs ?p = refs p" "queue_rep ?p xs = queue_rep p xs"
    by (simp_all add: static_def bid_of_def refs_def fun_eq_iff)
  moreover have "static p' = static p1" "refs p' = refs p1" "hash_of p' = hash_of p1"
    "cached_block_hash_to_block p' = cached_block_hash_to_block p1" "queue_rep p' xs = queue_rep p1 xs"
    by (simp_all add: p'_def static_def bid_of_def refs_def hash_of_def fun_eq_iff)
  ultimately have f: "static p' = static p" "refs p' = refs p" "cached_block_hash_to_block p' = []"
    "\<forall>i < nblocks p. hash_of p' i = None" "queue_rep p' xs = queue_rep p xs"
    using f1 by simp_all
  have pos: "0 < nblocks p" using pool_coreD(1) [OF inv] by (simp add: nblocks_def)
  have "index_inv p'"
    unfolding index_inv_def f(3) staticD [OF f(1)] using f(4) pos by auto
  then have "pool_inv p' xs"
    using pool_coreD [OF inv] f by (intro pool_core_change [OF inv f(1)]) simp_all
  moreover have "length xs + 1 = nblocks p"
    using True pool_core_num_free [OF inv] by (simp add: nblocks_def)
  ultimately show ?thesis using eq f by blast
qed

subsection \<open>Lookup\<close>

text \<open>\<open>holds_hash p h g b\<close>: block \<open>b\<close> of the pool carries the content hash \<open>h\<close> for group \<open>g\<close>.\<close>

definition holds_hash :: "block_pool \<Rightarrow> bytes \<Rightarrow> int \<Rightarrow> bref \<Rightarrow> bool" where
  "holds_hash p h g b \<longleftrightarrow>
     (\<exists>i key. b = Blk i \<and> i < nblocks p \<and> hash_of p i = Some key \<and> make_block_hash_with_group_id h g = Inr key)"

lemma holds_hash_nonnull: "index_inv p \<Longrightarrow> holds_hash p h g b \<Longrightarrow> pool_ref p b \<and> b \<noteq> Blk 0"
  by (auto simp: holds_hash_def pool_ref_def index_inv_def)

lemma get_cached_block_spec:
  assumes ix: "index_inv p" and g: "\<forall>g \<in> set gs. 0 \<le> g \<and> g < 4294967296"
  shows "(\<exists>bs. get_cached_block p h gs = Inr (Some bs) \<and> list_all2 (holds_hash p h) gs bs)
    \<or> get_cached_block p h gs = Inr None \<and> (\<exists>g \<in> set gs. \<forall>b. \<not> holds_hash p h g b)"
  using g
proof (induction gs)
  case Nil
  then show ?case by simp
next
  case (Cons g gs)
  obtain key where key: "make_block_hash_with_group_id h g = Inr key"
    using make_block_hash_total [of g h] Cons.prems by auto
  have wf: "hbm_wf (bid_of p) (cached_block_hash_to_block p)" using ix by (simp add: index_inv_def)
  have mem: "b \<in> cached (cached_block_hash_to_block p) key \<longleftrightarrow> holds_hash p h g b" for b
    using ix key by (auto simp: index_inv_def holds_hash_def)
  obtain res where res: "hbm_get_one_block (cached_block_hash_to_block p) key = Inr res"
      "case res of None \<Rightarrow> cached (cached_block_hash_to_block p) key = {}
        | Some b \<Rightarrow> b \<in> cached (cached_block_hash_to_block p) key"
    using hbm.lookup_ok [OF wf] by blast
  show ?case
  proof (cases res)
    case None
    then have "\<forall>b. \<not> holds_hash p h g b" using res(2) mem by auto
    then show ?thesis using key res(1) None by simp
  next
    case (Some b)
    then have "holds_hash p h g b" using res(2) mem by simp
    then show ?thesis using Cons key res(1) Some by auto
  qed
qed

subsection \<open>Filling the index\<close>

definition set_hash :: "nat \<Rightarrow> bytes \<Rightarrow> block_pool \<Rightarrow> block_pool" where
  "set_hash i key p =
     (let p = upd_block (Blk i) (\<lambda>b. b\<lparr>bl_hash := Some key\<rparr>) p
      in p\<lparr>cached_block_hash_to_block := hbm_insert (bid_of p) key (Blk i) (cached_block_hash_to_block p)\<rparr>)"

lemma set_hash_facts:
  "static (set_hash i key p) = static p" "refs (set_hash i key p) = refs p"
  "hash_of (set_hash i key p) = (hash_of p)(i := Some key)"
  "queue_rep (set_hash i key p) xs = queue_rep p xs"
  "cached_block_hash_to_block (set_hash i key p)
     = hbm_insert (bid_of p) key (Blk i) (cached_block_hash_to_block p)"
  by (auto simp: set_hash_def static_def bid_of_def refs_def hash_of_def fun_eq_iff queue_rep_upd_block Let_def
      intro!: arg_cong [where f = "\<lambda>f. hbm_insert f key (Blk i) (cached_block_hash_to_block p)"])

lemma pool_core_set_hash:
  assumes core: "pool_core p xs S" and i: "0 < i" "i < nblocks p" "hash_of p i = None"
  shows "pool_core (set_hash i key p) xs S"
proof (rule pool_core_change [OF core])
  let ?m = "cached_block_hash_to_block p"
  note s = set_hash_facts [of i key p]
  have ix: "hash_of p 0 = None" "hbm_wf (bid_of p) ?m"
    "\<And>k b. b \<in> cached ?m k \<longleftrightarrow> (\<exists>i < nblocks p. b = Blk i \<and> hash_of p i = Some k)"
    using pool_coreD(10) [OF core] by (auto simp: index_inv_def)
  have bid: "bid_of p (Blk j) = int j" for j using pool_coreD(5) [OF core] by (simp add: bid_of_def)
  have inj: "\<forall>c \<in> cached ?m key. bid_of p c = bid_of p (Blk i) \<longrightarrow> c = Blk i"
    using ix(3) by (auto simp: bid)
  have h: "hash_of (set_hash i key p) j = Some k
      \<longleftrightarrow> j = i \<and> k = key \<or> j \<noteq> i \<and> hash_of p j = Some k" for j k
    by (auto simp: s)
  have "b \<in> cached (cached_block_hash_to_block (set_hash i key p)) k
      \<longleftrightarrow> (\<exists>j < nblocks p. b = Blk j \<and> (j = i \<and> k = key \<or> j \<noteq> i \<and> hash_of p j = Some k))" for k b
    using ix(3) [of b k] i unfolding s(5) hbm.ins_blocks [OF ix(2) inj] by auto
  then show "index_inv (set_hash i key p)"
    unfolding index_inv_def staticD [OF s(1)] h s(5) using hbm.ins_wf [OF ix(2) inj] ix(1) i by (simp add: s(3))
qed (use pool_coreD [OF core] in \<open>simp_all add: set_hash_facts\<close>)

lemma cache_one_block_spec:
  assumes core: "pool_core p xs S" and b: "b = Blk i" "i < nblocks p" and h: "0 < i \<longrightarrow> hash_of p i = None"
    and j: "j < length hs" and g: "0 \<le> g" "g < 4294967296"
  shows "\<exists>p' nh'. cache_one_block env hs g (j, b) (p, nh) = Inr (p', nh') \<and> static p' = static p
    \<and> refs p' = refs p \<and> pool_core p' xs S \<and> kv_event_queue p' = kv_event_queue p
    \<and> (if i = 0 then p' = p
       else \<exists>key. make_block_hash_with_group_id (hs ! j) g = Inr key \<and> hash_of p' = (hash_of p)(i := Some key))"
proof (cases "i = 0")
  case True
  then show ?thesis using core b pool_coreD(6) [OF core] by (auto simp: cache_one_block_def)
next
  case False
  obtain key where key: "make_block_hash_with_group_id (hs ! j) g = Inr key"
    using make_block_hash_total g by blast
  have "cache_one_block env hs g (j, b) (p, nh) = Inr (set_hash i key p,
      map_option (\<lambda>xs. xs @ [maybe_convert_block_hash (env_int_hashes env) (hs ! j)]) nh)"
    using False h b j key pool_coreD(6) [OF core]
    by (simp add: cache_one_block_def hash_of_def py_index_nonneg set_hash_def Let_def)
  moreover have "kv_event_queue (set_hash i key p) = kv_event_queue p" by (simp add: set_hash_def Let_def)
  ultimately show ?thesis
    using pool_core_set_hash [OF core, of i key] False h b key by (auto simp: set_hash_facts)
qed

lemma enumerate_Cons: "enumerate k (x # xs) = (k, x) # enumerate (Suc k) xs"
  by simp

lemma cache_blocks_fold_spec:
  assumes "pool_core p xs S" "\<forall>b \<in> set bs. pool_ref p b" "distinct (filter (\<lambda>b. b \<noteq> Blk 0) bs)"
    and "\<forall>i. 0 < i \<and> Blk i \<in> set bs \<longrightarrow> hash_of p i = None"
    and "k + length bs \<le> length hs" and g: "0 \<le> g" "g < 4294967296"
  shows "\<exists>p' nh'. foldE (cache_one_block env hs g) (enumerate k bs) (p, nh) = Inr (p', nh') \<and> static p' = static p
    \<and> refs p' = refs p \<and> pool_core p' xs S \<and> kv_event_queue p' = kv_event_queue p
    \<and> (\<forall>i. Blk i \<notin> set bs \<or> i = 0 \<longrightarrow> hash_of p' i = hash_of p i)
    \<and> (\<forall>j < length bs. bs ! j \<noteq> Blk 0 \<longrightarrow> holds_hash p' (hs ! (k + j)) g (bs ! j))"
  using assms(1-5)
proof (induction bs arbitrary: p k nh)
  case Nil
  then show ?case by auto
next
  case (Cons b bs)
  obtain i where b: "b = Blk i" "i < nblocks p" using Cons.prems(2) by (auto simp: pool_ref_def)
  have k: "k < length hs" "Suc k + length bs \<le> length hs" using Cons.prems(5) by auto
  have hb: "0 < i \<longrightarrow> hash_of p i = None" using Cons.prems(4) b by auto
  obtain p1 nh1 where p1: "cache_one_block env hs g (k, b) (p, nh) = Inr (p1, nh1)" "static p1 = static p"
      "refs p1 = refs p" "pool_core p1 xs S" "kv_event_queue p1 = kv_event_queue p"
      "if i = 0 then p1 = p
       else \<exists>key. make_block_hash_with_group_id (hs ! k) g = Inr key \<and> hash_of p1 = (hash_of p)(i := Some key)"
    using cache_one_block_spec [OF Cons.prems(1) b hb k(1) g] by blast
  have d: "distinct (filter (\<lambda>b. b \<noteq> Blk 0) bs)" "0 < i \<longrightarrow> Blk i \<notin> set bs"
    using Cons.prems(3) b by (auto split: if_splits)
  have pr: "\<forall>b \<in> set bs. pool_ref p1 b" using Cons.prems(2) staticD(10) [OF p1(2)] by simp
  have nh: "\<forall>i. 0 < i \<and> Blk i \<in> set bs \<longrightarrow> hash_of p1 i = None"
    using Cons.prems(4) p1(6) d(2) by (auto split: if_splits)
  obtain p' nh' where p': "foldE (cache_one_block env hs g) (enumerate (Suc k) bs) (p1, nh1) = Inr (p', nh')"
      "static p' = static p1" "refs p' = refs p1" "pool_core p' xs S" "kv_event_queue p' = kv_event_queue p1"
      "\<And>i. Blk i \<notin> set bs \<or> i = 0 \<Longrightarrow> hash_of p' i = hash_of p1 i"
      "\<And>j. j < length bs \<Longrightarrow> bs ! j \<noteq> Blk 0 \<Longrightarrow> holds_hash p' (hs ! (Suc k + j)) g (bs ! j)"
    using Cons.IH [OF p1(4) pr d(1) nh k(2), of nh1] by blast
  have "holds_hash p' (hs ! (k + j)) g ((b # bs) ! j)" if j: "j < length (b # bs)" "(b # bs) ! j \<noteq> Blk 0" for j
  proof (cases j)
    case 0
    then have "i \<noteq> 0" using j b by simp
    then show ?thesis
      using 0 b p1(6) d(2) p'(6) [of i] staticD(9) [OF p1(2)] staticD(9) [OF p'(2)]
      by (auto simp: holds_hash_def)
  next
    case (Suc j')
    then show ?thesis using j p'(7) [of j'] by simp
  qed
  moreover have "hash_of p' l = hash_of p l" if "Blk l \<notin> set (b # bs) \<or> l = 0" for l
    using that p'(6) [of l] p1(6) b by (auto split: if_splits)
  ultimately show ?case using p1 p' by auto
qed

text \<open>The list of hashes at the group's block size: entry \<open>i\<close> of the slice is entry \<open>n + i\<close>.\<close>

lemma concat_hashes_total:
  "\<forall>i \<in> set is. 0 \<le> i \<and> i < int (length hs) \<Longrightarrow> \<exists>h. concat_hashes hs is m = Inr h"
  by (induction "is" arbitrary: m) (auto simp: py_index_nonneg)

lemma collectE_total:
  assumes "\<forall>x \<in> set xs. \<exists>y. f x = Inr y"
  shows "\<exists>ys. collectE f xs = Inr ys \<and> length ys = length xs \<and> (\<forall>i < length xs. f (xs ! i) = Inr (ys ! i))"
  using assms
proof (induction xs)
  case (Cons x xs)
  obtain y where "f x = Inr y" using Cons.prems by auto
  moreover obtain ys where "collectE f xs = Inr ys" "length ys = length xs"
    "\<forall>i < length xs. f (xs ! i) = Inr (ys ! i)" using Cons by auto
  ultimately show ?case by (auto simp: nth_Cons split: nat.splits)
qed simp

lemma get_value_at_total:
  assumes "0 < k" "0 \<le> i" "i < int (length hs) div k"
  shows "\<exists>h. get_value_at hs k i = Inr h"
proof -
  have "i + 1 \<le> int (length hs) div k" using assms(3) by simp
  then have "(i + 1) * k \<le> (int (length hs) div k) * k" using assms(1) by (intro mult_right_mono) auto
  also have "\<dots> \<le> int (length hs)"
    using div_mult_mod_eq [of "int (length hs)" k] pos_mod_sign [OF assms(1), of "int (length hs)"] by linarith
  finally have le: "i * k + k \<le> int (length hs)" by (simp add: algebra_simps)
  have nn: "0 \<le> i * k" using assms by simp
  have b: "i * k < int (length hs)" using le assms(1) by linarith
  have "nat (i * k) < length hs" using b nn by linarith
  then show ?thesis
    using concat_hashes_total [of "py_range (i * k + 1) (i * k + k)" hs] nn le
    by (fastforce simp: get_value_at_def Let_def py_index_nonneg py_range_def)
qed

definition bhl_wf :: "block_hash_list \<Rightarrow> bool" where
  "bhl_wf hl = (case hl of PlainHashes _ \<Rightarrow> True | ScaledHashes _ k \<Rightarrow> 0 < k)"

lemma bhl_get_total:
  "bhl_wf hl \<Longrightarrow> 0 \<le> i \<Longrightarrow> i < bhl_length hl \<Longrightarrow> \<exists>h. bhl_get hl i = Inr h"
  by (cases hl) (auto simp: bhl_wf_def py_index_nonneg get_value_at_total)

lemma bhl_from_spec:
  assumes wf: "bhl_wf hl" and n: "0 \<le> n" "n \<le> bhl_length hl"
  shows "\<exists>hs. bhl_from hl n = Inr hs \<and> int (length hs) = bhl_length hl - n
    \<and> (\<forall>j < length hs. bhl_get hl (n + int j) = Inr (hs ! j))"
proof (cases hl)
  case (PlainHashes xs)
  then show ?thesis using n by (auto simp: py_drop_nonneg py_index_nonneg nat_add_distrib nat_less_iff)
next
  case (ScaledHashes xs k)
  then have k: "0 < k" using wf by (simp add: bhl_wf_def)
  define m where "m = int (length xs) div k"
  have nm: "n \<le> m" using n ScaledHashes by (simp add: m_def)
  have "\<forall>i \<in> set [n .. m - 1]. \<exists>h. get_value_at xs k i = Inr h"
    using get_value_at_total [OF k] n(1) by (auto simp: m_def)
  then obtain hs where hs: "collectE (get_value_at xs k) [n .. m - 1] = Inr hs" "length hs = length [n .. m - 1]"
      "\<forall>i < length [n .. m - 1]. get_value_at xs k ([n .. m - 1] ! i) = Inr (hs ! i)"
    using collectE_total by blast
  have "bhl_from hl n = Inr hs" using hs(1) n(1) nm ScaledHashes by (simp add: py_range_def m_def Let_def)
  moreover have "[n .. m - 1] ! j = n + int j" if "j < length hs" for j using that hs(2) by (simp add: nth_upto)
  ultimately show ?thesis using hs ScaledHashes nm by (auto simp: m_def)
qed

lemma generate_extra_keys_total:
  assumes "0 \<le> idx"
  shows "\<exists>ks idx'. generate_block_hash_extra_keys sha r s e idx = Inr (ks, idx') \<and> 0 \<le> idx'"
proof -
  obtain mk j where "mm_keys_loop (mm_features r) s e (nat idx) = (mk, j)" by fastforce
  then have "\<exists>mk idx'. gen_mm_extra_hash_keys r s e idx = Inr (mk, idx') \<and> 0 \<le> idx'"
    using assms by (auto simp: gen_mm_extra_hash_keys_def Let_def)
  then obtain mk idx' where m: "gen_mm_extra_hash_keys r s e idx = Inr (mk, idx')" "0 \<le> idx'" by blast
  then show ?thesis by (auto simp: generate_block_hash_extra_keys_def Let_def)
qed

lemma event_extra_keys_total:
  assumes "\<forall>i \<in> set is. 0 \<le> i \<and> i < int (length bs)" "0 \<le> idx"
  shows "\<exists>ks. event_extra_keys env p r bs block_size is idx = Inr ks"
  using assms
proof (induction "is" arbitrary: idx)
  case (Cons i "is")
  have i: "py_index bs i = Inr (bs ! nat i)" using Cons.prems(1) by (auto simp: py_index_nonneg)
  obtain ks idx' where g: "generate_block_hash_extra_keys (env_sha256 env) r (i * block_size)
      (i * block_size + block_size) idx = Inr (ks, idx')" "0 \<le> idx'"
    using generate_extra_keys_total [OF Cons.prems(2)] by blast
  show ?case
    using Cons.IH [of idx] Cons.IH [of idx'] Cons.prems i g by (auto simp: Let_def)
qed simp

definition group_hashes :: "block_pool \<Rightarrow> request \<Rightarrow> int \<Rightarrow> block_hash_list" where
  "group_hashes p r bs =
     (if bs = hash_block_size p then PlainHashes (block_hashes r)
      else ScaledHashes (block_hashes r) (bs div hash_block_size p))"

definition hash_size_ok :: "block_pool \<Rightarrow> int \<Rightarrow> bool" where
  "hash_size_ok p bs \<longleftrightarrow> 0 < bs \<and> 0 < hash_block_size p \<and> bs mod hash_block_size p = 0"

lemma group_hashes_wf:
  assumes "hash_size_ok p bs"
  shows "bhl_wf (group_hashes p r bs)" "bhl_length (group_hashes p r bs) \<le> int (length (block_hashes r))"
proof -
  have "hash_block_size p \<le> bs" using assms by (simp add: hash_size_ok_def mod_eq_0_iff_dvd zdvd_imp_le)
  then have "0 < bs div hash_block_size p" using assms by (simp add: hash_size_ok_def pos_imp_zdiv_pos_iff)
  moreover from this have "int (length (block_hashes r)) div (bs div hash_block_size p) \<le> int (length (block_hashes r))"
    by (metis div_by_1 int_one_le_iff_zero_less of_nat_0_le_iff zdiv_mono2 zero_less_one)
  ultimately show "bhl_wf (group_hashes p r bs)"
    "bhl_length (group_hashes p r bs) \<le> int (length (block_hashes r))"
    by (auto simp: group_hashes_def bhl_wf_def)
qed

lemma cache_full_blocks_noop: "num_full \<le> num_cached \<Longrightarrow> cache_full_blocks env r bs num_cached num_full bsz g p = Inr p"
  by (simp add: cache_full_blocks_def)

lemma cache_full_blocks_spec:
  assumes inv: "pool_inv p xs" and n: "0 \<le> n0" "n0 < n1" "n1 \<le> int (length bs)"
    and sz: "hash_size_ok p bsz" and len: "n1 \<le> bhl_length (group_hashes p r bsz)" and g: "0 \<le> g" "g < 4294967296"
  defines "new \<equiv> take (nat n1 - nat n0) (drop (nat n0) bs)"
  assumes pr: "\<forall>b \<in> set new. pool_ref p b" and d: "distinct (filter (\<lambda>b. b \<noteq> Blk 0) new)"
    and h: "\<forall>i. 0 < i \<and> Blk i \<in> set new \<longrightarrow> hash_of p i = None"
  shows "\<exists>p'. cache_full_blocks env r bs n0 n1 bsz g p = Inr p' \<and> static p' = static p \<and> refs p' = refs p
    \<and> pool_inv p' xs \<and> (\<forall>i. Blk i \<notin> set new \<or> i = 0 \<longrightarrow> hash_of p' i = hash_of p i)
    \<and> (\<forall>j. nat n0 \<le> j \<and> j < nat n1 \<and> bs ! j \<noteq> Blk 0
         \<longrightarrow> (\<exists>hash. bhl_get (group_hashes p r bsz) (int j) = Inr hash \<and> holds_hash p' hash g (bs ! j)))"
proof -
  let ?hl = "group_hashes p r bsz"
  note wf = group_hashes_wf [OF sz, of r]
  have hashes: "(if bsz = hash_block_size p then Inr (PlainHashes (block_hashes r))
      else if hash_block_size p = 0 then Inl ZeroDivisionError
      else ebind (eassert (bsz mod hash_block_size p = 0)) (\<lambda>_.
        block_hash_list_with_block_size (block_hashes r) (hash_block_size p) bsz)) = Inr ?hl"
    using sz by (simp add: hash_size_ok_def group_hashes_def block_hash_list_with_block_size_def)
  have asrt: "int (length (block_hashes r)) \<ge> n1" using len wf(2) by linarith
  have nle: "n0 \<le> bhl_length ?hl" using n len by linarith
  obtain hs where hs: "bhl_from ?hl n0 = Inr hs" "int (length hs) = bhl_length ?hl - n0"
      "\<And>j. j < length hs \<Longrightarrow> bhl_get ?hl (n0 + int j) = Inr (hs ! j)"
    using bhl_from_spec [OF wf(1) n(1) nle] by blast
  have new: "py_slice bs n0 n1 = new" using n by (simp add: py_slice_nonneg new_def)
  have ln: "length new = nat n1 - nat n0" using n by (simp add: new_def)
  have "0 + length new \<le> length hs" using ln hs(2) len n by linarith
  from cache_blocks_fold_spec [OF inv pr d h this g] obtain p1 nh where
    p1: "foldE (cache_one_block env hs g) (enumerate 0 new) (p, if enable_kv_cache_events p then Some [] else None)
          = Inr (p1, nh)" "static p1 = static p" "refs p1 = refs p" "pool_inv p1 xs"
      "\<And>i. Blk i \<notin> set new \<or> i = 0 \<Longrightarrow> hash_of p1 i = hash_of p i"
      "\<And>j. j < length new \<Longrightarrow> new ! j \<noteq> Blk 0 \<Longrightarrow> holds_hash p1 (hs ! (0 + j)) g (new ! j)" by blast
  have parent: "\<exists>par. (if n0 = 0 then Inr None else ebind (bhl_get ?hl (n0 - 1)) (\<lambda>h.
      Inr (Some (maybe_convert_block_hash (env_int_hashes env) h)))) = Inr par"
    using bhl_get_total [OF wf(1), of "n0 - 1"] n(1) nle by (cases "n0 = 0") auto
  obtain ks where ks: "event_extra_keys env p1 r bs bsz (py_range n0 n1) 0 = Inr ks"
  proof -
    have "\<forall>i \<in> set (py_range n0 n1). 0 \<le> i \<and> i < int (length bs)" using n by (auto simp: py_range_def)
    then show ?thesis using that event_extra_keys_total [of _ bs 0] by blast
  qed
  obtain p2 where p2: "cache_full_blocks env r bs n0 n1 bsz g p = Inr p2"
      "p2 = p1 \<or> (\<exists>ev. p2 = p1\<lparr>kv_event_queue := kv_event_queue p1 @ [ev]\<rparr>)"
  proof -
    obtain par where par: "(if n0 = 0 then Inr None else ebind (bhl_get ?hl (n0 - 1)) (\<lambda>h.
      Inr (Some (maybe_convert_block_hash (env_int_hashes env) h)))) = Inr par" using parent by blast
    show ?thesis
    proof (cases "enable_kv_cache_events p1")
      case False
      then have "cache_full_blocks env r bs n0 n1 bsz g p = Inr p1"
        using n(2) asrt by (simp add: cache_full_blocks_def Let_def new hashes hs(1) p1(1))
      then show ?thesis using that by blast
    next
      case True
      then obtain ev where "cache_full_blocks env r bs n0 n1 bsz g p
          = Inr (p1\<lparr>kv_event_queue := kv_event_queue p1 @ [ev]\<rparr>)"
        using n(2) asrt by (simp add: cache_full_blocks_def Let_def new hashes hs(1) p1(1) par ks)
      then show ?thesis using that by blast
    qed
  qed
  have f2: "static p2 = static p1" "refs p2 = refs p1" "hash_of p2 = hash_of p1"
    "cached_block_hash_to_block p2 = cached_block_hash_to_block p1" "queue_rep p2 xs = queue_rep p1 xs"
    using p2(2) by (auto simp: static_def bid_of_def refs_def hash_of_def fun_eq_iff)
  have inv2: "pool_inv p2 xs"
    using pool_coreD [OF p1(4)] f2
    by (intro pool_core_change [OF p1(4) f2(1)] index_inv_keep [OF pool_coreD(10) [OF p1(4)] f2(1)]) simp_all
  have nb: "nblocks p2 = nblocks p1" using staticD(9) [OF f2(1)] .
  have hold: "\<exists>hash. bhl_get ?hl (int j) = Inr hash \<and> holds_hash p2 hash g (bs ! j)"
    if j: "nat n0 \<le> j" "j < nat n1" "bs ! j \<noteq> Blk 0" for j
  proof -
    define m where "m = j - nat n0"
    have m: "j = nat n0 + m" "m < length new" using j ln unfolding m_def by linarith+
    have nj: "new ! m = bs ! j" using m n by (simp add: new_def)
    have "int j = n0 + int m" using m n by simp
    moreover have "m < length hs" using m ln hs(2) len n by linarith
    ultimately have "bhl_get ?hl (int j) = Inr (hs ! m)" using hs(3) by simp
    moreover have "holds_hash p2 (hs ! m) g (bs ! j)"
      using p1(6) [OF m(2)] nj j(3) nb by (simp add: holds_hash_def f2)
    ultimately show ?thesis by blast
  qed
  show ?thesis
    using p2(1) f2 p1(2,3,5) inv2 hold by auto
qed

subsection \<open>A new pool\<close>

lemma init_block_pool_spec:
  assumes n: "0 < n"
  shows "\<exists>p. init_block_pool n caching hbs events = Inr p
    \<and> pool_inv p (map Blk [1 ..< nat n]) \<and> num_gpu_blocks p = n \<and> enable_caching p = caching
    \<and> hash_block_size p = hbs \<and> refs p = (\<lambda>_. 0) \<and> hash_of p = (\<lambda>_. None)"
proof -
  let ?blocks = "map Blk [0 ..< nat n]"
  define p0 where "p0 = \<lparr>heap = fresh_heap, num_free_blocks = 0, num_gpu_blocks = n, enable_caching = caching,
      hash_block_size = hbs, pool_blocks = ?blocks, cached_block_hash_to_block = [],
      null_block = FakeHead, enable_kv_cache_events = events, kv_event_queue = []\<rparr>"
  have fl: "fresh_links p0"
    by (auto simp: fresh_links_def p0_def nxt_def prv_def fresh_heap_def new_kv_block_def split: bref.splits)
  have "[0 ..< nat n] = 0 # [1 ..< nat n]" using n by (simp add: upt_rec)
  then have bl: "?blocks = Blk 0 # map Blk [1 ..< nat n]" by simp
  have "queue_rep (init_free_queue ?blocks p0) ?blocks"
    by (rule init_free_queue_rep [OF fl]) (auto simp: distinct_map inj_on_def)
  then obtain p1 where p1: "popleft (init_free_queue ?blocks p0) = Inr (Blk 0, p1)"
      "queue_rep p1 (map Blk [1 ..< nat n])" "frame p1 = frame (init_free_queue ?blocks p0)"
    using popleft_rep bl by metis
  have fr: "frame (link_consecutive bs q) = frame q" for bs and q :: block_pool
    by (induction bs q rule: link_consecutive.induct) auto
  have more: "free_queue.more p1 = free_queue.more p0"
    and bf: "meta (heap p1 (Blk i)) = meta (heap p0 (Blk i))" for i
  proof -
    define q0 where "q0 = link_consecutive ?blocks (p0\<lparr>num_free_blocks := int (length ?blocks)\<rparr>)"
    define q1 where "q1 = q0\<lparr>heap := (heap q0)(FakeHead := new_kv_block (-1), FakeTail := new_kv_block (-1))\<rparr>"
    have "frame (init_free_queue ?blocks p0) = frame q1"
      unfolding init_free_queue_def Let_def q0_def [symmetric] q1_def [symmetric] by simp
    then have f: "frame p1 = frame q1" using p1(3) by simp
    have f0: "frame q0 = frame p0" by (simp add: q0_def fr)
    have "free_queue.more q1 = free_queue.more q0" by (cases q0) (simp add: q1_def)
    then show "free_queue.more p1 = free_queue.more p0"
      using frame_fields(5) [OF f] frame_fields(5) [OF f0] by simp
    have "heap q1 (Blk i) = heap q0 (Blk i)" by (simp add: q1_def)
    then show "meta (heap p1 (Blk i)) = meta (heap p0 (Blk i))"
      using frame_meta [OF f, of "Blk i"] frame_meta [OF f0, of "Blk i"] by simp
  qed
  define p where "p = upd_block (Blk 0) (\<lambda>b. b\<lparr>is_null := True\<rparr>) (p1\<lparr>null_block := Blk 0\<rparr>)"
  have eq: "init_block_pool n caching hbs events = Inr p"
    using n p1(1) by (simp add: init_block_pool_def Let_def p0_def p_def)
  have fields: "num_gpu_blocks p = n" "enable_caching p = caching" "hash_block_size p = hbs"
    "pool_blocks p = ?blocks" "cached_block_hash_to_block p = []" "null_block p = Blk 0"
    using more by (cases p1; simp add: p_def p0_def)+
  have blk: "block_id (heap p (Blk i)) = int i" "refs p i = 0" "hash_of p i = None"
      "is_null (heap p (Blk i)) \<longleftrightarrow> i = 0" for i
    using bf [of i] by (auto simp: p_def p0_def meta_def refs_def hash_of_def fresh_heap_def new_kv_block_def)
  have q: "queue_rep p (map Blk [1 ..< nat n])"
  proof -
    have "queue_rep p xs = queue_rep p1 xs" for xs
      by (rule queue_rep_cong) (auto simp: p_def nxt_def prv_def)
    then show ?thesis using p1(2) by simp
  qed
  have "pool_inv p (map Blk [1 ..< nat n])"
    using n fields blk q by (auto simp: pool_core_def index_inv_def nblocks_def image_iff)
  then show ?thesis using eq fields blk by (auto simp: fun_eq_iff)
qed

lemma take_events_spec:
  "take_events p = (evs, p') \<Longrightarrow>
     evs = (if enable_kv_cache_events p then kv_event_queue p else []) \<and> static p' = static p
     \<and> refs p' = refs p \<and> hash_of p' = hash_of p \<and> (pool_inv p xs \<longrightarrow> pool_inv p' xs)"
  by (auto simp: take_events_def static_def bid_of_def refs_def hash_of_def fun_eq_iff pool_core_def
      index_inv_def nblocks_def split: if_splits)

subsection \<open>A pool for the examples\<close>

abbreviation example_env :: pool_env where
  "example_env \<equiv> \<lparr>env_sha256 = (\<lambda>b. b), env_int_hashes = False\<rparr>"

lemma example_pool:
  obtains p where "init_block_pool 4 True 4 False = Inr p" "pool_inv p [Blk 1, Blk 2, Blk 3]" "nblocks p = 4"
    "enable_caching p" "hash_block_size p = 4" "refs p = (\<lambda>_. 0)" "hash_of p = (\<lambda>_. None)"
proof -
  have e: "map Blk [1 ..< nat 4] = [Blk 1, Blk 2, Blk 3]" by (simp add: upt_rec)
  from init_block_pool_spec [of 4 True 4 False] show ?thesis
    unfolding e by (auto simp: nblocks_def intro: that)
qed

subsection \<open>Properties\<close>

text \<open>
  A new pool is well formed: block 0 becomes the null block, every other block is free, in the
  order of the ids, and none is referenced or cached.
\<close>

theorem init_block_pool_correct:
  assumes "0 < n"
  shows "\<exists>p. init_block_pool n caching hbs events = Inr p \<and> pool_inv p (map Blk [1 ..< nat n])
    \<and> null_block p = Blk 0 \<and> get_num_free_blocks p = n - 1 \<and> refs p = (\<lambda>_. 0) \<and> hash_of p = (\<lambda>_. None)"
proof -
  obtain p where p: "init_block_pool n caching hbs events = Inr p" "pool_inv p (map Blk [1 ..< nat n])"
    "refs p = (\<lambda>_. 0)" "hash_of p = (\<lambda>_. None)" using init_block_pool_spec [OF assms] by blast
  show ?thesis using p pool_coreD(3) [OF p(2)] pool_core_num_free [OF p(2)] assms by (intro exI [of _ p]) auto
qed

theorem init_block_pool_correct_witness:
  "\<exists>p. init_block_pool 2 True 16 False = Inr p \<and> pool_inv p [Blk 1]"
proof -
  have e: "map Blk [1 ..< nat 2] = [Blk 1]" by (simp add: upt_rec)
  from init_block_pool_correct [of 2 True 16 False, unfolded e] show ?thesis by auto
qed

text \<open>
  C17: Allocation hands out the \<open>n\<close> least recently freed blocks, each with reference count 1 and, with
  caching on, evicted from the prefix cache; no other block changes and the invariant is kept.
  When fewer than \<open>n\<close> blocks are free the call raises \<open>ValueError\<close>.
\<close>

theorem get_new_blocks_correct:
  assumes "pool_inv p xs" "0 \<le> n"
  shows "if n \<le> int (length xs)
    then \<exists>p'. get_new_blocks env n p = Inr (take (nat n) xs, p') \<and> pool_inv p' (drop (nat n) xs)
      \<and> refs p' = (\<lambda>i. if Blk i \<in> set (take (nat n) xs) then 1 else refs p i)
      \<and> hash_of p' = (\<lambda>i. if enable_caching p \<and> Blk i \<in> set (take (nat n) xs) then None else hash_of p i)
    else get_new_blocks env n p = Inl ValueError"
  using get_new_blocks_spec [OF assms, of env] get_new_blocks_exhausted [OF assms(1), of n env] by auto

theorem get_new_blocks_correct_witness:
  "\<exists>p p'. init_block_pool 4 True 4 False = Inr p \<and> get_new_blocks example_env 2 p = Inr ([Blk 1, Blk 2], p')
    \<and> pool_inv p' [Blk 3] \<and> refs p' 1 = 1 \<and> get_new_blocks example_env 4 p = Inl ValueError"
proof -
  obtain p where p: "init_block_pool 4 True 4 False = Inr p" "pool_inv p [Blk 1, Blk 2, Blk 3]" by (rule example_pool)
  from get_new_blocks_correct [OF p(2), of 2 example_env] get_new_blocks_correct [OF p(2), of 4 example_env] p(1)
  show ?thesis by auto
qed

text \<open>
  Sharing: touching blocks adds one reference per occurrence, and exactly the touched blocks leave
  the free list; the prefix cache is unchanged.
\<close>

theorem touch_correct:
  assumes "pool_inv p xs" "\<forall>b \<in> set bs. pool_ref p b"
  shows "\<exists>p'. touch bs p = Inr p' \<and> pool_inv p' (filter (\<lambda>b. b \<notin> set bs) xs)
    \<and> refs p' = (\<lambda>i. refs p i + int (count_list bs (Blk i))) \<and> hash_of p' = hash_of p"
  using touch_spec [OF assms] by blast

theorem touch_correct_witness:
  "\<exists>p p'. init_block_pool 4 True 4 False = Inr p \<and> touch [Blk 2, Blk 2] p = Inr p'
    \<and> pool_inv p' [Blk 1, Blk 3] \<and> refs p' 2 = 2"
proof -
  obtain p where p: "init_block_pool 4 True 4 False = Inr p" "pool_inv p [Blk 1, Blk 2, Blk 3]" "nblocks p = 4"
    "refs p = (\<lambda>_. 0)" by (rule example_pool)
  have "\<forall>b \<in> set [Blk 2, Blk 2]. pool_ref p b" using p(3) by (simp add: pool_ref_def)
  from touch_correct [OF p(2) this] p(1,4) show ?thesis by auto
qed

text \<open>
  C18: Release: every listed block loses one reference; those that were held once go to the end of the
  free list, in the order given, and keep their prefix-cache entry.  No block may be listed twice
  and each must be held.
\<close>

theorem free_blocks_correct:
  assumes "pool_inv p xs" "freeable p bs"
  shows "\<exists>p'. free_blocks bs p = Inr p'
    \<and> pool_inv p' (xs @ filter (\<lambda>b. b \<noteq> Blk 0 \<and> ref_cnt (heap p b) = 1) bs)
    \<and> refs p' = (\<lambda>i. refs p i - int (count_list bs (Blk i))) \<and> hash_of p' = hash_of p"
  using free_blocks_spec [OF assms] by blast

theorem free_blocks_correct_witness:
  "\<exists>p p1 p'. init_block_pool 4 True 4 False = Inr p \<and> touch [Blk 2] p = Inr p1
    \<and> free_blocks [Blk 2] p1 = Inr p' \<and> pool_inv p' [Blk 1, Blk 3, Blk 2] \<and> refs p' 2 = 0"
proof -
  obtain p where p: "init_block_pool 4 True 4 False = Inr p" "pool_inv p [Blk 1, Blk 2, Blk 3]" "nblocks p = 4"
    "refs p = (\<lambda>_. 0)" by (rule example_pool)
  have "\<forall>b \<in> set [Blk 2]. pool_ref p b" using p(3) by (simp add: pool_ref_def)
  from touch_spec [OF p(2) this] p(4) obtain p1 where p1: "touch [Blk 2] p = Inr p1" "pool_inv p1 [Blk 1, Blk 3]"
    "refs p1 = (\<lambda>i. if i = 2 then 1 else 0)" "static p1 = static p" by (auto simp: fun_eq_iff)
  have r: "ref_cnt (heap p1 (Blk 2)) = 1" using p1(3) by (simp add: refs_def fun_eq_iff)
  have "freeable p1 [Blk 2]" using p(3) p1(3) staticD(9) [OF p1(4)] by (simp add: freeable_def pool_ref_def)
  from free_blocks_correct [OF p1(2) this] p(1) p1(1,3) r show ?thesis by auto
qed

lemma evict_blocks_beyond_pool:
  assumes inv: "pool_inv p xs" and nn: "\<forall>i \<in> set ids. 0 \<le> i" and ex: "\<exists>i \<in> set ids. num_gpu_blocks p \<le> i"
  shows "evict_blocks env ids p = Inl AssertionError"
proof -
  from split_list_first_prop [OF ex] obtain a i b where ids: "ids = a @ i # b" "num_gpu_blocks p \<le> i"
    and a: "\<forall>j \<in> set a. \<not> num_gpu_blocks p \<le> j" by blast
  have "\<forall>j \<in> set a. 0 \<le> j \<and> j < num_gpu_blocks p" using a nn ids(1) by auto
  then obtain p1 where p1: "evict_blocks env a p = Inr p1" "static p1 = static p" "pool_inv p1 xs"
    using evict_blocks_spec [OF inv, of a env] by blast
  have "num_gpu_blocks p1 \<le> i" using ids(2) staticD(1) [OF p1(2)] by simp
  from evict_blocks_out_of_range [OF p1(3) this, of env b] p1(1) ids(1) show ?thesis
    by (auto simp: evict_blocks_def foldE_append)
qed

text \<open>
  C31: Explicit eviction removes exactly the listed blocks from the prefix cache, leaving reference
  counts and the free list alone; an id beyond the pool is refused.
\<close>

theorem evict_blocks_correct:
  assumes "pool_inv p xs" "\<forall>i \<in> set ids. 0 \<le> i"
  shows "if \<forall>i \<in> set ids. i < num_gpu_blocks p
    then \<exists>p'. evict_blocks env ids p = Inr p' \<and> pool_inv p' xs \<and> refs p' = refs p
      \<and> hash_of p' = (\<lambda>i. if int i \<in> set ids then None else hash_of p i)
    else evict_blocks env ids p = Inl AssertionError"
proof (cases "\<forall>i \<in> set ids. i < num_gpu_blocks p")
  case True
  then show ?thesis using evict_blocks_spec [OF assms(1), of ids env] assms(2) by auto
next
  case False
  then have "\<exists>i \<in> set ids. num_gpu_blocks p \<le> i" by force
  from evict_blocks_beyond_pool [OF assms this, of env] False show ?thesis by auto
qed

theorem evict_blocks_correct_witness:
  "\<exists>p p'. init_block_pool 4 True 4 False = Inr p \<and> evict_blocks example_env [2, 0] p = Inr p' \<and> refs p' = refs p
    \<and> evict_blocks example_env [1, 9] p = Inl AssertionError"
proof -
  obtain p where p: "init_block_pool 4 True 4 False = Inr p" "pool_inv p [Blk 1, Blk 2, Blk 3]" "nblocks p = 4"
    by (rule example_pool)
  have n: "num_gpu_blocks p = 4" using p(3) by (simp add: nblocks_def)
  from evict_blocks_correct [OF p(2), of "[2, 0]" example_env] evict_blocks_correct [OF p(2), of "[1, 9]" example_env] n p(1)
  show ?thesis by auto
qed

text \<open>
  C30: Resetting the prefix cache succeeds if and only if all blocks but the null block are free; it
  then clears the index and every block's hash, and otherwise changes nothing.
\<close>

theorem reset_prefix_cache_correct:
  assumes "pool_inv p xs"
  shows "\<exists>p'. reset_prefix_cache p = (length xs + 1 = nblocks p, p') \<and> pool_inv p' xs \<and> refs p' = refs p
    \<and> (if length xs + 1 = nblocks p
       then cached_block_hash_to_block p' = [] \<and> (\<forall>i < nblocks p. hash_of p' i = None) else p' = p)"
  using reset_prefix_cache_spec [OF assms] assms by auto

theorem reset_prefix_cache_correct_witness:
  "\<exists>p p'. init_block_pool 4 True 4 False = Inr p \<and> reset_prefix_cache p = (True, p')
    \<and> cached_block_hash_to_block p' = []"
proof -
  obtain p where p: "init_block_pool 4 True 4 False = Inr p" "pool_inv p [Blk 1, Blk 2, Blk 3]" "nblocks p = 4"
    by (rule example_pool)
  from reset_prefix_cache_correct [OF p(2)] p(1,3) show ?thesis by auto
qed

text \<open>
  C29: Caching the full blocks of a request enters each of them into the index under its hash, so that
  every one is found again; other blocks keep theirs, and reference counts and the free list stay.
\<close>

theorem cache_full_blocks_correct:
  assumes inv: "pool_inv p xs" and n: "0 \<le> n0" "n0 < n1" "n1 \<le> int (length bs)"
    and sz: "hash_size_ok p bsz" and len: "n1 \<le> bhl_length (group_hashes p r bsz)" and g: "0 \<le> g" "g < 4294967296"
    and pr: "\<forall>b \<in> set bs. pool_ref p b" and d: "distinct (filter (\<lambda>b. b \<noteq> Blk 0) bs)"
    and h: "\<forall>i. 0 < i \<and> Blk i \<in> set (drop (nat n0) bs) \<longrightarrow> hash_of p i = None"
  shows "\<exists>p'. cache_full_blocks env r bs n0 n1 bsz g p = Inr p' \<and> pool_inv p' xs \<and> refs p' = refs p
    \<and> (\<forall>i. Blk i \<notin> set (take (nat n1 - nat n0) (drop (nat n0) bs)) \<longrightarrow> hash_of p' i = hash_of p i)
    \<and> (\<forall>j. nat n0 \<le> j \<and> j < nat n1 \<and> bs ! j \<noteq> Blk 0 \<longrightarrow>
        (\<exists>hash b. bhl_get (group_hashes p r bsz) (int j) = Inr hash \<and> holds_hash p' hash g (bs ! j)
          \<and> get_cached_block p' hash [g] = Inr (Some [b]) \<and> holds_hash p' hash g b))"
proof -
  let ?new = "take (nat n1 - nat n0) (drop (nat n0) bs)"
  have "set ?new \<subseteq> set bs" "set ?new \<subseteq> set (drop (nat n0) bs)" by (auto dest: in_set_takeD in_set_dropD)
  moreover have "distinct (filter (\<lambda>b. b \<noteq> Blk 0) ?new)"
  proof -
    have "distinct (filter (\<lambda>b. b \<noteq> Blk 0) (take (nat n0) bs @ ?new @ drop (nat n1 - nat n0) (drop (nat n0) bs)))"
      using d by (metis append_take_drop_id)
    then show ?thesis by simp
  qed
  ultimately obtain p' where p': "cache_full_blocks env r bs n0 n1 bsz g p = Inr p'" "refs p' = refs p" "pool_inv p' xs"
    and hh: "\<forall>i. Blk i \<notin> set ?new \<or> i = 0 \<longrightarrow> hash_of p' i = hash_of p i"
    and f: "\<forall>j. nat n0 \<le> j \<and> j < nat n1 \<and> bs ! j \<noteq> Blk 0
      \<longrightarrow> (\<exists>hash. bhl_get (group_hashes p r bsz) (int j) = Inr hash \<and> holds_hash p' hash g (bs ! j))"
    using cache_full_blocks_spec [OF inv n sz len g, where env = env] pr h by blast
  have "\<exists>hash b. bhl_get (group_hashes p r bsz) (int j) = Inr hash \<and> holds_hash p' hash g (bs ! j)
      \<and> get_cached_block p' hash [g] = Inr (Some [b]) \<and> holds_hash p' hash g b"
    if j: "nat n0 \<le> j \<and> j < nat n1 \<and> bs ! j \<noteq> Blk 0" for j
  proof -
    obtain hash where hs: "bhl_get (group_hashes p r bsz) (int j) = Inr hash" "holds_hash p' hash g (bs ! j)"
      using f j by blast
    have "\<forall>g \<in> set [g]. 0 \<le> g \<and> g < 4294967296" using g by simp
    from get_cached_block_spec [OF pool_coreD(10) [OF p'(3)] this, of hash] hs show ?thesis
      by (auto simp: list_all2_Cons1)
  qed
  with p' hh show ?thesis by blast
qed

theorem cache_full_blocks_correct_witness:
  "\<exists>p p'. init_block_pool 4 True 4 False = Inr p
    \<and> cache_full_blocks example_env (example_request\<lparr>block_hashes := [[1, 0]]\<rparr>) [Blk 3] 0 1 4 0 p = Inr p'
    \<and> get_cached_block p' [1, 0] [0] = Inr (Some [Blk 3])"
proof -
  let ?r = "example_request\<lparr>block_hashes := [[1, 0]]\<rparr>"
  obtain p where p: "init_block_pool 4 True 4 False = Inr p" "pool_inv p [Blk 1, Blk 2, Blk 3]" "nblocks p = 4"
    "hash_block_size p = 4" "hash_of p = (\<lambda>_. None)" by (rule example_pool)
  have gh: "group_hashes p ?r 4 = PlainHashes [[1, 0]]" using p(4) by (simp add: group_hashes_def)
  from cache_full_blocks_correct [OF p(2), of 0 1 "[Blk 3]" 4 ?r 0 example_env] p(3-5) gh
  obtain p' where p': "cache_full_blocks example_env ?r [Blk 3] 0 1 4 0 p = Inr p'" "pool_inv p' [Blk 1, Blk 2, Blk 3]"
    and hh: "\<forall>i. i \<noteq> 3 \<longrightarrow> hash_of p' i = None"
    and f: "\<exists>b. get_cached_block p' [1, 0] [0] = Inr (Some [b]) \<and> holds_hash p' [1, 0] 0 b"
    by (auto simp: hash_size_ok_def pool_ref_def py_index_def)
  from f hh have "get_cached_block p' [1, 0] [0] = Inr (Some [Blk 3])" by (auto simp: holds_hash_def)
  with p(1) p'(1) show ?thesis by blast
qed

end
