(* ===== verification/KV_Cache_Spec.thy ===== *)
theory KV_Cache_Spec
  imports Prelude
begin

text \<open>
  \<open>vllm/v1/kv_cache_interface.py\<close>: how one attention (or state-space) layer stores its cache.
  The class hierarchy is a datatype with one constructor per concrete class; the fields that
  \<open>AttentionSpec\<close> declares are a record.  A \<open>torch.dtype\<close> is its name, and the size of its
  elements, which torch knows, is the parameter \<open>dtype_size\<close>.
\<close>

record attention_fields =
  at_block_size :: int
  num_kv_heads :: int
  head_size :: int
  at_dtype :: string
  at_page_size_padded :: "int option"

record mamba_fields =
  mb_block_size :: int
  mb_shapes :: "int list list"
  mb_dtypes :: "string list"
  mb_page_size_padded :: "int option"
  mamba_type :: string
  mamba_cache_mode :: string
  num_speculative_blocks :: int

text \<open>The last two fields of the full-attention classes: \<open>sliding_window\<close>, \<open>attention_chunk_size\<close>.\<close>

datatype layer_spec =
    FullAttentionSpec attention_fields int "int option" "int option"
  | MLAAttentionSpec attention_fields int "int option" "int option" "string option"
  | SinkFullAttentionSpec attention_fields int "int option" "int option" "int option"
  | ChunkedLocalAttentionSpec attention_fields int
  | SlidingWindowSpec attention_fields int
  | MambaSpec mamba_fields
  | CrossAttentionSpec attention_fields
  | EncoderOnlyAttentionSpec attention_fields

fun attention_of :: "layer_spec \<Rightarrow> attention_fields option" where
  "attention_of (FullAttentionSpec a hv sw ac) = Some a"
| "attention_of (MLAAttentionSpec a hv sw ac c) = Some a"
| "attention_of (SinkFullAttentionSpec a hv sw ac sl) = Some a"
| "attention_of (ChunkedLocalAttentionSpec a cs) = Some a"
| "attention_of (SlidingWindowSpec a w) = Some a"
| "attention_of (MambaSpec m) = None"
| "attention_of (CrossAttentionSpec a) = Some a"
| "attention_of (EncoderOnlyAttentionSpec a) = Some a"

fun spec_block_size :: "layer_spec \<Rightarrow> int" where
  "spec_block_size (MambaSpec m) = mb_block_size m"
| "spec_block_size (FullAttentionSpec a hv sw ac) = at_block_size a"
| "spec_block_size (MLAAttentionSpec a hv sw ac c) = at_block_size a"
| "spec_block_size (SinkFullAttentionSpec a hv sw ac sl) = at_block_size a"
| "spec_block_size (ChunkedLocalAttentionSpec a cs) = at_block_size a"
| "spec_block_size (SlidingWindowSpec a w) = at_block_size a"
| "spec_block_size (CrossAttentionSpec a) = at_block_size a"
| "spec_block_size (EncoderOnlyAttentionSpec a) = at_block_size a"

text \<open>\<open>isinstance(spec, FullAttentionSpec)\<close>\<close>

fun is_full_attention :: "layer_spec \<Rightarrow> bool" where
  "is_full_attention (FullAttentionSpec a hv sw ac) = True"
| "is_full_attention (MLAAttentionSpec a hv sw ac c) = True"
| "is_full_attention (SinkFullAttentionSpec a hv sw ac sl) = True"
| "is_full_attention _ = False"

text \<open>\<open>(head_size_v, sliding_window, attention_chunk_size)\<close> of a full-attention layer.\<close>

fun full_fields :: "layer_spec \<Rightarrow> (int \<times> int option \<times> int option) option" where
  "full_fields (FullAttentionSpec a hv sw ac) = Some (hv, sw, ac)"
| "full_fields (MLAAttentionSpec a hv sw ac c) = Some (hv, sw, ac)"
| "full_fields (SinkFullAttentionSpec a hv sw ac sl) = Some (hv, sw, ac)"
| "full_fields _ = None"

text \<open>The constructor call with \<open>__post_init__\<close>: a missing \<open>head_size_v\<close> is \<open>head_size\<close>.\<close>

definition full_attention_spec ::
  "attention_fields \<Rightarrow> int option \<Rightarrow> int option \<Rightarrow> int option \<Rightarrow> layer_spec" where
  "full_attention_spec a hv sw ac =
     FullAttentionSpec a (case hv of None \<Rightarrow> head_size a | Some v \<Rightarrow> v) sw ac"

fun copy_with_new_block_size :: "int \<Rightarrow> layer_spec \<Rightarrow> layer_spec" where
  "copy_with_new_block_size n (MambaSpec m) = MambaSpec (m\<lparr>mb_block_size := n\<rparr>)"
| "copy_with_new_block_size n (FullAttentionSpec a hv sw ac) = FullAttentionSpec (a\<lparr>at_block_size := n\<rparr>) hv sw ac"
| "copy_with_new_block_size n (MLAAttentionSpec a hv sw ac c) = MLAAttentionSpec (a\<lparr>at_block_size := n\<rparr>) hv sw ac c"
| "copy_with_new_block_size n (SinkFullAttentionSpec a hv sw ac sl) =
     SinkFullAttentionSpec (a\<lparr>at_block_size := n\<rparr>) hv sw ac sl"
| "copy_with_new_block_size n (ChunkedLocalAttentionSpec a cs) = ChunkedLocalAttentionSpec (a\<lparr>at_block_size := n\<rparr>) cs"
| "copy_with_new_block_size n (SlidingWindowSpec a w) = SlidingWindowSpec (a\<lparr>at_block_size := n\<rparr>) w"
| "copy_with_new_block_size n (CrossAttentionSpec a) = CrossAttentionSpec (a\<lparr>at_block_size := n\<rparr>)"
| "copy_with_new_block_size n (EncoderOnlyAttentionSpec a) = EncoderOnlyAttentionSpec (a\<lparr>at_block_size := n\<rparr>)"

subsection \<open>Page sizes\<close>

definition attention_real_page_size_bytes :: "(string \<Rightarrow> int) \<Rightarrow> attention_fields \<Rightarrow> int" where
  "attention_real_page_size_bytes dtype_size a =
     2 * at_block_size a * num_kv_heads a * head_size a * dtype_size (at_dtype a)"

definition full_real_page_size_bytes :: "(string \<Rightarrow> int) \<Rightarrow> attention_fields \<Rightarrow> int \<Rightarrow> int" where
  "full_real_page_size_bytes dtype_size a hv =
     at_block_size a * num_kv_heads a * (head_size a + hv) * dtype_size (at_dtype a)"

definition mla_real_page_size_bytes :: "(string \<Rightarrow> int) \<Rightarrow> attention_fields \<Rightarrow> string option \<Rightarrow> int" where
  "mla_real_page_size_bytes dtype_size a cache_dtype_str =
     (if cache_dtype_str = Some ''fp8_ds_mla'' then at_block_size a * 656
      else at_block_size a * num_kv_heads a * head_size a * dtype_size (at_dtype a))"

definition mamba_page_size :: "(string \<Rightarrow> int) \<Rightarrow> mamba_fields \<Rightarrow> int" where
  "mamba_page_size dtype_size m =
     sum_list (map (\<lambda>(shape, dtype). prod_list shape * dtype_size dtype) (zip (mb_shapes m) (mb_dtypes m)))"

text \<open>\<open>real_page_size_bytes\<close>, for Mamba the sum that \<open>page_size_bytes\<close> starts from.\<close>

fun real_page_size_bytes :: "(string \<Rightarrow> int) \<Rightarrow> layer_spec \<Rightarrow> int" where
  "real_page_size_bytes d (FullAttentionSpec a hv sw ac) = full_real_page_size_bytes d a hv"
| "real_page_size_bytes d (MLAAttentionSpec a hv sw ac c) = mla_real_page_size_bytes d a c"
| "real_page_size_bytes d (SinkFullAttentionSpec a hv sw ac sl) = full_real_page_size_bytes d a hv"
| "real_page_size_bytes d (ChunkedLocalAttentionSpec a cs) = attention_real_page_size_bytes d a"
| "real_page_size_bytes d (SlidingWindowSpec a w) = attention_real_page_size_bytes d a"
| "real_page_size_bytes d (MambaSpec m) = mamba_page_size d m"
| "real_page_size_bytes d (CrossAttentionSpec a) = attention_real_page_size_bytes d a"
| "real_page_size_bytes d (EncoderOnlyAttentionSpec a) = attention_real_page_size_bytes d a"

definition page_size_padded :: "layer_spec \<Rightarrow> int option" where
  "page_size_padded spec =
     (case spec of MambaSpec m \<Rightarrow> mb_page_size_padded m
      | _ \<Rightarrow> (case attention_of spec of None \<Rightarrow> None | Some a \<Rightarrow> at_page_size_padded a))"

definition page_size_bytes :: "(string \<Rightarrow> int) \<Rightarrow> layer_spec \<Rightarrow> int result" where
  "page_size_bytes d spec =
     (let real_page_size = real_page_size_bytes d spec in
      case page_size_padded spec of
        None \<Rightarrow> Inr real_page_size
      | Some padded \<Rightarrow> ebind (eassert (padded \<ge> real_page_size)) (\<lambda>_. Inr padded))"

subsection \<open>Maximal memory usage of one request\<close>

record engine_config =
  max_model_len :: int
  max_num_batched_tokens :: int
  max_num_encoder_input_tokens :: int
  decode_context_parallel_size :: int
  prefill_context_parallel_size :: int
  cfg_mamba_cache_mode :: string

text \<open>How many pages of \<open>page_size_bytes\<close> a request can come to hold in one layer.\<close>

fun max_pages :: "engine_config \<Rightarrow> layer_spec \<Rightarrow> int result" where
  "max_pages cfg (MambaSpec m) =
     (if cfg_mamba_cache_mode cfg = ''all'' then pcdiv (max_model_len cfg) (mb_block_size m)
      else if cfg_mamba_cache_mode cfg = ''align'' then Inr (2 + num_speculative_blocks m)
      else Inr (1 + num_speculative_blocks m))"
| "max_pages cfg (ChunkedLocalAttentionSpec a chunk) =
     pcdiv (min (chunk + max_num_batched_tokens cfg) (max_model_len cfg)) (at_block_size a)"
| "max_pages cfg (SlidingWindowSpec a window) =
     ebind (eassert (decode_context_parallel_size cfg = 1)) (\<lambda>_.
     ebind (pcdiv (min (window - 1 + max_num_batched_tokens cfg) (max_model_len cfg)) (at_block_size a))
       (\<lambda>n. Inr (n + 1)))"
| "max_pages cfg (EncoderOnlyAttentionSpec a) = Inr 0"
| "max_pages cfg (CrossAttentionSpec a) = pcdiv (max_num_encoder_input_tokens cfg) (at_block_size a)"
| "max_pages cfg full =
     (let world = decode_context_parallel_size cfg * prefill_context_parallel_size cfg in
      ebind (if world > 1 then pcdiv (max_model_len cfg) world else Inr (max_model_len cfg)) (\<lambda>len.
        pcdiv len (spec_block_size full)))"

definition max_memory_usage_bytes :: "(string \<Rightarrow> int) \<Rightarrow> engine_config \<Rightarrow> layer_spec \<Rightarrow> int result" where
  "max_memory_usage_bytes d cfg spec =
     ebind (max_pages cfg spec) (\<lambda>n.
       case spec of EncoderOnlyAttentionSpec _ \<Rightarrow> Inr 0
       | _ \<Rightarrow> ebind (page_size_bytes d spec) (\<lambda>page. Inr (n * page)))"

subsection \<open>Merging the layers of a group\<close>

text \<open>
  \<open>merge_window_sizes\<close> gets a set: the list of the window sizes stands for it.
\<close>

definition merge_window_sizes :: "int list \<Rightarrow> int option result" where
  "merge_window_sizes ws =
     (case remdups ws of [] \<Rightarrow> Inr None | [w] \<Rightarrow> Inr (Some w) | _ \<Rightarrow> Inl ValueError)"

definition window_sizes :: "layer_spec list \<Rightarrow> int list" where
  "window_sizes specs =
     List.map_filter (\<lambda>s. case full_fields s of Some (hv, sw, ac) \<Rightarrow> sw | None \<Rightarrow> None) specs"

definition chunk_sizes :: "layer_spec list \<Rightarrow> int list" where
  "chunk_sizes specs =
     List.map_filter (\<lambda>s. case full_fields s of Some (hv, sw, ac) \<Rightarrow> ac | None \<Rightarrow> None) specs"

fun is_mla :: "layer_spec \<Rightarrow> bool" where
  "is_mla (MLAAttentionSpec a hv sw ac c) = True"
| "is_mla _ = False"

text \<open>The body that \<open>FullAttentionSpec.merge\<close> and \<open>SinkFullAttentionSpec.merge\<close> share.\<close>

definition merge_full_fields ::
  "layer_spec list \<Rightarrow> attention_fields \<Rightarrow> (int option \<times> int option) result" where
  "merge_full_fields specs a =
     ebind (eassert (\<forall>s \<in> set specs. is_full_attention s)) (\<lambda>_.
     ebind (eassert (\<not> (\<exists>s \<in> set specs. is_mla s))) (\<lambda>_.
     ebind (merge_window_sizes (window_sizes specs)) (\<lambda>sw.
     ebind (merge_window_sizes (chunk_sizes specs)) (\<lambda>ac.
     ebind (eassert (\<forall>s \<in> set specs. attention_of s = Some a)) (\<lambda>_.
     ebind (eassert (\<not> (sw \<noteq> None \<and> ac \<noteq> None))) (\<lambda>_. Inr (sw, ac)))))))"

definition merge_mla_cache_dtype :: "layer_spec list \<Rightarrow> string option result" where
  "merge_mla_cache_dtype specs =
     ebind (eassert (\<forall>s \<in> set specs. is_mla s)) (\<lambda>_.
     (case remdups (map (\<lambda>s. case s of MLAAttentionSpec a hv sw ac c \<Rightarrow> c | _ \<Rightarrow> None) specs) of
        [c] \<Rightarrow> Inr c | _ \<Rightarrow> Inl AssertionError))"

text \<open>\<open>layer_specs[0].merge(layer_specs)\<close>: the class of the first layer decides.\<close>

fun merge_specs :: "layer_spec list \<Rightarrow> layer_spec result" where
  "merge_specs [] = Inl IndexError"
| "merge_specs (FullAttentionSpec a hv sw ac # ss) =
     ebind (merge_full_fields (FullAttentionSpec a hv sw ac # ss) a) (\<lambda>(sw', ac').
       Inr (FullAttentionSpec a hv sw' ac'))"
| "merge_specs (SinkFullAttentionSpec a hv sw ac sl # ss) =
     ebind (merge_full_fields (SinkFullAttentionSpec a hv sw ac sl # ss) a) (\<lambda>(sw', ac').
       Inr (SinkFullAttentionSpec a hv sw' ac' sl))"
| "merge_specs (MLAAttentionSpec a hv sw ac c # ss) =
     ebind (merge_mla_cache_dtype (MLAAttentionSpec a hv sw ac c # ss)) (\<lambda>c'.
       Inr (MLAAttentionSpec a (head_size a) None None c'))"
| "merge_specs (s # ss) = ebind (eassert (\<forall>t \<in> set ss. t = s)) (\<lambda>_. Inr s)"

subsection \<open>Uniform types\<close>

definition same_type :: "layer_spec \<Rightarrow> layer_spec \<Rightarrow> bool result" where
  "same_type one spec =
     (if is_full_attention one then Inr (is_full_attention spec)
      else case one of
        CrossAttentionSpec _ \<Rightarrow> Inr (case spec of CrossAttentionSpec _ \<Rightarrow> True | _ \<Rightarrow> False)
      | SlidingWindowSpec _ w \<Rightarrow> Inr (case spec of SlidingWindowSpec _ v \<Rightarrow> v = w | _ \<Rightarrow> False)
      | ChunkedLocalAttentionSpec _ c \<Rightarrow> Inr (case spec of ChunkedLocalAttentionSpec _ e \<Rightarrow> e = c | _ \<Rightarrow> False)
      | MambaSpec m \<Rightarrow> Inr (case spec of
            MambaSpec n \<Rightarrow> num_speculative_blocks n = num_speculative_blocks m | _ \<Rightarrow> False)
      | _ \<Rightarrow> Inl NotImplementedError)"

fun all_same_type :: "layer_spec \<Rightarrow> layer_spec list \<Rightarrow> bool result" where
  "all_same_type one [] = Inr True"
| "all_same_type one (s # ss) =
     ebind (same_type one s) (\<lambda>b. if b then all_same_type one ss else Inr False)"

definition is_uniform_type :: "(string \<times> layer_spec) list \<Rightarrow> bool result" where
  "is_uniform_type specs =
     (if length (remdups (map (spec_block_size \<circ> snd) specs)) > 1 then Inr False
      else case specs of
        [] \<Rightarrow> Inl StopIteration
      | (_, one_spec) # _ \<Rightarrow> all_same_type one_spec (map snd specs))"

record uniform_type_specs =
  ut_block_size :: int
  ut_specs :: "(string \<times> layer_spec) list"

definition uniform_from_specs :: "(string \<times> layer_spec) list \<Rightarrow> uniform_type_specs option result" where
  "uniform_from_specs specs =
     ebind (is_uniform_type specs) (\<lambda>b.
       if b then Inr (Some \<lparr>ut_block_size = spec_block_size (snd (hd specs)), ut_specs = specs\<rparr>)
       else Inr None)"

fun sum_page_sizes :: "(string \<Rightarrow> int) \<Rightarrow> layer_spec list \<Rightarrow> int result" where
  "sum_page_sizes d [] = Inr 0"
| "sum_page_sizes d (s # ss) =
     ebind (page_size_bytes d s) (\<lambda>x. ebind (sum_page_sizes d ss) (\<lambda>y. Inr (x + y)))"

definition uniform_page_size_bytes :: "(string \<Rightarrow> int) \<Rightarrow> uniform_type_specs \<Rightarrow> int result" where
  "uniform_page_size_bytes d u = sum_page_sizes d (map snd (ut_specs u))"

text \<open>\<open>max(cdiv(...) for spec in ...)\<close>: \<open>max\<close> of an empty iterable raises \<open>ValueError\<close>.\<close>

fun max_num_pages :: "(string \<Rightarrow> int) \<Rightarrow> engine_config \<Rightarrow> layer_spec list \<Rightarrow> int option \<Rightarrow> int result" where
  "max_num_pages d cfg [] acc = (case acc of None \<Rightarrow> Inl ValueError | Some m \<Rightarrow> Inr m)"
| "max_num_pages d cfg (s # ss) acc =
     ebind (max_memory_usage_bytes d cfg s) (\<lambda>mem.
     ebind (page_size_bytes d s) (\<lambda>page.
     ebind (pcdiv mem page) (\<lambda>n.
       max_num_pages d cfg ss (Some (case acc of None \<Rightarrow> n | Some m \<Rightarrow> max m n)))))"

definition uniform_max_memory_usage_bytes ::
  "(string \<Rightarrow> int) \<Rightarrow> engine_config \<Rightarrow> uniform_type_specs \<Rightarrow> int result" where
  "uniform_max_memory_usage_bytes d cfg u =
     ebind (max_num_pages d cfg (map snd (ut_specs u)) None) (\<lambda>n.
     ebind (uniform_page_size_bytes d u) (\<lambda>page. Inr (n * page)))"

record kv_cache_group_spec =
  layer_names :: "string list"
  kv_cache_spec :: layer_spec

record kv_cache_config =
  num_blocks :: int
  kv_cache_groups :: "kv_cache_group_spec list"

definition has_mamba_layers :: "kv_cache_config \<Rightarrow> bool" where
  "has_mamba_layers c \<longleftrightarrow> (\<exists>g \<in> set (kv_cache_groups c). case kv_cache_spec g of MambaSpec _ \<Rightarrow> True | _ \<Rightarrow> False)"

definition needs_kv_cache_zeroing :: "kv_cache_config \<Rightarrow> bool" where
  "needs_kv_cache_zeroing c = has_mamba_layers c"

subsection \<open>Lemmas\<close>

lemma merge_full_fields_eq:
  assumes "merge_full_fields specs a = Inr r" "s \<in> set specs"
  shows "attention_of s = Some a"
  using assms by (auto simp: merge_full_fields_def ebind_eq_Inr)

lemma attention_block_size: "attention_of s = Some a \<Longrightarrow> spec_block_size s = at_block_size a"
  by (cases s) auto

text \<open>
  Merging keeps the block size of every layer, except for MLA layers, whose \<open>merge\<close> does not
  compare the layers.
\<close>

lemma merge_specs_block_size:
  assumes m: "merge_specs specs = Inr s" and t: "t \<in> set specs" and mla: "\<not> is_mla s"
  shows "spec_block_size t = spec_block_size s"
proof (cases specs)
  case (Cons u us)
  have full: "spec_block_size t = at_block_size a" if "merge_full_fields specs a = Inr r" for a r
    using merge_full_fields_eq [OF that t] by (rule attention_block_size)
  show ?thesis
  proof (cases u)
    case (FullAttentionSpec a hv sw ac)
    then show ?thesis using m full Cons by (auto simp: ebind_eq_Inr)
  next
    case (SinkFullAttentionSpec a hv sw ac sl)
    then show ?thesis using m full Cons by (auto simp: ebind_eq_Inr)
  next
    case (MLAAttentionSpec a hv sw ac c)
    then show ?thesis using m mla Cons by (auto simp: ebind_eq_Inr)
  qed (use m t Cons in \<open>auto simp: ebind_eq_Inr\<close>)
qed (use t in simp)

lemma page_size_bytes_ge: "page_size_bytes d s = Inr n \<Longrightarrow> real_page_size_bytes d s \<le> n"
  by (auto simp: page_size_bytes_def ebind_eq_Inr Let_def split: option.splits)

subsection \<open>Properties\<close>

text \<open>
  Merging the layers of a group keeps the block size: every merged layer has the block size of the
  result, so that one block table fits all of them.  MLA layers are excepted, because their
  \<open>merge\<close> does not compare the layers.
\<close>

theorem merge_keeps_block_size:
  assumes "merge_specs specs = Inr s" "t \<in> set specs" "\<not> is_mla s"
  shows "spec_block_size t = spec_block_size s"
  by (rule merge_specs_block_size [OF assms])

theorem merge_keeps_block_size_witness:
  "\<exists>s. merge_specs [MambaSpec \<lparr>mb_block_size = 8, mb_shapes = [], mb_dtypes = [], mb_page_size_padded = None,
       mamba_type = ''mamba2'', mamba_cache_mode = ''all'', num_speculative_blocks = 0\<rparr>] = Inr s \<and> spec_block_size s = 8"
proof -
  let ?m = "MambaSpec \<lparr>mb_block_size = 8, mb_shapes = [], mb_dtypes = [], mb_page_size_padded = None,
       mamba_type = ''mamba2'', mamba_cache_mode = ''all'', num_speculative_blocks = 0\<rparr>"
  have m: "merge_specs [?m] = Inr ?m" by simp
  from merge_keeps_block_size [OF m, of ?m] m show ?thesis by auto
qed

end
