(* ===== verification/Cache_Hit.thy ===== *)
theory Cache_Hit
  imports Block_Pool KV_Cache_Spec
begin

text \<open>
  The class methods \<open>find_longest_cache_hit\<close> of \<open>vllm/v1/core/single_type_kv_cache_manager.py\<close>:
  how the prefix-cache index is searched for full attention (left to right), sliding windows
  (right to left for a run of blocks), chunked local attention (within the last chunk) and
  Mamba (the last block only).  Each returns one list of blocks per KV cache group.
\<close>

datatype manager_class =
    FullAttentionManager | SlidingWindowManager | ChunkedLocalAttentionManager
  | MambaManager | CrossAttentionManager | SinkFullAttentionManager

text \<open>\<open>spec_manager_map\<close>\<close>

fun spec_manager_map :: "layer_spec \<Rightarrow> manager_class result" where
  "spec_manager_map (FullAttentionSpec a hv sw ac) = Inr FullAttentionManager"
| "spec_manager_map (MLAAttentionSpec a hv sw ac c) = Inr FullAttentionManager"
| "spec_manager_map (SlidingWindowSpec a w) = Inr SlidingWindowManager"
| "spec_manager_map (ChunkedLocalAttentionSpec a c) = Inr ChunkedLocalAttentionManager"
| "spec_manager_map (MambaSpec m) = Inr MambaManager"
| "spec_manager_map (CrossAttentionSpec a) = Inr CrossAttentionManager"
| "spec_manager_map (SinkFullAttentionSpec a hv sw ac sl) = Inr SinkFullAttentionManager"
| "spec_manager_map (EncoderOnlyAttentionSpec a) = Inl KeyError"

text \<open>
  \<open>if cached_block := block_pool.get_cached_block(block_hashes[i], kv_cache_group_ids)\<close>: the
  result is the cached blocks when they are truthy, that is neither \<open>None\<close> nor an empty list.
\<close>

definition lookup_block :: "block_pool \<Rightarrow> block_hash_list \<Rightarrow> int list \<Rightarrow> int \<Rightarrow> bref list option result" where
  "lookup_block p hl gs i =
     ebind (bhl_get hl i) (\<lambda>h.
     ebind (get_cached_block p h gs) (\<lambda>c.
       Inr (case c of None \<Rightarrow> None | Some [] \<Rightarrow> None | Some bs \<Rightarrow> Some bs)))"

text \<open>\<open>for computed in computed_blocks: computed.pop()\<close>\<close>

definition pop_each :: "bref list list \<Rightarrow> bref list list result" where
  "pop_each computed = (if [] \<in> set computed then Inl IndexError else Inr (map butlast computed))"

text \<open>
  \<open>while block_size != alignment_tokens and len(computed_blocks[0]) * block_size % alignment_tokens != 0\<close>;
  \<open>fuel\<close> is the length of the first list, which every turn shortens.
\<close>

fun align_loop :: "nat \<Rightarrow> int \<Rightarrow> int \<Rightarrow> bref list list \<Rightarrow> bref list list result" where
  "align_loop fuel block_size alignment computed =
     (if block_size = alignment then Inr computed
      else ebind (py_index computed 0) (\<lambda>c.
        if alignment = 0 then Inl ZeroDivisionError
        else if int (length c) * block_size mod alignment = 0 then Inr computed
        else (case fuel of
                0 \<Rightarrow> Inl NonTermination
              | Suc fuel \<Rightarrow> ebind (pop_each computed) (\<lambda>computed. align_loop fuel block_size alignment computed))))"

declare align_loop.simps [simp del]

definition align_hit :: "int \<Rightarrow> int \<Rightarrow> bref list list \<Rightarrow> bref list list result" where
  "align_hit block_size alignment computed =
     align_loop (case computed of [] \<Rightarrow> 0 | c # _ \<Rightarrow> length c) block_size alignment computed"

subsection \<open>Full attention\<close>

fun full_hit_loop ::
  "block_pool \<Rightarrow> block_hash_list \<Rightarrow> int list \<Rightarrow> int list \<Rightarrow> bref list list \<Rightarrow> bref list list result" where
  "full_hit_loop p hl gs [] computed = Inr computed"
| "full_hit_loop p hl gs (i # is) computed =
     ebind (lookup_block p hl gs i) (\<lambda>c.
       case c of
         Some hits \<Rightarrow> full_hit_loop p hl gs is (map2 (\<lambda>comp b. comp @ [b]) computed hits)
       | None \<Rightarrow> Inr computed)"

definition full_find_longest_cache_hit ::
  "block_pool \<Rightarrow> block_hash_list \<Rightarrow> int \<Rightarrow> int list \<Rightarrow> layer_spec \<Rightarrow> bool \<Rightarrow> int \<Rightarrow> int \<Rightarrow> int
    \<Rightarrow> bref list list result" where
  "full_find_longest_cache_hit p hl max_length gs spec use_eagle alignment dcp pcp =
     ebind (eassert (is_full_attention spec
              \<or> (case spec of ChunkedLocalAttentionSpec _ _ \<Rightarrow> True | _ \<Rightarrow> False))) (\<lambda>_.
     let block_size = (if dcp * pcp > 1 then spec_block_size spec * (dcp * pcp) else spec_block_size spec) in
     ebind (pdiv max_length block_size) (\<lambda>max_num_blocks.
     if max_num_blocks < 0 then Inl ValueError \<comment> \<open>\<open>islice\<close> refuses a negative stop\<close>
     else
       ebind (full_hit_loop p hl gs (py_range 0 (min max_num_blocks (bhl_length hl))) (map (\<lambda>_. []) gs))
         (\<lambda>computed.
       ebind (if use_eagle then ebind (py_index computed 0) (\<lambda>c.
                if c \<noteq> [] then pop_each computed else Inr computed)
              else Inr computed) (\<lambda>computed.
         align_hit block_size alignment computed))))"

subsection \<open>Sliding window\<close>

text \<open>The loop from right to left; the flag is \<open>match_found\<close>.\<close>

fun sliding_hit_loop ::
  "block_pool \<Rightarrow> block_hash_list \<Rightarrow> int list \<Rightarrow> int \<Rightarrow> int \<Rightarrow> int \<Rightarrow> nat list \<Rightarrow> bref list list \<Rightarrow> int
    \<Rightarrow> (bref list list \<times> int \<times> bool) result" where
  "sliding_hit_loop p hl gs block_size alignment needed [] computed num_contiguous =
     Inr (computed, num_contiguous, False)"
| "sliding_hit_loop p hl gs block_size alignment needed (i # is) computed num_contiguous =
     ebind (lookup_block p hl gs (int i)) (\<lambda>c.
       case c of
         Some hits \<Rightarrow>
           ebind (if num_contiguous = 0 \<and> block_size \<noteq> alignment
                  then (if alignment = 0 then Inl ZeroDivisionError
                        else Inr ((int i + 1) * block_size mod alignment \<noteq> 0))
                  else Inr False) (\<lambda>skip.
           if skip then sliding_hit_loop p hl gs block_size alignment needed is computed num_contiguous
           else
             let computed = map2 (\<lambda>comp b. comp[i := b]) computed hits;
                 num_contiguous = num_contiguous + 1
             in if num_contiguous \<ge> needed
                then Inr (map (\<lambda>comp. py_take comp (int i + num_contiguous)) computed, num_contiguous, True)
                else sliding_hit_loop p hl gs block_size alignment needed is computed num_contiguous)
       | None \<Rightarrow> sliding_hit_loop p hl gs block_size alignment needed is computed 0)"

definition sliding_contiguous_blocks :: "int \<Rightarrow> int \<Rightarrow> bool \<Rightarrow> int result" where
  "sliding_contiguous_blocks window block_size use_eagle =
     ebind (pcdiv (window - 1) block_size) (\<lambda>n. Inr (if use_eagle then n + 1 else n))"

definition sliding_find_longest_cache_hit ::
  "block_pool \<Rightarrow> block_hash_list \<Rightarrow> int \<Rightarrow> int list \<Rightarrow> layer_spec \<Rightarrow> bool \<Rightarrow> int \<Rightarrow> int \<Rightarrow> int
    \<Rightarrow> bref list list result" where
  "sliding_find_longest_cache_hit p hl max_length gs spec use_eagle alignment dcp pcp =
     (case spec of
        SlidingWindowSpec a window \<Rightarrow>
          ebind (eassert (dcp = 1)) (\<lambda>_. ebind (eassert (pcp = 1)) (\<lambda>_.
          let block_size = at_block_size a in
          ebind (sliding_contiguous_blocks window block_size use_eagle) (\<lambda>needed.
          ebind (pdiv max_length block_size) (\<lambda>max_num_blocks.
          ebind (sliding_hit_loop p hl gs block_size alignment needed (rev [0 ..< nat max_num_blocks])
                   (map (\<lambda>_. replicate (nat max_num_blocks) (null_block p)) gs) 0)
            (\<lambda>(computed, num_contiguous, match_found).
          ebind (if match_found then Inr computed
                 else align_hit block_size alignment (map (\<lambda>comp. py_take comp num_contiguous) computed))
            (\<lambda>computed.
          if use_eagle
          then ebind (py_index computed 0) (\<lambda>c.
                 if c \<noteq> [] then ebind (eassert (block_size = alignment)) (\<lambda>_. pop_each computed)
                 else Inr computed)
          else Inr computed))))))
      | _ \<Rightarrow> Inl AssertionError)"

subsection \<open>Chunked local attention\<close>

fun chunked_hit_loop ::
  "block_pool \<Rightarrow> block_hash_list \<Rightarrow> int list \<Rightarrow> int list \<Rightarrow> bref list list \<Rightarrow> bref list list result" where
  "chunked_hit_loop p hl gs [] computed = Inr computed"
| "chunked_hit_loop p hl gs (i # is) computed =
     ebind (lookup_block p hl gs i) (\<lambda>c.
       case c of
         Some hits \<Rightarrow> chunked_hit_loop p hl gs is (map2 (\<lambda>comp b. comp @ [b]) computed hits)
       | None \<Rightarrow> Inr computed)"

definition chunked_find_longest_cache_hit ::
  "block_pool \<Rightarrow> block_hash_list \<Rightarrow> int \<Rightarrow> int list \<Rightarrow> layer_spec \<Rightarrow> bool \<Rightarrow> int \<Rightarrow> int \<Rightarrow> int
    \<Rightarrow> bref list list result" where
  "chunked_find_longest_cache_hit p hl max_length gs spec use_eagle alignment dcp pcp =
     (case spec of
        ChunkedLocalAttentionSpec a chunk \<Rightarrow>
          ebind (eassert (\<not> use_eagle)) (\<lambda>_. ebind (eassert (dcp = 1)) (\<lambda>_. ebind (eassert (pcp = 1)) (\<lambda>_.
          let block_size = at_block_size a in
          ebind (eassert (block_size = alignment)) (\<lambda>_.
          ebind (pdiv max_length block_size) (\<lambda>max_num_blocks.
          ebind (if max_length > 0 then ebind (pdiv max_length chunk) (\<lambda>k. Inr (k * chunk)) else Inr 0)
            (\<lambda>local_attention_start_idx.
          ebind (pdiv local_attention_start_idx block_size) (\<lambda>local_attention_start_block_idx.
            chunked_hit_loop p hl gs (py_range local_attention_start_block_idx max_num_blocks)
              (map (\<lambda>_. replicate (nat local_attention_start_block_idx) (null_block p)) gs))))))))
      | _ \<Rightarrow> Inl AssertionError)"

subsection \<open>Mamba\<close>

fun mamba_hit_loop ::
  "block_pool \<Rightarrow> block_hash_list \<Rightarrow> int list \<Rightarrow> int \<Rightarrow> int \<Rightarrow> nat list \<Rightarrow> bref list list \<Rightarrow> bref list list result" where
  "mamba_hit_loop p hl gs block_size alignment [] computed = Inr computed"
| "mamba_hit_loop p hl gs block_size alignment (i # is) computed =
     ebind (lookup_block p hl gs (int i)) (\<lambda>c.
       case c of
         Some hits \<Rightarrow>
           ebind (if block_size \<noteq> alignment
                  then (if alignment = 0 then Inl ZeroDivisionError
                        else Inr ((int i + 1) * block_size mod alignment \<noteq> 0))
                  else Inr False) (\<lambda>skip.
           if skip then mamba_hit_loop p hl gs block_size alignment is computed
           else Inr (map2 (\<lambda>comp b. comp @ replicate i (null_block p) @ [b]) computed hits))
       | None \<Rightarrow> mamba_hit_loop p hl gs block_size alignment is computed)"

definition mamba_find_longest_cache_hit ::
  "block_pool \<Rightarrow> block_hash_list \<Rightarrow> int \<Rightarrow> int list \<Rightarrow> layer_spec \<Rightarrow> bool \<Rightarrow> int \<Rightarrow> int \<Rightarrow> int
    \<Rightarrow> bref list list result" where
  "mamba_find_longest_cache_hit p hl max_length gs spec use_eagle alignment dcp pcp =
     (case spec of
        MambaSpec m \<Rightarrow>
          ebind (eassert (dcp = 1)) (\<lambda>_. ebind (eassert (pcp = 1)) (\<lambda>_.
          ebind (pdiv max_length (mb_block_size m)) (\<lambda>max_num_blocks.
            mamba_hit_loop p hl gs (mb_block_size m) alignment (rev [0 ..< nat max_num_blocks])
              (map (\<lambda>_. []) gs))))
      | _ \<Rightarrow> Inl AssertionError)"

text \<open>The call of the class method on a manager class.\<close>

definition cls_find_longest_cache_hit ::
  "manager_class \<Rightarrow> block_pool \<Rightarrow> block_hash_list \<Rightarrow> int \<Rightarrow> int list \<Rightarrow> layer_spec \<Rightarrow> bool \<Rightarrow> int \<Rightarrow> int \<Rightarrow> int
    \<Rightarrow> bref list list result" where
  "cls_find_longest_cache_hit cls =
     (case cls of
        FullAttentionManager \<Rightarrow> full_find_longest_cache_hit
      | SinkFullAttentionManager \<Rightarrow> full_find_longest_cache_hit
      | SlidingWindowManager \<Rightarrow> sliding_find_longest_cache_hit
      | ChunkedLocalAttentionManager \<Rightarrow> chunked_find_longest_cache_hit
      | MambaManager \<Rightarrow> mamba_find_longest_cache_hit
      | CrossAttentionManager \<Rightarrow> (\<lambda>p hl max_length gs spec use_eagle alignment dcp pcp.
          case spec of CrossAttentionSpec _ \<Rightarrow> Inl NotImplementedError | _ \<Rightarrow> Inl AssertionError))"

subsection \<open>What a search returns\<close>

text \<open>Block \<open>k\<close> of the request is a hit when every group holds a block with its hash.\<close>

definition entry_hit :: "block_pool \<Rightarrow> block_hash_list \<Rightarrow> int \<Rightarrow> nat \<Rightarrow> bref \<Rightarrow> bool" where
  "entry_hit p hl g k b \<longleftrightarrow> (\<exists>h. bhl_get hl (int k) = Inr h \<and> holds_hash p h g b)"

definition hit_at :: "block_pool \<Rightarrow> block_hash_list \<Rightarrow> int list \<Rightarrow> nat \<Rightarrow> bool" where
  "hit_at p hl gs k \<longleftrightarrow> (\<forall>g \<in> set gs. \<exists>b. entry_hit p hl g k b)"

text \<open>
  One list per group, all of length \<open>L\<close>: null blocks in the first \<open>nulls\<close> places, then blocks
  that hold the request's hash for that place and group.
\<close>

definition hit_lists ::
  "block_pool \<Rightarrow> block_hash_list \<Rightarrow> int list \<Rightarrow> nat \<Rightarrow> nat \<Rightarrow> bref list list \<Rightarrow> bool" where
  "hit_lists p hl gs nulls L computed \<longleftrightarrow>
     list_all2 (\<lambda>g c. length c = L \<and>
       (\<forall>k < L. if k < nulls then c ! k = null_block p else entry_hit p hl g k (c ! k))) gs computed"

definition greatest_hit :: "(nat \<Rightarrow> bool) \<Rightarrow> nat \<Rightarrow> nat \<Rightarrow> bool" where
  "greatest_hit V m L \<longleftrightarrow> L \<le> m \<and> V L \<and> (\<forall>L'. L < L' \<and> L' \<le> m \<longrightarrow> \<not> V L')"

definition groups_ok :: "int list \<Rightarrow> bool" where
  "groups_ok gs \<longleftrightarrow> gs \<noteq> [] \<and> (\<forall>g \<in> set gs. 0 \<le> g \<and> g < 4294967296)"

lemma list_all2_map2:
  assumes "list_all2 P gs xs" "list_all2 Q gs ys" "\<And>g x y. g \<in> set gs \<Longrightarrow> P g x \<Longrightarrow> Q g y \<Longrightarrow> R g (f x y)"
  shows "list_all2 R gs (map2 f xs ys)"
  using assms by (auto simp: list_all2_conv_all_nth)

lemma list_all2_map_right:
  assumes "list_all2 P gs xs" "\<And>g x. g \<in> set gs \<Longrightarrow> P g x \<Longrightarrow> R g (f x)"
  shows "list_all2 R gs (map f xs)"
  using assms by (auto simp: list_all2_conv_all_nth)

lemma list_all2_const: "(\<And>g. g \<in> set gs \<Longrightarrow> P g x) \<Longrightarrow> list_all2 P gs (map (\<lambda>_. x) gs)"
  by (auto simp: list_all2_conv_all_nth)

lemma lookup_block_spec:
  assumes ix: "index_inv p" and gs: "groups_ok gs" and b: "bhl_wf hl" "int k < bhl_length hl"
  shows "(\<exists>hits. lookup_block p hl gs (int k) = Inr (Some hits)
      \<and> list_all2 (\<lambda>g b. entry_hit p hl g k b) gs hits \<and> hit_at p hl gs k)
    \<or> lookup_block p hl gs (int k) = Inr None \<and> \<not> hit_at p hl gs k"
proof -
  obtain h where h: "bhl_get hl (int k) = Inr h" using bhl_get_total [OF b(1) _ b(2)] by auto
  have g: "\<forall>g \<in> set gs. 0 \<le> g \<and> g < 4294967296" using gs by (simp add: groups_ok_def)
  from get_cached_block_spec [OF ix g, of h] show ?thesis
  proof (elim disjE exE conjE)
    fix bs assume bs: "get_cached_block p h gs = Inr (Some bs)" "list_all2 (holds_hash p h) gs bs"
    have "bs \<noteq> []" using bs(2) gs by (auto simp: groups_ok_def)
    then have "lookup_block p hl gs (int k) = Inr (Some bs)"
      using bs(1) h by (simp add: lookup_block_def split: list.splits)
    moreover have "list_all2 (\<lambda>g b. entry_hit p hl g k b) gs bs"
      using bs(2) h by (auto simp: entry_hit_def list_all2_conv_all_nth)
    moreover from this have "hit_at p hl gs k"
      unfolding hit_at_def by (metis in_set_conv_nth list_all2_conv_all_nth)
    ultimately show ?thesis by blast
  next
    assume "get_cached_block p h gs = Inr None" "\<exists>g \<in> set gs. \<forall>b. \<not> holds_hash p h g b"
    then show ?thesis using h by (auto simp: lookup_block_def hit_at_def entry_hit_def)
  qed
qed

lemma hit_lists_first:
  assumes "hit_lists p hl gs nulls L computed" "gs \<noteq> []"
  shows "\<exists>c cs. computed = c # cs \<and> length c = L" "py_index computed 0 = Inr (hd computed)"
    "length (hd computed) = L"
  using assms by (cases computed; cases gs; auto simp: hit_lists_def py_index_def)+

lemma pop_each_spec:
  assumes "hit_lists p hl gs nulls (Suc L) computed"
  shows "\<exists>computed'. pop_each computed = Inr computed' \<and> hit_lists p hl gs nulls L computed'"
proof -
  have "[] \<notin> set computed"
    using assms by (auto simp: hit_lists_def list_all2_conv_all_nth in_set_conv_nth)
  then have "pop_each computed = Inr (map butlast computed)" by (simp add: pop_each_def)
  moreover have "hit_lists p hl gs nulls L (map butlast computed)"
    using assms unfolding hit_lists_def by (rule list_all2_map_right) (auto simp: nth_butlast)
  ultimately show ?thesis by blast
qed

text \<open>The alignment loop stops at the greatest aligned length below.\<close>

definition aligned :: "int \<Rightarrow> int \<Rightarrow> nat \<Rightarrow> bool" where
  "aligned block_size alignment L \<longleftrightarrow> block_size = alignment \<or> int L * block_size mod alignment = 0"

lemma aligned_0 [simp]: "aligned b a 0" by (simp add: aligned_def)

lemma greatest_hit_step: "greatest_hit V k L \<Longrightarrow> \<not> V (Suc k) \<Longrightarrow> greatest_hit V (Suc k) L"
  unfolding greatest_hit_def by (metis le_Suc_eq)

lemma align_loop_spec:
  assumes "hit_lists p hl gs nulls k computed" "gs \<noteq> []" "alignment \<noteq> 0"
  shows "\<exists>L computed'. align_loop k block_size alignment computed = Inr computed'
    \<and> hit_lists p hl gs nulls L computed' \<and> greatest_hit (aligned block_size alignment) k L"
  using assms(1)
proof (induction k arbitrary: computed)
  case 0
  note f = hit_lists_first [OF 0 assms(2)]
  have "align_loop 0 block_size alignment computed = Inr computed"
    using f assms(3) by (simp add: align_loop.simps)
  then show ?case using 0 by (auto simp: greatest_hit_def)
next
  case (Suc k)
  note f = hit_lists_first [OF Suc.prems assms(2)]
  show ?case
  proof (cases "aligned block_size alignment (Suc k)")
    case True
    then have "align_loop (Suc k) block_size alignment computed = Inr computed"
      using f assms(3) by (auto simp: align_loop.simps aligned_def)
    then show ?thesis using Suc.prems True by (auto simp: greatest_hit_def)
  next
    case False
    obtain computed1 where c1: "pop_each computed = Inr computed1" "hit_lists p hl gs nulls k computed1"
      using pop_each_spec [OF Suc.prems] by blast
    have "align_loop (Suc k) block_size alignment computed = align_loop k block_size alignment computed1"
      using f False c1(1) assms(3) by (subst align_loop.simps) (simp add: aligned_def)
    then show ?thesis using Suc.IH [OF c1(2)] False greatest_hit_step by fastforce
  qed
qed

lemma align_hit_spec:
  assumes "hit_lists p hl gs nulls k computed" "gs \<noteq> []" "alignment \<noteq> 0"
  shows "\<exists>L computed'. align_hit block_size alignment computed = Inr computed'
    \<and> hit_lists p hl gs nulls L computed' \<and> greatest_hit (aligned block_size alignment) k L"
proof -
  obtain c cs where "computed = c # cs" "length c = k" using hit_lists_first(1) [OF assms(1,2)] by blast
  then show ?thesis using align_loop_spec [OF assms] by (simp add: align_hit_def)
qed

subsection \<open>Full attention\<close>

definition prefix_hit :: "block_pool \<Rightarrow> block_hash_list \<Rightarrow> int list \<Rightarrow> nat \<Rightarrow> bool" where
  "prefix_hit p hl gs L \<longleftrightarrow> (\<forall>k < L. hit_at p hl gs k)"

lemma full_hit_loop_spec:
  assumes ix: "index_inv p" and gs: "groups_ok gs" and wf: "bhl_wf hl" and m: "int m \<le> bhl_length hl"
    and "k \<le> m" "hit_lists p hl gs 0 k computed" "prefix_hit p hl gs k"
  shows "\<exists>L computed'. full_hit_loop p hl gs (map int [k ..< m]) computed = Inr computed'
    \<and> hit_lists p hl gs 0 L computed' \<and> greatest_hit (prefix_hit p hl gs) m L"
  using assms(5-7)
proof (induction "m - k" arbitrary: k computed)
  case 0
  then have "k = m" by simp
  then show ?case using 0 by (auto simp: greatest_hit_def)
next
  case (Suc d)
  then have k: "k < m" "[k ..< m] = k # [Suc k ..< m]" by (simp_all add: upt_conv_Cons)
  have "int k < bhl_length hl" using k m by simp
  from lookup_block_spec [OF ix gs wf this] show ?case
  proof (elim disjE exE conjE)
    fix hits assume h: "lookup_block p hl gs (int k) = Inr (Some hits)"
      "list_all2 (\<lambda>g b. entry_hit p hl g k b) gs hits" "hit_at p hl gs k"
    have "hit_lists p hl gs 0 (Suc k) (map2 (\<lambda>comp b. comp @ [b]) computed hits)"
      using Suc.prems(2) h(2) unfolding hit_lists_def
      by (rule list_all2_map2) (auto simp: nth_append less_Suc_eq)
    moreover have "prefix_hit p hl gs (Suc k)" using Suc.prems(3) h(3) by (simp add: prefix_hit_def less_Suc_eq)
    ultimately show ?thesis using Suc.hyps(1) [of "Suc k"] Suc.hyps(2) k h(1) by simp
  next
    assume h: "lookup_block p hl gs (int k) = Inr None" "\<not> hit_at p hl gs k"
    have "\<not> prefix_hit p hl gs L'" if "k < L'" for L' using that h(2) by (auto simp: prefix_hit_def)
    then have "greatest_hit (prefix_hit p hl gs) m k" using Suc.prems k by (simp add: greatest_hit_def)
    then show ?thesis using h(1) k Suc.prems(2) by auto
  qed
qed

lemma map_int_upt: "map int [0 ..< n] = [0 .. int n - 1]"
  by (induction n) (simp_all add: upto_rec2)

definition eagle_drop :: "bool \<Rightarrow> nat \<Rightarrow> nat" where
  "eagle_drop use_eagle k = (if use_eagle then k - 1 else k)"

lemma eagle_pop_spec:
  assumes "hit_lists p hl gs nulls k computed" "gs \<noteq> []"
  shows "\<exists>computed'. (if use_eagle then ebind (py_index computed 0) (\<lambda>c.
        if c \<noteq> [] then pop_each computed else Inr computed) else Inr computed) = Inr computed'
      \<and> hit_lists p hl gs nulls (eagle_drop use_eagle k) computed'"
proof (cases "use_eagle \<and> k \<noteq> 0")
  case True
  then obtain k' where k: "k = Suc k'" by (cases k) auto
  have "hd computed \<noteq> []" using hit_lists_first(3) [OF assms] k by auto
  then show ?thesis
    using True k pop_each_spec [of p hl gs nulls k' computed] assms hit_lists_first(2) [OF assms]
    by (auto simp: eagle_drop_def)
next
  case False
  then have "use_eagle \<Longrightarrow> hd computed = []" using hit_lists_first(3) [OF assms] by auto
  then show ?thesis
    using False assms hit_lists_first(2) [OF assms] by (auto simp: eagle_drop_def)
qed

lemma full_find_spec:
  fixes dcp pcp :: int
  assumes ix: "index_inv p" and gs: "groups_ok gs" and wf: "bhl_wf hl"
    and sp: "is_full_attention spec" and len: "0 \<le> max_length" "0 \<le> bhl_length hl"
    and al: "alignment \<noteq> 0"
  defines "bs \<equiv> (if dcp * pcp > 1 then spec_block_size spec * (dcp * pcp) else spec_block_size spec)"
  assumes bs: "0 < bs"
  defines "m \<equiv> nat (min (max_length div bs) (bhl_length hl))"
  shows "\<exists>k L computed. full_find_longest_cache_hit p hl max_length gs spec use_eagle alignment dcp pcp = Inr computed
    \<and> hit_lists p hl gs 0 L computed \<and> greatest_hit (prefix_hit p hl gs) m k
    \<and> greatest_hit (aligned bs alignment) (eagle_drop use_eagle k) L"
proof -
  have gne: "gs \<noteq> []" using gs by (simp add: groups_ok_def)
  have q: "0 \<le> max_length div bs" using len bs by (simp add: pos_imp_zdiv_nonneg_iff)
  have m: "int m \<le> bhl_length hl" "int m = min (max_length div bs) (bhl_length hl)" using len q by (auto simp: m_def)
  have "hit_lists p hl gs 0 0 (map (\<lambda>_. []) gs)" unfolding hit_lists_def by (rule list_all2_const) simp
  moreover have "prefix_hit p hl gs 0" by (simp add: prefix_hit_def)
  ultimately obtain k c where c: "full_hit_loop p hl gs (map int [0 ..< m]) (map (\<lambda>_. []) gs) = Inr c"
      "hit_lists p hl gs 0 k c" "greatest_hit (prefix_hit p hl gs) m k"
    using full_hit_loop_spec [OF ix gs wf m(1) le0] by blast
  obtain c1 where c1: "(if use_eagle then ebind (py_index c 0) (\<lambda>x.
        if x \<noteq> [] then pop_each c else Inr c) else Inr c) = Inr c1"
      "hit_lists p hl gs 0 (eagle_drop use_eagle k) c1"
    using eagle_pop_spec [OF c(2) gne] by blast
  obtain L c2 where c2: "align_hit bs alignment c1 = Inr c2" "hit_lists p hl gs 0 L c2"
      "greatest_hit (aligned bs alignment) (eagle_drop use_eagle k) L"
    using align_hit_spec [OF c1(2) gne al] by blast
  have "full_find_longest_cache_hit p hl max_length gs spec use_eagle alignment dcp pcp = Inr c2"
    using sp bs q c(1) c1(1) c2(1)
    unfolding full_find_longest_cache_hit_def bs_def [symmetric] Let_def
    by (simp add: py_range_def m(2) [symmetric] map_int_upt)
  then show ?thesis using c(3) c2 by blast
qed

subsection \<open>Sliding window\<close>

text \<open>A length is valid when it is aligned and the \<open>need\<close> blocks before it are hits.\<close>

definition window_hit :: "block_pool \<Rightarrow> block_hash_list \<Rightarrow> int list \<Rightarrow> int \<Rightarrow> int \<Rightarrow> nat \<Rightarrow> nat \<Rightarrow> bool" where
  "window_hit p hl gs bs alignment need L \<longleftrightarrow>
     aligned bs alignment L \<and> (\<forall>k < L. L \<le> k + need \<longrightarrow> hit_at p hl gs k)"

definition run_ok :: "block_pool \<Rightarrow> block_hash_list \<Rightarrow> int list \<Rightarrow> nat \<Rightarrow> nat \<Rightarrow> nat \<Rightarrow> bref list list \<Rightarrow> bool" where
  "run_ok p hl gs m i n computed \<longleftrightarrow>
     list_all2 (\<lambda>g c. length c = m \<and>
       (\<forall>k < i + n. if k < i then c ! k = null_block p else entry_hit p hl g k (c ! k))) gs computed"

lemma run_ok_take:
  assumes "run_ok p hl gs m i n computed" "i + n \<le> m"
  shows "hit_lists p hl gs i (i + n) (map (take (i + n)) computed)"
  using assms(1) unfolding hit_lists_def run_ok_def
  by (rule list_all2_map_right) (use assms(2) in auto)

lemma run_ok_miss: "run_ok p hl gs m (Suc i) n computed \<Longrightarrow> run_ok p hl gs m i 0 computed"
  unfolding run_ok_def by (erule list_all2_mono) auto

lemma run_ok_hit:
  assumes "run_ok p hl gs m (Suc i) n computed" "list_all2 (\<lambda>g b. entry_hit p hl g i b) gs hits" "i < m"
  shows "run_ok p hl gs m i (Suc n) (map2 (\<lambda>comp b. comp[i := b]) computed hits)"
  using assms(1,2) unfolding run_ok_def
  by (rule list_all2_map2) (use assms(3) in \<open>auto simp: nth_list_update less_Suc_eq\<close>)

lemma sliding_hit_loop_spec:
  fixes need :: nat
  assumes ix: "index_inv p" and gs: "groups_ok gs" and wf: "bhl_wf hl" and m: "int m \<le> bhl_length hl"
    and al: "alignment \<noteq> 0" and need: "0 < need" and nd: "nd = int need \<or> nd \<le> 0 \<and> need = 1"
    and "i + n \<le> m" "n < need" "run_ok p hl gs m i n computed"
    and "0 < n \<longrightarrow> aligned bs alignment (i + n)" "\<forall>k. i \<le> k \<and> k < i + n \<longrightarrow> hit_at p hl gs k"
    and "\<forall>L. i + n < L \<and> L \<le> m \<longrightarrow> \<not> window_hit p hl gs bs alignment need L"
  shows "\<exists>computed' n' found. sliding_hit_loop p hl gs bs alignment nd (rev [0 ..< i]) computed (int n)
      = Inr (computed', n', found)
    \<and> (if found then \<exists>L. hit_lists p hl gs (L - need) L computed' \<and> need \<le> L
          \<and> greatest_hit (window_hit p hl gs bs alignment need) m L
       else \<exists>L. n' = int L \<and> L < need \<and> run_ok p hl gs m 0 L computed'
          \<and> greatest_hit (window_hit p hl gs bs alignment need) m L)"
  using assms(8-)
proof (induction i arbitrary: n computed)
  case 0
  have "window_hit p hl gs bs alignment need n"
    using 0 by (cases "n = 0") (auto simp: window_hit_def)
  then have "greatest_hit (window_hit p hl gs bs alignment need) m n" using 0 by (auto simp: greatest_hit_def)
  then show ?case using 0 by auto
next
  case (Suc i)
  have im: "i < m" "int i < bhl_length hl" using Suc.prems(1) m by auto
  have rv: "rev [0 ..< Suc i] = i # rev [0 ..< i]" by simp
  from lookup_block_spec [OF ix gs wf im(2)] show ?case
  proof (elim disjE exE conjE)
    fix hits assume h: "lookup_block p hl gs (int i) = Inr (Some hits)"
      "list_all2 (\<lambda>g b. entry_hit p hl g i b) gs hits" "hit_at p hl gs i"
    show ?thesis
    proof (cases "n = 0 \<and> \<not> aligned bs alignment (Suc i)")
      case True
      have "\<forall>L. i + 0 < L \<and> L \<le> m \<longrightarrow> \<not> window_hit p hl gs bs alignment need L"
        using Suc.prems(6) True by (auto simp: window_hit_def) (metis Suc_lessI window_hit_def)
      moreover have "run_ok p hl gs m i 0 computed" using Suc.prems(3) by (rule run_ok_miss)
      moreover have "bs \<noteq> alignment" "(int i + 1) * bs mod alignment \<noteq> 0"
        using True by (auto simp: aligned_def algebra_simps)
      then have step: "sliding_hit_loop p hl gs bs alignment nd (rev [0 ..< Suc i]) computed (int n)
          = sliding_hit_loop p hl gs bs alignment nd (rev [0 ..< i]) computed (int 0)"
        using h(1) True al by (simp add: rv)
      ultimately show ?thesis
        unfolding step using need im(1) by (intro Suc.IH) auto
    next
      case False
      let ?c = "map2 (\<lambda>comp b. comp[i := b]) computed hits"
      have go: "(if int n = 0 \<and> bs \<noteq> alignment
          then (if alignment = 0 then Inl ZeroDivisionError else Inr ((int i + 1) * bs mod alignment \<noteq> 0))
          else Inr False) = Inr False"
        using False al by (auto simp: aligned_def algebra_simps)
      have run: "run_ok p hl gs m i (Suc n) ?c" by (rule run_ok_hit [OF Suc.prems(3) h(2) im(1)])
      have hits: "\<forall>k. i \<le> k \<and> k < i + Suc n \<longrightarrow> hit_at p hl gs k"
        using Suc.prems(5) h(3) by (metis add_Suc_right add_Suc Suc_leI le_neq_implies_less)
      have alg: "aligned bs alignment (i + Suc n)" using False Suc.prems(4) by auto
      show ?thesis
      proof (cases "int n + 1 \<ge> nd")
        case True
        then have n: "need = Suc n" using nd Suc.prems(2) by auto
        have "window_hit p hl gs bs alignment need (i + Suc n)"
          using alg hits n by (auto simp: window_hit_def)
        then have "greatest_hit (window_hit p hl gs bs alignment need) m (i + Suc n)"
          using Suc.prems(1,6) by (simp add: greatest_hit_def)
        moreover have "hit_lists p hl gs (i + Suc n - need) (i + Suc n) (map (take (i + Suc n)) ?c)"
          using run_ok_take [OF run] Suc.prems(1) n by simp
        ultimately have ex: "\<exists>L. hit_lists p hl gs (L - need) L (map (take (i + Suc n)) ?c) \<and> need \<le> L
            \<and> greatest_hit (window_hit p hl gs bs alignment need) m L"
          using n by (intro exI [of _ "i + Suc n"]) auto
        have "nat (int i + (int n + 1)) = i + Suc n" by simp
        then have pt: "(\<lambda>comp. py_take comp (int i + (int n + 1))) = (take (i + Suc n) :: bref list \<Rightarrow> bref list)"
          by (simp add: py_take_nonneg fun_eq_iff)
        have res: "sliding_hit_loop p hl gs bs alignment nd (rev [0 ..< Suc i]) computed (int n)
            = Inr (map (take (i + Suc n)) ?c, int n + 1, True)"
          using True go h(1) by (simp add: rv Let_def pt del: map_map)
        show ?thesis unfolding res
          by (rule exI, rule exI, rule exI, rule conjI, rule refl) (simp only: if_True ex)
      next
        case False': False
        then have "Suc n < need" using nd Suc.prems(2) need by auto
        moreover have step: "sliding_hit_loop p hl gs bs alignment nd (rev [0 ..< Suc i]) computed (int n)
            = sliding_hit_loop p hl gs bs alignment nd (rev [0 ..< i]) ?c (int (Suc n))"
          using False' go h(1) by (simp add: rv Let_def add.commute)
        ultimately show ?thesis
          unfolding step using Suc.prems(1,6) run hits alg by (intro Suc.IH) auto
      qed
    qed
  next
    assume h: "lookup_block p hl gs (int i) = Inr None" "\<not> hit_at p hl gs i"
    have "\<not> window_hit p hl gs bs alignment need L" if "i < L" "L \<le> m" for L
    proof (cases "Suc i + n < L")
      case True
      then show ?thesis using Suc.prems(6) that by simp
    next
      case False
      then have "L \<le> i + need" using Suc.prems(2) by simp
      then show ?thesis using h(2) that(1) by (auto simp: window_hit_def)
    qed
    moreover have "run_ok p hl gs m i 0 computed" using Suc.prems(3) by (rule run_ok_miss)
    moreover have step: "sliding_hit_loop p hl gs bs alignment nd (rev [0 ..< Suc i]) computed (int n)
        = sliding_hit_loop p hl gs bs alignment nd (rev [0 ..< i]) computed (int 0)"
      using h(1) by (simp add: rv)
    ultimately show ?thesis unfolding step using need im(1) by (intro Suc.IH) auto
  qed
qed

definition window_need :: "int \<Rightarrow> int \<Rightarrow> bool \<Rightarrow> nat" where
  "window_need window block_size use_eagle =
     (let n = cdiv (window - 1) block_size in nat (max 1 (if use_eagle then n + 1 else n)))"

lemma greatest_alignedI: "aligned bs al L \<Longrightarrow> greatest_hit (aligned bs al) k L' \<Longrightarrow> L \<le> k \<Longrightarrow> L \<le> L'"
  unfolding greatest_hit_def by (meson not_le)

lemma run_ok_take_py:
  "run_ok p hl gs m 0 n computed \<Longrightarrow> n \<le> m \<Longrightarrow> hit_lists p hl gs 0 n (map (\<lambda>comp. py_take comp (int n)) computed)"
  using run_ok_take [of p hl gs m 0 n computed] by (simp add: py_take_nonneg)

lemma hit_lists_nulls_mono: "hit_lists p hl gs a 0 c \<Longrightarrow> hit_lists p hl gs b 0 c"
  by (simp add: hit_lists_def)

lemma sliding_find_spec:
  fixes window max_length :: int
  assumes ix: "index_inv p" and gs: "groups_ok gs" and wf: "bhl_wf hl"
    and bs: "0 < at_block_size a" and al: "alignment \<noteq> 0"
    and len: "max_length div at_block_size a \<le> bhl_length hl" "0 \<le> bhl_length hl"
    and eagle: "use_eagle \<longrightarrow> at_block_size a = alignment"
  defines "need \<equiv> window_need window (at_block_size a) use_eagle"
    and "m \<equiv> nat (max_length div at_block_size a)"
  shows "\<exists>L computed. sliding_find_longest_cache_hit p hl max_length gs (SlidingWindowSpec a window)
        use_eagle alignment 1 1 = Inr computed
    \<and> hit_lists p hl gs (L - need) (eagle_drop use_eagle L) computed
    \<and> greatest_hit (window_hit p hl gs (at_block_size a) alignment need) m L"
proof -
  let ?bs = "at_block_size a" and ?V = "window_hit p hl gs (at_block_size a) alignment need"
  have gne: "gs \<noteq> []" using gs by (simp add: groups_ok_def)
  have m: "int m \<le> bhl_length hl" using len by (simp add: m_def)
  define nd where "nd = (if use_eagle then cdiv (window - 1) ?bs + 1 else cdiv (window - 1) ?bs)"
  have need: "0 < need" "nd = int need \<or> nd \<le> 0 \<and> need = 1"
    by (auto simp: need_def window_need_def nd_def Let_def max_def)
  have ndeq: "sliding_contiguous_blocks window ?bs use_eagle = Inr nd"
    using bs by (simp add: sliding_contiguous_blocks_def nd_def)
  have run0: "run_ok p hl gs m m 0 (map (\<lambda>_. replicate m (null_block p)) gs)"
    unfolding run_ok_def by (rule list_all2_const) simp
  have "\<exists>computed' n' found. sliding_hit_loop p hl gs ?bs alignment nd (rev [0 ..< m])
      (map (\<lambda>_. replicate m (null_block p)) gs) (int 0) = Inr (computed', n', found)
    \<and> (if found then \<exists>L. hit_lists p hl gs (L - need) L computed' \<and> need \<le> L \<and> greatest_hit ?V m L
       else \<exists>L. n' = int L \<and> L < need \<and> run_ok p hl gs m 0 L computed' \<and> greatest_hit ?V m L)"
    by (rule sliding_hit_loop_spec [OF ix gs wf m al need]) (use need run0 in auto)
  then obtain c n f where loop: "sliding_hit_loop p hl gs ?bs alignment nd (rev [0 ..< m])
      (map (\<lambda>_. replicate m (null_block p)) gs) 0 = Inr (c, n, f)"
    and cases: "if f then \<exists>L. hit_lists p hl gs (L - need) L c \<and> need \<le> L \<and> greatest_hit ?V m L
       else \<exists>L. n = int L \<and> L < need \<and> run_ok p hl gs m 0 L c \<and> greatest_hit ?V m L" by auto
  obtain L c1 where c1: "(if f then Inr c else align_hit ?bs alignment (map (\<lambda>comp. py_take comp n) c)) = Inr c1"
      "hit_lists p hl gs (L - need) L c1" "greatest_hit ?V m L"
  proof (cases f)
    case True
    then show ?thesis using cases that by auto
  next
    case False
    then obtain L where L: "n = int L" "L < need" "run_ok p hl gs m 0 L c" "greatest_hit ?V m L"
      using cases by auto
    have Lm: "L \<le> m" "aligned ?bs alignment L" using L(4) by (auto simp: greatest_hit_def window_hit_def)
    obtain L' c1 where r: "align_hit ?bs alignment (map (\<lambda>comp. py_take comp n) c) = Inr c1"
        "hit_lists p hl gs 0 L' c1" "greatest_hit (aligned ?bs alignment) L L'"
      using align_hit_spec [OF run_ok_take_py [OF L(3) Lm(1)] gne al] L(1) by blast
    have "L' = L"
      using greatest_alignedI [OF Lm(2) r(3) le_refl] r(3) by (simp add: greatest_hit_def)
    then show ?thesis using that [of c1 L] r L False by simp
  qed
  obtain c2 where c2: "(if use_eagle then ebind (py_index c1 0) (\<lambda>x.
        if x \<noteq> [] then ebind (eassert (?bs = alignment)) (\<lambda>_. pop_each c1) else Inr c1) else Inr c1) = Inr c2"
      "hit_lists p hl gs (L - need) (eagle_drop use_eagle L) c2"
    using eagle_pop_spec [OF c1(2) gne, of use_eagle] eagle by (cases use_eagle) (auto cong: if_cong)
  have "sliding_find_longest_cache_hit p hl max_length gs (SlidingWindowSpec a window) use_eagle alignment 1 1 = Inr c2"
    using bs ndeq loop c1(1) c2(1)
    by (simp add: sliding_find_longest_cache_hit_def m_def Let_def)
  then show ?thesis using c1(3) c2(2) by blast
qed

subsection \<open>Chunked local attention\<close>

lemma chunked_hit_loop_eq: "chunked_hit_loop p hl gs is computed = full_hit_loop p hl gs is computed"
  by (induction p hl gs "is" computed rule: chunked_hit_loop.induct) (auto simp: ebind_def split: sum.splits option.splits)

text \<open>A length is valid when the blocks from the start of the chunk on are hits.\<close>

definition range_hit :: "block_pool \<Rightarrow> block_hash_list \<Rightarrow> int list \<Rightarrow> nat \<Rightarrow> nat \<Rightarrow> bool" where
  "range_hit p hl gs s L \<longleftrightarrow> s \<le> L \<and> (\<forall>k. s \<le> k \<and> k < L \<longrightarrow> hit_at p hl gs k)"

lemma range_hit_loop_spec:
  assumes ix: "index_inv p" and gs: "groups_ok gs" and wf: "bhl_wf hl" and m: "int m \<le> bhl_length hl"
    and "k \<le> m" "hit_lists p hl gs s k computed" "range_hit p hl gs s k"
  shows "\<exists>L computed'. full_hit_loop p hl gs (map int [k ..< m]) computed = Inr computed'
    \<and> hit_lists p hl gs s L computed' \<and> greatest_hit (range_hit p hl gs s) m L"
  using assms(5-7)
proof (induction "m - k" arbitrary: k computed)
  case 0
  then have "k = m" by simp
  then show ?case using 0 by (auto simp: greatest_hit_def)
next
  case (Suc d)
  then have k: "k < m" "[k ..< m] = k # [Suc k ..< m]" by (simp_all add: upt_conv_Cons)
  have sk: "s \<le> k" using Suc.prems(3) by (simp add: range_hit_def)
  have "int k < bhl_length hl" using k m by simp
  from lookup_block_spec [OF ix gs wf this] show ?case
  proof (elim disjE exE conjE)
    fix hits assume h: "lookup_block p hl gs (int k) = Inr (Some hits)"
      "list_all2 (\<lambda>g b. entry_hit p hl g k b) gs hits" "hit_at p hl gs k"
    have "hit_lists p hl gs s (Suc k) (map2 (\<lambda>comp b. comp @ [b]) computed hits)"
      using Suc.prems(2) h(2) unfolding hit_lists_def
      by (rule list_all2_map2) (use sk in \<open>auto simp: nth_append less_Suc_eq\<close>)
    moreover have "range_hit p hl gs s (Suc k)" using Suc.prems(3) h(3) by (auto simp: range_hit_def less_Suc_eq)
    ultimately show ?thesis using Suc.hyps(1) [of "Suc k"] Suc.hyps(2) k h(1) by simp
  next
    assume h: "lookup_block p hl gs (int k) = Inr None" "\<not> hit_at p hl gs k"
    have "\<not> range_hit p hl gs s L'" if "k < L'" for L' using that h(2) sk by (auto simp: range_hit_def)
    then have "greatest_hit (range_hit p hl gs s) m k" using Suc.prems k by (simp add: greatest_hit_def)
    then show ?thesis using h(1) k Suc.prems(2) by auto
  qed
qed

definition chunk_start_block :: "int \<Rightarrow> int \<Rightarrow> int \<Rightarrow> int" where
  "chunk_start_block chunk block_size max_length =
     (if max_length > 0 then max_length div chunk * chunk div block_size else 0)"

lemma map_int_upt_from: "map int [a ..< b] = [int a .. int b - 1]"
proof (induction b)
  case (Suc b)
  then show ?case by (cases "a \<le> b") (simp_all add: upto_rec2)
qed simp

lemma chunked_find_spec:
  fixes chunk max_length :: int
  assumes ix: "index_inv p" and gs: "groups_ok gs" and wf: "bhl_wf hl"
    and bs: "0 < at_block_size a" and chunk: "0 < chunk" and ml: "0 \<le> max_length"
    and len: "max_length div at_block_size a \<le> bhl_length hl"
  defines "m \<equiv> nat (max_length div at_block_size a)"
    and "s \<equiv> nat (chunk_start_block chunk (at_block_size a) max_length)"
  shows "\<exists>L computed. chunked_find_longest_cache_hit p hl max_length gs (ChunkedLocalAttentionSpec a chunk)
        False (at_block_size a) 1 1 = Inr computed
    \<and> hit_lists p hl gs s L computed \<and> greatest_hit (range_hit p hl gs s) m L"
proof -
  let ?bs = "at_block_size a"
  let ?st = "chunk_start_block chunk ?bs max_length"
  have q: "0 \<le> max_length div ?bs" using ml bs by (simp add: pos_imp_zdiv_nonneg_iff)
  then have m: "int m \<le> bhl_length hl" "int m = max_length div ?bs" using len by (simp_all add: m_def)
  have c0: "0 \<le> max_length div chunk" using ml chunk by (simp add: pos_imp_zdiv_nonneg_iff)
  have c1: "max_length div chunk * chunk \<le> max_length"
    using div_mult_mod_eq [of max_length chunk] pos_mod_sign [OF chunk, of max_length] by linarith
  have st: "0 \<le> ?st" "?st \<le> max_length div ?bs"
    using c0 c1 bs chunk q by (auto simp: chunk_start_block_def pos_imp_zdiv_nonneg_iff zdiv_mono1)
  then have s: "int s = ?st" "s \<le> m" by (auto simp: s_def m_def nat_le_eq_zle)
  have h0: "hit_lists p hl gs s s (map (\<lambda>_. replicate s (null_block p)) gs)"
    unfolding hit_lists_def by (rule list_all2_const) simp
  have "range_hit p hl gs s s" by (auto simp: range_hit_def)
  then obtain L c where c: "full_hit_loop p hl gs (map int [s ..< m]) (map (\<lambda>_. replicate s (null_block p)) gs) = Inr c"
      "hit_lists p hl gs s L c" "greatest_hit (range_hit p hl gs s) m L"
    using range_hit_loop_spec [OF ix gs wf m(1) s(2) h0] by blast
  have "(if max_length > 0 then ebind (pdiv max_length chunk) (\<lambda>k. Inr (k * chunk)) else Inr 0)
      = Inr (if max_length > 0 then max_length div chunk * chunk else 0 :: int)" using chunk by simp
  moreover have "(if max_length > 0 then max_length div chunk * chunk else 0) div ?bs = int s"
    by (simp add: s(1) chunk_start_block_def)
  ultimately have "chunked_find_longest_cache_hit p hl max_length gs (ChunkedLocalAttentionSpec a chunk)
      False ?bs 1 1 = Inr c"
    using bs c(1)
    by (simp add: chunked_find_longest_cache_hit_def chunked_hit_loop_eq py_range_def m(2) [symmetric]
        map_int_upt_from Let_def)
  then show ?thesis using c(2,3) by blast
qed

subsection \<open>Mamba\<close>

text \<open>A length is valid when it is aligned and the block just before it is a hit, or when it is 0.\<close>

definition state_hit :: "block_pool \<Rightarrow> block_hash_list \<Rightarrow> int list \<Rightarrow> int \<Rightarrow> int \<Rightarrow> nat \<Rightarrow> bool" where
  "state_hit p hl gs bs alignment L \<longleftrightarrow> L = 0 \<or> aligned bs alignment L \<and> hit_at p hl gs (L - 1)"

lemma mamba_hit_loop_spec:
  assumes ix: "index_inv p" and gs: "groups_ok gs" and wf: "bhl_wf hl" and m: "int m \<le> bhl_length hl"
    and al: "alignment \<noteq> 0" and "i \<le> m"
    and "\<forall>L. i < L \<and> L \<le> m \<longrightarrow> \<not> state_hit p hl gs bs alignment L"
  shows "\<exists>computed L. mamba_hit_loop p hl gs bs alignment (rev [0 ..< i]) (map (\<lambda>_. []) gs) = Inr computed
    \<and> hit_lists p hl gs (L - 1) L computed \<and> greatest_hit (state_hit p hl gs bs alignment) m L"
  using assms(6-)
proof (induction i)
  case 0
  have "hit_lists p hl gs (0 - 1) 0 (map (\<lambda>_. []) gs)" unfolding hit_lists_def by (rule list_all2_const) simp
  moreover have "greatest_hit (state_hit p hl gs bs alignment) m 0"
    using 0 by (auto simp: greatest_hit_def state_hit_def)
  ultimately show ?case by (intro exI [of _ "map (\<lambda>_. []) gs"] exI [of _ 0]) simp
next
  case (Suc i)
  have im: "int i < bhl_length hl" using Suc.prems(1) m by auto
  have rv: "rev [0 ..< Suc i] = i # rev [0 ..< i]" by simp
  show ?case
  proof (cases "state_hit p hl gs bs alignment (Suc i)")
    case True
    then have a: "aligned bs alignment (Suc i)" and hi: "hit_at p hl gs i" by (auto simp: state_hit_def)
    then obtain hits where h: "lookup_block p hl gs (int i) = Inr (Some hits)"
        "list_all2 (\<lambda>g b. entry_hit p hl g i b) gs hits"
      using lookup_block_spec [OF ix gs wf im] by blast
    let ?c = "map2 (\<lambda>comp b. comp @ replicate i (null_block p) @ [b]) (map (\<lambda>_. []) gs) hits"
    have "list_all2 (\<lambda>g c. c = []) gs (map (\<lambda>_. [] :: bref list) gs)" by (rule list_all2_const) simp
    then have "hit_lists p hl gs (Suc i - 1) (Suc i) ?c"
      using h(2) unfolding hit_lists_def by (rule list_all2_map2) (auto simp: nth_append less_Suc_eq)
    moreover have "greatest_hit (state_hit p hl gs bs alignment) m (Suc i)"
      using True Suc.prems by (simp add: greatest_hit_def)
    moreover have "(if bs \<noteq> alignment
        then (if alignment = 0 then Inl ZeroDivisionError else Inr ((int i + 1) * bs mod alignment \<noteq> 0))
        else Inr False) = Inr False"
      using a al by (auto simp: aligned_def algebra_simps)
    then have "mamba_hit_loop p hl gs bs alignment (rev [0 ..< Suc i]) (map (\<lambda>_. []) gs) = Inr ?c"
      using h(1) by (simp add: rv)
    ultimately show ?thesis by blast
  next
    case False
    have "mamba_hit_loop p hl gs bs alignment (rev [0 ..< Suc i]) (map (\<lambda>_. []) gs)
        = mamba_hit_loop p hl gs bs alignment (rev [0 ..< i]) (map (\<lambda>_. []) gs)"
      using lookup_block_spec [OF ix gs wf im] False al
      by (auto simp: rv state_hit_def aligned_def algebra_simps)
    moreover have "\<forall>L. i < L \<and> L \<le> m \<longrightarrow> \<not> state_hit p hl gs bs alignment L"
      using Suc.prems(2) False by (metis Suc_lessI)
    ultimately show ?thesis using Suc.IH Suc.prems(1) by simp
  qed
qed

lemma mamba_find_spec:
  fixes max_length :: int
  assumes ix: "index_inv p" and gs: "groups_ok gs" and wf: "bhl_wf hl"
    and bs: "0 < mb_block_size ms" and al: "alignment \<noteq> 0"
    and len: "max_length div mb_block_size ms \<le> bhl_length hl" "0 \<le> bhl_length hl"
  defines "m \<equiv> nat (max_length div mb_block_size ms)"
  shows "\<exists>L computed. mamba_find_longest_cache_hit p hl max_length gs (MambaSpec ms) use_eagle alignment 1 1 = Inr computed
    \<and> hit_lists p hl gs (L - 1) L computed
    \<and> greatest_hit (state_hit p hl gs (mb_block_size ms) alignment) m L"
proof -
  have m: "int m \<le> bhl_length hl" using len by (simp add: m_def)
  have "\<forall>L. m < L \<and> L \<le> m \<longrightarrow> \<not> state_hit p hl gs (mb_block_size ms) alignment L" by auto
  from mamba_hit_loop_spec [OF ix gs wf m al le_refl this] show ?thesis
    using bs by (simp add: mamba_find_longest_cache_hit_def m_def) blast
qed

subsection \<open>A pool with one cached block\<close>

lemma example_cached_pool:
  obtains p where "pool_inv p [Blk 1, Blk 2, Blk 3]" "nblocks p = 4" "hash_block_size p = 4" "enable_caching p"
    "holds_hash p [1, 0] 0 (Blk 3)" "\<And>h g b. holds_hash p h g b \<Longrightarrow> b = Blk 3 \<and> h = [1, 0] \<and> g = 0"
    "refs p = (\<lambda>_. 0)"
proof -
  let ?r = "example_request\<lparr>block_hashes := [[1, 0]]\<rparr>"
  obtain p where p: "pool_inv p [Blk 1, Blk 2, Blk 3]" "nblocks p = 4"
    "hash_block_size p = 4" "hash_of p = (\<lambda>_. None)" "enable_caching p" "refs p = (\<lambda>_. 0)" by (rule example_pool)
  have gh: "group_hashes p ?r 4 = PlainHashes [[1, 0]]" using p(3) by (simp add: group_hashes_def)
  from cache_full_blocks_spec [OF p(1), of 0 1 "[Blk 3]" 4 ?r 0 example_env] p(2-4) gh
  obtain p' where p': "static p' = static p" "refs p' = refs p" "pool_inv p' [Blk 1, Blk 2, Blk 3]"
    and hh: "\<forall>i. i \<noteq> 3 \<longrightarrow> hash_of p' i = None" and f: "holds_hash p' [1, 0] 0 (Blk 3)"
    by (auto simp: hash_size_ok_def pool_ref_def py_index_def)
  have only: "b = Blk 3 \<and> h = [1, 0] \<and> g = 0" if h: "holds_hash p' h g b" for h g b
  proof -
    obtain i key where i: "b = Blk i" "hash_of p' i = Some key" "make_block_hash_with_group_id h g = Inr key"
      using h by (auto simp: holds_hash_def)
    have i3: "i = 3" using hh i(2) by (metis option.distinct(1))
    then have "make_block_hash_with_group_id [1, 0] 0 = Inr key" using f i(2) by (auto simp: holds_hash_def)
    from make_block_hash_inj [OF i(3) this] i(1) i3 show ?thesis by simp
  qed
  show ?thesis
  proof (rule that)
    show "pool_inv p' [Blk 1, Blk 2, Blk 3]" by (rule p'(3))
    show "nblocks p' = 4" "hash_block_size p' = 4" "enable_caching p'" "refs p' = (\<lambda>_. 0)"
      using p p'(2) staticD(2,3,9) [OF p'(1)] by simp_all
  qed (fact f only)+
qed

lemma greatest_hit_eq:
  assumes "greatest_hit V m L" "V k" "k \<le> m" "\<And>j. k < j \<Longrightarrow> j \<le> m \<Longrightarrow> \<not> V j"
  shows "L = k"
proof (rule ccontr)
  assume "L \<noteq> k"
  then consider "L < k" | "k < L" by linarith
  then show False using assms by cases (auto simp: greatest_hit_def)
qed

subsection \<open>Properties\<close>

text \<open>
  C22: Full attention: the search returns the longest prefix of the request's blocks, within the length
  asked for, all of which are cached for every group; with Eagle the last of them is dropped, and
  the result is shortened to the greatest aligned length.  It never raises.
\<close>

theorem full_attention_longest_hit:
  fixes dcp pcp :: int
  assumes "pool_inv p xs" and gs: "groups_ok gs" and wf: "bhl_wf hl" "0 \<le> bhl_length hl"
    and sp: "is_full_attention spec" and len: "0 \<le> max_length" and al: "alignment \<noteq> 0"
  defines "bs \<equiv> (if dcp * pcp > 1 then spec_block_size spec * (dcp * pcp) else spec_block_size spec)"
  assumes bs: "0 < bs"
  shows "\<exists>k L computed. full_find_longest_cache_hit p hl max_length gs spec use_eagle alignment dcp pcp = Inr computed
    \<and> hit_lists p hl gs 0 L computed
    \<and> greatest_hit (prefix_hit p hl gs) (nat (min (max_length div bs) (bhl_length hl))) k
    \<and> greatest_hit (aligned bs alignment) (eagle_drop use_eagle k) L"
  using full_find_spec [OF pool_coreD(10) [OF assms(1)] gs wf(1) sp len wf(2) al, of dcp pcp use_eagle] bs
  unfolding bs_def by blast

abbreviation example_attention :: attention_fields where
  "example_attention \<equiv> \<lparr>at_block_size = 4, num_kv_heads = 1, head_size = 1, at_dtype = ''f'', at_page_size_padded = None\<rparr>"

theorem full_attention_longest_hit_witness:
  "\<exists>p. holds_hash p [1, 0] 0 (Blk 3)
    \<and> full_find_longest_cache_hit p (PlainHashes [[1, 0], [1, 1, 0]]) 11 [0]
        (FullAttentionSpec example_attention 1 None None) False 4 1 1 = Inr [[Blk 3]]"
proof -
  let ?hl = "PlainHashes [[1, 0], [1, 1, 0]]" and ?s = "FullAttentionSpec example_attention 1 None None"
  obtain p where p: "pool_inv p [Blk 1, Blk 2, Blk 3]" "holds_hash p [1, 0] 0 (Blk 3)"
    and only: "\<And>h g b. holds_hash p h g b \<Longrightarrow> b = Blk 3 \<and> h = [1, 0] \<and> g = 0" by (rule example_cached_pool) blast
  from full_attention_longest_hit [OF p(1), of "[0]" ?hl ?s 11 4 1 1 False]
  obtain k L computed where f: "full_find_longest_cache_hit p ?hl 11 [0] ?s False 4 1 1 = Inr computed"
    and h: "hit_lists p ?hl [0] 0 L computed" "greatest_hit (prefix_hit p ?hl [0]) 2 k" "greatest_hit (aligned 4 4) k L"
    by (auto simp: groups_ok_def bhl_wf_def eagle_drop_def)
  have hit0: "entry_hit p ?hl 0 0 b \<longleftrightarrow> b = Blk 3" for b
    using p(2) only [of "[1, 0]" 0 b] by (auto simp: entry_hit_def py_index_def)
  have hit1: "\<not> entry_hit p ?hl 0 1 b" for b
    using only [of "[1, 1, 0]" 0 b] by (auto simp: entry_hit_def py_index_def)
  have hit: "hit_at p ?hl [0] 0" "\<not> hit_at p ?hl [0] 1" using hit0 hit1 by (simp_all add: hit_at_def)
  have pre: "prefix_hit p ?hl [0] 1" "\<not> prefix_hit p ?hl [0] 2" using hit by (auto simp: prefix_hit_def numeral_2_eq_2 less_Suc_eq)
  have "k = 1" by (rule greatest_hit_eq [OF h(2) pre(1)]) (use pre(2) in \<open>auto simp: le_Suc_eq numeral_2_eq_2\<close>)
  moreover have "L = k" by (rule greatest_hit_eq [OF h(3)]) (simp_all add: aligned_def)
  ultimately have "L = 1" by simp
  then obtain b where "computed = [[b]]" "entry_hit p ?hl 0 0 b" using h(1)
    by (auto simp: hit_lists_def list_all2_Cons1 length_Suc_conv)
  moreover have "b = Blk 3" using calculation(2) hit0 by simp
  ultimately show ?thesis using p(2) f by blast
qed

text \<open>
  C21: Sliding window: the search returns the longest aligned prefix whose last blocks, as many as the
  window needs, are cached for every group; the blocks before them are null blocks.  With Eagle
  one more block is needed and the last one is dropped.
\<close>

theorem sliding_window_longest_hit:
  fixes window max_length :: int
  assumes "pool_inv p xs" and gs: "groups_ok gs" and wf: "bhl_wf hl"
    and bs: "0 < at_block_size a" and al: "alignment \<noteq> 0"
    and len: "max_length div at_block_size a \<le> bhl_length hl" "0 \<le> bhl_length hl"
    and eagle: "use_eagle \<longrightarrow> at_block_size a = alignment"
  defines "need \<equiv> window_need window (at_block_size a) use_eagle"
  shows "\<exists>L computed. sliding_find_longest_cache_hit p hl max_length gs (SlidingWindowSpec a window)
        use_eagle alignment 1 1 = Inr computed
    \<and> hit_lists p hl gs (L - need) (eagle_drop use_eagle L) computed
    \<and> greatest_hit (window_hit p hl gs (at_block_size a) alignment need) (nat (max_length div at_block_size a)) L"
  unfolding need_def
  by (rule sliding_find_spec [OF pool_coreD(10) [OF assms(1)] gs wf bs al len eagle])

theorem sliding_window_longest_hit_witness:
  "\<exists>p. holds_hash p [1, 0] 0 (Blk 3)
    \<and> sliding_find_longest_cache_hit p (PlainHashes [[1, 0], [1, 1, 0]]) 11 [0]
        (SlidingWindowSpec example_attention 5) False 4 1 1 = Inr [[Blk 3]]"
proof -
  let ?hl = "PlainHashes [[1, 0], [1, 1, 0]]" and ?s = "SlidingWindowSpec example_attention 5"
  obtain p where p: "pool_inv p [Blk 1, Blk 2, Blk 3]" "holds_hash p [1, 0] 0 (Blk 3)"
    and only: "\<And>h g b. holds_hash p h g b \<Longrightarrow> b = Blk 3 \<and> h = [1, 0] \<and> g = 0" by (rule example_cached_pool) blast
  have need: "window_need 5 4 False = 1" by (simp add: window_need_def cdiv_def)
  from sliding_window_longest_hit [OF p(1), of "[0]" ?hl example_attention 4 11 False 5]
  obtain L computed where f: "sliding_find_longest_cache_hit p ?hl 11 [0] ?s False 4 1 1 = Inr computed"
    and h: "hit_lists p ?hl [0] (L - 1) L computed" "greatest_hit (window_hit p ?hl [0] 4 4 1) 2 L"
    by (auto simp: groups_ok_def bhl_wf_def eagle_drop_def need)
  have hit0: "entry_hit p ?hl 0 0 b \<longleftrightarrow> b = Blk 3" for b
    using p(2) only [of "[1, 0]" 0 b] by (auto simp: entry_hit_def py_index_def)
  have hit1: "\<not> entry_hit p ?hl 0 1 b" for b
    using only [of "[1, 1, 0]" 0 b] by (auto simp: entry_hit_def py_index_def)
  have win: "window_hit p ?hl [0] 4 4 1 1" "\<not> window_hit p ?hl [0] 4 4 1 2"
    using hit0 hit1 by (auto simp: window_hit_def aligned_def hit_at_def numeral_2_eq_2 less_Suc_eq)
  have "L = 1" by (rule greatest_hit_eq [OF h(2) win(1)]) (use win(2) in \<open>auto simp: le_Suc_eq numeral_2_eq_2\<close>)
  then obtain b where "computed = [[b]]" "entry_hit p ?hl 0 0 b" using h(1)
    by (auto simp: hit_lists_def list_all2_Cons1 length_Suc_conv)
  with hit0 p(2) f show ?thesis by auto
qed

text \<open>
  C23: Chunked local attention: the blocks before the chunk of the length asked for are null blocks, and
  from there on the search returns the longest run of cached blocks.
\<close>

theorem chunked_attention_longest_hit:
  fixes chunk max_length :: int
  assumes "pool_inv p xs" and gs: "groups_ok gs" and wf: "bhl_wf hl"
    and bs: "0 < at_block_size a" and chunk: "0 < chunk" and ml: "0 \<le> max_length"
    and len: "max_length div at_block_size a \<le> bhl_length hl"
  defines "s \<equiv> nat (max_length div chunk * chunk div at_block_size a)"
  shows "\<exists>L computed. chunked_find_longest_cache_hit p hl max_length gs (ChunkedLocalAttentionSpec a chunk)
        False (at_block_size a) 1 1 = Inr computed
    \<and> hit_lists p hl gs s L computed \<and> greatest_hit (range_hit p hl gs s) (nat (max_length div at_block_size a)) L"
proof -
  have "s = nat (chunk_start_block chunk (at_block_size a) max_length)"
    using ml by (cases "max_length = 0") (auto simp: s_def chunk_start_block_def)
  with chunked_find_spec [OF pool_coreD(10) [OF assms(1)] gs wf bs chunk ml len] show ?thesis by simp
qed

theorem chunked_attention_longest_hit_witness:
  "\<exists>p. holds_hash p [1, 0] 0 (Blk 3)
    \<and> chunked_find_longest_cache_hit p (PlainHashes [[1, 0], [1, 1, 0]]) 7 [0]
        (ChunkedLocalAttentionSpec example_attention 8) False 4 1 1 = Inr [[Blk 3]]"
proof -
  let ?hl = "PlainHashes [[1, 0], [1, 1, 0]]" and ?s = "ChunkedLocalAttentionSpec example_attention 8"
  obtain p where p: "pool_inv p [Blk 1, Blk 2, Blk 3]" "holds_hash p [1, 0] 0 (Blk 3)"
    and only: "\<And>h g b. holds_hash p h g b \<Longrightarrow> b = Blk 3 \<and> h = [1, 0] \<and> g = 0" by (rule example_cached_pool) blast
  from chunked_attention_longest_hit [OF p(1), of "[0]" ?hl example_attention 8 7]
  obtain L computed where f: "chunked_find_longest_cache_hit p ?hl 7 [0] ?s False 4 1 1 = Inr computed"
    and h: "hit_lists p ?hl [0] 0 L computed" "greatest_hit (range_hit p ?hl [0] 0) 1 L"
    by (auto simp: groups_ok_def bhl_wf_def)
  have hit0: "entry_hit p ?hl 0 0 b \<longleftrightarrow> b = Blk 3" for b
    using p(2) only [of "[1, 0]" 0 b] by (auto simp: entry_hit_def py_index_def)
  have "range_hit p ?hl [0] 0 1" using hit0 by (simp add: range_hit_def hit_at_def)
  then have "L = 1" using greatest_hit_eq [OF h(2)] by simp
  then obtain b where "computed = [[b]]" "entry_hit p ?hl 0 0 b" using h(1)
    by (auto simp: hit_lists_def list_all2_Cons1 length_Suc_conv)
  with hit0 p(2) f show ?thesis by auto
qed

text \<open>
  C24: Mamba: only the state after the last block is needed, so the search returns the longest aligned
  prefix whose last block is cached for every group, with null blocks before it.
\<close>

theorem mamba_longest_hit:
  fixes max_length :: int
  assumes "pool_inv p xs" and gs: "groups_ok gs" and wf: "bhl_wf hl"
    and bs: "0 < mb_block_size ms" and al: "alignment \<noteq> 0"
    and len: "max_length div mb_block_size ms \<le> bhl_length hl" "0 \<le> bhl_length hl"
  shows "\<exists>L computed. mamba_find_longest_cache_hit p hl max_length gs (MambaSpec ms) use_eagle alignment 1 1 = Inr computed
    \<and> hit_lists p hl gs (L - 1) L computed
    \<and> greatest_hit (state_hit p hl gs (mb_block_size ms) alignment) (nat (max_length div mb_block_size ms)) L"
  by (rule mamba_find_spec [OF pool_coreD(10) [OF assms(1)] gs wf bs al len])

abbreviation example_mamba :: mamba_fields where
  "example_mamba \<equiv> \<lparr>mb_block_size = 4, mb_shapes = [], mb_dtypes = [], mb_page_size_padded = None,
     mamba_type = ''mamba2'', mamba_cache_mode = ''all'', num_speculative_blocks = 0\<rparr>"

theorem mamba_longest_hit_witness:
  "\<exists>p. holds_hash p [1, 0] 0 (Blk 3)
    \<and> mamba_find_longest_cache_hit p (PlainHashes [[2, 0], [1, 0]]) 9 [0] (MambaSpec example_mamba) False 4 1 1
      = Inr [[null_block p, Blk 3]]"
proof -
  let ?hl = "PlainHashes [[2, 0], [1, 0]]" and ?s = "MambaSpec example_mamba"
  obtain p where p: "pool_inv p [Blk 1, Blk 2, Blk 3]" "holds_hash p [1, 0] 0 (Blk 3)"
    and only: "\<And>h g b. holds_hash p h g b \<Longrightarrow> b = Blk 3 \<and> h = [1, 0] \<and> g = 0" by (rule example_cached_pool) blast
  from mamba_longest_hit [OF p(1), of "[0]" ?hl example_mamba 4 9 False]
  obtain L computed where f: "mamba_find_longest_cache_hit p ?hl 9 [0] ?s False 4 1 1 = Inr computed"
    and h: "hit_lists p ?hl [0] (L - 1) L computed" "greatest_hit (state_hit p ?hl [0] 4 4) 2 L"
    by (auto simp: groups_ok_def bhl_wf_def)
  have hit1: "entry_hit p ?hl 0 1 b \<longleftrightarrow> b = Blk 3" for b
    using p(2) only [of "[1, 0]" 0 b] by (auto simp: entry_hit_def py_index_def)
  have "state_hit p ?hl [0] 4 4 2" using hit1 by (simp add: state_hit_def aligned_def hit_at_def)
  then have L: "L = 2" using greatest_hit_eq [OF h(2)] by simp
  then obtain a b where c: "computed = [[a, b]]" using h(1)
    by (auto simp: hit_lists_def list_all2_Cons1 length_Suc_conv numeral_2_eq_2)
  then have "a = null_block p" "entry_hit p ?hl 0 1 b" using h(1) L
    by (auto simp: hit_lists_def numeral_2_eq_2 less_Suc_eq)
  with hit1 p(2) f c show ?thesis by auto
qed

end
