(* ===== verification/Block_Tables.thy ===== *)
theory Block_Tables
  imports Block_Pool
begin

text \<open>
  What the users of the block pool rely on.  \<open>block_store\<close> states the contract of a
  reference-counting allocator: blocks are handed out from the free list, shared, and given back.
  Its clients are the block tables of the requests; the lemmas of the locale say how a table
  that holds its blocks keeps holding them.  The interpretation at the end discharges the
  contract for the code's block pool.
\<close>

text \<open>A table: blocks of the pool, in which only the null block, number 0, may repeat.\<close>

definition table_ok :: "nat \<Rightarrow> bref list \<Rightarrow> bool" where
  "table_ok n t \<longleftrightarrow> (\<forall>b \<in> set t. \<exists>i < n. b = Blk i) \<and> distinct (filter (\<lambda>b. b \<noteq> Blk 0) t)"

text \<open>The counts: the references that all other tables hold (\<open>other\<close>) and those of this one.\<close>

definition counted :: "nat \<Rightarrow> (nat \<Rightarrow> int) \<Rightarrow> bref list \<Rightarrow> (nat \<Rightarrow> nat) \<Rightarrow> bool" where
  "counted n rc t other \<longleftrightarrow>
     (\<forall>i. 0 < i \<and> i < n \<longrightarrow> rc i = int (other i + count_list t (Blk i)))"

text \<open>The part of a table that is not in the prefix cache yet: unshared blocks without a hash.\<close>

definition tail_ok :: "(nat \<Rightarrow> int) \<Rightarrow> (nat \<Rightarrow> bytes option) \<Rightarrow> bref list \<Rightarrow> nat \<Rightarrow> bool" where
  "tail_ok rc hs t c \<longleftrightarrow>
     (\<forall>i. 0 < i \<and> Blk i \<in> set (drop c t) \<longrightarrow> hs i = None \<and> rc i = 1)"

text \<open>What an operation on one table leaves to the others: their unshared, unhashed blocks.\<close>

definition undisturbed ::
  "nat \<Rightarrow> (nat \<Rightarrow> nat) \<Rightarrow> (nat \<Rightarrow> int) \<Rightarrow> (nat \<Rightarrow> bytes option) \<Rightarrow> (nat \<Rightarrow> int) \<Rightarrow> (nat \<Rightarrow> bytes option) \<Rightarrow> bool" where
  "undisturbed n other rc hs rc' hs' \<longleftrightarrow>
     (\<forall>i. 0 < i \<and> i < n \<and> 0 < other i \<and> rc i = 1 \<and> hs i = None \<longrightarrow> rc' i = 1 \<and> hs' i = None)"

lemma undisturbed_refl: "undisturbed n ot rc hs rc hs"
  by (simp add: undisturbed_def)

lemma undisturbed_trans:
  "undisturbed n ot rc hs rc' hs' \<Longrightarrow> undisturbed n ot rc' hs' rc'' hs'' \<Longrightarrow> undisturbed n ot rc hs rc'' hs''"
  by (simp add: undisturbed_def)

lemma table_ok_Nil [simp]: "table_ok n []"
  by (simp add: table_ok_def)

lemma table_ok_append:
  "table_ok n (t @ u) \<longleftrightarrow> table_ok n t \<and> table_ok n u \<and> (\<forall>b. b \<noteq> Blk 0 \<longrightarrow> \<not> (b \<in> set t \<and> b \<in> set u))"
  by (auto simp: table_ok_def)

lemma table_ok_rev [simp]: "table_ok n (rev t) = table_ok n t"
  by (simp add: table_ok_def rev_filter [symmetric])

lemma table_ok_null [simp]: "0 < n \<Longrightarrow> table_ok n (replicate k (Blk 0))"
  by (auto simp: table_ok_def)

lemma table_ok_count:
  "table_ok n t \<Longrightarrow> 0 < i \<Longrightarrow> count_list t (Blk i) = (if Blk i \<in> set t then 1 else 0)"
  by (rule count_list_distinct_filter [of "\<lambda>b. b \<noteq> Blk 0"]) (auto simp: table_ok_def)

lemma table_ok_drop: "table_ok n t \<Longrightarrow> table_ok n (drop k t)"
  using table_ok_append [of n "take k t" "drop k t"] by simp

lemma count_list_replicate_null [simp]: "0 < i \<Longrightarrow> count_list (replicate k (Blk 0)) (Blk i) = 0"
  by (induction k) auto

locale block_store =
  fixes inv :: "'s \<Rightarrow> bref list \<Rightarrow> bool"
    and size_of :: "'s \<Rightarrow> nat"
    and cfg :: "'s \<Rightarrow> 'c"
    and rcs :: "'s \<Rightarrow> nat \<Rightarrow> int"
    and hashes :: "'s \<Rightarrow> nat \<Rightarrow> bytes option"
    and caching :: "'s \<Rightarrow> bool"
    and alloc :: "int \<Rightarrow> 's \<Rightarrow> (bref list \<times> 's) result"
    and share :: "bref list \<Rightarrow> 's \<Rightarrow> 's result"
    and release :: "bref list \<Rightarrow> 's \<Rightarrow> 's result"
  assumes size_pos: "inv s xs \<Longrightarrow> 0 < size_of s"
    and free_list: "inv s xs \<Longrightarrow> distinct xs \<and> set xs = Blk ` {i. 0 < i \<and> i < size_of s \<and> rcs s i = 0}"
    and alloc_ok: "inv s xs \<Longrightarrow> 0 \<le> k \<Longrightarrow> k \<le> int (length xs) \<Longrightarrow>
      \<exists>s'. alloc k s = Inr (take (nat k) xs, s') \<and> inv s' (drop (nat k) xs) \<and> size_of s' = size_of s \<and> cfg s' = cfg s
        \<and> caching s' = caching s
        \<and> rcs s' = (\<lambda>i. if Blk i \<in> set (take (nat k) xs) then 1 else rcs s i)
        \<and> hashes s' = (\<lambda>i. if caching s \<and> Blk i \<in> set (take (nat k) xs) then None else hashes s i)"
    and alloc_none: "inv s xs \<Longrightarrow> k > int (length xs) \<Longrightarrow> alloc k s = Inl ValueError"
    and share_ok: "inv s xs \<Longrightarrow> \<forall>b \<in> set bs. \<exists>i < size_of s. b = Blk i \<Longrightarrow>
      \<exists>s'. share bs s = Inr s' \<and> inv s' (filter (\<lambda>b. b \<notin> set bs) xs) \<and> size_of s' = size_of s \<and> cfg s' = cfg s
        \<and> caching s' = caching s \<and> rcs s' = (\<lambda>i. rcs s i + int (count_list bs (Blk i))) \<and> hashes s' = hashes s"
    and release_ok: "inv s xs \<Longrightarrow> table_ok (size_of s) bs \<Longrightarrow> \<forall>i. 0 < i \<and> Blk i \<in> set bs \<longrightarrow> 0 < rcs s i \<Longrightarrow>
      \<exists>s' ys. release bs s = Inr s' \<and> inv s' (xs @ ys)
        \<and> ys = filter (\<lambda>b. \<exists>i. b = Blk i \<and> 0 < i \<and> rcs s i = 1) bs \<and> size_of s' = size_of s \<and> cfg s' = cfg s
        \<and> caching s' = caching s \<and> rcs s' = (\<lambda>i. rcs s i - int (count_list bs (Blk i))) \<and> hashes s' = hashes s"
begin

text \<open>A free block is in no table.\<close>

lemma free_unheld:
  assumes "inv s xs" "counted (size_of s) (rcs s) t other" "b \<in> set xs"
  shows "\<exists>i. b = Blk i \<and> 0 < i \<and> i < size_of s \<and> rcs s i = 0 \<and> other i = 0 \<and> Blk i \<notin> set t"
proof -
  obtain i where i: "b = Blk i" "0 < i" "i < size_of s" "rcs s i = 0"
    using free_list [OF assms(1)] assms(3) by auto
  moreover have "other i = 0" "count_list t (Blk i) = 0" using assms(2) i by (auto simp: counted_def)
  ultimately show ?thesis by (auto simp: count_list_0_iff)
qed

lemma extend_table:
  assumes iv: "inv s xs" and tk: "table_ok (size_of s) t" and ct: "counted (size_of s) (rcs s) t other"
    and tl: "caching s \<longrightarrow> tail_ok (rcs s) (hashes s) t c" and k: "0 \<le> k" "k \<le> int (length xs)"
  shows "\<exists>s'. alloc k s = Inr (take (nat k) xs, s') \<and> inv s' (drop (nat k) xs) \<and> size_of s' = size_of s \<and> cfg s' = cfg s
    \<and> caching s' = caching s
    \<and> table_ok (size_of s) (t @ take (nat k) xs) \<and> counted (size_of s) (rcs s') (t @ take (nat k) xs) other
    \<and> (caching s \<longrightarrow> tail_ok (rcs s') (hashes s') (t @ take (nat k) xs) c)
    \<and> undisturbed (size_of s) other (rcs s) (hashes s) (rcs s') (hashes s')"
proof -
  let ?ys = "take (nat k) xs"
  obtain s' where s': "alloc k s = Inr (?ys, s')" "inv s' (drop (nat k) xs)" "size_of s' = size_of s \<and> cfg s' = cfg s"
      "caching s' = caching s"
      "rcs s' = (\<lambda>i. if Blk i \<in> set ?ys then 1 else rcs s i)"
      "hashes s' = (\<lambda>i. if caching s \<and> Blk i \<in> set ?ys then None else hashes s i)"
    using alloc_ok [OF iv k] by blast
  have fr: "\<exists>i. b = Blk i \<and> 0 < i \<and> i < size_of s \<and> rcs s i = 0 \<and> other i = 0 \<and> Blk i \<notin> set t"
    if "b \<in> set ?ys" for b
    using free_unheld [OF iv ct, of b] that by (auto dest: in_set_takeD)
  have d: "distinct ?ys" using free_list [OF iv] by simp
  have tky: "table_ok (size_of s) ?ys" using fr d by (fastforce simp: table_ok_def)
  then have ok: "table_ok (size_of s) (t @ ?ys)" using fr tk by (fastforce simp: table_ok_append)
  have cnt: "rcs s' i = int (other i + count_list (t @ ?ys) (Blk i))" if i: "0 < i" "i < size_of s" for i
  proof (cases "Blk i \<in> set ?ys")
    case True
    then show ?thesis using fr [OF True] table_ok_count [OF tky i(1)] by (simp add: s'(5))
  next
    case False
    then show ?thesis using ct i by (simp add: s'(5) counted_def)
  qed
  have tail: "caching s \<longrightarrow> tail_ok (rcs s') (hashes s') (t @ ?ys) c"
    using tl by (auto simp: tail_ok_def s'(5,6) dest: in_set_dropD)
  have "undisturbed (size_of s) other (rcs s) (hashes s) (rcs s') (hashes s')"
    using fr by (auto simp: undisturbed_def s'(5,6))
  then show ?thesis using s' ok cnt tail by (auto simp: counted_def)
qed

lemma adopt_hits:
  assumes iv: "inv s xs" and tk: "table_ok (size_of s) (t @ bs)" and ct: "counted (size_of s) (rcs s) t other"
    and hit: "\<forall>i. 0 < i \<and> Blk i \<in> set bs \<longrightarrow> hashes s i \<noteq> None"
  shows "\<exists>s'. share bs s = Inr s' \<and> inv s' (filter (\<lambda>b. b \<notin> set bs) xs) \<and> size_of s' = size_of s \<and> cfg s' = cfg s
    \<and> caching s' = caching s \<and> counted (size_of s) (rcs s') (t @ bs) other
    \<and> hashes s' = hashes s
    \<and> undisturbed (size_of s) other (rcs s) (hashes s) (rcs s') (hashes s')"
proof -
  have bs: "\<forall>b \<in> set bs. \<exists>i < size_of s. b = Blk i" using tk by (auto simp: table_ok_def)
  obtain s' where s': "share bs s = Inr s'" "inv s' (filter (\<lambda>b. b \<notin> set bs) xs)" "size_of s' = size_of s \<and> cfg s' = cfg s"
      "caching s' = caching s" "rcs s' = (\<lambda>i. rcs s i + int (count_list bs (Blk i)))" "hashes s' = hashes s"
    using share_ok [OF iv bs] by blast
  have "counted (size_of s) (rcs s') (t @ bs) other"
    using ct by (simp add: counted_def s'(5))
  moreover have "undisturbed (size_of s) other (rcs s) (hashes s) (rcs s') (hashes s')"
    using hit by (auto simp: undisturbed_def s'(5,6) count_list_0_iff)
  ultimately show ?thesis using s' by blast
qed

text \<open>Giving back some blocks of a table: \<open>t'\<close> is what remains of it.\<close>

lemma release_part:
  assumes iv: "inv s xs" and tk: "table_ok (size_of s) t" "table_ok (size_of s) t'" "table_ok (size_of s) bs"
    and ct: "counted (size_of s) (rcs s) t other"
    and split: "\<forall>i. 0 < i \<longrightarrow> count_list t (Blk i) = count_list t' (Blk i) + count_list bs (Blk i)"
  shows "\<exists>s' ys. release bs s = Inr s' \<and> inv s' (xs @ ys) \<and> size_of s' = size_of s \<and> cfg s' = cfg s \<and> caching s' = caching s
    \<and> ys = filter (\<lambda>b. \<exists>i. b = Blk i \<and> 0 < i \<and> other i = 0) bs
    \<and> counted (size_of s) (rcs s') t' other \<and> hashes s' = hashes s
    \<and> (\<forall>i. 0 < i \<and> Blk i \<notin> set bs \<longrightarrow> rcs s' i = rcs s i)
    \<and> undisturbed (size_of s) other (rcs s) (hashes s) (rcs s') (hashes s')"
proof -
  have one: "rcs s i = int (other i + 1)" "i < size_of s" if "0 < i" "Blk i \<in> set bs" for i
  proof -
    show i: "i < size_of s" using tk(3) that by (auto simp: table_ok_def)
    have "count_list bs (Blk i) = 1" using table_ok_count [OF tk(3) that(1)] that(2) by simp
    then have "count_list t (Blk i) = 1"
      using spec [OF split, of i] that(1) table_ok_count [OF tk(1) that(1)] by (auto split: if_splits)
    then show "rcs s i = int (other i + 1)" using ct that(1) i by (simp add: counted_def)
  qed
  have pos: "\<forall>i. 0 < i \<and> Blk i \<in> set bs \<longrightarrow> 0 < rcs s i" using one(1) by simp
  obtain s' ys where s': "release bs s = Inr s'" "inv s' (xs @ ys)"
      "ys = filter (\<lambda>b. \<exists>i. b = Blk i \<and> 0 < i \<and> rcs s i = 1) bs" "size_of s' = size_of s \<and> cfg s' = cfg s"
      "caching s' = caching s" "rcs s' = (\<lambda>i. rcs s i - int (count_list bs (Blk i)))" "hashes s' = hashes s"
    using release_ok [OF iv tk(3) pos] by blast
  have "ys = filter (\<lambda>b. \<exists>i. b = Blk i \<and> 0 < i \<and> other i = 0) bs"
    unfolding s'(3) by (rule filter_cong [OF refl]) (auto simp: one(1))
  moreover have "counted (size_of s) (rcs s') t' other"
    using ct split by (auto simp: counted_def s'(6))
  moreover have "undisturbed (size_of s) other (rcs s) (hashes s) (rcs s') (hashes s')"
    using one(1) by (auto simp: undisturbed_def s'(6,7) count_list_0_iff)
  moreover have "\<forall>i. 0 < i \<and> Blk i \<notin> set bs \<longrightarrow> rcs s' i = rcs s i" by (simp add: s'(6) count_list_0_iff)
  ultimately show ?thesis using s' by blast
qed

text \<open>Giving back a whole table in reverse order.\<close>

lemma release_table:
  assumes "inv s xs" "table_ok (size_of s) t" "counted (size_of s) (rcs s) t other"
  shows "\<exists>s'. release (rev t) s = Inr s' \<and> size_of s' = size_of s \<and> cfg s' = cfg s \<and> caching s' = caching s
    \<and> inv s' (xs @ rev (filter (\<lambda>b. \<exists>i. b = Blk i \<and> 0 < i \<and> other i = 0) t))
    \<and> counted (size_of s) (rcs s') [] other \<and> hashes s' = hashes s
    \<and> undisturbed (size_of s) other (rcs s) (hashes s) (rcs s') (hashes s')"
  using release_part [OF assms(1,2) table_ok_Nil, of "rev t" other] assms(2,3)
  by (auto simp: rev_filter)

text \<open>A table that is extended and then given back leaves the same blocks free.\<close>

lemma extend_release:
  assumes iv: "inv s xs" and ct: "counted (size_of s) (rcs s) [] other" and k: "0 \<le> k" "k \<le> int (length xs)"
  shows "\<exists>ys s1 s2. alloc k s = Inr (ys, s1) \<and> release (rev ys) s1 = Inr s2
    \<and> inv s2 (drop (nat k) xs @ rev ys) \<and> rcs s2 = (\<lambda>i. rcs s i)"
proof -
  let ?ys = "take (nat k) xs"
  obtain s1 where s1: "alloc k s = Inr (?ys, s1)" "inv s1 (drop (nat k) xs)" "size_of s1 = size_of s \<and> cfg s1 = cfg s"
      "rcs s1 = (\<lambda>i. if Blk i \<in> set ?ys then 1 else rcs s i)"
    using alloc_ok [OF iv k] by blast
  have fr: "\<exists>i. b = Blk i \<and> 0 < i \<and> i < size_of s \<and> rcs s i = 0" if "b \<in> set ?ys" for b
    using free_list [OF iv] that by (auto dest: in_set_takeD)
  have d: "distinct ?ys" using free_list [OF iv] by simp
  have tk: "table_ok (size_of s1) (rev ?ys)" using fr d s1(3) by (fastforce simp: table_ok_def)
  have pos: "\<forall>i. 0 < i \<and> Blk i \<in> set (rev ?ys) \<longrightarrow> 0 < rcs s1 i" by (simp add: s1(4))
  obtain s2 zs where s2: "release (rev ?ys) s1 = Inr s2" "inv s2 (drop (nat k) xs @ zs)"
      "zs = filter (\<lambda>b. \<exists>i. b = Blk i \<and> 0 < i \<and> rcs s1 i = 1) (rev ?ys)"
      "rcs s2 = (\<lambda>i. rcs s1 i - int (count_list (rev ?ys) (Blk i)))"
    using release_ok [OF s1(2) tk pos] by blast
  have "zs = rev ?ys" unfolding s2(3) using fr by (fastforce simp: filter_id_conv s1(4))
  moreover have "rcs s2 i = rcs s i" for i
  proof (cases "Blk i \<in> set ?ys")
    case True
    then show ?thesis using fr [OF True] table_ok_count [OF tk, of i] by (auto simp: s2(4) s1(4))
  next
    case False
    then show ?thesis by (simp add: s2(4) s1(4) count_list_0_iff)
  qed
  ultimately show ?thesis using s1(1) s2(1,2) by auto
qed

end

interpretation pool: block_store pool_inv nblocks static refs hash_of enable_caching "get_new_blocks env" touch free_blocks
  for env
proof unfold_locales
  show "0 < nblocks p" if "pool_inv p xs" for p xs
    using pool_coreD(1) [OF that] by (simp add: nblocks_def)
  show "distinct xs \<and> set xs = Blk ` {i. 0 < i \<and> i < nblocks p \<and> refs p i = 0}" if "pool_inv p xs" for p xs
    using pool_core_distinct [OF that] pool_coreD(9) [OF that] by simp
  show "\<exists>s'. get_new_blocks env k p = Inr (take (nat k) xs, s') \<and> pool_inv s' (drop (nat k) xs)
      \<and> nblocks s' = nblocks p \<and> static s' = static p \<and> enable_caching s' = enable_caching p
      \<and> refs s' = (\<lambda>i. if Blk i \<in> set (take (nat k) xs) then 1 else refs p i)
      \<and> hash_of s' = (\<lambda>i. if enable_caching p \<and> Blk i \<in> set (take (nat k) xs) then None else hash_of p i)"
    if "pool_inv p xs" "0 \<le> k" "k \<le> int (length xs)" for p xs k
  proof -
    note th = that
    obtain p' where p': "get_new_blocks env k p = Inr (take (nat k) xs, p')" "static p' = static p"
      "refs p' = (\<lambda>i. if Blk i \<in> set (take (nat k) xs) then 1 else refs p i)"
      "hash_of p' = (\<lambda>i. if enable_caching p \<and> Blk i \<in> set (take (nat k) xs) then None else hash_of p i)"
      "pool_inv p' (drop (nat k) xs)" using get_new_blocks_spec [OF th] by blast
    then show ?thesis using staticD(2,9) [OF p'(2)] by blast
  qed
  show "get_new_blocks env k p = Inl ValueError" if "pool_inv p xs" "k > int (length xs)" for p xs k
    by (rule get_new_blocks_exhausted [OF that])
  show "\<exists>s'. touch bs p = Inr s' \<and> pool_inv s' (filter (\<lambda>b. b \<notin> set bs) xs) \<and> nblocks s' = nblocks p \<and> static s' = static p
      \<and> enable_caching s' = enable_caching p \<and> refs s' = (\<lambda>i. refs p i + int (count_list bs (Blk i)))
      \<and> hash_of s' = hash_of p"
    if "pool_inv p xs" "\<forall>b \<in> set bs. \<exists>i < nblocks p. b = Blk i" for p xs bs
  proof -
    note th = that
    have "\<forall>b \<in> set bs. pool_ref p b" using th(2) by (auto simp: pool_ref_def)
    then obtain p' where p': "touch bs p = Inr p'" "static p' = static p"
      "refs p' = (\<lambda>i. refs p i + int (count_list bs (Blk i)))" "hash_of p' = hash_of p"
      "pool_inv p' (filter (\<lambda>b. b \<notin> set bs) xs)" using touch_spec [OF th(1)] by blast
    then show ?thesis using staticD(2,9) [OF p'(2)] by blast
  qed
  show "\<exists>s' ys. free_blocks bs p = Inr s' \<and> pool_inv s' (xs @ ys)
      \<and> ys = filter (\<lambda>b. \<exists>i. b = Blk i \<and> 0 < i \<and> refs p i = 1) bs \<and> nblocks s' = nblocks p \<and> static s' = static p
      \<and> enable_caching s' = enable_caching p \<and> refs s' = (\<lambda>i. refs p i - int (count_list bs (Blk i)))
      \<and> hash_of s' = hash_of p"
    if "pool_inv p xs" "table_ok (nblocks p) bs" "\<forall>i. 0 < i \<and> Blk i \<in> set bs \<longrightarrow> 0 < refs p i" for p xs bs
  proof -
    note th = that
    have "freeable p bs" using th(2,3) by (auto simp: freeable_def table_ok_def pool_ref_def)
    then obtain p' where p': "free_blocks bs p = Inr p'" "static p' = static p"
      "refs p' = (\<lambda>i. refs p i - int (count_list bs (Blk i)))" "hash_of p' = hash_of p"
      "pool_inv p' (xs @ filter (\<lambda>b. b \<noteq> Blk 0 \<and> ref_cnt (heap p b) = 1) bs)"
      using free_blocks_spec [OF th(1)] by blast
    have "filter (\<lambda>b. b \<noteq> Blk 0 \<and> ref_cnt (heap p b) = 1) bs
        = filter (\<lambda>b. \<exists>i. b = Blk i \<and> 0 < i \<and> refs p i = 1) bs"
      using th(2) by (intro filter_cong [OF refl]) (auto simp: table_ok_def refs_def)
    then show ?thesis using p' staticD(2,9) [OF p'(2)] by auto
  qed
qed

end
