(* ===== verification/Single_Type_Manager.thy ===== *)
theory Single_Type_Manager
  imports Cache_Hit Block_Tables
begin

text \<open>
  \<open>SingleTypeKVCacheManager\<close> and its subclasses of
  \<open>vllm/v1/core/single_type_kv_cache_manager.py\<close>: the block tables of the requests for one KV cache
  group.  All managers share one block pool, so an operation takes and returns the pair of the
  manager and the pool.  The class of a manager is a field; a method that a subclass overrides
  is a case distinction on it.  \<open>req_to_blocks\<close> is a \<open>defaultdict\<close>: reading a missing entry creates
  it.

  Comparing blocks with \<open>==\<close> compares the fields of the dataclass, the block id first; ids are
  unique in a pool, so the model compares references.
\<close>

record manager =
  mgr_class :: manager_class
  mgr_spec :: layer_spec
  block_size :: int
  mgr_enable_caching :: bool
  new_block_ids :: "int list"
  req_to_blocks :: "(string \<times> bref list) list"
  num_cached_block :: "(string \<times> int) list"
  kv_cache_group_id :: int
  mgr_null_block :: bref
  cached_blocks_this_step :: "bytes set"
  last_state_block_idx :: "(string \<times> int) list"
  allocated_block_reqs :: "string set"
  sink_blocks :: "bref list"

definition init_manager ::
  "layer_spec \<Rightarrow> block_pool \<Rightarrow> bool \<Rightarrow> int \<Rightarrow> int \<Rightarrow> int \<Rightarrow> (manager \<times> block_pool) result" where
  "init_manager spec p caching group_id dcp pcp =
     ebind (spec_manager_map spec) (\<lambda>cls.
     let bs = (if dcp * pcp > 1 then spec_block_size spec * (dcp * pcp) else spec_block_size spec);
         m = \<lparr>mgr_class = cls, mgr_spec = spec, block_size = bs, mgr_enable_caching = caching,
              new_block_ids = [], req_to_blocks = [], num_cached_block = [],
              kv_cache_group_id = group_id, mgr_null_block = null_block p,
              cached_blocks_this_step = {}, last_state_block_idx = [], allocated_block_reqs = {},
              sink_blocks = []\<rparr>
     in case spec of
          SinkFullAttentionSpec a hv sw ac sink_len \<Rightarrow>
            (case sink_len of
               None \<Rightarrow> Inl AssertionError
             | Some n \<Rightarrow>
                 ebind (eassert (n > 0)) (\<lambda>_.
                 if bs = 0 then Inl ZeroDivisionError
                 else
                   ebind (eassert (n mod bs = 0)) (\<lambda>_.
                   ebind (popleft_n (n div bs) p) (\<lambda>(blocks, p). Inr (m\<lparr>sink_blocks := blocks\<rparr>, p)))))
        | _ \<Rightarrow> Inr (m, p))"

definition table :: "manager \<Rightarrow> string \<Rightarrow> bref list" where
  "table m r = (case map_of (req_to_blocks m) r of None \<Rightarrow> [] | Some t \<Rightarrow> t)"

definition set_table :: "string \<Rightarrow> bref list \<Rightarrow> manager \<Rightarrow> manager" where
  "set_table r t m = m\<lparr>req_to_blocks := AList.update r t (req_to_blocks m)\<rparr>"

definition is_running :: "manager \<Rightarrow> string \<Rightarrow> bool" where
  "is_running m r \<longleftrightarrow> map_of (num_cached_block m) r \<noteq> None"

definition num_cached :: "manager \<Rightarrow> string \<Rightarrow> int" where
  "num_cached m r = (case map_of (num_cached_block m) r of None \<Rightarrow> 0 | Some n \<Rightarrow> n)"

text \<open>\<open>get_num_skipped_tokens\<close>, overridden for sliding windows, chunks and Mamba.\<close>

definition get_num_skipped_tokens :: "manager \<Rightarrow> int \<Rightarrow> int result" where
  "get_num_skipped_tokens m num_computed =
     (case mgr_spec m of
        SlidingWindowSpec a window \<Rightarrow> Inr (max 0 (num_computed - window + 1))
      | ChunkedLocalAttentionSpec a chunk \<Rightarrow>
          ebind (pdiv num_computed chunk) (\<lambda>k. Inr (k * chunk))
      | MambaSpec ms \<Rightarrow> Inr (num_computed - 1)
      | _ \<Rightarrow> Inr 0)"

definition get_num_evictable_blocks :: "block_pool \<Rightarrow> bref list \<Rightarrow> int" where
  "get_num_evictable_blocks p blocks =
     int (length (filter (\<lambda>b. ref_cnt (heap p b) = 0 \<and> \<not> is_null (heap p b)) blocks))"

subsection \<open>How many blocks a request needs\<close>

definition base_get_num_blocks_to_allocate ::
  "manager \<Rightarrow> block_pool \<Rightarrow> string \<Rightarrow> int \<Rightarrow> bref list \<Rightarrow> int \<Rightarrow> int result" where
  "base_get_num_blocks_to_allocate m p req_id n_tokens new_computed_blocks total_computed_tokens =
     ebind (pcdiv n_tokens (block_size m)) (\<lambda>num_required_blocks.
     let num_req_blocks = int (length (table m req_id)) in
     if is_running m req_id
     then ebind (eassert (new_computed_blocks = [])) (\<lambda>_.
            Inr (max (num_required_blocks - num_req_blocks) 0))
     else
       ebind (get_num_skipped_tokens m total_computed_tokens) (\<lambda>num_skipped_tokens.
       let num_local_computed_blocks = int (length new_computed_blocks) + num_req_blocks;
           num_skipped_blocks = num_skipped_tokens div block_size m;
           num_new_blocks = max (num_required_blocks - max num_skipped_blocks num_local_computed_blocks) 0;
           num_skipped_new_computed_blocks = max 0 (num_skipped_blocks - num_req_blocks);
           num_evictable_blocks = get_num_evictable_blocks p
             (py_drop new_computed_blocks num_skipped_new_computed_blocks)
       in Inr (num_new_blocks + num_evictable_blocks)))"

text \<open>Mamba's override; the pool is read for the hash of the last hit and for its size.\<close>

definition mamba_get_num_blocks_to_allocate ::
  "mamba_fields \<Rightarrow> manager \<Rightarrow> block_pool \<Rightarrow> string \<Rightarrow> int \<Rightarrow> bref list \<Rightarrow> int \<Rightarrow> int
    \<Rightarrow> (int \<times> manager) result" where
  "mamba_get_num_blocks_to_allocate ms m p req_id n_tokens new_computed_blocks total_computed_tokens
      num_tokens_main_model =
     (if new_computed_blocks \<noteq> []
         \<and> (\<exists>h \<in> cached_blocks_this_step m. bl_hash (heap p (last new_computed_blocks)) = Some h)
      then Inr (num_gpu_blocks p + 1, m)
      else if mamba_cache_mode ms \<noteq> ''align''
      then
        let n_tokens = (if num_speculative_blocks ms > 0
                          then n_tokens + mb_block_size ms * num_speculative_blocks ms else n_tokens)
        in ebind (base_get_num_blocks_to_allocate m p req_id n_tokens new_computed_blocks
                    total_computed_tokens) (\<lambda>n. Inr (n, m))
      else
        ebind (pcdiv num_tokens_main_model (block_size m)) (\<lambda>n.
        let num_required_blocks = n + num_speculative_blocks ms;
            num_new_blocks = num_required_blocks - int (length new_computed_blocks)
                             - int (length (table m req_id));
            m = set_table req_id (table m req_id) m;
            num_new_blocks =
              (if num_new_blocks > 0
               then (if req_id \<in> allocated_block_reqs m then 1 else 1 + num_speculative_blocks ms)
               else num_new_blocks)
        in Inr (num_new_blocks + get_num_evictable_blocks p new_computed_blocks, m)))"

definition get_num_blocks_to_allocate ::
  "manager \<Rightarrow> block_pool \<Rightarrow> string \<Rightarrow> int \<Rightarrow> bref list \<Rightarrow> int \<Rightarrow> int \<Rightarrow> (int \<times> manager) result" where
  "get_num_blocks_to_allocate m p req_id n_tokens new_computed_blocks total_computed_tokens
      num_tokens_main_model =
     (case mgr_spec m of
        MambaSpec ms \<Rightarrow> mamba_get_num_blocks_to_allocate ms m p req_id n_tokens new_computed_blocks
          total_computed_tokens num_tokens_main_model
      | _ \<Rightarrow> ebind (base_get_num_blocks_to_allocate m p req_id n_tokens new_computed_blocks
                     total_computed_tokens) (\<lambda>n. Inr (n, m)))"

subsection \<open>Taking over cache hits\<close>

text \<open>\<open>type(self.kv_cache_spec) is FullAttentionSpec\<close>: the exact class.\<close>

definition is_exactly_full :: "layer_spec \<Rightarrow> bool" where
  "is_exactly_full spec = (case spec of FullAttentionSpec _ _ _ _ \<Rightarrow> True | _ \<Rightarrow> False)"

definition record_new_ids :: "block_pool \<Rightarrow> bref list \<Rightarrow> manager \<Rightarrow> manager" where
  "record_new_ids p blocks m =
     (if is_exactly_full (mgr_spec m)
      then m\<lparr>new_block_ids := new_block_ids m @ map (\<lambda>b. block_id (heap p b)) blocks\<rparr> else m)"

definition base_allocate_new_computed_blocks ::
  "pool_env \<Rightarrow> string \<Rightarrow> bref list \<Rightarrow> int \<Rightarrow> int \<Rightarrow> manager \<times> block_pool \<Rightarrow> (manager \<times> block_pool) result" where
  "base_allocate_new_computed_blocks env req_id new_computed_blocks num_local_computed_tokens
      num_external_computed_tokens = (\<lambda>(m, p).
     if is_running m req_id
     then ebind (eassert (new_computed_blocks = [])) (\<lambda>_. Inr (m, p))
     else
       ebind (eassert (table m req_id = [])) (\<lambda>_.
       let num_total_computed_tokens = num_local_computed_tokens + num_external_computed_tokens in
       ebind (get_num_skipped_tokens m num_total_computed_tokens) (\<lambda>num_skipped_tokens.
       ebind (pdiv num_skipped_tokens (block_size m)) (\<lambda>num_skipped_blocks.
       let (new_computed_blocks, num_external_computed_tokens) =
             (if num_skipped_blocks > 0
              then (py_drop new_computed_blocks num_skipped_blocks,
                    min (num_total_computed_tokens - num_skipped_tokens) num_external_computed_tokens)
              else (new_computed_blocks, num_external_computed_tokens))
       in
       ebind (if mgr_enable_caching m then touch new_computed_blocks p
              else ebind (eassert (new_computed_blocks = [])) (\<lambda>_. Inr p)) (\<lambda>p.
       let req_blocks = replicate (nat num_skipped_blocks) (mgr_null_block m) @ new_computed_blocks;
           m = set_table req_id req_blocks m;
           m = m\<lparr>num_cached_block :=
                   AList.update req_id (int (length req_blocks)) (num_cached_block m)\<rparr>
       in
       if num_external_computed_tokens > 0
       then
         ebind (get_new_blocks env
                  (cdiv num_total_computed_tokens (block_size m) - int (length req_blocks)) p)
           (\<lambda>(allocated_blocks, p).
             Inr (record_new_ids p allocated_blocks (set_table req_id (req_blocks @ allocated_blocks) m), p))
       else Inr (m, p))))))"

definition allocate_new_computed_blocks ::
  "pool_env \<Rightarrow> string \<Rightarrow> bref list \<Rightarrow> int \<Rightarrow> int \<Rightarrow> manager \<times> block_pool \<Rightarrow> (manager \<times> block_pool) result" where
  "allocate_new_computed_blocks env req_id new_computed_blocks num_local_computed_tokens
      num_external_computed_tokens = (\<lambda>(m, p).
     if mgr_class m = CrossAttentionManager
     then ebind (eassert (new_computed_blocks = [])) (\<lambda>_. Inr (m, p))
     else base_allocate_new_computed_blocks env req_id new_computed_blocks
            num_local_computed_tokens num_external_computed_tokens (m, p))"

subsection \<open>Allocating\<close>

definition base_allocate_new_blocks ::
  "pool_env \<Rightarrow> string \<Rightarrow> int \<Rightarrow> manager \<times> block_pool \<Rightarrow> (bref list \<times> manager \<times> block_pool) result" where
  "base_allocate_new_blocks env req_id n_tokens = (\<lambda>(m, p).
     let req_blocks = table m req_id; m = set_table req_id req_blocks m in
     ebind (pcdiv n_tokens (block_size m)) (\<lambda>num_required_blocks.
     let num_new_blocks = num_required_blocks - int (length req_blocks) in
     if num_new_blocks \<le> 0 then Inr ([], m, p)
     else
       ebind (get_new_blocks env num_new_blocks p) (\<lambda>(new_blocks, p).
         Inr (new_blocks, record_new_ids p new_blocks (set_table req_id (req_blocks @ new_blocks) m), p))))"

text \<open>
  \<open>for block_idx in range(prev_block_len - num_speculative_blocks, prev_block_len)\<close>: the
  speculative blocks of the previous step move to the end of the table.
\<close>

fun reuse_speculative ::
  "bref \<Rightarrow> int \<Rightarrow> int list \<Rightarrow> bref list \<Rightarrow> bref list result" where
  "reuse_speculative null num_skipped_blocks [] req_blocks = Inr req_blocks"
| "reuse_speculative null num_skipped_blocks (block_idx # idxs) req_blocks =
     (if block_idx < num_skipped_blocks
      then ebind (py_index req_blocks block_idx) (\<lambda>b.
           ebind (py_set (req_blocks @ [b]) block_idx null) (\<lambda>req_blocks.
             reuse_speculative null num_skipped_blocks idxs req_blocks))
      else Inr req_blocks)"

definition mamba_align_allocate_new_blocks ::
  "pool_env \<Rightarrow> mamba_fields \<Rightarrow> string \<Rightarrow> int \<Rightarrow> manager \<times> block_pool
    \<Rightarrow> (bref list \<times> manager \<times> block_pool) result" where
  "mamba_align_allocate_new_blocks env ms req_id n_tokens = (\<lambda>(m, p).
     let req_blocks = table m req_id; m = set_table req_id req_blocks m;
         spec_blocks = num_speculative_blocks ms in
     ebind (pcdiv n_tokens (block_size m)) (\<lambda>n.
     let num_required_blocks = n + spec_blocks; prev_block_len = int (length req_blocks) in
     if num_required_blocks = prev_block_len then Inr ([], m, p)
     else
       ebind (eassert (num_required_blocks > prev_block_len)) (\<lambda>_.
       let blocks_allocated = (req_id \<in> allocated_block_reqs m);
           m = (if blocks_allocated
                then m\<lparr>last_state_block_idx :=
                         AList.update req_id (prev_block_len - 1 - spec_blocks) (last_state_block_idx m)\<rparr>
                else if prev_block_len > 0
                then m\<lparr>last_state_block_idx :=
                         AList.update req_id (prev_block_len - 1) (last_state_block_idx m)\<rparr>
                else m);
           num_skipped_blocks = num_required_blocks - spec_blocks - 1;
           req_blocks = (if prev_block_len < num_skipped_blocks
                         then req_blocks @ replicate (nat (num_skipped_blocks - prev_block_len)) (mgr_null_block m)
                         else req_blocks)
       in
       ebind (if blocks_allocated
              then reuse_speculative (mgr_null_block m) num_skipped_blocks
                     (py_range (prev_block_len - spec_blocks) prev_block_len) req_blocks
              else Inr req_blocks) (\<lambda>req_blocks.
       let num_new_blocks = num_required_blocks - int (length req_blocks) in
       ebind (if blocks_allocated then eassert (num_new_blocks \<le> 1)
              else eassert (num_new_blocks \<le> spec_blocks + 1)) (\<lambda>_.
       ebind (get_new_blocks env num_new_blocks p) (\<lambda>(new_blocks, p).
       let req_blocks = req_blocks @ new_blocks;
           m = set_table req_id req_blocks m;
           m = m\<lparr>allocated_block_reqs := insert req_id (allocated_block_reqs m)\<rparr>
       in Inr (py_drop req_blocks prev_block_len, m, p)))))))"

definition allocate_new_blocks ::
  "pool_env \<Rightarrow> string \<Rightarrow> int \<Rightarrow> int \<Rightarrow> manager \<times> block_pool \<Rightarrow> (bref list \<times> manager \<times> block_pool) result" where
  "allocate_new_blocks env req_id n_tokens num_tokens_main_model = (\<lambda>(m, p).
     case mgr_spec m of
       MambaSpec ms \<Rightarrow>
         if mamba_cache_mode ms \<noteq> ''align''
         then
           let n_tokens = (if num_speculative_blocks ms > 0
                             then n_tokens + block_size m * num_speculative_blocks ms else n_tokens)
           in base_allocate_new_blocks env req_id n_tokens (m, p)
         else mamba_align_allocate_new_blocks env ms req_id num_tokens_main_model (m, p)
     | _ \<Rightarrow> base_allocate_new_blocks env req_id n_tokens (m, p))"

definition mgr_take_new_block_ids :: "manager \<Rightarrow> int list \<times> manager" where
  "mgr_take_new_block_ids m = (new_block_ids m, m\<lparr>new_block_ids := []\<rparr>)"

subsection \<open>Caching, freeing\<close>

definition base_cache_blocks ::
  "pool_env \<Rightarrow> request \<Rightarrow> int \<Rightarrow> manager \<times> block_pool \<Rightarrow> (manager \<times> block_pool) result" where
  "base_cache_blocks env r n_tokens = (\<lambda>(m, p).
     let num_cached_blocks = num_cached m (request_id r) in
     ebind (pdiv n_tokens (block_size m)) (\<lambda>num_full_blocks.
     if num_cached_blocks \<ge> num_full_blocks then Inr (m, p)
     else
       let blocks = table m (request_id r); m = set_table (request_id r) blocks m in
       ebind (cache_full_blocks env r blocks num_cached_blocks num_full_blocks (block_size m)
                (kv_cache_group_id m) p) (\<lambda>p.
         Inr (m\<lparr>num_cached_block :=
                  AList.update (request_id r) num_full_blocks (num_cached_block m)\<rparr>, p))))"

text \<open>Mamba also notes the hashes that became available in this step.\<close>

fun note_cached_hashes :: "block_pool \<Rightarrow> bref list \<Rightarrow> bytes set \<Rightarrow> bytes set result" where
  "note_cached_hashes p [] hs = Inr hs"
| "note_cached_hashes p (b # bs) hs =
     (if is_null (heap p b) then note_cached_hashes p bs hs
      else case bl_hash (heap p b) of
             None \<Rightarrow> Inl AssertionError
           | Some h \<Rightarrow> note_cached_hashes p bs (insert h hs))"

definition mamba_cache_blocks ::
  "pool_env \<Rightarrow> request \<Rightarrow> int \<Rightarrow> manager \<times> block_pool \<Rightarrow> (manager \<times> block_pool) result" where
  "mamba_cache_blocks env r n_tokens = (\<lambda>(m, p).
     let n_before = num_cached m (request_id r) in
     ebind (base_cache_blocks env r n_tokens (m, p)) (\<lambda>(m, p).
     let n_after = num_cached m (request_id r) in
     if n_after > n_before
     then ebind (note_cached_hashes p (py_slice (table m (request_id r)) n_before n_after)
                   (cached_blocks_this_step m)) (\<lambda>hs.
            Inr (m\<lparr>cached_blocks_this_step := hs\<rparr>, p))
     else Inr (m, p)))"

definition cache_blocks ::
  "pool_env \<Rightarrow> request \<Rightarrow> int \<Rightarrow> manager \<times> block_pool \<Rightarrow> (manager \<times> block_pool) result" where
  "cache_blocks env r n_tokens = (\<lambda>(m, p).
     case mgr_class m of
       MambaManager \<Rightarrow> mamba_cache_blocks env r n_tokens (m, p)
     | CrossAttentionManager \<Rightarrow> Inl ValueError
     | _ \<Rightarrow> base_cache_blocks env r n_tokens (m, p))"

definition base_free :: "string \<Rightarrow> manager \<times> block_pool \<Rightarrow> (manager \<times> block_pool) result" where
  "base_free req_id = (\<lambda>(m, p).
     let req_blocks = table m req_id;
         m = m\<lparr>req_to_blocks := AList.delete req_id (req_to_blocks m)\<rparr>
     in ebind (free_blocks (rev req_blocks) p) (\<lambda>p.
          Inr (m\<lparr>num_cached_block := AList.delete req_id (num_cached_block m)\<rparr>, p)))"

definition is_mamba_align :: "manager \<Rightarrow> bool" where
  "is_mamba_align m = (case mgr_spec m of MambaSpec ms \<Rightarrow> mamba_cache_mode ms = ''align'' | _ \<Rightarrow> False)"

definition mgr_free :: "string \<Rightarrow> manager \<times> block_pool \<Rightarrow> (manager \<times> block_pool) result" where
  "mgr_free req_id = (\<lambda>(m, p).
     base_free req_id
       ((if is_mamba_align m
         then m\<lparr>allocated_block_reqs := allocated_block_reqs m - {req_id},
                last_state_block_idx := AList.delete req_id (last_state_block_idx m)\<rparr>
         else m), p))"

subsection \<open>Blocks that left the attention window\<close>

text \<open>\<open>for i in range(num_skipped_blocks - 1, -1, -1)\<close>, up to the first null block.\<close>

fun skip_loop :: "bref \<Rightarrow> nat \<Rightarrow> bref list \<Rightarrow> bref list \<times> bref list" where
  "skip_loop null 0 blocks = ([], blocks)"
| "skip_loop null (Suc i) blocks =
     (if blocks ! i = null then ([], blocks)
      else let (removed, blocks') = skip_loop null i (blocks[i := null]) in (blocks ! i # removed, blocks'))"

definition base_remove_skipped_blocks ::
  "string \<Rightarrow> int \<Rightarrow> manager \<times> block_pool \<Rightarrow> (manager \<times> block_pool) result" where
  "base_remove_skipped_blocks req_id total_computed_tokens = (\<lambda>(m, p).
     ebind (get_num_skipped_tokens m total_computed_tokens) (\<lambda>num_skipped_tokens.
     if num_skipped_tokens \<le> 0 then Inr (m, p)
     else
       let blocks = table m req_id; m = set_table req_id blocks m in
       ebind (pdiv num_skipped_tokens (block_size m)) (\<lambda>n.
       let num_skipped_blocks = min n (int (length blocks));
           (removed_blocks, blocks) = skip_loop (mgr_null_block m) (nat num_skipped_blocks) blocks
       in ebind (free_blocks removed_blocks p) (\<lambda>p. Inr (set_table req_id blocks m, p)))))"

definition mamba_remove_skipped_blocks ::
  "mamba_fields \<Rightarrow> string \<Rightarrow> int \<Rightarrow> manager \<times> block_pool \<Rightarrow> (manager \<times> block_pool) result" where
  "mamba_remove_skipped_blocks ms req_id num_computed = (\<lambda>(m, p).
     let num_computed = max 0 (num_computed - num_speculative_blocks ms) in
     ebind (base_remove_skipped_blocks req_id num_computed (m, p)) (\<lambda>(m, p).
     if mamba_cache_mode ms = ''align''
     then (case map_of (last_state_block_idx m) req_id of
             None \<Rightarrow> Inr (m, p)
           | Some idx \<Rightarrow>
               ebind (pcdiv num_computed (block_size m)) (\<lambda>n.
               if idx < n - 1
               then
                 let blocks = table m req_id; m = set_table req_id blocks m in
                 ebind (py_index blocks idx) (\<lambda>b.
                 if b \<noteq> mgr_null_block m
                 then ebind (free_blocks [b] p) (\<lambda>p.
                      ebind (py_set blocks idx (mgr_null_block m)) (\<lambda>blocks.
                        Inr (set_table req_id blocks m, p)))
                 else Inr (m, p))
               else Inr (m, p)))
     else Inr (m, p)))"

definition remove_skipped_blocks ::
  "string \<Rightarrow> int \<Rightarrow> manager \<times> block_pool \<Rightarrow> (manager \<times> block_pool) result" where
  "remove_skipped_blocks req_id total_computed_tokens = (\<lambda>(m, p).
     case mgr_spec m of
       MambaSpec ms \<Rightarrow> mamba_remove_skipped_blocks ms req_id total_computed_tokens (m, p)
     | _ \<Rightarrow> base_remove_skipped_blocks req_id total_computed_tokens (m, p))"

definition mgr_new_step_starts :: "manager \<Rightarrow> manager" where
  "mgr_new_step_starts m =
     (if mgr_class m = MambaManager then m\<lparr>cached_blocks_this_step := {}\<rparr> else m)"

subsection \<open>The common prefix of all requests\<close>

fun count_common :: "block_pool \<Rightarrow> int \<Rightarrow> bref list \<Rightarrow> int" where
  "count_common p n [] = 0"
| "count_common p n (b # bs) = (if ref_cnt (heap p b) = n then 1 + count_common p n bs else 0)"

definition mgr_get_num_common_prefix_blocks :: "manager \<Rightarrow> block_pool \<Rightarrow> string \<Rightarrow> int \<times> manager" where
  "mgr_get_num_common_prefix_blocks m p running_req_id =
     (case mgr_class m of
        FullAttentionManager \<Rightarrow>
          let blocks = table m running_req_id; m = set_table running_req_id blocks m
          in (count_common p (int (length (req_to_blocks m))) blocks, m)
      | SinkFullAttentionManager \<Rightarrow>
          let blocks = table m running_req_id; m = set_table running_req_id blocks m
          in (count_common p (int (length (req_to_blocks m))) blocks, m)
      | _ \<Rightarrow> (0, m))"

subsection \<open>The invariant of a manager\<close>

text \<open>The references to block \<open>i\<close> from the tables of one manager, and from all but one of them.\<close>

definition entry_count :: "nat \<Rightarrow> (string \<times> bref list) list \<Rightarrow> nat" where
  "entry_count i d = sum_list (map (\<lambda>e. count_list (snd e) (Blk i)) d)"

definition mgr_count :: "manager \<Rightarrow> nat \<Rightarrow> nat" where
  "mgr_count m i = entry_count i (req_to_blocks m)"

definition rest_count :: "manager \<Rightarrow> string \<Rightarrow> nat \<Rightarrow> nat" where
  "rest_count m r i = entry_count i (AList.delete r (req_to_blocks m))"

definition mgr_wf :: "nat \<Rightarrow> manager \<Rightarrow> bool" where
  "mgr_wf n m \<longleftrightarrow> distinct (map fst (req_to_blocks m)) \<and> distinct (map fst (num_cached_block m))
     \<and> mgr_null_block m = Blk 0 \<and> 0 < block_size m
     \<and> (\<forall>(r, t) \<in> set (req_to_blocks m). table_ok n t)
     \<and> (\<forall>(r, c) \<in> set (num_cached_block m). 0 \<le> c)"

definition mgr_tails :: "block_pool \<Rightarrow> manager \<Rightarrow> bool" where
  "mgr_tails p m \<longleftrightarrow> (\<forall>r. tail_ok (refs p) (hash_of p) (table m r) (nat (num_cached m r)))"

text \<open>
  \<open>mgr_ok p xs m other\<close>: the pool is well formed with free list \<open>xs\<close>, the reference count of every
  block is what the tables of this manager and of the others (\<open>other\<close>) hold, and with caching on
  the blocks of a table behind its cached prefix are unshared and carry no hash.
\<close>

definition mgr_ok :: "block_pool \<Rightarrow> bref list \<Rightarrow> manager \<Rightarrow> (nat \<Rightarrow> nat) \<Rightarrow> bool" where
  "mgr_ok p xs m other \<longleftrightarrow> pool_inv p xs \<and> mgr_wf (nblocks p) m
     \<and> (\<forall>i. 0 < i \<and> i < nblocks p \<longrightarrow> refs p i = int (other i + mgr_count m i))
     \<and> mgr_enable_caching m = enable_caching p \<and> (enable_caching p \<longrightarrow> mgr_tails p m)"

text \<open>What no operation changes in a manager.\<close>

definition mgr_static :: "manager \<Rightarrow> manager_class \<times> layer_spec \<times> int \<times> bool \<times> int \<times> bref \<times> bref list" where
  "mgr_static m = (mgr_class m, mgr_spec m, block_size m, mgr_enable_caching m, kv_cache_group_id m,
     mgr_null_block m, sink_blocks m)"

lemma mgr_staticD:
  assumes "mgr_static m' = mgr_static m"
  shows "mgr_class m' = mgr_class m" "mgr_spec m' = mgr_spec m" "block_size m' = block_size m"
    "mgr_enable_caching m' = mgr_enable_caching m" "kv_cache_group_id m' = kv_cache_group_id m"
    "mgr_null_block m' = mgr_null_block m"
  using assms by (simp_all add: mgr_static_def)

definition mgr_step ::
  "block_pool \<Rightarrow> manager \<Rightarrow> (nat \<Rightarrow> nat) \<Rightarrow> block_pool \<Rightarrow> bref list \<Rightarrow> manager \<Rightarrow> bool" where
  "mgr_step p m other p' xs' m' \<longleftrightarrow> mgr_ok p' xs' m' other \<and> static p' = static p
     \<and> mgr_static m' = mgr_static m
     \<and> undisturbed (nblocks p) other (refs p) (hash_of p) (refs p') (hash_of p')"

lemma alist_delete_Cons:
  "AList.delete r (e # d) = (if fst e = r then AList.delete r d else e # AList.delete r d)"
  by (cases e) (auto simp: AList.delete_eq)

lemma entry_count_Cons: "entry_count i (e # d) = count_list (snd e) (Blk i) + entry_count i d"
  by (simp add: entry_count_def)

lemma entry_count_split:
  assumes "distinct (map fst d)"
  shows "entry_count i d = (case map_of d r of None \<Rightarrow> 0 | Some t \<Rightarrow> count_list t (Blk i))
    + entry_count i (AList.delete r d)"
  using assms
proof (induction d)
  case Nil
  then show ?case by (simp add: entry_count_def)
next
  case (Cons e d)
  then have IH: "entry_count i d = (case map_of d r of None \<Rightarrow> 0 | Some t \<Rightarrow> count_list t (Blk i))
    + entry_count i (AList.delete r d)" by simp
  show ?case
  proof (cases "fst e = r")
    case True
    then have "map_of d r = None" using Cons.prems by (auto simp: map_of_eq_None_iff)
    moreover have "map_of (e # d) r = Some (snd e)" using True by (cases e) simp
    ultimately show ?thesis using IH True by (simp add: alist_delete_Cons entry_count_Cons)
  next
    case False
    then have "map_of (e # d) r = map_of d r" by (cases e) simp
    then show ?thesis using IH False by (simp add: alist_delete_Cons entry_count_Cons)
  qed
qed

lemma mgr_count_split:
  assumes "distinct (map fst (req_to_blocks m))"
  shows "mgr_count m i = rest_count m r i + count_list (table m r) (Blk i)"
  using entry_count_split [OF assms, of i r]
  by (simp add: mgr_count_def rest_count_def table_def split: option.splits)

lemma delete_update_same: "AList.delete r (AList.update r t d) = AList.delete r d"
  by (induction d) (auto simp: AList.delete_eq)

lemma rest_count_set_table [simp]: "rest_count (set_table r t m) r = rest_count m r"
  by (simp add: rest_count_def set_table_def delete_update_same fun_eq_iff)

lemma table_set_table: "table (set_table r t m) s = (if s = r then t else table m s)"
  by (simp add: table_def set_table_def AList.update_conv')

lemma set_table_fields [simp]:
  "num_cached_block (set_table r t m) = num_cached_block m" "mgr_static (set_table r t m) = mgr_static m"
  "num_cached (set_table r t m) = num_cached m" "mgr_spec (set_table r t m) = mgr_spec m"
  "block_size (set_table r t m) = block_size m" "is_running (set_table r t m) = is_running m"
  "mgr_class (set_table r t m) = mgr_class m" "mgr_null_block (set_table r t m) = mgr_null_block m"
  "mgr_enable_caching (set_table r t m) = mgr_enable_caching m"
  "kv_cache_group_id (set_table r t m) = kv_cache_group_id m"
  "cached_blocks_this_step (set_table r t m) = cached_blocks_this_step m"
  "allocated_block_reqs (set_table r t m) = allocated_block_reqs m"
  "last_state_block_idx (set_table r t m) = last_state_block_idx m"
  by (simp_all add: set_table_def mgr_static_def num_cached_def is_running_def fun_eq_iff)

lemma set_table_twice: "set_table r t (set_table r u m) = set_table r t m"
proof -
  have "AList.update r t (AList.update r u d) = AList.update r t d" for d :: "(string \<times> bref list) list"
    by (induction d) auto
  then show ?thesis by (simp add: set_table_def)
qed

lemma mgr_wf_table:
  assumes "mgr_wf n m" shows "table_ok n (table m r)"
proof (cases "map_of (req_to_blocks m) r")
  case (Some t)
  then show ?thesis using assms by (auto simp: mgr_wf_def table_def dest!: map_of_SomeD)
qed (simp add: table_def)

lemma mgr_wf_num_cached: "mgr_wf n m \<Longrightarrow> 0 \<le> num_cached m r"
  by (auto simp: mgr_wf_def num_cached_def split: option.splits dest!: map_of_SomeD)

text \<open>The table of one request, seen alone: everything else is \<open>rest\<close>.\<close>

definition rest :: "manager \<Rightarrow> string \<Rightarrow> (nat \<Rightarrow> nat) \<Rightarrow> nat \<Rightarrow> nat" where
  "rest m r other = (\<lambda>i. other i + rest_count m r i)"

lemma mgr_ok_pool:
  assumes "mgr_ok p xs m other"
  shows "pool_inv p xs" "0 < block_size m" "mgr_null_block m = Blk 0" "mgr_enable_caching m = enable_caching p"
    "mgr_wf (nblocks p) m"
  using assms by (auto simp: mgr_ok_def mgr_wf_def)

lemma mgr_ok_table:
  assumes "mgr_ok p xs m other"
  shows "table_ok (nblocks p) (table m r)" "counted (nblocks p) (refs p) (table m r) (rest m r other)"
    "enable_caching p \<longrightarrow> tail_ok (refs p) (hash_of p) (table m r) (nat (num_cached m r))"
    "0 \<le> num_cached m r"
proof -
  note wf = mgr_ok_pool(5) [OF assms]
  show "enable_caching p \<longrightarrow> tail_ok (refs p) (hash_of p) (table m r) (nat (num_cached m r))"
    using assms by (auto simp: mgr_ok_def mgr_tails_def)
  show "table_ok (nblocks p) (table m r)" by (rule mgr_wf_table [OF wf])
  show "0 \<le> num_cached m r" by (rule mgr_wf_num_cached [OF wf])
  have d: "distinct (map fst (req_to_blocks m))" using wf by (simp add: mgr_wf_def)
  show "counted (nblocks p) (refs p) (table m r) (rest m r other)"
    using assms mgr_count_split [OF d, of _ r] by (simp add: mgr_ok_def counted_def rest_def)
qed

lemma rest_count_table:
  assumes "s \<noteq> r" "0 < i" "Blk i \<in> set (table m s)"
  shows "0 < rest_count m r i"
proof -
  obtain t where t: "map_of (req_to_blocks m) s = Some t" "Blk i \<in> set t"
    using assms(3) by (cases "map_of (req_to_blocks m) s") (auto simp: table_def)
  have "(s, t) \<in> set (AList.delete r (req_to_blocks m))"
    using map_of_SomeD [OF t(1)] assms(1) by (simp add: set_alist_delete)
  moreover have "0 < count_list t (Blk i)" using t(2) count_list_0_iff [of t "Blk i"] by simp
  ultimately show ?thesis
    unfolding rest_count_def entry_count_def by (metis (no_types, lifting) bot_nat_0.not_eq_extremum
        image_eqI list.set_map snd_conv sum_list_eq_0_iff)
qed

text \<open>A change of one table and of the pool that respects the rest keeps the manager well formed.\<close>

lemma mgr_ok_change:
  assumes ok: "mgr_ok p xs m other" and st: "static p' = static p" and inv: "pool_inv p' xs'"
    and rtb: "req_to_blocks m' = AList.update r t' (req_to_blocks m) \<or>
      t' = [] \<and> req_to_blocks m' = AList.delete r (req_to_blocks m)"
    and ncb: "distinct (map fst (num_cached_block m'))" "\<forall>(s, c) \<in> set (num_cached_block m'). 0 \<le> c"
      "\<forall>s. s \<noteq> r \<longrightarrow> num_cached m' s = num_cached m s"
    and ms: "mgr_static m' = mgr_static m"
    and tk: "table_ok (nblocks p) t'" and ct: "counted (nblocks p) (refs p') t' (rest m r other)"
    and tl: "enable_caching p \<longrightarrow> tail_ok (refs p') (hash_of p') t' (nat (num_cached m' r))"
    and un: "undisturbed (nblocks p) (rest m r other) (refs p) (hash_of p) (refs p') (hash_of p')"
  shows "mgr_step p m other p' xs' m'"
proof -
  note s = staticD [OF st] and m = mgr_staticD [OF ms]
  have wf: "mgr_wf (nblocks p) m" using ok by (simp add: mgr_ok_def)
  have d: "distinct (map fst (req_to_blocks m))" using wf by (simp add: mgr_wf_def)
  have d': "distinct (map fst (req_to_blocks m'))" using rtb d by auto
  have tb: "table m' u = (if u = r then t' else table m u)" for u
    using rtb by (auto simp: table_def AList.update_conv' AList.delete_conv')
  have rc: "rest_count m' r = rest_count m r"
    using rtb by (auto simp: rest_count_def delete_update_same AList.delete_idem fun_eq_iff)
  have tabs: "\<forall>(u, t) \<in> set (req_to_blocks m'). table_ok (nblocks p) t"
  proof -
    have "set (req_to_blocks m') \<subseteq> insert (r, t') (set (req_to_blocks m))"
      using rtb set_alist_update [of r t' "req_to_blocks m"] set_alist_delete [of r "req_to_blocks m"] by auto
    then show ?thesis using wf tk by (auto simp: mgr_wf_def)
  qed
  have wf': "mgr_wf (nblocks p') m'"
    using wf d' ncb tabs by (simp add: mgr_wf_def s m)
  have cnt: "refs p' i = int (other i + mgr_count m' i)" if "0 < i" "i < nblocks p'" for i
    using ct that by (simp add: counted_def rest_def mgr_count_split [OF d', of i r] rc tb s)
  have tails: "mgr_tails p' m'" if c: "enable_caching p"
    unfolding mgr_tails_def
  proof
    fix u
    show "tail_ok (refs p') (hash_of p') (table m' u) (nat (num_cached m' u))"
    proof (cases "u = r")
      case True
      then show ?thesis using tl c by (simp add: tb)
    next
      case False
      have old: "tail_ok (refs p) (hash_of p) (table m u) (nat (num_cached m u))"
        using ok c by (simp add: mgr_ok_def mgr_tails_def)
      have "hash_of p' i = None \<and> refs p' i = 1" if i: "0 < i" "Blk i \<in> set (drop (nat (num_cached m u)) (table m u))" for i
      proof -
        have mem: "Blk i \<in> set (table m u)" using i(2) by (rule in_set_dropD)
        then have "i < nblocks p" using mgr_wf_table [OF wf, of u] by (auto simp: table_ok_def)
        moreover have "0 < rest m r other i" using rest_count_table [OF False i(1) mem] by (simp add: rest_def)
        ultimately show ?thesis using un old i by (auto simp: undisturbed_def tail_ok_def)
      qed
      then show ?thesis using ncb(3) False by (simp add: tail_ok_def tb)
    qed
  qed
  have "undisturbed (nblocks p) other (refs p) (hash_of p) (refs p') (hash_of p')"
    using un by (auto simp: undisturbed_def rest_def)
  then show ?thesis
    using inv wf' cnt tails ok st ms s(2) m(4) by (simp add: mgr_step_def mgr_ok_def)
qed

lemma mgr_step_trans:
  assumes "mgr_step p m other p1 xs1 m1" "mgr_step p1 m1 other p2 xs2 m2"
  shows "mgr_step p m other p2 xs2 m2"
proof -
  have "nblocks p1 = nblocks p" using assms(1) staticD(9) [of p1 p] unfolding mgr_step_def by blast
  then show ?thesis
    using assms undisturbed_trans [of "nblocks p" other "refs p" "hash_of p" "refs p1" "hash_of p1" "refs p2" "hash_of p2"]
    by (simp add: mgr_step_def)
qed

lemma mgr_step_refl: "mgr_ok p xs m other \<Longrightarrow> mgr_step p m other p xs m"
  by (simp add: mgr_step_def undisturbed_refl)

lemma mgr_step_ok: "mgr_step p m other p' xs' m' \<Longrightarrow> mgr_ok p' xs' m' other"
  by (simp add: mgr_step_def)

subsection \<open>Allocating new blocks\<close>

definition blocks_needed :: "manager \<Rightarrow> string \<Rightarrow> int \<Rightarrow> int" where
  "blocks_needed m r n = max 0 (cdiv n (block_size m) - int (length (table m r)))"

lemma record_new_ids_fields [simp]:
  "req_to_blocks (record_new_ids p bs m) = req_to_blocks m"
  "num_cached_block (record_new_ids p bs m) = num_cached_block m"
  "mgr_static (record_new_ids p bs m) = mgr_static m"
  "table (record_new_ids p bs m) = table m" "num_cached (record_new_ids p bs m) = num_cached m"
  "allocated_block_reqs (record_new_ids p bs m) = allocated_block_reqs m"
  "is_running (record_new_ids p bs m) = is_running m"
  by (simp_all add: record_new_ids_def mgr_static_def table_def num_cached_def is_running_def fun_eq_iff)

lemma mgr_ok_ncb:
  assumes "mgr_ok p xs m other"
  shows "distinct (map fst (num_cached_block m))" "\<forall>(s, c) \<in> set (num_cached_block m). 0 \<le> c"
  using assms by (auto simp: mgr_ok_def mgr_wf_def)

text \<open>Extending the table of one request with fresh blocks.\<close>

lemma extend_request_table:
  fixes r :: string
  assumes ok: "mgr_ok p xs m other" and k: "0 \<le> k" "k \<le> int (length xs)"
  defines "t \<equiv> table m r @ take (nat k) xs"
  assumes m': "req_to_blocks m' = AList.update r t (req_to_blocks m)" "num_cached_block m' = num_cached_block m"
    "mgr_static m' = mgr_static m"
  shows "\<exists>p'. get_new_blocks env k p = Inr (take (nat k) xs, p')
    \<and> mgr_step p m other p' (drop (nat k) xs) m'"
proof -
  note t = mgr_ok_pool(1) [OF ok] mgr_ok_table [OF ok, of r] mgr_ok_pool(2-4) [OF ok]
  from pool.extend_table [OF t(1-4) k, of env] obtain p' where p':
    "get_new_blocks env k p = Inr (take (nat k) xs, p')" "pool_inv p' (drop (nat k) xs)" "static p' = static p"
    "table_ok (nblocks p) (table m r @ take (nat k) xs)"
    "counted (nblocks p) (refs p') (table m r @ take (nat k) xs) (rest m r other)"
    "enable_caching p \<longrightarrow> tail_ok (refs p') (hash_of p') (table m r @ take (nat k) xs) (nat (num_cached m r))"
    "undisturbed (nblocks p) (rest m r other) (refs p) (hash_of p) (refs p') (hash_of p')"
    by blast
  have nc: "num_cached m' = num_cached m" using m'(2) by (simp add: num_cached_def fun_eq_iff)
  have "mgr_step p m other p' (drop (nat k) xs) m'"
    by (rule mgr_ok_change [OF ok p'(3,2), where r = r and t' = t])
      (use m' p' nc mgr_ok_ncb [OF ok] in \<open>simp_all add: t_def\<close>)
  then show ?thesis using p'(1) by blast
qed

lemma set_table_step:
  assumes ok: "mgr_ok p xs m other"
  shows "mgr_step p m other p xs (set_table r (table m r) m)"
  by (rule mgr_ok_change [OF ok refl, where r = r and t' = "table m r"])
    (use mgr_ok_pool [OF ok] mgr_ok_table [OF ok, of r] mgr_ok_ncb [OF ok] in
      \<open>simp_all add: set_table_def mgr_static_def num_cached_def undisturbed_refl\<close>)

lemma base_allocate_new_blocks_spec:
  fixes r :: string and n :: int
  assumes ok: "mgr_ok p xs m other" and k: "blocks_needed m r n \<le> int (length xs)"
  defines "ys \<equiv> take (nat (blocks_needed m r n)) xs"
  shows "\<exists>m' p'. base_allocate_new_blocks env r n (m, p) = Inr (ys, m', p')
    \<and> mgr_step p m other p' (drop (nat (blocks_needed m r n)) xs) m'
    \<and> table m' = (table m)(r := table m r @ ys) \<and> num_cached_block m' = num_cached_block m"
proof -
  note t = mgr_ok_pool(1) [OF ok] mgr_ok_table [OF ok, of r] mgr_ok_pool(2-4) [OF ok]
  show ?thesis
  proof (cases "cdiv n (block_size m) - int (length (table m r)) \<le> 0")
    case True
    then have b: "blocks_needed m r n = 0" by (simp add: blocks_needed_def)
    have "base_allocate_new_blocks env r n (m, p) = Inr ([], set_table r (table m r) m, p)"
      using True t(6) by (simp add: base_allocate_new_blocks_def Let_def)
    moreover have "table (set_table r (table m r) m) = (table m)(r := table m r @ ys)"
      using b by (auto simp: table_set_table ys_def fun_eq_iff)
    ultimately show ?thesis using set_table_step [OF ok, of r] b by (simp add: ys_def)
  next
    case False
    let ?k = "cdiv n (block_size m) - int (length (table m r))"
    have b: "blocks_needed m r n = ?k" using False by (simp add: blocks_needed_def)
    have upd: "req_to_blocks (set_table r (table m r @ ys) m) = AList.update r (table m r @ take (nat ?k) xs) (req_to_blocks m)"
      by (simp add: set_table_def ys_def b)
    from extend_request_table [OF ok _ _ upd, of env] False k b obtain p' where
      g: "get_new_blocks env ?k p = Inr (ys, p')"
      by (auto simp: ys_def)
    let ?m = "record_new_ids p' ys (set_table r (table m r @ ys) m)"
    have "base_allocate_new_blocks env r n (m, p) = Inr (ys, ?m, p')"
      using False t(6) g by (simp add: base_allocate_new_blocks_def Let_def set_table_twice)
    moreover have "mgr_step p m other p' (drop (nat ?k) xs) ?m"
    proof -
      have "\<exists>p'. get_new_blocks env ?k p = Inr (take (nat ?k) xs, p') \<and> mgr_step p m other p' (drop (nat ?k) xs) ?m"
        by (rule extend_request_table [OF ok, where r = r]) (use False k b in \<open>simp_all add: upd\<close>)
      then show ?thesis using g by (simp add: ys_def b)
    qed
    ultimately show ?thesis using b by (auto simp: table_set_table fun_eq_iff)
  qed
qed

lemma base_allocate_new_blocks_exhausted:
  assumes ok: "mgr_ok p xs m other" and k: "blocks_needed m r n > int (length xs)"
  shows "base_allocate_new_blocks env r n (m, p) = Inl ValueError"
proof -
  note t = mgr_ok_pool(1) [OF ok] mgr_ok_table [OF ok, of r] mgr_ok_pool(2-4) [OF ok]
  have "cdiv n (block_size m) - int (length (table m r)) > int (length xs)"
    using k by (simp add: blocks_needed_def max_def split: if_splits)
  moreover from this have "get_new_blocks env (cdiv n (block_size m) - int (length (table m r))) p = Inl ValueError"
    by (rule pool.alloc_none [OF t(1)])
  ultimately show ?thesis using t(6) by (simp add: base_allocate_new_blocks_def Let_def)
qed

text \<open>Afterwards the table covers \<open>n\<close> tokens.\<close>

lemma blocks_needed_covers:
  assumes "0 < block_size m"
  shows "n \<le> (int (length (table m r)) + blocks_needed m r n) * block_size m"
proof -
  have "cdiv n (block_size m) \<le> int (length (table m r)) + blocks_needed m r n" by (simp add: blocks_needed_def)
  then have "cdiv n (block_size m) * block_size m \<le> (int (length (table m r)) + blocks_needed m r n) * block_size m"
    using assms by (intro mult_right_mono) auto
  then show ?thesis using cdiv_bounds(1) [OF assms, of n] by linarith
qed

subsection \<open>Freeing a request\<close>

lemma base_free_spec:
  assumes ok: "mgr_ok p xs m other"
  shows "\<exists>m' p' ys. base_free r (m, p) = Inr (m', p') \<and> mgr_step p m other p' (xs @ ys) m'
    \<and> ys = rev (filter (\<lambda>b. \<exists>i. b = Blk i \<and> 0 < i \<and> rest m r other i = 0) (table m r))
    \<and> req_to_blocks m' = AList.delete r (req_to_blocks m)
    \<and> num_cached_block m' = AList.delete r (num_cached_block m) \<and> hash_of p' = hash_of p"
proof -
  note t = mgr_ok_pool(1) [OF ok] mgr_ok_table [OF ok, of r] mgr_ok_pool(2-4) [OF ok]
  from pool.release_table [OF t(1-3)] obtain p' where p': "free_blocks (rev (table m r)) p = Inr p'"
    "static p' = static p"
    "pool_inv p' (xs @ rev (filter (\<lambda>b. \<exists>i. b = Blk i \<and> 0 < i \<and> rest m r other i = 0) (table m r)))"
    "counted (nblocks p) (refs p') [] (rest m r other)" "hash_of p' = hash_of p"
    "undisturbed (nblocks p) (rest m r other) (refs p) (hash_of p) (refs p') (hash_of p')" by blast
  let ?m = "m\<lparr>req_to_blocks := AList.delete r (req_to_blocks m), num_cached_block := AList.delete r (num_cached_block m)\<rparr>"
  have eq: "base_free r (m, p) = Inr (?m, p')" using p'(1) by (simp add: base_free_def Let_def)
  have "mgr_step p m other p' (xs @ rev (filter (\<lambda>b. \<exists>i. b = Blk i \<and> 0 < i \<and> rest m r other i = 0) (table m r))) ?m"
  proof (rule mgr_ok_change [OF ok p'(2,3), where r = r and t' = "[]"])
    show "\<forall>(s, c) \<in> set (num_cached_block ?m). 0 \<le> c" using mgr_ok_ncb [OF ok] by (auto simp: set_alist_delete)
    show "\<forall>s. s \<noteq> r \<longrightarrow> num_cached ?m s = num_cached m s" by (simp add: num_cached_def AList.delete_conv')
  qed (use p' mgr_ok_ncb [OF ok] in \<open>auto simp: mgr_static_def tail_ok_def\<close>)
  then show ?thesis using eq p'(5) by auto
qed

subsection \<open>Blocks that left the window\<close>

text \<open>The loop replaces a run of non-null blocks before position \<open>k\<close> and returns it reversed.\<close>

lemma skip_loop_spec:
  assumes "k \<le> length t"
  shows "\<exists>j \<le> k. skip_loop (Blk 0) k t = (rev (drop j (take k t)), take j t @ replicate (k - j) (Blk 0) @ drop k t)
    \<and> Blk 0 \<notin> set (drop j (take k t)) \<and> (0 < j \<longrightarrow> t ! (j - 1) = Blk 0)"
  using assms
proof (induction k arbitrary: t)
  case 0
  then show ?case by simp
next
  case (Suc k)
  show ?case
  proof (cases "t ! k = Blk 0")
    case True
    then show ?thesis using Suc.prems by (intro exI [of _ "Suc k"]) simp
  next
    case False
    have k: "k < length t" using Suc.prems by simp
    have "k \<le> length (t[k := Blk 0])" using k by simp
    from Suc.IH [OF this] obtain j where j: "j \<le> k"
      "skip_loop (Blk 0) k (t[k := Blk 0]) = (rev (drop j (take k (t[k := Blk 0]))),
         take j (t[k := Blk 0]) @ replicate (k - j) (Blk 0) @ drop k (t[k := Blk 0]))"
      "Blk 0 \<notin> set (drop j (take k (t[k := Blk 0])))" "0 < j \<longrightarrow> t[k := Blk 0] ! (j - 1) = Blk 0" by blast
    have tk: "take k (t[k := Blk 0]) = take k t" "take j (t[k := Blk 0]) = take j t" using j(1) by simp_all
    have dr: "drop k (t[k := Blk 0]) = Blk 0 # drop (Suc k) t"
      using k by (simp add: drop_update_swap Cons_nth_drop_Suc [symmetric])
    have seg: "drop j (take (Suc k) t) = drop j (take k t) @ [t ! k]"
      using k j(1) by (simp add: take_Suc_conv_app_nth)
    have "replicate (k - j) (Blk 0) @ Blk 0 # drop (Suc k) t = replicate (Suc k - j) (Blk 0) @ drop (Suc k) t"
      using j(1) by (simp add: Suc_diff_le replicate_append_same [symmetric])
    then have "skip_loop (Blk 0) (Suc k) t = (rev (drop j (take (Suc k) t)),
        take j t @ replicate (Suc k - j) (Blk 0) @ drop (Suc k) t)"
      using False j(2) by (simp add: tk dr seg)
    moreover have "Blk 0 \<notin> set (drop j (take (Suc k) t))" using j(3) False by (simp add: seg tk)
    moreover have "0 < j \<longrightarrow> t ! (j - 1) = Blk 0" using j(1,4) by (auto simp: nth_list_update)
    ultimately show ?thesis using j(1) by (intro exI [of _ j]) simp
  qed
qed

text \<open>Replacing a part of a table by null blocks and releasing it.\<close>

lemma release_segment:
  assumes ok: "mgr_ok p xs m other" and t: "table m r = a @ bs @ c"
  defines "t' \<equiv> a @ replicate (length bs) (Blk 0) @ c"
  shows "\<exists>p' ys. free_blocks (rev bs) p = Inr p' \<and> mgr_step p m other p' (xs @ ys) (set_table r t' m)
    \<and> hash_of p' = hash_of p
    \<and> ys = rev (filter (\<lambda>b. \<exists>i. b = Blk i \<and> 0 < i \<and> rest m r other i = 0) bs)"
proof -
  note mt = mgr_ok_pool(1) [OF ok] mgr_ok_table [OF ok, of r] mgr_ok_pool(2-4) [OF ok]
  have n0: "0 < nblocks p" by (rule pool.size_pos [OF mt(1)])
  have tk: "table_ok (nblocks p) t'" "table_ok (nblocks p) (rev bs)"
    using mt(2) n0 unfolding t t'_def by (auto simp: table_ok_append)
  have split: "\<forall>i. 0 < i \<longrightarrow> count_list (table m r) (Blk i) = count_list t' (Blk i) + count_list (rev bs) (Blk i)"
    by (simp add: t t'_def)
  from pool.release_part [OF mt(1,2) tk mt(3) split] obtain p' ys where p': "free_blocks (rev bs) p = Inr p'"
    "pool_inv p' (xs @ ys)" "static p' = static p"
    "ys = filter (\<lambda>b. \<exists>i. b = Blk i \<and> 0 < i \<and> rest m r other i = 0) (rev bs)"
    "counted (nblocks p) (refs p') t' (rest m r other)" "hash_of p' = hash_of p"
    "\<forall>i. 0 < i \<and> Blk i \<notin> set (rev bs) \<longrightarrow> refs p' i = refs p i"
    "undisturbed (nblocks p) (rest m r other) (refs p) (hash_of p) (refs p') (hash_of p')" by blast
  have tl: "tail_ok (refs p') (hash_of p') t' n" if "tail_ok (refs p) (hash_of p) (table m r) n" for n
    unfolding tail_ok_def
  proof (intro allI impI)
    fix i assume i: "0 < i \<and> Blk i \<in> set (drop n t')"
    have "Blk i \<in> set (drop n (table m r)) \<and> Blk i \<notin> set bs"
      using i mt(2) unfolding t t'_def
      by (auto simp: table_ok_append dest: in_set_dropD split: if_splits)
    then show "hash_of p' i = None \<and> refs p' i = 1" using that i p'(6,7) by (auto simp: tail_ok_def)
  qed
  have "mgr_step p m other p' (xs @ ys) (set_table r t' m)"
    by (rule mgr_ok_change [OF ok p'(3,2), where r = r and t' = t'])
      (use p' tk tl mt mgr_ok_ncb [OF ok] in \<open>simp_all add: set_table_def mgr_static_def num_cached_def\<close>)
  then show ?thesis using p' by (auto simp: rev_filter)
qed

lemma sink_blocks_set_table [simp]: "sink_blocks (set_table r t m) = sink_blocks m"
  by (simp add: set_table_def)

text \<open>The skipped tokens as a number, where the chunk size of chunked attention is positive.\<close>

definition skip_ok :: "manager \<Rightarrow> bool" where
  "skip_ok m \<longleftrightarrow> (case mgr_spec m of ChunkedLocalAttentionSpec a c \<Rightarrow> 0 < c | SlidingWindowSpec a w \<Rightarrow> 0 < w | _ \<Rightarrow> True)"

definition skipped_tokens :: "manager \<Rightarrow> int \<Rightarrow> int" where
  "skipped_tokens m n =
     (case mgr_spec m of SlidingWindowSpec a w \<Rightarrow> max 0 (n - w + 1)
      | ChunkedLocalAttentionSpec a c \<Rightarrow> n div c * c | MambaSpec ms \<Rightarrow> n - 1 | _ \<Rightarrow> 0)"

lemma get_num_skipped_tokens_eq: "skip_ok m \<Longrightarrow> get_num_skipped_tokens m n = Inr (skipped_tokens m n)"
  by (auto simp: skip_ok_def get_num_skipped_tokens_def skipped_tokens_def split: layer_spec.splits)

lemma skipped_le: "skip_ok m \<Longrightarrow> 0 \<le> n \<Longrightarrow> skipped_tokens m n \<le> n"
proof -
  assume a: "skip_ok m" "0 \<le> n"
  have "n div c * c \<le> n" if "0 < c" for c
    using div_mult_mod_eq [of n c] pos_mod_sign [OF that, of n] by linarith
  then show ?thesis using a by (auto simp: skip_ok_def skipped_tokens_def split: layer_spec.splits)
qed

lemma skipped_set_table [simp]:
  "skipped_tokens (set_table r t m) = skipped_tokens m" "skip_ok (set_table r t m) = skip_ok m"
  by (simp_all add: skipped_tokens_def skip_ok_def fun_eq_iff)

definition skipped_blocks :: "manager \<Rightarrow> int \<Rightarrow> nat" where
  "skipped_blocks m n = nat (skipped_tokens m n div block_size m)"

lemma base_remove_skipped_blocks_spec:
  fixes r :: string and n :: int
  assumes ok: "mgr_ok p xs m other" and sk: "skip_ok m"
  defines "k \<equiv> min (skipped_blocks m n) (length (table m r))"
  shows "\<exists>m' p' ys j. base_remove_skipped_blocks r n (m, p) = Inr (m', p') \<and> mgr_step p m other p' (xs @ ys) m'
    \<and> num_cached_block m' = num_cached_block m \<and> hash_of p' = hash_of p
    \<and> j \<le> k \<and> Blk 0 \<notin> set (drop j (take k (table m r))) \<and> (0 < j \<longrightarrow> table m r ! (j - 1) = Blk 0)
    \<and> table m' = (table m)(r := take j (table m r) @ replicate (k - j) (Blk 0) @ drop k (table m r))
    \<and> ys = rev (filter (\<lambda>b. \<exists>i. b = Blk i \<and> 0 < i \<and> rest m r other i = 0) (drop j (take k (table m r))))"
proof -
  note t = mgr_ok_pool [OF ok]
  note g = get_num_skipped_tokens_eq [OF sk, of n]
  obtain j where j: "j \<le> k" "Blk 0 \<notin> set (drop j (take k (table m r)))" "0 < j \<longrightarrow> table m r ! (j - 1) = Blk 0"
    "skip_loop (Blk 0) k (table m r) = (rev (drop j (take k (table m r))),
       take j (table m r) @ replicate (k - j) (Blk 0) @ drop k (table m r))"
    using skip_loop_spec [of k "table m r"] by (auto simp: k_def)
  show ?thesis
  proof (cases "skipped_tokens m n \<le> 0")
    case True
    then have k0: "k = 0"
      using t(2) by (simp add: k_def skipped_blocks_def div_nonpos_pos_le0 nat_le_0)
    have "base_remove_skipped_blocks r n (m, p) = Inr (m, p)" using True g by (simp add: base_remove_skipped_blocks_def)
    then show ?thesis using mgr_step_refl [OF ok] k0 j(1)
      by (intro exI [of _ m] exI [of _ p] exI [of _ "[]"] exI [of _ 0]) (simp add: fun_eq_iff)
  next
    case False
    let ?t = "table m r"
    have split: "?t = take j ?t @ drop j (take k ?t) @ drop k ?t"
      using j(1) by (metis append.assoc append_take_drop_id min.absorb1 take_take)
    have len: "length (drop j (take k ?t)) = k - j" by (simp add: k_def)
    from release_segment [OF ok split] obtain p' ys where r: "free_blocks (rev (drop j (take k ?t))) p = Inr p'"
      "mgr_step p m other p' (xs @ ys) (set_table r (take j ?t @ replicate (k - j) (Blk 0) @ drop k ?t) m)"
      "hash_of p' = hash_of p"
      "ys = rev (filter (\<lambda>b. \<exists>i. b = Blk i \<and> 0 < i \<and> rest m r other i = 0) (drop j (take k ?t)))"
      unfolding len by blast
    have k: "nat (min (skipped_tokens m n div block_size m) (int (length ?t))) = k"
      by (auto simp: k_def skipped_blocks_def min_def nat_le_iff)
    have "base_remove_skipped_blocks r n (m, p)
        = Inr (set_table r (take j ?t @ replicate (k - j) (Blk 0) @ drop k ?t) m, p')"
      using False g t(2,3) r(1) j(4) by (simp add: base_remove_skipped_blocks_def Let_def set_table_twice k)
    then show ?thesis using r j by (auto simp: table_set_table fun_eq_iff)
  qed
qed

subsection \<open>Caching the full blocks of a request\<close>

lemma table_ok_nth_disjoint:
  assumes "table_ok n t" "0 < i" "Blk i \<in> set (take b t)"
  shows "Blk i \<notin> set (drop b t)"
proof -
  have "table_ok n (take b t @ drop b t)" using assms(1) by simp
  then have "\<forall>c. c \<noteq> Blk 0 \<longrightarrow> \<not> (c \<in> set (take b t) \<and> c \<in> set (drop b t))"
    unfolding table_ok_append by (elim conjE)
  then have "Blk i \<noteq> Blk 0 \<longrightarrow> \<not> (Blk i \<in> set (take b t) \<and> Blk i \<in> set (drop b t))" by (rule spec)
  then show ?thesis using assms(2,3) by simp
qed

definition cacheable :: "block_pool \<Rightarrow> request \<Rightarrow> manager \<Rightarrow> int \<Rightarrow> bool" where
  "cacheable p r m n \<longleftrightarrow> hash_size_ok p (block_size m) \<and> 0 \<le> kv_cache_group_id m \<and> kv_cache_group_id m < 4294967296
     \<and> n div block_size m \<le> int (length (table m (request_id r)))
     \<and> n div block_size m \<le> bhl_length (group_hashes p r (block_size m))"

lemma base_cache_blocks_spec:
  assumes ok: "mgr_ok p xs m other" and c: "enable_caching p" and ca: "cacheable p r m n"
  shows "\<exists>m' p'. base_cache_blocks env r n (m, p) = Inr (m', p') \<and> mgr_step p m other p' xs m'
    \<and> table m' = table m \<and> refs p' = refs p \<and> cached_blocks_this_step m' = cached_blocks_this_step m
    \<and> num_cached m' (request_id r) = max (num_cached m (request_id r)) (n div block_size m)
    \<and> (\<forall>j. num_cached m (request_id r) \<le> int j \<and> int j < n div block_size m
         \<and> table m (request_id r) ! j \<noteq> Blk 0 \<longrightarrow>
         (\<exists>h. bhl_get (group_hashes p r (block_size m)) (int j) = Inr h
              \<and> holds_hash p' h (kv_cache_group_id m) (table m (request_id r) ! j)))"
proof -
  let ?r = "request_id r" and ?t = "table m (request_id r)" and ?c = "num_cached m (request_id r)"
    and ?f = "n div block_size m"
  note t = mgr_ok_pool [OF ok] and q = mgr_ok_table [OF ok, of "request_id r"]
  show ?thesis
  proof (cases "?c \<ge> ?f")
    case True
    then have "base_cache_blocks env r n (m, p) = Inr (m, p)" using t(2) by (simp add: base_cache_blocks_def Let_def)
    then show ?thesis using mgr_step_refl [OF ok] True by (intro exI [of _ m] exI [of _ p]) auto
  next
    case False
    define new where "new = take (nat ?f - nat ?c) (drop (nat ?c) ?t)"
    have sub: "set new \<subseteq> set (drop (nat ?c) ?t)" by (simp add: new_def set_take_subset)
    have tl: "hash_of p i = None" "refs p i = 1" if "0 < i" "Blk i \<in> set new" for i
      using q(3) c sub that by (auto simp: tail_ok_def)
    have okn: "table_ok (nblocks p) new"
      using table_ok_drop [OF q(1), of "nat ?c"] unfolding new_def
      by (metis append_take_drop_id table_ok_append)
    have pr: "\<forall>b \<in> set new. pool_ref p b" using okn by (auto simp: table_ok_def pool_ref_def)
    have d: "distinct (filter (\<lambda>b. b \<noteq> Blk 0) new)" using okn by (simp add: table_ok_def)
    have h: "\<forall>i. 0 < i \<and> Blk i \<in> set new \<longrightarrow> hash_of p i = None" using tl by blast
    have ca': "hash_size_ok p (block_size m)" "0 \<le> kv_cache_group_id m" "kv_cache_group_id m < 4294967296"
      "?f \<le> int (length ?t)" "?f \<le> bhl_length (group_hashes p r (block_size m))"
      using ca by (simp_all add: cacheable_def)
    have "\<exists>p'. cache_full_blocks env r ?t ?c ?f (block_size m) (kv_cache_group_id m) p = Inr p' \<and> static p' = static p
      \<and> refs p' = refs p \<and> pool_inv p' xs \<and> (\<forall>i. Blk i \<notin> set new \<or> i = 0 \<longrightarrow> hash_of p' i = hash_of p i)
      \<and> (\<forall>j. nat ?c \<le> j \<and> j < nat ?f \<and> ?t ! j \<noteq> Blk 0 \<longrightarrow>
           (\<exists>hash. bhl_get (group_hashes p r (block_size m)) (int j) = Inr hash
             \<and> holds_hash p' hash (kv_cache_group_id m) (?t ! j)))"
      unfolding new_def
      by (rule cache_full_blocks_spec [OF t(1) q(4) _ ca'(4,1,5,2,3)])
        (use False pr d h in \<open>simp_all add: new_def\<close>)
    then obtain p' where p': "cache_full_blocks env r ?t ?c ?f (block_size m) (kv_cache_group_id m) p = Inr p'"
      "static p' = static p" "refs p' = refs p" "pool_inv p' xs"
      "\<forall>i. Blk i \<notin> set new \<or> i = 0 \<longrightarrow> hash_of p' i = hash_of p i"
      "\<forall>j. nat ?c \<le> j \<and> j < nat ?f \<and> ?t ! j \<noteq> Blk 0 \<longrightarrow>
           (\<exists>hash. bhl_get (group_hashes p r (block_size m)) (int j) = Inr hash
             \<and> holds_hash p' hash (kv_cache_group_id m) (?t ! j))" by blast
    define m' where "m' = (set_table ?r ?t m)\<lparr>num_cached_block := AList.update ?r ?f (num_cached_block m)\<rparr>"
    have eq: "base_cache_blocks env r n (m, p) = Inr (m', p')"
      using False t(2) p'(1) by (simp add: base_cache_blocks_def Let_def m'_def)
    have nc: "num_cached m' s = (if s = ?r then ?f else num_cached m s)" for s
      by (simp add: m'_def num_cached_def AList.update_conv')
    have f0: "0 \<le> ?f" using False q(4) by linarith
    have un: "undisturbed (nblocks p) (rest m ?r other) (refs p) (hash_of p) (refs p') (hash_of p')"
      unfolding undisturbed_def
    proof (intro allI impI)
      fix i assume i: "0 < i \<and> i < nblocks p \<and> 0 < rest m ?r other i \<and> refs p i = 1 \<and> hash_of p i = None"
      have "Blk i \<notin> set new"
      proof
        assume mem: "Blk i \<in> set new"
        then have "0 < count_list ?t (Blk i)"
          using sub count_list_0_iff [of ?t "Blk i"] by (auto dest: in_set_dropD)
        then show False using i q(2) by (auto simp: counted_def)
      qed
      then show "refs p' i = 1 \<and> hash_of p' i = None" using i p'(3,5) by simp
    qed
    have tl': "tail_ok (refs p') (hash_of p') ?t (nat (num_cached m' ?r))"
      unfolding tail_ok_def nc if_P [OF refl]
    proof (intro allI impI)
      fix i assume i: "0 < i \<and> Blk i \<in> set (drop (nat ?f) ?t)"
      have cf: "nat ?c \<le> nat ?f" using False by simp
      have "new = drop (nat ?c) (take (nat ?f) ?t)" by (simp add: new_def drop_take)
      then have "Blk i \<notin> set new"
        using i table_ok_nth_disjoint [OF q(1), of i "nat ?f"] by (auto dest: in_set_dropD)
      moreover have "Blk i \<in> set (drop (nat ?c) ?t)" using i set_drop_subset_set_drop [OF cf, of ?t] by blast
      ultimately show "hash_of p' i = None \<and> refs p' i = 1" using q(3) c i p'(3,5) by (simp add: tail_ok_def)
    qed
    have "mgr_step p m other p' xs m'"
    proof (rule mgr_ok_change [OF ok p'(2,4), where r = ?r and t' = ?t])
      show "\<forall>(s, c) \<in> set (num_cached_block m'). 0 \<le> c"
        using mgr_ok_ncb(2) [OF ok] f0 set_alist_update [of ?r ?f "num_cached_block m"] by (auto simp: m'_def)
    qed (use mgr_ok_ncb(1) [OF ok] q un tl' p'(3) nc in
        \<open>simp_all add: m'_def mgr_static_def\<close>, simp add: set_table_def)
    moreover have "table m' = table m" by (auto simp: m'_def table_set_table table_def fun_eq_iff set_table_def AList.update_conv')
    moreover have "cached_blocks_this_step m' = cached_blocks_this_step m" by (simp add: m'_def set_table_def)
    moreover have "\<forall>j. ?c \<le> int j \<and> int j < ?f \<and> ?t ! j \<noteq> Blk 0 \<longrightarrow>
           (\<exists>hash. bhl_get (group_hashes p r (block_size m)) (int j) = Inr hash
             \<and> holds_hash p' hash (kv_cache_group_id m) (?t ! j))"
      using p'(6) by (simp only: nat_le_iff zless_nat_eq_int_zless)
    ultimately show ?thesis using eq p'(3) nc False by (intro exI [of _ m'] exI [of _ p']) simp
  qed
qed

subsection \<open>Adopting cache hits\<close>

text \<open>
  What the caller promises: the hits are blocks of the pool that carry a hash, without
  repetition, and cover at most the computed tokens.
\<close>

definition hits_ok :: "block_pool \<Rightarrow> manager \<Rightarrow> bref list \<Rightarrow> int \<Rightarrow> bool" where
  "hits_ok p m hits tot \<longleftrightarrow> table_ok (nblocks p) hits \<and> (\<forall>i. 0 < i \<and> Blk i \<in> set hits \<longrightarrow> hash_of p i \<noteq> None)
     \<and> (enable_caching p \<or> hits = []) \<and> int (length hits) * block_size m \<le> tot \<and> 0 \<le> tot"

text \<open>The table after the skipped prefix was replaced by null blocks.\<close>

definition hit_table :: "manager \<Rightarrow> bref list \<Rightarrow> int \<Rightarrow> bref list" where
  "hit_table m hits tot =
     replicate (skipped_blocks m tot) (Blk 0) @ drop (skipped_blocks m tot) hits"

text \<open>How many blocks are allocated for the tokens that an external cache provides.\<close>

definition external_blocks :: "manager \<Rightarrow> bref list \<Rightarrow> int \<Rightarrow> int \<Rightarrow> int" where
  "external_blocks m hits nl ne =
     (let tot = nl + ne; ext = (if skipped_blocks m tot > 0 then min (tot - skipped_tokens m tot) ne else ne)
      in if ext > 0 then cdiv tot (block_size m) - int (length (hit_table m hits tot)) else 0)"

lemma skipped_blocks_le:
  assumes "skip_ok m" "0 < block_size m" "0 \<le> n"
  shows "int (skipped_blocks m n) \<le> cdiv n (block_size m)"
proof -
  have "skipped_tokens m n div block_size m \<le> n div block_size m"
    using skipped_le [OF assms(1,3)] assms(2) by (rule zdiv_mono1)
  also have "\<dots> \<le> cdiv n (block_size m)" by (rule div_le_cdiv [OF assms(2)])
  finally show ?thesis using cdiv_nonneg [OF assms(2,3)] by (simp add: skipped_blocks_def)
qed

lemma hit_table_length: "length (hit_table m hits n) = max (skipped_blocks m n) (length hits)"
  by (simp add: hit_table_def max_def)

lemma hits_ok_length:
  assumes "hits_ok p m hits tot" "0 < block_size m"
  shows "int (length hits) \<le> cdiv tot (block_size m)"
proof (rule ccontr)
  assume "\<not> ?thesis"
  then have "cdiv tot (block_size m) * block_size m < int (length hits) * block_size m"
    using assms(2) by (simp add: mult_less_cancel_right)
  then show False using cdiv_bounds(1) [OF assms(2), of tot] assms(1) by (simp add: hits_ok_def)
qed

lemma external_blocks_nonneg:
  assumes "hits_ok p m hits (nl + ne)" "skip_ok m" "0 < block_size m"
  shows "0 \<le> external_blocks m hits nl ne"
  using skipped_blocks_le [OF assms(2,3), of "nl + ne"] hits_ok_length [OF assms(1,3)] assms(1)
  by (simp add: external_blocks_def hit_table_length hits_ok_def Let_def of_nat_max)

lemma base_allocate_new_computed_blocks_eq:
  fixes nl ne :: int and hits :: "bref list"
  assumes bs: "0 < block_size m" and sk: "skip_ok m" and nr: "\<not> is_running m r" "table m r = []"
    and nul: "mgr_null_block m = Blk 0"
  defines "req \<equiv> hit_table m hits (nl + ne)" and "k \<equiv> external_blocks m hits nl ne"
    and "ext \<equiv> (if skipped_blocks m (nl + ne) > 0 then min (nl + ne - skipped_tokens m (nl + ne)) ne else ne)"
  defines "m1 \<equiv> (set_table r req m)\<lparr>num_cached_block := AList.update r (int (length req)) (num_cached_block m)\<rparr>"
  assumes st: "(if mgr_enable_caching m then touch (drop (skipped_blocks m (nl + ne)) hits) p
      else ebind (eassert (drop (skipped_blocks m (nl + ne)) hits = [])) (\<lambda>_. Inr p)) = Inr p1"
  shows "base_allocate_new_computed_blocks env r hits nl ne (m, p) =
    (if ext > 0 then ebind (get_new_blocks env k p1) (\<lambda>(bs, p).
       Inr (record_new_ids p bs (set_table r (req @ bs) m1), p)) else Inr (m1, p1))"
proof -
  let ?q = "skipped_tokens m (nl + ne) div block_size m"
  have g: "get_num_skipped_tokens m (nl + ne) = Inr (skipped_tokens m (nl + ne))"
    by (rule get_num_skipped_tokens_eq [OF sk])
  have pair: "(if ?q > 0 then (py_drop hits ?q, min (nl + ne - skipped_tokens m (nl + ne)) ne) else (hits, ne))
      = (drop (skipped_blocks m (nl + ne)) hits, ext)"
    by (auto simp: ext_def skipped_blocks_def py_drop_nonneg)
  have req: "replicate (nat ?q) (mgr_null_block m) @ drop (skipped_blocks m (nl + ne)) hits = req"
    by (simp add: req_def hit_table_def skipped_blocks_def nul)
  have run: "is_running m r = False" "(table m r = []) = True" using nr by simp_all
  have pd: "pdiv (skipped_tokens m (nl + ne)) (block_size m) = Inr ?q" using bs by simp
  have bsm: "block_size m1 = block_size m" by (simp add: m1_def)
  have "base_allocate_new_computed_blocks env r hits nl ne (m, p) =
    (if ext > 0 then ebind (get_new_blocks env (cdiv (nl + ne) (block_size m) - int (length req)) p1) (\<lambda>(bs, p).
       Inr (record_new_ids p bs (set_table r (req @ bs) m1), p)) else Inr (m1, p1))"
    unfolding base_allocate_new_computed_blocks_def
    by (simp only: case_prod_conv run if_False eassert_True ebind_simps Let_def g pd pair st req
        set_table_fields(1) m1_def [symmetric] bsm)
  also have "\<dots> = (if ext > 0 then ebind (get_new_blocks env k p1) (\<lambda>(bs, p).
       Inr (record_new_ids p bs (set_table r (req @ bs) m1), p)) else Inr (m1, p1))"
    by (simp add: k_def external_blocks_def ext_def req_def Let_def)
  finally show ?thesis .
qed

lemma hits_ok_drop: "hits_ok p m hits tot \<Longrightarrow> table_ok (nblocks p) (drop k hits)
    \<and> (\<forall>i. 0 < i \<and> Blk i \<in> set (drop k hits) \<longrightarrow> hash_of p i \<noteq> None)"
  by (auto simp: hits_ok_def intro: table_ok_drop dest: in_set_dropD)

text \<open>The pool and the manager once the hits are touched and entered, before any allocation.\<close>

lemma adopt_hits_step:
  assumes ok: "mgr_ok p xs m other" and tb: "table m r = []" and h: "hits_ok p m hits tot"
  defines "hs \<equiv> drop (skipped_blocks m tot) hits" and "req \<equiv> hit_table m hits tot"
  defines "m1 \<equiv> (set_table r req m)\<lparr>num_cached_block := AList.update r (int (length req)) (num_cached_block m)\<rparr>"
  shows "\<exists>p1. (if mgr_enable_caching m then touch hs p else ebind (eassert (hs = [])) (\<lambda>_. Inr p)) = Inr p1
    \<and> mgr_step p m other p1 (filter (\<lambda>b. b \<notin> set hs) xs) m1 \<and> hash_of p1 = hash_of p"
proof -
  note t = mgr_ok_pool [OF ok] and q = mgr_ok_table [OF ok, of r]
  note hd = hits_ok_drop [OF h, of "skipped_blocks m tot"]
  have n0: "0 < nblocks p" by (rule pool.size_pos [OF t(1)])
  have tk: "table_ok (nblocks p) ([] @ hs)" using hd by (simp add: hs_def)
  have ct: "counted (nblocks p) (refs p) [] (rest m r other)" using q(2) tb by simp
  obtain p1 where p1: "(if mgr_enable_caching m then touch hs p else ebind (eassert (hs = [])) (\<lambda>_. Inr p)) = Inr p1"
    "pool_inv p1 (filter (\<lambda>b. b \<notin> set hs) xs)" "static p1 = static p"
    "counted (nblocks p) (refs p1) ([] @ hs) (rest m r other)" "hash_of p1 = hash_of p"
    "undisturbed (nblocks p) (rest m r other) (refs p) (hash_of p) (refs p1) (hash_of p1)"
  proof (cases "mgr_enable_caching m")
    case True
    then show ?thesis using that pool.adopt_hits [OF t(1) tk ct] hd by (auto simp: hs_def)
  next
    case False
    then have "hs = []" using h t(4) by (simp add: hits_ok_def hs_def)
    then show ?thesis using that [of p] False t(1) ct undisturbed_refl by simp
  qed
  have "mgr_step p m other p1 (filter (\<lambda>b. b \<notin> set hs) xs) m1"
  proof (rule mgr_ok_change [OF ok p1(3,2), where r = r and t' = req])
    show "table_ok (nblocks p) req"
      using hd n0 by (auto simp: req_def hit_table_def table_ok_append)
    show "counted (nblocks p) (refs p1) req (rest m r other)"
      using p1(4) by (simp add: counted_def req_def hit_table_def hs_def)
    have "num_cached m1 r = int (length req)" by (simp add: m1_def num_cached_def AList.update_conv')
    then show "enable_caching p \<longrightarrow> tail_ok (refs p1) (hash_of p1) req (nat (num_cached m1 r))"
      by (simp add: tail_ok_def)
    show "\<forall>(s, c) \<in> set (num_cached_block m1). 0 \<le> c"
      using mgr_ok_ncb(2) [OF ok] set_alist_update [of r "int (length req)" "num_cached_block m"]
      by (auto simp: m1_def)
    show "\<forall>s. s \<noteq> r \<longrightarrow> num_cached m1 s = num_cached m s"
      by (simp add: m1_def num_cached_def AList.update_conv')
    show "mgr_static m1 = mgr_static m" by (simp add: m1_def mgr_static_def)
    show "distinct (map fst (num_cached_block m1))" using mgr_ok_ncb(1) [OF ok] by (simp add: m1_def)
  qed (use p1 in \<open>simp_all add: m1_def set_table_def\<close>)
  then show ?thesis using p1 by blast
qed

lemma base_allocate_new_computed_blocks_spec:
  fixes nl ne :: int
  assumes ok: "mgr_ok p xs m other" and sk: "skip_ok m" and nr: "\<not> is_running m r" and tb: "table m r = []"
    and h: "hits_ok p m hits (nl + ne)"
  defines "req \<equiv> hit_table m hits (nl + ne)" and "k \<equiv> external_blocks m hits nl ne"
    and "xs1 \<equiv> filter (\<lambda>b. b \<notin> set (drop (skipped_blocks m (nl + ne)) hits)) xs"
  assumes len: "k \<le> int (length xs1)"
  shows "\<exists>m' p'. base_allocate_new_computed_blocks env r hits nl ne (m, p) = Inr (m', p')
    \<and> mgr_step p m other p' (drop (nat k) xs1) m'
    \<and> table m' = (table m)(r := req @ take (nat k) xs1) \<and> is_running m' r
    \<and> num_cached m' r = int (length req)"
proof -
  note t = mgr_ok_pool [OF ok]
  define ext where "ext = (if skipped_blocks m (nl + ne) > 0 then min (nl + ne - skipped_tokens m (nl + ne)) ne else ne)"
  define m1 where "m1 = (set_table r req m)\<lparr>num_cached_block := AList.update r (int (length req)) (num_cached_block m)\<rparr>"
  obtain p1 where p1: "(if mgr_enable_caching m then touch (drop (skipped_blocks m (nl + ne)) hits) p
      else ebind (eassert (drop (skipped_blocks m (nl + ne)) hits = [])) (\<lambda>_. Inr p)) = Inr p1"
    "mgr_step p m other p1 xs1 m1"
    using adopt_hits_step [OF ok tb h] unfolding m1_def req_def xs1_def by blast
  have tm1: "table m1 = (table m)(r := req)"
    by (auto simp: m1_def fun_eq_iff table_def set_table_def AList.update_conv')
  have nm1: "is_running m1 r" "num_cached m1 r = int (length req)"
    by (auto simp: m1_def is_running_def num_cached_def AList.update_conv')
  note eq = base_allocate_new_computed_blocks_eq [OF t(2) sk nr tb t(3) p1(1), of env,
      folded req_def k_def ext_def, folded m1_def]
  show ?thesis
  proof (cases "ext > 0")
    case False
    then have "k = 0" by (simp add: k_def external_blocks_def ext_def Let_def)
    then show ?thesis using eq False p1(2) tm1 nm1 by simp
  next
    case True
    note ok1 = mgr_step_ok [OF p1(2)]
    have k0: "0 \<le> k" unfolding k_def by (rule external_blocks_nonneg [OF h sk t(2)])
    define m2 where "m2 p bs = record_new_ids p bs (set_table r (req @ bs) m1)" for p bs
    have upd: "req_to_blocks (m2 p' (take (nat k) xs1)) = AList.update r (table m1 r @ take (nat k) xs1) (req_to_blocks m1)" for p'
      by (simp add: m2_def set_table_def tm1)
    have "\<exists>p'. get_new_blocks env k p1 = Inr (take (nat k) xs1, p')
        \<and> mgr_step p1 m1 other p' (drop (nat k) xs1) (m2 p'' (take (nat k) xs1))" for p''
      by (rule extend_request_table [OF ok1 k0 len upd]) (simp_all add: m2_def)
    then obtain p' where p': "get_new_blocks env k p1 = Inr (take (nat k) xs1, p')"
      "mgr_step p1 m1 other p' (drop (nat k) xs1) (m2 p' (take (nat k) xs1))"
      by (metis Inr_inject prod.inject)
    have "base_allocate_new_computed_blocks env r hits nl ne (m, p) = Inr (m2 p' (take (nat k) xs1), p')"
      using eq True p'(1) by (simp add: m2_def)
    moreover have "table (m2 p' (take (nat k) xs1)) = (table m)(r := req @ take (nat k) xs1)"
      by (auto simp: m2_def table_set_table tm1 fun_eq_iff)
    moreover have "is_running (m2 p' (take (nat k) xs1)) r" "num_cached (m2 p' (take (nat k) xs1)) r = int (length req)"
      using nm1 by (simp_all add: m2_def)
    ultimately show ?thesis using mgr_step_trans [OF p1(2) p'(2)] by blast
  qed
qed

lemma base_allocate_new_computed_blocks_running:
  "is_running m r \<Longrightarrow> base_allocate_new_computed_blocks env r hits nl ne (m, p)
     = (if hits = [] then Inr (m, p) else Inl AssertionError)"
  by (simp add: base_allocate_new_computed_blocks_def eassert_def)

subsection \<open>The block count is what allocation takes\<close>

text \<open>Blocks on the free list among the hits that survive the window.\<close>

lemma evictable_eq:
  assumes inv: "pool_inv p xs" and tk: "table_ok (nblocks p) hs"
  shows "get_num_evictable_blocks p hs = int (length (filter (\<lambda>b. b \<in> set xs) hs))"
    and "length (filter (\<lambda>b. b \<notin> set hs) xs) + length (filter (\<lambda>b. b \<in> set xs) hs) = length xs"
proof -
  have eq: "(ref_cnt (heap p b) = 0 \<and> \<not> is_null (heap p b)) \<longleftrightarrow> b \<in> set xs" if b: "b \<in> set hs" for b
  proof -
    obtain i where i: "b = Blk i" "i < nblocks p" using tk b by (auto simp: table_ok_def)
    show ?thesis
    proof (cases "i = 0")
      case True
      then show ?thesis using pool_coreD(6) [OF inv, of 0] pool_core_free_ref [OF inv, of b] i(1) by auto
    next
      case False
      then show ?thesis using free_iff_unreferenced [OF inv, of i] i pool_coreD(6) [OF inv, of i] by (simp add: refs_def)
    qed
  qed
  show "get_num_evictable_blocks p hs = int (length (filter (\<lambda>b. b \<in> set xs) hs))"
    unfolding get_num_evictable_blocks_def by (simp add: eq cong: filter_cong)
  have d: "distinct xs" by (rule pool_core_distinct [OF inv])
  have nn: "Blk 0 \<notin> set xs" using pool_core_free_ref [OF inv, of "Blk 0"] by auto
  have dh: "distinct (filter (\<lambda>b. b \<in> set xs) hs)"
  proof -
    have "filter (\<lambda>b. b \<in> set xs) hs = filter (\<lambda>b. b \<in> set xs) (filter (\<lambda>b. b \<noteq> Blk 0) hs)"
      using nn by (auto simp: filter_filter intro!: filter_cong)
    then show ?thesis using tk by (metis distinct_filter table_ok_def)
  qed
  have "set (filter (\<lambda>b. b \<in> set xs) hs) = set (filter (\<lambda>b. b \<in> set hs) xs)" by auto
  then have "length (filter (\<lambda>b. b \<in> set xs) hs) = length (filter (\<lambda>b. b \<in> set hs) xs)"
    using dh d by (metis distinct_card distinct_filter)
  then show "length (filter (\<lambda>b. b \<notin> set hs) xs) + length (filter (\<lambda>b. b \<in> set xs) hs) = length xs"
    using sum_length_filter_compl [of "\<lambda>b. b \<in> set hs" xs] by simp
qed

subsection \<open>A new manager\<close>

text \<open>Every class but the one with sink blocks starts with empty tables and an untouched pool.\<close>

lemma init_manager_ok:
  assumes inv: "pool_inv p xs" and cls: "spec_manager_map spec = Inr cls" "cls \<noteq> SinkFullAttentionManager"
    and bs: "0 < spec_block_size spec" and ref: "\<forall>i. 0 < i \<and> i < nblocks p \<longrightarrow> refs p i = int (other i)"
  shows "\<exists>m. init_manager spec p (enable_caching p) g dcp pcp = Inr (m, p) \<and> mgr_ok p xs m other
    \<and> mgr_class m = cls \<and> mgr_spec m = spec \<and> kv_cache_group_id m = g \<and> req_to_blocks m = []
    \<and> num_cached_block m = []
    \<and> block_size m = (if dcp * pcp > 1 then spec_block_size spec * (dcp * pcp) else spec_block_size spec)"
proof -
  have nb: "null_block p = Blk 0" using pool_coreD(3) [OF inv] .
  have pos: "0 < (if dcp * pcp > 1 then spec_block_size spec * (dcp * pcp) else spec_block_size spec)"
    using bs by simp
  have ok: "mgr_ok p xs m other"
    if "req_to_blocks m = []" "num_cached_block m = []" "mgr_null_block m = Blk 0" "0 < block_size m"
      "mgr_enable_caching m = enable_caching p" for m
    using that inv ref by (simp add: mgr_ok_def mgr_wf_def mgr_tails_def tail_ok_def table_def mgr_count_def entry_count_def)
  show ?thesis
    using cls nb pos by (cases spec) (auto simp: init_manager_def Let_def intro!: ok)
qed

lemma mgr_ok_fields:
  "mgr_ok p xs (m\<lparr>allocated_block_reqs := a, last_state_block_idx := l\<rparr>) other = mgr_ok p xs m other"
  "mgr_ok p xs (m\<lparr>last_state_block_idx := l\<rparr>) other = mgr_ok p xs m other"
  "mgr_ok p xs (m\<lparr>allocated_block_reqs := a\<rparr>) other = mgr_ok p xs m other"
  "mgr_ok p xs (m\<lparr>cached_blocks_this_step := h\<rparr>) other = mgr_ok p xs m other"
  by (simp_all add: mgr_ok_def mgr_wf_def mgr_tails_def table_def num_cached_def mgr_count_def)

lemma mgr_view_fields [simp]:
  "table (m\<lparr>allocated_block_reqs := a\<rparr>) = table m" "table (m\<lparr>last_state_block_idx := l\<rparr>) = table m"
  "table (m\<lparr>cached_blocks_this_step := h\<rparr>) = table m"
  "num_cached (m\<lparr>allocated_block_reqs := a\<rparr>) = num_cached m" "num_cached (m\<lparr>last_state_block_idx := l\<rparr>) = num_cached m"
  "num_cached (m\<lparr>cached_blocks_this_step := h\<rparr>) = num_cached m"
  "rest_count (m\<lparr>allocated_block_reqs := a\<rparr>) = rest_count m" "rest_count (m\<lparr>last_state_block_idx := l\<rparr>) = rest_count m"
  "mgr_static (m\<lparr>allocated_block_reqs := a\<rparr>) = mgr_static m" "mgr_static (m\<lparr>last_state_block_idx := l\<rparr>) = mgr_static m"
  "mgr_static (m\<lparr>cached_blocks_this_step := h\<rparr>) = mgr_static m"
  by (simp_all add: table_def num_cached_def rest_count_def mgr_static_def fun_eq_iff)

lemma mgr_free_spec:
  assumes ok: "mgr_ok p xs m other"
  shows "\<exists>m' p' ys. mgr_free r (m, p) = Inr (m', p') \<and> mgr_step p m other p' (xs @ ys) m'
    \<and> ys = rev (filter (\<lambda>b. \<exists>i. b = Blk i \<and> 0 < i \<and> rest m r other i = 0) (table m r))
    \<and> table m' = (table m)(r := []) \<and> \<not> is_running m' r \<and> hash_of p' = hash_of p"
proof -
  define m0 where "m0 = (if is_mamba_align m
    then m\<lparr>allocated_block_reqs := allocated_block_reqs m - {r}, last_state_block_idx := AList.delete r (last_state_block_idx m)\<rparr>
    else m)"
  have ok0: "mgr_ok p xs m0 other" using ok by (simp add: m0_def mgr_ok_fields)
  have same: "table m0 = table m" "rest m0 r other = rest m r other" "mgr_static m0 = mgr_static m"
    "req_to_blocks m0 = req_to_blocks m" "num_cached_block m0 = num_cached_block m"
    by (simp_all add: m0_def rest_def)
  obtain m' p' ys where f: "base_free r (m0, p) = Inr (m', p')" "mgr_step p m0 other p' (xs @ ys) m'"
    "ys = rev (filter (\<lambda>b. \<exists>i. b = Blk i \<and> 0 < i \<and> rest m0 r other i = 0) (table m0 r))"
    "req_to_blocks m' = AList.delete r (req_to_blocks m0)"
    "num_cached_block m' = AList.delete r (num_cached_block m0)" "hash_of p' = hash_of p"
    using base_free_spec [OF ok0] by blast
  have "mgr_free r (m, p) = Inr (m', p')" using f(1) by (simp add: mgr_free_def m0_def)
  moreover have "mgr_step p m other p' (xs @ ys) m'" using f(2) by (simp add: mgr_step_def same)
  moreover have "table m' = (table m)(r := [])" using f(4) same(4) by (auto simp: table_def fun_eq_iff delete_conv')
  moreover have "\<not> is_running m' r" using f(5) by (simp add: is_running_def delete_conv')
  ultimately show ?thesis using f(3,6) same by auto
qed

abbreviation example_full :: layer_spec where
  "example_full \<equiv> FullAttentionSpec example_attention 1 None None"

abbreviation example_window :: layer_spec where
  "example_window \<equiv> SlidingWindowSpec example_attention 2"

lemma example_manager:
  assumes "spec = example_full \<or> spec = example_window"
  obtains p m where "init_block_pool 4 True 4 False = Inr p" "init_manager spec p True 0 1 1 = Inr (m, p)"
    "mgr_ok p [Blk 1, Blk 2, Blk 3] m (\<lambda>_. 0)" "table m = (\<lambda>_. [])" "block_size m = 4" "mgr_spec m = spec"
    "num_cached m = (\<lambda>_. 0)" "\<And>r. \<not> is_running m r" "kv_cache_group_id m = 0" "nblocks p = 4"
    "hash_block_size p = 4" "enable_caching p" "hash_of p = (\<lambda>_. None)" "rest m = (\<lambda>_ other. other)"
    "req_to_blocks m = []" "refs p = (\<lambda>_. 0)" "num_cached_block m = []"
    "mgr_class m = (if spec = example_full then FullAttentionManager else SlidingWindowManager)"
proof -
  obtain p where p: "init_block_pool 4 True 4 False = Inr p" "pool_inv p [Blk 1, Blk 2, Blk 3]" "nblocks p = 4"
    "enable_caching p" "hash_block_size p = 4" "refs p = (\<lambda>_. 0)" "hash_of p = (\<lambda>_. None)" by (rule example_pool)
  define cls where "cls = (if spec = example_full then FullAttentionManager else SlidingWindowManager)"
  have cls: "spec_manager_map spec = Inr cls" "cls \<noteq> SinkFullAttentionManager" and bs: "0 < spec_block_size spec"
    using assms by (auto simp: cls_def)
  have s4: "spec_block_size spec = 4" using assms by auto
  from init_manager_ok [OF p(2) cls bs, of "\<lambda>_. 0" 0 1 1] p(4,6) s4
  obtain m where m: "init_manager spec p True 0 1 1 = Inr (m, p)" "mgr_ok p [Blk 1, Blk 2, Blk 3] m (\<lambda>_. 0)"
    "mgr_class m = cls" "mgr_spec m = spec" "kv_cache_group_id m = 0" "req_to_blocks m = []" "num_cached_block m = []"
    "block_size m = 4" by auto
  show ?thesis
    by (rule that [OF p(1) m(1,2)])
      (simp_all add: m p table_def num_cached_def is_running_def rest_def rest_count_def entry_count_def cls_def fun_eq_iff)
qed

lemma example_table:
  assumes spec: "spec = example_full \<or> spec = example_window"
  obtains p m m1 p1 where "init_manager spec p True 0 1 1 = Inr (m, p)"
    "allocate_new_blocks example_env ''r'' 6 6 (m, p) = Inr ([Blk 1, Blk 2], m1, p1)"
    "mgr_ok p1 [Blk 3] m1 (\<lambda>_. 0)" "table m1 = (\<lambda>_. [])(''r'' := [Blk 1, Blk 2])" "num_cached m1 = (\<lambda>_. 0)"
    "mgr_static m1 = mgr_static m" "mgr_spec m = spec" "block_size m = 4" "hash_block_size p1 = 4" "enable_caching p1"
    "kv_cache_group_id m = 0" "rest m1 ''r'' (\<lambda>_. 0) 1 = 0" "rest m1 ''r'' (\<lambda>_. 0) 2 = 0"
    "mgr_class m = (if spec = example_full then FullAttentionManager else SlidingWindowManager)"
    "req_to_blocks m1 = [(''r'', [Blk 1, Blk 2])]" "num_cached_block m1 = []"
proof -
  obtain p m where m: "init_manager spec p True 0 1 1 = Inr (m, p)" "mgr_ok p [Blk 1, Blk 2, Blk 3] m (\<lambda>_. 0)"
    "table m = (\<lambda>_. [])" "block_size m = 4" "mgr_spec m = spec" "rest m = (\<lambda>_ other. other)"
    "req_to_blocks m = []" "num_cached m = (\<lambda>_. 0)" "enable_caching p" "nblocks p = 4" "hash_block_size p = 4"
    "kv_cache_group_id m = 0" "mgr_class m = (if spec = example_full then FullAttentionManager else SlidingWindowManager)"
    "num_cached_block m = []" by (rule example_manager [OF spec]) blast+
  have k: "blocks_needed m ''r'' 6 = 2" using m(3,4) by (simp add: blocks_needed_def cdiv_def)
  from base_allocate_new_blocks_spec [OF m(2), of "''r''" 6 example_env] k m(3)
  obtain m1 p1 where a: "base_allocate_new_blocks example_env ''r'' 6 (m, p) = Inr ([Blk 1, Blk 2], m1, p1)"
    "mgr_step p m (\<lambda>_. 0) p1 [Blk 3] m1" "table m1 = (\<lambda>_. [])(''r'' := [Blk 1, Blk 2])"
    "num_cached_block m1 = num_cached_block m" by auto
  note ok1 = mgr_step_ok [OF a(2)]
  have st: "static p1 = static p" using a(2) by (simp add: mgr_step_def)
  have nc: "num_cached m1 = (\<lambda>_. 0)" using a(4) m(8) by (simp add: num_cached_def fun_eq_iff)
  have r0: "rest m1 ''r'' (\<lambda>_. 0) i = 0" if i: "i = 1 \<or> i = 2" for i
  proof -
    have "refs p1 i = 1" using mgr_ok_table(3) [OF ok1, of "''r''"] a(3) nc i m(9) staticD(2) [OF st]
      by (auto simp: tail_ok_def)
    moreover have "refs p1 i = int (rest m1 ''r'' (\<lambda>_. 0) i + 1)"
      using mgr_ok_table(2) [OF ok1, of "''r''"] a(3) i m(10) staticD(9) [OF st] by (auto simp: counted_def)
    ultimately show ?thesis by simp
  qed
  have al: "allocate_new_blocks example_env ''r'' 6 6 (m, p) = Inr ([Blk 1, Blk 2], m1, p1)"
    using a(1) m(5) spec by (auto simp: allocate_new_blocks_def)
  have rb: "req_to_blocks m1 = [(''r'', [Blk 1, Blk 2])]" using a(1) m(3,4,7)
    by (auto simp: base_allocate_new_blocks_def ebind_eq_Inr set_table_def cdiv_def Let_def)
  show ?thesis
    by (rule that [OF m(1) al ok1 a(3) nc _ m(5,4) _ _ m(12) r0 r0 m(13) rb])
      (use a(2) m(9,11) staticD(2,3) [OF st] in \<open>simp_all add: mgr_step_def a(4) m(14)\<close>)
qed

subsection \<open>Properties\<close>

text \<open>
  C27: Freeing a request gives back its whole table: the blocks that no other table holds go to the free
  list, the last block of the request first, the request disappears from the manager, and the
  prefix cache keeps its entries.
\<close>

theorem mgr_free_correct:
  assumes ok: "mgr_ok p xs m other"
  shows "\<exists>m' p'. mgr_free r (m, p) = Inr (m', p')
    \<and> mgr_ok p' (xs @ rev (filter (\<lambda>b. \<exists>i. b = Blk i \<and> 0 < i \<and> rest m r other i = 0) (table m r))) m' other
    \<and> table m' = (table m)(r := []) \<and> \<not> is_running m' r \<and> hash_of p' = hash_of p"
  using mgr_free_spec [OF ok, of r] mgr_step_ok by blast

theorem mgr_free_correct_witness:
  "\<exists>p m m1 p1 m' p'. init_manager example_full p True 0 1 1 = Inr (m, p)
    \<and> allocate_new_blocks example_env ''r'' 6 6 (m, p) = Inr ([Blk 1, Blk 2], m1, p1)
    \<and> mgr_free ''r'' (m1, p1) = Inr (m', p') \<and> mgr_ok p' [Blk 3, Blk 2, Blk 1] m' (\<lambda>_. 0)"
proof -
  obtain p m m1 p1 where m: "init_manager example_full p True 0 1 1 = Inr (m, p)"
    "allocate_new_blocks example_env ''r'' 6 6 (m, p) = Inr ([Blk 1, Blk 2], m1, p1)"
    "mgr_ok p1 [Blk 3] m1 (\<lambda>_. 0)" "table m1 = (\<lambda>_. [])(''r'' := [Blk 1, Blk 2])"
    "rest m1 ''r'' (\<lambda>_. 0) 1 = 0" "rest m1 ''r'' (\<lambda>_. 0) 2 = 0" by (rule example_table) blast+
  have "rev (filter (\<lambda>b. \<exists>i. b = Blk i \<and> 0 < i \<and> rest m1 ''r'' (\<lambda>_. 0) i = 0) (table m1 ''r'')) = [Blk 2, Blk 1]"
    using m(4-6) by simp
  with mgr_free_correct [OF m(3), of "''r''"] obtain m' p' where
    "mgr_free ''r'' (m1, p1) = Inr (m', p')" "mgr_ok p' [Blk 3, Blk 2, Blk 1] m' (\<lambda>_. 0)" by auto
  with m(1,2) show ?thesis by blast
qed

text \<open>
  Blocks that left the attention window: the leading run of blocks that only the skipped tokens use
  is replaced by null blocks and released, the rest of the table stays where it is, and the blocks
  that no other table holds become free.
\<close>

theorem remove_skipped_blocks_correct:
  fixes r :: string and n :: int
  assumes ok: "mgr_ok p xs m other" and sk: "skip_ok m" and cls: "\<nexists>ms. mgr_spec m = MambaSpec ms"
  defines "k \<equiv> min (nat (skipped_tokens m n div block_size m)) (length (table m r))"
  shows "\<exists>m' p' j. remove_skipped_blocks r n (m, p) = Inr (m', p')
    \<and> table m' = (table m)(r := take j (table m r) @ replicate (k - j) (Blk 0) @ drop k (table m r))
    \<and> j \<le> k \<and> Blk 0 \<notin> set (drop j (take k (table m r))) \<and> (0 < j \<longrightarrow> table m r ! (j - 1) = Blk 0)
    \<and> mgr_ok p' (xs @ rev (filter (\<lambda>b. \<exists>i. b = Blk i \<and> 0 < i \<and> rest m r other i = 0) (drop j (take k (table m r))))) m' other"
proof -
  have a: "remove_skipped_blocks r n (m, p) = base_remove_skipped_blocks r n (m, p)"
    using cls by (auto simp: remove_skipped_blocks_def split: layer_spec.split)
  have k: "k = min (skipped_blocks m n) (length (table m r))" by (simp add: k_def skipped_blocks_def)
  obtain m' p' ys j where "base_remove_skipped_blocks r n (m, p) = Inr (m', p')" "mgr_step p m other p' (xs @ ys) m'"
    "j \<le> k" "Blk 0 \<notin> set (drop j (take k (table m r)))" "0 < j \<longrightarrow> table m r ! (j - 1) = Blk 0"
    "table m' = (table m)(r := take j (table m r) @ replicate (k - j) (Blk 0) @ drop k (table m r))"
    "ys = rev (filter (\<lambda>b. \<exists>i. b = Blk i \<and> 0 < i \<and> rest m r other i = 0) (drop j (take k (table m r))))"
    using base_remove_skipped_blocks_spec [OF ok sk, of r n, folded k] by blast
  with mgr_step_ok show ?thesis unfolding a by blast
qed

lemma entry_count_ge:
  assumes "\<forall>e \<in> set d. count_list (snd e) (Blk i) \<le> 1" "entry_count i d = length d" "e \<in> set d"
  shows "Blk i \<in> set (snd e)"
  using assms
proof (induction d)
  case (Cons x d)
  have "entry_count i d \<le> length d"
    using Cons.prems(1) by (induction d) (auto simp: entry_count_def)
  moreover have "count_list (snd x) (Blk i) \<le> 1" using Cons.prems(1) by simp
  ultimately have "count_list (snd x) (Blk i) = 1" "entry_count i d = length d"
    using Cons.prems(2) by (auto simp: entry_count_Cons)
  moreover from this have "Blk i \<in> set (snd x)" by (metis count_list_0_iff zero_neq_one)
  ultimately show ?case using Cons.IH Cons.prems by auto
qed simp

lemma count_common_prefix:
  "k < nat (count_common p n bs) \<Longrightarrow> k < length bs \<and> ref_cnt (heap p (bs ! k)) = n"
proof (induction bs arbitrary: k)
  case (Cons b bs)
  have "0 \<le> count_common p n cs" for cs by (induction cs) auto
  from this [of bs] Cons show ?case by (cases k) (auto split: if_splits simp: nat_add_distrib)
qed simp

text \<open>
  Common prefix: the number returned counts leading blocks of the request that every request of the
  group has in its table, so attention may treat them as one shared prefix.
\<close>

theorem common_prefix_is_shared:
  assumes ok: "mgr_ok p xs m (\<lambda>_. 0)" and cls: "mgr_class m = FullAttentionManager \<or> mgr_class m = SinkFullAttentionManager"
    and call: "mgr_get_num_common_prefix_blocks m p r = (n, m')"
    and k: "int k < n" and nn: "table m r ! k \<noteq> Blk 0" and s: "s \<in> fst ` set (req_to_blocks m')"
  shows "k < length (table m r) \<and> table m r ! k \<in> set (table m' s)"
proof -
  let ?b = "table m r ! k"
  have m': "m' = set_table r (table m r) m" and n: "n = count_common p (int (length (req_to_blocks m'))) (table m r)"
    using call cls by (auto simp: mgr_get_num_common_prefix_blocks_def Let_def)
  have ok': "mgr_ok p xs m' (\<lambda>_. 0)" using mgr_step_ok [OF set_table_step [OF ok, of r]] m' by simp
  note wf = mgr_ok_pool(5) [OF ok']
  have kn: "k < length (table m r)" "ref_cnt (heap p ?b) = int (length (req_to_blocks m'))"
    using count_common_prefix [of k p "int (length (req_to_blocks m'))" "table m r"] k n by auto
  have "?b \<in> set (table m r)" using kn(1) by simp
  then obtain i where i: "?b = Blk i" "i < nblocks p" "0 < i"
    using mgr_ok_table(1) [OF ok, of r] nn by (auto simp: table_ok_def)
  have "refs p i = int (mgr_count m' i)" using ok' i by (simp add: mgr_ok_def)
  then have cnt: "entry_count i (req_to_blocks m') = length (req_to_blocks m')"
    using kn(2) i(1) by (simp add: refs_def mgr_count_def)
  have le: "\<forall>e \<in> set (req_to_blocks m'). count_list (snd e) (Blk i) \<le> 1"
    using wf i(3) by (auto simp: mgr_wf_def table_ok_count)
  obtain t where t: "(s, t) \<in> set (req_to_blocks m')" using s by auto
  then have "table m' s = t" using wf by (simp add: table_def mgr_wf_def)
  then show ?thesis using entry_count_ge [OF le cnt t] kn(1) i(1) by simp
qed

theorem remove_skipped_blocks_correct_witness:
  "\<exists>p m m1 p1 m' p'. init_manager example_window p True 0 1 1 = Inr (m, p)
    \<and> allocate_new_blocks example_env ''r'' 6 6 (m, p) = Inr ([Blk 1, Blk 2], m1, p1)
    \<and> remove_skipped_blocks ''r'' 6 (m1, p1) = Inr (m', p') \<and> table m' ''r'' = [Blk 0, Blk 2]
    \<and> mgr_ok p' [Blk 3, Blk 1] m' (\<lambda>_. 0)"
proof -
  obtain p m m1 p1 where m: "init_manager example_window p True 0 1 1 = Inr (m, p)"
    "allocate_new_blocks example_env ''r'' 6 6 (m, p) = Inr ([Blk 1, Blk 2], m1, p1)"
    "mgr_ok p1 [Blk 3] m1 (\<lambda>_. 0)" "table m1 = (\<lambda>_. [])(''r'' := [Blk 1, Blk 2])"
    "rest m1 ''r'' (\<lambda>_. 0) 1 = 0" "mgr_static m1 = mgr_static m" "mgr_spec m = example_window" "block_size m = 4"
    by (rule example_table [of example_window]) blast+
  have sp: "mgr_spec m1 = example_window" "block_size m1 = 4" using m(6-8) mgr_staticD(2,3) [OF m(6)] by simp_all
  have sk: "skip_ok m1" "\<nexists>ms. mgr_spec m1 = MambaSpec ms" using sp by (simp_all add: skip_ok_def)
  have k: "min (nat (skipped_tokens m1 6 div block_size m1)) (length [Blk 1, Blk 2]) = 1"
    using sp by (simp add: skipped_tokens_def)
  have t: "table m1 ''r'' = [Blk 1, Blk 2]" using m(4) by simp
  from remove_skipped_blocks_correct [OF m(3) sk, of "''r''" 6, unfolded t k]
  obtain m' p' j where f: "remove_skipped_blocks ''r'' 6 (m1, p1) = Inr (m', p')"
    "table m' = (table m1)(''r'' := take j [Blk 1, Blk 2] @ replicate (1 - j) (Blk 0) @ drop 1 [Blk 1, Blk 2])"
    and j: "j \<le> 1" "0 < j \<longrightarrow> [Blk 1, Blk 2] ! (j - 1) = Blk 0"
    and o: "mgr_ok p' ([Blk 3] @ rev (filter (\<lambda>b. \<exists>i. b = Blk i \<and> 0 < i \<and> rest m1 ''r'' (\<lambda>_. 0) i = 0)
      (drop j (take 1 [Blk 1, Blk 2])))) m' (\<lambda>_. 0)" by blast
  have "j = 0" using j by (cases j) auto
  then have "table m' ''r'' = [Blk 0, Blk 2]" "mgr_ok p' [Blk 3, Blk 1] m' (\<lambda>_. 0)" using f(2) o m(5) by simp_all
  with m(1,2) f(1) show ?thesis by blast
qed

theorem common_prefix_is_shared_witness:
  "\<exists>p m m1 p1 m'. init_manager example_full p True 0 1 1 = Inr (m, p)
    \<and> allocate_new_blocks example_env ''r'' 6 6 (m, p) = Inr ([Blk 1, Blk 2], m1, p1)
    \<and> mgr_get_num_common_prefix_blocks m1 p1 ''r'' = (2, m') \<and> Blk 2 \<in> set (table m' ''r'')"
proof -
  obtain p m m1 p1 where m: "init_manager example_full p True 0 1 1 = Inr (m, p)"
    "allocate_new_blocks example_env ''r'' 6 6 (m, p) = Inr ([Blk 1, Blk 2], m1, p1)"
    "mgr_ok p1 [Blk 3] m1 (\<lambda>_. 0)" "table m1 = (\<lambda>_. [])(''r'' := [Blk 1, Blk 2])" "num_cached m1 = (\<lambda>_. 0)"
    "mgr_static m1 = mgr_static m" "mgr_class m = FullAttentionManager" "enable_caching p1"
    "req_to_blocks m1 = [(''r'', [Blk 1, Blk 2])]"
    by (rule example_table [of example_full]) simp_all
  have c: "mgr_class m1 = FullAttentionManager" using m(6,7) mgr_staticD(1) [OF m(6)] by simp
  have "tail_ok (refs p1) (hash_of p1) [Blk 1, Blk 2] 0" using mgr_ok_table(3) [OF m(3), of "''r''"] m(4,5,8) by simp
  then have "refs p1 1 = 1" "refs p1 2 = 1" by (auto simp: tail_ok_def)
  then have rc: "ref_cnt (heap p1 (Blk (Suc 0))) = 1" "ref_cnt (heap p1 (Blk 2)) = 1" by (simp_all add: refs_def)
  have g: "mgr_get_num_common_prefix_blocks m1 p1 ''r'' = (2, m1)"
    using c rc m(4,9) by (simp add: mgr_get_num_common_prefix_blocks_def set_table_def)
  from common_prefix_is_shared [OF m(3) _ g, of 1 "''r''"] c m(4,9) have "Blk 2 \<in> set (table m1 ''r'')" by simp
  with m(1,2) g show ?thesis by blast
qed

text \<open>
  C25: Taking over cache hits for a new request: its table becomes the hits, with null blocks where the
  attention window has already passed, followed by fresh blocks for the tokens an external cache
  provides; the hits gain a reference, and the accounting stays exact.
\<close>

theorem allocate_new_computed_blocks_correct:
  fixes nl ne :: int
  assumes ok: "mgr_ok p xs m other" and sk: "skip_ok m" and nr: "\<not> is_running m r" and tb: "table m r = []"
    and h: "hits_ok p m hits (nl + ne)" and cls: "mgr_class m \<noteq> CrossAttentionManager"
    and len: "external_blocks m hits nl ne
      \<le> int (length (filter (\<lambda>b. b \<notin> set (drop (skipped_blocks m (nl + ne)) hits)) xs))"
  defines "xs1 \<equiv> filter (\<lambda>b. b \<notin> set (drop (skipped_blocks m (nl + ne)) hits)) xs"
    and "k \<equiv> nat (external_blocks m hits nl ne)"
  shows "\<exists>m' p'. allocate_new_computed_blocks env r hits nl ne (m, p) = Inr (m', p')
    \<and> mgr_ok p' (drop k xs1) m' other
    \<and> table m' = (table m)(r := hit_table m hits (nl + ne) @ take k xs1) \<and> is_running m' r
    \<and> num_cached m' r = int (length (hit_table m hits (nl + ne)))"
proof -
  have a: "allocate_new_computed_blocks env r hits nl ne (m, p) = base_allocate_new_computed_blocks env r hits nl ne (m, p)"
    using cls by (simp add: allocate_new_computed_blocks_def)
  from base_allocate_new_computed_blocks_spec [OF ok sk nr tb h len, of env] mgr_step_ok
  show ?thesis unfolding a xs1_def k_def by blast
qed

theorem allocate_new_computed_blocks_correct_witness:
  "\<exists>m p m' p'. table m ''r'' = [Blk 1, Blk 2] \<and> hash_of p 1 \<noteq> None
    \<and> allocate_new_computed_blocks example_env ''s'' [Blk 1] 4 0 (m, p) = Inr (m', p')
    \<and> table m' ''s'' = [Blk 1] \<and> table m' ''r'' = [Blk 1, Blk 2] \<and> mgr_ok p' [Blk 3] m' (\<lambda>_. 0)"
proof -
  obtain p m m1 p1 where m: "mgr_ok p1 [Blk 3] m1 (\<lambda>_. 0)" "table m1 = (\<lambda>_. [])(''r'' := [Blk 1, Blk 2])"
    "num_cached m1 = (\<lambda>_. 0)" "mgr_static m1 = mgr_static m" "mgr_class m = FullAttentionManager" "enable_caching p1"
    "block_size m = 4" "hash_block_size p1 = 4" "kv_cache_group_id m = 0" "mgr_spec m = example_full"
    "num_cached_block m1 = []" by (rule example_table [of example_full]) simp_all
  let ?r = "example_request\<lparr>block_hashes := [[1, 0]]\<rparr>"
  have f: "mgr_class m1 = FullAttentionManager" "mgr_spec m1 = example_full" "block_size m1 = 4" "kv_cache_group_id m1 = 0"
    "request_id ?r = ''r''" using m(5,7,9,10) mgr_staticD(1,2,3,5) [OF m(4)] by (simp_all add: example_request_eq)
  have gh: "group_hashes p1 ?r 4 = PlainHashes [[1, 0]]" using m(8) by (simp add: group_hashes_def)
  have ca: "cacheable p1 ?r m1 6" using f m(2,8) gh by (simp add: cacheable_def hash_size_ok_def)
  from base_cache_blocks_spec [OF m(1,6) ca, of example_env, unfolded f gh] m(2,3)
  obtain m2 p2 where s: "base_cache_blocks example_env ?r 6 (m1, p1) = Inr (m2, p2)"
    "mgr_step p1 m1 (\<lambda>_. 0) p2 [Blk 3] m2" "table m2 = table m1" "holds_hash p2 [1, 0] 0 (Blk 1)"
    by (auto simp: py_index_def)
  have nr: "\<not> is_running m2 ''s''" using s(1) m(11) by (auto simp: base_cache_blocks_def Let_def f ebind_eq_Inr is_running_def num_cached_def)
  have h1: "hash_of p2 1 \<noteq> None" using s(4) by (auto simp: holds_hash_def)
  have st: "static p2 = static p1" "mgr_static m2 = mgr_static m1" using s(2) by (simp_all add: mgr_step_def)
  note g = mgr_staticD(1,2,3) [OF st(2), unfolded f]
  have sk: "skip_ok m2" "mgr_class m2 \<noteq> CrossAttentionManager" using g by (simp_all add: skip_ok_def)
  have sb: "skipped_blocks m2 4 = 0" using g by (simp add: skipped_blocks_def skipped_tokens_def)
  note ok2 = mgr_step_ok [OF s(2)]
  have tb: "table m2 ''s'' = []" "table m2 ''r'' = [Blk 1, Blk 2]" using s(3) m(2) by simp_all
  have h: "hits_ok p2 m2 [Blk 1] (4 + 0)"
    using mgr_ok_table(1) [OF ok2, of "''r''"] tb(2) h1 g staticD(2) [OF st(1)] m(6) by (simp add: hits_ok_def table_ok_def)
  have ext: "external_blocks m2 [Blk 1] 4 0 = 0" by (simp add: external_blocks_def sb Let_def)
  from allocate_new_computed_blocks_correct [OF ok2 sk(1) nr tb(1) h sk(2), of example_env] ext sb
  obtain m' p' where "allocate_new_computed_blocks example_env ''s'' [Blk 1] 4 0 (m2, p2) = Inr (m', p')"
    "mgr_ok p' [Blk 3] m' (\<lambda>_. 0)" "table m' = (table m2)(''s'' := [Blk 1])"
    by (auto simp: hit_table_def)
  with tb h1 show ?thesis by (intro exI [of _ m2] exI [of _ p2] exI [of _ m'] exI [of _ p']) simp
qed

end
