(* ===== verification/Coordinator.thy ===== *)
theory Coordinator
  imports Single_Type_Manager
begin

text \<open>
  \<open>vllm/v1/core/kv_cache_coordinator.py\<close>: the managers of all KV cache groups and the pool they
  share.  The three coordinator classes differ in how they search the prefix cache, which is the
  field \<open>coord_kind\<close>; everything else is a loop over the managers.
\<close>

datatype coordinator_kind = NoPrefixCache | Unitary | Hybrid

type_synonym attention_group = "layer_spec \<times> int list \<times> manager_class"

record coordinator =
  coord_kind :: coordinator_kind
  coord_groups :: "kv_cache_group_spec list"
  coord_pool :: block_pool
  coord_managers :: "manager list"
  coord_enable_caching :: bool
  coord_use_eagle :: bool
  coord_block_size :: int
  coord_dcp :: int
  coord_pcp :: int
  coord_hash_block_size :: int
  coord_attention_groups :: "attention_group list"
  coord_lcm_block_size :: int

subsection \<open>Construction\<close>

fun init_managers ::
  "kv_cache_group_spec list \<Rightarrow> nat \<Rightarrow> bool \<Rightarrow> int \<Rightarrow> int \<Rightarrow> block_pool \<Rightarrow> (manager list \<times> block_pool) result" where
  "init_managers [] i caching dcp pcp p = Inr ([], p)"
| "init_managers (g # gs) i caching dcp pcp p =
     ebind (init_manager (kv_cache_spec g) p caching (int i) dcp pcp) (\<lambda>(m, p).
     ebind (init_managers gs (Suc i) caching dcp pcp p) (\<lambda>(ms, p). Inr (m # ms, p)))"

definition init_coordinator ::
  "coordinator_kind \<Rightarrow> kv_cache_config \<Rightarrow> bool \<Rightarrow> bool \<Rightarrow> bool \<Rightarrow> int \<Rightarrow> int \<Rightarrow> int \<Rightarrow> coordinator result" where
  "init_coordinator kind config use_eagle caching events dcp pcp hash_bs =
     ebind (init_block_pool (num_blocks config) caching hash_bs events) (\<lambda>p.
     ebind (init_managers (kv_cache_groups config) 0 caching dcp pcp p) (\<lambda>(ms, p).
       Inr \<lparr>coord_kind = kind, coord_groups = kv_cache_groups config, coord_pool = p, coord_managers = ms,
            coord_enable_caching = caching, coord_use_eagle = use_eagle, coord_block_size = 0,
            coord_dcp = dcp, coord_pcp = pcp, coord_hash_block_size = hash_bs,
            coord_attention_groups = [], coord_lcm_block_size = 0\<rparr>))"

definition init_unitary ::
  "kv_cache_config \<Rightarrow> bool \<Rightarrow> bool \<Rightarrow> bool \<Rightarrow> int \<Rightarrow> int \<Rightarrow> int \<Rightarrow> coordinator result" where
  "init_unitary config use_eagle caching events dcp pcp hash_bs =
     ebind (init_coordinator Unitary config use_eagle caching events dcp pcp hash_bs) (\<lambda>c.
     ebind (py_index (kv_cache_groups config) 0) (\<lambda>g.
     let bs = spec_block_size (kv_cache_spec g);
         bs = (if dcp > 1 then bs * dcp else bs);
         bs = (if pcp > 1 then bs * pcp else bs)
     in
     ebind (eassert (\<not> caching \<or> hash_bs = bs)) (\<lambda>_.
     ebind (eassert (length (kv_cache_groups config) = 1)) (\<lambda>_.
       Inr (c\<lparr>coord_block_size := bs\<rparr>)))))"

text \<open>Entering a group into the list of attention groups: join the group with the same spec.\<close>

fun add_to_groups ::
  "layer_spec \<Rightarrow> int \<Rightarrow> manager_class \<Rightarrow> attention_group list \<Rightarrow> attention_group list result" where
  "add_to_groups spec i cls [] = Inr [(spec, [i], cls)]"
| "add_to_groups spec i cls ((existing_spec, ids, existing_cls) # others) =
     (if existing_spec = spec
      then ebind (eassert (cls = existing_cls)) (\<lambda>_. Inr ((existing_spec, ids @ [i], existing_cls) # others))
      else ebind (add_to_groups spec i cls others) (\<lambda>others. Inr ((existing_spec, ids, existing_cls) # others)))"

fun split_groups ::
  "(kv_cache_group_spec \<times> manager) list \<Rightarrow> int \<Rightarrow> attention_group list \<Rightarrow> attention_group list result" where
  "split_groups [] i groups = Inr groups"
| "split_groups ((g, m) # gms) i groups =
     ebind (add_to_groups (kv_cache_spec g) i (mgr_class m) groups) (split_groups gms (i + 1))"

text \<open>Sorting by \<open>not isinstance(spec, FullAttentionSpec)\<close> is stable: full attention first.\<close>

definition verify_and_split_kv_cache_groups :: "coordinator \<Rightarrow> coordinator result" where
  "verify_and_split_kv_cache_groups c =
     ebind (split_groups (zip (coord_groups c) (coord_managers c)) 0 []) (\<lambda>groups.
     ebind (eassert (length groups > 1)) (\<lambda>_.
       Inr (c\<lparr>coord_attention_groups :=
                filter (\<lambda>(spec, _, _). is_full_attention spec) groups
                @ filter (\<lambda>(spec, _, _). \<not> is_full_attention spec) groups,
              coord_lcm_block_size := fold (\<lambda>(spec, _, _) l. lcm l (spec_block_size spec)) groups 1\<rparr>)))"

definition init_hybrid ::
  "kv_cache_config \<Rightarrow> bool \<Rightarrow> bool \<Rightarrow> bool \<Rightarrow> int \<Rightarrow> int \<Rightarrow> int \<Rightarrow> coordinator result" where
  "init_hybrid config use_eagle caching events dcp pcp hash_bs =
     ebind (init_coordinator Hybrid config use_eagle caching events dcp pcp hash_bs) (\<lambda>c.
     if hash_bs = 0 \<and> kv_cache_groups config \<noteq> [] then Inl ZeroDivisionError
     else
       ebind (eassert (\<forall>g \<in> set (kv_cache_groups config). spec_block_size (kv_cache_spec g) mod hash_bs = 0)) (\<lambda>_.
       ebind (eassert (dcp = 1)) (\<lambda>_. ebind (eassert (pcp = 1)) (\<lambda>_. verify_and_split_kv_cache_groups c))))"

definition get_kv_cache_coordinator ::
  "kv_cache_config \<Rightarrow> bool \<Rightarrow> bool \<Rightarrow> bool \<Rightarrow> int \<Rightarrow> int \<Rightarrow> int \<Rightarrow> coordinator result" where
  "get_kv_cache_coordinator config use_eagle caching events dcp pcp hash_bs =
     (if \<not> caching then init_coordinator NoPrefixCache config use_eagle False events dcp pcp hash_bs
      else if length (kv_cache_groups config) = 1 then init_unitary config use_eagle caching events dcp pcp hash_bs
      else init_hybrid config use_eagle caching events dcp pcp hash_bs)"

subsection \<open>Operations on all managers\<close>

text \<open>\<open>for i, manager in enumerate(self.single_type_managers)\<close>, with the pool threaded through.\<close>

fun each_manager ::
  "(nat \<Rightarrow> manager \<times> block_pool \<Rightarrow> ('a \<times> manager \<times> block_pool) result) \<Rightarrow> nat \<Rightarrow> manager list \<Rightarrow> block_pool
    \<Rightarrow> ('a list \<times> manager list \<times> block_pool) result" where
  "each_manager f i [] p = Inr ([], [], p)"
| "each_manager f i (m # ms) p =
     ebind (f i (m, p)) (\<lambda>(x, m, p).
     ebind (each_manager f (Suc i) ms p) (\<lambda>(xs, ms, p). Inr (x # xs, m # ms, p)))"

definition on_managers ::
  "(nat \<Rightarrow> manager \<times> block_pool \<Rightarrow> ('a \<times> manager \<times> block_pool) result) \<Rightarrow> coordinator
    \<Rightarrow> ('a list \<times> coordinator) result" where
  "on_managers f c =
     ebind (each_manager f 0 (coord_managers c) (coord_pool c)) (\<lambda>(xs, ms, p).
       Inr (xs, c\<lparr>coord_managers := ms, coord_pool := p\<rparr>))"

definition no_value :: "(manager \<times> block_pool) result \<Rightarrow> (unit \<times> manager \<times> block_pool) result" where
  "no_value r = ebind r (\<lambda>mp. Inr ((), mp))"

definition is_cross :: "manager \<Rightarrow> bool" where
  "is_cross m \<longleftrightarrow> mgr_class m = CrossAttentionManager"

definition coord_get_num_blocks_to_allocate ::
  "string \<Rightarrow> int \<Rightarrow> bref list list \<Rightarrow> int \<Rightarrow> int \<Rightarrow> int \<Rightarrow> coordinator \<Rightarrow> (int \<times> coordinator) result" where
  "coord_get_num_blocks_to_allocate req_id n_tokens new_computed_blocks num_encoder_tokens
      total_computed_tokens num_tokens_main_model c =
     ebind (on_managers (\<lambda>i (m, p).
       ebind (if is_cross m
              then get_num_blocks_to_allocate m p req_id num_encoder_tokens [] 0 num_encoder_tokens
              else ebind (py_index new_computed_blocks (int i)) (\<lambda>blocks.
                get_num_blocks_to_allocate m p req_id n_tokens blocks total_computed_tokens
                  num_tokens_main_model)) (\<lambda>(n, m). Inr (n, m, p))) c) (\<lambda>(ns, c).
       Inr (sum_list ns, c))"

definition coord_allocate_new_computed_blocks ::
  "pool_env \<Rightarrow> string \<Rightarrow> bref list list \<Rightarrow> int \<Rightarrow> int \<Rightarrow> coordinator \<Rightarrow> coordinator result" where
  "coord_allocate_new_computed_blocks env req_id new_computed_blocks num_local num_external c =
     ebind (on_managers (\<lambda>i mp.
       ebind (py_index new_computed_blocks (int i)) (\<lambda>blocks.
         no_value (allocate_new_computed_blocks env req_id blocks num_local num_external mp))) c)
       (\<lambda>(_, c). Inr c)"

definition coord_allocate_new_blocks ::
  "pool_env \<Rightarrow> string \<Rightarrow> int \<Rightarrow> int \<Rightarrow> int \<Rightarrow> coordinator \<Rightarrow> (bref list list \<times> coordinator) result" where
  "coord_allocate_new_blocks env req_id n_tokens num_tokens_main_model num_encoder_tokens c =
     on_managers (\<lambda>i (m, p).
       allocate_new_blocks env req_id (if is_cross m then num_encoder_tokens else n_tokens)
         num_tokens_main_model (m, p)) c"

definition coord_cache_blocks :: "pool_env \<Rightarrow> request \<Rightarrow> int \<Rightarrow> coordinator \<Rightarrow> coordinator result" where
  "coord_cache_blocks env r n_computed c =
     ebind (on_managers (\<lambda>i mp. no_value (cache_blocks env r n_computed mp)) c) (\<lambda>(_, c). Inr c)"

definition coord_free :: "string \<Rightarrow> coordinator \<Rightarrow> coordinator result" where
  "coord_free req_id c = ebind (on_managers (\<lambda>i mp. no_value (mgr_free req_id mp)) c) (\<lambda>(_, c). Inr c)"

definition coord_remove_skipped_blocks :: "string \<Rightarrow> int \<Rightarrow> coordinator \<Rightarrow> coordinator result" where
  "coord_remove_skipped_blocks req_id total_computed_tokens c =
     ebind (on_managers (\<lambda>i mp. no_value (remove_skipped_blocks req_id total_computed_tokens mp)) c) (\<lambda>(_, c). Inr c)"

definition coord_get_num_common_prefix_blocks :: "string \<Rightarrow> coordinator \<Rightarrow> (int list \<times> coordinator) result" where
  "coord_get_num_common_prefix_blocks req_id c =
     (case coord_kind c of
        NoPrefixCache \<Rightarrow> Inr (replicate (length (coord_managers c)) 0, c)
      | _ \<Rightarrow> on_managers (\<lambda>i (m, p).
          let (n, m) = mgr_get_num_common_prefix_blocks m p req_id in Inr (n, m, p)) c)"

definition coord_get_blocks :: "string \<Rightarrow> coordinator \<Rightarrow> bref list list" where
  "coord_get_blocks req_id c = map (\<lambda>m. table m req_id) (coord_managers c)"

definition coord_new_step_starts :: "coordinator \<Rightarrow> coordinator" where
  "coord_new_step_starts c = c\<lparr>coord_managers := map mgr_new_step_starts (coord_managers c)\<rparr>"

subsection \<open>Searching the prefix cache\<close>

definition unitary_find_longest_cache_hit ::
  "coordinator \<Rightarrow> bytes list \<Rightarrow> int \<Rightarrow> (bref list list \<times> int) result" where
  "unitary_find_longest_cache_hit c hashes max_cache_hit_length =
     ebind (py_index (coord_managers c) 0) (\<lambda>m. ebind (py_index (coord_groups c) 0) (\<lambda>g.
     ebind (cls_find_longest_cache_hit (mgr_class m) (coord_pool c) (PlainHashes hashes) max_cache_hit_length
              [0] (kv_cache_spec g) (coord_use_eagle c) (coord_block_size c) (coord_dcp c) (coord_pcp c))
       (\<lambda>hit_blocks.
     ebind (py_index hit_blocks 0) (\<lambda>first.
       Inr (hit_blocks, int (length first) * coord_block_size c)))))"

definition hashes_for :: "int \<Rightarrow> bytes list \<Rightarrow> layer_spec \<Rightarrow> block_hash_list result" where
  "hashes_for hash_bs hashes spec =
     (if spec_block_size spec = hash_bs then Inr (PlainHashes hashes)
      else block_hash_list_with_block_size hashes hash_bs (spec_block_size spec))"

text \<open>\<open>for group_id, blocks in zip(group_ids, hit_blocks): hit_blocks_by_group[group_id] = blocks\<close>\<close>

fun store_hits :: "(int \<times> bref list) list \<Rightarrow> bref list option list \<Rightarrow> bref list option list result" where
  "store_hits [] by_group = Inr by_group"
| "store_hits ((g, blocks) # others) by_group =
     ebind (py_set by_group g (Some blocks)) (store_hits others)"

text \<open>One pass of the loop over the attention groups.\<close>

fun hybrid_pass ::
  "coordinator \<Rightarrow> bytes list \<Rightarrow> attention_group list \<Rightarrow> int \<Rightarrow> bref list option list
    \<Rightarrow> (int \<times> bref list option list) result" where
  "hybrid_pass c hashes [] cur by_group = Inr (cur, by_group)"
| "hybrid_pass c hashes ((spec, ids, cls) # groups) cur by_group =
     ebind (py_index ids 0) (\<lambda>g0. ebind (py_index by_group g0) (\<lambda>cached_blocks.
     if is_full_attention spec \<and> cached_blocks \<noteq> None
     then ebind (pdiv cur (spec_block_size spec)) (\<lambda>n.
            hybrid_pass c hashes groups (n * spec_block_size spec) by_group)
     else
       ebind (hashes_for (coord_hash_block_size c) hashes spec) (\<lambda>hl.
       ebind (cls_find_longest_cache_hit cls (coord_pool c) hl cur ids spec (coord_use_eagle c)
                (coord_lcm_block_size c) 1 1) (\<lambda>hit_blocks.
       ebind (py_index hit_blocks 0) (\<lambda>first.
       ebind (store_hits (zip ids hit_blocks) by_group) (\<lambda>by_group.
         hybrid_pass c hashes groups (int (length first) * spec_block_size spec) by_group))))))"

text \<open>
  The \<open>while True\<close> loop.  A turn that does not leave the loop lowers the hit length, so
  \<open>nat hit_length + 1\<close> turns are enough.
\<close>

fun hybrid_loop ::
  "nat \<Rightarrow> coordinator \<Rightarrow> bytes list \<Rightarrow> bool \<Rightarrow> int \<Rightarrow> bref list option list
    \<Rightarrow> (int \<times> bref list option list) result" where
  "hybrid_loop 0 c hashes simple hit_length by_group = Inl NonTermination"
| "hybrid_loop (Suc fuel) c hashes simple hit_length by_group =
     ebind (hybrid_pass c hashes (coord_attention_groups c) hit_length by_group) (\<lambda>(cur, by_group).
       if cur \<ge> hit_length then Inr (hit_length, by_group)
       else if simple then Inr (cur, by_group)
       else hybrid_loop fuel c hashes simple cur by_group)"

definition is_simple_hybrid :: "attention_group list \<Rightarrow> bool" where
  "is_simple_hybrid groups \<longleftrightarrow> length groups = 2 \<and> is_full_attention (fst (hd groups))"

fun truncate_groups :: "int \<Rightarrow> int list \<Rightarrow> bref list option list \<Rightarrow> bref list option list result" where
  "truncate_groups n [] by_group = Inr by_group"
| "truncate_groups n (g # gs) by_group =
     ebind (py_index by_group g) (\<lambda>blks.
     ebind (case blks of None \<Rightarrow> Inr by_group | Some bs \<Rightarrow> py_set by_group g (Some (py_take bs n)))
       (truncate_groups n gs))"

definition hybrid_find_longest_cache_hit ::
  "coordinator \<Rightarrow> bytes list \<Rightarrow> int \<Rightarrow> (bref list list \<times> int) result" where
  "hybrid_find_longest_cache_hit c hashes max_cache_hit_length =
     (let groups = coord_attention_groups c in
      ebind (hybrid_loop (nat max_cache_hit_length + 1) c hashes (is_simple_hybrid groups) max_cache_hit_length
               (replicate (length (coord_groups c)) None)) (\<lambda>(hit_length, by_group).
      ebind (py_index groups 0) (\<lambda>(spec, ids, _).
      ebind (if is_full_attention spec
             then ebind (pdiv hit_length (spec_block_size spec)) (\<lambda>n. truncate_groups n ids by_group)
             else Inr by_group) (\<lambda>by_group.
        Inr (map (\<lambda>b. case b of None \<Rightarrow> [] | Some bs \<Rightarrow> bs) by_group, hit_length)))))"

definition find_longest_cache_hit :: "coordinator \<Rightarrow> bytes list \<Rightarrow> int \<Rightarrow> (bref list list \<times> int) result" where
  "find_longest_cache_hit c hashes max_cache_hit_length =
     (case coord_kind c of
        NoPrefixCache \<Rightarrow> Inr (map (\<lambda>_. []) (coord_managers c), 0)
      | Unitary \<Rightarrow> unitary_find_longest_cache_hit c hashes max_cache_hit_length
      | Hybrid \<Rightarrow> hybrid_find_longest_cache_hit c hashes max_cache_hit_length)"

end
