(* ===== verification/KV_Invariant.thy ===== *)
theory KV_Invariant
  imports Coordinator
begin

text \<open>
  The invariant of the whole KV cache: one block pool, the managers of all groups, and exact
  reference counts over all their tables.  A general lemma carries the invariant through a loop over
  the managers, in which every turn changes the pool under the feet of the other managers; freeing
  is its first use.
\<close>

subsection \<open>The invariant over all managers\<close>

definition ms_count :: "manager list \<Rightarrow> nat \<Rightarrow> nat" where
  "ms_count ms i = sum_list (map (\<lambda>m. mgr_count m i) ms)"

definition mgr_fits :: "block_pool \<Rightarrow> manager \<Rightarrow> bool" where
  "mgr_fits p m \<longleftrightarrow> mgr_wf (nblocks p) m \<and> mgr_enable_caching m = enable_caching p
     \<and> (enable_caching p \<longrightarrow> mgr_tails p m)"

text \<open>
  The pool is well formed, every manager's tables are, and the reference count of a block is the
  number of its occurrences in the tables of all managers.
\<close>

definition kv_ok :: "block_pool \<Rightarrow> bref list \<Rightarrow> manager list \<Rightarrow> bool" where
  "kv_ok p xs ms \<longleftrightarrow> pool_inv p xs \<and> (\<forall>m \<in> set ms. mgr_fits p m)
     \<and> (\<forall>i. 0 < i \<and> i < nblocks p \<longrightarrow> refs p i = int (ms_count ms i))"

lemma ms_count_simps [simp]:
  "ms_count [] = (\<lambda>_. 0)" "ms_count (m # ms) = (\<lambda>i. mgr_count m i + ms_count ms i)"
  "ms_count (as @ bs) = (\<lambda>i. ms_count as i + ms_count bs i)"
  by (simp_all add: ms_count_def fun_eq_iff)

lemma kv_ok_mgr:
  assumes "kv_ok p xs (as @ m # bs)"
  shows "mgr_ok p xs m (ms_count (as @ bs))"
  using assms by (auto simp: kv_ok_def mgr_ok_def mgr_fits_def)

lemma mgr_count_table:
  assumes "Blk i \<in> set (table m r)"
  shows "0 < mgr_count m i"
proof -
  obtain t where t: "(r, t) \<in> set (req_to_blocks m)" "Blk i \<in> set t"
    using assms by (cases "map_of (req_to_blocks m) r") (auto simp: table_def dest: map_of_SomeD)
  then have "count_list t (Blk i) \<in> set (map (\<lambda>e. count_list (snd e) (Blk i)) (req_to_blocks m))" by force
  moreover have "0 < count_list t (Blk i)" using t(2) by (metis count_list_0_iff gr0I)
  ultimately show ?thesis unfolding mgr_count_def entry_count_def
    by (metis member_le_sum_list not_less zero_le less_le_trans)
qed

text \<open>An operation on one manager leaves the others in order.\<close>

lemma kv_ok_step:
  assumes ok: "kv_ok p xs (as @ m # bs)" and st: "mgr_step p m (ms_count (as @ bs)) p' xs' m'"
  shows "kv_ok p' xs' (as @ m' # bs)"
proof -
  have ok': "mgr_ok p' xs' m' (ms_count (as @ bs))" and s: "static p' = static p"
    and un: "undisturbed (nblocks p) (ms_count (as @ bs)) (refs p) (hash_of p) (refs p') (hash_of p')"
    using st by (simp_all add: mgr_step_def)
  note nb = staticD(2,9) [OF s]
  have "mgr_fits p' n" if n: "n \<in> set (as @ bs)" for n
  proof -
    have f: "mgr_fits p n" using ok n by (auto simp: kv_ok_def)
    have "mgr_tails p' n" if c: "enable_caching p"
    proof -
      have "hash_of p' i = None \<and> refs p' i = 1"
        if i: "0 < i" "Blk i \<in> set (drop (nat (num_cached n r)) (table n r))" for r i
      proof -
        have mem: "Blk i \<in> set (table n r)" using i(2) by (auto dest: in_set_dropD)
        have "i < nblocks p" using mgr_wf_table [of "nblocks p" n r] f mem by (auto simp: mgr_fits_def table_ok_def)
        moreover have "0 < ms_count (as @ bs) i"
          using mgr_count_table [OF mem] n unfolding ms_count_def
          by (metis (no_types, lifting) image_eqI list.set_map member_le_sum_list not_less zero_le less_le_trans)
        moreover have "hash_of p i = None" "refs p i = 1" using f c i by (auto simp: mgr_fits_def mgr_tails_def tail_ok_def)
        ultimately show ?thesis using un i(1) by (simp add: undisturbed_def)
      qed
      then show ?thesis by (auto simp: mgr_tails_def tail_ok_def)
    qed
    with f nb show ?thesis by (simp add: mgr_fits_def)
  qed
  moreover have "refs p' i = int (ms_count (as @ m' # bs) i)" if "0 < i" "i < nblocks p'" for i
    using ok' that by (simp add: mgr_ok_def)
  moreover have "mgr_fits p' m'" "pool_inv p' xs'" using ok' by (simp_all add: mgr_ok_def mgr_fits_def)
  ultimately show ?thesis by (auto simp: kv_ok_def)
qed

text \<open>
  A loop over the managers.  \<open>Inv k\<close> is what holds of the pool and its free list before the
  \<open>k\<close>-th manager's turn, \<open>R k\<close> what that turn achieves.
\<close>

lemma each_manager_spec:
  assumes "kv_ok p xs (ds @ ms)" and "Inv (0 :: nat) p xs"
    and "\<And>k p xs other. k < length ms \<Longrightarrow> mgr_ok p xs (ms ! k) other \<Longrightarrow> Inv k p xs \<Longrightarrow>
      \<exists>v m' p' xs'. f (i + k) (ms ! k, p) = Inr (v, m', p') \<and> mgr_step p (ms ! k) other p' xs' m'
        \<and> Inv (Suc k) p' xs' \<and> R k v m'"
  shows "\<exists>vs ms' p' xs'. each_manager f i ms p = Inr (vs, ms', p') \<and> kv_ok p' xs' (ds @ ms')
    \<and> static p' = static p \<and> Inv (length ms) p' xs' \<and> length vs = length ms \<and> length ms' = length ms
    \<and> (\<forall>k < length ms. mgr_static (ms' ! k) = mgr_static (ms ! k) \<and> R k (vs ! k) (ms' ! k))"
  using assms
proof (induction ms arbitrary: p xs ds i Inv R)
  case Nil
  then show ?case by auto
next
  case (Cons m ms)
  have ok: "mgr_ok p xs m (ms_count (ds @ ms))" by (rule kv_ok_mgr [OF Cons.prems(1)])
  have "\<exists>v m' p' xs'. f (i + 0) ((m # ms) ! 0, p) = Inr (v, m', p')
      \<and> mgr_step p ((m # ms) ! 0) (ms_count (ds @ ms)) p' xs' m' \<and> Inv (Suc 0) p' xs' \<and> R 0 v m'"
    by (rule Cons.prems(3) [OF _ _ Cons.prems(2)]) (use ok in simp_all)
  then obtain v m' p1 xs1 where
    f: "f i (m, p) = Inr (v, m', p1)" "mgr_step p m (ms_count (ds @ ms)) p1 xs1 m'" "Inv (Suc 0) p1 xs1" "R 0 v m'"
    by auto
  have st: "static p1 = static p" "mgr_static m' = mgr_static m" using f(2) by (simp_all add: mgr_step_def)
  have "kv_ok p1 xs1 ((ds @ [m']) @ ms)" using kv_ok_step [OF Cons.prems(1) f(2)] by simp
  moreover have "\<exists>v m' p' xs'. f (Suc i + k) (ms ! k, p) = Inr (v, m', p') \<and> mgr_step p (ms ! k) other p' xs' m'
      \<and> Inv (Suc (Suc k)) p' xs' \<and> R (Suc k) v m'"
    if "k < length ms" "mgr_ok p xs (ms ! k) other" "Inv (Suc k) p xs" for k p xs other
    using Cons.prems(3) [of "Suc k" p xs other] that by simp
  ultimately obtain vs ms' p' xs' where r: "each_manager f (Suc i) ms p1 = Inr (vs, ms', p')" "kv_ok p' xs' ((ds @ [m']) @ ms')"
    "static p' = static p1" "Inv (Suc (length ms)) p' xs'" "length vs = length ms" "length ms' = length ms"
    "\<forall>k < length ms. mgr_static (ms' ! k) = mgr_static (ms ! k) \<and> R (Suc k) (vs ! k) (ms' ! k)"
    using Cons.IH [of p1 xs1 "ds @ [m']" "\<lambda>k. Inv (Suc k)" "Suc i" "\<lambda>k. R (Suc k)"] f(3) by blast
  have "mgr_static ((m' # ms') ! k) = mgr_static ((m # ms) ! k) \<and> R k ((v # vs) ! k) ((m' # ms') ! k)"
    if "k < length (m # ms)" for k using that r(7) f(4) st(2) by (cases k) auto
  with f(1) r st(1) show ?case by (intro exI [of _ "v # vs"] exI [of _ "m' # ms'"] exI [of _ p'] exI [of _ xs']) simp
qed

subsection \<open>Freeing on all managers\<close>

definition coord_ok :: "coordinator \<Rightarrow> bref list \<Rightarrow> bool" where
  "coord_ok c xs \<longleftrightarrow> kv_ok (coord_pool c) xs (coord_managers c)"

definition mgr_turns ::
  "(nat \<Rightarrow> manager \<times> block_pool \<Rightarrow> ('a \<times> manager \<times> block_pool) result) \<Rightarrow> (nat \<Rightarrow> block_pool \<Rightarrow> bref list \<Rightarrow> bool)
    \<Rightarrow> (nat \<Rightarrow> 'a \<Rightarrow> manager \<Rightarrow> bool) \<Rightarrow> manager list \<Rightarrow> bool" where
  "mgr_turns f Inv R ms \<longleftrightarrow> (\<forall>k p xs other. k < length ms \<and> mgr_ok p xs (ms ! k) other \<and> Inv k p xs \<longrightarrow>
     (\<exists>v m' p' xs'. f k (ms ! k, p) = Inr (v, m', p') \<and> mgr_step p (ms ! k) other p' xs' m' \<and> Inv (Suc k) p' xs' \<and> R k v m'))"

text \<open>What no operation changes in a coordinator.\<close>

definition coord_static ::
  "coordinator \<Rightarrow> coordinator_kind \<times> kv_cache_group_spec list \<times> bool \<times> bool \<times> int \<times> int \<times> int \<times> int
    \<times> attention_group list \<times> int" where
  "coord_static c = (coord_kind c, coord_groups c, coord_enable_caching c, coord_use_eagle c, coord_block_size c,
     coord_dcp c, coord_pcp c, coord_hash_block_size c, coord_attention_groups c, coord_lcm_block_size c)"

lemma on_managers_spec:
  assumes ok: "coord_ok c xs" and "Inv (0 :: nat) (coord_pool c) xs" and turns: "mgr_turns f Inv R (coord_managers c)"
  shows "\<exists>vs c' xs'. on_managers f c = Inr (vs, c') \<and> coord_ok c' xs'
    \<and> coord_static c' = coord_static c
    \<and> static (coord_pool c') = static (coord_pool c) \<and> Inv (length (coord_managers c)) (coord_pool c') xs'
    \<and> length vs = length (coord_managers c) \<and> length (coord_managers c') = length (coord_managers c)
    \<and> (\<forall>k < length (coord_managers c). mgr_static (coord_managers c' ! k) = mgr_static (coord_managers c ! k)
         \<and> R k (vs ! k) (coord_managers c' ! k))"
proof -
  have z: "kv_ok (coord_pool c) xs ([] @ coord_managers c)" using ok by (simp add: coord_ok_def)
  have "\<exists>vs ms' p' xs'. each_manager f 0 (coord_managers c) (coord_pool c) = Inr (vs, ms', p') \<and> kv_ok p' xs' ([] @ ms')
    \<and> static p' = static (coord_pool c) \<and> Inv (length (coord_managers c)) p' xs' \<and> length vs = length (coord_managers c)
    \<and> length ms' = length (coord_managers c)
    \<and> (\<forall>k < length (coord_managers c). mgr_static (ms' ! k) = mgr_static (coord_managers c ! k) \<and> R k (vs ! k) (ms' ! k))"
    by (rule each_manager_spec [where Inv = Inv, OF z assms(2)]) (use turns in \<open>unfold add_0 mgr_turns_def, blast\<close>)
  then obtain vs ms' p' xs' where "each_manager f 0 (coord_managers c) (coord_pool c) = Inr (vs, ms', p')" "kv_ok p' xs' ms'"
    "static p' = static (coord_pool c)" "Inv (length (coord_managers c)) p' xs'" "length vs = length (coord_managers c)"
    "length ms' = length (coord_managers c)"
    "\<forall>k < length (coord_managers c). mgr_static (ms' ! k) = mgr_static (coord_managers c ! k) \<and> R k (vs ! k) (ms' ! k)"
    by auto
  then show ?thesis
    by (intro exI [of _ vs] exI [of _ "c\<lparr>coord_managers := ms', coord_pool := p'\<rparr>"] exI [of _ xs'])
      (simp add: on_managers_def coord_ok_def coord_static_def)
qed

text \<open>The tables of one request, and those of the others, before and after.\<close>

definition tables_become :: "coordinator \<Rightarrow> coordinator \<Rightarrow> string \<Rightarrow> (nat \<Rightarrow> bref list) \<Rightarrow> bool" where
  "tables_become c c' r t \<longleftrightarrow> length (coord_managers c') = length (coord_managers c)
     \<and> (\<forall>k < length (coord_managers c). table (coord_managers c' ! k) = (table (coord_managers c ! k))(r := t k))"

lemma coord_free_spec:
  assumes ok: "coord_ok c xs"
  shows "\<exists>c' xs'. coord_free r c = Inr c' \<and> coord_ok c' xs' \<and> tables_become c c' r (\<lambda>_. [])
    \<and> static (coord_pool c') = static (coord_pool c) \<and> hash_of (coord_pool c') = hash_of (coord_pool c)
    \<and> (\<forall>m \<in> set (coord_managers c'). \<not> is_running m r) \<and> (\<exists>ys. xs' = xs @ ys)
    \<and> coord_static c' = coord_static c
    \<and> (\<forall>k < length (coord_managers c). mgr_static (coord_managers c' ! k) = mgr_static (coord_managers c ! k))"
proof -
  define Inv where "Inv = (\<lambda>(k :: nat) p ys. hash_of p = hash_of (coord_pool c) \<and> (\<exists>zs. ys = xs @ zs))"
  define R where "R = (\<lambda>k (v :: unit) m'. table m' = (table (coord_managers c ! k))(r := []) \<and> \<not> is_running m' r)"
  have turns: "mgr_turns (\<lambda>i mp. no_value (mgr_free r mp)) Inv R (coord_managers c)"
    unfolding mgr_turns_def
  proof (intro allI impI, elim conjE)
    fix k p ys other assume m: "mgr_ok p ys (coord_managers c ! k) other" "Inv k p ys"
    show "\<exists>v m' p' xs'. no_value (mgr_free r (coord_managers c ! k, p)) = Inr (v, m', p')
      \<and> mgr_step p (coord_managers c ! k) other p' xs' m' \<and> Inv (Suc k) p' xs' \<and> R k v m'"
      using mgr_free_spec [OF m(1), of r] m(2) unfolding Inv_def R_def no_value_def by force
  qed
  have "Inv 0 (coord_pool c) xs" by (simp add: Inv_def)
  from on_managers_spec [where Inv = Inv, OF ok this turns]
  obtain vs c' xs' where c': "on_managers (\<lambda>i mp. no_value (mgr_free r mp)) c = Inr (vs, c')" "coord_ok c' xs'"
    "static (coord_pool c') = static (coord_pool c)" "Inv (length (coord_managers c)) (coord_pool c') xs'"
    "length (coord_managers c') = length (coord_managers c)"
    "\<forall>k < length (coord_managers c). R k (vs ! k) (coord_managers c' ! k)"
    "coord_static c' = coord_static c"
    "\<forall>k < length (coord_managers c). mgr_static (coord_managers c' ! k) = mgr_static (coord_managers c ! k)"
    by blast
  show ?thesis
    using c' by (intro exI [of _ c'] exI [of _ xs'])
      (auto simp: coord_free_def tables_become_def Inv_def R_def in_set_conv_nth)
qed

text \<open>When no request holds a block, every block but the null block is free.\<close>

lemma all_free:
  assumes ok: "coord_ok c xs" and e: "\<forall>m \<in> set (coord_managers c). \<forall>r. table m r = []"
  shows "get_num_free_blocks (coord_pool c) = num_gpu_blocks (coord_pool c) - 1"
proof -
  let ?p = "coord_pool c"
  have inv: "pool_inv ?p xs" using ok by (simp add: coord_ok_def kv_ok_def)
  have z: "mgr_count m i = 0" if m: "m \<in> set (coord_managers c)" for m i
  proof -
    have d: "distinct (map fst (req_to_blocks m))" using ok m by (auto simp: coord_ok_def kv_ok_def mgr_fits_def mgr_wf_def)
    have "snd x = []" if x: "x \<in> set (req_to_blocks m)" for x
    proof -
      have "map_of (req_to_blocks m) (fst x) = Some (snd x)" using d x by simp
      then show ?thesis using e m by (metis option.simps(5) table_def)
    qed
    then show ?thesis unfolding mgr_count_def entry_count_def
      by (metis (mono_tags, lifting) count_list.simps(1) map_idI map_replicate_const sum_list_0 sum_list_replicate mult_0_right map_cong)
  qed
  have "ms_count (coord_managers c) i = 0" for i
    using z by (simp add: ms_count_def)
  then have r0: "refs ?p i = 0" if "0 < i" "i < nblocks ?p" for i
    using ok that by (simp add: coord_ok_def kv_ok_def)
  have "set xs = Blk ` {1 ..< nblocks ?p}" using pool_coreD(9) [OF inv] r0 by (auto simp: image_iff)
  then have "card (set xs) = nblocks ?p - 1" by (simp add: card_image inj_on_def)
  then have "length xs = nblocks ?p - 1" using distinct_card [OF pool_core_distinct [OF inv]] by simp
  then show ?thesis using pool_core_num_free [OF inv] pool_coreD(1) [OF inv] by (simp add: nblocks_def)
qed

end
