(* ===== verification/Admission.thy ===== *)
theory Admission
  imports KV_Invariant
begin

text \<open>
  Admission control.  Before it allocates, the cache manager asks how many blocks a request needs
  and compares with the number of free blocks.  This theory shows that the answer is what the
  allocation will take: the steps that follow a positive answer never run out of blocks, although
  each of them changes the free list the next one sees, and cache hits that sit on the free list
  are taken off it on the way.
\<close>

subsection \<open>Admission: the block count covers what the allocation takes\<close>

text \<open>
  The managers this section treats: every class but cross attention, and Mamba except in the
  \<open>align\<close> mode, with positive window and chunk sizes.
\<close>

definition plain :: "manager \<Rightarrow> bool" where
  "plain m \<longleftrightarrow> mgr_class m \<noteq> CrossAttentionManager \<and> \<not> is_mamba_align m \<and> skip_ok m
     \<and> (case mgr_spec m of
          MambaSpec ms \<Rightarrow> mb_block_size ms = block_size m \<and> 0 \<le> num_speculative_blocks ms
        | _ \<Rightarrow> mgr_class m \<noteq> MambaManager)"

lemma plain_static: "mgr_static m' = mgr_static m \<Longrightarrow> plain m' = plain m"
  by (simp add: plain_def is_mamba_align_def skip_ok_def mgr_static_def split: layer_spec.split)

lemma skipped_static:
  "mgr_static m' = mgr_static m \<Longrightarrow> skipped_blocks m' = skipped_blocks m"
  by (simp add: skipped_blocks_def skipped_tokens_def mgr_static_def fun_eq_iff)

text \<open>Mamba counts the tokens of its speculative blocks in, and ignores them when it skips.\<close>

definition slot_tokens :: "manager \<Rightarrow> int \<Rightarrow> int" where
  "slot_tokens m n = (case mgr_spec m of MambaSpec ms \<Rightarrow> n + block_size m * num_speculative_blocks ms | _ \<Rightarrow> n)"

definition past_tokens :: "manager \<Rightarrow> int \<Rightarrow> int" where
  "past_tokens m n = (case mgr_spec m of MambaSpec ms \<Rightarrow> max 0 (n - num_speculative_blocks ms) | _ \<Rightarrow> n)"

lemma allocate_new_blocks_plain:
  "plain m \<Longrightarrow> allocate_new_blocks env r n main (m, p) = base_allocate_new_blocks env r (slot_tokens m n) (m, p)"
  by (auto simp: allocate_new_blocks_def slot_tokens_def plain_def is_mamba_align_def split: layer_spec.splits)

lemma remove_skipped_blocks_plain:
  assumes "plain m"
  shows "remove_skipped_blocks r n (m, p) = base_remove_skipped_blocks r (past_tokens m n) (m, p)"
proof (cases "mgr_spec m")
  case (MambaSpec ms)
  have "ebind x (\<lambda>(m, p). Inr (m, p)) = x" for x :: "(manager \<times> block_pool) result" by (cases x) auto
  with assms MambaSpec show ?thesis
    by (simp add: remove_skipped_blocks_def mamba_remove_skipped_blocks_def past_tokens_def plain_def is_mamba_align_def)
qed (simp_all add: remove_skipped_blocks_def past_tokens_def)

text \<open>
  What a caller may ask for: a new request with its cache hits, or more room for a request whose
  computed tokens its table covers.
\<close>

definition ask_ok :: "block_pool \<Rightarrow> manager \<Rightarrow> string \<Rightarrow> bref list \<Rightarrow> int \<Rightarrow> bool" where
  "ask_ok p m r hits tot \<longleftrightarrow>
     (table m r = [] \<and> \<not> is_running m r \<and> hits_ok p m hits tot)
     \<or> (hits = [] \<and> 0 \<le> tot \<and> tot \<le> int (length (table m r)) * block_size m)"

text \<open>The fresh blocks that are missing once the hits are in the table.\<close>

definition fresh_need :: "manager \<Rightarrow> string \<Rightarrow> bref list \<Rightarrow> int \<Rightarrow> int \<Rightarrow> int" where
  "fresh_need m r hits tot n =
     max 0 (cdiv n (block_size m) - int (max (skipped_blocks m tot) (length hits + length (table m r))))"

lemma skipped_blocks_div_le:
  assumes "skip_ok m" "0 < block_size m" "0 \<le> tot" "tot \<le> int k * block_size m"
  shows "skipped_blocks m tot \<le> k"
proof -
  have "skipped_tokens m tot div block_size m \<le> int k * block_size m div block_size m"
    using skipped_le [OF assms(1,3)] assms(2,4) by (intro zdiv_mono1) auto
  then show ?thesis using assms(2) by (simp add: skipped_blocks_def nat_le_iff)
qed

lemma base_count_covers:
  assumes bs: "0 < block_size m" and sk: "skip_ok m" and ask: "ask_ok p m r hits tot"
  shows "\<exists>N. base_get_num_blocks_to_allocate m p r n hits tot = Inr N \<and> 0 \<le> N
    \<and> N = fresh_need m r hits tot n + get_num_evictable_blocks p (drop (skipped_blocks m tot) hits)"
  using ask unfolding ask_ok_def
proof (elim disjE conjE)
  assume t: "table m r = []" "\<not> is_running m r" and h: "hits_ok p m hits tot"
  have a: "int (max (skipped_blocks m tot) (length hits)) = max (skipped_tokens m tot div block_size m) (int (length hits))"
    by (simp add: skipped_blocks_def)
  have z: "max x 0 = max 0 x" for x :: int by (rule max.commute)
  have d: "py_drop hits (max 0 (skipped_tokens m tot div block_size m)) = drop (skipped_blocks m tot) hits"
    by (simp add: py_drop_nonneg skipped_blocks_def max_def)
  show ?thesis using bs t d
    by (simp add: base_get_num_blocks_to_allocate_def get_num_skipped_tokens_eq [OF sk] fresh_need_def a z Let_def
        get_num_evictable_blocks_def)
next
  assume hits: "hits = []" and tot: "0 \<le> tot" "tot \<le> int (length (table m r)) * block_size m"
  have le: "skipped_blocks m tot \<le> length (table m r)" by (rule skipped_blocks_div_le [OF sk bs tot])
  then have le': "skipped_tokens m tot div block_size m \<le> int (length (table m r))" by (simp add: skipped_blocks_def nat_le_iff)
  show ?thesis using bs hits le le'
    by (simp add: base_get_num_blocks_to_allocate_def get_num_skipped_tokens_eq [OF sk] fresh_need_def Let_def
        get_num_evictable_blocks_def py_drop_def max_absorb2 max.commute)
qed

text \<open>Mamba may also answer with more than the pool has, which defers the request.\<close>

lemma count_covers:
  assumes bs: "0 < block_size m" and pl: "plain m" and ask: "ask_ok p m r hits tot" and pool: "0 < num_gpu_blocks p"
  shows "\<exists>N. get_num_blocks_to_allocate m p r n hits tot main = Inr (N, m) \<and> 0 \<le> N
    \<and> (N \<le> num_gpu_blocks p \<longrightarrow>
        N = fresh_need m r hits tot (slot_tokens m n) + get_num_evictable_blocks p (drop (skipped_blocks m tot) hits))"
proof -
  have sk: "skip_ok m" using pl by (simp add: plain_def)
  note base = base_count_covers [OF bs sk ask]
  show ?thesis
  proof (cases "mgr_spec m")
    case (MambaSpec ms)
    have s: "slot_tokens m n = (if num_speculative_blocks ms > 0 then n + mb_block_size ms * num_speculative_blocks ms else n)"
      using pl MambaSpec by (simp add: slot_tokens_def plain_def)
    have na: "mamba_cache_mode ms \<noteq> ''align''" using pl MambaSpec by (simp add: plain_def is_mamba_align_def)
    show ?thesis using MambaSpec base [of "slot_tokens m n"] na pool
      by (auto simp: get_num_blocks_to_allocate_def mamba_get_num_blocks_to_allocate_def s Let_def)
  qed (use base [of n] in \<open>auto simp: get_num_blocks_to_allocate_def slot_tokens_def\<close>)
qed

definition all_managers :: "(manager \<Rightarrow> bool) \<Rightarrow> coordinator \<Rightarrow> bool" where
  "all_managers P c \<longleftrightarrow> (\<forall>m \<in> set (coord_managers c). P m)"

lemma all_managers_nth: "all_managers P c \<Longrightarrow> k < length (coord_managers c) \<Longrightarrow> P (coord_managers c ! k)"
  by (simp add: all_managers_def)

lemma all_managers_static:
  assumes "all_managers P c" "length (coord_managers c') = length (coord_managers c)"
    and "\<forall>k < length (coord_managers c). mgr_static (coord_managers c' ! k) = mgr_static (coord_managers c ! k)"
    and "\<And>m m'. mgr_static m' = mgr_static m \<Longrightarrow> P m' = P m"
  shows "all_managers P c'"
  unfolding all_managers_def
proof
  fix m assume "m \<in> set (coord_managers c')"
  then obtain k where "k < length (coord_managers c)" "m = coord_managers c' ! k"
    using assms(2) by (auto simp: in_set_conv_nth)
  with assms(3,4) all_managers_nth [OF assms(1)] show "P m" by metis
qed

text \<open>What a loop over the managers leaves of the coordinator.\<close>

definition coord_step :: "coordinator \<Rightarrow> coordinator \<Rightarrow> bref list \<Rightarrow> bool" where
  "coord_step c c' xs' \<longleftrightarrow> coord_ok c' xs' \<and> static (coord_pool c') = static (coord_pool c)
     \<and> coord_static c' = coord_static c
     \<and> length (coord_managers c') = length (coord_managers c)
     \<and> (\<forall>k < length (coord_managers c). mgr_static (coord_managers c' ! k) = mgr_static (coord_managers c ! k))"

lemma coord_step_plain:
  assumes "coord_step c c' xs'" "all_managers plain c"
  shows "all_managers plain c'"
proof (rule all_managers_static [OF assms(2)])
  show "plain m' = plain m" if "mgr_static m' = mgr_static m" for m m' by (rule plain_static [OF that])
qed (use assms(1) in \<open>simp_all add: coord_step_def\<close>)

lemma coord_step_trans:
  "coord_step c c1 xs1 \<Longrightarrow> coord_step c1 c2 xs2 \<Longrightarrow> coord_step c c2 xs2"
  by (auto simp: coord_step_def)

lemma coord_step_refl: "coord_ok c xs \<Longrightarrow> coord_step c c xs"
  by (simp add: coord_step_def)

subsection \<open>Step by step through an allocation\<close>

lemma coord_remove_skipped_spec:
  assumes ok: "coord_ok c xs" and pl: "all_managers plain c"
  shows "\<exists>c' xs'. coord_remove_skipped_blocks r n c = Inr c' \<and> coord_step c c' (xs @ xs')
    \<and> hash_of (coord_pool c') = hash_of (coord_pool c)
    \<and> (\<forall>k < length (coord_managers c). let m = coord_managers c ! k; m' = coord_managers c' ! k in
         num_cached_block m' = num_cached_block m \<and> length (table m' r) = length (table m r)
         \<and> (\<forall>s. s \<noteq> r \<longrightarrow> table m' s = table m s))"
proof -
  let ?f = "\<lambda>i mp. no_value (remove_skipped_blocks r n mp)"
  define Inv where "Inv = (\<lambda>(k :: nat) p ys. hash_of p = hash_of (coord_pool c) \<and> (\<exists>zs. ys = xs @ zs))"
  define R where "R = (\<lambda>k (v :: unit) m'. num_cached_block m' = num_cached_block (coord_managers c ! k)
    \<and> length (table m' r) = length (table (coord_managers c ! k) r) \<and> (\<forall>s. s \<noteq> r \<longrightarrow> table m' s = table (coord_managers c ! k) s))"
  have turns: "mgr_turns ?f Inv R (coord_managers c)"
    unfolding mgr_turns_def
  proof (intro allI impI, elim conjE)
    fix k p ys other
    assume k: "k < length (coord_managers c)" and m: "mgr_ok p ys (coord_managers c ! k) other" and i: "Inv k p ys"
    let ?m = "coord_managers c ! k"
    have p: "plain ?m" by (rule all_managers_nth [OF pl k])
    then have sk: "skip_ok ?m" by (simp add: plain_def)
    obtain m' p' zs j where f: "base_remove_skipped_blocks r (past_tokens ?m n) (?m, p) = Inr (m', p')"
      "mgr_step p ?m other p' (ys @ zs) m'" "num_cached_block m' = num_cached_block ?m" "hash_of p' = hash_of p"
      and t: "j \<le> min (skipped_blocks ?m (past_tokens ?m n)) (length (table ?m r))"
      "table m' = (table ?m)(r := take j (table ?m r)
         @ replicate (min (skipped_blocks ?m (past_tokens ?m n)) (length (table ?m r)) - j) (Blk 0)
         @ drop (min (skipped_blocks ?m (past_tokens ?m n)) (length (table ?m r))) (table ?m r))"
      using base_remove_skipped_blocks_spec [OF m sk, of r "past_tokens ?m n"] by blast
    have "R k () m'" using t f(3) by (auto simp: R_def)
    moreover have "Inv (Suc k) p' (ys @ zs)" using i f(4) by (auto simp: Inv_def)
    ultimately show "\<exists>v m' p' xs'. ?f k (?m, p) = Inr (v, m', p') \<and> mgr_step p ?m other p' xs' m'
        \<and> Inv (Suc k) p' xs' \<and> R k v m'"
      using f(1,2) remove_skipped_blocks_plain [OF p] by (auto simp: no_value_def)
  qed
  have "Inv 0 (coord_pool c) xs" by (simp add: Inv_def)
  from on_managers_spec [where Inv = Inv, OF ok this turns] obtain vs c' xs' where
    c': "on_managers ?f c = Inr (vs, c')" "coord_ok c' xs'"
    "coord_static c' = coord_static c"
    "static (coord_pool c') = static (coord_pool c)" "Inv (length (coord_managers c)) (coord_pool c') xs'"
    "length (coord_managers c') = length (coord_managers c)"
    "\<forall>k < length (coord_managers c). mgr_static (coord_managers c' ! k) = mgr_static (coord_managers c ! k)
      \<and> R k (vs ! k) (coord_managers c' ! k)"
    by blast
  from c'(5) obtain zs where "xs' = xs @ zs" "hash_of (coord_pool c') = hash_of (coord_pool c)" by (auto simp: Inv_def)
  with c' show ?thesis
    by (intro exI [of _ c'] exI [of _ zs]) (simp add: coord_remove_skipped_blocks_def coord_step_def R_def Let_def)
qed

lemma each_manager_pure:
  assumes "\<forall>k < length ms. f (i + k) (ms ! k, p) = Inr (v k, ms ! k, p)"
  shows "each_manager f i ms p = Inr (map v [0 ..< length ms], ms, p)"
  using assms
proof (induction ms arbitrary: i v)
  case (Cons m ms)
  have "\<forall>k < length ms. f (Suc i + k) (ms ! k, p) = Inr (v (Suc k), ms ! k, p)"
    using Cons.prems by force
  from Cons.IH [OF this] Cons.prems show ?case
    by (force simp: upt_conv_Cons map_Suc_upt [symmetric] simp del: upt_Suc)
qed simp

text \<open>The number of blocks the coordinator asks for is the sum over the managers.\<close>

lemma coord_count_spec:
  assumes ok: "coord_ok c xs" and pl: "all_managers plain c" and len: "length hits = length (coord_managers c)"
    and ask: "\<forall>k < length hits. ask_ok (coord_pool c) (coord_managers c ! k) r (hits ! k) tot"
  shows "\<exists>N. coord_get_num_blocks_to_allocate r n hits enc tot main c = Inr (N, c)
    \<and> (N \<le> int (length xs) \<longrightarrow>
        (\<Sum>k < length hits. let m = coord_managers c ! k in fresh_need m r (hits ! k) tot (slot_tokens m n)
           + get_num_evictable_blocks (coord_pool c) (drop (skipped_blocks m tot) (hits ! k))) \<le> int (length xs))"
proof -
  let ?p = "coord_pool c" and ?ms = "coord_managers c"
  have inv: "pool_inv ?p xs" using ok by (simp add: coord_ok_def kv_ok_def)
  have pool: "0 < num_gpu_blocks ?p" by (rule pool_coreD(1) [OF inv])
  have "\<forall>k < length ?ms. \<exists>N. get_num_blocks_to_allocate (?ms ! k) ?p r n (hits ! k) tot main = Inr (N, ?ms ! k) \<and> 0 \<le> N
      \<and> (N \<le> num_gpu_blocks ?p \<longrightarrow> N = fresh_need (?ms ! k) r (hits ! k) tot (slot_tokens (?ms ! k) n)
           + get_num_evictable_blocks ?p (drop (skipped_blocks (?ms ! k) tot) (hits ! k)))"
  proof (intro allI impI)
    fix k assume k: "k < length ?ms"
    have "mgr_fits ?p (?ms ! k)" using ok k by (simp add: coord_ok_def kv_ok_def)
    then have "0 < block_size (?ms ! k)" by (simp add: mgr_fits_def mgr_wf_def)
    from count_covers [OF this all_managers_nth [OF pl k] _ pool] ask k len
    show "\<exists>N. get_num_blocks_to_allocate (?ms ! k) ?p r n (hits ! k) tot main = Inr (N, ?ms ! k) \<and> 0 \<le> N
      \<and> (N \<le> num_gpu_blocks ?p \<longrightarrow> N = fresh_need (?ms ! k) r (hits ! k) tot (slot_tokens (?ms ! k) n)
           + get_num_evictable_blocks ?p (drop (skipped_blocks (?ms ! k) tot) (hits ! k)))" by simp
  qed
  then obtain v where v: "\<forall>k < length ?ms. get_num_blocks_to_allocate (?ms ! k) ?p r n (hits ! k) tot main = Inr (v k, ?ms ! k)
      \<and> 0 \<le> v k \<and> (v k \<le> num_gpu_blocks ?p \<longrightarrow> v k = fresh_need (?ms ! k) r (hits ! k) tot (slot_tokens (?ms ! k) n)
           + get_num_evictable_blocks ?p (drop (skipped_blocks (?ms ! k) tot) (hits ! k)))"
    by metis
  let ?f = "\<lambda>i (m, p). ebind (if is_cross m
              then get_num_blocks_to_allocate m p r enc [] 0 enc
              else ebind (py_index hits (int i)) (\<lambda>blocks.
                get_num_blocks_to_allocate m p r n blocks tot main)) (\<lambda>(n, m). Inr (n, m, p))"
  have "\<forall>k < length ?ms. ?f (0 + k) (?ms ! k, ?p) = Inr (v k, ?ms ! k, ?p)"
    using v len all_managers_nth [OF pl] by (simp add: is_cross_def plain_def py_index_nonneg)
  from each_manager_pure [OF this] have e: "on_managers ?f c = Inr (map v [0 ..< length ?ms], c)"
    by (simp add: on_managers_def)
  let ?N = "\<Sum>k < length ?ms. v k"
  have N: "coord_get_num_blocks_to_allocate r n hits enc tot main c = Inr (?N, c)"
    using e by (simp add: coord_get_num_blocks_to_allocate_def sum_list_sum_nth atLeast0LessThan)
  have "(\<Sum>k < length hits. let m = ?ms ! k in fresh_need m r (hits ! k) tot (slot_tokens m n)
           + get_num_evictable_blocks ?p (drop (skipped_blocks m tot) (hits ! k))) = ?N" if le: "?N \<le> int (length xs)"
    unfolding len
  proof (rule sum.cong [OF refl])
    fix k assume "k \<in> {..< length ?ms}"
    then have k: "k < length ?ms" by simp
    have "v k \<le> ?N" using v k by (intro member_le_sum) auto
    moreover have "int (length xs) < num_gpu_blocks ?p"
    proof -
      have "set xs \<subseteq> Blk ` {1 ..< nblocks ?p}" using pool_coreD(9) [OF inv] by auto
      then have "card (set xs) \<le> card (Blk ` {1 ..< nblocks ?p})" by (intro card_mono) auto
      also have "\<dots> = nblocks ?p - 1" by (simp add: card_image inj_on_def)
      finally show ?thesis using distinct_card [OF pool_core_distinct [OF inv]] pool by (simp add: nblocks_def)
    qed
    ultimately show "(let m = ?ms ! k in fresh_need m r (hits ! k) tot (slot_tokens m n)
           + get_num_evictable_blocks ?p (drop (skipped_blocks m tot) (hits ! k))) = v k"
      using v k le by (simp add: Let_def)
  qed
  with N show ?thesis by auto
qed

lemma get_num_free_ok: "coord_ok c xs \<Longrightarrow> get_num_free_blocks (coord_pool c) = int (length xs)"
  using pool_core_num_free by (auto simp: coord_ok_def kv_ok_def)

lemma coord_block_size: "coord_ok c xs \<Longrightarrow> k < length (coord_managers c) \<Longrightarrow> 0 < block_size (coord_managers c ! k)"
  by (simp add: coord_ok_def kv_ok_def mgr_fits_def mgr_wf_def)

text \<open>Every manager extends the table of the request by what it still needs.\<close>

lemma coord_allocate_new_blocks_spec:
  assumes ok: "coord_ok c xs" and pl: "all_managers plain c"
    and enough: "(\<Sum>k < length (coord_managers c). blocks_needed (coord_managers c ! k) r (slot_tokens (coord_managers c ! k) n))
      \<le> int (length xs)"
  shows "\<exists>new c' xs'. coord_allocate_new_blocks env r n main enc c = Inr (new, c') \<and> coord_step c c' xs'
    \<and> length new = length (coord_managers c)
    \<and> (\<forall>k < length (coord_managers c). let m = coord_managers c ! k; m' = coord_managers c' ! k in
         table m' = (table m)(r := table m r @ new ! k) \<and> num_cached_block m' = num_cached_block m
         \<and> int (length (new ! k)) = blocks_needed m r (slot_tokens m n))"
proof -
  let ?ms = "coord_managers c"
  let ?f = "\<lambda>i (m, p). allocate_new_blocks env r (if is_cross m then enc else n) main (m, p)"
  let ?B = "\<lambda>k. blocks_needed (?ms ! k) r (slot_tokens (?ms ! k) n)"
  define Inv where "Inv = (\<lambda>k (p :: block_pool) (ys :: bref list). int (length xs) \<le> int (length ys) + (\<Sum>j < k. ?B j))"
  define R where "R = (\<lambda>k v m'. table m' = (table (?ms ! k))(r := table (?ms ! k) r @ v)
    \<and> num_cached_block m' = num_cached_block (?ms ! k) \<and> int (length v) = ?B k)"
  have nn: "0 \<le> ?B j" for j by (simp add: blocks_needed_def)
  have turns: "mgr_turns ?f Inv R ?ms"
    unfolding mgr_turns_def
  proof (intro allI impI, elim conjE)
    fix k p ys other
    assume k: "k < length ?ms" and m: "mgr_ok p ys (?ms ! k) other" and i: "Inv k p ys"
    have p: "plain (?ms ! k)" by (rule all_managers_nth [OF pl k])
    have "(\<Sum>j < k. ?B j) + ?B k \<le> (\<Sum>j < length ?ms. ?B j)"
    proof -
      have "(\<Sum>j < Suc k. ?B j) \<le> (\<Sum>j < length ?ms. ?B j)" by (rule sum_mono2) (use k nn in auto)
      then show ?thesis by simp
    qed
    with i enough have le: "?B k \<le> int (length ys)" by (simp add: Inv_def)
    let ?zs = "take (nat (?B k)) ys"
    obtain m' p' where f: "base_allocate_new_blocks env r (slot_tokens (?ms ! k) n) (?ms ! k, p) = Inr (?zs, m', p')"
      "mgr_step p (?ms ! k) other p' (drop (nat (?B k)) ys) m'" "table m' = (table (?ms ! k))(r := table (?ms ! k) r @ ?zs)"
      "num_cached_block m' = num_cached_block (?ms ! k)"
      using base_allocate_new_blocks_spec [OF m le, of env] by blast
    have "Inv (Suc k) p' (drop (nat (?B k)) ys)" using i le nn [of k] by (simp add: Inv_def)
    moreover have "R k ?zs m'" using f(3,4) le nn [of k] by (simp add: R_def)
    moreover have "?f k (?ms ! k, p) = Inr (?zs, m', p')"
      using f(1) allocate_new_blocks_plain [OF p] p by (simp add: is_cross_def plain_def)
    ultimately show "\<exists>v m' p' xs'. ?f k (?ms ! k, p) = Inr (v, m', p') \<and> mgr_step p (?ms ! k) other p' xs' m'
        \<and> Inv (Suc k) p' xs' \<and> R k v m'" using f(2) by blast
  qed
  have "Inv 0 (coord_pool c) xs" by (simp add: Inv_def)
  from on_managers_spec [where Inv = Inv, OF ok this turns] obtain vs c' xs' where
    c': "on_managers ?f c = Inr (vs, c')" "coord_ok c' xs'" "coord_static c' = coord_static c"
    "static (coord_pool c') = static (coord_pool c)" "length vs = length ?ms"
    "length (coord_managers c') = length ?ms"
    "\<forall>k < length ?ms. mgr_static (coord_managers c' ! k) = mgr_static (?ms ! k) \<and> R k (vs ! k) (coord_managers c' ! k)"
    by blast
  then show ?thesis
    by (intro exI [of _ vs] exI [of _ c'] exI [of _ xs'])
      (simp add: coord_allocate_new_blocks_def coord_step_def R_def Let_def)
qed

text \<open>
  Every manager adopts its hits; with hits of the first manager only, or without external tokens, no allocation comes
  in between that could evict the hits of another.
\<close>

lemma external_le_fresh:
  assumes bs: "0 < block_size m" and sk: "skip_ok m" and t: "table m r = []" and n: "0 < ne \<Longrightarrow> nl + ne \<le> n"
  shows "external_blocks m hits nl ne \<le> fresh_need m r hits (nl + ne) n"
proof -
  have "cdiv (nl + ne) (block_size m) \<le> cdiv n (block_size m)" if "0 < ne" by (rule cdiv_mono [OF bs n [OF that]])
  then show ?thesis using t by (auto simp: external_blocks_def fresh_need_def Let_def hit_table_length)
qed

lemma adopt_keeps_hashes:
  fixes nl ne :: int
  assumes ok: "mgr_ok p xs m other" and sk: "skip_ok m" and nr: "\<not> is_running m r" and tb: "table m r = []"
    and h: "hits_ok p m hits (nl + ne)" and ne: "ne \<le> 0"
    and a: "base_allocate_new_computed_blocks env r hits nl ne (m, p) = Inr (m', p')"
  shows "hash_of p' = hash_of p"
proof -
  obtain p1 where p1: "(if mgr_enable_caching m then touch (drop (skipped_blocks m (nl + ne)) hits) p
      else ebind (eassert (drop (skipped_blocks m (nl + ne)) hits = [])) (\<lambda>_. Inr p)) = Inr p1" "hash_of p1 = hash_of p"
    using adopt_hits_step [OF ok tb h] by blast
  have "p' = p1"
    using a ne unfolding base_allocate_new_computed_blocks_eq [OF mgr_ok_pool(2) [OF ok] sk nr tb mgr_ok_pool(3) [OF ok] p1(1)]
    by (auto split: if_splits)
  with p1(2) show ?thesis by simp
qed

lemma coord_adopt_spec:
  fixes nl ne n :: int
  assumes ok: "coord_ok c xs" and pl: "all_managers plain c" and len: "length hits = length (coord_managers c)"
    and one: "ne \<le> 0 \<or> (\<forall>hs \<in> set (tl hits). hs = [])" and n: "0 < ne \<longrightarrow> nl + ne \<le> n"
    and fresh: "\<forall>k < length hits. table (coord_managers c ! k) r = [] \<and> \<not> is_running (coord_managers c ! k) r
      \<and> hits_ok (coord_pool c) (coord_managers c ! k) (hits ! k) (nl + ne)"
    and enough: "(\<Sum>k < length hits. let m = coord_managers c ! k in fresh_need m r (hits ! k) (nl + ne) (slot_tokens m n)
      + get_num_evictable_blocks (coord_pool c) (drop (skipped_blocks m (nl + ne)) (hits ! k))) \<le> int (length xs)"
  shows "\<exists>c' xs'. coord_allocate_new_computed_blocks env r hits nl ne c = Inr c' \<and> coord_step c c' xs'
    \<and> (\<Sum>k < length hits. blocks_needed (coord_managers c' ! k) r (slot_tokens (coord_managers c' ! k) n)) \<le> int (length xs')
    \<and> (\<forall>k < length hits. let m = coord_managers c ! k; m' = coord_managers c' ! k in
         (\<exists>ys. table m' = (table m)(r := hit_table m (hits ! k) (nl + ne) @ ys))
         \<and> num_cached m' r = int (length (hit_table m (hits ! k) (nl + ne))))"
proof -
  let ?ms = "coord_managers c" and ?p0 = "coord_pool c"
  let ?f = "\<lambda>i mp. ebind (py_index hits (int i)) (\<lambda>blocks.
         no_value (allocate_new_computed_blocks env r blocks nl ne mp))"
  let ?hs = "\<lambda>k. drop (skipped_blocks (?ms ! k) (nl + ne)) (hits ! k)"
  let ?E = "\<lambda>k. get_num_evictable_blocks ?p0 (?hs k)" and ?X = "\<lambda>k. external_blocks (?ms ! k) (hits ! k) nl ne"
  let ?F = "\<lambda>k. fresh_need (?ms ! k) r (hits ! k) (nl + ne) (slot_tokens (?ms ! k) n)"
  define Inv where "Inv = (\<lambda>k p (ys :: bref list). int (length xs) \<le> int (length ys) + (\<Sum>j < k. ?E j + ?X j) \<and> set ys \<subseteq> set xs
    \<and> static p = static ?p0 \<and> (ne \<le> 0 \<or> k = 0 \<longrightarrow> hash_of p = hash_of ?p0))"
  define R where "R = (\<lambda>k (v :: unit) m'. (\<exists>ys. table m' = (table (?ms ! k))(r := hit_table (?ms ! k) (hits ! k) (nl + ne) @ ys)
      \<and> int (length ys) = ?X k)
    \<and> num_cached m' r = int (length (hit_table (?ms ! k) (hits ! k) (nl + ne))))"
  have inv: "pool_inv ?p0 xs" using ok by (simp add: coord_ok_def kv_ok_def)
  have facts: "0 \<le> ?E k \<and> 0 \<le> ?X k \<and> ?X k \<le> ?F k" if k: "k < length ?ms" for k
  proof -
    note bs = coord_block_size [OF ok k] and p = all_managers_nth [OF pl k]
    have sk: "skip_ok (?ms ! k)" using p by (simp add: plain_def)
    have h: "hits_ok ?p0 (?ms ! k) (hits ! k) (nl + ne)" "table (?ms ! k) r = []" using fresh k len by auto
    have "n \<le> slot_tokens (?ms ! k) n"
      using p bs by (auto simp: slot_tokens_def plain_def split: layer_spec.splits)
    then have "?X k \<le> ?F k" using n by (intro external_le_fresh [OF bs sk h(2)]) auto
    then show ?thesis using external_blocks_nonneg [OF h(1) sk bs] by (simp add: get_num_evictable_blocks_def)
  qed
  have turns: "mgr_turns ?f Inv R ?ms"
    unfolding mgr_turns_def
  proof (intro allI impI, elim conjE)
    fix k p ys other
    assume k: "k < length ?ms" and m: "mgr_ok p ys (?ms ! k) other" and i: "Inv k p ys"
    note pk = all_managers_nth [OF pl k]
    have sk: "skip_ok (?ms ! k)" and nc: "mgr_class (?ms ! k) \<noteq> CrossAttentionManager" using pk by (simp_all add: plain_def)
    have fr: "table (?ms ! k) r = []" "\<not> is_running (?ms ! k) r" "hits_ok ?p0 (?ms ! k) (hits ! k) (nl + ne)"
      using fresh k len by auto
    have "ne \<le> 0 \<or> k = 0 \<or> hits ! k = []"
    proof (cases k)
      case (Suc j)
      then have "hits ! k \<in> set (tl hits)" using k len by (auto simp: nth_tl [symmetric] intro!: nth_mem)
      then show ?thesis using one by blast
    qed simp
    then have st: "static p = static ?p0" "hash_of p = hash_of ?p0 \<or> hits ! k = []" using i by (auto simp: Inv_def)
    have h: "hits_ok p (?ms ! k) (hits ! k) (nl + ne)" using fr(3) st(2) staticD(2,9) [OF st(1)] by (auto simp: hits_ok_def)
    have tk: "table_ok (nblocks p) (?hs k)" "table_ok (nblocks ?p0) (?hs k)"
      using h fr(3) table_ok_drop by (auto simp: hits_ok_def)
    have invp: "pool_inv p ys" by (rule mgr_ok_pool(1) [OF m])
    let ?ys1 = "filter (\<lambda>b. b \<notin> set (?hs k)) ys"
    have l1: "int (length ys) \<le> int (length ?ys1) + ?E k"
    proof -
      have "length (filter (\<lambda>b. b \<in> set ys) (?hs k)) \<le> length (filter (\<lambda>b. b \<in> set xs) (?hs k))"
      proof -
        have "filter (\<lambda>b. b \<in> set ys) (?hs k) = filter (\<lambda>b. b \<in> set ys) (filter (\<lambda>b. b \<in> set xs) (?hs k))"
          using i by (auto simp: Inv_def filter_filter intro!: filter_cong)
        then show ?thesis by (metis length_filter_le)
      qed
      then show ?thesis using evictable_eq(2) [OF invp tk(1)] evictable_eq(1) [OF inv tk(2)] by simp
    qed
    have "?X k \<le> int (length ?ys1)"
    proof -
      have "(\<Sum>j < Suc k. ?E j + ?X j) \<le> (\<Sum>j < k. ?E j + ?F j) + ?E k + ?X k"
        using facts k by (auto intro!: sum_mono)
      moreover have "(\<Sum>j < k. ?E j + ?F j) + (?E k + ?F k) \<le> (\<Sum>j < length ?ms. ?E j + ?F j)"
      proof -
        have "(\<Sum>j < Suc k. ?E j + ?F j) \<le> (\<Sum>j < length ?ms. ?E j + ?F j)"
          using facts k by (intro sum_mono2) (force simp: add_nonneg_nonneg)+
        then show ?thesis by simp
      qed
      ultimately show ?thesis using enough i l1 facts [OF k] len by (simp add: Inv_def Let_def add.commute)
    qed
    from base_allocate_new_computed_blocks_spec [OF m sk fr(2,1) h this, of env] obtain m' p' where
      f: "base_allocate_new_computed_blocks env r (hits ! k) nl ne (?ms ! k, p) = Inr (m', p')"
      "mgr_step p (?ms ! k) other p' (drop (nat (?X k)) ?ys1) m'"
      "table m' = (table (?ms ! k))(r := hit_table (?ms ! k) (hits ! k) (nl + ne) @ take (nat (?X k)) ?ys1)"
      "num_cached m' r = int (length (hit_table (?ms ! k) (hits ! k) (nl + ne)))" by blast
    have "static p' = static ?p0" using f(2) st(1) by (simp add: mgr_step_def)
    moreover have "hash_of p' = hash_of ?p0" if "ne \<le> 0"
      using adopt_keeps_hashes [OF m sk fr(2,1) h that f(1)] i that by (simp add: Inv_def)
    moreover have "set (drop (nat (?X k)) ?ys1) \<subseteq> set xs"
    proof -
      have "set ys \<subseteq> set xs" using i by (simp add: Inv_def)
      moreover have "set (drop (nat (?X k)) ?ys1) \<subseteq> set ys" by (metis filter_is_subset set_drop_subset subset_trans)
      ultimately show ?thesis by blast
    qed
    ultimately have "Inv (Suc k) p' (drop (nat (?X k)) ?ys1)"
      using i l1 \<open>?X k \<le> int (length ?ys1)\<close> facts [OF k] by (simp add: Inv_def)
    moreover have "R k () m'"
      unfolding R_def using f(3,4) \<open>?X k \<le> int (length ?ys1)\<close> facts [OF k] by (intro conjI exI [of _ "take (nat (?X k)) ?ys1"]) simp_all
    moreover have "?f k (?ms ! k, p) = Inr ((), m', p')"
      using f(1) nc k len by (simp add: py_index_nonneg allocate_new_computed_blocks_def no_value_def)
    ultimately show "\<exists>v m' p' xs'. ?f k (?ms ! k, p) = Inr (v, m', p') \<and> mgr_step p (?ms ! k) other p' xs' m'
        \<and> Inv (Suc k) p' xs' \<and> R k v m'" using f(2) by blast
  qed
  have "Inv 0 ?p0 xs" by (simp add: Inv_def)
  from on_managers_spec [where Inv = Inv, OF ok this turns] obtain vs c' xs' where
    c': "on_managers ?f c = Inr (vs, c')" "coord_ok c' xs'" "coord_static c' = coord_static c"
    "static (coord_pool c') = static ?p0" "Inv (length ?ms) (coord_pool c') xs'" "length (coord_managers c') = length ?ms"
    "\<forall>k < length ?ms. mgr_static (coord_managers c' ! k) = mgr_static (?ms ! k) \<and> R k (vs ! k) (coord_managers c' ! k)"
    by blast
  have need: "blocks_needed (coord_managers c' ! k) r (slot_tokens (coord_managers c' ! k) n) = ?F k - ?X k"
    if k: "k < length ?ms" for k
  proof -
    let ?m' = "coord_managers c' ! k"
    have s: "mgr_spec ?m' = mgr_spec (?ms ! k)" "block_size ?m' = block_size (?ms ! k)" using c'(7) k mgr_staticD(2,3) by blast+
    obtain ys where t: "table ?m' r = hit_table (?ms ! k) (hits ! k) (nl + ne) @ ys" "int (length ys) = ?X k"
      using c'(7) k by (auto simp: R_def)
    have sl: "slot_tokens ?m' n = slot_tokens (?ms ! k) n" using s by (simp add: slot_tokens_def split: layer_spec.split)
    have tb: "table (?ms ! k) r = []" using fresh k len by simp
    show ?thesis using facts [OF k] t unfolding sl blocks_needed_def s fresh_need_def by (auto simp: hit_table_length tb)
  qed
  have "(\<Sum>k < length hits. blocks_needed (coord_managers c' ! k) r (slot_tokens (coord_managers c' ! k) n)) = (\<Sum>k < length ?ms. ?F k - ?X k)"
    unfolding len by (rule sum.cong) (simp_all add: need)
  also have "\<dots> \<le> int (length xs')"
  proof -
    have "(\<Sum>k < length ?ms. ?F k - ?X k) + (\<Sum>k < length ?ms. ?E k + ?X k) = (\<Sum>k < length ?ms. ?F k + ?E k)"
      unfolding sum.distrib [symmetric] by (rule sum.cong) simp_all
    then show ?thesis using c'(5) enough len by (simp add: Inv_def Let_def)
  qed
  finally show ?thesis using c' len
    by (intro exI [of _ c'] exI [of _ xs'])
      (auto simp: coord_allocate_new_computed_blocks_def coord_step_def R_def Let_def)
qed

subsection \<open>Caching on all managers\<close>

lemma note_cached_hashes_total:
  assumes "\<forall>b \<in> set bs. is_null (heap p b) \<or> bl_hash (heap p b) \<noteq> None"
  shows "\<exists>hs'. note_cached_hashes p bs hs = Inr hs'"
  using assms by (induction bs arbitrary: hs) auto

lemma mgr_step_cached:
  "mgr_step p m other p' xs' m' \<Longrightarrow> mgr_step p m other p' xs' (m'\<lparr>cached_blocks_this_step := h\<rparr>)"
  by (simp add: mgr_step_def mgr_ok_fields)

lemma note_cached_hashes_adds:
  "note_cached_hashes p bs hs = Inr hs' \<Longrightarrow> hs' = hs \<union> {h. \<exists>b \<in> set bs. \<not> is_null (heap p b) \<and> bl_hash (heap p b) = Some h}"
  by (induction bs arbitrary: hs) (auto split: if_splits option.splits)

lemma cache_blocks_spec:
  assumes ok: "mgr_ok p xs m other" and c: "enable_caching p" and ca: "cacheable p r m n" and cls: "mgr_class m \<noteq> CrossAttentionManager"
  shows "\<exists>m' p'. cache_blocks env r n (m, p) = Inr (m', p') \<and> mgr_step p m other p' xs m' \<and> table m' = table m \<and> refs p' = refs p
    \<and> num_cached m' (request_id r) = max (num_cached m (request_id r)) (n div block_size m)
    \<and> (\<forall>j. num_cached m (request_id r) \<le> int j \<and> int j < n div block_size m
         \<and> table m (request_id r) ! j \<noteq> Blk 0 \<longrightarrow>
         (\<exists>h. bhl_get (group_hashes p r (block_size m)) (int j) = Inr h
              \<and> holds_hash p' h (kv_cache_group_id m) (table m (request_id r) ! j)
              \<and> (mgr_class m = MambaManager \<longrightarrow> (\<exists>k. bl_hash (heap p' (table m (request_id r) ! j)) = Some k \<and> k \<in> cached_blocks_this_step m'))))"
proof -
  obtain m1 p1 where b: "base_cache_blocks env r n (m, p) = Inr (m1, p1)" "mgr_step p m other p1 xs m1" "table m1 = table m" "refs p1 = refs p"
    and nc: "num_cached m1 (request_id r) = max (num_cached m (request_id r)) (n div block_size m)"
    and h: "\<forall>j. num_cached m (request_id r) \<le> int j \<and> int j < n div block_size m \<and> table m (request_id r) ! j \<noteq> Blk 0 \<longrightarrow>
         (\<exists>h. bhl_get (group_hashes p r (block_size m)) (int j) = Inr h
              \<and> holds_hash p1 h (kv_cache_group_id m) (table m (request_id r) ! j))"
    using base_cache_blocks_spec [OF ok c ca, of env] by blast
  show ?thesis
  proof (cases "mgr_class m = MambaManager")
    case False
    then have "cache_blocks env r n (m, p) = Inr (m1, p1)" using b(1) cls by (cases "mgr_class m") (auto simp: cache_blocks_def)
    then show ?thesis using b nc h False by blast
  next
    case True
    note nc0 = mgr_ok_table(4) [OF ok, of "request_id r"]
    let ?t = "table m (request_id r)" and ?a = "num_cached m (request_id r)" and ?b = "num_cached m1 (request_id r)"
    have inv1: "pool_inv p1 xs" using mgr_ok_pool(1) [OF mgr_step_ok [OF b(2)]] .
    show ?thesis
    proof (cases "?a < ?b")
      case False
      then have "cache_blocks env r n (m, p) = Inr (m1, p1)" using b(1) True by (simp add: cache_blocks_def mamba_cache_blocks_def Let_def)
      moreover have "\<not> (?a \<le> int j \<and> int j < n div block_size m)" for j using False nc by auto
      ultimately show ?thesis using b nc by blast
    next
      case ab: True
      let ?new = "py_slice ?t ?a ?b"
      have slice: "blk \<in> set ?new \<longleftrightarrow> (\<exists>j. ?a \<le> int j \<and> int j < ?b \<and> j < length ?t \<and> blk = ?t ! j)" for blk
      proof
        assume "blk \<in> set ?new"
        then obtain i where i: "i < nat ?b - nat ?a" "nat ?a + i < length ?t" "blk = ?t ! (nat ?a + i)"
          using nc0 ab by (auto simp: py_slice_nonneg in_set_conv_nth)
        then show "\<exists>j. ?a \<le> int j \<and> int j < ?b \<and> j < length ?t \<and> blk = ?t ! j"
          using nc0 ab by (intro exI [of _ "nat ?a + i"]) auto
      next
        assume "\<exists>j. ?a \<le> int j \<and> int j < ?b \<and> j < length ?t \<and> blk = ?t ! j"
        then obtain j where j: "?a \<le> int j" "int j < ?b" "j < length ?t" "blk = ?t ! j" by blast
        then show "blk \<in> set ?new"
          using nc0 ab by (auto simp: py_slice_nonneg in_set_conv_nth intro!: exI [of _ "j - nat ?a"])
      qed
      have held: "\<exists>hh. holds_hash p1 hh (kv_cache_group_id m) blk" if "blk \<in> set ?new" "blk \<noteq> Blk 0" for blk
        using that h nc ab unfolding slice by (auto simp: max_def split: if_splits)
      have "\<forall>blk \<in> set ?new. is_null (heap p1 blk) \<or> bl_hash (heap p1 blk) \<noteq> None"
      proof
        fix blk assume blk: "blk \<in> set ?new"
        show "is_null (heap p1 blk) \<or> bl_hash (heap p1 blk) \<noteq> None"
        proof (cases "blk = Blk 0")
          case True
          then show ?thesis using pool_coreD(6) [OF inv1] by simp
        next
          case False
          then show ?thesis using held [OF blk] by (auto simp: holds_hash_def hash_of_def)
        qed
      qed
      then obtain hs where hs: "note_cached_hashes p1 ?new (cached_blocks_this_step m1) = Inr hs"
        using note_cached_hashes_total by blast
      have run: "cache_blocks env r n (m, p) = Inr (m1\<lparr>cached_blocks_this_step := hs\<rparr>, p1)"
        using True b(1,3) hs ab by (simp add: cache_blocks_def mamba_cache_blocks_def Let_def)
      have "\<exists>h. bhl_get (group_hashes p r (block_size m)) (int j) = Inr h \<and> holds_hash p1 h (kv_cache_group_id m) (?t ! j)
          \<and> (\<exists>k. bl_hash (heap p1 (?t ! j)) = Some k \<and> k \<in> hs)"
        if j: "?a \<le> int j" "int j < n div block_size m" "?t ! j \<noteq> Blk 0" for j
      proof -
        obtain hh where hh: "bhl_get (group_hashes p r (block_size m)) (int j) = Inr hh" "holds_hash p1 hh (kv_cache_group_id m) (?t ! j)"
          using h j by blast
        have "int j < int (length ?t)" using ca j(2) by (simp add: cacheable_def)
        then have "?t ! j \<in> set ?new" using j nc unfolding slice by (intro exI [of _ j]) auto
        moreover obtain k i where k: "?t ! j = Blk i" "0 < i" "bl_hash (heap p1 (Blk i)) = Some k"
          using hh(2) j(3) by (cases "?t ! j") (auto simp: holds_hash_def hash_of_def)
        moreover have "\<not> is_null (heap p1 (Blk i))" using pool_coreD(6) [OF inv1] k(2) by simp
        ultimately show ?thesis using hh note_cached_hashes_adds [OF hs] by auto
      qed
      then show ?thesis using run b nc True mgr_step_cached [OF b(2)]
        by (intro exI [of _ "m1\<lparr>cached_blocks_this_step := hs\<rparr>"] exI [of _ p1]) simp
    qed
  qed
qed


lemma cache_blocks_plain_spec:
  assumes "mgr_ok p xs m other" "enable_caching p" "cacheable p r m n" "plain m"
  shows "\<exists>m' p'. cache_blocks env r n (m, p) = Inr (m', p') \<and> mgr_step p m other p' xs m' \<and> table m' = table m"
  using cache_blocks_spec [OF assms(1-3), of env] assms(4) by (auto simp: plain_def)

lemma cacheable_static:
  "static p' = static p \<Longrightarrow> cacheable p' r m n = cacheable p r m n"
  using staticD(3) [of p' p] by (simp add: cacheable_def hash_size_ok_def group_hashes_def)

lemma coord_cache_blocks_spec:
  assumes ok: "coord_ok c xs" and pl: "all_managers plain c" and ec: "enable_caching (coord_pool c)"
    and ca: "all_managers (\<lambda>m. cacheable (coord_pool c) r m n) c"
  shows "\<exists>c' xs'. coord_cache_blocks env r n c = Inr c' \<and> coord_step c c' xs'
    \<and> (\<forall>k < length (coord_managers c). table (coord_managers c' ! k) = table (coord_managers c ! k))"
proof -
  let ?f = "\<lambda>i mp. no_value (cache_blocks env r n mp)" and ?ms = "coord_managers c"
  define Inv where "Inv = (\<lambda>(k :: nat) p (ys :: bref list). static p = static (coord_pool c))"
  define R where "R = (\<lambda>k (v :: unit) m'. table m' = table (?ms ! k))"
  have turns: "mgr_turns ?f Inv R ?ms"
    unfolding mgr_turns_def
  proof (intro allI impI, elim conjE)
    fix k p ys other
    assume k: "k < length ?ms" and m: "mgr_ok p ys (?ms ! k) other" and i: "Inv k p ys"
    have st: "static p = static (coord_pool c)" using i by (simp add: Inv_def)
    have "enable_caching p" "cacheable p r (?ms ! k) n"
      using ec staticD(2) [OF st] cacheable_static [OF st] all_managers_nth [OF ca k] by simp_all
    from cache_blocks_plain_spec [OF m this all_managers_nth [OF pl k], of env] st
    show "\<exists>v m' p' xs'. ?f k (?ms ! k, p) = Inr (v, m', p') \<and> mgr_step p (?ms ! k) other p' xs' m'
        \<and> Inv (Suc k) p' xs' \<and> R k v m'"
      unfolding Inv_def R_def no_value_def by (force simp: mgr_step_def)
  qed
  have "Inv 0 (coord_pool c) xs" by (simp add: Inv_def)
  from on_managers_spec [where Inv = Inv, OF ok this turns] obtain vs c' xs' where
    "on_managers ?f c = Inr (vs, c')" "coord_ok c' xs'" "coord_static c' = coord_static c"
    "static (coord_pool c') = static (coord_pool c)" "length (coord_managers c') = length ?ms"
    "\<forall>k < length ?ms. mgr_static (coord_managers c' ! k) = mgr_static (?ms ! k) \<and> R k (vs ! k) (coord_managers c' ! k)"
    by blast
  then show ?thesis
    by (intro exI [of _ c'] exI [of _ xs']) (simp add: coord_cache_blocks_def coord_step_def R_def)
qed

subsection \<open>Properties\<close>

text \<open>
  C26: Allocation for a request appends exactly the missing blocks, the least recently freed ones, to its
  table, so that the table covers the tokens (for Mamba also the blocks of the speculative tokens); no other table
  changes and the accounting of references stays exact.  It raises \<open>ValueError\<close> when the free blocks do
  not suffice.  This holds for every class of managers but Mamba in the \<open>align\<close> mode, which keeps only some of
  its blocks.
\<close>

theorem allocate_new_blocks_correct:
  fixes r :: string and n_tokens :: int
  assumes ok: "mgr_ok p xs m other" and cls: "\<not> is_mamba_align m" "\<forall>ms. mgr_spec m = MambaSpec ms \<longrightarrow> 0 \<le> num_speculative_blocks ms"
  defines "k \<equiv> blocks_needed m r (slot_tokens m n_tokens)"
  shows "if k \<le> int (length xs)
    then \<exists>m' p'. allocate_new_blocks env r n_tokens n_main (m, p) = Inr (take (nat k) xs, m', p')
      \<and> mgr_ok p' (drop (nat k) xs) m' other \<and> table m' = (table m)(r := table m r @ take (nat k) xs)
      \<and> n_tokens \<le> slot_tokens m n_tokens \<and> slot_tokens m n_tokens \<le> int (length (table m' r)) * block_size m
    else allocate_new_blocks env r n_tokens n_main (m, p) = Inl ValueError"
proof -
  let ?n = "slot_tokens m n_tokens"
  have a: "allocate_new_blocks env r n_tokens n_main (m, p) = base_allocate_new_blocks env r ?n (m, p)"
    using cls by (auto simp: allocate_new_blocks_def is_mamba_align_def slot_tokens_def split: layer_spec.split)
  have le: "n_tokens \<le> ?n"
    using cls(2) mgr_ok_pool(2) [OF ok] by (auto simp: slot_tokens_def split: layer_spec.split)
  show ?thesis
  proof (cases "k \<le> int (length xs)")
    case True
    obtain m' p' where s: "base_allocate_new_blocks env r ?n (m, p) = Inr (take (nat k) xs, m', p')"
      "mgr_step p m other p' (drop (nat k) xs) m'" "table m' = (table m)(r := table m r @ take (nat k) xs)"
      using base_allocate_new_blocks_spec [OF ok True [unfolded k_def], of env] unfolding k_def by blast
    have "0 \<le> k" by (simp add: k_def blocks_needed_def)
    then have "int (length (table m' r)) = int (length (table m r)) + k" using s(3) True by simp
    then have "?n \<le> int (length (table m' r)) * block_size m"
      using blocks_needed_covers [OF mgr_ok_pool(2) [OF ok], of ?n r] by (simp add: k_def)
    with a s mgr_step_ok [OF s(2)] True le show ?thesis by auto
  next
    case False
    with a base_allocate_new_blocks_exhausted [OF ok, of r ?n env] show ?thesis by (simp add: k_def)
  qed
qed

theorem allocate_new_blocks_correct_witness:
  "\<exists>p m m' p'. init_manager example_full p True 0 1 1 = Inr (m, p)
    \<and> allocate_new_blocks example_env ''r'' 6 6 (m, p) = Inr ([Blk 1, Blk 2], m', p')
    \<and> mgr_ok p' [Blk 3] m' (\<lambda>_. 0) \<and> allocate_new_blocks example_env ''r'' 17 17 (m, p) = Inl ValueError"
proof -
  obtain p m where m: "init_manager example_full p True 0 1 1 = Inr (m, p)" "mgr_ok p [Blk 1, Blk 2, Blk 3] m (\<lambda>_. 0)"
    "table m = (\<lambda>_. [])" "block_size m = 4" "mgr_spec m = example_full" by (rule example_manager) blast+
  have c: "\<not> is_mamba_align m" "\<forall>ms. mgr_spec m = MambaSpec ms \<longrightarrow> 0 \<le> num_speculative_blocks ms"
    using m(5) by (simp_all add: is_mamba_align_def)
  have k: "slot_tokens m n = n" "blocks_needed m ''r'' 6 = 2" "blocks_needed m ''r'' 17 = 5" for n
    using m(3-5) by (simp_all add: blocks_needed_def cdiv_def slot_tokens_def)
  from allocate_new_blocks_correct [OF m(2) c, of "''r''" 6 example_env 6]
    allocate_new_blocks_correct [OF m(2) c, of "''r''" 17 example_env 17] m(1)
  show ?thesis by (auto simp: k)
qed

text \<open>
  C28: Caching: the blocks of a request that its tokens fill are entered into the prefix-cache index up
  to the given token, each under the hash of its position; tables, reference counts and the free
  list do not change, and the cached count never goes down.  A Mamba manager notes the hashes that became
  available in this step.  A cross-attention manager refuses.
\<close>

theorem cache_blocks_correct:
  assumes ok: "mgr_ok p xs m other" and c: "enable_caching p" and ca: "cacheable p r m n"
  shows "if mgr_class m = CrossAttentionManager then cache_blocks env r n (m, p) = Inl ValueError
    else \<exists>m' p'. cache_blocks env r n (m, p) = Inr (m', p') \<and> mgr_ok p' xs m' other
      \<and> table m' = table m \<and> refs p' = refs p
      \<and> num_cached m' (request_id r) = max (num_cached m (request_id r)) (n div block_size m)
      \<and> (\<forall>j. num_cached m (request_id r) \<le> int j \<and> int j < n div block_size m
           \<and> table m (request_id r) ! j \<noteq> Blk 0 \<longrightarrow>
           (\<exists>h. bhl_get (group_hashes p r (block_size m)) (int j) = Inr h
                \<and> holds_hash p' h (kv_cache_group_id m) (table m (request_id r) ! j)
                \<and> (mgr_class m = MambaManager \<longrightarrow>
                     (\<exists>k. bl_hash (heap p' (table m (request_id r) ! j)) = Some k \<and> k \<in> cached_blocks_this_step m'))))"
proof (cases "mgr_class m = CrossAttentionManager")
  case False
  from cache_blocks_spec [OF ok c ca this, of env] mgr_step_ok show ?thesis unfolding if_not_P [OF False] by blast
qed (simp add: cache_blocks_def)

theorem cache_blocks_correct_witness:
  "\<exists>p m m1 p1 m' p'. init_manager example_full p True 0 1 1 = Inr (m, p)
    \<and> allocate_new_blocks example_env ''r'' 6 6 (m, p) = Inr ([Blk 1, Blk 2], m1, p1)
    \<and> cache_blocks example_env (example_request\<lparr>block_hashes := [[1, 0]]\<rparr>) 6 (m1, p1) = Inr (m', p')
    \<and> num_cached m' ''r'' = 1 \<and> holds_hash p' [1, 0] 0 (Blk 1)"
proof -
  obtain p m m1 p1 where m: "init_manager example_full p True 0 1 1 = Inr (m, p)"
    "allocate_new_blocks example_env ''r'' 6 6 (m, p) = Inr ([Blk 1, Blk 2], m1, p1)"
    "mgr_ok p1 [Blk 3] m1 (\<lambda>_. 0)" "table m1 = (\<lambda>_. [])(''r'' := [Blk 1, Blk 2])" "num_cached m1 = (\<lambda>_. 0)"
    "mgr_static m1 = mgr_static m" "mgr_class m = FullAttentionManager" "enable_caching p1" "block_size m = 4"
    "hash_block_size p1 = 4" "kv_cache_group_id m = 0"
    by (rule example_table [of example_full]) simp_all
  let ?r = "example_request\<lparr>block_hashes := [[1, 0]]\<rparr>"
  have f: "mgr_class m1 = FullAttentionManager" "block_size m1 = 4" "kv_cache_group_id m1 = 0" "request_id ?r = ''r''"
    using m(7,9,11) mgr_staticD(1,3,5) [OF m(6)] by (simp_all add: example_request_eq)
  have gh: "group_hashes p1 ?r 4 = PlainHashes [[1, 0]]" using m(10) by (simp add: group_hashes_def)
  have ca: "cacheable p1 ?r m1 6" using f m(4,10) gh by (simp add: cacheable_def hash_size_ok_def)
  from cache_blocks_correct [OF m(3,8) ca, of example_env, unfolded f gh] m(4,5)
  obtain m' p' where "cache_blocks example_env ?r 6 (m1, p1) = Inr (m', p')" "num_cached m' ''r'' = 1"
    "holds_hash p' [1, 0] 0 (Blk 1)" by (auto simp: py_index_def)
  with m(1,2) show ?thesis by blast
qed

end
