(* ===== verification/Cache_Metrics.thy ===== *)
theory Cache_Metrics
  imports Complex_Main Prelude
begin

text \<open>
  The cache statistics of \<open>vllm/v1/metrics/stats.py\<close>: \<open>PrefixCacheStats\<close>, which the KV cache
  manager fills, and \<open>CachingMetrics\<close>, the hit rate over the most recent requests.  The rate is an
  exact fraction here, a float in the code.
\<close>

record cache_stats =
  st_reset :: bool
  st_requests :: int
  st_queries :: int
  st_hits :: int
  preempted_requests :: int
  preempted_queries :: int
  preempted_hits :: int

definition new_stats :: cache_stats where
  "new_stats = \<lparr>st_reset = False, st_requests = 0, st_queries = 0, st_hits = 0,
     preempted_requests = 0, preempted_queries = 0, preempted_hits = 0\<rparr>"

definition record_stats :: "int \<Rightarrow> int \<Rightarrow> bool \<Rightarrow> cache_stats \<Rightarrow> cache_stats" where
  "record_stats n_tokens num_hits preempted s =
     (if preempted
      then s\<lparr>preempted_requests := preempted_requests s + 1,
             preempted_queries := preempted_queries s + n_tokens,
             preempted_hits := preempted_hits s + num_hits\<rparr>
      else s\<lparr>st_requests := st_requests s + 1, st_queries := st_queries s + n_tokens,
             st_hits := st_hits s + num_hits\<rparr>)"

record caching_metrics =
  max_recent_requests :: int
  aggregated_requests :: int
  aggregated_query_total :: int
  aggregated_query_hit :: int
  query_queue :: "(int \<times> int \<times> int) list"

definition new_metrics :: "int \<Rightarrow> caching_metrics" where
  "new_metrics n = \<lparr>max_recent_requests = n, aggregated_requests = 0, aggregated_query_total = 0,
     aggregated_query_hit = 0, query_queue = []\<rparr>"

definition reset_metrics :: "caching_metrics \<Rightarrow> caching_metrics" where
  "reset_metrics c = c\<lparr>aggregated_requests := 0, aggregated_query_total := 0,
     aggregated_query_hit := 0, query_queue := []\<rparr>"

text \<open>Dropping the oldest entries, but never the latest.\<close>

function trim_queue :: "caching_metrics \<Rightarrow> caching_metrics" where
  "trim_queue c =
     (if length (query_queue c) > 1 \<and> aggregated_requests c > max_recent_requests c
      then (case query_queue c of
              [] \<Rightarrow> c
            | (old_requests, old_queries, old_hits) # q \<Rightarrow>
                trim_queue (c\<lparr>query_queue := q,
                  aggregated_requests := aggregated_requests c - old_requests,
                  aggregated_query_total := aggregated_query_total c - old_queries,
                  aggregated_query_hit := aggregated_query_hit c - old_hits\<rparr>))
      else c)"
  by pat_completeness auto
termination by (relation "measure (\<lambda>c. length (query_queue c))") auto

declare trim_queue.simps [simp del]

definition observe :: "cache_stats \<Rightarrow> caching_metrics \<Rightarrow> caching_metrics" where
  "observe s c =
     (let c = (if st_reset s then reset_metrics c else c) in
      if st_requests s = 0 then c
      else trim_queue (c\<lparr>query_queue := query_queue c @ [(st_requests s, st_queries s, st_hits s)],
             aggregated_requests := aggregated_requests c + st_requests s,
             aggregated_query_total := aggregated_query_total c + st_queries s,
             aggregated_query_hit := aggregated_query_hit c + st_hits s\<rparr>))"

definition metrics_empty :: "caching_metrics \<Rightarrow> bool" where
  "metrics_empty c \<longleftrightarrow> aggregated_requests c = 0"

definition hit_rate :: "caching_metrics \<Rightarrow> rat" where
  "hit_rate c = (if aggregated_query_total c = 0 then 0
     else of_int (aggregated_query_hit c) / of_int (aggregated_query_total c))"

subsection \<open>The aggregates are the sums over the queue\<close>

definition metrics_inv :: "caching_metrics \<Rightarrow> bool" where
  "metrics_inv c \<longleftrightarrow>
     aggregated_requests c = sum_list (map fst (query_queue c))
     \<and> aggregated_query_total c = sum_list (map (fst \<circ> snd) (query_queue c))
     \<and> aggregated_query_hit c = sum_list (map (snd \<circ> snd) (query_queue c))"

lemma trim_queue_spec:
  assumes "metrics_inv c"
  shows "metrics_inv (trim_queue c) \<and> max_recent_requests (trim_queue c) = max_recent_requests c
    \<and> (\<exists>old. query_queue c = old @ query_queue (trim_queue c))
    \<and> (query_queue c \<noteq> [] \<longrightarrow> query_queue (trim_queue c) \<noteq> [])
    \<and> (length (query_queue (trim_queue c)) \<le> 1 \<or> aggregated_requests (trim_queue c) \<le> max_recent_requests c)"
  using assms
proof (induction c rule: trim_queue.induct)
  case (1 c)
  show ?case
  proof (cases "length (query_queue c) > 1 \<and> aggregated_requests c > max_recent_requests c")
    case False
    then have "trim_queue c = c" by (subst trim_queue.simps) (rule if_not_P)
    then show ?thesis using 1(2) False by auto
  next
    case True
    then obtain a b h q where q: "query_queue c = (a, b, h) # q" "q \<noteq> []"
      by (cases "query_queue c") auto
    define c' where "c' = c\<lparr>query_queue := q, aggregated_requests := aggregated_requests c - a,
      aggregated_query_total := aggregated_query_total c - b, aggregated_query_hit := aggregated_query_hit c - h\<rparr>"
    have eq: "trim_queue c = trim_queue c'" using True q by (subst trim_queue.simps) (simp add: c'_def)
    have inv: "metrics_inv c'" using 1(2) q by (simp add: metrics_inv_def c'_def)
    have IH: "metrics_inv (trim_queue c') \<and> max_recent_requests (trim_queue c') = max_recent_requests c'
      \<and> (\<exists>old. query_queue c' = old @ query_queue (trim_queue c'))
      \<and> (query_queue c' \<noteq> [] \<longrightarrow> query_queue (trim_queue c') \<noteq> [])
      \<and> (length (query_queue (trim_queue c')) \<le> 1 \<or> aggregated_requests (trim_queue c') \<le> max_recent_requests c')"
      unfolding c'_def by (rule 1(1) [OF True q(1) refl refl]) (use inv in \<open>simp add: c'_def\<close>)
    have f: "query_queue c' = q" "max_recent_requests c' = max_recent_requests c" by (simp_all add: c'_def)
    obtain old where old: "q = old @ query_queue (trim_queue c')" using IH f by auto
    then have "query_queue c = ((a, b, h) # old) @ query_queue (trim_queue c')" using q(1) by simp
    then show ?thesis using IH q(2) unfolding eq f by blast
  qed
qed

lemma observe_spec:
  fixes s :: cache_stats
  assumes inv: "metrics_inv c"
  defines "c0 \<equiv> (if st_reset s then reset_metrics c else c)"
  shows "metrics_inv (observe s c)"
    and "st_requests s = 0 \<Longrightarrow> query_queue (observe s c) = query_queue c0"
    and "st_requests s \<noteq> 0 \<Longrightarrow>
      \<exists>old q. query_queue c0 = old @ q
        \<and> query_queue (observe s c) = q @ [(st_requests s, st_queries s, st_hits s)]
        \<and> (q = [] \<or> aggregated_requests (observe s c) \<le> max_recent_requests c)"
proof -
  have inv0: "metrics_inv c0" and mx: "max_recent_requests c0 = max_recent_requests c"
    using inv by (simp_all add: c0_def metrics_inv_def reset_metrics_def)
  define e where "e = (st_requests s, st_queries s, st_hits s)"
  define c1 where "c1 = c0\<lparr>query_queue := query_queue c0 @ [e],
    aggregated_requests := aggregated_requests c0 + st_requests s,
    aggregated_query_total := aggregated_query_total c0 + st_queries s,
    aggregated_query_hit := aggregated_query_hit c0 + st_hits s\<rparr>"
  have ob: "observe s c = (if st_requests s = 0 then c0 else trim_queue c1)"
    by (simp add: observe_def c0_def c1_def e_def Let_def)
  have inv1: "metrics_inv c1" using inv0 by (simp add: metrics_inv_def c1_def e_def)
  have f: "query_queue c1 = query_queue c0 @ [e]" "max_recent_requests c1 = max_recent_requests c"
    by (simp_all add: c1_def mx)
  note t = trim_queue_spec [OF inv1, unfolded f]
  show "metrics_inv (observe s c)" using t inv0 by (simp add: ob)
  show "query_queue (observe s c) = query_queue c0" if "st_requests s = 0" using that by (simp add: ob)
  show "\<exists>old q. query_queue c0 = old @ q
        \<and> query_queue (observe s c) = q @ [(st_requests s, st_queries s, st_hits s)]
        \<and> (q = [] \<or> aggregated_requests (observe s c) \<le> max_recent_requests c)" if n: "st_requests s \<noteq> 0"
  proof -
    obtain old where old: "query_queue c0 @ [e] = old @ query_queue (trim_queue c1)" using t by blast
    have ne: "query_queue (trim_queue c1) \<noteq> []" using t by simp
    define q where "q = butlast (query_queue (trim_queue c1))"
    have "last (query_queue (trim_queue c1)) = e" using old ne by (metis last_appendR last_snoc)
    then have tq: "query_queue (trim_queue c1) = q @ [e]" using ne by (metis append_butlast_last_id q_def)
    then have "query_queue c0 = old @ q" using old by simp
    moreover have "q = [] \<or> aggregated_requests (trim_queue c1) \<le> max_recent_requests c"
      using t tq by (cases q) auto
    ultimately show ?thesis using n tq by (auto simp: ob e_def)
  qed
qed

subsection \<open>Properties\<close>

text \<open>
  The statistics of the most recent requests stay consistent: after an observation the aggregates
  are the sums over the queue, the latest observation is its last entry, the other entries are the
  most recent ones from before, and there are only as many as the bound on requests allows.
\<close>

theorem observe_correct:
  fixes s :: cache_stats
  assumes inv: "metrics_inv c" and n: "st_requests s \<noteq> 0"
  shows "metrics_inv (observe s c)
    \<and> (\<exists>old q. query_queue (if st_reset s then reset_metrics c else c) = old @ q
        \<and> query_queue (observe s c) = q @ [(st_requests s, st_queries s, st_hits s)]
        \<and> (q = [] \<or> aggregated_requests (observe s c) \<le> max_recent_requests c))"
  using observe_spec(1) [OF inv, of s] observe_spec(3) [OF inv n] by blast

theorem observe_correct_witness:
  "query_queue (observe (new_stats\<lparr>st_requests := 2, st_queries := 5\<rparr>)
     (\<lparr>max_recent_requests = 2, aggregated_requests = 1, aggregated_query_total = 4, aggregated_query_hit = 3,
       query_queue = [(1, 4, 3)]\<rparr>)) = [(2, 5, 0)]"
proof -
  define c where "c = \<lparr>max_recent_requests = 2, aggregated_requests = 1, aggregated_query_total = 4,
    aggregated_query_hit = 3, query_queue = [(1, 4, 3 :: int)]\<rparr>"
  define s where "s = new_stats\<lparr>st_requests := 2, st_queries := 5\<rparr>"
  have c: "metrics_inv c" "query_queue c = [(1, 4, 3)]" "max_recent_requests c = 2"
    by (simp_all add: metrics_inv_def c_def)
  have s: "st_requests s = 2" "st_queries s = 5" "st_hits s = 0" "\<not> st_reset s"
    by (simp_all add: s_def new_stats_def)
  from observe_correct [OF c(1), of s] s c obtain old q where o: "[(1, 4, 3)] = old @ q"
    and q: "query_queue (observe s c) = q @ [(2, 5, 0)]" "q = [] \<or> aggregated_requests (observe s c) \<le> 2"
    and i: "metrics_inv (observe s c)" by auto
  have "q = []" using o q i by (cases old) (auto simp: metrics_inv_def)
  then show ?thesis using q(1) by (simp add: s_def c_def)
qed

end
