(* ===== verification/KV_Cache_Manager.thy ===== *)
theory KV_Cache_Manager
  imports Coordinator Cache_Metrics
begin

text \<open>
  \<open>KVCacheManager\<close> of \<open>vllm/v1/core/kv_cache_manager.py\<close>: what the scheduler calls to look up,
  allocate, cache and free the KV-cache blocks of a request.

  The manager keeps one pre-built result without blocks and compares with it by identity, so the
  result type \<open>KVCacheBlocks\<close> has a constructor for it.
\<close>

datatype kv_cache_blocks = EmptyBlocks | KVBlocks "bref list list"

fun blocks_of :: "nat \<Rightarrow> kv_cache_blocks \<Rightarrow> bref list list" where
  "blocks_of n EmptyBlocks = replicate n []"
| "blocks_of n (KVBlocks bs) = bs"

record kv_manager =
  kvm_max_model_len :: int
  kvm_enable_caching :: bool
  log_stats :: bool
  prefix_cache_stats :: "cache_stats option"
  num_kv_cache_groups :: nat
  coord :: coordinator

definition init_kv_manager ::
  "kv_cache_config \<Rightarrow> int \<Rightarrow> int \<Rightarrow> bool \<Rightarrow> bool \<Rightarrow> bool \<Rightarrow> bool \<Rightarrow> int \<Rightarrow> int \<Rightarrow> kv_manager result" where
  "init_kv_manager config max_len hash_bs caching use_eagle stats events dcp pcp =
     ebind (get_kv_cache_coordinator config use_eagle caching events dcp pcp hash_bs) (\<lambda>c.
       Inr \<lparr>kvm_max_model_len = max_len, kvm_enable_caching = caching, log_stats = stats,
            prefix_cache_stats = (if stats then Some new_stats else None),
            num_kv_cache_groups = length (kv_cache_groups config), coord = c\<rparr>)"

subsection \<open>The result type\<close>

text \<open>\<open>KVCacheBlocks.__add__\<close>\<close>

definition add_blocks :: "nat \<Rightarrow> kv_cache_blocks \<Rightarrow> kv_cache_blocks \<Rightarrow> kv_cache_blocks" where
  "add_blocks n a b = KVBlocks (map2 (@) (blocks_of n a) (blocks_of n b))"

definition get_block_ids :: "block_pool \<Rightarrow> nat \<Rightarrow> bool \<Rightarrow> kv_cache_blocks \<Rightarrow> int list list option" where
  "get_block_ids p n allow_none bs =
     (if allow_none \<and> (\<forall>g \<in> set (blocks_of n bs). g = []) then None
      else Some (map (map (\<lambda>b. block_id (heap p b))) (blocks_of n bs)))"

definition get_unhashed_block_ids :: "block_pool \<Rightarrow> nat \<Rightarrow> kv_cache_blocks \<Rightarrow> int list result" where
  "get_unhashed_block_ids p n bs =
     (case blocks_of n bs of
        [g] \<Rightarrow> Inr (map (\<lambda>b. block_id (heap p b)) (filter (\<lambda>b. bl_hash (heap p b) = None) g))
      | _ \<Rightarrow> Inl AssertionError)"

definition get_unhashed_block_ids_all_groups :: "block_pool \<Rightarrow> nat \<Rightarrow> kv_cache_blocks \<Rightarrow> int list list" where
  "get_unhashed_block_ids_all_groups p n bs =
     map (\<lambda>g. map (\<lambda>b. block_id (heap p b))
            (filter (\<lambda>b. bl_hash (heap p b) = None \<and> \<not> is_null (heap p b)) g)) (blocks_of n bs)"

definition new_empty :: "nat \<Rightarrow> kv_cache_blocks \<Rightarrow> kv_cache_blocks" where
  "new_empty n bs = KVBlocks (map (\<lambda>_. []) (blocks_of n bs))"

definition create_kv_cache_blocks :: "bref list list \<Rightarrow> kv_cache_blocks" where
  "create_kv_cache_blocks bs = (if \<exists>g \<in> set bs. g \<noteq> [] then KVBlocks bs else EmptyBlocks)"

subsection \<open>Looking up\<close>

definition make_prefix_cache_stats :: "kv_manager \<Rightarrow> cache_stats option \<times> kv_manager" where
  "make_prefix_cache_stats k =
     (if \<not> log_stats k then (None, k)
      else (prefix_cache_stats k, k\<lparr>prefix_cache_stats := Some new_stats\<rparr>))"

definition get_computed_blocks :: "request \<Rightarrow> kv_manager \<Rightarrow> (kv_cache_blocks \<times> int \<times> kv_manager) result" where
  "get_computed_blocks r k =
     (if \<not> kvm_enable_caching k \<or> skip_reading_prefix_cache r then Inr (EmptyBlocks, 0, k)
      else
        let max_cache_hit_length = num_tokens r - 1 in
        ebind (find_longest_cache_hit (coord k) (block_hashes r) max_cache_hit_length)
          (\<lambda>(computed_blocks, num_new_computed_tokens).
        ebind (if log_stats k
               then (case prefix_cache_stats k of
                       None \<Rightarrow> Inl AssertionError
                     | Some s \<Rightarrow> Inr (k\<lparr>prefix_cache_stats :=
                         Some (record_stats (num_tokens r) num_new_computed_tokens (num_preemptions r > 0) s)\<rparr>))
               else Inr k) (\<lambda>k.
          Inr (create_kv_cache_blocks computed_blocks, num_new_computed_tokens, k))))"

definition can_fit_full_sequence ::
  "request \<Rightarrow> int \<Rightarrow> kv_cache_blocks option \<Rightarrow> int \<Rightarrow> int \<Rightarrow> kv_manager \<Rightarrow> (bool \<times> kv_manager) result" where
  "can_fit_full_sequence r num_new_computed new_computed_blocks num_external num_encoder_tokens k =
     (let block_list = (case new_computed_blocks of
            Some bs \<Rightarrow> blocks_of (num_kv_cache_groups k) bs | None \<Rightarrow> replicate (num_kv_cache_groups k) []);
          num_local = num_computed_tokens r + num_new_computed;
          total_computed_tokens = min (num_local + num_external) (kvm_max_model_len k);
          full_num_tokens = min (num_tokens r) (kvm_max_model_len k)
      in
      ebind (coord_get_num_blocks_to_allocate (request_id r) full_num_tokens block_list num_encoder_tokens
               total_computed_tokens full_num_tokens (coord k)) (\<lambda>(n, c).
        Inr (n \<le> get_num_free_blocks (coord_pool c), k\<lparr>coord := c\<rparr>)))"

subsection \<open>Allocating\<close>

definition allocate_slots ::
  "pool_env \<Rightarrow> request \<Rightarrow> int \<Rightarrow> int \<Rightarrow> kv_cache_blocks option \<Rightarrow> int \<Rightarrow> int \<Rightarrow> bool \<Rightarrow> int \<Rightarrow> kv_manager
    \<Rightarrow> (kv_cache_blocks option \<times> kv_manager) result" where
  "allocate_slots env r num_new_tokens num_new_computed new_computed_blocks num_lookahead_tokens
      num_external delay_cache_blocks num_encoder_tokens k =
     (if num_new_tokens = 0 \<and> num_external = 0 then Inl ValueError
      else
        let is_empty = (new_computed_blocks = None \<or> new_computed_blocks = Some EmptyBlocks);
            block_list = (case new_computed_blocks of
              Some bs \<Rightarrow> blocks_of (num_kv_cache_groups k) bs | None \<Rightarrow> replicate (num_kv_cache_groups k) []);
            num_local = num_computed_tokens r + num_new_computed;
            total_computed_tokens = min (num_local + num_external) (kvm_max_model_len k);
            num_tokens_main_model = total_computed_tokens + num_new_tokens;
            num_tokens_need_slot = min (num_tokens_main_model + num_lookahead_tokens) (kvm_max_model_len k)
        in
        ebind (coord_remove_skipped_blocks (request_id r) total_computed_tokens (coord k)) (\<lambda>c.
        ebind (coord_get_num_blocks_to_allocate (request_id r) num_tokens_need_slot block_list
                 num_encoder_tokens (num_local + num_external) num_tokens_main_model c)
          (\<lambda>(num_blocks_to_allocate, c).
        if num_blocks_to_allocate > get_num_free_blocks (coord_pool c)
        then Inr (None, k\<lparr>coord := c\<rparr>)
        else
          ebind (if \<not> is_empty \<or> num_external > 0
                 then coord_allocate_new_computed_blocks env (request_id r) block_list num_local num_external c
                 else Inr c) (\<lambda>c.
          ebind (coord_allocate_new_blocks env (request_id r) num_tokens_need_slot num_tokens_main_model
                   num_encoder_tokens c) (\<lambda>(new_blocks, c).
          if \<not> kvm_enable_caching k \<or> delay_cache_blocks
          then Inr (Some (create_kv_cache_blocks new_blocks), k\<lparr>coord := c\<rparr>)
          else
            let num_tokens_to_cache = min (total_computed_tokens + num_new_tokens) (num_tokens r) in
            ebind (coord_cache_blocks env r num_tokens_to_cache c) (\<lambda>c.
              Inr (Some (create_kv_cache_blocks new_blocks), k\<lparr>coord := c\<rparr>)))))))"

subsection \<open>Everything else\<close>

definition kvm_free :: "request \<Rightarrow> kv_manager \<Rightarrow> kv_manager result" where
  "kvm_free r k = ebind (coord_free (request_id r) (coord k)) (\<lambda>c. Inr (k\<lparr>coord := c\<rparr>))"

definition kvm_remove_skipped_blocks :: "string \<Rightarrow> int \<Rightarrow> kv_manager \<Rightarrow> kv_manager result" where
  "kvm_remove_skipped_blocks req_id total_computed_tokens k =
     ebind (coord_remove_skipped_blocks req_id total_computed_tokens (coord k)) (\<lambda>c. Inr (k\<lparr>coord := c\<rparr>))"

definition kvm_evict_blocks :: "pool_env \<Rightarrow> int list \<Rightarrow> kv_manager \<Rightarrow> kv_manager result" where
  "kvm_evict_blocks env ids k =
     ebind (evict_blocks env ids (coord_pool (coord k))) (\<lambda>p. Inr (k\<lparr>coord := (coord k)\<lparr>coord_pool := p\<rparr>\<rparr>))"

definition kvm_reset_prefix_cache :: "kv_manager \<Rightarrow> (bool \<times> kv_manager) result" where
  "kvm_reset_prefix_cache k =
     (let (ok, p) = reset_prefix_cache (coord_pool (coord k)); k = k\<lparr>coord := (coord k)\<lparr>coord_pool := p\<rparr>\<rparr> in
      if \<not> ok then Inr (False, k)
      else if log_stats k
      then (case prefix_cache_stats k of
              None \<Rightarrow> Inl AssertionError
            | Some s \<Rightarrow> Inr (True, k\<lparr>prefix_cache_stats := Some (s\<lparr>st_reset := True\<rparr>)\<rparr>))
      else Inr (True, k))"

definition kvm_get_num_common_prefix_blocks :: "string \<Rightarrow> kv_manager \<Rightarrow> (int list \<times> kv_manager) result" where
  "kvm_get_num_common_prefix_blocks req_id k =
     ebind (coord_get_num_common_prefix_blocks req_id (coord k)) (\<lambda>(ns, c). Inr (ns, k\<lparr>coord := c\<rparr>))"

definition kvm_take_events :: "kv_manager \<Rightarrow> kv_event list \<times> kv_manager" where
  "kvm_take_events k =
     (let (evs, p) = take_events (coord_pool (coord k)) in (evs, k\<lparr>coord := (coord k)\<lparr>coord_pool := p\<rparr>\<rparr>))"

definition kvm_get_blocks :: "string \<Rightarrow> kv_manager \<Rightarrow> kv_cache_blocks" where
  "kvm_get_blocks req_id k = create_kv_cache_blocks (coord_get_blocks req_id (coord k))"

definition kvm_get_block_ids :: "string \<Rightarrow> kv_manager \<Rightarrow> int list list option" where
  "kvm_get_block_ids req_id k =
     get_block_ids (coord_pool (coord k)) (num_kv_cache_groups k) False (kvm_get_blocks req_id k)"

definition kvm_cache_blocks :: "pool_env \<Rightarrow> request \<Rightarrow> int \<Rightarrow> kv_manager \<Rightarrow> kv_manager result" where
  "kvm_cache_blocks env r n_computed k =
     (if kvm_enable_caching k
      then ebind (coord_cache_blocks env r n_computed (coord k)) (\<lambda>c. Inr (k\<lparr>coord := c\<rparr>))
      else Inr k)"

fun drain_new_block_ids :: "manager list \<Rightarrow> int list \<times> manager list" where
  "drain_new_block_ids [] = ([], [])"
| "drain_new_block_ids (m # ms) =
     (let (ids, m) = mgr_take_new_block_ids m; (rest_ids, ms) = drain_new_block_ids ms
      in (ids @ rest_ids, m # ms))"

definition kvm_take_new_block_ids :: "kv_manager \<Rightarrow> int list \<times> kv_manager" where
  "kvm_take_new_block_ids k =
     (let (ids, ms) = drain_new_block_ids (coord_managers (coord k))
      in (ids, k\<lparr>coord := (coord k)\<lparr>coord_managers := ms\<rparr>\<rparr>))"

definition kvm_new_step_starts :: "kv_manager \<Rightarrow> kv_manager" where
  "kvm_new_step_starts k = k\<lparr>coord := coord_new_step_starts (coord k)\<rparr>"

definition kvm_usage :: "kv_manager \<Rightarrow> rat" where
  "kvm_usage k = get_usage (coord_pool (coord k))"

end
