(* ===== verification/Slot_Allocation.thy ===== *)
theory Slot_Allocation
  imports Admission KV_Cache_Manager
begin

text \<open>
  The whole KV-cache manager as one system. \<open>slots_ok\<close> says what the scheduler promises when it asks
  for slots; under it \<open>allocate_slots\<close> never raises, and either refuses and leaves every table in
  place, or makes every table of the request cover the tokens asked for. The relation \<open>kv_step\<close> is one
  call of any operation of \<open>KVCacheManager\<close>; every such call that returns keeps the well-formedness
  \<open>kvm_ok\<close> of the pool and the tables of all managers, and construction establishes it.
\<close>

subsection \<open>What a caller asks for\<close>

text \<open>A new request with the hits of the prefix-cache search, one list per manager.\<close>

definition fresh_ask :: "coordinator \<Rightarrow> string \<Rightarrow> bref list list \<Rightarrow> int \<Rightarrow> bool" where
  "fresh_ask c r hits tot \<longleftrightarrow> (\<forall>k < length (coord_managers c). table (coord_managers c ! k) r = []
     \<and> \<not> is_running (coord_managers c ! k) r \<and> hits_ok (coord_pool c) (coord_managers c ! k) (hits ! k) tot)"

text \<open>More room for a request whose computed tokens all its tables cover.\<close>

definition more_ask :: "coordinator \<Rightarrow> string \<Rightarrow> int \<Rightarrow> bool" where
  "more_ask c r tot \<longleftrightarrow> 0 \<le> tot
     \<and> all_managers (\<lambda>m. tot \<le> int (length (table m r)) * block_size m) c"

lemma fresh_need_more:
  assumes "skip_ok m" "0 < block_size m" "0 \<le> tot" "tot \<le> int (length (table m r)) * block_size m"
  shows "fresh_need m r [] tot n = blocks_needed m r n"
  using skipped_blocks_div_le [OF assms] by (simp add: fresh_need_def blocks_needed_def max_absorb2)

lemma ask_ok_fresh:
  "fresh_ask c r hits tot \<Longrightarrow> k < length (coord_managers c) \<Longrightarrow> ask_ok (coord_pool c) (coord_managers c ! k) r (hits ! k) tot"
  by (simp add: fresh_ask_def ask_ok_def)

lemma ask_ok_more:
  assumes "more_ask c r tot" "k < length (coord_managers c)" "hits ! k = []"
  shows "ask_ok (coord_pool c) (coord_managers c ! k) r (hits ! k) tot"
  using assms all_managers_nth [of _ c k] by (auto simp: more_ask_def ask_ok_def)

text \<open>Removing skipped blocks keeps what the caller promised.\<close>

lemma ask_kept:
  assumes st: "coord_step c c1 xs1" and h: "hash_of (coord_pool c1) = hash_of (coord_pool c)"
    and t: "\<forall>k < length (coord_managers c). let m = coord_managers c ! k; m' = coord_managers c1 ! k in
         num_cached_block m' = num_cached_block m \<and> length (table m' r) = length (table m r)
         \<and> (\<forall>s. s \<noteq> r \<longrightarrow> table m' s = table m s)"
  shows "fresh_ask c r hits tot \<Longrightarrow> fresh_ask c1 r hits tot" "more_ask c r tot \<Longrightarrow> more_ask c1 r tot"
proof -
  note s = staticD(2,9) [of "coord_pool c1" "coord_pool c"]
  have st': "static (coord_pool c1) = static (coord_pool c)" "length (coord_managers c1) = length (coord_managers c)"
    "\<forall>k < length (coord_managers c). mgr_static (coord_managers c1 ! k) = mgr_static (coord_managers c ! k)"
    using st by (simp_all add: coord_step_def)
  have b: "block_size (coord_managers c1 ! k) = block_size (coord_managers c ! k)" if "k < length (coord_managers c)" for k
    using st'(3) that mgr_staticD(3) by blast
  show "fresh_ask c1 r hits tot" if f: "fresh_ask c r hits tot"
    unfolding fresh_ask_def
  proof (intro allI impI)
    fix k assume "k < length (coord_managers c1)"
    then have k: "k < length (coord_managers c)" using st'(2) by simp
    have "table (coord_managers c1 ! k) r = []" using t k f by (auto simp: fresh_ask_def Let_def)
    moreover have "is_running (coord_managers c1 ! k) r = is_running (coord_managers c ! k) r"
      using t k by (auto simp: is_running_def Let_def)
    moreover have "hits_ok (coord_pool c1) (coord_managers c1 ! k) (hits ! k) tot"
      using f k h b [OF k] s [OF st'(1)] by (simp add: fresh_ask_def hits_ok_def)
    ultimately show "table (coord_managers c1 ! k) r = [] \<and> \<not> is_running (coord_managers c1 ! k) r
        \<and> hits_ok (coord_pool c1) (coord_managers c1 ! k) (hits ! k) tot" using f k by (simp add: fresh_ask_def)
  qed
  show "more_ask c1 r tot" if f: "more_ask c r tot"
    unfolding more_ask_def all_managers_def
  proof (intro conjI ballI)
    fix m assume "m \<in> set (coord_managers c1)"
    then obtain k where k: "k < length (coord_managers c)" "m = coord_managers c1 ! k"
      using st'(2) by (auto simp: in_set_conv_nth)
    have "tot \<le> int (length (table (coord_managers c ! k) r)) * block_size (coord_managers c ! k)"
      using f all_managers_nth [OF _ k(1)] by (auto simp: more_ask_def)
    then show "tot \<le> int (length (table m r)) * block_size m" using t k b [OF k(1)] by (simp add: Let_def)
  qed (use f in \<open>simp add: more_ask_def\<close>)
qed

text \<open>
  The first half of an allocation: after a positive answer the hits are adopted and what is left on
  the free list is enough for the rest.
\<close>

lemma reserve_slots:
  fixes tot n :: int
  assumes ok: "coord_ok c xs" and pl: "all_managers plain c" and len: "length hits = length (coord_managers c)"
    and tot: "tot = nl + ne" and n: "0 < ne \<longrightarrow> nl + ne \<le> n" and one: "ne \<le> 0 \<or> (\<forall>hs \<in> set (tl hits). hs = [])"
    and ask: "if adopt then fresh_ask c r hits tot else more_ask c r tot \<and> (\<forall>k < length hits. hits ! k = [])"
  shows "\<exists>c1 xs1 N. coord_remove_skipped_blocks r past c = Inr c1 \<and> coord_step c c1 xs1
    \<and> (\<forall>k < length (coord_managers c). length (table (coord_managers c1 ! k) r) = length (table (coord_managers c ! k) r)
         \<and> (\<forall>s. s \<noteq> r \<longrightarrow> table (coord_managers c1 ! k) s = table (coord_managers c ! k) s))
    \<and> coord_get_num_blocks_to_allocate r n hits enc tot main c1 = Inr (N, c1)
    \<and> (N \<le> int (length xs1) \<longrightarrow> (\<exists>c2 xs2.
        (if adopt then coord_allocate_new_computed_blocks env r hits nl ne c1 else Inr c1) = Inr c2
        \<and> coord_step c1 c2 xs2
        \<and> (\<Sum>k < length (coord_managers c2). blocks_needed (coord_managers c2 ! k) r (slot_tokens (coord_managers c2 ! k) n))
            \<le> int (length xs2)
        \<and> (\<forall>k < length (coord_managers c). \<forall>s. s \<noteq> r \<longrightarrow> table (coord_managers c2 ! k) s = table (coord_managers c ! k) s)))"
proof -
  obtain c1 zs where c1: "coord_remove_skipped_blocks r past c = Inr c1" "coord_step c c1 (xs @ zs)"
    "hash_of (coord_pool c1) = hash_of (coord_pool c)"
    and t: "\<forall>k < length (coord_managers c). let m = coord_managers c ! k; m' = coord_managers c1 ! k in
         num_cached_block m' = num_cached_block m \<and> length (table m' r) = length (table m r)
         \<and> (\<forall>s. s \<noteq> r \<longrightarrow> table m' s = table m s)"
    using coord_remove_skipped_spec [OF ok pl, of r past] by blast
  note kept = ask_kept [OF c1(2,3) t]
  have ok1: "coord_ok c1 (xs @ zs)" and l1: "length (coord_managers c1) = length (coord_managers c)"
    using c1(2) by (simp_all add: coord_step_def)
  note pl1 = coord_step_plain [OF c1(2) pl]
  have ask1: "if adopt then fresh_ask c1 r hits tot else more_ask c1 r tot \<and> (\<forall>k < length hits. hits ! k = [])"
    using ask kept by (auto split: if_splits)
  have a: "\<forall>k < length hits. ask_ok (coord_pool c1) (coord_managers c1 ! k) r (hits ! k) tot"
    using ask1 ask_ok_fresh ask_ok_more l1 len by (auto split: if_splits)
  obtain N where N: "coord_get_num_blocks_to_allocate r n hits enc tot main c1 = Inr (N, c1)"
    and enough: "N \<le> int (length (xs @ zs)) \<longrightarrow>
        (\<Sum>k < length hits. let m = coord_managers c1 ! k in fresh_need m r (hits ! k) tot (slot_tokens m n)
           + get_num_evictable_blocks (coord_pool c1) (drop (skipped_blocks m tot) (hits ! k))) \<le> int (length (xs @ zs))"
    using coord_count_spec [OF ok1 pl1 _ a, of n enc main] len l1 by auto
  have "\<exists>c2 xs2. (if adopt then coord_allocate_new_computed_blocks env r hits nl ne c1 else Inr c1) = Inr c2
        \<and> coord_step c1 c2 xs2
        \<and> (\<Sum>k < length (coord_managers c2). blocks_needed (coord_managers c2 ! k) r (slot_tokens (coord_managers c2 ! k) n))
            \<le> int (length xs2)
        \<and> (\<forall>k < length (coord_managers c). \<forall>s. s \<noteq> r \<longrightarrow> table (coord_managers c2 ! k) s = table (coord_managers c1 ! k) s)"
    if le: "N \<le> int (length (xs @ zs))"
  proof (cases adopt)
    case True
    have fr: "\<forall>k < length hits. table (coord_managers c1 ! k) r = [] \<and> \<not> is_running (coord_managers c1 ! k) r
      \<and> hits_ok (coord_pool c1) (coord_managers c1 ! k) (hits ! k) (nl + ne)"
      using ask1 True l1 len tot by (simp add: fresh_ask_def)
    obtain c2 xs2 where c2: "coord_allocate_new_computed_blocks env r hits nl ne c1 = Inr c2" "coord_step c1 c2 xs2"
      "(\<Sum>k < length hits. blocks_needed (coord_managers c2 ! k) r (slot_tokens (coord_managers c2 ! k) n)) \<le> int (length xs2)"
      and tb: "\<forall>k < length hits. let m = coord_managers c1 ! k; m' = coord_managers c2 ! k in
         (\<exists>ys. table m' = (table m)(r := hit_table m (hits ! k) (nl + ne) @ ys))
         \<and> num_cached m' r = int (length (hit_table m (hits ! k) (nl + ne)))"
      using coord_adopt_spec [OF ok1 pl1 _ one n fr, of env] le enough len l1 tot by auto
    have "table (coord_managers c2 ! k) s = table (coord_managers c1 ! k) s" if "k < length (coord_managers c)" "s \<noteq> r" for k s
      using tb that len by (fastforce simp: Let_def)
    then show ?thesis using c2 True len l1 by (auto simp: coord_step_def)
  next
    case False
    have e: "hits ! k = []" if "k < length hits" for k using ask1 False that by simp
    have "fresh_need (coord_managers c1 ! k) r (hits ! k) tot n' = blocks_needed (coord_managers c1 ! k) r n'"
      if "k < length hits" for k n'
    proof -
      have k1: "k < length (coord_managers c1)" using that len l1 by simp
      have "0 \<le> tot" "tot \<le> int (length (table (coord_managers c1 ! k) r)) * block_size (coord_managers c1 ! k)"
        using ask1 False all_managers_nth [OF _ k1] by (auto simp: more_ask_def)
      then show ?thesis
        using fresh_need_more [of "coord_managers c1 ! k"] e [OF that] all_managers_nth [OF pl1 k1]
          coord_block_size [OF ok1 k1] by (simp add: plain_def)
    qed
    then have "(\<Sum>k < length hits. blocks_needed (coord_managers c1 ! k) r (slot_tokens (coord_managers c1 ! k) n)) \<le> int (length (xs @ zs))"
      using le enough e by (simp add: Let_def get_num_evictable_blocks_def)
    then show ?thesis using False len l1 coord_step_refl [OF ok1] by auto
  qed
  then show ?thesis
    using c1(1,2) t N by (intro exI [of _ c1] exI [of _ "xs @ zs"] exI [of _ N]) (simp add: Let_def)
qed

subsection \<open>The whole allocation\<close>

text \<open>The request's hash list is up to date and every group can use it.\<close>

definition hashes_ready :: "block_pool \<Rightarrow> request \<Rightarrow> manager \<Rightarrow> bool" where
  "hashes_ready p r m \<longleftrightarrow> hash_size_ok p (block_size m) \<and> 0 \<le> kv_cache_group_id m \<and> kv_cache_group_id m < 4294967296
     \<and> int (length (block_hashes r)) = num_tokens r div hash_block_size p"

lemma hashes_ready_cacheable:
  assumes h: "hashes_ready p r m" and n: "n \<le> num_tokens r" "n \<le> int (length (table m (request_id r))) * block_size m"
  shows "cacheable p r m n"
proof -
  let ?b = "block_size m" and ?h = "hash_block_size p"
  have pos: "0 < ?b" "0 < ?h" "?b mod ?h = 0" using h by (simp_all add: hashes_ready_def hash_size_ok_def)
  have "n div ?b \<le> int (length (table m (request_id r))) * ?b div ?b" by (rule zdiv_mono1 [OF n(2) pos(1)])
  then have a: "n div ?b \<le> int (length (table m (request_id r)))" using pos(1) by simp
  have "n div ?b \<le> num_tokens r div ?b" by (rule zdiv_mono1 [OF n(1) pos(1)])
  moreover have "bhl_length (group_hashes p r ?b) = num_tokens r div ?b"
  proof (cases "?b = ?h")
    case True
    then show ?thesis using h by (simp add: group_hashes_def hashes_ready_def)
  next
    case False
    have "num_tokens r div ?h div (?b div ?h) = num_tokens r div (?h * (?b div ?h))"
      using pos by (intro zdiv_zmult2_eq [symmetric]) (simp add: pos_imp_zdiv_nonneg_iff)
    also have "?h * (?b div ?h) = ?b" using pos(3) by (simp add: mult_div_mod_eq [symmetric] mod_eq_0_iff_dvd)
    finally show ?thesis using h False by (simp add: group_hashes_def hashes_ready_def)
  qed
  ultimately show ?thesis using a h by (simp add: cacheable_def hashes_ready_def)
qed

lemma slot_tokens_ge: "plain m \<Longrightarrow> 0 < block_size m \<Longrightarrow> n \<le> slot_tokens m n"
  by (auto simp: slot_tokens_def plain_def split: layer_spec.splits)

text \<open>The second half: the tables are extended and cover the tokens.\<close>

lemma fill_slots:
  assumes ok: "coord_ok c xs" and pl: "all_managers plain c"
    and enough: "(\<Sum>k < length (coord_managers c). blocks_needed (coord_managers c ! k) r (slot_tokens (coord_managers c ! k) n))
      \<le> int (length xs)"
  shows "\<exists>new c' xs'. coord_allocate_new_blocks env r n main enc c = Inr (new, c') \<and> coord_step c c' xs'
    \<and> all_managers (\<lambda>m. n \<le> int (length (table m r)) * block_size m) c'
    \<and> (\<forall>k < length (coord_managers c). \<forall>s. s \<noteq> r \<longrightarrow> table (coord_managers c' ! k) s = table (coord_managers c ! k) s)"
proof -
  obtain new c' xs' where a: "coord_allocate_new_blocks env r n main enc c = Inr (new, c')" "coord_step c c' xs'"
    "length new = length (coord_managers c)"
    and t: "\<forall>k < length (coord_managers c). let m = coord_managers c ! k; m' = coord_managers c' ! k in
         table m' = (table m)(r := table m r @ new ! k) \<and> num_cached_block m' = num_cached_block m
         \<and> int (length (new ! k)) = blocks_needed m r (slot_tokens m n)"
    using coord_allocate_new_blocks_spec [OF ok pl enough, of env main enc] by blast
  have st: "length (coord_managers c') = length (coord_managers c)"
    "\<forall>k < length (coord_managers c). mgr_static (coord_managers c' ! k) = mgr_static (coord_managers c ! k)"
    using a(2) by (simp_all add: coord_step_def)
  have "n \<le> int (length (table (coord_managers c' ! k) r)) * block_size (coord_managers c' ! k)"
    if k: "k < length (coord_managers c)" for k
  proof -
    let ?m = "coord_managers c ! k" and ?m' = "coord_managers c' ! k"
    note bs = coord_block_size [OF ok k]
    have "int (length (table ?m' r)) = int (length (table ?m r)) + blocks_needed ?m r (slot_tokens ?m n)"
      using t k by (auto simp: Let_def)
    moreover have "block_size ?m' = block_size ?m" using st(2) k mgr_staticD(3) by blast
    ultimately show ?thesis
      using blocks_needed_covers [OF bs, of "slot_tokens ?m n" r] slot_tokens_ge [OF all_managers_nth [OF pl k] bs, of n] by simp
  qed
  then have "all_managers (\<lambda>m. n \<le> int (length (table m r)) * block_size m) c'"
    using st(1) by (auto simp: all_managers_def in_set_conv_nth)
  moreover have "table (coord_managers c' ! k) s = table (coord_managers c ! k) s"
    if "k < length (coord_managers c)" "s \<noteq> r" for k s using t that by (simp add: Let_def)
  ultimately show ?thesis using a(1,2) by blast
qed

definition given_hits :: "kv_manager \<Rightarrow> kv_cache_blocks option \<Rightarrow> bref list list" where
  "given_hits k blocks = (case blocks of
     Some bs \<Rightarrow> blocks_of (num_kv_cache_groups k) bs | None \<Rightarrow> replicate (num_kv_cache_groups k) [])"

definition no_hits :: "kv_cache_blocks option \<Rightarrow> bool" where
  "no_hits blocks \<longleftrightarrow> blocks = None \<or> blocks = Some EmptyBlocks"

lemma no_hits_given: "no_hits blocks \<Longrightarrow> given_hits k blocks = replicate (num_kv_cache_groups k) []"
  by (auto simp: no_hits_def given_hits_def)

lemma allocate_slots_spec:
  fixes env r new_tokens new_computed blocks lookahead external delay enc k
  defines "rid \<equiv> request_id r" and "c \<equiv> coord k" and "hits \<equiv> given_hits k blocks"
    and "tot \<equiv> num_computed_tokens r + new_computed + external"
  defines "n \<equiv> min (tot + new_tokens + lookahead) (kvm_max_model_len k)"
  assumes ok: "coord_ok c xs" and pl: "all_managers plain c" and len: "length hits = length (coord_managers c)"
    and req: "0 \<le> new_tokens" "0 \<le> lookahead" "0 \<le> external" "0 < new_tokens \<or> 0 < external" "tot \<le> kvm_max_model_len k"
    and one: "external = 0 \<or> (\<forall>hs \<in> set (tl hits). hs = [])"
    and ask: "if no_hits blocks \<and> external = 0 then more_ask c rid tot else fresh_ask c rid hits tot"
    and cache: "kvm_enable_caching k \<and> \<not> delay \<longrightarrow> enable_caching (coord_pool c) \<and> all_managers (hashes_ready (coord_pool c) r) c
      \<and> num_tokens r \<le> kvm_max_model_len k"
  shows "\<exists>res k' xs'. allocate_slots env r new_tokens new_computed blocks lookahead external delay enc k = Inr (res, k')
    \<and> k' = k\<lparr>coord := coord k'\<rparr> \<and> coord_step c (coord k') xs'
    \<and> (\<forall>i < length (coord_managers c). \<forall>s. s \<noteq> rid \<longrightarrow> table (coord_managers (coord k') ! i) s = table (coord_managers c ! i) s)
    \<and> (case res of
         None \<Rightarrow> \<forall>i < length (coord_managers c). length (table (coord_managers (coord k') ! i) rid) = length (table (coord_managers c ! i) rid)
       | Some _ \<Rightarrow> all_managers (\<lambda>m. n \<le> int (length (table m rid)) * block_size m) (coord k'))"
proof -
  let ?adopt = "\<not> no_hits blocks \<or> external > 0"
  let ?nl = "num_computed_tokens r + new_computed"
  have tmin: "min tot (kvm_max_model_len k) = tot" using req(5) by simp
  have ask': "if ?adopt then fresh_ask c rid hits tot else more_ask c rid tot \<and> (\<forall>i < length hits. hits ! i = [])"
    using ask req(3) no_hits_given [of blocks k] by (auto simp: hits_def split: if_splits)
  have le: "0 < external \<longrightarrow> ?nl + external \<le> n" using req by (auto simp: n_def tot_def)
  have one': "external \<le> 0 \<or> (\<forall>hs \<in> set (tl hits). hs = [])" using one by auto
  have tote: "tot = ?nl + external" by (simp add: tot_def)
  from reserve_slots [OF ok pl len tote le one' ask', of tot enc "tot + new_tokens" env]
  obtain c1 xs1 N where c1: "coord_remove_skipped_blocks rid tot c = Inr c1" "coord_step c c1 xs1"
    and t1: "\<forall>i < length (coord_managers c). length (table (coord_managers c1 ! i) rid) = length (table (coord_managers c ! i) rid)
         \<and> (\<forall>s. s \<noteq> rid \<longrightarrow> table (coord_managers c1 ! i) s = table (coord_managers c ! i) s)"
    and N: "coord_get_num_blocks_to_allocate rid n hits enc tot (tot + new_tokens) c1 = Inr (N, c1)"
    and go: "N \<le> int (length xs1) \<longrightarrow> (\<exists>c2 xs2.
        (if ?adopt then coord_allocate_new_computed_blocks env rid hits ?nl external c1 else Inr c1) = Inr c2
        \<and> coord_step c1 c2 xs2
        \<and> (\<Sum>i < length (coord_managers c2). blocks_needed (coord_managers c2 ! i) rid (slot_tokens (coord_managers c2 ! i) n))
            \<le> int (length xs2)
        \<and> (\<forall>i < length (coord_managers c). \<forall>s. s \<noteq> rid \<longrightarrow> table (coord_managers c2 ! i) s = table (coord_managers c ! i) s))"
    by blast
  have free1: "get_num_free_blocks (coord_pool c1) = int (length xs1)"
    using get_num_free_ok c1(2) by (auto simp: coord_step_def)
  have run: "allocate_slots env r new_tokens new_computed blocks lookahead external delay enc k =
    (if N > int (length xs1) then Inr (None, k\<lparr>coord := c1\<rparr>)
     else ebind (if ?adopt then coord_allocate_new_computed_blocks env rid hits ?nl external c1 else Inr c1) (\<lambda>c2.
          ebind (coord_allocate_new_blocks env rid n (tot + new_tokens) enc c2) (\<lambda>(new, c3).
          if \<not> kvm_enable_caching k \<or> delay
          then Inr (Some (create_kv_cache_blocks new), k\<lparr>coord := c3\<rparr>)
          else ebind (coord_cache_blocks env r (min (tot + new_tokens) (num_tokens r)) c3) (\<lambda>c4.
                 Inr (Some (create_kv_cache_blocks new), k\<lparr>coord := c4\<rparr>)))))"
  proof -
    have z: "(new_tokens = 0 \<and> external = 0) = False" using req(4) by auto
    show ?thesis
      using c1(1) N free1 tmin
      unfolding allocate_slots_def Let_def z if_False no_hits_def hits_def given_hits_def rid_def c_def n_def tot_def
      by (simp cong: if_cong)
  qed
  show ?thesis
  proof (cases "N > int (length xs1)")
    case True
    then show ?thesis using run t1 c1(2)
      by (intro exI [of _ None] exI [of _ "k\<lparr>coord := c1\<rparr>"] exI [of _ xs1]) simp
  next
    case False
    then obtain c2 xs2 where c2: "(if ?adopt then coord_allocate_new_computed_blocks env rid hits ?nl external c1 else Inr c1) = Inr c2"
      "coord_step c1 c2 xs2"
      "(\<Sum>i < length (coord_managers c2). blocks_needed (coord_managers c2 ! i) rid (slot_tokens (coord_managers c2 ! i) n))
            \<le> int (length xs2)"
      and t2: "\<forall>i < length (coord_managers c). \<forall>s. s \<noteq> rid \<longrightarrow> table (coord_managers c2 ! i) s = table (coord_managers c ! i) s"
      using go by auto
    note s2 = coord_step_trans [OF c1(2) c2(2)]
    have l2: "length (coord_managers c2) = length (coord_managers c)" "coord_ok c2 xs2" using s2 by (simp_all add: coord_step_def)
    obtain new c3 xs3 where c3: "coord_allocate_new_blocks env rid n (tot + new_tokens) enc c2 = Inr (new, c3)" "coord_step c2 c3 xs3"
      "all_managers (\<lambda>m. n \<le> int (length (table m rid)) * block_size m) c3"
      and t3: "\<forall>i < length (coord_managers c2). \<forall>s. s \<noteq> rid \<longrightarrow> table (coord_managers c3 ! i) s = table (coord_managers c2 ! i) s"
      using fill_slots [OF l2(2) coord_step_plain [OF s2 pl] c2(3), of env "tot + new_tokens" enc] by blast
    note s3 = coord_step_trans [OF s2 c3(2)]
    have t: "\<forall>i < length (coord_managers c). \<forall>s. s \<noteq> rid \<longrightarrow> table (coord_managers c3 ! i) s = table (coord_managers c ! i) s"
      using t2 t3 l2(1) by simp
    show ?thesis
    proof (cases "\<not> kvm_enable_caching k \<or> delay")
      case True
      then show ?thesis using run False c2(1) c3(1,3) s3 t
        by (intro exI [of _ "Some (create_kv_cache_blocks new)"] exI [of _ "k\<lparr>coord := c3\<rparr>"] exI [of _ xs3]) simp
    next
      case nc: False
      then have ec: "enable_caching (coord_pool c)" "all_managers (hashes_ready (coord_pool c) r) c"
        "num_tokens r \<le> kvm_max_model_len k" using cache by auto
      have st3: "static (coord_pool c3) = static (coord_pool c)" "coord_ok c3 xs3" using s3 by (simp_all add: coord_step_def)
      have hr: "all_managers (hashes_ready (coord_pool c) r) c3"
        by (rule all_managers_static [OF ec(2)])
          (use s3 in \<open>simp_all add: coord_step_def hashes_ready_def mgr_static_def\<close>)
      have "all_managers (\<lambda>m. cacheable (coord_pool c3) r m (min (tot + new_tokens) (num_tokens r))) c3"
        unfolding all_managers_def
      proof
        fix m assume m: "m \<in> set (coord_managers c3)"
        have "min (tot + new_tokens) (num_tokens r) \<le> n" using req(2) ec(3) by (auto simp: n_def min_le_iff_disj)
        then show "cacheable (coord_pool c3) r m (min (tot + new_tokens) (num_tokens r))"
          using hr c3(3) m unfolding cacheable_static [OF st3(1)]
          by (intro hashes_ready_cacheable) (auto simp: all_managers_def rid_def)
      qed
      from coord_cache_blocks_spec [OF st3(2) coord_step_plain [OF s3 pl] _ this, of env] ec(1) staticD(2) [OF st3(1)]
      obtain c4 xs4 where c4: "coord_cache_blocks env r (min (tot + new_tokens) (num_tokens r)) c3 = Inr c4" "coord_step c3 c4 xs4"
        "\<forall>i < length (coord_managers c3). table (coord_managers c4 ! i) = table (coord_managers c3 ! i)" by auto
      note s4 = coord_step_trans [OF s3 c4(2)]
      have l3: "length (coord_managers c3) = length (coord_managers c)" "length (coord_managers c4) = length (coord_managers c)"
        using s3 s4 by (simp_all add: coord_step_def)
      have "all_managers (\<lambda>m. n \<le> int (length (table m rid)) * block_size m) c4"
        unfolding all_managers_def
      proof
        fix m assume "m \<in> set (coord_managers c4)"
        then obtain i where i: "i < length (coord_managers c3)" "m = coord_managers c4 ! i" using l3 by (auto simp: in_set_conv_nth)
        have "mgr_static m = mgr_static (coord_managers c3 ! i)" using c4(2) i by (simp add: coord_step_def)
        then show "n \<le> int (length (table m rid)) * block_size m"
          using c4(3) i all_managers_nth [OF c3(3) i(1)] mgr_staticD(3) by metis
      qed
      then show ?thesis using run False nc c2(1) c3(1) c4(1,3) s4 t l3
        by (intro exI [of _ "Some (create_kv_cache_blocks new)"] exI [of _ "k\<lparr>coord := c4\<rparr>"] exI [of _ xs4]) simp
    qed
  qed
qed

subsection \<open>Construction\<close>

text \<open>A configuration this development covers: no sink tokens, positive block and chunk sizes.\<close>

definition spec_ok :: "layer_spec \<Rightarrow> bool" where
  "spec_ok spec \<longleftrightarrow> 0 < spec_block_size spec
     \<and> (case spec of
          SinkFullAttentionSpec _ _ _ _ _ \<Rightarrow> False | CrossAttentionSpec _ \<Rightarrow> False | EncoderOnlyAttentionSpec _ \<Rightarrow> False
        | SlidingWindowSpec _ w \<Rightarrow> 0 < w | ChunkedLocalAttentionSpec _ ch \<Rightarrow> 0 < ch
        | MambaSpec ms \<Rightarrow> mamba_cache_mode ms \<noteq> ''align'' \<and> 0 \<le> num_speculative_blocks ms
        | _ \<Rightarrow> True)"

definition empty_manager :: "manager \<Rightarrow> bool" where
  "empty_manager m \<longleftrightarrow> req_to_blocks m = [] \<and> num_cached_block m = []"

lemma empty_manager_table: "empty_manager m \<Longrightarrow> table m = (\<lambda>_. [])" "empty_manager m \<Longrightarrow> \<not> is_running m r"
  by (simp_all add: empty_manager_def table_def is_running_def fun_eq_iff)

lemma init_manager_plain:
  assumes inv: "pool_inv p xs" and sp: "spec_ok spec" and d: "0 < dcp" "0 < pcp"
    and mb: "(\<exists>ms. spec = MambaSpec ms) \<longrightarrow> dcp * pcp = 1"
  shows "\<exists>m. init_manager spec p (enable_caching p) g dcp pcp = Inr (m, p) \<and> plain m \<and> empty_manager m
    \<and> mgr_fits p m \<and> kv_cache_group_id m = g \<and> mgr_spec m = spec
    \<and> block_size m = spec_block_size spec * (dcp * pcp)"
proof -
  have pos: "0 < dcp * pcp" using d by simp
  then have eq: "(if dcp * pcp > 1 then spec_block_size spec * (dcp * pcp) else spec_block_size spec) = spec_block_size spec * (dcp * pcp)"
    by auto
  have nb: "null_block p = Blk 0" using pool_coreD(3) [OF inv] .
  have bs: "0 < spec_block_size spec * (dcp * pcp)" using pos sp by (simp add: spec_ok_def)
  have fits: "mgr_fits p m"
    if "req_to_blocks m = []" "num_cached_block m = []" "mgr_null_block m = Blk 0" "0 < block_size m"
      "mgr_enable_caching m = enable_caching p" for m
    using that by (simp add: mgr_fits_def mgr_wf_def mgr_tails_def tail_ok_def table_def)
  show ?thesis
    using sp nb bs mb unfolding init_manager_def eq
    by (cases spec)
      (auto simp: spec_ok_def Let_def plain_def empty_manager_def is_mamba_align_def skip_ok_def intro!: fits)
qed

lemma init_managers_ok:
  assumes inv: "pool_inv p xs" and sp: "\<forall>g \<in> set gs. spec_ok (kv_cache_spec g)" and d: "0 < dcp" "0 < pcp"
    and mb: "(\<exists>g \<in> set gs. \<exists>ms. kv_cache_spec g = MambaSpec ms) \<longrightarrow> dcp * pcp = 1"
  shows "\<exists>ms. init_managers gs i (enable_caching p) dcp pcp p = Inr (ms, p) \<and> length ms = length gs
    \<and> (\<forall>m \<in> set ms. plain m \<and> empty_manager m \<and> mgr_fits p m)
    \<and> (\<forall>k < length gs. kv_cache_group_id (ms ! k) = int (i + k) \<and> mgr_spec (ms ! k) = kv_cache_spec (gs ! k)
         \<and> block_size (ms ! k) = spec_block_size (kv_cache_spec (gs ! k)) * (dcp * pcp))"
  using sp mb
proof (induction gs arbitrary: i)
  case (Cons g gs)
  obtain m where m: "init_manager (kv_cache_spec g) p (enable_caching p) (int i) dcp pcp = Inr (m, p)"
    "plain m \<and> empty_manager m \<and> mgr_fits p m" "kv_cache_group_id m = int i" "mgr_spec m = kv_cache_spec g"
    "block_size m = spec_block_size (kv_cache_spec g) * (dcp * pcp)"
    using init_manager_plain [OF inv _ d, of "kv_cache_spec g" "int i"] Cons.prems by auto
  obtain ms where ms: "init_managers gs (Suc i) (enable_caching p) dcp pcp p = Inr (ms, p)" "length ms = length gs"
    "\<forall>m \<in> set ms. plain m \<and> empty_manager m \<and> mgr_fits p m"
    "\<forall>k < length gs. kv_cache_group_id (ms ! k) = int (Suc i + k) \<and> mgr_spec (ms ! k) = kv_cache_spec (gs ! k)
         \<and> block_size (ms ! k) = spec_block_size (kv_cache_spec (gs ! k)) * (dcp * pcp)"
    using Cons.IH [of "Suc i"] Cons.prems by auto
  have "kv_cache_group_id ((m # ms) ! k) = int (i + k) \<and> mgr_spec ((m # ms) ! k) = kv_cache_spec ((g # gs) ! k)
         \<and> block_size ((m # ms) ! k) = spec_block_size (kv_cache_spec ((g # gs) ! k)) * (dcp * pcp)"
    if "k < length (g # gs)" for k using that m ms(4) by (cases k) auto
  then show ?case using m(1,2) ms by (intro exI [of _ "m # ms"]) auto
qed simp

lemma init_coordinator_ok:
  assumes n: "0 < num_blocks config" and sp: "\<forall>g \<in> set (kv_cache_groups config). spec_ok (kv_cache_spec g)"
    and d: "0 < dcp" "0 < pcp"
    and mb: "(\<exists>g \<in> set (kv_cache_groups config). \<exists>ms. kv_cache_spec g = MambaSpec ms) \<longrightarrow> dcp * pcp = 1"
  shows "\<exists>c. init_coordinator kind config eagle caching events dcp pcp hbs = Inr c
    \<and> coord_ok c (map Blk [1 ..< nat (num_blocks config)]) \<and> all_managers plain c \<and> all_managers empty_manager c
    \<and> length (coord_managers c) = length (kv_cache_groups config)
    \<and> enable_caching (coord_pool c) = caching \<and> hash_block_size (coord_pool c) = hbs \<and> coord_kind c = kind
    \<and> num_gpu_blocks (coord_pool c) = num_blocks config \<and> hash_of (coord_pool c) = (\<lambda>_. None)
    \<and> (\<forall>k < length (kv_cache_groups config). kv_cache_group_id (coord_managers c ! k) = int k
         \<and> mgr_spec (coord_managers c ! k) = kv_cache_spec (kv_cache_groups config ! k)
         \<and> block_size (coord_managers c ! k) = spec_block_size (kv_cache_spec (kv_cache_groups config ! k)) * (dcp * pcp))"
proof -
  obtain p where p: "init_block_pool (num_blocks config) caching hbs events = Inr p"
    "pool_inv p (map Blk [1 ..< nat (num_blocks config)])" "num_gpu_blocks p = num_blocks config" "enable_caching p = caching"
    "hash_block_size p = hbs" "refs p = (\<lambda>_. 0)" "hash_of p = (\<lambda>_. None)"
    using init_block_pool_spec [OF n] by blast
  obtain ms where ms: "init_managers (kv_cache_groups config) 0 caching dcp pcp p = Inr (ms, p)"
    "length ms = length (kv_cache_groups config)" "\<forall>m \<in> set ms. plain m \<and> empty_manager m \<and> mgr_fits p m"
    "\<forall>k < length (kv_cache_groups config). kv_cache_group_id (ms ! k) = int k
         \<and> mgr_spec (ms ! k) = kv_cache_spec (kv_cache_groups config ! k)
         \<and> block_size (ms ! k) = spec_block_size (kv_cache_spec (kv_cache_groups config ! k)) * (dcp * pcp)"
    using init_managers_ok [OF p(2) sp d mb, of 0] p(4) by auto
  have "ms_count ms i = 0" for i
    using ms(3) by (induction ms) (auto simp: empty_manager_def mgr_count_def entry_count_def)
  then have "kv_ok p (map Blk [1 ..< nat (num_blocks config)]) ms" using p(2,6) ms(3) by (simp add: kv_ok_def)
  with p ms show ?thesis by (auto simp: init_coordinator_def coord_ok_def all_managers_def)
qed

text \<open>Every coordinator that construction returns starts well formed.\<close>

lemma get_kv_cache_coordinator_ok:
  assumes c: "get_kv_cache_coordinator config eagle caching events dcp pcp hbs = Inr c"
    and cfg: "0 < num_blocks config" "\<forall>g \<in> set (kv_cache_groups config). spec_ok (kv_cache_spec g)" "0 < dcp" "0 < pcp"
      "(\<exists>g \<in> set (kv_cache_groups config). \<exists>ms. kv_cache_spec g = MambaSpec ms) \<longrightarrow> dcp * pcp = 1"
  shows "coord_ok c (map Blk [1 ..< nat (num_blocks config)]) \<and> all_managers plain c \<and> all_managers empty_manager c
    \<and> length (coord_managers c) = length (kv_cache_groups config)
    \<and> enable_caching (coord_pool c) = caching \<and> hash_block_size (coord_pool c) = hbs
    \<and> num_gpu_blocks (coord_pool c) = num_blocks config \<and> hash_of (coord_pool c) = (\<lambda>_. None)
    \<and> (\<forall>k < length (kv_cache_groups config). kv_cache_group_id (coord_managers c ! k) = int k
         \<and> mgr_spec (coord_managers c ! k) = kv_cache_spec (kv_cache_groups config ! k)
         \<and> block_size (coord_managers c ! k) = spec_block_size (kv_cache_spec (kv_cache_groups config ! k)) * (dcp * pcp))"
proof -
  obtain c0 kind where i: "init_coordinator kind config eagle caching events dcp pcp hbs = Inr c0"
    and same: "coord_pool c = coord_pool c0" "coord_managers c = coord_managers c0"
    using c unfolding get_kv_cache_coordinator_def init_unitary_def init_hybrid_def verify_and_split_kv_cache_groups_def
    by (auto simp: ebind_eq_Inr Let_def split: if_splits)
  from init_coordinator_ok [OF cfg, of kind eagle caching events hbs] i same show ?thesis
    by (auto simp: coord_ok_def all_managers_def)
qed

subsection \<open>The manager as a state machine\<close>

definition kvm_ok :: "kv_manager \<Rightarrow> bref list \<Rightarrow> bool" where
  "kvm_ok k xs \<longleftrightarrow> coord_ok (coord k) xs \<and> all_managers plain (coord k)
     \<and> num_kv_cache_groups k = length (coord_managers (coord k))"

text \<open>What the scheduler promises when it asks for slots.\<close>

definition slots_ok ::
  "request \<Rightarrow> int \<Rightarrow> int \<Rightarrow> kv_cache_blocks option \<Rightarrow> int \<Rightarrow> int \<Rightarrow> bool \<Rightarrow> kv_manager \<Rightarrow> bool" where
  "slots_ok r new_tokens new_computed blocks lookahead external delay k \<longleftrightarrow>
     (let tot = num_computed_tokens r + new_computed + external; hits = given_hits k blocks; c = coord k in
      length hits = length (coord_managers c)
      \<and> 0 \<le> new_tokens \<and> 0 \<le> lookahead \<and> 0 \<le> external \<and> (0 < new_tokens \<or> 0 < external) \<and> tot \<le> kvm_max_model_len k
      \<and> (external = 0 \<or> (\<forall>hs \<in> set (tl hits). hs = []))
      \<and> (if no_hits blocks \<and> external = 0 then more_ask c (request_id r) tot else fresh_ask c (request_id r) hits tot)
      \<and> (kvm_enable_caching k \<and> \<not> delay \<longrightarrow> enable_caching (coord_pool c)
          \<and> all_managers (hashes_ready (coord_pool c) r) c \<and> num_tokens r \<le> kvm_max_model_len k))"

lemma allocate_slots_total:
  assumes k: "kvm_ok k xs" and s: "slots_ok r new_tokens new_computed blocks lookahead external delay k"
  defines "n \<equiv> min (num_computed_tokens r + new_computed + external + new_tokens + lookahead) (kvm_max_model_len k)"
  shows "\<exists>res k' xs'. allocate_slots env r new_tokens new_computed blocks lookahead external delay enc k = Inr (res, k')
    \<and> kvm_ok k' xs' \<and> coord_step (coord k) (coord k') xs'
    \<and> (\<forall>i < length (coord_managers (coord k)). \<forall>t. t \<noteq> request_id r \<longrightarrow>
         table (coord_managers (coord k') ! i) t = table (coord_managers (coord k) ! i) t)
    \<and> (case res of
         None \<Rightarrow> \<forall>i < length (coord_managers (coord k)).
           length (table (coord_managers (coord k') ! i) (request_id r)) = length (table (coord_managers (coord k) ! i) (request_id r))
       | Some _ \<Rightarrow> all_managers (\<lambda>m. n \<le> int (length (table m (request_id r))) * block_size m) (coord k'))"
proof -
  have c: "coord_ok (coord k) xs" "all_managers plain (coord k)" using k by (simp_all add: kvm_ok_def)
  note s' = s [unfolded slots_ok_def Let_def]
  obtain res k' xs' where a: "allocate_slots env r new_tokens new_computed blocks lookahead external delay enc k = Inr (res, k')"
    and kk: "k' = k\<lparr>coord := coord k'\<rparr>" and st: "coord_step (coord k) (coord k') xs'"
    and t: "\<forall>i < length (coord_managers (coord k)). \<forall>t. t \<noteq> request_id r \<longrightarrow>
         table (coord_managers (coord k') ! i) t = table (coord_managers (coord k) ! i) t"
    and res: "case res of
         None \<Rightarrow> \<forall>i < length (coord_managers (coord k)).
           length (table (coord_managers (coord k') ! i) (request_id r)) = length (table (coord_managers (coord k) ! i) (request_id r))
       | Some _ \<Rightarrow> all_managers (\<lambda>m. n \<le> int (length (table m (request_id r))) * block_size m) (coord k')"
    using allocate_slots_spec [OF c, of blocks new_tokens lookahead external r new_computed delay env enc] s'
    unfolding n_def by blast
  have "num_kv_cache_groups k' = num_kv_cache_groups k" by (subst kk) simp
  with st coord_step_plain [OF st c(2)] k have "kvm_ok k' xs'" by (simp add: kvm_ok_def coord_step_def)
  with a st t res show ?thesis by blast
qed

inductive kv_step :: "pool_env \<Rightarrow> kv_manager \<Rightarrow> kv_manager \<Rightarrow> bool" for env where
  allocate: "slots_ok r new_tokens new_computed blocks lookahead external delay k \<Longrightarrow>
     allocate_slots env r new_tokens new_computed blocks lookahead external delay enc k = Inr (res, k') \<Longrightarrow> kv_step env k k'"
| free: "kvm_free r k = Inr k' \<Longrightarrow> kv_step env k k'"
| skip: "kvm_remove_skipped_blocks rid n k = Inr k' \<Longrightarrow> kv_step env k k'"
| evict: "\<forall>i \<in> set ids. 0 \<le> i \<Longrightarrow> kvm_evict_blocks env ids k = Inr k' \<Longrightarrow> kv_step env k k'"
| reset: "kvm_reset_prefix_cache k = Inr (b, k') \<Longrightarrow> kv_step env k k'"
| cache: "enable_caching (coord_pool (coord k)) \<Longrightarrow>
     all_managers (\<lambda>m. cacheable (coord_pool (coord k)) r m n) (coord k) \<Longrightarrow>
     kvm_cache_blocks env r n k = Inr k' \<Longrightarrow> kv_step env k k'"
| look_up: "get_computed_blocks r k = Inr (bs, n, k') \<Longrightarrow> kv_step env k k'"
| stats: "make_prefix_cache_stats k = (st, k') \<Longrightarrow> kv_step env k k'"
| events: "kvm_take_events k = (evs, k') \<Longrightarrow> kv_step env k k'"
| new_ids: "kvm_take_new_block_ids k = (ids, k') \<Longrightarrow> kv_step env k k'"
| new_step: "kv_step env k (kvm_new_step_starts k)"

lemma kv_ok_pool_change:
  assumes ok: "kv_ok p xs ms" and st: "static p' = static p" and r: "refs p' = refs p" and inv: "pool_inv p' xs"
    and h: "\<forall>i < nblocks p. hash_of p i = None \<longrightarrow> hash_of p' i = None"
  shows "kv_ok p' xs ms"
proof -
  have "mgr_tails p' m" if m: "m \<in> set ms" "enable_caching p" for m
    unfolding mgr_tails_def tail_ok_def
  proof (intro allI impI, elim conjE)
    fix q i assume i: "0 < i" "Blk i \<in> set (drop (nat (num_cached m q)) (table m q))"
    have f: "mgr_fits p m" using ok m(1) by (simp add: kv_ok_def)
    have "Blk i \<in> set (table m q)" using i(2) by (auto dest: in_set_dropD)
    then have "i < nblocks p" using mgr_wf_table [of "nblocks p" m q] f by (auto simp: mgr_fits_def table_ok_def)
    moreover have "hash_of p i = None \<and> refs p i = 1" using f m(2) i by (auto simp: mgr_fits_def mgr_tails_def tail_ok_def)
    ultimately show "hash_of p' i = None \<and> refs p' i = 1" using h r by simp
  qed
  with ok inv r staticD(2,9) [OF st] show ?thesis by (auto simp: kv_ok_def mgr_fits_def)
qed

lemma kvm_ok_pool_change:
  assumes k: "kvm_ok k xs" and k': "coord k' = (coord k)\<lparr>coord_pool := p'\<rparr>" "num_kv_cache_groups k' = num_kv_cache_groups k"
    and p: "static p' = static (coord_pool (coord k))" "refs p' = refs (coord_pool (coord k))"
      "pool_inv (coord_pool (coord k)) xs \<Longrightarrow> pool_inv p' xs"
      "\<forall>i < nblocks (coord_pool (coord k)). hash_of (coord_pool (coord k)) i = None \<longrightarrow> hash_of p' i = None"
  shows "\<exists>xs'. kvm_ok k' xs' \<and> static (coord_pool (coord k')) = static (coord_pool (coord k))"
proof -
  have ok: "kv_ok (coord_pool (coord k)) xs (coord_managers (coord k))" using k by (simp add: kvm_ok_def coord_ok_def)
  then have "pool_inv p' xs" using p(3) by (simp add: kv_ok_def)
  from kv_ok_pool_change [OF ok p(1,2) this p(4)] k k' p(1) show ?thesis
    by (auto simp: kvm_ok_def coord_ok_def all_managers_def)
qed

definition same_tables :: "manager \<Rightarrow> manager \<Rightarrow> bool" where
  "same_tables m m' \<longleftrightarrow> req_to_blocks m' = req_to_blocks m \<and> num_cached_block m' = num_cached_block m
     \<and> mgr_static m' = mgr_static m"

lemma same_tables_view:
  assumes s: "same_tables m m'"
  shows "table m' = table m" "num_cached m' = num_cached m" "mgr_count m' = mgr_count m" "plain m' = plain m"
    "mgr_fits p m' = mgr_fits p m"
proof -
  have e: "req_to_blocks m' = req_to_blocks m" "num_cached_block m' = num_cached_block m" "mgr_static m' = mgr_static m"
    using s by (simp_all add: same_tables_def)
  show t: "table m' = table m" "num_cached m' = num_cached m" "mgr_count m' = mgr_count m"
    by (simp_all add: table_def num_cached_def mgr_count_def e fun_eq_iff)
  show "plain m' = plain m" by (rule plain_static [OF e(3)])
  show "mgr_fits p m' = mgr_fits p m"
    using mgr_staticD(3,4,6) [OF e(3)] by (simp add: mgr_fits_def mgr_wf_def mgr_tails_def t e)
qed

lemma kv_ok_same_tables:
  assumes ok: "kv_ok p xs ms" and s: "list_all2 same_tables ms ms'"
  shows "kv_ok p xs ms'" "(\<forall>m \<in> set ms. plain m) \<Longrightarrow> \<forall>m \<in> set ms'. plain m" "length ms' = length ms"
proof -
  have "ms_count ms' i = ms_count ms i" for i
    using s by (induction rule: list_all2_induct) (simp_all add: same_tables_view(3))
  moreover have "(\<forall>m \<in> set ms'. mgr_fits p m) = (\<forall>m \<in> set ms. mgr_fits p m)"
    using s by (induction rule: list_all2_induct) (simp_all add: same_tables_view(5))
  ultimately show "kv_ok p xs ms'" using ok by (simp add: kv_ok_def)
  show "\<forall>m \<in> set ms'. plain m" if "\<forall>m \<in> set ms. plain m"
    using s that by (induction rule: list_all2_induct) (simp_all add: same_tables_view(4))
  show "length ms' = length ms" using s by (simp add: list_all2_lengthD)
qed

lemma drain_same_tables: "drain_new_block_ids ms = (ids, ms') \<Longrightarrow> list_all2 same_tables ms ms'"
proof (induction ms arbitrary: ids ms')
  case (Cons m ms)
  then show ?case
    by (auto simp: mgr_take_new_block_ids_def same_tables_def mgr_static_def Let_def split: prod.splits)
qed simp

lemma new_step_same_tables: "list_all2 same_tables ms (map mgr_new_step_starts ms)"
  by (induction ms) (simp_all add: mgr_new_step_starts_def same_tables_def mgr_static_def)

lemma kv_step_invariant:
  assumes "kv_step env k k'" "kvm_ok k xs"
  shows "\<exists>xs'. kvm_ok k' xs' \<and> static (coord_pool (coord k')) = static (coord_pool (coord k))"
  using assms
proof (induction rule: kv_step.induct)
  case (allocate r new_tokens new_computed blocks lookahead external delay k enc res k')
  from allocate_slots_total [OF allocate(3,1), of env enc] allocate(2) show ?case by (auto simp: coord_step_def)
next
  case (free r k k')
  obtain c' xs' where c: "coord_free (request_id r) (coord k) = Inr c'" "coord_ok c' xs'"
    "tables_become (coord k) c' (request_id r) (\<lambda>_. [])" "static (coord_pool c') = static (coord_pool (coord k))"
    and ms: "\<forall>j < length (coord_managers (coord k)). mgr_static (coord_managers c' ! j) = mgr_static (coord_managers (coord k) ! j)"
    using coord_free_spec [of "coord k" xs "request_id r"] free(2) by (auto simp: kvm_ok_def)
  have l: "length (coord_managers c') = length (coord_managers (coord k))" using c(3) by (simp add: tables_become_def)
  have "all_managers plain c'"
  proof (rule all_managers_static)
    show "all_managers plain (coord k)" using free(2) by (simp add: kvm_ok_def)
    show "plain m' = plain m" if "mgr_static m' = mgr_static m" for m m' by (rule plain_static [OF that])
  qed (fact l ms)+
  with c l free show ?case by (auto simp: kvm_ok_def kvm_free_def)
next
  case (skip rid n k k')
  obtain c' ys where "coord_remove_skipped_blocks rid n (coord k) = Inr c'" "coord_step (coord k) c' (xs @ ys)"
    using coord_remove_skipped_spec [of "coord k" xs rid n] skip(2) by (auto simp: kvm_ok_def)
  with skip coord_step_plain show ?case by (auto simp: kvm_ok_def kvm_remove_skipped_blocks_def coord_step_def)
next
  case (evict ids k k')
  let ?p = "coord_pool (coord k)"
  have ok: "kv_ok ?p xs (coord_managers (coord k))" using evict(3) by (simp add: kvm_ok_def coord_ok_def)
  then have inv: "pool_inv ?p xs" by (simp add: kv_ok_def)
  obtain p' where p': "evict_blocks env ids ?p = Inr p'" "k' = k\<lparr>coord := (coord k)\<lparr>coord_pool := p'\<rparr>\<rparr>"
    using evict(2) by (auto simp: kvm_evict_blocks_def ebind_eq_Inr)
  have r: "\<forall>i \<in> set ids. 0 \<le> i \<and> i < num_gpu_blocks ?p"
  proof (rule ccontr)
    assume "\<not> ?thesis"
    then have "\<exists>i \<in> set ids. num_gpu_blocks ?p \<le> i" using evict(1) by force
    with evict_blocks_beyond_pool [OF inv evict(1)] p'(1) show False by fastforce
  qed
  obtain p1 where p1: "evict_blocks env ids ?p = Inr p1" "static p1 = static ?p" "refs p1 = refs ?p" "pool_inv p1 xs"
    "hash_of p1 = (\<lambda>i. if int i \<in> set ids then None else hash_of ?p i)"
    using evict_blocks_spec [OF inv r, of env] by blast
  with p' show ?case by (intro kvm_ok_pool_change [OF evict(3), of k' p1]) auto
next
  case (reset k b k')
  let ?p = "coord_pool (coord k)"
  have inv: "pool_inv ?p xs" using reset(2) by (simp add: kvm_ok_def coord_ok_def kv_ok_def)
  obtain ok' p' where p': "reset_prefix_cache ?p = (ok', p')" by (cases "reset_prefix_cache ?p")
  have k': "coord k' = (coord k)\<lparr>coord_pool := p'\<rparr>" "num_kv_cache_groups k' = num_kv_cache_groups k"
    using reset(1) p' by (auto simp: kvm_reset_prefix_cache_def Let_def split: if_splits option.splits)
  show ?case
    by (rule kvm_ok_pool_change [OF reset(2) k']) (use reset_prefix_cache_spec [OF inv] p' in auto)
next
  case (cache k r n k')
  show ?case
  proof (cases "kvm_enable_caching k")
    case True
    obtain c' xs' where "coord_cache_blocks env r n (coord k) = Inr c'" "coord_step (coord k) c' xs'"
      using coord_cache_blocks_spec [of "coord k" xs r n env] cache by (auto simp: kvm_ok_def)
    with cache True coord_step_plain show ?thesis by (auto simp: kvm_ok_def kvm_cache_blocks_def coord_step_def)
  qed (use cache in \<open>auto simp: kvm_cache_blocks_def\<close>)
next
  case (look_up r k bs n k')
  have "coord k' = coord k \<and> num_kv_cache_groups k' = num_kv_cache_groups k"
    using look_up(1) by (auto simp: get_computed_blocks_def Let_def ebind_eq_Inr split: if_splits option.splits)
  with look_up(2) show ?case by (auto simp: kvm_ok_def)
next
  case (stats k st k')
  then show ?case by (auto simp: make_prefix_cache_stats_def kvm_ok_def split: if_splits)
next
  case (events k evs k')
  let ?p = "coord_pool (coord k)"
  obtain p' where p': "take_events ?p = (evs, p')" "k' = k\<lparr>coord := (coord k)\<lparr>coord_pool := p'\<rparr>\<rparr>"
    using events(1) by (auto simp: kvm_take_events_def split: prod.splits)
  show ?case
    by (rule kvm_ok_pool_change [OF events(2), of k' p']) (use take_events_spec [OF p'(1)] p'(2) in auto)
next
  case (new_ids k ids k')
  obtain ids' ms' where d: "drain_new_block_ids (coord_managers (coord k)) = (ids', ms')"
    by (cases "drain_new_block_ids (coord_managers (coord k))")
  then have k': "k' = k\<lparr>coord := (coord k)\<lparr>coord_managers := ms'\<rparr>\<rparr>"
    using new_ids(1) by (simp add: kvm_take_new_block_ids_def)
  from kv_ok_same_tables [OF _ drain_same_tables [OF d]] new_ids(2) k' show ?case
    by (auto simp: kvm_ok_def coord_ok_def all_managers_def)
next
  case (new_step k)
  from kv_ok_same_tables [OF _ new_step_same_tables [of "coord_managers (coord k)"]] new_step show ?case
    by (auto simp: kvm_ok_def coord_ok_def all_managers_def kvm_new_step_starts_def coord_new_step_starts_def)
qed

definition stats_ready :: "kv_manager \<Rightarrow> bool" where
  "stats_ready k \<longleftrightarrow> (log_stats k \<longrightarrow> prefix_cache_stats k \<noteq> None)"

text \<open>No operation changes the configuration, and the statistics stay in place.\<close>

definition config_kept :: "kv_manager \<Rightarrow> kv_manager \<Rightarrow> bool" where
  "config_kept k k' \<longleftrightarrow> kvm_enable_caching k' = kvm_enable_caching k \<and> kvm_max_model_len k' = kvm_max_model_len k
    \<and> log_stats k' = log_stats k \<and> (stats_ready k \<longrightarrow> stats_ready k')"

lemma config_kept_coord [simp]: "config_kept k (k\<lparr>coord := c\<rparr>)" "config_kept k k"
  "config_kept k (k\<lparr>prefix_cache_stats := Some s\<rparr>)" "config_kept k (k\<lparr>coord := c, prefix_cache_stats := Some s\<rparr>)"
  by (simp_all add: config_kept_def stats_ready_def)

lemma allocate_slots_config:
  assumes "allocate_slots env r new_tokens new_computed blocks lookahead external delay enc k = Inr (res, k')"
  shows "config_kept k k'"
  using assms unfolding allocate_slots_def Let_def by (auto simp: ebind_eq_Inr split: if_splits)

lemma kv_step_config:
  assumes "kv_step env k k'"
  shows "config_kept k k'"
  using assms
proof (cases rule: kv_step.cases)
  case allocate
  then show ?thesis by (rule_tac allocate_slots_config)
next
  case reset
  then show ?thesis by (auto simp: kvm_reset_prefix_cache_def Let_def split: if_splits option.splits prod.splits)
next
  case look_up
  then show ?thesis
    unfolding get_computed_blocks_def Let_def by (auto simp: ebind_eq_Inr split: if_splits option.splits)
qed (auto simp: kvm_free_def kvm_remove_skipped_blocks_def kvm_evict_blocks_def kvm_cache_blocks_def
      make_prefix_cache_stats_def kvm_take_events_def kvm_take_new_block_ids_def kvm_new_step_starts_def
      ebind_eq_Inr split: if_splits prod.splits)

definition kvm_inv :: "kv_manager \<Rightarrow> kv_manager \<Rightarrow> bref list \<Rightarrow> bool" where
  "kvm_inv k0 k xs \<longleftrightarrow> kvm_ok k xs \<and> static (coord_pool (coord k)) = static (coord_pool (coord k0))
     \<and> kvm_enable_caching k = kvm_enable_caching k0 \<and> stats_ready k"

lemma kv_reachable_inv:
  assumes "rtranclp (kv_step env) k0 k" "kvm_ok k0 xs" "stats_ready k0"
  shows "\<exists>xs'. kvm_inv k0 k xs'"
  using assms
proof (induction rule: rtranclp_induct)
  case (step k k')
  then obtain xs' where "kvm_inv k0 k xs'" by blast
  then show ?case using kv_step_invariant [OF step(2)] kv_step_config [OF step(2)] by (fastforce simp: kvm_inv_def config_kept_def)
qed (auto simp: kvm_inv_def)

text \<open>A configuration whose groups are of the types the well-formedness covers.\<close>

definition config_ok :: "kv_cache_config \<Rightarrow> int \<Rightarrow> int \<Rightarrow> bool" where
  "config_ok config dcp pcp \<longleftrightarrow> 0 < num_blocks config \<and> 0 < dcp \<and> 0 < pcp
     \<and> (\<forall>g \<in> set (kv_cache_groups config). spec_ok (kv_cache_spec g))
     \<and> ((\<exists>g \<in> set (kv_cache_groups config). \<exists>ms. kv_cache_spec g = MambaSpec ms) \<longrightarrow> dcp * pcp = 1)"

lemma init_kv_manager_inv:
  assumes i: "init_kv_manager config max_len hbs caching eagle stats events dcp pcp = Inr k" and c: "config_ok config dcp pcp"
  shows "kvm_inv k k (map Blk [1 ..< nat (num_blocks config)])" "all_managers empty_manager (coord k)"
    "num_gpu_blocks (coord_pool (coord k)) = num_blocks config" "hash_of (coord_pool (coord k)) = (\<lambda>_. None)"
    "enable_caching (coord_pool (coord k)) = caching" "kvm_enable_caching k = caching"
    "length (coord_managers (coord k)) = length (kv_cache_groups config)" "kvm_max_model_len k = max_len"
    "\<forall>j < length (kv_cache_groups config). kv_cache_group_id (coord_managers (coord k) ! j) = int j
         \<and> mgr_spec (coord_managers (coord k) ! j) = kv_cache_spec (kv_cache_groups config ! j)
         \<and> block_size (coord_managers (coord k) ! j) = spec_block_size (kv_cache_spec (kv_cache_groups config ! j)) * (dcp * pcp)"
    "hash_block_size (coord_pool (coord k)) = hbs"
proof -
  obtain c where k: "get_kv_cache_coordinator config eagle caching events dcp pcp hbs = Inr c"
    "k = \<lparr>kvm_max_model_len = max_len, kvm_enable_caching = caching, log_stats = stats,
            prefix_cache_stats = (if stats then Some new_stats else None),
            num_kv_cache_groups = length (kv_cache_groups config), coord = c\<rparr>"
    using i by (auto simp: init_kv_manager_def ebind_eq_Inr)
  note ok = get_kv_cache_coordinator_ok [OF k(1)]
  show "kvm_inv k k (map Blk [1 ..< nat (num_blocks config)])" "all_managers empty_manager (coord k)"
    "num_gpu_blocks (coord_pool (coord k)) = num_blocks config" "hash_of (coord_pool (coord k)) = (\<lambda>_. None)"
    "enable_caching (coord_pool (coord k)) = caching" "kvm_enable_caching k = caching"
    "length (coord_managers (coord k)) = length (kv_cache_groups config)" "kvm_max_model_len k = max_len"
    "\<forall>j < length (kv_cache_groups config). kv_cache_group_id (coord_managers (coord k) ! j) = int j
         \<and> mgr_spec (coord_managers (coord k) ! j) = kv_cache_spec (kv_cache_groups config ! j)
         \<and> block_size (coord_managers (coord k) ! j) = spec_block_size (kv_cache_spec (kv_cache_groups config ! j)) * (dcp * pcp)"
    "hash_block_size (coord_pool (coord k)) = hbs"
    using ok c k(2) by (simp_all add: config_ok_def kvm_inv_def kvm_ok_def stats_ready_def)
qed

lemma kv_reachable_from_init:
  assumes i: "init_kv_manager config max_len hbs caching eagle stats events dcp pcp = Inr k0" and c: "config_ok config dcp pcp"
    and r: "rtranclp (kv_step env) k0 k"
  obtains xs where "kvm_ok k xs" "num_gpu_blocks (coord_pool (coord k)) = num_blocks config"
    "enable_caching (coord_pool (coord k)) = caching" "kvm_enable_caching k = caching" "stats_ready k"
proof -
  note k0 = init_kv_manager_inv [OF i c]
  obtain xs where "kvm_inv k0 k xs" using kv_reachable_inv [OF r] k0(1) by (auto simp: kvm_inv_def)
  with k0 show ?thesis by (intro that [of xs]) (auto simp: kvm_inv_def dest: staticD)
qed

subsection \<open>What well-formedness means for the blocks\<close>

lemma ms_count_zero_iff: 
  assumes "kv_ok p xs ms"
  shows "ms_count ms i = 0 \<longleftrightarrow> (\<forall>m \<in> set ms. \<forall>r. Blk i \<notin> set (table m r))"
proof -
  have "mgr_count m i = 0 \<longleftrightarrow> (\<forall>r. Blk i \<notin> set (table m r))" if m: "m \<in> set ms" for m
  proof
    show "\<forall>r. Blk i \<notin> set (table m r)" if "mgr_count m i = 0" using mgr_count_table that by (metis less_irrefl)
    assume e: "\<forall>r. Blk i \<notin> set (table m r)"
    have d: "distinct (map fst (req_to_blocks m))" using assms m by (auto simp: kv_ok_def mgr_fits_def mgr_wf_def)
    have "count_list (snd x) (Blk i) = 0" if x: "x \<in> set (req_to_blocks m)" for x
    proof -
      have "map_of (req_to_blocks m) (fst x) = Some (snd x)" using d x by simp
      then have "table m (fst x) = snd x" by (simp add: table_def)
      then show ?thesis using e count_list_0_iff by metis
    qed
    then show "mgr_count m i = 0" by (auto simp: mgr_count_def entry_count_def sum_list_eq_0_iff)
  qed
  then show ?thesis by (auto simp: ms_count_def)
qed

text \<open>A block is free exactly when no request holds it.\<close>

lemma free_iff_unused:
  assumes k: "kvm_ok k xs"
  shows "get_all_free_blocks (coord_pool (coord k)) = Some (Inr xs)" "distinct xs"
    "get_num_free_blocks (coord_pool (coord k)) = int (length xs)"
    "set xs = Blk ` {i. 0 < i \<and> int i < num_gpu_blocks (coord_pool (coord k))
        \<and> (\<forall>m \<in> set (coord_managers (coord k)). \<forall>r. Blk i \<notin> set (table m r))}"
proof -
  let ?p = "coord_pool (coord k)"
  have ok: "kv_ok ?p xs (coord_managers (coord k))" using k by (simp add: kvm_ok_def coord_ok_def)
  then have inv: "pool_inv ?p xs" by (simp add: kv_ok_def)
  show "get_all_free_blocks ?p = Some (Inr xs)" using inv by (intro get_all_free_blocks_rep) (simp add: pool_core_def)
  show "distinct xs" by (rule pool_core_distinct [OF inv])
  show "get_num_free_blocks ?p = int (length xs)" by (rule pool_core_num_free [OF inv])
  have n: "i < nblocks ?p \<longleftrightarrow> int i < num_gpu_blocks ?p" for i using pool_coreD(1) [OF inv] by (auto simp: nblocks_def)
  have "{i. 0 < i \<and> i < nblocks ?p \<and> refs ?p i = 0} = {i. 0 < i \<and> int i < num_gpu_blocks ?p
        \<and> (\<forall>m \<in> set (coord_managers (coord k)). \<forall>r. Blk i \<notin> set (table m r))}"
    using ok ms_count_zero_iff [OF ok] by (auto simp: kv_ok_def n)
  then show "set xs = Blk ` {i. 0 < i \<and> int i < num_gpu_blocks ?p
        \<and> (\<forall>m \<in> set (coord_managers (coord k)). \<forall>r. Blk i \<notin> set (table m r))}"
    using pool_coreD(9) [OF inv] by simp
qed

lemma exclusive_tail:
  assumes k: "kvm_ok k xs" and c: "enable_caching (coord_pool (coord k))" and j: "j < length (coord_managers (coord k))" "0 < i"
    and t: "Blk i \<in> set (drop (nat (num_cached (coord_managers (coord k) ! j) r)) (table (coord_managers (coord k) ! j) r))"
    and o: "l < length (coord_managers (coord k))" "Blk i \<in> set (table (coord_managers (coord k) ! l) s)"
  shows "l = j \<and> s = r" "hash_of (coord_pool (coord k)) i = None" "count_list (table (coord_managers (coord k) ! j) r) (Blk i) = 1"
proof -
  let ?p = "coord_pool (coord k)" and ?ms = "coord_managers (coord k)"
  have ok: "kv_ok ?p xs ?ms" using k by (simp add: kvm_ok_def coord_ok_def)
  have f: "mgr_fits ?p (?ms ! j)" using ok j(1) by (simp add: kv_ok_def)
  have h: "hash_of ?p i = None \<and> refs ?p i = 1" using f c t j(2) by (auto simp: mgr_fits_def mgr_tails_def tail_ok_def)
  then show "hash_of ?p i = None" by simp
  have m: "Blk i \<in> set (table (?ms ! j) r)" using t by (auto dest: in_set_dropD)
  have "i < nblocks ?p" using mgr_wf_table [of "nblocks ?p" "?ms ! j" r] f m by (auto simp: mgr_fits_def table_ok_def)
  then have one: "ms_count ?ms i = 1" using ok h j(2) by (simp add: kv_ok_def)
  have d: "distinct (map fst (req_to_blocks (?ms ! j)))" using f by (simp add: mgr_fits_def mgr_wf_def)
  have split: "mgr_count (?ms ! j) i = count_list (table (?ms ! j) r) (Blk i) + rest_count (?ms ! j) r i"
    using mgr_count_split [OF d, of i r] by (simp only: add.commute)
  have pos: "0 < count_list (table (?ms ! j) r) (Blk i)" using m count_list_0_iff by (metis gr0I)
  have sum: "ms_count ?ms i = mgr_count (?ms ! j) i + ms_count (take j ?ms @ drop (Suc j) ?ms) i"
    using id_take_nth_drop [OF j(1)] by (metis (no_types, lifting) ms_count_simps(2,3) add.left_commute)
  show "count_list (table (?ms ! j) r) (Blk i) = 1" using one split sum pos by linarith
  have "l = j"
  proof (rule ccontr)
    assume "l \<noteq> j"
    then have "?ms ! l \<in> set (take j ?ms @ drop (Suc j) ?ms)"
      using o(1) by (cases "l < j") (force simp: in_set_conv_nth intro: exI [of _ "l - Suc j"])+
    then have "0 < ms_count (take j ?ms @ drop (Suc j) ?ms) i"
      using mgr_count_table [OF o(2)] unfolding ms_count_def
      by (metis (no_types, lifting) image_eqI list.set_map member_le_sum_list not_less zero_le less_le_trans)
    with one split sum pos show False by linarith
  qed
  moreover have "s = r"
  proof (rule ccontr)
    assume "s \<noteq> r"
    then have "0 < rest_count (?ms ! j) r i" using rest_count_table j(2) o(2) \<open>l = j\<close> by blast
    with one split sum pos show False by linarith
  qed
  ultimately show "l = j \<and> s = r" by simp
qed

subsection \<open>A small configuration\<close>

text \<open>Four blocks of four tokens and one group of full attention.\<close>

abbreviation example_config :: kv_cache_config where
  "example_config \<equiv> \<lparr>num_blocks = 4, kv_cache_groups = [\<lparr>layer_names = [''l''], kv_cache_spec = example_full\<rparr>]\<rparr>"

lemma example_config_ok: "config_ok example_config 1 1"
  by (simp add: config_ok_def spec_ok_def)

lemma example_kv_manager:
  obtains k m where "init_kv_manager example_config 64 4 True False False False 1 1 = Inr k"
    "coord_managers (coord k) = [m]" "empty_manager m" "kv_cache_group_id m = 0" "block_size m = 4"
    "mgr_spec m = example_full" "kvm_max_model_len k = 64" "kvm_ok k [Blk 1, Blk 2, Blk 3]" "stats_ready k"
    "enable_caching (coord_pool (coord k))" "hash_block_size (coord_pool (coord k)) = 4" "kvm_enable_caching k"
    "num_kv_cache_groups k = 1"
proof -
  have "\<exists>k. init_kv_manager example_config 64 4 True False False False 1 1 = Inr k"
    by (rule example_manager [of example_full], simp)
      (auto simp: init_kv_manager_def get_kv_cache_coordinator_def init_unitary_def init_coordinator_def
        Let_def py_index_nonneg eassert_def)
  then obtain k where i: "init_kv_manager example_config 64 4 True False False False 1 1 = Inr k" by blast
  note k = init_kv_manager_inv [OF i example_config_ok]
  have e: "map Blk [1 ..< nat 4] = [Blk 1, Blk 2, Blk 3]" by (simp add: upt_rec)
  obtain m where m: "coord_managers (coord k) = [m]" using k(7) by (auto simp: length_Suc_conv)
  show thesis
    by (rule that [OF i m]) (use k m e in \<open>auto simp: kvm_inv_def kvm_ok_def all_managers_def\<close>)
qed

text \<open>A prompt of six tokens with one full block takes two blocks, of which one is cached at once.\<close>

abbreviation hashed_request :: "request" where
  "hashed_request \<equiv> example_request\<lparr>block_hashes := [[7]]\<rparr>"

lemma example_slots_ok:
  assumes "coord_managers (coord k) = [m]" "empty_manager m" "kv_cache_group_id m = 0" "block_size m = 4"
    "kvm_max_model_len k = 64" "enable_caching (coord_pool (coord k))" "hash_block_size (coord_pool (coord k)) = 4"
    "num_kv_cache_groups k = 1"
  shows "slots_ok hashed_request 6 0 None 1 0 False k"
  using assms by (simp add: slots_ok_def Let_def given_hits_def no_hits_def more_ask_def all_managers_def
        hashes_ready_def hash_size_ok_def example_request_eq num_tokens_def)

lemma example_slots_run:
  "(case init_kv_manager example_config 64 4 True False False False 1 1 of Inl _ \<Rightarrow> False | Inr k \<Rightarrow>
     (case allocate_slots example_env hashed_request 6 0 None 1 0 False 0 k of
        Inr (Some bs, k') \<Rightarrow> bs = KVBlocks [[Blk 1, Blk 2]]
          \<and> map (\<lambda>m. (req_to_blocks m, num_cached m ''r'')) (coord_managers (coord k')) = [([(''r'', [Blk 1, Blk 2])], 1)]
      | _ \<Rightarrow> False))"
  by code_simp

lemma example_allocated:
  obtains k k' m' where "init_kv_manager example_config 64 4 True False False False 1 1 = Inr k"
    "slots_ok hashed_request 6 0 None 1 0 False k"
    "allocate_slots example_env hashed_request 6 0 None 1 0 False 0 k = Inr (Some (KVBlocks [[Blk 1, Blk 2]]), k')"
    "kv_step example_env k k'" "coord_managers (coord k') = [m']" "table m' = (\<lambda>_. [])(''r'' := [Blk 1, Blk 2])" "num_cached m' ''r'' = 1"
proof (rule example_kv_manager)
  fix k m assume k: "init_kv_manager example_config 64 4 True False False False 1 1 = Inr k"
    "coord_managers (coord k) = [m]" "empty_manager m" "kv_cache_group_id m = 0" "block_size m = 4"
    "kvm_max_model_len k = 64" "enable_caching (coord_pool (coord k))"
    "hash_block_size (coord_pool (coord k)) = 4" "num_kv_cache_groups k = 1"
  note s = example_slots_ok [OF k(2-9)]
  obtain k' m' where a: "allocate_slots example_env hashed_request 6 0 None 1 0 False 0 k = Inr (Some (KVBlocks [[Blk 1, Blk 2]]), k')"
    "coord_managers (coord k') = [m']" "req_to_blocks m' = [(''r'', [Blk 1, Blk 2])]" "num_cached m' ''r'' = 1"
    using example_slots_run k(1) by (auto split: sum.splits prod.splits option.splits)
  have t: "table m' = (\<lambda>_. [])(''r'' := [Blk 1, Blk 2])" using a(3) by (auto simp: table_def fun_eq_iff)
  show thesis by (rule that [OF k(1) s a(1) kv_step.allocate [OF s a(1)] a(2) t a(4)])
qed

end
