(* ===== verification/Hybrid_Search.thy ===== *)
theory Hybrid_Search
  imports Slot_Allocation
begin

text \<open>
  The prefix-cache search of \<open>HybridKVCacheCoordinator\<close>: a loop over attention groups, each of which
  can only lower the hit length, until all agree.  First what one group's search returns, then one pass
  over the groups, the loop with its fuel, and the grouping of the cache groups at construction.
\<close>

subsection \<open>What a group of the result looks like\<close>

text \<open>The first block that the layers of a group still read when \<open>L\<close> blocks are computed.\<close>

definition first_needed :: "layer_spec \<Rightarrow> nat \<Rightarrow> nat" where
  "first_needed spec L = (case spec of
     SlidingWindowSpec a w \<Rightarrow> L - nat (cdiv (w - 1) (at_block_size a))
   | ChunkedLocalAttentionSpec a ch \<Rightarrow> nat (chunk_start_block ch (at_block_size a) (int L * at_block_size a))
   | MambaSpec ms \<Rightarrow> L - 1
   | _ \<Rightarrow> 0)"

text \<open>\<open>L\<close> blocks, of which only those no layer reads any more may be null; the others hold the hash.\<close>

definition usable :: "block_pool \<Rightarrow> block_hash_list \<Rightarrow> layer_spec \<Rightarrow> nat \<Rightarrow> int \<Rightarrow> bref list \<Rightarrow> bool" where
  "usable p hl spec L g bs \<longleftrightarrow> length bs = L
     \<and> (\<forall>k < L. (k < first_needed spec L \<and> bs ! k = null_block p) \<or> entry_hit p hl g k (bs ! k))"

lemma hit_lists_usable:
  assumes "hit_lists p hl gs nulls L computed" "nulls \<le> first_needed spec L"
  shows "list_all2 (usable p hl spec L) gs computed"
  using assms unfolding hit_lists_def usable_def
  by (elim list_all2_mono) (metis (full_types) less_le_trans)

lemma usable_take:
  assumes "usable p hl spec L g bs" "is_full_attention spec" "n \<le> L"
  shows "usable p hl spec n g (take n bs)"
  using assms by (cases spec) (auto simp: usable_def first_needed_def)

subsection \<open>The search of one attention group\<close>

definition search_group_ok :: "coordinator \<Rightarrow> attention_group \<Rightarrow> bool" where
  "search_group_ok c = (\<lambda>(spec, ids, cls). groups_ok ids \<and> distinct ids
     \<and> (\<forall>g \<in> set ids. g < int (length (coord_groups c)))
     \<and> 0 < spec_block_size spec \<and> spec_block_size spec mod coord_hash_block_size c = 0
     \<and> spec_block_size spec dvd coord_lcm_block_size c \<and> spec_manager_map spec = Inr cls
     \<and> (case spec of
          SlidingWindowSpec a w \<Rightarrow> coord_use_eagle c \<longrightarrow> at_block_size a = coord_lcm_block_size c
        | ChunkedLocalAttentionSpec a ch \<Rightarrow> \<not> coord_use_eagle c \<and> at_block_size a = coord_lcm_block_size c
            \<and> 0 < ch \<and> ch mod at_block_size a = 0
        | CrossAttentionSpec a \<Rightarrow> False
        | _ \<Rightarrow> True))"

lemma hashes_for_spec:
  assumes h: "0 < hb" "b mod hb = 0" "b = spec_block_size spec" "0 < b" and l: "n div hb \<le> int (length hashes)" "0 \<le> n"
  shows "\<exists>hl. hashes_for hb hashes spec = Inr hl \<and> bhl_wf hl \<and> n div b \<le> bhl_length hl \<and> 0 \<le> bhl_length hl"
proof (cases "b = hb")
  case True
  then show ?thesis using l h(3) by (simp add: hashes_for_def bhl_wf_def)
next
  case False
  obtain k where k: "b = hb * k" using h(2) by (metis mod_eq_0_iff_dvd dvdE)
  have k0: "0 < k" using k h(1,4) by (simp add: zero_less_mult_iff)
  have "n div b = n div hb div k" using k h(1) k0 by (simp add: zdiv_zmult2_eq)
  also have "\<dots> \<le> int (length hashes) div k" by (rule zdiv_mono1 [OF l(1) k0])
  finally show ?thesis
    using False h k k0 by (auto simp: hashes_for_def block_hash_list_with_block_size_def eassert_def bhl_wf_def pos_imp_zdiv_nonneg_iff)
qed

lemma le_nat_div:
  assumes "0 < b" "0 \<le> n" "L \<le> nat (n div b)"
  shows "int L * b \<le> (n :: int)"
proof -
  have "int L * b \<le> n div b * b" using assms by (intro mult_right_mono) (simp_all add: le_nat_iff pos_imp_zdiv_nonneg_iff)
  also have "\<dots> \<le> n" using div_mult_mod_eq [of n b] pos_mod_sign [OF assms(1), of n] by linarith
  finally show ?thesis .
qed

lemma aligned_dvd: "aligned b a L \<Longrightarrow> b dvd a \<Longrightarrow> a dvd int L * b"
  by (auto simp: aligned_def mod_eq_0_iff_dvd)

text \<open>The result is aligned for all groups, within the length asked for, and usable.\<close>

lemma group_search:
  assumes ok: "search_group_ok c (spec, ids, cls)" and ix: "index_inv (coord_pool c)"
    and hb: "0 < coord_hash_block_size c" and lcm: "0 < coord_lcm_block_size c"
    and n: "0 \<le> n" "n div coord_hash_block_size c \<le> int (length hashes)"
  shows "\<exists>hl L hits. hashes_for (coord_hash_block_size c) hashes spec = Inr hl
    \<and> cls_find_longest_cache_hit cls (coord_pool c) hl n ids spec (coord_use_eagle c) (coord_lcm_block_size c) 1 1 = Inr hits
    \<and> int L * spec_block_size spec \<le> n \<and> coord_lcm_block_size c dvd int L * spec_block_size spec
    \<and> list_all2 (usable (coord_pool c) hl spec L) ids hits"
proof -
  let ?b = "spec_block_size spec" and ?p = "coord_pool c" and ?al = "coord_lcm_block_size c" and ?e = "coord_use_eagle c"
  have g: "groups_ok ids" and b: "0 < ?b" "?b mod coord_hash_block_size c = 0" and bl: "?b dvd ?al"
    and cls: "spec_manager_map spec = Inr cls" and al: "?al \<noteq> 0" using ok lcm by (auto simp: search_group_ok_def)
  obtain hl where hl: "hashes_for (coord_hash_block_size c) hashes spec = Inr hl" "bhl_wf hl" "n div ?b \<le> bhl_length hl"
    "0 \<le> bhl_length hl" using hashes_for_spec [OF hb b(2) refl b(1) n(2,1)] by blast
  have full: ?thesis if f: "is_full_attention spec" "cls_find_longest_cache_hit cls = full_find_longest_cache_hit"
  proof -
    have bs: "0 < (if (1 :: int) * 1 > 1 then ?b * (1 * 1) else ?b)" using b(1) by simp
    from full_find_spec [OF ix g hl(2) f(1) n(1) hl(4) al bs, of ?e] obtain k L hits where
      h: "full_find_longest_cache_hit ?p hl n ids spec ?e ?al 1 1 = Inr hits" "hit_lists ?p hl ids 0 L hits"
      "greatest_hit (prefix_hit ?p hl ids) (nat (min (n div ?b) (bhl_length hl))) k"
      "greatest_hit (aligned ?b ?al) (eagle_drop ?e k) L" by auto
    have "L \<le> nat (n div ?b)" using h(3,4) by (auto simp: greatest_hit_def eagle_drop_def split: if_splits)
    moreover have "aligned ?b ?al L" using h(4) by (simp add: greatest_hit_def)
    ultimately show ?thesis
      using hl(1) h(1) f(2) le_nat_div [OF b(1) n(1)] aligned_dvd [OF _ bl] hit_lists_usable [OF h(2)] by fastforce
  qed
  show ?thesis
  proof (cases spec)
    case (SlidingWindowSpec a w)
    let ?need = "window_need w (at_block_size a) ?e" and ?m = "nat (n div at_block_size a)"
    have e: "?e \<longrightarrow> at_block_size a = ?al" using ok SlidingWindowSpec by (simp add: search_group_ok_def)
    obtain L hits where h: "sliding_find_longest_cache_hit ?p hl n ids (SlidingWindowSpec a w) ?e ?al 1 1 = Inr hits"
      "hit_lists ?p hl ids (L - ?need) (eagle_drop ?e L) hits" "greatest_hit (window_hit ?p hl ids (at_block_size a) ?al ?need) ?m L"
      using sliding_find_spec [OF ix g hl(2) _ al, of a n ?e w] b(1) hl(3,4) e SlidingWindowSpec by auto
    have w: "L \<le> ?m" "aligned (at_block_size a) ?al L" using h(3) by (auto simp: greatest_hit_def window_hit_def)
    let ?L = "eagle_drop ?e L"
    have "L - ?need \<le> first_needed spec ?L"
      using SlidingWindowSpec by (auto simp: first_needed_def window_need_def eagle_drop_def Let_def)
    moreover have "aligned (at_block_size a) ?al ?L" using w(2) e by (auto simp: eagle_drop_def aligned_def)
    moreover have "?L \<le> ?m" using w(1) by (auto simp: eagle_drop_def)
    ultimately show ?thesis
      using hl(1) h(1) cls SlidingWindowSpec le_nat_div [of ?b n ?L] aligned_dvd [of ?b ?al ?L] b(1) bl n(1) hit_lists_usable [OF h(2)]
      by (fastforce simp: cls_find_longest_cache_hit_def)
  next
    case (ChunkedLocalAttentionSpec a ch)
    let ?bs = "at_block_size a"
    have cs: "\<not> ?e" "?bs = ?al" "0 < ch" "ch mod ?bs = 0" "0 < ?bs" using ok ChunkedLocalAttentionSpec b by (auto simp: search_group_ok_def)
    let ?s = "nat (chunk_start_block ch ?bs n)"
    obtain L hits where h: "chunked_find_longest_cache_hit ?p hl n ids spec False ?bs 1 1 = Inr hits"
      "hit_lists ?p hl ids ?s L hits" "greatest_hit (range_hit ?p hl ids ?s) (nat (n div ?bs)) L"
      using chunked_find_spec [OF ix g hl(2) cs(5,3) n(1)] hl(3) ChunkedLocalAttentionSpec by auto
    have L: "L \<le> nat (n div ?bs)" "?s \<le> L" using h(3) by (auto simp: greatest_hit_def range_hit_def)
    have "chunk_start_block ch ?bs n \<le> chunk_start_block ch ?bs (int L * ?bs)"
    proof (cases "0 < n")
      case True
      let ?k = "n div ch"
      obtain q where q: "ch = ?bs * q" using cs(4) by auto
      have s: "chunk_start_block ch ?bs n = ?k * q" using True cs(5) by (simp add: chunk_start_block_def) (metis q mult.assoc mult.commute nonzero_mult_div_cancel_left less_irrefl)
      have k: "0 \<le> ?k" using True cs(3) by (simp add: pos_imp_zdiv_nonneg_iff)
      have q0: "0 < q" using q cs(3,5) by (simp add: zero_less_mult_iff)
      have "?k * q \<le> int L" using L(2) s k q0 by (simp add: nat_le_iff)
      then have "?k * ch \<le> int L * ?bs" using cs(5) unfolding q by (metis mult.assoc mult.commute mult_right_mono less_imp_le)
      then have le: "?k \<le> int L * ?bs div ch" using cs(3) by (metis zdiv_mono1 nonzero_mult_div_cancel_right less_irrefl)
      have "chunk_start_block ch ?bs (int L * ?bs) = int L * ?bs div ch * q"
      proof (cases "0 < int L * ?bs")
        case True
        then show ?thesis using cs(5) by (simp add: chunk_start_block_def) (metis q mult.assoc mult.commute nonzero_mult_div_cancel_left less_irrefl)
      next
        case False
        then have "int L * ?bs = 0" using cs(5) by (simp add: not_less mult_le_0_iff)
        then show ?thesis by (auto simp: chunk_start_block_def)
      qed
      then show ?thesis using s le q0 by simp
    next
      case False
      then show ?thesis using cs(3,5) by (simp add: chunk_start_block_def pos_imp_zdiv_nonneg_iff)
    qed
    then have "?s \<le> first_needed spec L" using ChunkedLocalAttentionSpec by (simp add: first_needed_def nat_mono)
    then show ?thesis
      using hl(1) h(1) cls cs ChunkedLocalAttentionSpec le_nat_div [of ?b n L] L(1) b(1) n(1) hit_lists_usable [OF h(2)]
      by (fastforce simp: cls_find_longest_cache_hit_def)
  next
    case (MambaSpec ms)
    obtain L hits where h: "mamba_find_longest_cache_hit ?p hl n ids spec ?e ?al 1 1 = Inr hits"
      "hit_lists ?p hl ids (L - 1) L hits" "greatest_hit (state_hit ?p hl ids (mb_block_size ms) ?al) (nat (n div mb_block_size ms)) L"
      using mamba_find_spec [OF ix g hl(2) _ al, of ms n ?e] b(1) hl(3,4) MambaSpec by auto
    have L: "L \<le> nat (n div mb_block_size ms)" "aligned (mb_block_size ms) ?al L"
      using h(3) by (auto simp: greatest_hit_def state_hit_def)
    have "L - 1 \<le> first_needed spec L" using MambaSpec by (simp add: first_needed_def)
    then show ?thesis
      using hl(1) h(1) cls MambaSpec le_nat_div [of ?b n L] L aligned_dvd [of ?b ?al L] b(1) bl n(1) hit_lists_usable [OF h(2)]
      by (fastforce simp: cls_find_longest_cache_hit_def)
  qed (use full ok cls in \<open>auto simp: search_group_ok_def cls_find_longest_cache_hit_def\<close>)
qed

subsection \<open>One pass over the attention groups\<close>

text \<open>The lists found so far hold \<open>L\<close> usable blocks for every cache group of an attention group.\<close>

definition found :: "coordinator \<Rightarrow> bytes list \<Rightarrow> bref list option list \<Rightarrow> attention_group \<Rightarrow> nat \<Rightarrow> bool" where
  "found c hashes by = (\<lambda>(spec, ids, cls) L. \<exists>hl. hashes_for (coord_hash_block_size c) hashes spec = Inr hl
     \<and> (\<forall>g \<in> set ids. \<exists>bs. by ! nat g = Some bs \<and> usable (coord_pool c) hl spec L g bs))"

definition group_ids :: "attention_group \<Rightarrow> int list" where
  "group_ids ag = fst (snd ag)"

definition tokens_of :: "attention_group \<Rightarrow> nat \<Rightarrow> int" where
  "tokens_of ag L = int L * spec_block_size (fst ag)"

lemma found_same:
  assumes "found c hashes by ag L" "\<forall>g \<in> set (group_ids ag). by' ! nat g = by ! nat g"
  shows "found c hashes by' ag L"
  using assms by (cases ag) (auto simp: found_def group_ids_def)

lemma store_hits_spec:
  assumes "length ids = length hits" "distinct ids" "\<forall>g \<in> set ids. 0 \<le> g \<and> g < int (length by)"
  shows "\<exists>by'. store_hits (zip ids hits) by = Inr by' \<and> length by' = length by
    \<and> (\<forall>k < length ids. by' ! nat (ids ! k) = Some (hits ! k)) \<and> (\<forall>i. i \<notin> nat ` set ids \<longrightarrow> by' ! i = by ! i)"
  using assms
proof (induction ids arbitrary: hits "by")
  case (Cons g ids)
  obtain h hs where hs: "hits = h # hs" using Cons.prems(1) by (cases hits) auto
  let ?b1 = "by[nat g := Some h]"
  have g: "0 \<le> g" "g < int (length by)" using Cons.prems(3) by simp_all
  obtain by' where b: "store_hits (zip ids hs) ?b1 = Inr by'" "length by' = length by"
    "\<forall>k < length ids. by' ! nat (ids ! k) = Some (hs ! k)" "\<forall>i. i \<notin> nat ` set ids \<longrightarrow> by' ! i = ?b1 ! i"
    using Cons.IH [of hs ?b1] Cons.prems hs by auto
  have "nat g \<notin> nat ` set ids"
    using Cons.prems(2,3) by (auto simp: image_iff) (metis nat_eq_iff2 nat_0_le)
  then have "by' ! nat g = Some h" using b(4) g by (simp add: nat_less_iff)
  then have "\<forall>k < length (g # ids). by' ! nat ((g # ids) ! k) = Some (hits ! k)"
    using b(3) hs by (auto simp: nth_Cons split: nat.splits)
  moreover have "\<forall>i. i \<notin> nat ` set (g # ids) \<longrightarrow> by' ! i = by ! i" using b(4) by auto
  moreover have "py_set by g (Some h) = Inr ?b1" using g by (simp add: py_set_def Let_def)
  ultimately show ?case using b(1,2) hs by auto
qed simp

text \<open>What a pass needs: well-formed groups with disjoint members, and full groups that were found are long enough.\<close>

definition pass_ok :: "coordinator \<Rightarrow> bytes list \<Rightarrow> attention_group list \<Rightarrow> int \<Rightarrow> bref list option list \<Rightarrow> bool" where
  "pass_ok c hashes groups cur by \<longleftrightarrow> (\<forall>ag \<in> set groups. search_group_ok c ag)
     \<and> distinct (concat (map group_ids groups))
     \<and> length by = length (coord_groups c) \<and> 0 \<le> cur \<and> cur div coord_hash_block_size c \<le> int (length hashes)
     \<and> (\<forall>ag \<in> set groups. is_full_attention (fst ag) \<and> by ! nat (hd (group_ids ag)) \<noteq> None
          \<longrightarrow> (\<exists>L. found c hashes by ag L \<and> cur \<le> tokens_of ag L))"

lemma search_group_ids:
  assumes "search_group_ok c ag" "length by = length (coord_groups c)"
  shows "distinct (group_ids ag)" "\<forall>g \<in> set (group_ids ag). 0 \<le> g \<and> g < int (length by)" "group_ids ag \<noteq> []"
    "0 < spec_block_size (fst ag)"
  using assms by (cases ag; auto simp: search_group_ok_def groups_ok_def group_ids_def)+

lemma hybrid_pass_spec:
  assumes ix: "index_inv (coord_pool c)" and hb: "0 < coord_hash_block_size c" and lcm: "0 < coord_lcm_block_size c"
    and ok: "pass_ok c hashes groups cur by"
  shows "\<exists>cur' by'. hybrid_pass c hashes groups cur by = Inr (cur', by') \<and> 0 \<le> cur' \<and> cur' \<le> cur
    \<and> length by' = length by \<and> (\<forall>i. i \<notin> nat ` set (concat (map group_ids groups)) \<longrightarrow> by' ! i = by ! i)
    \<and> (\<forall>ag \<in> set groups. \<exists>L. found c hashes by' ag L \<and> cur' \<le> tokens_of ag L
         \<and> (\<not> is_full_attention (fst ag) \<longrightarrow> tokens_of ag L \<le> cur)
         \<and> (cur' = cur \<longrightarrow> spec_block_size (fst ag) dvd cur))
    \<and> (groups \<noteq> [] \<and> \<not> is_full_attention (fst (last groups)) \<longrightarrow>
         (\<exists>L. found c hashes by' (last groups) L \<and> tokens_of (last groups) L = cur' \<and> coord_lcm_block_size c dvd cur'))"
  using ok
proof (induction groups arbitrary: cur "by")
  case Nil
  then show ?case by (simp add: pass_ok_def)
next
  case (Cons ag groups)
  obtain spec ids cls where ag: "ag = (spec, ids, cls)" by (cases ag)
  let ?b = "spec_block_size spec" and ?by = "by"
  have gok: "search_group_ok c ag" and dis: "distinct (concat (map group_ids (ag # groups)))"
    and lb: "length by = length (coord_groups c)" and cur: "0 \<le> cur" "cur div coord_hash_block_size c \<le> int (length hashes)"
    and full: "\<And>ag'. ag' \<in> set (ag # groups) \<Longrightarrow> is_full_attention (fst ag') \<Longrightarrow> by ! nat (hd (group_ids ag')) \<noteq> None
          \<Longrightarrow> \<exists>L. found c hashes by ag' L \<and> cur \<le> tokens_of ag' L"
    using Cons.prems by (auto simp: pass_ok_def)
  note gi = search_group_ids [OF gok lb, unfolded group_ids_def ag, simplified]
  have disj: "set ids \<inter> set (group_ids ag') = {}" if "ag' \<in> set groups" for ag'
    using dis that by (auto simp: ag group_ids_def)
  have nat_disj: "nat g \<notin> nat ` set ids" if "ag' \<in> set groups" "g \<in> set (group_ids ag')" for ag' g
  proof -
    have "search_group_ok c ag'" using Cons.prems that(1) by (simp add: pass_ok_def)
    from search_group_ids(2) [OF this lb] that(2) have "0 \<le> g" by blast
    then show ?thesis using disj [OF that(1)] that(2) gi(2) by (auto simp: nat_eq_iff2 eq_nat_nat_iff)
  qed
  have i0: "py_index ids 0 = Inr (hd ids)" "py_index by (hd ids) = Inr (by ! nat (hd ids))"
    using gi(2,3) by (cases ids; simp add: py_index_nonneg nat_less_iff)+
  \<comment> \<open>the turn of the first group: the length \<open>c1\<close> and the lists \<open>b1\<close> it leaves\<close>
  have "\<exists>c1 b1 L. hybrid_pass c hashes (ag # groups) cur by = hybrid_pass c hashes groups c1 b1
    \<and> 0 \<le> c1 \<and> c1 \<le> cur \<and> length b1 = length by \<and> (\<forall>i. i \<notin> nat ` set ids \<longrightarrow> b1 ! i = by ! i)
    \<and> found c hashes b1 ag L \<and> c1 \<le> tokens_of ag L \<and> ?b dvd c1
    \<and> (\<not> is_full_attention spec \<longrightarrow> tokens_of ag L = c1 \<and> coord_lcm_block_size c dvd c1)"
  proof (cases "is_full_attention spec \<and> by ! nat (hd ids) \<noteq> None")
    case True
    then obtain L where L: "found c hashes by ag L" "cur \<le> tokens_of ag L" using full [of ag] by (auto simp: ag group_ids_def)
    have d: "cur div ?b * ?b \<le> cur" using div_mult_mod_eq [of cur ?b] pos_mod_sign [OF gi(4), of cur] by linarith
    have "0 \<le> cur div ?b * ?b" using cur(1) gi(4) by (simp add: pos_imp_zdiv_nonneg_iff)
    moreover have "hybrid_pass c hashes (ag # groups) cur by = hybrid_pass c hashes groups (cur div ?b * ?b) by"
      using True gi(4) i0 by (simp add: ag)
    ultimately show ?thesis using L d True by (intro exI [of _ "cur div ?b * ?b"] exI [of _ "by"] exI [of _ L]) auto
  next
    case False
    obtain hl L hits where s: "hashes_for (coord_hash_block_size c) hashes spec = Inr hl"
      "cls_find_longest_cache_hit cls (coord_pool c) hl cur ids spec (coord_use_eagle c) (coord_lcm_block_size c) 1 1 = Inr hits"
      "int L * ?b \<le> cur" "coord_lcm_block_size c dvd int L * ?b" "list_all2 (usable (coord_pool c) hl spec L) ids hits"
      using group_search [OF gok [unfolded ag] ix hb lcm cur] by blast
    have lh: "length ids = length hits" using s(5) by (rule list_all2_lengthD)
    obtain b1 where b1: "store_hits (zip ids hits) by = Inr b1" "length b1 = length by"
      "\<forall>k < length ids. b1 ! nat (ids ! k) = Some (hits ! k)" "\<forall>i. i \<notin> nat ` set ids \<longrightarrow> b1 ! i = by ! i"
      using store_hits_spec [OF lh gi(1,2)] by blast
    obtain h hs where hh: "hits = h # hs" using lh gi(3) by (cases hits) auto
    have hl0: "length h = L" using s(5) gi(3) by (cases ids) (auto simp: hh usable_def)
    have "hybrid_pass c hashes (ag # groups) cur by = hybrid_pass c hashes groups (int L * ?b) b1"
      using False s(1,2) b1(1) i0 hh hl0 by (auto simp: ag py_index_nonneg)
    moreover have "found c hashes b1 ag L"
      using s(1,5) b1(3) lh by (auto simp: found_def ag list_all2_conv_all_nth in_set_conv_nth)
    ultimately show ?thesis using s(3,4) b1(2,4) gi(4)
      by (intro exI [of _ "int L * ?b"] exI [of _ b1] exI [of _ L]) (auto simp: tokens_of_def ag)
  qed
  then obtain c1 b1 L where t: "hybrid_pass c hashes (ag # groups) cur by = hybrid_pass c hashes groups c1 b1"
    "0 \<le> c1" "c1 \<le> cur" "length b1 = length by" "\<forall>i. i \<notin> nat ` set ids \<longrightarrow> b1 ! i = by ! i"
    "found c hashes b1 ag L" "c1 \<le> tokens_of ag L" "?b dvd c1"
    "\<not> is_full_attention spec \<longrightarrow> tokens_of ag L = c1 \<and> coord_lcm_block_size c dvd c1" by blast
  have same: "b1 ! nat g = by ! nat g" if "ag' \<in> set groups" "g \<in> set (group_ids ag')" for ag' g
    using t(5) nat_disj [OF that] by blast
  have "pass_ok c hashes groups c1 b1"
  proof -
    have "\<exists>L. found c hashes b1 ag' L \<and> c1 \<le> tokens_of ag' L"
      if a: "ag' \<in> set groups" "is_full_attention (fst ag')" "b1 ! nat (hd (group_ids ag')) \<noteq> None" for ag'
    proof -
      have sg: "search_group_ok c ag'" using Cons.prems a(1) by (simp add: pass_ok_def)
      have "by ! nat (hd (group_ids ag')) \<noteq> None"
        using a(3) same [OF a(1)] search_group_ids(3) [OF sg lb] by simp
      then obtain L where "found c hashes by ag' L" "cur \<le> tokens_of ag' L" using full [of ag'] a by auto
      then show ?thesis using found_same [of c hashes "by" ag' L b1] same [OF a(1)] t(3) by fastforce
    qed
    moreover have "c1 div coord_hash_block_size c \<le> int (length hashes)"
      using zdiv_mono1 [OF t(3) hb] cur(2) by linarith
    ultimately show ?thesis using Cons.prems t(2,4) by (simp add: pass_ok_def)
  qed
  from Cons.IH [OF this] obtain c2 b2 where r: "hybrid_pass c hashes groups c1 b1 = Inr (c2, b2)" "0 \<le> c2" "c2 \<le> c1"
    "length b2 = length b1" "\<forall>i. i \<notin> nat ` set (concat (map group_ids groups)) \<longrightarrow> b2 ! i = b1 ! i"
    "\<forall>ag \<in> set groups. \<exists>L. found c hashes b2 ag L \<and> c2 \<le> tokens_of ag L
         \<and> (\<not> is_full_attention (fst ag) \<longrightarrow> tokens_of ag L \<le> c1) \<and> (c2 = c1 \<longrightarrow> spec_block_size (fst ag) dvd c1)"
    "groups \<noteq> [] \<and> \<not> is_full_attention (fst (last groups)) \<longrightarrow>
         (\<exists>L. found c hashes b2 (last groups) L \<and> tokens_of (last groups) L = c2 \<and> coord_lcm_block_size c dvd c2)"
    by blast
  have kept: "b2 ! nat g = b1 ! nat g" if "g \<in> set ids" for g
  proof -
    have "nat g \<notin> nat ` set (concat (map group_ids groups))"
      using nat_disj that by (auto simp: image_iff) metis
    then show ?thesis using r(5) by blast
  qed
  have f2: "found c hashes b2 ag L" using found_same [OF t(6), of b2] kept by (simp add: ag group_ids_def)
  have first: "\<exists>L. found c hashes b2 ag L \<and> c2 \<le> tokens_of ag L
         \<and> (\<not> is_full_attention (fst ag) \<longrightarrow> tokens_of ag L \<le> cur) \<and> (c2 = cur \<longrightarrow> spec_block_size (fst ag) dvd cur)"
    using f2 r(3) t(3,7,8,9) by (intro exI [of _ L]) (auto simp: ag)
  have others: "\<exists>L. found c hashes b2 ag' L \<and> c2 \<le> tokens_of ag' L
         \<and> (\<not> is_full_attention (fst ag') \<longrightarrow> tokens_of ag' L \<le> cur) \<and> (c2 = cur \<longrightarrow> spec_block_size (fst ag') dvd cur)"
    if "ag' \<in> set groups" for ag'
  proof -
    obtain L' where "found c hashes b2 ag' L'" "c2 \<le> tokens_of ag' L'"
      "\<not> is_full_attention (fst ag') \<longrightarrow> tokens_of ag' L' \<le> c1" "c2 = c1 \<longrightarrow> spec_block_size (fst ag') dvd c1"
      using r(6) \<open>ag' \<in> set groups\<close> by blast
    moreover have "c2 = cur \<longrightarrow> c1 = cur" using r(3) t(3) by linarith
    ultimately show ?thesis using order_trans [OF _ t(3), of "tokens_of ag' L'"] by metis
  qed
  have lst: "\<exists>L. found c hashes b2 (last (ag # groups)) L \<and> tokens_of (last (ag # groups)) L = c2 \<and> coord_lcm_block_size c dvd c2"
    if "\<not> is_full_attention (fst (last (ag # groups)))"
  proof (cases "groups = []")
    case True
    then show ?thesis using r(1) f2 t(9) that by (auto simp: ag)
  next
    case False
    then show ?thesis using r(7) that by simp
  qed
  have un: "\<forall>i. i \<notin> nat ` set (concat (map group_ids (ag # groups))) \<longrightarrow> b2 ! i = by ! i"
    using r(5) t(5) by (auto simp: ag group_ids_def image_Un)
  show ?case using t(1,3) r(1-4) t(4) first others lst un by (intro exI [of _ c2] exI [of _ b2]) auto
qed

subsection \<open>The loop\<close>

definition search_ok :: "coordinator \<Rightarrow> bytes list \<Rightarrow> int \<Rightarrow> bool" where
  "search_ok c hashes max_length \<longleftrightarrow> index_inv (coord_pool c) \<and> 0 < coord_hash_block_size c \<and> 0 < coord_lcm_block_size c
     \<and> coord_attention_groups c \<noteq> [] \<and> (\<forall>ag \<in> set (coord_attention_groups c). search_group_ok c ag)
     \<and> distinct (concat (map group_ids (coord_attention_groups c)))
     \<and> (\<forall>ag \<in> set (tl (coord_attention_groups c)). \<not> is_full_attention (fst ag))
     \<and> 0 \<le> max_length \<and> max_length div coord_hash_block_size c \<le> int (length hashes)"

lemma pass_ok_again:
  assumes p: "pass_ok c hashes groups cur by" and hb: "0 < coord_hash_block_size c" and c': "0 \<le> cur'" "cur' \<le> cur"
    and l: "length by' = length by" and f: "\<forall>ag \<in> set groups. \<exists>L. found c hashes by' ag L \<and> cur' \<le> tokens_of ag L"
  shows "pass_ok c hashes groups cur' by'"
proof -
  have "cur' div coord_hash_block_size c \<le> int (length hashes)"
    using zdiv_mono1 [OF c'(2) hb] p by (simp add: pass_ok_def)
  with p c' l f show ?thesis by (simp add: pass_ok_def)
qed

text \<open>
  \<open>nat hit_length + 1\<close> turns are enough, and all groups agree on the length at which the loop ends.
\<close>

lemma hybrid_loop_spec:
  assumes ok: "search_ok c hashes max_length" and p: "pass_ok c hashes (coord_attention_groups c) hit by"
    and fuel: "nat hit < fuel"
  shows "\<exists>n by'. hybrid_loop fuel c hashes (is_simple_hybrid (coord_attention_groups c)) hit by = Inr (n, by')
    \<and> 0 \<le> n \<and> n \<le> hit \<and> length by' = length by
    \<and> (\<forall>i. i \<notin> nat ` set (concat (map group_ids (coord_attention_groups c))) \<longrightarrow> by' ! i = by ! i)
    \<and> (\<forall>ag \<in> set (coord_attention_groups c). spec_block_size (fst ag) dvd n
         \<and> (\<exists>L. found c hashes by' ag L \<and> n \<le> tokens_of ag L \<and> (\<not> is_full_attention (fst ag) \<longrightarrow> tokens_of ag L = n)))"
  using p fuel
proof (induction fuel arbitrary: hit "by")
  case (Suc fuel)
  let ?gs = "coord_attention_groups c" and ?simple = "is_simple_hybrid (coord_attention_groups c)"
  have hb: "0 < coord_hash_block_size c" and lcm: "0 < coord_lcm_block_size c" and ix: "index_inv (coord_pool c)"
    and ne: "?gs \<noteq> []" and rest: "\<forall>ag \<in> set (tl ?gs). \<not> is_full_attention (fst ag)"
    and gok: "\<forall>ag \<in> set ?gs. search_group_ok c ag"
    using ok by (simp_all add: search_ok_def)
  have hit0: "0 \<le> hit" using Suc.prems(1) by (simp add: pass_ok_def)
  from hybrid_pass_spec [OF ix hb lcm Suc.prems(1)] obtain cur by' where
    h: "hybrid_pass c hashes ?gs hit by = Inr (cur, by')" "0 \<le> cur" "cur \<le> hit" "length by' = length by"
      "\<forall>i. i \<notin> nat ` set (concat (map group_ids ?gs)) \<longrightarrow> by' ! i = by ! i"
    and f: "\<forall>ag \<in> set ?gs. \<exists>L. found c hashes by' ag L \<and> cur \<le> tokens_of ag L
         \<and> (\<not> is_full_attention (fst ag) \<longrightarrow> tokens_of ag L \<le> hit) \<and> (cur = hit \<longrightarrow> spec_block_size (fst ag) dvd hit)"
    and lst: "\<not> is_full_attention (fst (last ?gs)) \<Longrightarrow>
         \<exists>L. found c hashes by' (last ?gs) L \<and> tokens_of (last ?gs) L = cur \<and> coord_lcm_block_size c dvd cur"
    using ne by blast
  consider "cur = hit" | "cur < hit" "?simple" | "cur < hit" "\<not> ?simple" using h(3) by linarith
  then show ?case
  proof cases
    case 1
    have "spec_block_size (fst ag) dvd hit
         \<and> (\<exists>L. found c hashes by' ag L \<and> hit \<le> tokens_of ag L \<and> (\<not> is_full_attention (fst ag) \<longrightarrow> tokens_of ag L = hit))"
      if "ag \<in> set ?gs" for ag using bspec [OF f that] 1 order_antisym by metis
    moreover have "hybrid_loop (Suc fuel) c hashes ?simple hit by = Inr (hit, by')" using h(1) 1 by simp
    ultimately show ?thesis using h(4,5) hit0 by (intro exI [of _ hit] exI [of _ by']) simp
  next
    case 2
    obtain a b where gs: "?gs = [a, b]" "is_full_attention (fst a)"
      using 2(2) ne by (auto simp: is_simple_hybrid_def length_Suc_conv numeral_2_eq_2)
    have nb: "\<not> is_full_attention (fst b)" using rest gs by simp
    then obtain L where L: "found c hashes by' b L" "tokens_of b L = cur" "coord_lcm_block_size c dvd cur" using lst gs by auto
    have "spec_block_size (fst ag) dvd coord_lcm_block_size c" if "ag \<in> set ?gs" for ag
      using gok that by (cases ag) (auto simp: search_group_ok_def)
    then have "\<forall>ag \<in> set ?gs. spec_block_size (fst ag) dvd cur" using L(3) dvd_trans by blast
    moreover obtain La where "found c hashes by' a La" "cur \<le> tokens_of a La" using f gs by auto
    ultimately have fin: "\<forall>ag \<in> set ?gs. spec_block_size (fst ag) dvd cur
         \<and> (\<exists>L. found c hashes by' ag L \<and> cur \<le> tokens_of ag L \<and> (\<not> is_full_attention (fst ag) \<longrightarrow> tokens_of ag L = cur))"
      using gs L(1,2) by auto
    have "hybrid_loop (Suc fuel) c hashes ?simple hit by = Inr (cur, by')" using h(1) 2 by simp
    with fin h(2,4,5) 2(1) show ?thesis by (intro exI [of _ cur] exI [of _ by']) auto
  next
    case 3
    have "\<forall>ag \<in> set ?gs. \<exists>L. found c hashes by' ag L \<and> cur \<le> tokens_of ag L" using f by blast
    note again = pass_ok_again [OF Suc.prems(1) hb h(2,3,4) this]
    have "nat cur < fuel" using Suc.prems(2) 3(1) h(2) by linarith
    from Suc.IH [OF again this] obtain n b2 where
      r: "hybrid_loop fuel c hashes ?simple cur by' = Inr (n, b2)" "0 \<le> n" "n \<le> cur" "length b2 = length by'"
      "\<forall>i. i \<notin> nat ` set (concat (map group_ids ?gs)) \<longrightarrow> b2 ! i = by' ! i"
      and g: "\<forall>ag \<in> set ?gs. spec_block_size (fst ag) dvd n
         \<and> (\<exists>L. found c hashes b2 ag L \<and> n \<le> tokens_of ag L \<and> (\<not> is_full_attention (fst ag) \<longrightarrow> tokens_of ag L = n))"
      by blast
    have "hybrid_loop (Suc fuel) c hashes ?simple hit by = Inr (n, b2)" using h(1) 3 r(1) by simp
    with r h(3-5) g show ?thesis by (intro exI [of _ n] exI [of _ b2]) auto
  qed
qed simp

subsection \<open>The whole search\<close>

lemma truncate_groups_spec:
  assumes "\<forall>g \<in> set gs. 0 \<le> g \<and> g < int (length by)" "\<forall>g \<in> set gs. by ! nat g \<noteq> None" "0 \<le> n" "distinct gs"
  shows "\<exists>by'. truncate_groups n gs by = Inr by' \<and> length by' = length by
    \<and> (\<forall>g \<in> set gs. by' ! nat g = map_option (take (nat n)) (by ! nat g)) \<and> (\<forall>i. i \<notin> nat ` set gs \<longrightarrow> by' ! i = by ! i)"
  using assms
proof (induction gs arbitrary: "by")
  case (Cons g gs)
  have g: "0 \<le> g" "g < int (length by)" "by ! nat g \<noteq> None" using Cons.prems by auto
  then obtain bs where bs: "by ! nat g = Some bs" by auto
  let ?b1 = "by[nat g := Some (take (nat n) bs)]"
  have ng: "nat g \<notin> nat ` set gs" using Cons.prems(1,4) by (auto simp: image_iff) (metis nat_eq_iff2 nat_0_le)
  then have neq: "g' \<in> set gs \<Longrightarrow> nat g \<noteq> nat g'" for g' by blast
  obtain by' where b: "truncate_groups n gs ?b1 = Inr by'" "length by' = length by"
    "\<forall>g' \<in> set gs. by' ! nat g' = map_option (take (nat n)) (?b1 ! nat g')" "\<forall>i. i \<notin> nat ` set gs \<longrightarrow> by' ! i = ?b1 ! i"
    using Cons.IH [of ?b1] Cons.prems neq by auto
  have "truncate_groups n (g # gs) by = Inr by'"
    using g bs b(1) Cons.prems(3) by (simp add: py_index_nonneg py_set_def Let_def nat_less_iff py_take_nonneg)
  moreover have "by' ! nat g = map_option (take (nat n)) (by ! nat g)" using b(4) ng g bs by (simp add: nat_less_iff)
  moreover have "\<forall>g' \<in> set gs. by' ! nat g' = map_option (take (nat n)) (by ! nat g')" using b(3) neq by simp
  moreover have "\<forall>i. i \<notin> nat ` set (g # gs) \<longrightarrow> by' ! i = by ! i" using b(4) by simp
  ultimately show ?case using b(2) by auto
qed simp

lemma hybrid_find_spec:
  assumes ok: "search_ok c hashes max_length"
  shows "\<exists>hits n. hybrid_find_longest_cache_hit c hashes max_length = Inr (hits, n) \<and> 0 \<le> n \<and> n \<le> max_length
    \<and> length hits = length (coord_groups c)
    \<and> (\<forall>(spec, ids, cls) \<in> set (coord_attention_groups c). spec_block_size spec dvd n
         \<and> (\<exists>hl. hashes_for (coord_hash_block_size c) hashes spec = Inr hl
             \<and> (\<forall>g \<in> set ids. usable (coord_pool c) hl spec (nat (n div spec_block_size spec)) g (hits ! nat g))))"
proof -
  let ?gs = "coord_attention_groups c" and ?m = "length (coord_groups c)"
  let ?none = "replicate ?m None :: bref list option list"
  obtain spec0 ids0 cls0 others where gs: "?gs = (spec0, ids0, cls0) # others"
    using ok by (cases ?gs) (auto simp: search_ok_def)
  have gok: "\<forall>ag \<in> set ?gs. search_group_ok c ag" and dis: "distinct (concat (map group_ids ?gs))"
    and rest: "\<forall>ag \<in> set others. \<not> is_full_attention (fst ag)"
    using ok gs by (simp_all add: search_ok_def)
  have lm: "length ?none = length (coord_groups c)" by simp
  have "pass_ok c hashes ?gs max_length ?none"
  proof -
    have "?none ! nat (hd (group_ids ag)) = None" if "ag \<in> set ?gs" for ag
    proof -
      have "hd (group_ids ag) \<in> set (group_ids ag)" using search_group_ids(3) [OF bspec [OF gok that] lm] by simp
      then show ?thesis using search_group_ids(2) [OF bspec [OF gok that] lm] by (simp add: nat_less_iff)
    qed
    then show ?thesis using ok by (simp add: pass_ok_def search_ok_def)
  qed
  from hybrid_loop_spec [OF ok this, of "nat max_length + 1"] obtain n "by" where
    l: "hybrid_loop (nat max_length + 1) c hashes (is_simple_hybrid ?gs) max_length ?none = Inr (n, by)" "0 \<le> n" "n \<le> max_length"
      "length by = ?m"
    and f: "\<forall>ag \<in> set ?gs. spec_block_size (fst ag) dvd n
         \<and> (\<exists>L. found c hashes by ag L \<and> n \<le> tokens_of ag L \<and> (\<not> is_full_attention (fst ag) \<longrightarrow> tokens_of ag L = n))"
    by auto
  note g0 = search_group_ids [OF bspec [OF gok] l(4), of "(spec0, ids0, cls0)", unfolded gs, simplified, unfolded group_ids_def, simplified]
  define fin where "fin = (if is_full_attention spec0 then truncate_groups (n div spec_block_size spec0) ids0 by else Inr by)"
  have goal: "\<exists>by'. fin = Inr by' \<and> length by' = ?m
    \<and> (\<forall>ag \<in> set ?gs. found c hashes by' ag (nat (n div spec_block_size (fst ag))))"
  proof -
    have exact: "found c hashes by ag (nat (n div spec_block_size (fst ag)))" if ag: "ag \<in> set ?gs" "\<not> is_full_attention (fst ag)" for ag
    proof -
      obtain L where "found c hashes by ag L" "tokens_of ag L = n" using bspec [OF f ag(1)] ag(2) by metis
      moreover have "0 < spec_block_size (fst ag)" using search_group_ids(4) [OF bspec [OF gok that(1)] l(4)] .
      ultimately show ?thesis by (auto simp: tokens_of_def)
    qed
    show ?thesis
    proof (cases "is_full_attention spec0")
      case False
      then have "found c hashes by ag (nat (n div spec_block_size (fst ag)))" if "ag \<in> set ?gs" for ag
        using exact [OF that] rest that gs by auto
      with False l(4) show ?thesis by (auto simp: fin_def)
    next
      case True
      obtain L hl where L: "n \<le> int L * spec_block_size spec0" "hashes_for (coord_hash_block_size c) hashes spec0 = Inr hl"
        "\<forall>g \<in> set ids0. \<exists>bs. by ! nat g = Some bs \<and> usable (coord_pool c) hl spec0 L g bs"
        using f gs by (auto simp: found_def tokens_of_def)
      let ?k = "n div spec_block_size spec0"
      have k: "0 \<le> ?k" using l(2) g0(4) by (simp add: pos_imp_zdiv_nonneg_iff)
      have "n div spec_block_size spec0 \<le> int L * spec_block_size spec0 div spec_block_size spec0" by (rule zdiv_mono1 [OF L(1) g0(4)])
      then have kL: "nat ?k \<le> L" using g0(4) by simp
      have "\<forall>g \<in> set ids0. by ! nat g \<noteq> None" using L(3) by fastforce
      from truncate_groups_spec [OF g0(2) this k g0(1)] obtain by' where
        t: "truncate_groups ?k ids0 by = Inr by'" "length by' = length by"
        "\<forall>g \<in> set ids0. by' ! nat g = map_option (take (nat ?k)) (by ! nat g)" "\<forall>i. i \<notin> nat ` set ids0 \<longrightarrow> by' ! i = by ! i" by blast
      have "found c hashes by' (spec0, ids0, cls0) (nat ?k)"
        using L(2,3) t(3) usable_take [OF _ True kL] by (fastforce simp: found_def)
      moreover have "found c hashes by' ag (nat (n div spec_block_size (fst ag)))" if ag: "ag \<in> set others" for ag
      proof (rule found_same)
        show "found c hashes by ag (nat (n div spec_block_size (fst ag)))" using exact [of ag] rest ag gs by simp
        have "nat g \<notin> nat ` set ids0" if "g \<in> set (group_ids ag)" for g
        proof -
          have "0 \<le> g" using search_group_ids(2) [OF bspec [OF gok] l(4), of ag] gs ag that by auto
          moreover have "g \<notin> set ids0" using dis gs ag that by (auto simp: group_ids_def)
          ultimately show ?thesis using g0(2) by (auto simp: nat_eq_iff2 eq_nat_nat_iff)
        qed
        then show "\<forall>g \<in> set (group_ids ag). by' ! nat g = by ! nat g" using t(4) by blast
      qed
      ultimately show ?thesis using t(1,2) True l(4) gs by (auto simp: fin_def)
    qed
  qed
  then obtain by' where b: "fin = Inr by'" "length by' = ?m"
    "\<forall>ag \<in> set ?gs. found c hashes by' ag (nat (n div spec_block_size (fst ag)))" by blast
  let ?hits = "map (\<lambda>b. case b of None \<Rightarrow> [] | Some bs \<Rightarrow> bs) by'"
  have "hybrid_find_longest_cache_hit c hashes max_length = Inr (?hits, n)"
  proof -
    have i: "py_index ?gs 0 = Inr (spec0, ids0, cls0)" by (simp add: gs py_index_nonneg)
    have d: "pdiv n (spec_block_size spec0) = Inr (n div spec_block_size spec0)" using g0(4) by simp
    have "(if is_full_attention spec0 then ebind (pdiv n (spec_block_size spec0)) (\<lambda>n. truncate_groups n ids0 by) else Inr by) = Inr by'"
      unfolding d using b(1) by (simp add: fin_def split: if_splits)
    then show ?thesis unfolding hybrid_find_longest_cache_hit_def Let_def l(1) i by (simp only: ebind_simps prod.case)
  qed
  moreover have "\<forall>(spec, ids, cls) \<in> set ?gs. spec_block_size spec dvd n
         \<and> (\<exists>hl. hashes_for (coord_hash_block_size c) hashes spec = Inr hl
             \<and> (\<forall>g \<in> set ids. usable (coord_pool c) hl spec (nat (n div spec_block_size spec)) g (?hits ! nat g)))"
  proof (clarify)
    fix spec ids cls assume m: "(spec, ids, cls) \<in> set ?gs"
    obtain hl where hl: "hashes_for (coord_hash_block_size c) hashes spec = Inr hl"
      "\<forall>g \<in> set ids. \<exists>bs. by' ! nat g = Some bs \<and> usable (coord_pool c) hl spec (nat (n div spec_block_size spec)) g bs"
      using b(3) m by (fastforce simp: found_def)
    have "usable (coord_pool c) hl spec (nat (n div spec_block_size spec)) g (?hits ! nat g)" if g: "g \<in> set ids" for g
    proof -
      have "nat g < length by'" using search_group_ids(2) [OF bspec [OF gok m] b(2)] g by (auto simp: group_ids_def nat_less_iff)
      then show ?thesis using hl(2) g by fastforce
    qed
    then show "spec_block_size spec dvd n \<and> (\<exists>hl. hashes_for (coord_hash_block_size c) hashes spec = Inr hl
             \<and> (\<forall>g \<in> set ids. usable (coord_pool c) hl spec (nat (n div spec_block_size spec)) g (?hits ! nat g)))"
      using hl(1) f m by fastforce
  qed
  ultimately show ?thesis using l(2,3) b(2) by (intro exI [of _ ?hits] exI [of _ n]) simp
qed

subsection \<open>Splitting the cache groups\<close>

text \<open>What a list of attention groups says of the cache groups \<open>is\<close>, with their specs and manager classes.\<close>

definition split_ok :: "(int \<Rightarrow> layer_spec) \<Rightarrow> (int \<Rightarrow> manager_class) \<Rightarrow> int set \<Rightarrow> attention_group list \<Rightarrow> bool" where
  "split_ok S C is groups \<longleftrightarrow> distinct (map fst groups) \<and> distinct (concat (map group_ids groups))
     \<and> set (concat (map group_ids groups)) = is
     \<and> (\<forall>(spec, ids, cls) \<in> set groups. ids \<noteq> [] \<and> (\<forall>g \<in> set ids. S g = spec \<and> C g = cls))"

lemma split_ok_Cons:
  "split_ok S C is ((spec, ids, cls) # groups) \<longleftrightarrow> spec \<notin> fst ` set groups \<and> ids \<noteq> [] \<and> distinct ids \<and> set ids \<subseteq> is
     \<and> (\<forall>g \<in> set ids. S g = spec \<and> C g = cls) \<and> split_ok S C (is - set ids) groups"
proof -
  let ?R = "set (concat (map group_ids groups))" and ?D = "distinct (concat (map group_ids groups))"
  let ?ag = "(spec, ids, cls)"
  have dis: "distinct (concat (map group_ids (?ag # groups))) = (distinct ids \<and> ?D \<and> set ids \<inter> ?R = {})"
    "set (concat (map group_ids (?ag # groups))) = set ids \<union> ?R" by (simp_all add: group_ids_def)
  show ?thesis
  proof
    assume s: "split_ok S C is (?ag # groups)"
    then have a: "distinct ids" "?D" "set ids \<inter> ?R = {}" "set ids \<union> ?R = is" unfolding split_ok_def dis by blast+
    then have "?R = is - set ids" "set ids \<subseteq> is" by blast+
    with a s show "spec \<notin> fst ` set groups \<and> ids \<noteq> [] \<and> distinct ids \<and> set ids \<subseteq> is
       \<and> (\<forall>g \<in> set ids. S g = spec \<and> C g = cls) \<and> split_ok S C (is - set ids) groups"
      unfolding split_ok_def by (simp del: set_concat)
  next
    assume s: "spec \<notin> fst ` set groups \<and> ids \<noteq> [] \<and> distinct ids \<and> set ids \<subseteq> is
       \<and> (\<forall>g \<in> set ids. S g = spec \<and> C g = cls) \<and> split_ok S C (is - set ids) groups"
    then have R: "?R = is - set ids" and D: "?D" by (simp_all only: split_ok_def)
    have "set ids \<inter> ?R = {}" "set ids \<union> ?R = is" using s unfolding R by blast+
    then show "split_ok S C is (?ag # groups)" using s D unfolding split_ok_def dis by simp
  qed
qed

lemma add_to_groups_spec:
  assumes "add_to_groups (S i) i (C i) groups = Inr groups'" "split_ok S C is groups" "i \<notin> is"
  shows "split_ok S C (insert i is) groups' \<and> fst ` set groups' = insert (S i) (fst ` set groups)"
  using assms
proof (induction groups arbitrary: groups' "is")
  case Nil
  then show ?case by (auto simp: split_ok_def group_ids_def)
next
  case (Cons ag groups)
  obtain spec ids cls where ag: "ag = (spec, ids, cls)" by (cases ag)
  note ok = Cons.prems(2) [unfolded ag split_ok_Cons]
  show ?case
  proof (cases "spec = S i")
    case True
    then have "C i = cls" "groups' = (spec, ids @ [i], cls) # groups" using Cons.prems(1) by (auto simp: ag ebind_eq_Inr eassert_def split: if_splits)
    moreover have "insert i is - set (ids @ [i]) = is - set ids" using Cons.prems(3) by auto
    ultimately show ?thesis using True ok Cons.prems(3) by (auto simp: split_ok_Cons ag)
  next
    case False
    then obtain g2 where g2: "add_to_groups (S i) i (C i) groups = Inr g2" "groups' = (spec, ids, cls) # g2"
      using Cons.prems(1) by (auto simp: ag ebind_eq_Inr)
    have "i \<notin> is - set ids" using Cons.prems(3) by simp
    from Cons.IH [OF g2(1) _ this] ok have r: "split_ok S C (insert i (is - set ids)) g2" "fst ` set g2 = insert (S i) (fst ` set groups)" by auto
    have "insert i (is - set ids) = insert i is - set ids" using ok Cons.prems(3) by auto
    then show ?thesis using r g2(2) ok False by (auto simp: split_ok_Cons ag)
  qed
qed

lemma split_groups_spec:
  assumes "split_groups gms (int i) groups = Inr groups'" "split_ok S C (int ` {..<i}) groups"
    and "\<forall>k < length gms. S (int (i + k)) = kv_cache_spec (fst (gms ! k)) \<and> C (int (i + k)) = mgr_class (snd (gms ! k))"
  shows "split_ok S C (int ` {..<i + length gms}) groups'"
  using assms
proof (induction gms arbitrary: i groups)
  case (Cons gm gms)
  obtain g m where gm: "gm = (g, m)" by (cases gm)
  have sc: "S (int i) = kv_cache_spec g" "C (int i) = mgr_class m" using Cons.prems(3) gm by auto
  then obtain g1 where g1: "add_to_groups (S (int i)) (int i) (C (int i)) groups = Inr g1" "split_groups gms (int (Suc i)) g1 = Inr groups'"
    using Cons.prems(1) by (auto simp: gm ebind_eq_Inr add.commute)
  have "insert (int i) (int ` {..<i}) = int ` {..<Suc i}" by (auto simp: lessThan_Suc)
  then have "split_ok S C (int ` {..<Suc i}) g1"
    using add_to_groups_spec [OF g1(1) Cons.prems(2)] by (metis imageE lessThan_iff less_irrefl of_nat_eq_iff)
  from Cons.IH [OF g1(2) this] Cons.prems(3) show ?case by fastforce
qed simp

lemma distinct_concat_filter:
  assumes "distinct (concat (map f xs))"
  shows "distinct (concat (map f (filter P xs @ filter (\<lambda>x. \<not> P x) xs)))"
  using assms by (induction xs) auto

lemma split_ok_sorted:
  assumes "split_ok S C is groups"
  shows "split_ok S C is (filter P groups @ filter (\<lambda>x. \<not> P x) groups)"
proof -
  have s: "set (filter P groups @ filter (\<lambda>x. \<not> P x) groups) = set groups" by auto
  have c: "set (concat (map group_ids gs)) = (\<Union>ag \<in> set gs. set (group_ids ag))" for gs by simp
  have "distinct (map fst (filter P groups @ filter (\<lambda>x. \<not> P x) groups))"
    using assms by (auto simp: split_ok_def distinct_map inj_on_def)
  with assms distinct_concat_filter [of group_ids groups P] show ?thesis
    unfolding split_ok_def c s by blast
qed

lemma init_manager_class:
  assumes "init_manager spec p caching g dcp pcp = Inr (m, p')"
  shows "spec_manager_map spec = Inr (mgr_class m)"
proof -
  obtain cls where "spec_manager_map spec = Inr cls" using assms by (auto simp: init_manager_def ebind_eq_Inr)
  with assms show ?thesis
    by (cases spec) (auto simp: init_manager_def Let_def ebind_eq_Inr split: option.splits if_splits)
qed

lemma init_managers_class:
  "init_managers gs i caching dcp pcp p = Inr (ms, p') \<Longrightarrow> length ms = length gs
    \<and> (\<forall>k < length gs. spec_manager_map (kv_cache_spec (gs ! k)) = Inr (mgr_class (ms ! k)))"
proof (induction gs arbitrary: i p ms)
  case (Cons g gs)
  obtain m p1 ms1 where i: "init_manager (kv_cache_spec g) p caching (int i) dcp pcp = Inr (m, p1)"
    "init_managers gs (Suc i) caching dcp pcp p1 = Inr (ms1, p')" "ms = m # ms1"
    using Cons.prems by (auto simp: ebind_eq_Inr)
  note init_manager_class [OF i(1)]
  with Cons.IH [OF i(2)] i(3) show ?case by (auto simp: nth_Cons split: nat.splits)
qed simp

lemma fold_lcm_dvd:
  "(\<forall>ag \<in> set groups. spec_block_size (fst ag) dvd fold (\<lambda>ag l. lcm l (spec_block_size (fst ag))) groups (l :: int))
    \<and> l dvd fold (\<lambda>ag l. lcm l (spec_block_size (fst ag))) groups l"
proof (induction groups arbitrary: l)
  case (Cons ag groups)
  show ?case using Cons.IH [of "lcm l (spec_block_size (fst ag))"] dvd_trans dvd_lcm1 dvd_lcm2 by fastforce
qed simp

lemma fold_lcm_pos:
  "0 < l \<Longrightarrow> \<forall>ag \<in> set groups. 0 < spec_block_size (fst ag) \<Longrightarrow>
    0 < fold (\<lambda>ag l. lcm l (spec_block_size (fst ag))) groups (l :: int)"
  by (induction groups arbitrary: l) (simp_all add: lcm_pos_int)

text \<open>The kinds of layer specs that a search over all groups supports.\<close>

definition searchable :: "coordinator \<Rightarrow> layer_spec \<Rightarrow> bool" where
  "searchable c spec = (case spec of
     SlidingWindowSpec a w \<Rightarrow> coord_use_eagle c \<longrightarrow> at_block_size a = coord_lcm_block_size c
   | ChunkedLocalAttentionSpec a ch \<Rightarrow> \<not> coord_use_eagle c \<and> at_block_size a = coord_lcm_block_size c
       \<and> 0 < ch \<and> ch mod at_block_size a = 0
   | CrossAttentionSpec a \<Rightarrow> False
   | _ \<Rightarrow> True)"

lemma init_hybrid_search_ok:
  assumes i: "init_hybrid config eagle caching events dcp pcp hbs = Inr c"
    and hb: "0 < hbs" and len: "kv_cache_groups config \<noteq> []" "length (kv_cache_groups config) < 4294967296"
    and bs: "\<forall>g \<in> set (kv_cache_groups config). 0 < spec_block_size (kv_cache_spec g) \<and> searchable c (kv_cache_spec g)"
    and one: "\<forall>g \<in> set (kv_cache_groups config). \<forall>g' \<in> set (kv_cache_groups config).
      is_full_attention (kv_cache_spec g) \<and> is_full_attention (kv_cache_spec g') \<longrightarrow> kv_cache_spec g = kv_cache_spec g'"
    and n: "0 \<le> n" "n div hbs \<le> int (length hashes)"
    and st: "coord_static c' = coord_static c" and ix: "index_inv (coord_pool c')"
  shows "search_ok c' hashes n \<and> coord_groups c = kv_cache_groups config \<and> coord_hash_block_size c = hbs \<and> coord_kind c = Hybrid
    \<and> split_ok (\<lambda>i. kv_cache_spec (kv_cache_groups config ! nat i)) (\<lambda>i. mgr_class (coord_managers c ! nat i))
        (int ` {..<length (kv_cache_groups config)}) (coord_attention_groups c)"
proof -
  let ?gs = "kv_cache_groups config"
  obtain p ms p' groups where
    ms: "init_managers ?gs 0 caching dcp pcp p = Inr (ms, p')"
    and eg: "coord_groups c = ?gs" "coord_managers c = ms" "coord_hash_block_size c = hbs" "coord_kind c = Hybrid"
    and div: "\<forall>g \<in> set ?gs. spec_block_size (kv_cache_spec g) mod hbs = 0"
    and split: "split_groups (zip ?gs ms) 0 [] = Inr groups" "1 < length groups"
    and c: "coord_attention_groups c =
                filter (\<lambda>(spec, _, _). is_full_attention spec) groups
                @ filter (\<lambda>(spec, _, _). \<not> is_full_attention spec) groups"
              "coord_lcm_block_size c = fold (\<lambda>(spec, _, _) l. lcm l (spec_block_size spec)) groups 1"
  proof -
    obtain c0 where c0: "init_coordinator Hybrid config eagle caching events dcp pcp hbs = Inr c0"
      "\<forall>g \<in> set ?gs. spec_block_size (kv_cache_spec g) mod hbs = 0" "verify_and_split_kv_cache_groups c0 = Inr c"
      using i hb unfolding init_hybrid_def by (auto simp: ebind_eq_Inr eassert_def split: if_splits)
    obtain p ms p' where m: "init_managers ?gs 0 caching dcp pcp p = Inr (ms, p')" "coord_groups c0 = ?gs"
      "coord_managers c0 = ms" "coord_hash_block_size c0 = hbs" "coord_kind c0 = Hybrid"
      using c0(1) unfolding init_coordinator_def by (auto simp: ebind_eq_Inr)
    obtain groups where g: "split_groups (zip ?gs ms) 0 [] = Inr groups" "1 < length groups"
      "c = c0\<lparr>coord_attention_groups :=
                filter (\<lambda>(spec, _, _). is_full_attention spec) groups
                @ filter (\<lambda>(spec, _, _). \<not> is_full_attention spec) groups,
              coord_lcm_block_size := fold (\<lambda>(spec, _, _) l. lcm l (spec_block_size spec)) groups 1\<rparr>"
      using c0(3) unfolding verify_and_split_kv_cache_groups_def m(2,3) by (auto simp: ebind_eq_Inr eassert_def split: if_splits)
    show thesis by (rule that [OF m(1) _ _ _ _ c0(2) g(1,2)]) (simp_all add: g(3) m)
  qed
  note cls = init_managers_class [OF ms]
  let ?S = "\<lambda>i. kv_cache_spec (?gs ! nat i)" and ?C = "\<lambda>i. mgr_class (ms ! nat i)"
  have "split_ok ?S ?C (int ` {..<0 + length (zip ?gs ms)}) groups"
    by (rule split_groups_spec [where i = 0]) (use split(1) cls in \<open>auto simp: split_ok_def\<close>)
  then have sp: "split_ok ?S ?C (int ` {..<length ?gs}) groups" using cls by simp
  define ags where "ags = filter (\<lambda>ag. is_full_attention (fst ag)) groups @ filter (\<lambda>ag. \<not> is_full_attention (fst ag)) groups"
  have ags: "coord_attention_groups c = ags" by (simp add: c ags_def case_prod_unfold)
  have so: "split_ok ?S ?C (int ` {..<length ?gs}) ags" unfolding ags_def by (rule split_ok_sorted [OF sp])
  have sa: "set ags = set groups" by (auto simp: ags_def)
  have mem: "ids \<noteq> [] \<and> distinct ids \<and> (\<forall>g \<in> set ids. 0 \<le> g \<and> g < int (length ?gs) \<and> kv_cache_spec (?gs ! nat g) = spec \<and> mgr_class (ms ! nat g) = cls)"
    if m: "(spec, ids, cls) \<in> set ags" for spec ids cls
  proof -
    have "set ids \<subseteq> int ` {..<length ?gs}" using so m by (fastforce simp: split_ok_def group_ids_def)
    moreover have "distinct ids"
    proof -
      obtain as bs where "ags = as @ (spec, ids, cls) # bs" using split_list [OF m] by blast
      then show ?thesis using so by (simp add: split_ok_def group_ids_def)
    qed
    ultimately show ?thesis using so m by (fastforce simp: split_ok_def)
  qed
  have spec_in: "\<exists>g \<in> set ?gs. kv_cache_spec g = spec \<and> (\<exists>k < length ?gs. g = ?gs ! k \<and> int k \<in> set ids \<and> mgr_class (ms ! k) = cls)"
    if m: "(spec, ids, cls) \<in> set ags" for spec ids cls
  proof -
    obtain g where g: "g \<in> set ids" using mem [OF m] by (cases ids) auto
    then have "0 \<le> g" "nat g < length ?gs" "kv_cache_spec (?gs ! nat g) = spec" "mgr_class (ms ! nat g) = cls"
      using mem [OF m] by (auto simp: nat_less_iff)
    then show ?thesis using g by (intro bexI [of _ "?gs ! nat g"]) (auto intro!: exI [of _ "nat g"])
  qed
  have lcm: "coord_lcm_block_size c = fold (\<lambda>ag l. lcm l (spec_block_size (fst ag))) groups 1" by (simp add: c case_prod_unfold)
  have pos: "\<forall>ag \<in> set groups. 0 < spec_block_size (fst ag)"
    using spec_in bs sa by (metis fst_conv prod_cases3)
  have gok: "search_group_ok c ag" if a: "ag \<in> set ags" for ag
  proof -
    obtain spec ids cls where ag: "ag = (spec, ids, cls)" by (cases ag)
    note m = mem [OF a [unfolded ag]]
    obtain k where k: "k < length ?gs" "kv_cache_spec (?gs ! k) = spec" "mgr_class (ms ! k) = cls"
      using spec_in [OF a [unfolded ag]] by blast
    have gk: "?gs ! k \<in> set ?gs" using k(1) by simp
    have "spec_manager_map spec = Inr cls" using cls k by metis
    moreover have "searchable c spec" "0 < spec_block_size spec" "spec_block_size spec mod hbs = 0" using bs div gk k(2) by auto
    moreover have "spec_block_size spec dvd coord_lcm_block_size c"
      using fold_lcm_dvd [of groups 1] a sa unfolding lcm ag by fastforce
    moreover have "groups_ok ids" using m len(2) by (auto simp: groups_ok_def)
    ultimately show ?thesis using m by (auto simp: search_group_ok_def ag eg searchable_def split: layer_spec.splits)
  qed
  have "\<not> is_full_attention (fst ag)" if a: "ag \<in> set (tl ags)" for ag
  proof
    assume f: "is_full_attention (fst ag)"
    obtain h t where ht: "ags = h # t" using a by (cases ags) auto
    have agt: "ag \<in> set t" using a ht by simp
    have fh: "is_full_attention (fst h)"
    proof (rule ccontr)
      assume nh: "\<not> is_full_attention (fst h)"
      have "filter (\<lambda>ag. is_full_attention (fst ag)) groups = []"
      proof (rule ccontr)
        assume ne: "filter (\<lambda>ag. is_full_attention (fst ag)) groups \<noteq> []"
        then have "hd ags \<in> set (filter (\<lambda>ag. is_full_attention (fst ag)) groups)"
          using hd_in_set [OF ne] ne by (simp add: ags_def)
        then show False using nh ht by simp
      qed
      then show False using f agt ht sa by (auto simp: filter_empty_conv) 
    qed
    obtain s1 i1 c1 s2 i2 c2 where p: "h = (s1, i1, c1)" "ag = (s2, i2, c2)" by (cases h, cases ag)
    have "(s1, i1, c1) \<in> set ags" "(s2, i2, c2) \<in> set ags" using p ht agt by auto
    then have "s1 = s2" using spec_in one f fh p by (metis fst_conv)
    then show False using so ht agt p by (auto simp: split_ok_def image_iff)
  qed
  moreover have "distinct (concat (map group_ids ags))" using so by (simp add: split_ok_def)
  moreover have "ags \<noteq> []" using split(2) sa by (metis list.size(3) not_less_zero set_empty)
  moreover have "0 < coord_lcm_block_size c" unfolding lcm by (rule fold_lcm_pos) (use pos in auto)
  moreover have "search_group_ok c' ag" if "ag \<in> set ags" for ag
    using gok [OF that] st by (cases ag) (auto simp: search_group_ok_def coord_static_def split: layer_spec.splits)
  ultimately have "search_ok c' hashes n" using hb n ix st by (simp add: search_ok_def coord_static_def ags eg)
  with so show ?thesis by (simp add: eg ags)
qed

subsection \<open>The property\<close>

text \<open>
  C12: The prefix-cache search over several kinds of attention layers.  The loop over the attention groups
  ends (the fuel is enough), the search does not raise, and all cache groups agree on the result: a
  number of tokens \<open>n\<close> that every block size divides, with exactly \<open>n\<close> tokens' worth of blocks in
  every group, each holding the hash of the request for its place, or null where the layers of
  that group no longer read.  The pool may have changed since construction.
\<close>

theorem hybrid_search_correct:
  assumes "init_hybrid config eagle True events 1 1 hbs = Inr c0" "0 < hbs"
    and "kv_cache_groups config \<noteq> []" "length (kv_cache_groups config) < 4294967296"
    and "\<forall>g \<in> set (kv_cache_groups config). 0 < spec_block_size (kv_cache_spec g) \<and> searchable c (kv_cache_spec g)"
    and "\<forall>g \<in> set (kv_cache_groups config). \<forall>g' \<in> set (kv_cache_groups config).
      is_full_attention (kv_cache_spec g) \<and> is_full_attention (kv_cache_spec g') \<longrightarrow> kv_cache_spec g = kv_cache_spec g'"
    and "coord_static c = coord_static c0" "pool_inv (coord_pool c) xs"
    and "0 \<le> max_length" "max_length div hbs \<le> int (length hashes)"
  shows "\<exists>hits n. find_longest_cache_hit c hashes max_length = Inr (hits, n) \<and> 0 \<le> n \<and> n \<le> max_length
    \<and> length hits = length (kv_cache_groups config)
    \<and> (\<forall>i < length (kv_cache_groups config). let spec = kv_cache_spec (kv_cache_groups config ! i) in
         spec_block_size spec dvd n
         \<and> (\<exists>hl. hashes_for hbs hashes spec = Inr hl
             \<and> usable (coord_pool c) hl spec (nat (n div spec_block_size spec)) (int i) (hits ! i)))"
proof -
  let ?gs = "kv_cache_groups config"
  have ix: "index_inv (coord_pool c)" using assms(8) by (simp add: pool_core_def)
  have same: "coord_kind c = coord_kind c0" "coord_groups c = coord_groups c0" "coord_use_eagle c = coord_use_eagle c0"
    "coord_hash_block_size c = coord_hash_block_size c0" "coord_attention_groups c = coord_attention_groups c0"
    "coord_lcm_block_size c = coord_lcm_block_size c0"
    using assms(7) by (simp_all add: coord_static_def)
  have s: "searchable c0 spec = searchable c spec" for spec using same by (simp add: searchable_def cong: layer_spec.case_cong)
  have bs: "\<forall>g \<in> set ?gs. 0 < spec_block_size (kv_cache_spec g) \<and> searchable c0 (kv_cache_spec g)" using assms(5) s by simp
  note r = init_hybrid_search_ok [OF assms(1-4) bs assms(6,9,10,7) ix]
  from hybrid_find_spec [OF conjunct1 [OF r]] obtain hits n where
    h: "hybrid_find_longest_cache_hit c hashes max_length = Inr (hits, n)" "0 \<le> n" "n \<le> max_length"
       "length hits = length (coord_groups c)"
    and u: "\<forall>(spec, ids, cls) \<in> set (coord_attention_groups c). spec_block_size spec dvd n
         \<and> (\<exists>hl. hashes_for (coord_hash_block_size c) hashes spec = Inr hl
             \<and> (\<forall>g \<in> set ids. usable (coord_pool c) hl spec (nat (n div spec_block_size spec)) g (hits ! nat g)))"
    by blast
  have "let spec = kv_cache_spec (?gs ! i) in spec_block_size spec dvd n
         \<and> (\<exists>hl. hashes_for hbs hashes spec = Inr hl
             \<and> usable (coord_pool c) hl spec (nat (n div spec_block_size spec)) (int i) (hits ! i))" if i: "i < length ?gs" for i
  proof -
    have "int i \<in> set (concat (map group_ids (coord_attention_groups c)))" using r i same by (auto simp: split_ok_def)
    then obtain spec ids cls where a: "(spec, ids, cls) \<in> set (coord_attention_groups c)" "int i \<in> set ids"
      by (auto simp: group_ids_def)
    have "kv_cache_spec (?gs ! i) = spec" using r a same by (fastforce simp: split_ok_def)
    then show ?thesis using bspec [OF u a(1)] a(2) r same by (auto simp: Let_def)
  qed
  then show ?thesis using h r same by (auto simp: find_longest_cache_hit_def)
qed

text \<open>Full attention beside a sliding window.\<close>

abbreviation hybrid_config :: kv_cache_config where
  "hybrid_config \<equiv> \<lparr>num_blocks = 6, kv_cache_groups = [\<lparr>layer_names = [''l''], kv_cache_spec = example_full\<rparr>,
     \<lparr>layer_names = [''w''], kv_cache_spec = example_window\<rparr>]\<rparr>"

lemma example_hybrid_run:
  "(case init_kv_manager hybrid_config 64 4 True False False False 1 1 of Inl _ \<Rightarrow> False
    | Inr k \<Rightarrow> coord_lcm_block_size (coord k) = 4 \<and> \<not> coord_use_eagle (coord k))"
  by code_simp

theorem hybrid_search_correct_witness:
  "\<exists>c hits n. init_hybrid hybrid_config False True False 1 1 4 = Inr c
    \<and> find_longest_cache_hit c [[7], [8]] 7 = Inr (hits, n) \<and> 4 dvd n \<and> n \<le> 7 \<and> length hits = 2
    \<and> usable (coord_pool c) (PlainHashes [[7], [8]]) example_window (nat (n div 4)) 1 (hits ! 1)"
proof -
  have cfg: "config_ok hybrid_config 1 1" by (simp add: config_ok_def spec_ok_def)
  obtain k where i: "init_kv_manager hybrid_config 64 4 True False False False 1 1 = Inr k"
    "coord_lcm_block_size (coord k) = 4" "\<not> coord_use_eagle (coord k)"
    using example_hybrid_run by (auto split: sum.splits)
  have h: "init_hybrid hybrid_config False True False 1 1 4 = Inr (coord k)"
    using i(1) by (auto simp: init_kv_manager_def get_kv_cache_coordinator_def ebind_eq_Inr)
  have inv: "pool_inv (coord_pool (coord k)) (map Blk [1 ..< nat (num_blocks hybrid_config)])"
    using init_kv_manager_inv(1) [OF i(1) cfg] by (simp add: kvm_inv_def kvm_ok_def coord_ok_def kv_ok_def)
  have sup: "\<forall>g \<in> set (kv_cache_groups hybrid_config). 0 < spec_block_size (kv_cache_spec g) \<and> searchable (coord k) (kv_cache_spec g)"
    using i(2,3) by (simp add: searchable_def)
  have "\<exists>hits n. find_longest_cache_hit (coord k) [[7], [8]] 7 = Inr (hits, n) \<and> 0 \<le> n \<and> n \<le> 7
    \<and> length hits = length (kv_cache_groups hybrid_config)
    \<and> (\<forall>i < length (kv_cache_groups hybrid_config). let spec = kv_cache_spec (kv_cache_groups hybrid_config ! i) in
         spec_block_size spec dvd n
         \<and> (\<exists>hl. hashes_for 4 [[7], [8]] spec = Inr hl
             \<and> usable (coord_pool (coord k)) hl spec (nat (n div spec_block_size spec)) (int i) (hits ! i)))"
    by (rule hybrid_search_correct [OF h _ _ _ sup _ refl inv]) simp_all
  then show ?thesis using h by (auto simp: All_less_Suc hashes_for_def numeral_2_eq_2)
qed

end
