(* ===== verification/Sched_Utils.thy ===== *)
theory Sched_Utils
  imports Request_Model
begin

text \<open>
  \<open>vllm/v1/core/sched/utils.py\<close>: the detection of a repeated pattern at the end of the output,
  the removal of several items from a list, and the decision whether a request has finished.
\<close>

subsection \<open>Repetition\<close>

text \<open>The two nested loops of \<open>_has_repeating_pattern\<close>, which return early on a mismatch.\<close>

fun repeat_inner :: "int list \<Rightarrow> int \<Rightarrow> int \<Rightarrow> int \<Rightarrow> int list \<Rightarrow> bool result" where
  "repeat_inner token_ids target_token pattern_len n [] = Inr True"
| "repeat_inner token_ids target_token pattern_len n (m # ms) =
     ebind (py_index token_ids (- (pattern_len * m + n))) (\<lambda>t.
       if t \<noteq> target_token then Inr False
       else repeat_inner token_ids target_token pattern_len n ms)"

fun repeat_outer :: "int list \<Rightarrow> int \<Rightarrow> int \<Rightarrow> int list \<Rightarrow> bool result" where
  "repeat_outer token_ids pattern_len cnt [] = Inr True"
| "repeat_outer token_ids pattern_len cnt (n # ns) =
     ebind (py_index token_ids (- n)) (\<lambda>target_token.
     ebind (repeat_inner token_ids target_token pattern_len n (py_range 1 cnt)) (\<lambda>b.
       if b then repeat_outer token_ids pattern_len cnt ns else Inr False))"

definition has_repeating_pattern :: "int list \<Rightarrow> int \<Rightarrow> int \<Rightarrow> bool result" where
  "has_repeating_pattern token_ids pattern_len cnt =
     repeat_outer token_ids pattern_len cnt (py_range 1 (pattern_len + 1))"

fun repetition_loop :: "int list \<Rightarrow> int \<Rightarrow> int list \<Rightarrow> bool result" where
  "repetition_loop token_ids cnt [] = Inr False"
| "repetition_loop token_ids cnt (p # ps) =
     (if p * cnt > int (length token_ids) then Inr False
      else ebind (has_repeating_pattern token_ids p cnt) (\<lambda>b.
        if b then Inr True else repetition_loop token_ids cnt ps))"

definition check_sequence_repetition :: "int list \<Rightarrow> repetition_params \<Rightarrow> bool result" where
  "check_sequence_repetition token_ids params =
     (let mx = max_pattern_size params;
          mn = (if min_pattern_size params \<le> 0 then 1 else min_pattern_size params);
          cnt = min_count params
      in if mx \<le> 0 \<or> cnt < 2 \<or> mn > mx then Inr False
         else repetition_loop token_ids cnt (py_range mn (mx + 1)))"

text \<open>A negative index reads the reversed list.\<close>

lemma py_index_neg:
  assumes "0 < k" "k \<le> int (length xs)"
  shows "py_index xs (- k) = Inr (rev xs ! nat (k - 1))"
proof -
  have "nat (int (length xs) - k) = length xs - Suc (nat (k - 1))" using assms by linarith
  moreover have "nat (k - 1) < length xs" using assms by linarith
  ultimately show ?thesis using assms by (simp add: py_index_def Let_def rev_nth)
qed

lemma repeat_inner_eq:
  assumes "\<forall>m \<in> set ms. 0 \<le> m \<and> pattern_len * m + n \<le> int (length xs)" "0 < n" "0 \<le> pattern_len"
  shows "repeat_inner xs t pattern_len n ms =
    Inr (\<forall>m \<in> set ms. rev xs ! nat (pattern_len * m + n - 1) = t)"
  using assms
proof (induction ms)
  case Nil
  then show ?case by simp
next
  case (Cons m ms)
  have "0 < pattern_len * m + n" using Cons.prems by (simp add: add_nonneg_pos)
  moreover have "pattern_len * m + n \<le> int (length xs)" using Cons.prems by simp
  ultimately have "py_index xs (- (pattern_len * m + n)) = Inr (rev xs ! nat (pattern_len * m + n - 1))"
    by (rule py_index_neg)
  then show ?case using Cons by simp
qed

lemma repeat_outer_eq:
  assumes "\<forall>n \<in> set ns. 0 < n \<and> n \<le> p" "1 \<le> cnt" "p * cnt \<le> int (length xs)" "0 \<le> p"
  shows "repeat_outer xs p cnt ns =
    Inr (\<forall>n \<in> set ns. \<forall>m \<in> {1 ..< cnt}. rev xs ! nat (p * m + n - 1) = rev xs ! nat (n - 1))"
  using assms(1)
proof (induction ns)
  case Nil
  then show ?case by simp
next
  case (Cons n ns)
  have n: "0 < n" "n \<le> p" using Cons.prems by auto
  have "p * 1 \<le> p * cnt" using assms(2,4) by (intro mult_left_mono) auto
  then have "n \<le> int (length xs)" using n assms(3) by linarith
  then have i: "py_index xs (- n) = Inr (rev xs ! nat (n - 1))" using n by (simp add: py_index_neg)
  have rng: "set (py_range 1 cnt) = {1 ..< cnt}" by (auto simp: py_range_def)
  have "\<forall>m \<in> set (py_range 1 cnt). 0 \<le> m \<and> p * m + n \<le> int (length xs)"
  proof
    fix m assume "m \<in> set (py_range 1 cnt)"
    then have m: "1 \<le> m" "m + 1 \<le> cnt" by (auto simp: py_range_def)
    have "p * (m + 1) \<le> p * cnt" using m assms(4) by (intro mult_left_mono) auto
    then show "0 \<le> m \<and> p * m + n \<le> int (length xs)" using n m assms(3) by (simp add: algebra_simps)
  qed
  from repeat_inner_eq [OF this n(1) assms(4), of "rev xs ! nat (n - 1)"]
  show ?case using i Cons by (auto simp: rng)
qed

text \<open>The specification: the list ends in \<open>cnt\<close> copies of one pattern of length \<open>p\<close>.\<close>

definition ends_with_repetition :: "int list \<Rightarrow> nat \<Rightarrow> nat \<Rightarrow> bool" where
  "ends_with_repetition xs p cnt \<longleftrightarrow>
     (\<exists>pre pat. length pat = p \<and> xs = pre @ concat (replicate cnt pat))"

lemma nth_concat_replicate:
  "i < length pat \<Longrightarrow> m < c \<Longrightarrow> concat (replicate c pat) ! (length pat * m + i) = pat ! i"
proof (induction c arbitrary: m)
  case 0
  then show ?case by simp
next
  case (Suc c)
  then show ?case by (cases m) (simp_all add: nth_append add.assoc)
qed

lemma length_concat_replicate: "length (concat (replicate c pat)) = c * length pat"
  by (induction c) auto

lemma rev_concat_replicate: "rev (concat (replicate c pat)) = concat (replicate c (rev pat))"
proof -
  have "rev (replicate c (rev pat)) = replicate c (rev pat)" by simp
  then show ?thesis by (simp add: rev_concat rev_map)
qed

lemma take_concat_replicate_iff:
  assumes "p * c \<le> length rs" "0 < p"
  shows "(\<forall>i < p. \<forall>m < c. rs ! (p * m + i) = rs ! i) \<longleftrightarrow>
    take (p * c) rs = concat (replicate c (take p rs))"
proof (cases "c = 0")
  case True
  then show ?thesis by simp
next
  case False
  have "p * 1 \<le> p * c" using False by (intro mult_le_mono2) simp
  then have "p \<le> length rs" using assms by linarith
  then have lp: "length (take p rs) = p" by (simp add: min_absorb2)
  have len: "length (concat (replicate c (take p rs))) = p * c"
    using lp by (simp add: length_concat_replicate)
  have inb: "p * m + i < p * c" if "m < c" "i < p" for m i
  proof -
    have "p * m + i < p * Suc m" using that by simp
    also have "\<dots> \<le> p * c" using that by (intro mult_le_mono2) simp
    finally show ?thesis .
  qed
  show ?thesis
  proof
    assume L: "\<forall>i < p. \<forall>m < c. rs ! (p * m + i) = rs ! i"
    show "take (p * c) rs = concat (replicate c (take p rs))"
    proof (rule nth_equalityI)
      show "length (take (p * c) rs) = length (concat (replicate c (take p rs)))"
        using len assms by simp
      fix k assume "k < length (take (p * c) rs)"
      then have k: "k < p * c" by simp
      define m i where "m = k div p" and "i = k mod p"
      have ki: "k = p * m + i" "i < p" "m < c"
        using k assms(2) by (simp_all add: m_def i_def less_mult_imp_div_less mult.commute)
      have "concat (replicate c (take p rs)) ! (p * m + i) = take p rs ! i"
        using nth_concat_replicate [of i "take p rs" m c] ki lp by simp
      then show "take (p * c) rs ! k = concat (replicate c (take p rs)) ! k"
        using L ki k by simp
    qed
  next
    assume R: "take (p * c) rs = concat (replicate c (take p rs))"
    show "\<forall>i < p. \<forall>m < c. rs ! (p * m + i) = rs ! i"
    proof (intro allI impI)
      fix i m assume im: "i < p" "m < c"
      have "rs ! (p * m + i) = take (p * c) rs ! (p * m + i)" using inb [OF im(2,1)] by simp
      also have "\<dots> = take p rs ! i"
        unfolding R using nth_concat_replicate [of i "take p rs" m c] im lp by simp
      finally show "rs ! (p * m + i) = rs ! i" using im by simp
    qed
  qed
qed

lemma ends_with_repetition_rev:
  assumes "p * c \<le> length xs" "0 < c"
  shows "ends_with_repetition xs p c \<longleftrightarrow>
    take (p * c) (rev xs) = concat (replicate c (take p (rev xs)))"
proof
  assume "ends_with_repetition xs p c"
  then obtain pre pat where pat: "length pat = p" "xs = pre @ concat (replicate c pat)"
    by (auto simp: ends_with_repetition_def)
  have r: "rev xs = concat (replicate c (rev pat)) @ rev pre"
    by (simp add: pat rev_concat_replicate)
  obtain c' where c: "c = Suc c'" using assms(2) by (cases c) auto
  have "take p (rev xs) = rev pat" using pat(1) by (simp add: r c)
  moreover have "take (p * c) (rev xs) = concat (replicate c (rev pat))"
    using pat(1) by (simp add: r length_concat_replicate mult.commute)
  ultimately show "take (p * c) (rev xs) = concat (replicate c (take p (rev xs)))" by simp
next
  assume R: "take (p * c) (rev xs) = concat (replicate c (take p (rev xs)))"
  let ?pat = "rev (take p (rev xs))"
  have "p * 1 \<le> p * c" using assms(2) by (intro mult_le_mono2) simp
  then have "p \<le> length xs" using assms by linarith
  then have "length ?pat = p" by (simp add: min_absorb2)
  moreover have "rev xs = concat (replicate c (take p (rev xs))) @ drop (p * c) (rev xs)"
    by (metis R append_take_drop_id)
  then have "xs = rev (drop (p * c) (rev xs)) @ concat (replicate c ?pat)"
    by (metis rev_append rev_concat_replicate rev_rev_ident)
  ultimately show "ends_with_repetition xs p c" unfolding ends_with_repetition_def by blast
qed

lemma has_repeating_pattern_eq:
  assumes "0 < p" "2 \<le> c" "p * c \<le> int (length xs)"
  shows "has_repeating_pattern xs p c = Inr (ends_with_repetition xs (nat p) (nat c))"
proof -
  let ?rs = "rev xs"
  have rng: "set (py_range 1 (p + 1)) = {1 .. p}" by (auto simp: py_range_def)
  have "has_repeating_pattern xs p c = Inr (\<forall>n \<in> {1 .. p}. \<forall>m \<in> {1 ..< c}.
      ?rs ! nat (p * m + n - 1) = ?rs ! nat (n - 1))"
    unfolding has_repeating_pattern_def using assms
    by (subst repeat_outer_eq) (auto simp: rng)
  moreover have "(\<forall>n \<in> {1 .. p}. \<forall>m \<in> {1 ..< c}. ?rs ! nat (p * m + n - 1) = ?rs ! nat (n - 1))
      \<longleftrightarrow> (\<forall>i < nat p. \<forall>m < nat c. ?rs ! (nat p * m + i) = ?rs ! i)" (is "?A \<longleftrightarrow> ?B")
  proof
    assume A: ?A
    show ?B
    proof (intro allI impI)
      fix i m assume im: "i < nat p" "m < nat c"
      show "?rs ! (nat p * m + i) = ?rs ! i"
      proof (cases "m = 0")
        case False
        have "int i + 1 \<in> {1 .. p}" "int m \<in> {1 ..< c}" using im False by auto
        from A [rule_format, OF this] show ?thesis
          using assms(1) by (simp add: nat_add_distrib nat_mult_distrib)
      qed simp
    qed
  next
    assume B: ?B
    show ?A
    proof (intro ballI)
      fix n m assume nm: "n \<in> {1 .. p}" "m \<in> {1 ..< c}"
      have "nat (n - 1) < nat p" "nat m < nat c" using nm assms by auto
      from B [rule_format, OF this]
      show "?rs ! nat (p * m + n - 1) = ?rs ! nat (n - 1)"
      proof -
        have "0 \<le> p * m" using nm assms(1) by simp
        then have "nat (p * m + n - 1) = nat p * nat m + nat (n - 1)"
          using nm assms(1) by (simp add: nat_mult_distrib [symmetric] nat_add_distrib [symmetric] add_diff_eq)
        then show ?thesis using \<open>?rs ! (nat p * nat m + nat (n - 1)) = ?rs ! nat (n - 1)\<close> by simp
      qed
    qed
  qed
  moreover have len: "nat p * nat c \<le> length ?rs" using assms by (simp add: nat_mult_distrib [symmetric] nat_le_iff)
  ultimately show ?thesis
    using take_concat_replicate_iff [OF len] ends_with_repetition_rev [of "nat p" "nat c" xs] assms len
    by simp
qed

lemma repetition_loop_eq:
  assumes "2 \<le> c" "0 < mn"
  shows "repetition_loop xs c (py_range mn (mx + 1)) = Inr (\<exists>p. mn \<le> p \<and> p \<le> mx
    \<and> p * c \<le> int (length xs) \<and> ends_with_repetition xs (nat p) (nat c))"
  using assms(2)
proof (induction "nat (mx + 1 - mn)" arbitrary: mn)
  case 0
  then have "py_range mn (mx + 1) = []" by (simp add: py_range_def)
  with 0 show ?case by auto
next
  case (Suc k)
  then have le: "mn \<le> mx" by simp
  then have rng: "py_range mn (mx + 1) = mn # py_range (mn + 1) (mx + 1)"
    by (simp add: py_range_def upto_rec1)
  show ?case
  proof (cases "mn * c > int (length xs)")
    case True
    have "mn * c \<le> p * c" if "mn \<le> p" for p using that assms(1) by (intro mult_right_mono) auto
    then have "\<not> (p * c \<le> int (length xs))" if "mn \<le> p" for p using that True by (meson not_le order_trans)
    then show ?thesis using True rng by auto
  next
    case False
    have "repetition_loop xs c (py_range (mn + 1) (mx + 1)) = Inr (\<exists>p. mn + 1 \<le> p \<and> p \<le> mx
      \<and> p * c \<le> int (length xs) \<and> ends_with_repetition xs (nat p) (nat c))"
      using Suc by (intro Suc.hyps(1)) auto
    moreover have "has_repeating_pattern xs mn c = Inr (ends_with_repetition xs (nat mn) (nat c))"
      using False Suc.prems assms(1) by (intro has_repeating_pattern_eq) auto
    moreover have "(\<exists>p. mn \<le> p \<and> P p) \<longleftrightarrow> P mn \<or> (\<exists>p. mn + 1 \<le> p \<and> P p)" for P :: "int \<Rightarrow> bool"
      by (metis add1_zle_eq order_le_less)
    ultimately show ?thesis using False le by (simp add: rng)
  qed
qed

text \<open>Detection is exact and never raises.\<close>

lemma check_sequence_repetition_eq:
  "check_sequence_repetition xs params = Inr
     (2 \<le> min_count params \<and>
      (\<exists>p. max 1 (min_pattern_size params) \<le> p \<and> p \<le> max_pattern_size params
        \<and> p * min_count params \<le> int (length xs)
        \<and> ends_with_repetition xs (nat p) (nat (min_count params))))"
proof -
  define mn where "mn = (if min_pattern_size params \<le> 0 then 1 else min_pattern_size params)"
  have mn: "mn = max 1 (min_pattern_size params)" "0 < mn" by (auto simp: mn_def)
  show ?thesis
  proof (cases "max_pattern_size params \<le> 0 \<or> min_count params < 2 \<or> mn > max_pattern_size params")
    case True
    then show ?thesis using mn by (auto simp: check_sequence_repetition_def Let_def mn_def [symmetric])
  next
    case False
    then show ?thesis
      using repetition_loop_eq [of "min_count params" mn xs "max_pattern_size params"] mn
      by (auto simp: check_sequence_repetition_def Let_def mn_def [symmetric])
  qed
qed

subsection \<open>Removing items\<close>

text \<open>
  \<open>remove_all\<close>: \<open>list.remove\<close> deletes the first occurrence only, so the single-item path and the
  comprehension agree exactly on lists without duplicates.
\<close>

definition remove_all :: "'a list \<Rightarrow> 'a list \<Rightarrow> 'a list" where
  "remove_all lst items_to_remove =
     (if items_to_remove = [] then lst
      else if length items_to_remove = 1 then remove1 (hd items_to_remove) lst
      else filter (\<lambda>item. item \<notin> set items_to_remove) lst)"

lemma remove_all_eq:
  assumes "distinct lst"
  shows "remove_all lst items = filter (\<lambda>x. x \<notin> set items) lst"
proof (cases "length items = 1")
  case True
  then obtain x where "items = [x]" by (auto simp: length_Suc_conv)
  then show ?thesis using assms by (simp add: remove_all_def distinct_remove1_removeAll removeAll_filter_not_eq eq_commute)
qed (simp add: remove_all_def)

subsection \<open>The stop check\<close>

definition check_stop :: "request \<Rightarrow> int \<Rightarrow> (bool \<times> request) result" where
  "check_stop r max_model_len =
     ebind (eassert (rq_pooling_params r = None)) (\<lambda>_.
     (case rq_sampling_params r of
        None \<Rightarrow> Inl AssertionError
      | Some sp \<Rightarrow>
          if num_output_tokens r < min_tokens sp then Inr (False, r)
          else ebind (py_index (output_token_ids r) (-1)) (\<lambda>last_token_id.
            if eos_token_id sp = Some last_token_id
            then Inr (True, r\<lparr>status := FINISHED_STOPPED\<rparr>)
            else if last_token_id \<in> set (case stop_token_ids sp of None \<Rightarrow> [] | Some ts \<Rightarrow> ts)
            then Inr (True, r\<lparr>status := FINISHED_STOPPED,
                              rq_stop_reason := Some (StopToken last_token_id)\<rparr>)
            else if num_tokens r \<ge> max_model_len \<or> num_output_tokens r \<ge> max_tokens r
            then Inr (True, r\<lparr>status := FINISHED_LENGTH_CAPPED\<rparr>)
            else (case repetition_detection sp of
                    None \<Rightarrow> Inr (False, r)
                  | Some rd \<Rightarrow>
                      ebind (check_sequence_repetition (output_token_ids r) rd) (\<lambda>rep.
                        if rep
                        then Inr (True, r\<lparr>status := FINISHED_REPETITION,
                               rq_stop_reason := Some (StopString ''repetition_detected'')\<rparr>)
                        else Inr (False, r))))))"

text \<open>
  The verdict and the status agree: a stopped request has a finished status with a finish
  reason, a request that goes on is returned unchanged.
\<close>

lemma finished_simps [simp]:
  "status_is_finished FINISHED_STOPPED" "status_is_finished FINISHED_LENGTH_CAPPED"
  "status_is_finished FINISHED_REPETITION" "\<not> status_is_finished RUNNING"
  "status_get_finished_reason FINISHED_STOPPED = Some FR_STOP"
  "status_get_finished_reason FINISHED_LENGTH_CAPPED = Some FR_LENGTH"
  "status_get_finished_reason FINISHED_REPETITION = Some FR_REPETITION"
  by (simp_all add: status_is_finished_def less_request_status_def status_get_finished_reason_def
      finished_reason_map_def)

lemma check_stop_verdict:
  assumes "check_stop r m = Inr (b, r')"
  shows "if b then is_finished r' \<and> get_finished_reason r' \<noteq> None
              \<and> all_token_ids r' = all_token_ids r \<and> output_token_ids r' = output_token_ids r
         else r' = r"
proof -
  obtain sp where sp: "rq_pooling_params r = None" "rq_sampling_params r = Some sp"
    using assms by (auto simp: check_stop_def ebind_eq_Inr split: option.splits)
  show ?thesis
  proof (cases "num_output_tokens r < min_tokens sp")
    case True
    then show ?thesis using assms sp by (auto simp: check_stop_def)
  next
    case False
    with assms sp obtain t where t: "py_index (output_token_ids r) (-1) = Inr t"
      by (auto simp: check_stop_def ebind_eq_Inr)
    define rep where "rep rd = projr (check_sequence_repetition (output_token_ids r) rd)" for rd
    have rep: "check_sequence_repetition (output_token_ids r) rd = Inr (rep rd)" for rd
      by (simp add: rep_def check_sequence_repetition_eq)
    show ?thesis
      using assms False
      by (cases b; cases "repetition_detection sp")
        (auto simp: check_stop_def sp t rep is_finished_def get_finished_reason_def split: if_splits)
  qed
qed

lemma check_stop_min_tokens:
  assumes "check_stop r m = Inr (b, r')" "rq_sampling_params r = Some sp"
    "num_output_tokens r < min_tokens sp"
  shows "\<not> b"
  using assms by (auto simp: check_stop_def ebind_eq_Inr)

lemma check_stop_length_cap:
  assumes "check_stop r m = Inr (b, r')" "rq_sampling_params r = Some sp"
    "min_tokens sp \<le> num_output_tokens r"
    and "num_tokens r \<ge> m \<or> num_output_tokens r \<ge> max_tokens r"
  shows "b"
  using assms by (auto simp: check_stop_def ebind_eq_Inr split: if_splits option.splits)

text \<open>The check never raises on a sampling request that has produced a token.\<close>

lemma check_stop_total:
  assumes "rq_pooling_params r = None" "rq_sampling_params r = Some sp" "output_token_ids r \<noteq> []"
  shows "\<exists>b r'. check_stop r m = Inr (b, r')"
  using assms
  by (auto simp: check_stop_def last_index_py check_sequence_repetition_eq split: option.splits)

subsection \<open>Properties\<close>

text \<open>
  C35: The detection of repetition is exact: it reports a repetition if and only if the tokens end in
  \<open>min_count\<close> copies of one pattern whose length is within the configured bounds, and no input
  makes it raise, although it indexes from the end of the list.
\<close>

theorem repetition_detection_exact:
  "check_sequence_repetition token_ids params = Inr
     (2 \<le> min_count params \<and>
      (\<exists>p. max 1 (min_pattern_size params) \<le> p \<and> p \<le> max_pattern_size params
        \<and> p * min_count params \<le> int (length token_ids)
        \<and> ends_with_repetition token_ids (nat p) (nat (min_count params))))"
  by (rule check_sequence_repetition_eq)

text \<open>
  C36: The stop check decides a request that has produced a token, never raises on it, leaves the
  request unchanged when generation goes on, and sets a finished status with a finish reason when
  it stops; it never stops before \<open>min_tokens\<close> and always stops at a length limit after that.
\<close>

theorem check_stop_correct:
  assumes "rq_pooling_params r = None" "rq_sampling_params r = Some sp" "output_token_ids r \<noteq> []"
  shows "\<exists>b r'. check_stop r max_len = Inr (b, r')
    \<and> (if b then is_finished r' \<and> get_finished_reason r' \<noteq> None \<and> all_token_ids r' = all_token_ids r
               \<and> min_tokens sp \<le> num_output_tokens r
       else r' = r \<and> (num_output_tokens r < min_tokens sp
               \<or> num_tokens r < max_len \<and> num_output_tokens r < max_tokens r))"
proof -
  obtain b r' where c: "check_stop r max_len = Inr (b, r')" using check_stop_total [OF assms] by blast
  have m: "min_tokens sp \<le> num_output_tokens r" if b using check_stop_min_tokens [OF c assms(2)] that by force
  have l: "num_output_tokens r < min_tokens sp \<or> num_tokens r < max_len \<and> num_output_tokens r < max_tokens r"
    if "\<not> b" using check_stop_length_cap [OF c assms(2)] that by force
  show ?thesis
    using c check_stop_verdict [OF c] m l by (intro exI [of _ b] exI [of _ r']) (simp split: if_splits)
qed

theorem check_stop_correct_witness:
  "\<exists>b r'. check_stop (example_request\<lparr>output_token_ids := [7, 2]\<rparr>) 100 = Inr (b, r')
    \<and> (b \<or> r' = example_request\<lparr>output_token_ids := [7, 2]\<rparr>)"
  using check_stop_correct [of "example_request\<lparr>output_token_ids := [7, 2]\<rparr>" example_params 100]
  by (auto simp: example_request_eq split: if_splits)

text \<open>
  On a list without duplicates, removing a list of items is the same on all three paths of the
  code: exactly the items listed disappear and the order of the others is kept.
\<close>

theorem remove_all_correct:
  assumes "distinct lst"
  shows "remove_all lst items = filter (\<lambda>x. x \<notin> set items) lst"
  by (rule remove_all_eq [OF assms])

theorem remove_all_correct_witness:
  "remove_all [3, 1, 2 :: int] [1] = [3, 2]"
  using remove_all_correct [of "[3, 1, 2 :: int]" "[1]"] by simp

end
