(* ===== verification/Encoder_Cache.thy ===== *)
theory Encoder_Cache
  imports Request_Model
begin

text \<open>
  \<open>vllm/v1/core/encoder_cache_manager.py\<close>: which multi-modal items have their encoder output cached,
  which requests reference them, and what may be evicted for new ones (\<open>EncoderCacheManager\<close>); the
  simpler bookkeeping for encoder-decoder models (\<open>EncoderDecoderCacheManager\<close>); and the two budgets.
  The slots of an item are a function of its hash, as the code assumes throughout.
\<close>

subsection \<open>State\<close>

record encoder_cache =
  ec_cache_size :: int
  ec_num_free_slots :: int
  ec_num_freeable_slots :: int
  ec_cached :: "(string \<times> string set) list"
  ec_freeable :: "(string \<times> int) list"
  ec_freed :: "string list"

definition init_encoder_cache :: "int \<Rightarrow> encoder_cache" where
  "init_encoder_cache cache_size =
     \<lparr>ec_cache_size = cache_size, ec_num_free_slots = cache_size, ec_num_freeable_slots = cache_size,
      ec_cached = [], ec_freeable = [], ec_freed = []\<rparr>"

definition ec_reset :: "encoder_cache \<Rightarrow> encoder_cache" where
  "ec_reset c = c\<lparr>ec_cached := [], ec_freeable := [], ec_freed := [],
     ec_num_free_slots := ec_cache_size c, ec_num_freeable_slots := ec_cache_size c\<rparr>"

subsection \<open>Operations\<close>

text \<open>\<open>request.mm_features[input_id].identifier\<close>\<close>

definition mm_hash_of :: "request \<Rightarrow> nat \<Rightarrow> string result" where
  "mm_hash_of r input_id =
     (if input_id < length (mm_features r) then Inr (mm_identifier (mm_features r ! input_id)) else Inl IndexError)"

definition ec_check_and_update :: "request \<Rightarrow> nat \<Rightarrow> encoder_cache \<Rightarrow> (bool \<times> encoder_cache) result" where
  "ec_check_and_update r input_id c =
     ebind (mm_hash_of r input_id) (\<lambda>h.
     case map_of (ec_cached c) h of
       None \<Rightarrow> Inr (False, c)
     | Some refs \<Rightarrow>
         ebind (if refs = {}
                then (case map_of (ec_freeable c) h of
                        None \<Rightarrow> Inl KeyError
                      | Some n \<Rightarrow> Inr (c\<lparr>ec_freeable := AList.delete h (ec_freeable c),
                                         ec_num_freeable_slots := ec_num_freeable_slots c - n\<rparr>))
                else Inr c) (\<lambda>c.
         Inr (True, c\<lparr>ec_cached := AList.update h (insert (request_id r) refs) (ec_cached c)\<rparr>)))"

text \<open>The eviction loop; every turn shortens \<open>freeable\<close>.\<close>

function ec_evict :: "int \<Rightarrow> encoder_cache \<Rightarrow> encoder_cache result" where
  "ec_evict num_embeds c =
     (if num_embeds \<le> ec_num_free_slots c then Inr c
      else case ec_freeable c of
             [] \<Rightarrow> Inl KeyError
           | (h, n) # others \<Rightarrow>
               if map_of (ec_cached c) h = None then Inl KeyError
               else ec_evict num_embeds
                      (c\<lparr>ec_freeable := others, ec_cached := AList.delete h (ec_cached c),
                         ec_freed := ec_freed c @ [h], ec_num_free_slots := ec_num_free_slots c + n\<rparr>))"
  by pat_completeness auto
termination by (relation "measure (\<lambda>(_, c). length (ec_freeable c))") auto

declare ec_evict.simps [simp del]

definition ec_can_allocate :: "request \<Rightarrow> nat \<Rightarrow> int \<Rightarrow> int \<Rightarrow> encoder_cache \<Rightarrow> (bool \<times> encoder_cache) result" where
  "ec_can_allocate r input_id encoder_compute_budget num_embeds_to_schedule c =
     ebind (get_num_encoder_embeds r input_id) (\<lambda>num_embeds.
     if num_embeds > encoder_compute_budget then Inr (False, c)
     else
       let num_embeds = num_embeds + num_embeds_to_schedule in
       if num_embeds \<le> ec_num_free_slots c then Inr (True, c)
       else if num_embeds > ec_num_freeable_slots c then Inr (False, c)
       else ebind (ec_evict num_embeds c) (\<lambda>c. Inr (True, c)))"

definition ec_allocate :: "request \<Rightarrow> nat \<Rightarrow> encoder_cache \<Rightarrow> encoder_cache result" where
  "ec_allocate r input_id c =
     ebind (mm_hash_of r input_id) (\<lambda>h.
     let c = (if map_of (ec_cached c) h = None then c\<lparr>ec_cached := AList.update h {} (ec_cached c)\<rparr> else c) in
     ebind (get_num_encoder_embeds r input_id) (\<lambda>n.
     ebind (eassert (ec_num_free_slots c \<ge> n)) (\<lambda>_.
     ebind (eassert (ec_num_freeable_slots c \<ge> n)) (\<lambda>_.
     case map_of (ec_cached c) h of
       None \<Rightarrow> Inl KeyError
     | Some refs \<Rightarrow>
         Inr (c\<lparr>ec_cached := AList.update h (insert (request_id r) refs) (ec_cached c),
                ec_num_free_slots := ec_num_free_slots c - n,
                ec_num_freeable_slots := ec_num_freeable_slots c - n\<rparr>)))))"

definition ec_get_cached_input_ids :: "request \<Rightarrow> encoder_cache \<Rightarrow> nat set" where
  "ec_get_cached_input_ids r c =
     set (filter (\<lambda>i. map_of (ec_cached c) (mm_identifier (mm_features r ! i)) \<noteq> None) [0 ..< length (mm_features r)])"

definition ec_free_encoder_input :: "request \<Rightarrow> nat \<Rightarrow> encoder_cache \<Rightarrow> encoder_cache result" where
  "ec_free_encoder_input r input_id c =
     ebind (mm_hash_of r input_id) (\<lambda>h.
     case map_of (ec_cached c) h of
       None \<Rightarrow> Inr c
     | Some refs \<Rightarrow>
         if refs = {} then Inr c
         else
           let refs = refs - {request_id r};
               c = c\<lparr>ec_cached := AList.update h refs (ec_cached c)\<rparr>
           in if refs = {}
              then ebind (get_num_encoder_embeds r input_id) (\<lambda>n.
                     Inr (c\<lparr>ec_freeable := AList.update h n (ec_freeable c),
                            ec_num_freeable_slots := ec_num_freeable_slots c + n\<rparr>))
              else Inr c)"

text \<open>
  The order in which Python iterates over a set of indices is not specified: it is the argument
  \<open>set_order\<close>, which lists the elements of a finite set once each.
\<close>

definition ec_free :: "(nat set \<Rightarrow> nat list) \<Rightarrow> request \<Rightarrow> encoder_cache \<Rightarrow> encoder_cache result" where
  "ec_free set_order r c = foldE (ec_free_encoder_input r) (set_order (ec_get_cached_input_ids r c)) c"

definition ec_get_freed_mm_hashes :: "encoder_cache \<Rightarrow> string list \<times> encoder_cache" where
  "ec_get_freed_mm_hashes c = (ec_freed c, c\<lparr>ec_freed := []\<rparr>)"

text \<open>\<open>compute_mm_encoder_budget\<close>: the two budgets from the configuration and the largest item.\<close>

record encoder_config =
  disable_chunked_mm_input :: bool
  max_num_batched_tokens :: int
  max_num_encoder_input_tokens :: int
  encoder_cache_size :: int

definition compute_mm_encoder_budget :: "encoder_config \<Rightarrow> (string \<times> int) list \<Rightarrow> (int \<times> int) result" where
  "compute_mm_encoder_budget cfg mm_max_toks_per_item =
     (case map snd mm_max_toks_per_item of
        [] \<Rightarrow> Inr (0, 0)
      | t # ts \<Rightarrow>
          let max_tokens_per_mm_item = fold max ts t in
          if disable_chunked_mm_input cfg \<and> max_tokens_per_mm_item > max_num_batched_tokens cfg
          then Inl ValueError
          else Inr (max (max_num_encoder_input_tokens cfg) max_tokens_per_mm_item,
                    max (encoder_cache_size cfg) max_tokens_per_mm_item))"

subsection \<open>The manager of encoder-decoder models\<close>

record encdec_cache =
  ed_cache_size :: int
  ed_num_free_slots :: int
  ed_allocated :: "string list"
  ed_to_free :: "string list"

definition init_encdec_cache :: "int \<Rightarrow> encdec_cache" where
  "init_encdec_cache cache_size =
     \<lparr>ed_cache_size = cache_size, ed_num_free_slots = cache_size, ed_allocated = [], ed_to_free = []\<rparr>"

definition ed_reset :: "encdec_cache \<Rightarrow> encdec_cache" where
  "ed_reset c = c\<lparr>ed_num_free_slots := ed_cache_size c, ed_allocated := [], ed_to_free := []\<rparr>"

definition ed_check_and_update :: "request \<Rightarrow> nat \<Rightarrow> encdec_cache \<Rightarrow> bool \<times> encdec_cache" where
  "ed_check_and_update r input_id c = (False, c)"

definition ed_can_allocate :: "request \<Rightarrow> nat \<Rightarrow> int \<Rightarrow> int \<Rightarrow> encdec_cache \<Rightarrow> bool result" where
  "ed_can_allocate r input_id encoder_compute_budget num_embeds_to_schedule c =
     ebind (get_num_encoder_embeds r input_id) (\<lambda>n.
       if n > encoder_compute_budget then Inr False
       else Inr (n + num_embeds_to_schedule \<le> ed_num_free_slots c))"

definition ed_allocate :: "request \<Rightarrow> nat \<Rightarrow> encdec_cache \<Rightarrow> encdec_cache result" where
  "ed_allocate r input_id c =
     ebind (get_num_encoder_embeds r input_id) (\<lambda>n.
     ebind (mm_hash_of r input_id) (\<lambda>h.
       Inr (c\<lparr>ed_num_free_slots := ed_num_free_slots c - n, ed_allocated := ed_allocated c @ [h]\<rparr>)))"

definition ed_free_encoder_input :: "request \<Rightarrow> nat \<Rightarrow> encdec_cache \<Rightarrow> encdec_cache result" where
  "ed_free_encoder_input r input_id c =
     ebind (get_num_encoder_embeds r input_id) (\<lambda>n. Inr (c\<lparr>ed_num_free_slots := ed_num_free_slots c + n\<rparr>))"

definition ed_free :: "request \<Rightarrow> encdec_cache \<Rightarrow> encdec_cache result" where
  "ed_free r c = foldE (ed_free_encoder_input r) [0 ..< length (mm_features r)] c"

definition ed_get_cached_input_ids :: "request \<Rightarrow> nat set" where
  "ed_get_cached_input_ids r = {0 ..< length (mm_features r)}"

definition ed_get_freed_mm_hashes :: "encdec_cache \<Rightarrow> string list \<times> encdec_cache" where
  "ed_get_freed_mm_hashes c = (ed_to_free c, c\<lparr>ed_to_free := ed_allocated c, ed_allocated := []\<rparr>)"

subsection \<open>The invariant\<close>

text \<open>
  The size of an item depends on its hash only (\<open>sz\<close>).  Then the free slots are what the cached items
  leave, and the reclaimable slots are those plus the items without references, which are exactly
  the freeable ones.
\<close>

definition sized :: "(string \<Rightarrow> int) \<Rightarrow> request \<Rightarrow> bool" where
  "sized sz r \<longleftrightarrow> (\<forall>i < length (mm_features r). get_num_encoder_embeds r i = Inr (sz (mm_identifier (mm_features r ! i))))"

definition ec_inv :: "(string \<Rightarrow> int) \<Rightarrow> encoder_cache \<Rightarrow> bool" where
  "ec_inv sz c \<longleftrightarrow> distinct (map fst (ec_cached c)) \<and> distinct (map fst (ec_freeable c))
     \<and> (\<forall>h. map_of (ec_freeable c) h = (if map_of (ec_cached c) h = Some {} then Some (sz h) else None))
     \<and> ec_num_free_slots c = ec_cache_size c - (\<Sum>h \<in> dom (map_of (ec_cached c)). sz h)
     \<and> ec_num_freeable_slots c = ec_num_free_slots c + (\<Sum>h \<in> dom (map_of (ec_freeable c)). sz h)
     \<and> 0 \<le> ec_num_free_slots c \<and> (\<forall>h. 0 \<le> sz h)"

lemma init_encoder_cache_inv: "0 \<le> n \<Longrightarrow> \<forall>h. 0 \<le> sz h \<Longrightarrow> ec_inv sz (init_encoder_cache n)"
  by (simp add: ec_inv_def init_encoder_cache_def)

lemma ec_reset_inv: "0 \<le> ec_cache_size c \<Longrightarrow> \<forall>h. 0 \<le> sz h \<Longrightarrow> ec_inv sz (ec_reset c)"
  by (simp add: ec_inv_def ec_reset_def)

lemma sum_dom_upd:
  fixes f :: "'k \<Rightarrow> int"
  assumes "finite (dom m)"
  shows "(\<Sum>k \<in> dom (m(h := v)). f k) = (\<Sum>k \<in> dom m. f k)
    + (if v \<noteq> None \<and> h \<notin> dom m then f h else 0) - (if v = None \<and> h \<in> dom m then f h else 0)"
  using assms by (cases v) (auto simp: sum_diff1 insert_absorb)

lemma ec_invD:
  assumes "ec_inv sz c"
  shows "distinct (map fst (ec_cached c))" "distinct (map fst (ec_freeable c))"
    "map_of (ec_freeable c) = (\<lambda>h. if map_of (ec_cached c) h = Some {} then Some (sz h) else None)"
    "ec_num_free_slots c = ec_cache_size c - (\<Sum>h \<in> dom (map_of (ec_cached c)). sz h)"
    "ec_num_freeable_slots c = ec_num_free_slots c + (\<Sum>h \<in> dom (map_of (ec_freeable c)). sz h)"
    "0 \<le> ec_num_free_slots c" "0 \<le> sz h"
  using assms by (auto simp: ec_inv_def)

lemma ec_dicts [simp]:
  "map_of (AList.update k v d) = (map_of d)(k := Some v)" "map_of (AList.delete k d) = (map_of d)(k := None)"
  by (simp_all add: update_conv' delete_conv')

lemma alist_update_new: "h \<notin> fst ` set d \<Longrightarrow> AList.update h v d = d @ [(h, v)]"
  by (induction d) auto

text \<open>Taking a reference.\<close>

lemma ec_check_spec:
  assumes inv: "ec_inv sz c" and i: "i < length (mm_features r)"
  defines "h \<equiv> mm_identifier (mm_features r ! i)"
  shows "\<exists>c'. ec_check_and_update r i c = Inr (map_of (ec_cached c) h \<noteq> None, c') \<and> ec_inv sz c'
    \<and> ec_cache_size c' = ec_cache_size c \<and> ec_num_free_slots c' = ec_num_free_slots c \<and> ec_freed c' = ec_freed c
    \<and> map_of (ec_cached c') = (case map_of (ec_cached c) h of None \<Rightarrow> map_of (ec_cached c)
        | Some refs \<Rightarrow> (map_of (ec_cached c))(h \<mapsto> insert (request_id r) refs))"
proof -
  note d = ec_invD [OF inv]
  note fin = finite_dom_map_of [of "ec_cached c"] finite_dom_map_of [of "ec_freeable c"]
  have h: "mm_hash_of r i = Inr h" using i by (simp add: mm_hash_of_def h_def)
  show ?thesis
  proof (cases "map_of (ec_cached c) h")
    case None
    then show ?thesis using h inv by (simp add: ec_check_and_update_def)
  next
    case (Some refs)
    let ?c1 = "if refs = {} then c\<lparr>ec_freeable := AList.delete h (ec_freeable c),
         ec_num_freeable_slots := ec_num_freeable_slots c - sz h\<rparr> else c"
    let ?c' = "?c1\<lparr>ec_cached := AList.update h (insert (request_id r) refs) (ec_cached c)\<rparr>"
    have "ec_check_and_update r i c = Inr (True, ?c')"
      using Some h d(3) by (simp add: ec_check_and_update_def)
    moreover have "ec_inv sz ?c'"
      unfolding ec_inv_def
    proof (intro conjI)
      have m: "map_of (ec_cached ?c') = (map_of (ec_cached c))(h := Some (insert (request_id r) refs))" by simp
      have hd: "h \<in> dom (map_of (ec_cached c))" using Some by blast
      show "ec_num_free_slots ?c' = ec_cache_size ?c' - (\<Sum>k \<in> dom (map_of (ec_cached ?c')). sz k)"
        unfolding m sum_dom_upd [OF fin(1)] using d(4) hd by simp
      show "\<forall>k. map_of (ec_freeable ?c') k = (if map_of (ec_cached ?c') k = Some {} then Some (sz k) else None)"
        unfolding m using d(3) Some by simp
      show "ec_num_freeable_slots ?c' = ec_num_free_slots ?c' + (\<Sum>k \<in> dom (map_of (ec_freeable ?c')). sz k)"
      proof (cases "refs = {}")
        case True
        have "h \<in> dom (map_of (ec_freeable c))" using True Some by (simp add: d(3) domIff)
        then show ?thesis using True d(5) sum_dom_upd [OF fin(2), of sz h None] by simp
      qed (use d(5) in simp)
    qed (use d(1,2,6,7) in simp_all)
    ultimately show ?thesis using Some by simp
  qed
qed

text \<open>Eviction takes the oldest freeable entries, and no more than needed.\<close>

lemma ec_evict_spec:
  assumes "ec_inv sz c" "need \<le> ec_num_freeable_slots c"
  shows "\<exists>k c'. ec_evict need c = Inr c' \<and> ec_inv sz c' \<and> k \<le> length (ec_freeable c)
    \<and> ec_freeable c' = drop k (ec_freeable c)
    \<and> ec_freed c' = ec_freed c @ map fst (take k (ec_freeable c)) \<and> need \<le> ec_num_free_slots c'
    \<and> ec_num_free_slots c' = ec_num_free_slots c + sum_list (map snd (take k (ec_freeable c)))
    \<and> (0 < k \<longrightarrow> ec_num_free_slots c + sum_list (map snd (take (k - 1) (ec_freeable c))) < need)
    \<and> ec_num_freeable_slots c' = ec_num_freeable_slots c \<and> ec_cache_size c' = ec_cache_size c
    \<and> (\<forall>h. map_of (ec_cached c') h = (if h \<in> fst ` set (take k (ec_freeable c)) then None else map_of (ec_cached c) h))"
  using assms
proof (induction need c rule: ec_evict.induct)
  case (1 need c)
  note d = ec_invD [OF 1(2)]
  show ?case
  proof (cases "need \<le> ec_num_free_slots c")
    case True
    then show ?thesis using 1(2) by (intro exI [of _ 0] exI [of _ c]) (simp add: ec_evict.simps)
  next
    case False
    have "ec_freeable c \<noteq> []" using d(5) False 1(3) by auto
    then obtain h n others where f: "ec_freeable c = (h, n) # others" by (metis list.exhaust prod.exhaust)
    have n: "n = sz h" and e: "map_of (ec_cached c) h = Some {}"
      using d(3) f by (auto simp: fun_eq_iff split: if_splits dest!: spec [of _ h])
    let ?c1 = "c\<lparr>ec_freeable := others, ec_cached := AList.delete h (ec_cached c),
                         ec_freed := ec_freed c @ [h], ec_num_free_slots := ec_num_free_slots c + n\<rparr>"
    have step: "ec_evict need c = ec_evict need ?c1" using False f e by (subst ec_evict.simps) simp
    note fin = finite_dom_map_of [of "ec_cached c"] finite_dom_map_of [of others]
    have ho: "h \<notin> dom (map_of others)" using d(2) f by (auto simp: dom_map_of_conv_image_fst)
    then have mo: "map_of others = (map_of (ec_freeable c))(h := None)" by (auto simp: f domIff fun_eq_iff)
    have dom: "dom (map_of (ec_freeable c)) = insert h (dom (map_of others))" by (auto simp: f)
    have inv1: "ec_inv sz ?c1"
      unfolding ec_inv_def
    proof (intro conjI)
      show "\<forall>k. map_of (ec_freeable ?c1) k = (if map_of (ec_cached ?c1) k = Some {} then Some (sz k) else None)"
        using d(3) by (simp add: mo)
      show "ec_num_freeable_slots ?c1 = ec_num_free_slots ?c1 + (\<Sum>k \<in> dom (map_of (ec_freeable ?c1)). sz k)"
        using d(5) n ho fin(2) by (simp add: dom)
      show "ec_num_free_slots ?c1 = ec_cache_size ?c1 - (\<Sum>k \<in> dom (map_of (ec_cached ?c1)). sz k)"
        using d(4) n e sum_dom_upd [OF fin(1), of sz h None] by auto
      show "distinct (map fst (ec_cached ?c1))" "distinct (map fst (ec_freeable ?c1))" using d(1,2) f by simp_all
    qed (use d(6,7) n in simp_all)
    have nd: "h \<notin> fst ` set others" using ho by (simp add: dom_map_of_conv_image_fst)
    have ne: "map_of (ec_cached c) h \<noteq> None" and le: "need \<le> ec_num_freeable_slots ?c1" using e 1(3) by simp_all
    from 1(1) [OF False f refl ne inv1 le] obtain k c' where
      r: "ec_evict need ?c1 = Inr c'" "ec_inv sz c'" "k \<le> length (ec_freeable ?c1)"
    "ec_freeable c' = drop k (ec_freeable ?c1)"
    "ec_freed c' = ec_freed ?c1 @ map fst (take k (ec_freeable ?c1))" "need \<le> ec_num_free_slots c'"
    "ec_num_free_slots c' = ec_num_free_slots ?c1 + sum_list (map snd (take k (ec_freeable ?c1)))"
    "0 < k \<longrightarrow> ec_num_free_slots ?c1 + sum_list (map snd (take (k - 1) (ec_freeable ?c1))) < need"
    "ec_num_freeable_slots c' = ec_num_freeable_slots ?c1" "ec_cache_size c' = ec_cache_size ?c1"
    "\<forall>h. map_of (ec_cached c') h = (if h \<in> fst ` set (take k (ec_freeable ?c1)) then None else map_of (ec_cached ?c1) h)"
      by blast
    show ?thesis
      using r step f False by (intro exI [of _ "Suc k"] exI [of _ c']) (cases k; auto simp: add.assoc)
  qed
qed

text \<open>Asking for room, making room, taking it.\<close>

lemma sizedD:
  assumes "sized sz r" "i < length (mm_features r)"
  shows "get_num_encoder_embeds r i = Inr (sz (mm_identifier (mm_features r ! i)))"
    "mm_hash_of r i = Inr (mm_identifier (mm_features r ! i))"
  using assms by (auto simp: sized_def mm_hash_of_def)

lemma ec_can_allocate_spec:
  fixes scheduled :: int
  assumes inv: "ec_inv sz c" and r: "sized sz r" "i < length (mm_features r)"
  defines "need \<equiv> sz (mm_identifier (mm_features r ! i)) + scheduled"
  shows "\<exists>ok k c'. ec_can_allocate r i budget scheduled c = Inr (ok, c') \<and> ec_inv sz c'
    \<and> (ok \<longleftrightarrow> need - scheduled \<le> budget \<and> need \<le> ec_num_freeable_slots c)
    \<and> (ok \<longrightarrow> need \<le> ec_num_free_slots c') \<and> (\<not> ok \<longrightarrow> c' = c)
    \<and> k \<le> length (ec_freeable c) \<and> ec_freeable c' = drop k (ec_freeable c)
    \<and> ec_freed c' = ec_freed c @ map fst (take k (ec_freeable c))
    \<and> (0 < k \<longrightarrow> ec_num_free_slots c + sum_list (map snd (take (k - 1) (ec_freeable c))) < need)
    \<and> ec_num_freeable_slots c' = ec_num_freeable_slots c \<and> ec_cache_size c' = ec_cache_size c
    \<and> (\<forall>h. map_of (ec_cached c') h = (if h \<in> fst ` set (take k (ec_freeable c)) then None else map_of (ec_cached c) h))"
proof -
  note d = ec_invD [OF inv]
  have free: "ec_num_free_slots c \<le> ec_num_freeable_slots c"
    using d(5) sum_nonneg [of "dom (map_of (ec_freeable c))" sz] d(7) by simp
  note e = sizedD [OF r]
  have stay: ?thesis if "ec_can_allocate r i budget scheduled c = Inr (ok, c)"
    "ok \<longleftrightarrow> need - scheduled \<le> budget \<and> need \<le> ec_num_freeable_slots c" "ok \<longrightarrow> need \<le> ec_num_free_slots c" for ok
    using that inv by (intro exI [of _ ok] exI [of _ 0] exI [of _ c]) auto
  consider "budget < need - scheduled" | "need - scheduled \<le> budget" "need \<le> ec_num_free_slots c"
    | "need - scheduled \<le> budget" "ec_num_free_slots c < need" "ec_num_freeable_slots c < need"
    | "need - scheduled \<le> budget" "ec_num_free_slots c < need" "need \<le> ec_num_freeable_slots c" by linarith
  then show ?thesis
  proof cases
    case 1
    then show ?thesis by (intro stay [of False]) (auto simp: ec_can_allocate_def e need_def)
  next
    case 2
    then show ?thesis using free by (intro stay [of True]) (auto simp: ec_can_allocate_def e need_def Let_def)
  next
    case 3
    then show ?thesis by (intro stay [of False]) (auto simp: ec_can_allocate_def e need_def Let_def)
  next
    case 4
    from ec_evict_spec [OF inv 4(3)] obtain k c' where
      v: "ec_evict need c = Inr c'" "ec_inv sz c'" "k \<le> length (ec_freeable c)" "ec_freeable c' = drop k (ec_freeable c)"
      "ec_freed c' = ec_freed c @ map fst (take k (ec_freeable c))" "need \<le> ec_num_free_slots c'"
      "0 < k \<longrightarrow> ec_num_free_slots c + sum_list (map snd (take (k - 1) (ec_freeable c))) < need"
      "ec_num_freeable_slots c' = ec_num_freeable_slots c" "ec_cache_size c' = ec_cache_size c"
      "\<forall>h. map_of (ec_cached c') h = (if h \<in> fst ` set (take k (ec_freeable c)) then None else map_of (ec_cached c) h)"
      by blast
    have "ec_can_allocate r i budget scheduled c = Inr (True, c')"
      using 4 v(1) by (simp add: ec_can_allocate_def e need_def Let_def)
    then show ?thesis using v 4 by (intro exI [of _ True] exI [of _ k] exI [of _ c']) auto
  qed
qed

lemma ec_allocate_spec:
  assumes inv: "ec_inv sz c" and r: "sized sz r" "i < length (mm_features r)"
  defines "h \<equiv> mm_identifier (mm_features r ! i)"
  assumes new: "map_of (ec_cached c) h = None" and room: "sz h \<le> ec_num_free_slots c"
  shows "\<exists>c'. ec_allocate r i c = Inr c' \<and> ec_inv sz c' \<and> ec_cache_size c' = ec_cache_size c \<and> ec_freed c' = ec_freed c
    \<and> ec_freeable c' = ec_freeable c \<and> ec_num_free_slots c' = ec_num_free_slots c - sz h
    \<and> map_of (ec_cached c') = (map_of (ec_cached c))(h \<mapsto> {request_id r})"
proof -
  note d = ec_invD [OF inv]
  note e = sizedD [OF r, folded h_def]
  have free: "sz h \<le> ec_num_freeable_slots c"
    using d(5) sum_nonneg [of "dom (map_of (ec_freeable c))" sz] d(7) room by simp
  let ?c1 = "c\<lparr>ec_cached := AList.update h {} (ec_cached c)\<rparr>"
  let ?c' = "?c1\<lparr>ec_cached := AList.update h {request_id r} (ec_cached ?c1),
                ec_num_free_slots := ec_num_free_slots c - sz h, ec_num_freeable_slots := ec_num_freeable_slots c - sz h\<rparr>"
  have "ec_allocate r i c = Inr ?c'" using e new room free by (simp add: ec_allocate_def Let_def eassert_def)
  moreover have m: "map_of (ec_cached ?c') = (map_of (ec_cached c))(h \<mapsto> {request_id r})" by (simp add: fun_eq_iff)
  moreover have "ec_inv sz ?c'"
    unfolding ec_inv_def
  proof (intro conjI)
    have hd: "h \<notin> dom (map_of (ec_cached c))" using new by blast
    show "ec_num_free_slots ?c' = ec_cache_size ?c' - (\<Sum>k \<in> dom (map_of (ec_cached ?c')). sz k)"
      unfolding m sum_dom_upd [OF finite_dom_map_of] using d(4) hd by simp
    show "\<forall>k. map_of (ec_freeable ?c') k = (if map_of (ec_cached ?c') k = Some {} then Some (sz k) else None)"
      unfolding m using d(3) new by simp
  qed (use d(1,2,5,6,7) room in simp_all)
  ultimately show ?thesis by simp
qed

text \<open>Dropping a reference.\<close>

lemma ec_free_encoder_input_spec:
  assumes inv: "ec_inv sz c" and r: "sized sz r" "i < length (mm_features r)"
  defines "h \<equiv> mm_identifier (mm_features r ! i)"
  shows "\<exists>c'. ec_free_encoder_input r i c = Inr c' \<and> ec_inv sz c' \<and> ec_cache_size c' = ec_cache_size c
    \<and> ec_freed c' = ec_freed c \<and> ec_num_free_slots c' = ec_num_free_slots c \<and> (\<exists>zs. ec_freeable c' = ec_freeable c @ zs)
    \<and> map_of (ec_cached c') = (\<lambda>k. if k = h then map_option (\<lambda>refs. refs - {request_id r}) (map_of (ec_cached c) h)
        else map_of (ec_cached c) k)"
proof -
  note d = ec_invD [OF inv]
  note e = sizedD [OF r, folded h_def]
  show ?thesis
  proof (cases "map_of (ec_cached c) h = None \<or> map_of (ec_cached c) h = Some {}")
    case True
    then have "ec_free_encoder_input r i c = Inr c" using e by (auto simp: ec_free_encoder_input_def)
    then show ?thesis using inv True by (auto simp: fun_eq_iff)
  next
    case False
    then obtain refs where refs: "map_of (ec_cached c) h = Some refs" "refs \<noteq> {}" by auto
    let ?refs = "refs - {request_id r}"
    let ?c1 = "c\<lparr>ec_cached := AList.update h ?refs (ec_cached c)\<rparr>"
    let ?c' = "if ?refs = {} then ?c1\<lparr>ec_freeable := AList.update h (sz h) (ec_freeable c),
         ec_num_freeable_slots := ec_num_freeable_slots c + sz h\<rparr> else ?c1"
    have fn: "map_of (ec_freeable c) h = None" using d(3) refs by simp
    have run: "ec_free_encoder_input r i c = Inr ?c'"
      using e refs by (simp add: ec_free_encoder_input_def Let_def)
    have m: "map_of (ec_cached ?c') = (map_of (ec_cached c))(h := Some ?refs)" by simp
    have hd: "h \<in> dom (map_of (ec_cached c))" using refs by blast
    have app: "AList.update h (sz h) (ec_freeable c) = ec_freeable c @ [(h, sz h)]"
    proof -
      have "h \<notin> fst ` set (ec_freeable c)" using fn by (simp add: map_of_eq_None_iff)
      then show ?thesis by (rule alist_update_new)
    qed
    have "ec_inv sz ?c'"
      unfolding ec_inv_def
    proof (intro conjI)
      show "ec_num_free_slots ?c' = ec_cache_size ?c' - (\<Sum>k \<in> dom (map_of (ec_cached ?c')). sz k)"
        unfolding m sum_dom_upd [OF finite_dom_map_of] using d(4) hd by simp
      show "\<forall>k. map_of (ec_freeable ?c') k = (if map_of (ec_cached ?c') k = Some {} then Some (sz k) else None)"
        unfolding m using d(3) refs by simp
      show "ec_num_freeable_slots ?c' = ec_num_free_slots ?c' + (\<Sum>k \<in> dom (map_of (ec_freeable ?c')). sz k)"
      proof (cases "?refs = {}")
        case True
        have hn: "h \<notin> dom (map_of (ec_freeable c))" using fn by blast
        have "map_of (ec_freeable ?c') = (map_of (ec_freeable c))(h := Some (sz h))" using True by simp
        then show ?thesis using sum_dom_upd [OF finite_dom_map_of, of sz "ec_freeable c" h "Some (sz h)"] hn True d(5) by simp
      qed (use d(5) in simp)
    qed (use d(1,2,6,7) in simp_all)
    then show ?thesis using run m app refs by (intro exI [of _ ?c']) (auto simp: fun_eq_iff)
  qed
qed

lemma ec_free_loop:
  assumes "ec_inv sz c" "sized sz r" "\<forall>i \<in> set is. i < length (mm_features r)"
  shows "\<exists>c'. foldE (ec_free_encoder_input r) is c = Inr c' \<and> ec_inv sz c' \<and> ec_cache_size c' = ec_cache_size c
    \<and> ec_freed c' = ec_freed c \<and> ec_num_free_slots c' = ec_num_free_slots c
    \<and> map_of (ec_cached c') = (\<lambda>k. if \<exists>i \<in> set is. mm_identifier (mm_features r ! i) = k
        then map_option (\<lambda>refs. refs - {request_id r}) (map_of (ec_cached c) k) else map_of (ec_cached c) k)"
  using assms
proof (induction "is" arbitrary: c)
  case (Cons i "is")
  let ?h = "mm_identifier (mm_features r ! i)"
  obtain c1 where c1: "ec_free_encoder_input r i c = Inr c1" "ec_inv sz c1" "ec_cache_size c1 = ec_cache_size c"
    "ec_freed c1 = ec_freed c" "ec_num_free_slots c1 = ec_num_free_slots c"
    "map_of (ec_cached c1) = (\<lambda>k. if k = ?h then map_option (\<lambda>refs. refs - {request_id r}) (map_of (ec_cached c) ?h)
        else map_of (ec_cached c) k)"
    using ec_free_encoder_input_spec [OF Cons.prems(1,2), of i] Cons.prems(3) by auto
  from Cons.IH [OF c1(2) Cons.prems(2)] Cons.prems(3) obtain c' where
    c': "foldE (ec_free_encoder_input r) is c1 = Inr c'" "ec_inv sz c'" "ec_cache_size c' = ec_cache_size c1"
    "ec_freed c' = ec_freed c1" "ec_num_free_slots c' = ec_num_free_slots c1"
    "map_of (ec_cached c') = (\<lambda>k. if \<exists>i \<in> set is. mm_identifier (mm_features r ! i) = k
        then map_option (\<lambda>refs. refs - {request_id r}) (map_of (ec_cached c1) k) else map_of (ec_cached c1) k)" by auto
  have idem: "map_option (\<lambda>refs. refs - {x}) (map_option (\<lambda>refs. refs - {x}) m) = map_option (\<lambda>refs. refs - {x}) m"
    for x :: string and m by (cases m) auto
  show ?case using c1 c' by (intro exI [of _ c']) (auto simp: fun_eq_iff idem)
qed simp

text \<open>All references of a request, whatever order the set of indices is walked in.\<close>

lemma ec_free_spec:
  assumes inv: "ec_inv sz c" and r: "sized sz r" and ord: "\<And>S. finite S \<Longrightarrow> set (set_order S) = S"
  shows "\<exists>c'. ec_free set_order r c = Inr c' \<and> ec_inv sz c' \<and> ec_cache_size c' = ec_cache_size c
    \<and> ec_freed c' = ec_freed c \<and> ec_num_free_slots c' = ec_num_free_slots c
    \<and> map_of (ec_cached c') = (\<lambda>k. if k \<in> mm_identifier ` set (mm_features r)
        then map_option (\<lambda>refs. refs - {request_id r}) (map_of (ec_cached c) k) else map_of (ec_cached c) k)"
proof -
  let ?ids = "ec_get_cached_input_ids r c"
  have s: "set (set_order ?ids) = ?ids" by (rule ord) (simp add: ec_get_cached_input_ids_def)
  have "\<forall>i \<in> set (set_order ?ids). i < length (mm_features r)" unfolding s by (simp add: ec_get_cached_input_ids_def)
  from ec_free_loop [OF inv r this] obtain c' where
    c': "ec_free set_order r c = Inr c'" "ec_inv sz c'" "ec_cache_size c' = ec_cache_size c"
    "ec_freed c' = ec_freed c" "ec_num_free_slots c' = ec_num_free_slots c"
    "map_of (ec_cached c') = (\<lambda>k. if \<exists>i \<in> ?ids. mm_identifier (mm_features r ! i) = k
        then map_option (\<lambda>refs. refs - {request_id r}) (map_of (ec_cached c) k) else map_of (ec_cached c) k)"
    unfolding ec_free_def s by auto
  have "(\<exists>i \<in> ?ids. mm_identifier (mm_features r ! i) = k) \<longleftrightarrow> k \<in> mm_identifier ` set (mm_features r) \<and> map_of (ec_cached c) k \<noteq> None" for k
    unfolding ec_get_cached_input_ids_def by (force simp: in_set_conv_nth image_iff Bex_def)
  then show ?thesis using c' by (intro exI [of _ c']) (auto simp: fun_eq_iff)
qed

subsection \<open>The cache as a state machine\<close>

text \<open>
  One call.  \<open>allocate\<close> is made for an input that is not cached and for which \<open>can_allocate\<close> has made
  room, as the docstring of the method asks.
\<close>

inductive ec_step :: "(string \<Rightarrow> int) \<Rightarrow> encoder_cache \<Rightarrow> encoder_cache \<Rightarrow> bool" for sz where
  check: "i < length (mm_features r) \<Longrightarrow> ec_check_and_update r i c = Inr (b, c') \<Longrightarrow> ec_step sz c c'"
| can_allocate: "sized sz r \<Longrightarrow> i < length (mm_features r) \<Longrightarrow>
    ec_can_allocate r i budget scheduled c = Inr (b, c') \<Longrightarrow> ec_step sz c c'"
| allocate: "sized sz r \<Longrightarrow> i < length (mm_features r) \<Longrightarrow>
    map_of (ec_cached c) (mm_identifier (mm_features r ! i)) = None \<Longrightarrow>
    sz (mm_identifier (mm_features r ! i)) \<le> ec_num_free_slots c \<Longrightarrow>
    ec_allocate r i c = Inr c' \<Longrightarrow> ec_step sz c c'"
| free_input: "sized sz r \<Longrightarrow> i < length (mm_features r) \<Longrightarrow> ec_free_encoder_input r i c = Inr c' \<Longrightarrow> ec_step sz c c'"
| free: "sized sz r \<Longrightarrow> (\<forall>S. finite S \<longrightarrow> set (set_order S) = S) \<Longrightarrow> ec_free set_order r c = Inr c' \<Longrightarrow> ec_step sz c c'"
| get_freed: "ec_get_freed_mm_hashes c = (hs, c') \<Longrightarrow> ec_step sz c c'"
| reset: "ec_step sz c (ec_reset c)"

lemma ec_step_inv:
  assumes "ec_step sz c c'" "ec_inv sz c" "0 \<le> ec_cache_size c"
  shows "ec_inv sz c' \<and> ec_cache_size c' = ec_cache_size c"
  using assms(1)
proof (cases rule: ec_step.cases)
  case (check i r b)
  then show ?thesis using ec_check_spec [OF assms(2) check(1)] by auto
next
  case (can_allocate r i budget scheduled b)
  then show ?thesis using ec_can_allocate_spec [OF assms(2) can_allocate(1,2), of budget scheduled] by fastforce
next
  case (allocate r i)
  then show ?thesis using ec_allocate_spec [OF assms(2) allocate(1-4)] by auto
next
  case (free_input r i)
  then show ?thesis using ec_free_encoder_input_spec [OF assms(2) free_input(1,2)] by auto
next
  case (free r set_order)
  then show ?thesis using ec_free_spec [OF assms(2) free(1), of set_order] by auto
next
  case get_freed
  then show ?thesis using assms(2) by (auto simp: ec_get_freed_mm_hashes_def ec_inv_def)
next
  case reset
  then show ?thesis using assms(2,3) by (auto simp: ec_inv_def ec_reset_def)
qed

lemma ec_reachable_inv:
  assumes "rtranclp (ec_step sz) c0 c" "ec_inv sz c0"
  shows "ec_inv sz c \<and> ec_cache_size c = ec_cache_size c0"
  using assms
proof (induction rule: rtranclp_induct)
  case (step c c')
  have "0 \<le> (\<Sum>h \<in> dom (map_of (ec_cached c)). sz h)" using step by (intro sum_nonneg) (simp add: ec_inv_def)
  then have "0 \<le> ec_cache_size c" using step by (auto simp: ec_inv_def)
  then show ?case using ec_step_inv [OF step(2)] step by auto
qed simp

subsection \<open>The shared contract of the two managers\<close>

text \<open>
  What the scheduler relies on, for either manager: a positive answer of \<open>can_allocate\<close> leaves room for
  the input and for all inputs scheduled before, room is never lost by asking, and allocation of an
  input that is not held takes its size and cannot fail while there is room.
\<close>

locale encoder_room =
  fixes inv :: "'c \<Rightarrow> bool" and room :: "'c \<Rightarrow> int" and held :: "'c \<Rightarrow> string set" and size_of :: "string \<Rightarrow> int"
    and can :: "request \<Rightarrow> nat \<Rightarrow> int \<Rightarrow> int \<Rightarrow> 'c \<Rightarrow> (bool \<times> 'c) result"
    and alloc :: "request \<Rightarrow> nat \<Rightarrow> 'c \<Rightarrow> 'c result"
  assumes can_ok: "inv c \<Longrightarrow> sized size_of r \<Longrightarrow> i < length (mm_features r) \<Longrightarrow>
      \<exists>ok c'. can r i budget scheduled c = Inr (ok, c') \<and> inv c' \<and> room c \<le> room c' \<and> held c' \<subseteq> held c
        \<and> (ok \<longrightarrow> size_of (mm_identifier (mm_features r ! i)) + scheduled \<le> room c'
             \<and> size_of (mm_identifier (mm_features r ! i)) \<le> budget)"
    and alloc_ok: "inv c \<Longrightarrow> sized size_of r \<Longrightarrow> i < length (mm_features r) \<Longrightarrow>
      mm_identifier (mm_features r ! i) \<notin> held c \<Longrightarrow> size_of (mm_identifier (mm_features r ! i)) \<le> room c \<Longrightarrow>
      \<exists>c'. alloc r i c = Inr c' \<and> inv c' \<and> room c' = room c - size_of (mm_identifier (mm_features r ! i))
        \<and> held c' \<subseteq> insert (mm_identifier (mm_features r ! i)) (held c)"
    and size_nonneg: "inv c \<Longrightarrow> 0 \<le> size_of h"
begin

text \<open>All inputs for which there is room together can be allocated one after the other.\<close>

lemma alloc_all:
  assumes "inv c" "sized size_of r" "\<forall>i \<in> set is. i < length (mm_features r)"
    and "distinct (map (\<lambda>i. mm_identifier (mm_features r ! i)) is)"
    and "\<forall>i \<in> set is. mm_identifier (mm_features r ! i) \<notin> held c"
    and "sum_list (map (\<lambda>i. size_of (mm_identifier (mm_features r ! i))) is) \<le> room c"
  shows "\<exists>c'. foldE (alloc r) is c = Inr c' \<and> inv c'
    \<and> room c' = room c - sum_list (map (\<lambda>i. size_of (mm_identifier (mm_features r ! i))) is)"
  using assms
proof (induction "is" arbitrary: c)
  case (Cons i "is")
  let ?h = "\<lambda>i. mm_identifier (mm_features r ! i)"
  have "0 \<le> sum_list (map (\<lambda>i. size_of (?h i)) is)" by (rule sum_list_nonneg) (use size_nonneg [OF Cons.prems(1)] in auto)
  then have le: "size_of (?h i) \<le> room c" using Cons.prems(6) by simp
  obtain c1 where c1: "alloc r i c = Inr c1" "inv c1" "room c1 = room c - size_of (?h i)" "held c1 \<subseteq> insert (?h i) (held c)"
    using alloc_ok [OF Cons.prems(1,2) _ _ le] Cons.prems(3,5) by auto
  have "?h j \<notin> held c1" if j: "j \<in> set is" for j
  proof -
    have "?h j \<noteq> ?h i" using Cons.prems(4) imageI [OF j, of ?h] by auto
    moreover have "?h j \<notin> held c" using Cons.prems(5) j by simp
    ultimately show ?thesis using c1(4) by blast
  qed
  from Cons.IH [OF c1(2) Cons.prems(2)] this Cons.prems(3,4,6) c1(3) obtain c' where
    "foldE (alloc r) is c1 = Inr c'" "inv c'" "room c' = room c1 - sum_list (map (\<lambda>i. size_of (?h i)) is)" by auto
  then show ?case using c1 by auto
qed simp

end

interpretation mm: encoder_room "ec_inv sz" ec_num_free_slots "\<lambda>c. dom (map_of (ec_cached c))" sz ec_can_allocate ec_allocate
proof unfold_locales
  fix c r i budget scheduled
  assume a: "ec_inv sz c" "sized sz r" "i < length (mm_features r)"
  from ec_can_allocate_spec [OF a, of budget scheduled] obtain ok k c' where
    s: "ec_can_allocate r i budget scheduled c = Inr (ok, c')" "ec_inv sz c'"
    "ok \<longleftrightarrow> sz (mm_identifier (mm_features r ! i)) \<le> budget
        \<and> sz (mm_identifier (mm_features r ! i)) + scheduled \<le> ec_num_freeable_slots c"
    "ok \<longrightarrow> sz (mm_identifier (mm_features r ! i)) + scheduled \<le> ec_num_free_slots c'" "ec_cache_size c' = ec_cache_size c"
    "\<forall>h. map_of (ec_cached c') h = (if h \<in> fst ` set (take k (ec_freeable c)) then None else map_of (ec_cached c) h)"
    by auto
  have sub: "dom (map_of (ec_cached c')) \<subseteq> dom (map_of (ec_cached c))"
  proof
    fix h assume "h \<in> dom (map_of (ec_cached c'))"
    then show "h \<in> dom (map_of (ec_cached c))" using s(6) by (auto simp: domIff split: if_splits)
  qed
  then have "(\<Sum>h \<in> dom (map_of (ec_cached c')). sz h) \<le> (\<Sum>h \<in> dom (map_of (ec_cached c)). sz h)"
    using ec_invD(7) [OF a(1)] by (intro sum_mono2) (simp_all add: finite_dom_map_of)
  then have "ec_num_free_slots c \<le> ec_num_free_slots c'" using ec_invD(4) [OF a(1)] ec_invD(4) [OF s(2)] s(5) by simp
  with s sub show "\<exists>ok c'. ec_can_allocate r i budget scheduled c = Inr (ok, c') \<and> ec_inv sz c'
        \<and> ec_num_free_slots c \<le> ec_num_free_slots c' \<and> dom (map_of (ec_cached c')) \<subseteq> dom (map_of (ec_cached c))
        \<and> (ok \<longrightarrow> sz (mm_identifier (mm_features r ! i)) + scheduled \<le> ec_num_free_slots c'
             \<and> sz (mm_identifier (mm_features r ! i)) \<le> budget)" by blast
next
  fix c r i
  assume a: "ec_inv sz c" "sized sz r" "i < length (mm_features r)"
    "mm_identifier (mm_features r ! i) \<notin> dom (map_of (ec_cached c))" "sz (mm_identifier (mm_features r ! i)) \<le> ec_num_free_slots c"
  from ec_allocate_spec [OF a(1-3) _ a(5)] a(4) show "\<exists>c'. ec_allocate r i c = Inr c' \<and> ec_inv sz c'
    \<and> ec_num_free_slots c' = ec_num_free_slots c - sz (mm_identifier (mm_features r ! i))
    \<and> dom (map_of (ec_cached c')) \<subseteq> insert (mm_identifier (mm_features r ! i)) (dom (map_of (ec_cached c)))"
    by (fastforce simp: domIff)
qed (simp add: ec_invD(7))

interpretation encdec: encoder_room "\<lambda>c. \<forall>h. 0 \<le> sz h" ed_num_free_slots "\<lambda>_. {}" sz
  "\<lambda>r i budget scheduled c. ebind (ed_can_allocate r i budget scheduled c) (\<lambda>b. Inr (b, c))" ed_allocate
  by unfold_locales (auto simp: ed_can_allocate_def ed_allocate_def sizedD)

subsection \<open>Properties\<close>

text \<open>A request with two images of three and four embeddings.\<close>

abbreviation example_mm_request :: "request" where
  "example_mm_request \<equiv> example_request\<lparr>mm_features :=
     [\<lparr>mm_identifier = ''a'', mm_pos = \<lparr>mm_offset = 0, mm_length = 3, is_embed = None\<rparr>\<rparr>,
      \<lparr>mm_identifier = ''b'', mm_pos = \<lparr>mm_offset = 3, mm_length = 4, is_embed = None\<rparr>\<rparr>]\<rparr>"

abbreviation example_size :: "string \<Rightarrow> int" where
  "example_size h \<equiv> (if h = ''a'' then 3 else if h = ''b'' then 4 else 0)"

lemma example_sized: "sized example_size example_mm_request"
  by (auto simp: sized_def get_num_encoder_embeds_def get_num_embeds_def eassert_def less_Suc_eq)

lemma example_size_nonneg: "\<forall>h. 0 \<le> example_size h"
  by simp

text \<open>
  C37: \<open>EncoderCacheManager.can_allocate\<close> says yes exactly when the compute budget and the reclaimable
  slots suffice, and then there is room; it evicts the oldest entries without references, no more of them
  than needed, reports them as freed, and never touches an entry that a request still references.
\<close>

theorem encoder_can_allocate_correct:
  fixes scheduled :: int
  assumes "rtranclp (ec_step sz) (init_encoder_cache n) c" "0 \<le> n" "\<forall>h. 0 \<le> sz h"
    and "sized sz r" "i < length (mm_features r)"
  defines "need \<equiv> sz (mm_identifier (mm_features r ! i)) + scheduled"
  shows "\<exists>ok k c'. ec_can_allocate r i budget scheduled c = Inr (ok, c')
    \<and> (ok \<longleftrightarrow> need - scheduled \<le> budget \<and> need \<le> ec_num_freeable_slots c)
    \<and> (ok \<longrightarrow> need \<le> ec_num_free_slots c') \<and> (\<not> ok \<longrightarrow> c' = c)
    \<and> ec_freeable c' = drop k (ec_freeable c) \<and> ec_freed c' = ec_freed c @ map fst (take k (ec_freeable c))
    \<and> (0 < k \<longrightarrow> ec_num_free_slots c + sum_list (map snd (take (k - 1) (ec_freeable c))) < need)
    \<and> (\<forall>h refs. map_of (ec_cached c) h = Some refs \<and> refs \<noteq> {} \<longrightarrow> map_of (ec_cached c') h = Some refs)"
proof -
  have inv: "ec_inv sz c" using ec_reachable_inv [OF assms(1) init_encoder_cache_inv [OF assms(2,3)]] by simp
  from ec_can_allocate_spec [OF inv assms(4,5), of budget scheduled] obtain ok k c' where
    s: "ec_can_allocate r i budget scheduled c = Inr (ok, c')"
    "ok \<longleftrightarrow> need - scheduled \<le> budget \<and> need \<le> ec_num_freeable_slots c"
    "ok \<longrightarrow> need \<le> ec_num_free_slots c'" "\<not> ok \<longrightarrow> c' = c"
    "ec_freeable c' = drop k (ec_freeable c)" "ec_freed c' = ec_freed c @ map fst (take k (ec_freeable c))"
    "0 < k \<longrightarrow> ec_num_free_slots c + sum_list (map snd (take (k - 1) (ec_freeable c))) < need"
    "\<forall>h. map_of (ec_cached c') h = (if h \<in> fst ` set (take k (ec_freeable c)) then None else map_of (ec_cached c) h)"
    unfolding need_def by blast
  have "map_of (ec_cached c') h = Some refs" if h: "map_of (ec_cached c) h = Some refs" "refs \<noteq> {}" for h refs
  proof -
    have "map_of (ec_freeable c) h = None" using ec_invD(3) [OF inv] h by simp
    then have "h \<notin> fst ` set (ec_freeable c)" by (simp add: map_of_eq_None_iff)
    then have "h \<notin> fst ` set (take k (ec_freeable c))" by (auto dest: in_set_takeD)
    then show ?thesis using s(8) h(1) by simp
  qed
  with s(1-7) show ?thesis by (intro exI [of _ ok] exI [of _ k] exI [of _ c']) blast
qed

lemma example_encoder_run:
  "(case ec_allocate example_mm_request 0 (init_encoder_cache 5) of Inl _ \<Rightarrow> False | Inr c \<Rightarrow>
     (case ec_free_encoder_input example_mm_request 0 c of Inl _ \<Rightarrow> False | Inr c \<Rightarrow>
       ec_num_freeable_slots c = 5 \<and> ec_num_free_slots c = 2 \<and> ec_freeable c = [(''a'', 3)]))"
  by code_simp

lemma example_encoder:
  obtains c where "rtranclp (ec_step example_size) (init_encoder_cache 5) c" "ec_num_freeable_slots c = 5"
    "ec_num_free_slots c = 2" "ec_freeable c = [(''a'', 3)]"
proof -
  obtain c1 c where c: "ec_allocate example_mm_request 0 (init_encoder_cache 5) = Inr c1"
    "ec_free_encoder_input example_mm_request 0 c1 = Inr c"
    "ec_num_freeable_slots c = 5" "ec_num_free_slots c = 2" "ec_freeable c = [(''a'', 3)]"
    using example_encoder_run by (auto split: sum.splits)
  have "ec_step example_size (init_encoder_cache 5) c1"
    by (rule ec_step.allocate [OF example_sized, of 0]) (use c(1) in \<open>simp_all add: init_encoder_cache_def\<close>)
  moreover have "ec_step example_size c1 c" by (rule ec_step.free_input [OF example_sized _ c(2)]) simp
  ultimately show thesis using c that by (meson converse_rtranclp_into_rtranclp r_into_rtranclp)
qed

theorem encoder_can_allocate_correct_witness:
  "\<exists>c c'. rtranclp (ec_step example_size) (init_encoder_cache 5) c
    \<and> ec_can_allocate example_mm_request 1 10 0 c = Inr (True, c') \<and> ec_freed c' = ec_freed c @ [''a'']"
proof (rule example_encoder)
  fix c assume c: "rtranclp (ec_step example_size) (init_encoder_cache 5) c" "ec_num_freeable_slots c = 5"
    "ec_num_free_slots c = 2" "ec_freeable c = [(''a'', 3)]"
  from encoder_can_allocate_correct [OF c(1) _ example_size_nonneg example_sized, of 1 10 0] obtain ok k c' where
    r: "ec_can_allocate example_mm_request 1 10 0 c = Inr (ok, c')" "ok \<longleftrightarrow> (4 :: int) \<le> 10 \<and> 4 \<le> ec_num_freeable_slots c"
    "ok \<longrightarrow> 4 \<le> ec_num_free_slots c'" "ec_freed c' = ec_freed c @ map fst (take k (ec_freeable c))" by auto
  have "k \<noteq> 0"
  proof
    assume "k = 0"
    then show False using r c by (auto simp: ec_can_allocate_def sizedD [OF example_sized] ec_evict.simps Let_def split: if_splits)
  qed
  with r c show ?thesis by (cases k) auto
qed

text \<open>
  C38: In every state the encoder cache can reach, the cached items fit into the cache, the slot counters
  are what they say (free: left over by the cached items; freeable: free or held by items without
  references), and the freeable items are exactly the cached ones that no request references.
\<close>

theorem encoder_cache_accounting:
  assumes "rtranclp (ec_step sz) (init_encoder_cache n) c" "0 \<le> n" "\<forall>h. 0 \<le> sz h"
  shows "ec_num_free_slots c = n - (\<Sum>h \<in> dom (map_of (ec_cached c)). sz h) \<and> 0 \<le> ec_num_free_slots c
    \<and> ec_num_freeable_slots c = n - (\<Sum>h \<in> {h. \<exists>refs. map_of (ec_cached c) h = Some refs \<and> refs \<noteq> {}}. sz h)
    \<and> fst ` set (ec_freeable c) = {h. map_of (ec_cached c) h = Some {}} \<and> distinct (map fst (ec_freeable c))"
proof -
  have inv: "ec_inv sz c" "ec_cache_size c = n"
    using ec_reachable_inv [OF assms(1) init_encoder_cache_inv [OF assms(2,3)]] by (simp_all add: init_encoder_cache_def)
  note d = ec_invD [OF inv(1)]
  let ?C = "dom (map_of (ec_cached c))" and ?F = "dom (map_of (ec_freeable c))"
    and ?R = "{h. \<exists>refs. map_of (ec_cached c) h = Some refs \<and> refs \<noteq> {}}"
  have F: "?F = {h. map_of (ec_cached c) h = Some {}}" unfolding d(3) by (auto split: if_splits)
  have C: "?C = ?R \<union> ?F" "?R \<inter> ?F = {}" unfolding F by auto
  have "finite (?R \<union> ?F)" unfolding C(1) [symmetric] by (rule finite_dom_map_of)
  then have "(\<Sum>h \<in> ?C. sz h) = (\<Sum>h \<in> ?R. sz h) + (\<Sum>h \<in> ?F. sz h)"
    unfolding C(1) by (intro sum.union_disjoint C(2)) simp_all
  then show ?thesis using d(2,4,5,6) inv(2) F by (simp add: dom_map_of_conv_image_fst)
qed

theorem encoder_cache_accounting_witness:
  "\<exists>c. rtranclp (ec_step example_size) (init_encoder_cache 5) c \<and> fst ` set (ec_freeable c) = {''a''}
    \<and> ec_num_freeable_slots c = 5 - (\<Sum>h \<in> {h. \<exists>refs. map_of (ec_cached c) h = Some refs \<and> refs \<noteq> {}}. example_size h)"
proof (rule example_encoder)
  fix c assume c: "rtranclp (ec_step example_size) (init_encoder_cache 5) c" "ec_freeable c = [(''a'', 3)]"
  have n: "(0 :: int) \<le> 5" by simp
  note a = encoder_cache_accounting [OF c(1) n example_size_nonneg]
  show ?thesis
    by (intro exI [of _ c] conjI) (fact c(1), simp add: c(2), rule a [THEN conjunct2, THEN conjunct2, THEN conjunct1])
qed

end
