(* ===== verification/Request_Queue.thy ===== *)
theory Request_Queue
  imports Request_Model "HOL-Library.Multiset" "HOL-Library.List_Lexorder" "HOL-Library.Char_ord"
begin

text \<open>
  \<open>vllm/v1/core/sched/request_queue.py\<close>: the queues of waiting requests, a deque for
  first-come-first-served and a heap for priorities (\<open>heapq\<close> of the standard library, translated and
  verified here), with the comparison \<open>Request.__lt__\<close> of \<open>vllm/v1/request.py\<close>.
\<close>

subsection \<open>The heap of the standard library\<close>

text \<open>
  \<open>heapq\<close> on a list: child \<open>i\<close> has parent \<open>(i - 1) div 2\<close>, and no child is less than its parent.
  The comparison \<open>lt\<close> is the \<open>__lt__\<close> of the items.
\<close>

definition parent :: "nat \<Rightarrow> nat" where
  "parent i = (i - 1) div 2"

lemma parent_less: "0 < i \<Longrightarrow> parent i < i"
  by (auto simp: parent_def)

lemma parent_child [simp]: "parent (2 * i + 1) = i" "parent (2 * i + 2) = i" "parent (Suc (2 * i)) = i" "parent (Suc (Suc (2 * i))) = i"
  by (simp_all add: parent_def)

lemma parent_eq: "0 < c \<Longrightarrow> parent c = i \<longleftrightarrow> c = 2 * i + 1 \<or> c = 2 * i + 2"
  by (auto simp: parent_def)

text \<open>\<open>_siftdown(heap, startpos, pos)\<close>: move \<open>newitem\<close> towards the root.\<close>

function sift_down :: "('a \<Rightarrow> 'a \<Rightarrow> bool) \<Rightarrow> 'a list \<Rightarrow> nat \<Rightarrow> nat \<Rightarrow> 'a \<Rightarrow> 'a list" where
  "sift_down lt hp startpos pos newitem =
     (if pos > startpos \<and> lt newitem (hp ! parent pos)
      then sift_down lt (hp[pos := hp ! parent pos]) startpos (parent pos) newitem
      else hp[pos := newitem])"
  by pat_completeness auto
termination by (relation "measure (\<lambda>(_, _, _, pos, _). pos)") (auto intro: parent_less)

declare sift_down.simps [simp del]

text \<open>\<open>_siftup(heap, pos)\<close>: move the smaller child up until a leaf is reached, then \<open>_siftdown\<close>.\<close>

definition smaller_child :: "('a \<Rightarrow> 'a \<Rightarrow> bool) \<Rightarrow> 'a list \<Rightarrow> nat \<Rightarrow> nat" where
  "smaller_child lt hp pos =
     (let child = 2 * pos + 1; right = child + 1
      in if right < length hp \<and> \<not> lt (hp ! child) (hp ! right) then right else child)"

function sink_hole :: "('a \<Rightarrow> 'a \<Rightarrow> bool) \<Rightarrow> 'a list \<Rightarrow> nat \<Rightarrow> 'a list \<times> nat" where
  "sink_hole lt hp pos =
     (if 2 * pos + 1 < length hp
      then sink_hole lt (hp[pos := hp ! smaller_child lt hp pos]) (smaller_child lt hp pos)
      else (hp, pos))"
  by pat_completeness auto
termination by (relation "measure (\<lambda>(_, hp, pos). length hp - pos)") (auto simp: smaller_child_def Let_def)

declare sink_hole.simps [simp del]

definition sift_up :: "('a \<Rightarrow> 'a \<Rightarrow> bool) \<Rightarrow> 'a list \<Rightarrow> nat \<Rightarrow> 'a list" where
  "sift_up lt hp pos = (let (hp', leaf) = sink_hole lt hp pos in sift_down lt hp' pos leaf (hp ! pos))"

definition heappush :: "('a \<Rightarrow> 'a \<Rightarrow> bool) \<Rightarrow> 'a list \<Rightarrow> 'a \<Rightarrow> 'a list" where
  "heappush lt hp item = sift_down lt (hp @ [item]) 0 (length hp) item"

definition heappop :: "('a \<Rightarrow> 'a \<Rightarrow> bool) \<Rightarrow> 'a list \<Rightarrow> ('a \<times> 'a list) result" where
  "heappop lt hp =
     (if hp = [] then Inl IndexError
      else let lastelt = last hp; hp = butlast hp
           in if hp = [] then Inr (lastelt, [])
              else Inr (hp ! 0, sift_up lt (hp[0 := lastelt]) 0))"

definition heapify :: "('a \<Rightarrow> 'a \<Rightarrow> bool) \<Rightarrow> 'a list \<Rightarrow> 'a list" where
  "heapify lt xs = fold (\<lambda>i xs. sift_up lt xs i) (rev [0 ..< length xs div 2]) xs"

subsection \<open>The heap is correct\<close>

locale heap_order =
  fixes lt :: "'a \<Rightarrow> 'a \<Rightarrow> bool"
  assumes asym: "lt a b \<Longrightarrow> \<not> lt b a"
    and le_trans: "\<not> lt b a \<Longrightarrow> \<not> lt c b \<Longrightarrow> \<not> lt c a"
begin

definition heap_from :: "nat \<Rightarrow> 'a list \<Rightarrow> bool" where
  "heap_from s xs \<longleftrightarrow> (\<forall>i. 0 < i \<and> i < length xs \<and> s \<le> parent i \<longrightarrow> \<not> lt (xs ! i) (xs ! parent i))"

lemma lt_irrefl: "\<not> lt a a"
  using asym by blast

lemma heap_root:
  assumes "heap_from 0 xs" "i < length xs"
  shows "\<not> lt (xs ! i) (xs ! 0)"
  using assms(2)
proof (induction i rule: less_induct)
  case (less i)
  show ?case
  proof (cases "i = 0")
    case False
    then have p: "parent i < i" by (simp add: parent_less)
    then have "\<not> lt (xs ! parent i) (xs ! 0)" using less by auto
    moreover have "\<not> lt (xs ! i) (xs ! parent i)" using assms(1) less(2) False by (simp add: heap_from_def)
    ultimately show ?thesis using le_trans by blast
  qed (simp add: lt_irrefl)
qed

text \<open>
  While the item moves up, only the edge above its place may be wrong, and its children are in order
  with its parent.  \<open>below\<close>: the place lies in the subtree of the start.
\<close>

definition below :: "nat \<Rightarrow> nat \<Rightarrow> bool" where
  "below s p \<longleftrightarrow> (\<exists>n. (parent ^^ n) p = s \<and> (\<forall>k < n. 0 < (parent ^^ k) p))"

lemma below_refl: "below s s"
  unfolding below_def by (rule exI [of _ 0]) simp

lemma below_parent: "below s p \<Longrightarrow> s < p \<Longrightarrow> below s (parent p) \<and> s \<le> parent p"
proof -
  assume b: "below s p" "s < p"
  then obtain n where n: "(parent ^^ n) p = s" "\<forall>k < n. 0 < (parent ^^ k) p" by (auto simp: below_def)
  obtain m where m: "n = Suc m" using n(1) b(2) by (cases n) auto
  have "(parent ^^ m) (parent p) = s" using n(1) m by (simp add: funpow_swap1)
  moreover have "\<forall>k < m. 0 < (parent ^^ k) (parent p)"
    using n(2) m by (metis Suc_less_eq comp_apply funpow_Suc_right)
  ultimately have bp: "below s (parent p)" by (auto simp: below_def)
  have le: "(parent ^^ k) q \<le> q" for k q
  proof (induction k)
    case (Suc k)
    have "parent x \<le> x" for x by (auto simp: parent_def)
    then show ?case using Suc order_trans by (metis comp_apply funpow.simps(2))
  qed simp
  show "below s (parent p) \<and> s \<le> parent p" using bp le [of m "parent p"] \<open>(parent ^^ m) (parent p) = s\<close> by simp
qed

lemma below_child: "below s (parent c) \<Longrightarrow> 0 < c \<Longrightarrow> below s c"
proof -
  assume b: "below s (parent c)" "0 < c"
  then obtain n where n: "(parent ^^ n) (parent c) = s" "\<forall>k < n. 0 < (parent ^^ k) (parent c)" by (auto simp: below_def)
  have "(parent ^^ Suc n) c = s" using n(1) by (simp add: funpow_swap1)
  moreover have "\<forall>k < Suc n. 0 < (parent ^^ k) c" using n(2) b(2) by (auto simp: less_Suc_eq_0_disj funpow_swap1)
  ultimately show "below s c" unfolding below_def by blast
qed

lemma sift_down_ok:
  assumes "p < length xs" "below s p"
    and "\<forall>i. 0 < i \<and> i < length xs \<and> s \<le> parent i \<and> i \<noteq> p \<and> parent i \<noteq> p \<longrightarrow> \<not> lt (xs ! i) (xs ! parent i)"
    and "\<forall>c. 0 < c \<and> c < length xs \<and> parent c = p \<longrightarrow> \<not> lt (xs ! c) x \<and> (s < p \<longrightarrow> \<not> lt (xs ! c) (xs ! parent p))"
  shows "heap_from s (sift_down lt xs s p x) \<and> mset (sift_down lt xs s p x) = mset (xs[p := x])"
  using assms
proof (induction p arbitrary: xs rule: less_induct)
  case (less p)
  note p = less(2) and b = less(3) and edges = less(4) and kids = less(5)
  let ?q = "parent p"
  show ?case
  proof (cases "s < p \<and> lt x (xs ! ?q)")
    case True
    then have p0: "0 < p" and q: "?q < p" by (auto intro: parent_less)
    have bq: "below s ?q" "s \<le> ?q" using below_parent [OF b] True by simp_all
    let ?ys = "xs[p := xs ! ?q]"
    have step: "sift_down lt xs s p x = sift_down lt ?ys s ?q x" using True by (subst sift_down.simps) simp
    have up: "\<not> lt (xs ! ?q) x" using True asym by blast
    have top: "\<not> lt (xs ! ?q) (xs ! parent ?q)" if "s < ?q"
    proof -
      have "parent ?q < ?q" using that by (intro parent_less) simp
      then show ?thesis using edges that q p below_parent [OF bq(1) that] by auto
    qed
    have e: "\<forall>i. 0 < i \<and> i < length ?ys \<and> s \<le> parent i \<and> i \<noteq> ?q \<and> parent i \<noteq> ?q \<longrightarrow> \<not> lt (?ys ! i) (?ys ! parent i)"
    proof (intro allI impI, elim conjE)
      fix i assume i: "0 < i" "i < length ?ys" "s \<le> parent i" "i \<noteq> ?q" "parent i \<noteq> ?q"
      then have "i \<noteq> p" by auto
      then show "\<not> lt (?ys ! i) (?ys ! parent i)" using i edges kids True p by (cases "parent i = p") auto
    qed
    have k: "\<forall>c. 0 < c \<and> c < length ?ys \<and> parent c = ?q \<longrightarrow> \<not> lt (?ys ! c) x \<and> (s < ?q \<longrightarrow> \<not> lt (?ys ! c) (?ys ! parent ?q))"
    proof (intro allI impI, elim conjE)
      fix c assume c: "0 < c" "c < length ?ys" "parent c = ?q"
      have v: "\<not> lt (?ys ! c) (xs ! ?q)" using c edges p q bq(2) lt_irrefl by (cases "c = p") auto
      have pp: "?ys ! parent ?q = xs ! parent ?q" if "s < ?q"
        using parent_less [of ?q] that q by (intro nth_list_update_neq) simp
      show "\<not> lt (?ys ! c) x \<and> (s < ?q \<longrightarrow> \<not> lt (?ys ! c) (?ys ! parent ?q))"
        using v up top pp le_trans by metis
    qed
    have "mset (?ys[?q := x]) = mset (xs[p := x])"
    proof -
      let ?zs = "xs[p := x]"
      have "?ys[?q := x] = ?zs[p := ?zs ! ?q, ?q := ?zs ! p]" using p q by (simp add: list_update_overwrite)
      then show ?thesis using p q mset_swap [of ?q ?zs p] by simp
    qed
    with less.IH [OF q _ bq(1) e k] p q show ?thesis unfolding step by simp
  next
    case False
    have step: "sift_down lt xs s p x = xs[p := x]" by (subst sift_down.simps) (rule if_not_P [OF False])
    have "\<not> lt (xs[p := x] ! i) (xs[p := x] ! parent i)" if i: "0 < i" "i < length xs" "s \<le> parent i" for i
    proof -
      have pi: "parent i < i" using i(1) by (rule parent_less)
      consider "i = p" | "parent i = p" | "i \<noteq> p" "parent i \<noteq> p" by blast
      then show ?thesis
      proof cases
        case 1
        then show ?thesis using False i pi p by auto
      next
        case 2
        then show ?thesis using kids i pi p by auto
      next
        case 3
        then show ?thesis using edges i by simp
      qed
    qed
    then show ?thesis unfolding step heap_from_def by simp
  qed
qed

text \<open>
  The hole sinks to a leaf.  All edges that do not touch the hole stay in order, and its children are in
  order with its parent.
\<close>

definition holed :: "nat \<Rightarrow> 'a list \<Rightarrow> nat \<Rightarrow> bool" where
  "holed s xs p \<longleftrightarrow> p < length xs \<and> below s p
     \<and> (\<forall>i. 0 < i \<and> i < length xs \<and> s \<le> parent i \<and> i \<noteq> p \<and> parent i \<noteq> p \<longrightarrow> \<not> lt (xs ! i) (xs ! parent i))
     \<and> (\<forall>c. 0 < c \<and> c < length xs \<and> parent c = p \<and> s < p \<longrightarrow> \<not> lt (xs ! c) (xs ! parent p))"

lemma smaller_child_ok:
  assumes "2 * p + 1 < length xs"
  defines "c \<equiv> smaller_child lt xs p"
  shows "0 < c" "c < length xs" "parent c = p" "0 < d \<Longrightarrow> d < length xs \<Longrightarrow> parent d = p \<Longrightarrow> \<not> lt (xs ! d) (xs ! c)"
proof -
  show "0 < c" "c < length xs" "parent c = p" using assms(1) by (auto simp: c_def smaller_child_def Let_def)
  show "\<not> lt (xs ! d) (xs ! c)" if "0 < d" "d < length xs" "parent d = p"
    using that assms(1) lt_irrefl asym parent_eq [OF that(1), of p] by (auto simp: c_def smaller_child_def Let_def)
qed

lemma sink_hole_ok:
  assumes "holed s xs p" "sink_hole lt xs p = (ys, l)"
  shows "holed s ys l \<and> length ys = length xs \<and> length xs \<le> 2 * l + 1 \<and> mset (ys[l := x]) = mset (xs[p := x])"
  using assms
proof (induction "length xs - p" arbitrary: xs p rule: less_induct)
  case less
  note IH = less(1) and h = less(2) and run = less(3)
  show ?case
  proof (cases "2 * p + 1 < length xs")
    case True
    let ?c = "smaller_child lt xs p"
    note c = smaller_child_ok [OF True]
    let ?zs = "xs[p := xs ! ?c]"
    have p: "p < length xs" and b: "below s p"
      and edges: "\<forall>i. 0 < i \<and> i < length xs \<and> s \<le> parent i \<and> i \<noteq> p \<and> parent i \<noteq> p \<longrightarrow> \<not> lt (xs ! i) (xs ! parent i)"
      and kids: "\<forall>c. 0 < c \<and> c < length xs \<and> parent c = p \<and> s < p \<longrightarrow> \<not> lt (xs ! c) (xs ! parent p)"
      using h by (auto simp: holed_def)
    have cp: "p < ?c" using parent_less [OF c(1)] c(3) by simp
    have bc: "below s ?c" using below_child [of s ?c] b c(1,3) by simp
    have sp: "s \<le> p"
    proof (rule ccontr)
      assume "\<not> s \<le> p"
      have le: "(parent ^^ k) p \<le> p" for k
      proof (induction k)
        case (Suc k)
        have "parent x \<le> x" for x by (auto simp: parent_def)
        then show ?case using Suc order_trans by (metis comp_apply funpow.simps(2))
      qed simp
      obtain n where "(parent ^^ n) p = s" using b by (auto simp: below_def)
      then show False using le [of n] \<open>\<not> s \<le> p\<close> by simp
    qed
    have "holed s ?zs ?c"
      unfolding holed_def
    proof (intro conjI allI impI; (elim conjE)?)
      show "?c < length ?zs" "below s ?c" using c(2) bc by simp_all
    next
      fix i assume i: "0 < i" "i < length ?zs" "s \<le> parent i" "i \<noteq> ?c" "parent i \<noteq> ?c"
      have pi: "parent i < i" using i(1) by (rule parent_less)
      consider "i = p" | "parent i = p" | "i \<noteq> p" "parent i \<noteq> p" by blast
      then show "\<not> lt (?zs ! i) (?zs ! parent i)"
      proof cases
        case 1
        then have "s < p" using i(3) pi by simp
        then show ?thesis using 1 kids c(1-3) pi p by auto
      next
        case 2
        then show ?thesis using c(4) [of i] i pi p by auto
      next
        case 3
        then show ?thesis using edges i by simp
      qed
    next
      fix d assume d: "0 < d" "d < length ?zs" "parent d = ?c" "s < ?c"
      have "d \<noteq> p" using parent_less [OF d(1)] d(3) cp by auto
      then show "\<not> lt (?zs ! d) (?zs ! parent ?c)" using edges d c(3) cp p sp by auto
    qed
    moreover have "sink_hole lt ?zs ?c = (ys, l)" using run True by (subst (asm) sink_hole.simps) simp
    ultimately have "holed s ys l \<and> length ys = length ?zs \<and> length ?zs \<le> 2 * l + 1 \<and> mset (ys[l := x]) = mset (?zs[?c := x])"
      using cp p by (intro IH) simp_all
    moreover have "mset (?zs[?c := x]) = mset (xs[p := x])"
    proof -
      let ?ws = "xs[p := x]"
      have "?zs[?c := x] = ?ws[p := ?ws ! ?c, ?c := ?ws ! p]" using p c(2) cp by (simp add: list_update_overwrite)
      then show ?thesis using p c(2) mset_swap [of ?c ?ws p] by simp
    qed
    ultimately show ?thesis by simp
  next
    case False
    have "sink_hole lt xs p = (xs, p)" by (subst sink_hole.simps) (rule if_not_P [OF False])
    then show ?thesis using h run False by auto
  qed
qed

lemma sift_up_ok:
  assumes "s < length xs" "heap_from (Suc s) xs"
  shows "heap_from s (sift_up lt xs s) \<and> mset (sift_up lt xs s) = mset xs \<and> length (sift_up lt xs s) = length xs"
proof -
  obtain ys l where r: "sink_hole lt xs s = (ys, l)" by (cases "sink_hole lt xs s")
  have "holed s xs s" using assms by (auto simp: holed_def heap_from_def below_refl)
  from sink_hole_ok [OF this r, of "xs ! s"] have h: "holed s ys l" "length ys = length xs" "length xs \<le> 2 * l + 1"
    "mset (ys[l := xs ! s]) = mset xs" using assms(1) by simp_all
  have "\<not> (0 < c \<and> c < length ys \<and> parent c = l)" for c
    using h(2,3) parent_eq [of c l] by auto
  then have "heap_from s (sift_down lt ys s l (xs ! s)) \<and> mset (sift_down lt ys s l (xs ! s)) = mset (ys[l := xs ! s])"
    using h(1) by (intro sift_down_ok) (auto simp: holed_def)
  then show ?thesis using h(4) r by (auto simp: sift_up_def dest: mset_eq_length)
qed

lemma heappush_ok:
  assumes "heap_from 0 xs"
  shows "heap_from 0 (heappush lt xs x) \<and> mset (heappush lt xs x) = add_mset x (mset xs)"
proof -
  have b: "below 0 (length xs)"
  proof -
    have "\<exists>n. (parent ^^ n) p = 0 \<and> (\<forall>k < n. 0 < (parent ^^ k) p)" for p
    proof (induction p rule: less_induct)
      case (less p)
      show ?case
      proof (cases "p = 0")
        case False
        then obtain n where "(parent ^^ n) (parent p) = 0" "\<forall>k < n. 0 < (parent ^^ k) (parent p)"
          using less parent_less by blast
        then show ?thesis using False
          by (intro exI [of _ "Suc n"]) (auto simp: less_Suc_eq_0_disj funpow_swap1)
      qed (intro exI [of _ 0], simp)
    qed
    then show ?thesis by (simp add: below_def)
  qed
  let ?ys = "xs @ [x]"
  have le: "parent i < length xs" if "0 < i" "i < length ?ys" for i using parent_less [OF that(1)] that(2) by simp
  have e: "\<forall>i. 0 < i \<and> i < length ?ys \<and> 0 \<le> parent i \<and> i \<noteq> length xs \<and> parent i \<noteq> length xs
      \<longrightarrow> \<not> lt (?ys ! i) (?ys ! parent i)"
    using assms le by (auto simp: heap_from_def nth_append)
  have k: "\<forall>c. 0 < c \<and> c < length ?ys \<and> parent c = length xs
      \<longrightarrow> \<not> lt (?ys ! c) x \<and> (0 < length xs \<longrightarrow> \<not> lt (?ys ! c) (?ys ! parent (length xs)))"
    using le by (metis less_irrefl)
  have "heap_from 0 (heappush lt xs x) \<and> mset (heappush lt xs x) = mset (?ys[length xs := x])"
    unfolding heappush_def by (rule sift_down_ok [OF _ b e k]) simp
  then show ?thesis by simp
qed

lemma heappop_ok:
  assumes "heap_from 0 xs" "xs \<noteq> []"
  shows "\<exists>ys. heappop lt xs = Inr (xs ! 0, ys) \<and> heap_from 0 ys \<and> add_mset (xs ! 0) (mset ys) = mset xs"
proof (cases "butlast xs = []")
  case True
  then obtain x where "xs = [x]" using assms(2) by (cases xs) (auto split: if_splits)
  then show ?thesis by (simp add: heappop_def heap_from_def)
next
  case False
  obtain ys z where xs: "xs = ys @ [z]" using assms(2) by (metis rev_exhaust)
  have ys: "ys \<noteq> []" using False xs by simp
  have hy: "heap_from 0 ys"
    unfolding heap_from_def
  proof (intro allI impI, elim conjE)
    fix i assume i: "0 < i" "i < length ys"
    then have "parent i < length ys" using parent_less [OF i(1)] by linarith
    moreover have "\<not> lt (xs ! i) (xs ! parent i)" using assms(1) i by (simp add: heap_from_def xs)
    ultimately show "\<not> lt (ys ! i) (ys ! parent i)" using i(2) by (simp add: xs nth_append)
  qed
  let ?zs = "ys[0 := z]"
  have "heap_from (Suc 0) ?zs" using hy by (auto simp: heap_from_def)
  from sift_up_ok [of 0 ?zs, OF _ this] ys have s: "heap_from 0 (sift_up lt ?zs 0)" "mset (sift_up lt ?zs 0) = mset ?zs" by auto
  have "add_mset (ys ! 0) (mset ?zs) = add_mset z (mset ys)"
    using ys by (cases ys) auto
  then show ?thesis using s ys xs by (auto simp: heappop_def nth_append)
qed

lemma heapify_ok: "heap_from 0 (heapify lt xs) \<and> mset (heapify lt xs) = mset xs"
proof -
  have "heap_from 0 (fold (\<lambda>i xs. sift_up lt xs i) (rev [0 ..< n]) ys) \<and> mset (fold (\<lambda>i xs. sift_up lt xs i) (rev [0 ..< n]) ys) = mset ys"
    if "heap_from n ys" "n \<le> length ys" for n ys
    using that
  proof (induction n arbitrary: ys)
    case (Suc n)
    then show ?case using sift_up_ok [of n ys] by auto
  qed simp
  moreover have "heap_from (length xs div 2) xs" by (auto simp: heap_from_def parent_def)
  ultimately show ?thesis by (simp add: heapify_def)
qed

end

subsection \<open>The queues\<close>

datatype scheduling_policy = FCFS | PRIORITY

text \<open>
  The class of the queue and the elements it holds: for first-come-first-served the deque from left to
  right, for priorities the list that \<open>heapq\<close> keeps.
\<close>

datatype 'a request_queue = FCFSQueue "'a list" | PriorityQueue "'a list"

fun create_request_queue :: "scheduling_policy \<Rightarrow> 'a request_queue" where
  "create_request_queue PRIORITY = PriorityQueue []"
| "create_request_queue FCFS = FCFSQueue []"

fun rq_items :: "'a request_queue \<Rightarrow> 'a list" where
  "rq_items (FCFSQueue xs) = xs"
| "rq_items (PriorityQueue xs) = xs"

fun rq_add :: "('a \<Rightarrow> 'a \<Rightarrow> bool) \<Rightarrow> 'a \<Rightarrow> 'a request_queue \<Rightarrow> 'a request_queue" where
  "rq_add lt r (FCFSQueue xs) = FCFSQueue (xs @ [r])"
| "rq_add lt r (PriorityQueue xs) = PriorityQueue (heappush lt xs r)"

fun rq_pop :: "('a \<Rightarrow> 'a \<Rightarrow> bool) \<Rightarrow> 'a request_queue \<Rightarrow> ('a \<times> 'a request_queue) result" where
  "rq_pop lt (FCFSQueue xs) = (case xs of [] \<Rightarrow> Inl IndexError | r # rs \<Rightarrow> Inr (r, FCFSQueue rs))"
| "rq_pop lt (PriorityQueue xs) =
     (if xs = [] then Inl IndexError
      else ebind (heappop lt xs) (\<lambda>(r, xs). Inr (r, PriorityQueue xs)))"

fun rq_peek :: "'a request_queue \<Rightarrow> 'a result" where
  "rq_peek (FCFSQueue xs) = (if xs = [] then Inl IndexError else Inr (xs ! 0))"
| "rq_peek (PriorityQueue xs) = (if xs = [] then Inl IndexError else Inr (xs ! 0))"

fun rq_prepend :: "('a \<Rightarrow> 'a \<Rightarrow> bool) \<Rightarrow> 'a \<Rightarrow> 'a request_queue \<Rightarrow> 'a request_queue" where
  "rq_prepend lt r (FCFSQueue xs) = FCFSQueue (r # xs)"
| "rq_prepend lt r (PriorityQueue xs) = rq_add lt r (PriorityQueue xs)"

text \<open>\<open>while heap_copy: yield heapq.heappop(heap_copy)\<close>\<close>

fun drain_heap :: "('a \<Rightarrow> 'a \<Rightarrow> bool) \<Rightarrow> nat \<Rightarrow> 'a list \<Rightarrow> 'a list" where
  "drain_heap lt 0 hp = []"
| "drain_heap lt (Suc n) hp =
     (case heappop lt hp of Inl _ \<Rightarrow> [] | Inr (r, hp) \<Rightarrow> r # drain_heap lt n hp)"

fun rq_iter :: "('a \<Rightarrow> 'a \<Rightarrow> bool) \<Rightarrow> 'a request_queue \<Rightarrow> 'a list" where
  "rq_iter lt (FCFSQueue xs) = xs"
| "rq_iter lt (PriorityQueue xs) = drain_heap lt (length xs) xs"

text \<open>\<open>deque.extendleft\<close> reverses; the priority queue adds one by one.\<close>

fun rq_prepend_all :: "('a \<Rightarrow> 'a \<Rightarrow> bool) \<Rightarrow> 'a request_queue \<Rightarrow> 'a request_queue \<Rightarrow> 'a request_queue" where
  "rq_prepend_all lt others (FCFSQueue xs) = FCFSQueue (rev (rq_iter lt others) @ xs)"
| "rq_prepend_all lt others (PriorityQueue xs) = fold (rq_add lt) (rq_iter lt others) (PriorityQueue xs)"

fun rq_remove :: "('a \<Rightarrow> 'a \<Rightarrow> bool) \<Rightarrow> 'a \<Rightarrow> 'a request_queue \<Rightarrow> 'a request_queue result" where
  "rq_remove lt r (FCFSQueue xs) = (if r \<in> set xs then Inr (FCFSQueue (remove1 r xs)) else Inl ValueError)"
| "rq_remove lt r (PriorityQueue xs) =
     (if r \<in> set xs then Inr (PriorityQueue (heapify lt (remove1 r xs))) else Inl ValueError)"

fun rq_remove_all :: "('a \<Rightarrow> 'a \<Rightarrow> bool) \<Rightarrow> 'a set \<Rightarrow> 'a request_queue \<Rightarrow> 'a request_queue" where
  "rq_remove_all lt rs (FCFSQueue xs) = FCFSQueue (filter (\<lambda>r. r \<notin> rs) xs)"
| "rq_remove_all lt rs (PriorityQueue xs) = PriorityQueue (heapify lt (filter (\<lambda>r. r \<notin> rs) xs))"

definition rq_truth :: "'a request_queue \<Rightarrow> bool" where
  "rq_truth q \<longleftrightarrow> rq_items q \<noteq> []"

definition rq_len :: "'a request_queue \<Rightarrow> nat" where
  "rq_len q = length (rq_items q)"

text \<open>
  \<open>Request.__lt__\<close>.  Strings compare by code points; \<open>addr\<close> is Python's \<open>id\<close>.
\<close>

definition request_less :: "(request \<Rightarrow> int) \<Rightarrow> request \<Rightarrow> request \<Rightarrow> bool" where
  "request_less addr r s =
     (if priority r \<noteq> priority s then priority r < priority s
      else if arrival_time r \<noteq> arrival_time s then arrival_time r < arrival_time s
      else if request_id r \<noteq> request_id s then request_id r < request_id s
      else addr r < addr s)"

subsection \<open>The contract\<close>

text \<open>
  What the scheduler relies on for either policy: nothing is lost or invented, \<open>pop\<close> returns what \<open>peek\<close>
  has shown, and an empty queue raises \<open>IndexError\<close>.
\<close>

locale queue_contract =
  fixes inv :: "'q \<Rightarrow> bool" and items :: "'q \<Rightarrow> 'a list"
    and add prepend :: "'a \<Rightarrow> 'q \<Rightarrow> 'q" and pop :: "'q \<Rightarrow> ('a \<times> 'q) result" and peek :: "'q \<Rightarrow> 'a result"
    and remove_all :: "'a set \<Rightarrow> 'q \<Rightarrow> 'q"
  assumes add_ok: "inv q \<Longrightarrow> inv (add x q) \<and> mset (items (add x q)) = add_mset x (mset (items q))"
    and prepend_ok: "inv q \<Longrightarrow> inv (prepend x q) \<and> mset (items (prepend x q)) = add_mset x (mset (items q))"
    and pop_ok: "inv q \<Longrightarrow> items q \<noteq> [] \<Longrightarrow>
      \<exists>x q'. pop q = Inr (x, q') \<and> peek q = Inr x \<and> inv q' \<and> mset (items q) = add_mset x (mset (items q'))"
    and empty: "inv q \<Longrightarrow> items q = [] \<Longrightarrow> pop q = Inl IndexError \<and> peek q = Inl IndexError"
    and remove_all_ok: "inv q \<Longrightarrow> inv (remove_all rs q) \<and> mset (items (remove_all rs q)) = filter_mset (\<lambda>x. x \<notin> rs) (mset (items q))"
begin

lemma peek_pop: "inv q \<Longrightarrow> peek q = Inr x \<Longrightarrow> \<exists>q'. pop q = Inr (x, q') \<and> inv q' \<and> mset (items q) = add_mset x (mset (items q'))"
  using pop_ok [of q] empty [of q] by fastforce

lemma pop_shrinks: "inv q \<Longrightarrow> pop q = Inr (x, q') \<Longrightarrow> inv q' \<and> Suc (length (items q')) = length (items q)
    \<and> x \<in> set (items q) \<and> set (items q') \<subseteq> set (items q)"
proof -
  assume q: "inv q" "pop q = Inr (x, q')"
  then have ne: "items q \<noteq> []" using empty [of q] by auto
  from pop_ok [OF q(1) ne] q(2) have m: "inv q'" "mset (items q) = add_mset x (mset (items q'))" by auto
  then have "length (items q) = Suc (length (items q'))" by (metis size_add_mset size_mset)
  moreover have "set (items q) = insert x (set (items q'))" using m(2) by (metis set_mset_add_mset_insert set_mset_mset)
  ultimately show ?thesis using m(1) by auto
qed

lemma add_all: "inv q \<Longrightarrow> inv (fold add xs q) \<and> mset (items (fold add xs q)) = mset xs + mset (items q)"
  by (induction xs arbitrary: q) (simp_all add: add_ok)

lemma prepend_all: "inv q \<Longrightarrow> inv (fold prepend xs q) \<and> mset (items (fold prepend xs q)) = mset xs + mset (items q)"
  by (induction xs arbitrary: q) (simp_all add: prepend_ok)

end

text \<open>Both queues fulfil it over every comparison that orders the requests.\<close>

context heap_order
begin

fun rq_inv :: "'a request_queue \<Rightarrow> bool" where
  "rq_inv (FCFSQueue xs) \<longleftrightarrow> True"
| "rq_inv (PriorityQueue xs) \<longleftrightarrow> heap_from 0 xs"

end

sublocale heap_order \<subseteq> rq: queue_contract rq_inv rq_items "rq_add lt" "rq_prepend lt" "rq_pop lt" rq_peek "rq_remove_all lt"
proof
  fix q :: "'a request_queue" and x rs
  show "rq_inv q \<Longrightarrow> rq_inv (rq_add lt x q) \<and> mset (rq_items (rq_add lt x q)) = add_mset x (mset (rq_items q))"
    using heappush_ok by (cases q) auto
  show "rq_inv q \<Longrightarrow> rq_inv (rq_prepend lt x q) \<and> mset (rq_items (rq_prepend lt x q)) = add_mset x (mset (rq_items q))"
    using heappush_ok by (cases q) auto
  show "rq_inv q \<Longrightarrow> rq_items q \<noteq> [] \<Longrightarrow>
      \<exists>x q'. rq_pop lt q = Inr (x, q') \<and> rq_peek q = Inr x \<and> rq_inv q' \<and> mset (rq_items q) = add_mset x (mset (rq_items q'))"
  proof (cases q)
    case (FCFSQueue xs)
    then show "rq_items q \<noteq> [] \<Longrightarrow> ?thesis" by (cases xs) auto
  next
    case (PriorityQueue xs)
    then show "rq_inv q \<Longrightarrow> rq_items q \<noteq> [] \<Longrightarrow> ?thesis" using heappop_ok [of xs] by fastforce
  qed
  show "rq_inv q \<Longrightarrow> rq_items q = [] \<Longrightarrow> rq_pop lt q = Inl IndexError \<and> rq_peek q = Inl IndexError"
    by (cases q) auto
  show "rq_inv q \<Longrightarrow> rq_inv (rq_remove_all lt rs q)
      \<and> mset (rq_items (rq_remove_all lt rs q)) = filter_mset (\<lambda>x. x \<notin> rs) (mset (rq_items q))"
    using heapify_ok by (cases q) simp_all
qed

context heap_order
begin

lemma drain_heap_ok:
  assumes "heap_from 0 xs" "length xs = n"
  shows "mset (drain_heap lt n xs) = mset xs \<and> sorted_wrt (\<lambda>x y. \<not> lt y x) (drain_heap lt n xs)"
  using assms
proof (induction n arbitrary: xs)
  case (Suc n)
  then have ne: "xs \<noteq> []" by auto
  obtain ys where ys: "heappop lt xs = Inr (xs ! 0, ys)" "heap_from 0 ys" "add_mset (xs ! 0) (mset ys) = mset xs"
    using heappop_ok [OF Suc.prems(1) ne] by blast
  have "length ys = n" using ys(3) Suc.prems(2) by (metis Suc_inject size_add_mset size_mset)
  from Suc.IH [OF ys(2) this] have ih: "mset (drain_heap lt n ys) = mset ys" "sorted_wrt (\<lambda>x y. \<not> lt y x) (drain_heap lt n ys)" by auto
  have "\<not> lt y (xs ! 0)" if "y \<in> set (drain_heap lt n ys)" for y
  proof -
    have "y \<in># mset ys" using that ih(1) by (metis set_mset_mset)
    then have "y \<in> set xs" using ys(3) by (metis set_mset_mset union_single_eq_member insertI2 set_mset_add_mset_insert)
    then show ?thesis using heap_root [OF Suc.prems(1)] by (auto simp: in_set_conv_nth)
  qed
  then show ?case using ys ih by simp
qed simp

lemma rq_iter_ok:
  assumes "rq_inv q"
  shows "mset (rq_iter lt q) = mset (rq_items q)"
  using assms drain_heap_ok by (cases q) auto

lemma rq_prepend_all_ok:
  assumes "rq_inv q" "rq_inv others"
  shows "rq_inv (rq_prepend_all lt others q)
    \<and> mset (rq_items (rq_prepend_all lt others q)) = mset (rq_items others) + mset (rq_items q)"
  using assms rq.add_all [of q "rq_iter lt others"] rq_iter_ok [of others] by (cases q) auto

lemma rq_remove_ok:
  assumes "rq_inv q" "x \<in> set (rq_items q)"
  shows "\<exists>q'. rq_remove lt x q = Inr q' \<and> rq_inv q' \<and> mset (rq_items q) = add_mset x (mset (rq_items q'))"
  using assms heapify_ok by (cases q) (auto simp: insert_DiffM)

lemma pop_least:
  assumes "rq_inv (PriorityQueue xs)" "rq_pop lt (PriorityQueue xs) = Inr (x, q)" "y \<in> set xs"
  shows "\<not> lt y x"
proof -
  have ne: "xs \<noteq> []" using assms(3) by auto
  have "x = xs ! 0" using assms(2) heappop_ok [of xs] ne assms(1) by (auto simp: ebind_eq_Inr)
  then show ?thesis using heap_root assms(1,3) by (auto simp: in_set_conv_nth)
qed

end

interpretation req: heap_order "request_less addr"
  by unfold_locales (auto simp: request_less_def split: if_splits)

subsection \<open>The elements of a heap, whatever its order\<close>

text \<open>
  The scheduler changes the arrival time of requests that sit in a heap, so these facts do not ask for
  the heap to be in order.
\<close>

lemma mset_move:
  assumes "i < length xs" "j < length xs" "i \<noteq> j"
  shows "mset (xs[i := xs ! j, j := x]) = mset (xs[i := x])"
proof -
  let ?zs = "xs[i := x]"
  have "?zs[j := ?zs ! i, i := ?zs ! j] = xs[i := xs ! j, j := x]"
    using assms by (simp add: list_eq_iff_nth_eq nth_list_update)
  moreover have "mset (?zs[j := ?zs ! i, i := ?zs ! j]) = mset ?zs"
    by (rule mset_swap) (use assms in simp_all)
  ultimately show ?thesis by simp
qed

lemma sift_down_mset:
  "p < length xs \<Longrightarrow> mset (sift_down lt xs s p x) = mset (xs[p := x])"
proof (induction lt xs s p x rule: sift_down.induct)
  case (1 lt xs s p x)
  show ?case
  proof (cases "p > s \<and> lt x (xs ! parent p)")
    case True
    then have "parent p < p" using parent_less [of p] by simp
    with 1 True mset_move [of p xs "parent p" x] show ?thesis by (subst sift_down.simps) simp
  next
    case False
    then show ?thesis by (subst sift_down.simps) (simp only: if_False)
  qed
qed

lemma sink_hole_mset:
  assumes "p < length xs" "sink_hole lt xs p = (ys, l)"
  shows "l < length ys \<and> mset (ys[l := x]) = mset (xs[p := x])"
  using assms
proof (induction lt xs p rule: sink_hole.induct)
  case (1 lt xs p)
  show ?case
  proof (cases "2 * p + 1 < length xs")
    case True
    let ?c = "smaller_child lt xs p"
    have c: "?c < length xs" "p \<noteq> ?c" using True by (auto simp: smaller_child_def Let_def)
    have "sink_hole lt (xs[p := xs ! ?c]) ?c = (ys, l)" using 1(3) True by (subst (asm) sink_hole.simps) simp
    then have "l < length ys \<and> mset (ys[l := x]) = mset (xs[p := xs ! ?c, ?c := x])" using 1(1) [OF True] c(1) by simp
    then show ?thesis using mset_move [OF 1(2) c] by simp
  next
    case False
    then show ?thesis using 1(2,3) by (subst (asm) sink_hole.simps) simp
  qed
qed

lemma sift_up_mset:
  assumes "p < length xs"
  shows "mset (sift_up lt xs p) = mset xs"
proof -
  obtain ys l where s: "sink_hole lt xs p = (ys, l)" by force
  from sink_hole_mset [OF assms this, of "xs ! p"] have "l < length ys" "mset (ys[l := xs ! p]) = mset xs" by simp_all
  then show ?thesis using sift_down_mset [of l ys lt p "xs ! p"] by (simp add: sift_up_def s)
qed

lemma heappush_mset: "mset (heappush lt xs x) = add_mset x (mset xs)"
  by (simp add: heappush_def sift_down_mset)

lemma heappop_mset:
  assumes "heappop lt xs = Inr (x, ys)"
  shows "mset xs = add_mset x (mset ys)" "x = xs ! 0"
proof -
  have e: "xs \<noteq> []" using assms by (auto simp: heappop_def)
  then have xs: "xs = butlast xs @ [last xs]" by simp
  have "mset xs = add_mset x (mset ys) \<and> x = xs ! 0"
  proof (cases "butlast xs")
    case Nil
    then show ?thesis using assms e xs by (auto simp: heappop_def Let_def)
  next
    case (Cons z zs)
    then have "xs = z # zs @ [last xs]" using xs by simp
    moreover have "x = z" "ys = sift_up lt (last xs # zs) 0" using assms e Cons by (auto simp: heappop_def Let_def)
    moreover have "mset (sift_up lt (last xs # zs) 0) = add_mset (last xs) (mset zs)" using sift_up_mset [of 0 "last xs # zs" lt] by simp
    ultimately show ?thesis by (metis add_mset_commute add_mset_add_single mset.simps(2) mset_append mset_single_iff_right nth_Cons_0 union_mset_add_mset_right)
  qed
  then show "mset xs = add_mset x (mset ys)" "x = xs ! 0" by simp_all
qed

lemma heappop_some: "xs \<noteq> [] \<Longrightarrow> \<exists>ys. heappop lt xs = Inr (xs ! 0, ys)"
  by (cases xs rule: rev_cases) (auto simp: heappop_def Let_def nth_append)

lemma heapify_mset: "mset (heapify lt xs) = mset xs"
proof -
  have "mset (fold (\<lambda>i xs. sift_up lt xs i) is xs) = mset xs" if "\<forall>i \<in> set is. i < length xs" for "is" :: "nat list"
    using that
  proof (induction "is" arbitrary: xs)
    case (Cons i "is")
    have m: "mset (sift_up lt xs i) = mset xs" using Cons.prems sift_up_mset [of i xs lt] by simp
    then have "length (sift_up lt xs i) = length xs" by (rule mset_eq_length)
    then show ?case using Cons m by simp
  qed simp
  then show ?thesis unfolding heapify_def by (rule) (use less_le_trans in auto)
qed

lemma rq_add_mset [simp]: "mset (rq_items (rq_add lt x q)) = add_mset x (mset (rq_items q))"
  by (cases q) (simp_all add: heappush_mset)

lemma rq_prepend_mset [simp]: "mset (rq_items (rq_prepend lt x q)) = add_mset x (mset (rq_items q))"
  by (cases q) (simp_all add: heappush_mset)

lemma rq_pop_mset: "rq_pop lt q = Inr (x, q') \<Longrightarrow> mset (rq_items q) = add_mset x (mset (rq_items q'))"
  by (cases q) (auto simp: ebind_eq_Inr heappop_mset(1) split: list.splits if_splits)

lemma rq_pop_peek: "rq_pop lt q = Inr (x, q') \<Longrightarrow> rq_peek q = Inr x"
  by (cases q) (auto simp: ebind_eq_Inr dest!: heappop_mset(2) split: list.splits if_splits)

lemma rq_peek_pop: "rq_peek q = Inr x \<Longrightarrow> \<exists>q'. rq_pop lt q = Inr (x, q')"
  by (cases q) (auto dest: heappop_some [of _ lt] split: list.splits if_splits)

lemma rq_peek_some: "rq_items q \<noteq> [] \<Longrightarrow> \<exists>x. rq_peek q = Inr x"
  by (cases q) auto

lemma rq_remove_all_mset [simp]:
  "mset (rq_items (rq_remove_all lt rs q)) = filter_mset (\<lambda>x. x \<notin> rs) (mset (rq_items q))"
  by (cases q) (simp_all add: heapify_mset)

lemma drain_heap_mset: "length xs = n \<Longrightarrow> mset (drain_heap lt n xs) = mset xs"
proof (induction n arbitrary: xs)
  case (Suc n)
  then have "xs \<noteq> []" by auto
  then obtain ys where y: "heappop lt xs = Inr (xs ! 0, ys)" using heappop_some [of xs lt] by blast
  have m: "mset xs = add_mset (xs ! 0) (mset ys)" by (rule heappop_mset(1) [OF y])
  then have "length ys = n" using Suc.prems by (metis size_mset size_add_mset nat.inject)
  then show ?case using Suc.IH [of ys] y m by simp
qed simp

lemma rq_iter_mset [simp]: "mset (rq_iter lt q) = mset (rq_items q)"
  by (cases q) (simp_all add: drain_heap_mset)

lemma rq_prepend_all_mset [simp]:
  "mset (rq_items (rq_prepend_all lt others q)) = mset (rq_items others) + mset (rq_items q)"
proof (cases q)
  case (FCFSQueue xs)
  then show ?thesis by simp
next
  case (PriorityQueue xs)
  have "mset (rq_items (fold (rq_add lt) zs q)) = mset zs + mset (rq_items q)" for zs
    by (induction zs arbitrary: q) auto
  then show ?thesis using PriorityQueue by simp
qed

subsection \<open>Properties\<close>

text \<open>One call on a queue.\<close>

inductive queue_op :: "('a \<Rightarrow> 'a \<Rightarrow> bool) \<Rightarrow> 'a request_queue \<Rightarrow> 'a request_queue \<Rightarrow> bool" for lt where
  add: "queue_op lt q (rq_add lt r q)"
| prepend: "queue_op lt q (rq_prepend lt r q)"
| pop: "rq_pop lt q = Inr (r, q') \<Longrightarrow> queue_op lt q q'"
| remove: "rq_remove lt r q = Inr q' \<Longrightarrow> queue_op lt q q'"
| remove_all: "queue_op lt q (rq_remove_all lt rs q)"
| prepend_all: "rtranclp (queue_op lt) (create_request_queue policy) others \<Longrightarrow> queue_op lt q (rq_prepend_all lt others q)"
monos rtranclp_mono

context heap_order
begin

lemma queue_op_inv:
  assumes "queue_op lt q q'"
  shows "rq_inv q \<Longrightarrow> rq_inv q'"
  using assms
proof (induction rule: queue_op.induct)
  case (add q r)
  then show ?case using rq.add_ok by blast
next
  case (prepend q r)
  then show ?case using rq.prepend_ok by blast
next
  case (pop q r q')
  then show ?case using rq.pop_shrinks by blast
next
  case (remove r q q')
  then have m: "r \<in> set (rq_items q)" by (cases q) (auto split: if_splits)
  show ?case using rq_remove_ok [OF remove(2) m] remove(1) by auto
next
  case (remove_all q rs)
  then show ?case using rq.remove_all_ok by blast
next
  case (prepend_all policy others q)
  have "rq_inv others" using prepend_all(1)
    by (induction rule: rtranclp_induct) (cases policy; auto simp: heap_from_def)+
  then show ?case using rq_prepend_all_ok prepend_all(2) by blast
qed

lemma reachable_queue_inv:
  assumes "rtranclp (queue_op lt) (create_request_queue policy) q"
  shows "rq_inv q"
  using assms by (induction rule: rtranclp_induct) (cases policy; auto simp: heap_from_def queue_op_inv)+

end

text \<open>
  C39: A priority queue, whatever calls it has seen, pops a request with the least priority value, among
  those the earliest, and among those the least id; \<open>peek\<close> shows the same request, all others stay, and
  iterating lists the requests in that order without changing the queue.
\<close>

theorem priority_queue_pops_least:
  assumes "rtranclp (queue_op (request_less addr)) (create_request_queue PRIORITY) (PriorityQueue xs)" "xs \<noteq> []"
  shows "\<exists>r ys. rq_pop (request_less addr) (PriorityQueue xs) = Inr (r, PriorityQueue ys) \<and> rq_peek (PriorityQueue xs) = Inr r
    \<and> mset xs = add_mset r (mset ys)
    \<and> (\<forall>s \<in> set xs. priority r < priority s \<or> priority r = priority s \<and> (arrival_time r < arrival_time s
         \<or> arrival_time r = arrival_time s \<and> request_id r \<le> request_id s))
    \<and> mset (rq_iter (request_less addr) (PriorityQueue xs)) = mset xs
    \<and> sorted_wrt (\<lambda>x y. \<not> request_less addr y x) (rq_iter (request_less addr) (PriorityQueue xs))"
proof -
  have inv: "req.rq_inv addr (PriorityQueue xs)" by (rule req.reachable_queue_inv [OF assms(1)])
  then have h: "req.heap_from addr 0 xs" by simp
  obtain ys where p: "heappop (request_less addr) xs = Inr (xs ! 0, ys)" "add_mset (xs ! 0) (mset ys) = mset xs"
    using req.heappop_ok [OF h assms(2)] by blast
  have le: "priority (xs ! 0) < priority s \<or> priority (xs ! 0) = priority s \<and> (arrival_time (xs ! 0) < arrival_time s
         \<or> arrival_time (xs ! 0) = arrival_time s \<and> request_id (xs ! 0) \<le> request_id s)" if s: "s \<in> set xs" for s
  proof -
    have "\<not> request_less addr s (xs ! 0)" using req.heap_root [OF h] s by (auto simp: in_set_conv_nth)
    then show ?thesis by (auto simp: request_less_def split: if_splits)
  qed
  show ?thesis using p le assms(2) req.drain_heap_ok [OF h refl] by auto
qed

theorem priority_queue_pops_least_witness:
  "\<exists>xs. rtranclp (queue_op (request_less (\<lambda>_. 0))) (create_request_queue PRIORITY) (PriorityQueue xs)
    \<and> (\<exists>r ys. rq_pop (request_less (\<lambda>_. 0)) (PriorityQueue xs) = Inr (r, PriorityQueue ys) \<and> priority r = 1)"
proof -
  let ?lt = "request_less (\<lambda>_. 0)" and ?r = "\<lambda>p. example_request\<lparr>priority := p\<rparr>"
  have a: "queue_op ?lt (PriorityQueue []) (rq_add ?lt (?r 2) (PriorityQueue []))"
    "queue_op ?lt (rq_add ?lt (?r 2) (PriorityQueue [])) (rq_add ?lt (?r 1) (rq_add ?lt (?r 2) (PriorityQueue [])))"
    by (rule queue_op.add)+
  obtain xs where xs: "rq_add ?lt (?r 1) (rq_add ?lt (?r 2) (PriorityQueue [])) = PriorityQueue xs" by simp
  have op: "rtranclp (queue_op ?lt) (create_request_queue PRIORITY) (PriorityQueue xs)"
    using a unfolding xs by (simp add: rtranclp.rtrancl_into_rtrancl [OF r_into_rtranclp])
  have m: "mset xs = {#?r 1, ?r 2#}"
    using xs req.heappush_ok [of "\<lambda>_. 0" "[]" "?r 2"] req.heappush_ok [of "\<lambda>_. 0" "heappush ?lt [] (?r 2)" "?r 1"]
    by (simp add: req.heap_from_def)
  then have "xs \<noteq> []" by auto
  from priority_queue_pops_least [OF op this] obtain r ys where
    r: "rq_pop ?lt (PriorityQueue xs) = Inr (r, PriorityQueue ys)" "mset xs = add_mset r (mset ys)"
    "\<forall>s \<in> set xs. priority r < priority s \<or> priority r = priority s \<and> (arrival_time r < arrival_time s
         \<or> arrival_time r = arrival_time s \<and> request_id r \<le> request_id s)" by blast
  have s: "set xs = {?r 1, ?r 2}" using m by (metis set_mset_add_mset_insert set_mset_empty set_mset_mset)
  have "r \<in> set xs" using r(2) by (metis set_mset_mset union_single_eq_member)
  moreover have "priority r \<le> 1" using r(3) s by auto
  ultimately have "priority r = 1" using s by auto
  with op r(1) show ?thesis by blast
qed

text \<open>
  C40: Requests that the scheduler skips in one pass keep their order ahead of those skipped before:
  prepending them one by one and then prepending the collected queue restores it (both
  operations reverse), and with priorities nothing is lost.
\<close>

theorem skipped_requests_keep_order:
  "rq_prepend_all lt (fold (rq_prepend lt) xs (create_request_queue FCFS)) (FCFSQueue old) = FCFSQueue (xs @ old)
   \<and> mset (rq_items (rq_prepend_all (request_less addr) (fold (rq_prepend (request_less addr)) rs (create_request_queue PRIORITY))
         (fold (rq_add (request_less addr)) ss (create_request_queue PRIORITY)))) = mset rs + mset ss"
proof -
  have "fold (rq_prepend lt) xs (FCFSQueue zs) = FCFSQueue (rev xs @ zs)" for zs
    by (induction xs arbitrary: zs) auto
  moreover have e: "req.rq_inv addr (create_request_queue PRIORITY)" by (simp add: req.heap_from_def)
  note a = req.rq.prepend_all [OF e, of rs] req.rq.add_all [OF e, of ss]
  ultimately show ?thesis using req.rq_prepend_all_ok [OF a(2) [THEN conjunct1] a(1) [THEN conjunct1]] a by simp
qed

end
