(* ===== verification/Scheduler_State.thy ===== *)
theory Scheduler_State
  imports Hybrid_Search Sched_Utils Encoder_Cache Request_Queue
begin

text \<open>
  The state of \<open>Scheduler\<close> (\<open>vllm/v1/core/sched/scheduler.py\<close>): its configuration, the objects it owns (KV cache
  manager, encoder cache, requests and queues), what it asks of code outside it, and the helpers that pick and
  fill the waiting queues.
\<close>

subsection \<open>Embeddings of a placeholder range\<close>

definition embeds_cumsum :: "bool list \<Rightarrow> int list" where
  "embeds_cumsum emb = map (\<lambda>i. int (length (filter (\<lambda>b. b) (take (Suc i) emb)))) [0 ..< length emb]"

definition get_embeds_indices_in_range :: "mm_position \<Rightarrow> int \<Rightarrow> int \<Rightarrow> (int \<times> int) result" where
  "get_embeds_indices_in_range p start_idx end_idx =
     (case is_embed p of
        None \<Rightarrow> Inr (start_idx, end_idx)
      | Some emb \<Rightarrow>
          ebind (if start_idx > 0 then py_index (embeds_cumsum emb) (start_idx - 1) else Inr 0) (\<lambda>embeds_start_idx.
          ebind (py_index (embeds_cumsum emb) (end_idx - 1)) (\<lambda>embeds_end_idx.
            Inr (embeds_start_idx, embeds_end_idx))))"

subsection \<open>Either encoder cache\<close>

datatype encoder_manager = MMCache encoder_cache | EncDecCache encdec_cache

fun em_reset :: "encoder_manager \<Rightarrow> encoder_manager" where
  "em_reset (MMCache c) = MMCache (ec_reset c)"
| "em_reset (EncDecCache c) = EncDecCache (ed_reset c)"

fun em_check_and_update :: "request \<Rightarrow> nat \<Rightarrow> encoder_manager \<Rightarrow> (bool \<times> encoder_manager) result" where
  "em_check_and_update r i (MMCache c) = ebind (ec_check_and_update r i c) (\<lambda>(b, c). Inr (b, MMCache c))"
| "em_check_and_update r i (EncDecCache c) = (let (b, c) = ed_check_and_update r i c in Inr (b, EncDecCache c))"

fun em_can_allocate :: "request \<Rightarrow> nat \<Rightarrow> int \<Rightarrow> int \<Rightarrow> encoder_manager \<Rightarrow> (bool \<times> encoder_manager) result" where
  "em_can_allocate r i budget scheduled (MMCache c) =
     ebind (ec_can_allocate r i budget scheduled c) (\<lambda>(b, c). Inr (b, MMCache c))"
| "em_can_allocate r i budget scheduled (EncDecCache c) =
     ebind (ed_can_allocate r i budget scheduled c) (\<lambda>b. Inr (b, EncDecCache c))"

fun em_allocate :: "request \<Rightarrow> nat \<Rightarrow> encoder_manager \<Rightarrow> encoder_manager result" where
  "em_allocate r i (MMCache c) = ebind (ec_allocate r i c) (\<lambda>c. Inr (MMCache c))"
| "em_allocate r i (EncDecCache c) = ebind (ed_allocate r i c) (\<lambda>c. Inr (EncDecCache c))"

fun em_free_encoder_input :: "request \<Rightarrow> nat \<Rightarrow> encoder_manager \<Rightarrow> encoder_manager result" where
  "em_free_encoder_input r i (MMCache c) = ebind (ec_free_encoder_input r i c) (\<lambda>c. Inr (MMCache c))"
| "em_free_encoder_input r i (EncDecCache c) = ebind (ed_free_encoder_input r i c) (\<lambda>c. Inr (EncDecCache c))"

fun em_free :: "(nat set \<Rightarrow> nat list) \<Rightarrow> request \<Rightarrow> encoder_manager \<Rightarrow> encoder_manager result" where
  "em_free set_order r (MMCache c) = ebind (ec_free set_order r c) (\<lambda>c. Inr (MMCache c))"
| "em_free set_order r (EncDecCache c) = ebind (ed_free r c) (\<lambda>c. Inr (EncDecCache c))"

fun em_get_cached_input_ids :: "request \<Rightarrow> encoder_manager \<Rightarrow> nat set" where
  "em_get_cached_input_ids r (MMCache c) = ec_get_cached_input_ids r c"
| "em_get_cached_input_ids r (EncDecCache c) = ed_get_cached_input_ids r"

fun em_get_freed_mm_hashes :: "encoder_manager \<Rightarrow> string list \<times> encoder_manager" where
  "em_get_freed_mm_hashes (MMCache c) = (let (hs, c) = ec_get_freed_mm_hashes c in (hs, MMCache c))"
| "em_get_freed_mm_hashes (EncDecCache c) = (let (hs, c) = ed_get_freed_mm_hashes c in (hs, EncDecCache c))"

fun em_slots :: "encoder_manager \<Rightarrow> int \<times> int" where
  "em_slots (MMCache c) = (ec_cache_size c, ec_num_free_slots c)"
| "em_slots (EncDecCache c) = (ed_cache_size c, ed_num_free_slots c)"

subsection \<open>Configuration and surroundings\<close>

text \<open>What \<open>Scheduler.__init__\<close> reads from the configuration and never changes.\<close>

record sched_config =
  policy :: scheduling_policy
  max_num_running_reqs :: int
  max_num_scheduled_tokens :: int
  max_model_len :: int
  long_prefill_token_threshold :: int
  enable_chunked_prefill :: bool
  disable_chunked_mm :: bool
  max_encoder_tokens :: int
  use_eagle :: bool
  num_spec_tokens :: int
  num_lookahead_tokens :: int
  is_encoder_decoder :: bool
  need_mamba_block_aligned_split :: bool
  cache_block_size :: int \<comment> \<open>\<open>cache_config.block_size\<close>\<close>
  sched_block_size :: int \<comment> \<open>the argument \<open>block_size\<close>\<close>
  scheduler_reserve_full_isl :: bool
  max_loras :: "int option" \<comment> \<open>\<open>None\<close>: no \<open>lora_config\<close>\<close>
  needs_kv_cache_zeroing :: bool
  use_pp :: bool
  async_scheduling :: bool
  use_v2_model_runner :: bool
  recompute_kv_load_failures :: bool

text \<open>
  What the scheduler asks of code outside it during one call: a KV connector (the number of tokens an
  external cache holds and whether it loads them in the background; whether a finished request's blocks are
  still being sent; whether it could reset its cache), an encoder-cache connector, and the structured-output
  manager.
\<close>

record kv_connector =
  get_num_new_matched_tokens :: "request \<Rightarrow> int \<Rightarrow> int option \<times> bool"
  request_finished :: "request \<Rightarrow> int list \<Rightarrow> bool"
  request_finished_all_groups :: "request \<Rightarrow> int list list \<Rightarrow> bool"
  supports_hma :: bool
  cn_reset_cache :: "bool option"

record sched_env =
  se_pool :: pool_env
  se_hasher :: "hasher option"
  se_addr :: "request \<Rightarrow> int"
  se_set_order :: "nat set \<Rightarrow> nat list"
  se_connector :: "kv_connector option"
  se_has_cache_item :: "(string \<Rightarrow> bool) option" \<comment> \<open>\<open>None\<close>: no \<open>ec_connector\<close>\<close>
  se_has_grammar :: "string \<Rightarrow> bool" \<comment> \<open>by request id: the grammar is compiled\<close>
  se_should_advance :: "request \<Rightarrow> bool"
  se_validate_tokens :: "request \<Rightarrow> int list \<Rightarrow> int list"

subsection \<open>State\<close>

datatype pause_state = UNPAUSED | PAUSED_NEW | PAUSED_ALL

text \<open>
  The requests are objects that the dictionary \<open>requests\<close> and the queues share; here the dictionary holds
  them and the queues hold their ids.
\<close>

record scheduler =
  sd_config :: sched_config
  sd_kv :: kv_manager
  sd_encoder :: encoder_manager
  sd_requests :: "(string \<times> request) list"
  sd_waiting :: "string request_queue"
  sd_skipped :: "string request_queue"
  sd_running :: "string list"
  sd_finished_ids :: "string set"
  sd_num_streaming :: int
  sd_finished_recving :: "string set"
  sd_failed_recving :: "string set"
  sd_prev_ids :: "string set"
  sd_pause :: pause_state

definition init_scheduler :: "sched_config \<Rightarrow> kv_manager \<Rightarrow> int \<Rightarrow> scheduler" where
  "init_scheduler cfg kv encoder_size =
     \<lparr>sd_config = cfg, sd_kv = kv,
      sd_encoder = (if is_encoder_decoder cfg then EncDecCache (init_encdec_cache encoder_size)
                    else MMCache (init_encoder_cache encoder_size)),
      sd_requests = [], sd_waiting = create_request_queue (policy cfg), sd_skipped = create_request_queue (policy cfg),
      sd_running = [], sd_finished_ids = {}, sd_num_streaming = 0, sd_finished_recving = {}, sd_failed_recving = {},
      sd_prev_ids = {}, sd_pause = UNPAUSED\<rparr>"

definition get_req :: "string \<Rightarrow> scheduler \<Rightarrow> request result" where
  "get_req rid s = (case map_of (sd_requests s) rid of None \<Rightarrow> Inl KeyError | Some r \<Rightarrow> Inr r)"

definition put_req :: "request \<Rightarrow> scheduler \<Rightarrow> scheduler" where
  "put_req r s = s\<lparr>sd_requests := AList.update (request_id r) r (sd_requests s)\<rparr>"

text \<open>\<open>Request.__lt__\<close> on ids.\<close>

definition id_less :: "sched_env \<Rightarrow> scheduler \<Rightarrow> string \<Rightarrow> string \<Rightarrow> bool" where
  "id_less env s a b =
     (case (map_of (sd_requests s) a, map_of (sd_requests s) b) of
        (Some x, Some y) \<Rightarrow> request_less (se_addr env) x y
      | _ \<Rightarrow> False)"

definition is_blocked_waiting_status :: "request_status \<Rightarrow> bool" where
  "is_blocked_waiting_status st \<longleftrightarrow>
     st \<in> {WAITING_FOR_STRUCTURED_OUTPUT_GRAMMAR, WAITING_FOR_REMOTE_KVS, WAITING_FOR_STREAMING_REQ}"

definition enqueue_waiting_request :: "sched_env \<Rightarrow> request \<Rightarrow> scheduler \<Rightarrow> scheduler" where
  "enqueue_waiting_request env r s =
     (if is_blocked_waiting_status (status r)
      then s\<lparr>sd_skipped := rq_add (id_less env s) (request_id r) (sd_skipped s)\<rparr>
      else s\<lparr>sd_waiting := rq_add (id_less env s) (request_id r) (sd_waiting s)\<rparr>)"

datatype which_queue = TheWaiting | TheSkipped

definition select_waiting_queue_for_scheduling :: "sched_env \<Rightarrow> scheduler \<Rightarrow> which_queue option result" where
  "select_waiting_queue_for_scheduling env s =
     (if policy (sd_config s) = FCFS
      then Inr (if rq_truth (sd_skipped s) then Some TheSkipped
                else if rq_truth (sd_waiting s) then Some TheWaiting else None)
      else if rq_truth (sd_waiting s) \<and> rq_truth (sd_skipped s)
      then ebind (rq_peek (sd_waiting s)) (\<lambda>waiting_req.
           ebind (rq_peek (sd_skipped s)) (\<lambda>skipped_req.
             Inr (Some (if id_less env s waiting_req skipped_req then TheWaiting else TheSkipped))))
      else Inr (if rq_truth (sd_waiting s) then Some TheWaiting
                else if rq_truth (sd_skipped s) then Some TheSkipped else None))"

fun the_queue :: "which_queue \<Rightarrow> scheduler \<Rightarrow> string request_queue" where
  "the_queue TheWaiting s = sd_waiting s"
| "the_queue TheSkipped s = sd_skipped s"

fun pop_from :: "sched_env \<Rightarrow> which_queue \<Rightarrow> scheduler \<Rightarrow> (string \<times> scheduler) result" where
  "pop_from env TheWaiting s =
     ebind (rq_pop (id_less env s) (sd_waiting s)) (\<lambda>(rid, q). Inr (rid, s\<lparr>sd_waiting := q\<rparr>))"
| "pop_from env TheSkipped s =
     ebind (rq_pop (id_less env s) (sd_skipped s)) (\<lambda>(rid, q). Inr (rid, s\<lparr>sd_skipped := q\<rparr>))"

end
