(* ===== verification/Sched_Running.thy ===== *)
theory Sched_Running
  imports Scheduler_State "HOL-Library.Product_Lexorder"
begin

text \<open>
  The running requests in \<open>Scheduler.schedule\<close> (\<open>vllm/v1/core/sched/scheduler.py\<close>): how many tokens each gets, its
  encoder inputs, and the preemption of other requests until its slots fit.  The outer loop ends because every
  turn moves the index towards the end of the list, the inner one because it shortens the list.
\<close>

lemma ebind_cong [fundef_cong]:
  "m = m' \<Longrightarrow> (\<And>x. m' = Inr x \<Longrightarrow> f x = f' x) \<Longrightarrow> ebind m f = ebind m' f'"
  by (cases m') auto

text \<open>A step that returned, taken apart.\<close>

lemma case_sum_eq_Inr:
  "(case x of Inl a \<Rightarrow> f a | Inr b \<Rightarrow> g b) = Inr y \<longleftrightarrow> (\<exists>a. x = Inl a \<and> f a = Inr y) \<or> (\<exists>b. x = Inr b \<and> g b = Inr y)"
  by (cases x) auto

lemma case_option_eq_Inr:
  "(case x of None \<Rightarrow> a | Some z \<Rightarrow> f z) = Inr y \<longleftrightarrow> (x = None \<and> a = Inr y) \<or> (\<exists>z. x = Some z \<and> f z = Inr y)"
  by (cases x) auto

lemma case_prod_eq_Inr: "(case p of (a, b) \<Rightarrow> f a b) = Inr y \<longleftrightarrow> (\<exists>a b. p = (a, b) \<and> f a b = Inr y)"
  by (cases p) auto

lemma if_eq_Inr: "(if c then a else b) = Inr y \<longleftrightarrow> (c \<and> a = Inr y) \<or> (\<not> c \<and> b = Inr y)"
  by simp

lemmas returned = ebind_eq_Inr case_sum_eq_Inr case_option_eq_Inr case_prod_eq_Inr if_eq_Inr Let_def

subsection \<open>How many tokens\<close>

text \<open>\<open>_mamba_block_aligned_split\<close>\<close>

definition mamba_block_aligned_split :: "sched_config \<Rightarrow> request \<Rightarrow> int \<Rightarrow> int \<Rightarrow> int \<Rightarrow> int result" where
  "mamba_block_aligned_split cfg r num_new num_new_local num_external =
     ebind (eassert (num_external = 0)) (\<lambda>_.
     let n_computed = num_computed_tokens r + num_new_local + num_external in
     if n_computed < max (num_prompt_tokens r) (num_tokens r - 1)
     then
       ebind (if cache_block_size cfg = 0 then Inl ZeroDivisionError else Inr (num_tokens r mod cache_block_size cfg)) (\<lambda>m.
       let bs = cache_block_size cfg;
           last_cache_position = num_tokens r - m;
           last_cache_position = (if use_eagle cfg then max (last_cache_position - bs) 0 else last_cache_position);
           n_after = n_computed + num_new
       in Inr (if n_after < last_cache_position then num_new div bs * bs
               else if n_computed < last_cache_position \<and> last_cache_position < n_after
               then last_cache_position - n_computed
               else num_new))
     else Inr num_new)"

subsection \<open>Encoder inputs\<close>

text \<open>The local variables of the loop of \<open>_try_schedule_encoder_inputs\<close>.\<close>

record encoder_step =
  es_inputs :: "nat list"
  es_num_new :: int
  es_budget :: int
  es_external :: "nat list"
  es_hashes :: "string set"
  es_embeds :: int
  es_cache :: encoder_manager

text \<open>One turn; the flag tells whether the loop goes on.\<close>

definition encoder_turn ::
  "sched_env \<Rightarrow> sched_config \<Rightarrow> request \<Rightarrow> int \<Rightarrow> int \<Rightarrow> nat \<Rightarrow> encoder_step \<Rightarrow> (bool \<times> encoder_step) result" where
  "encoder_turn env cfg r n_computed shift i e =
     (let f = mm_features r ! i; start_pos = mm_offset (mm_pos f); num_encoder_tokens = mm_length (mm_pos f) in
      ebind (get_num_embeds (mm_pos f)) (\<lambda>num_embeds.
      if start_pos \<ge> n_computed + es_num_new e + shift then Inr (False, e)
      else if is_encoder_decoder cfg \<and> n_computed > 0
      then ebind (eassert (start_pos = 0)) (\<lambda>_. Inr (True, e))
      else if start_pos + num_encoder_tokens \<le> n_computed then Inr (True, e)
      else if \<not> is_encoder_decoder cfg \<and> mm_identifier f \<in> es_hashes e then Inr (True, e)
      else
      ebind (if is_encoder_decoder cfg then Inr (False, es_cache e) else em_check_and_update r i (es_cache e)) (\<lambda>(hit, c).
      let e = e\<lparr>es_cache := c\<rparr> in
      if hit then Inr (True, e)
      else if disable_chunked_mm cfg \<and> n_computed < start_pos
              \<and> n_computed + es_num_new e < start_pos + num_encoder_tokens
      then Inr (False, e\<lparr>es_num_new := max 0 (start_pos - (n_computed + shift))\<rparr>)
      else
      ebind (em_can_allocate r i (es_budget e) (es_embeds e) (es_cache e)) (\<lambda>(ok, c).
      let e = e\<lparr>es_cache := c\<rparr> in
      if \<not> ok
      then Inr (False, e\<lparr>es_num_new :=
             (if n_computed + shift < start_pos then start_pos - (n_computed + shift) else 0)\<rparr>)
      else
      ebind (get_embeds_indices_in_range (mm_pos f) (max 0 (n_computed - start_pos))
               (min num_encoder_tokens (n_computed + es_num_new e - start_pos))) (\<lambda>(embeds_start, embeds_end).
      if embeds_end - embeds_start = 0 then Inr (True, e)
      else
        let e = e\<lparr>es_embeds := es_embeds e + num_embeds, es_hashes := insert (mm_identifier f) (es_hashes e)\<rparr> in
        case se_has_cache_item env of
          Some has \<Rightarrow>
            if has (mm_identifier f) then Inr (True, e\<lparr>es_external := es_external e @ [i]\<rparr>)
            else Inr (True, e\<lparr>es_budget := es_budget e - num_embeds, es_inputs := es_inputs e @ [i]\<rparr>)
        | None \<Rightarrow> Inr (True, e\<lparr>es_budget := es_budget e - num_embeds, es_inputs := es_inputs e @ [i]\<rparr>))))))"

fun encoder_loop ::
  "sched_env \<Rightarrow> sched_config \<Rightarrow> request \<Rightarrow> int \<Rightarrow> int \<Rightarrow> nat list \<Rightarrow> encoder_step \<Rightarrow> encoder_step result" where
  "encoder_loop env cfg r n_computed shift [] e = Inr e"
| "encoder_loop env cfg r n_computed shift (i # is) e =
     ebind (encoder_turn env cfg r n_computed shift i e) (\<lambda>(go_on, e).
       if go_on then encoder_loop env cfg r n_computed shift is e else Inr e)"

text \<open>\<open>_try_schedule_encoder_inputs\<close>: the inputs, the tokens, the budget left and the inputs to load from outside.\<close>

definition try_schedule_encoder_inputs ::
  "sched_env \<Rightarrow> request \<Rightarrow> int \<Rightarrow> int \<Rightarrow> int \<Rightarrow> int \<Rightarrow> scheduler \<Rightarrow> (nat list \<times> int \<times> int \<times> nat list \<times> scheduler) result" where
  "try_schedule_encoder_inputs env r n_computed num_new budget shift s =
     (if num_new = 0 \<or> \<not> has_encoder_inputs r then Inr ([], num_new, budget, [], s)
      else
        ebind (encoder_loop env (sd_config s) r n_computed shift [0 ..< length (mm_features r)]
                 \<lparr>es_inputs = [], es_num_new = num_new, es_budget = budget, es_external = [], es_hashes = {},
                  es_embeds = 0, es_cache = sd_encoder s\<rparr>) (\<lambda>e.
          Inr (es_inputs e, es_num_new e, es_budget e, es_external e, s\<lparr>sd_encoder := es_cache e\<rparr>)))"

definition allocate_encoder_inputs :: "request \<Rightarrow> nat list \<Rightarrow> scheduler \<Rightarrow> scheduler result" where
  "allocate_encoder_inputs r inputs s =
     ebind (foldE (em_allocate r) inputs (sd_encoder s)) (\<lambda>c. Inr (s\<lparr>sd_encoder := c\<rparr>))"

subsection \<open>Preemption\<close>

text \<open>\<open>_preempt_request\<close>; the caller has taken the request off the running list.\<close>

definition preempt_request :: "sched_env \<Rightarrow> string \<Rightarrow> scheduler \<Rightarrow> scheduler result" where
  "preempt_request env rid s =
     ebind (get_req rid s) (\<lambda>r.
     ebind (eassert (status r = RUNNING)) (\<lambda>_.
     ebind (kvm_free r (sd_kv s)) (\<lambda>kv.
     ebind (em_free (se_set_order env) r (sd_encoder s)) (\<lambda>c.
       let r = r\<lparr>status := PREEMPTED, num_computed_tokens := 0, spec_token_ids := [],
                 num_preemptions := num_preemptions r + 1\<rparr>;
           s = put_req r (s\<lparr>sd_kv := kv, sd_encoder := c\<rparr>)
       in Inr (s\<lparr>sd_waiting := rq_prepend (id_less env s) rid (sd_waiting s)\<rparr>)))))"

subsection \<open>The local variables of \<open>schedule\<close>\<close>

record sched_step =
  st_new_reqs :: "string list"
  st_resumed_reqs :: "string list"
  st_running_reqs :: "string list"
  st_preempted :: "string list"
  st_new_blocks :: "(string \<times> kv_cache_blocks) list"
  st_num_tokens :: "(string \<times> int) list"
  st_token_budget :: int
  st_encoder_inputs :: "(string \<times> nat list) list"
  st_encoder_budget :: int
  st_spec_tokens :: "(string \<times> int list) list"
  st_loras :: "int set"
  st_skipped :: "string request_queue" \<comment> \<open>\<open>step_skipped_waiting\<close>\<close>

definition init_step :: "scheduler \<Rightarrow> sched_step" where
  "init_step s =
     \<lparr>st_new_reqs = [], st_resumed_reqs = [], st_running_reqs = [], st_preempted = [], st_new_blocks = [],
      st_num_tokens = [],
      st_token_budget = (if sd_pause s = PAUSED_ALL then 0 else max_num_scheduled_tokens (sd_config s)),
      st_encoder_inputs = [], st_encoder_budget = max_encoder_tokens (sd_config s), st_spec_tokens = [],
      st_loras = {}, st_skipped = create_request_queue (policy (sd_config s))\<rparr>"

subsection \<open>The running requests\<close>

text \<open>
  \<open>max(self.running, key=lambda r: (r.priority, r.arrival_time))\<close>: the first of the greatest.
\<close>

fun first_max :: "('a \<Rightarrow> 'k :: linorder) \<Rightarrow> 'a \<Rightarrow> 'a list \<Rightarrow> 'a" where
  "first_max key best [] = best"
| "first_max key best (x # xs) = first_max key (if key x > key best then x else best) xs"

definition preempt_key :: "scheduler \<Rightarrow> string \<Rightarrow> int \<times> rat" where
  "preempt_key s rid = (case map_of (sd_requests s) rid of Some r \<Rightarrow> (priority r, arrival_time r) | None \<Rightarrow> (0, 0))"

definition sum_encoder_embeds :: "request \<Rightarrow> nat list \<Rightarrow> int result" where
  "sum_encoder_embeds r inputs = foldE (\<lambda>i t. ebind (get_num_encoder_embeds r i) (\<lambda>n. Inr (t + n))) inputs 0"

text \<open>A request that this step had scheduled already gives back its tokens and its encoder budget.\<close>

definition undo_scheduled :: "string \<Rightarrow> int \<Rightarrow> sched_step \<Rightarrow> scheduler \<Rightarrow> (int \<times> sched_step) result" where
  "undo_scheduled victim req_index st s =
     ebind (dict_get victim (st_num_tokens st)) (\<lambda>n.
     ebind (dict_get victim (st_new_blocks st)) (\<lambda>_.
     ebind (get_req victim s) (\<lambda>r.
     ebind (case map_of (st_encoder_inputs st) victim of
              None \<Rightarrow> Inr 0
            | Some inputs \<Rightarrow> sum_encoder_embeds r inputs) (\<lambda>restored.
       Inr (req_index - 1,
            st\<lparr>st_running_reqs := remove1 victim (st_running_reqs st),
               st_token_budget := st_token_budget st + n,
               st_num_tokens := AList.delete victim (st_num_tokens st),
               st_new_blocks := AList.delete victim (st_new_blocks st),
               st_spec_tokens := AList.delete victim (st_spec_tokens st),
               st_encoder_inputs := AList.delete victim (st_encoder_inputs st),
               st_encoder_budget := st_encoder_budget st + restored\<rparr>)))))"

text \<open>The request to preempt, already off the running list.\<close>

definition take_victim :: "int \<Rightarrow> sched_step \<Rightarrow> scheduler \<Rightarrow> (string \<times> int \<times> sched_step \<times> scheduler) result" where
  "take_victim req_index st s =
     (if policy (sd_config s) = PRIORITY
      then (case sd_running s of
              [] \<Rightarrow> Inl ValueError
            | x # xs \<Rightarrow>
                let victim = first_max (preempt_key s) x xs;
                    s = s\<lparr>sd_running := remove1 victim (sd_running s)\<rparr>
                in if victim \<in> set (st_running_reqs st)
                   then ebind (undo_scheduled victim req_index st s) (\<lambda>(req_index, st).
                          Inr (victim, req_index, st, s))
                   else Inr (victim, req_index, st, s))
      else if sd_running s = [] then Inl IndexError
      else Inr (last (sd_running s), req_index, st, s\<lparr>sd_running := butlast (sd_running s)\<rparr>))"

lemma first_max_in: "first_max key x xs \<in> set (x # xs)"
  by (induction key x xs rule: first_max.induct) auto

lemma first_max_ge: "y \<in> set (x # xs) \<Longrightarrow> key y \<le> key (first_max key x xs)"
proof (induction xs arbitrary: x y)
  case (Cons z zs)
  let ?b = "if key z > key x then z else x"
  have "key y \<le> key ?b \<or> y \<in> set (?b # zs)" using Cons.prems by auto
  then show ?case using Cons.IH [of y ?b] Cons.IH [of ?b ?b] by auto
qed simp

lemma take_victim_cases:
  assumes "take_victim i st s = Inr (victim, i', st', s')"
  obtains rs where "s' = s\<lparr>sd_running := rs\<rparr>" "mset (sd_running s) = add_mset victim (mset rs)"
    "if policy (sd_config s) = PRIORITY then rs = remove1 victim (sd_running s) \<and> (\<forall>x \<in> set (sd_running s). preempt_key s x \<le> preempt_key s victim)
     else sd_running s = rs @ [victim]"
    "if policy (sd_config s) = PRIORITY \<and> victim \<in> set (st_running_reqs st)
     then undo_scheduled victim i st s' = Inr (i', st') else i' = i \<and> st' = st"
proof (cases "policy (sd_config s) = PRIORITY")
  case True
  with assms obtain x xs where xs: "sd_running s = x # xs" by (auto simp: take_victim_def split: list.splits)
  let ?v = "first_max (preempt_key s) x xs"
  have v: "?v \<in> set (sd_running s)" "\<forall>y \<in> set (sd_running s). preempt_key s y \<le> preempt_key s ?v"
    using first_max_in [of "preempt_key s" x xs] first_max_ge [of _ x xs "preempt_key s"] xs by simp_all
  show ?thesis
  proof (rule that)
    show "s' = s\<lparr>sd_running := remove1 ?v (sd_running s)\<rparr>"
      "if policy (sd_config s) = PRIORITY \<and> victim \<in> set (st_running_reqs st)
       then undo_scheduled victim i st s' = Inr (i', st') else i' = i \<and> st' = st"
      "mset (sd_running s) = add_mset victim (mset (remove1 ?v (sd_running s)))"
      using assms True xs v(1) by (auto simp: take_victim_def Let_def ebind_eq_Inr split: if_splits)
    show "if policy (sd_config s) = PRIORITY then remove1 ?v (sd_running s) = remove1 victim (sd_running s)
        \<and> (\<forall>x \<in> set (sd_running s). preempt_key s x \<le> preempt_key s victim) else sd_running s = remove1 ?v (sd_running s) @ [victim]"
      using assms True xs v(2) by (auto simp: take_victim_def Let_def ebind_eq_Inr split: if_splits)
  qed
next
  case False
  then have *: "sd_running s \<noteq> []" "victim = last (sd_running s)" "i' = i" "st' = st" "s' = s\<lparr>sd_running := butlast (sd_running s)\<rparr>"
    using assms by (auto simp: take_victim_def split: if_splits)
  have "sd_running s = butlast (sd_running s) @ [victim]" using * by simp
  then have "mset (sd_running s) = add_mset victim (mset (butlast (sd_running s)))"
    by (metis mset_append mset_single_iff_right add_mset_add_single mset.simps)
  with * False show ?thesis by (intro that) auto
qed

lemma undo_scheduled_index: "undo_scheduled v i st s = Inr (i', st') \<Longrightarrow> i' = i - 1"
  by (auto simp: undo_scheduled_def ebind_eq_Inr)

lemma take_victim_running:
  assumes "take_victim i st s = Inr (victim, i', st', s')"
  shows "Suc (length (sd_running s')) = length (sd_running s)" "i' \<ge> i - 1"
proof -
  obtain rs where rs: "s' = s\<lparr>sd_running := rs\<rparr>" "mset (sd_running s) = add_mset victim (mset rs)"
    and i: "if policy (sd_config s) = PRIORITY \<and> victim \<in> set (st_running_reqs st)
     then undo_scheduled victim i st s' = Inr (i', st') else i' = i \<and> st' = st"
    using take_victim_cases [OF assms] by metis
  from rs show "Suc (length (sd_running s')) = length (sd_running s)"
    by (metis size_mset size_add_mset scheduler.select_convs(7) scheduler.surjective scheduler.update_convs(7))
  show "i' \<ge> i - 1" using i by (auto dest: undo_scheduled_index split: if_splits)
qed

lemma preempt_request_running: "preempt_request env rid s = Inr s' \<Longrightarrow> sd_running s' = sd_running s"
  by (auto simp: preempt_request_def ebind_eq_Inr put_req_def Let_def)

text \<open>The inner loop: ask for slots, and preempt until they are granted or the request itself is preempted.\<close>

function allocate_or_preempt ::
  "sched_env \<Rightarrow> string \<Rightarrow> int \<Rightarrow> int \<Rightarrow> sched_step \<Rightarrow> scheduler
    \<Rightarrow> (kv_cache_blocks option \<times> int \<times> sched_step \<times> scheduler) result" where
  "allocate_or_preempt env rid num_new req_index st s =
     ebind (get_req rid s) (\<lambda>r.
     ebind (allocate_slots (se_pool env) r num_new 0 None (num_lookahead_tokens (sd_config s)) 0 False 0 (sd_kv s))
       (\<lambda>(new_blocks, kv).
     if new_blocks \<noteq> None then Inr (new_blocks, req_index, st, s\<lparr>sd_kv := kv\<rparr>)
     else
       ebind (take_victim req_index st (s\<lparr>sd_kv := kv\<rparr>)) (\<lambda>(victim, req_index, st, s).
       ebind (preempt_request env victim s) (\<lambda>s.
         let st = st\<lparr>st_preempted := st_preempted st @ [victim]\<rparr> in
         if victim = rid then Inr (None, req_index, st, s)
         else allocate_or_preempt env rid num_new req_index st s))))"
  by pat_completeness auto
termination
  by (relation "measure (\<lambda>(_, _, _, _, _, s). length (sd_running s))")
     (auto dest!: take_victim_running(1) preempt_request_running)

declare allocate_or_preempt.simps [simp del]

definition running_num_new :: "sched_config \<Rightarrow> request \<Rightarrow> int \<Rightarrow> int" where
  "running_num_new cfg r token_budget =
     (let n = num_tokens_with_spec r + num_output_placeholders r - num_computed_tokens r;
          n = (if 0 < long_prefill_token_threshold cfg \<and> long_prefill_token_threshold cfg < n
               then long_prefill_token_threshold cfg else n);
          n = min n token_budget
      in min n (max_model_len cfg - 1 - num_computed_tokens r))"

text \<open>
  With asynchronous scheduling: the outputs in flight reach \<open>max_tokens\<close> even if all drafts are
  rejected, so no further step is needed.
\<close>

definition surely_last_step :: "request \<Rightarrow> bool" where
  "surely_last_step r \<longleftrightarrow> num_output_placeholders r > 0
     \<and> num_computed_tokens r + 2 - num_output_placeholders r \<ge> num_prompt_tokens r + max_tokens r"

text \<open>The bookkeeping for a request that got its slots.\<close>

definition schedule_running_req ::
  "string \<Rightarrow> kv_cache_blocks \<Rightarrow> int \<Rightarrow> nat list \<Rightarrow> int \<Rightarrow> nat list \<Rightarrow> sched_step \<Rightarrow> scheduler
    \<Rightarrow> (sched_step \<times> scheduler) result" where
  "schedule_running_req rid new_blocks num_new inputs new_budget external st s =
     ebind (get_req rid s) (\<lambda>r.
     let st = st\<lparr>st_running_reqs := st_running_reqs st @ [rid],
                 st_new_blocks := AList.update rid new_blocks (st_new_blocks st),
                 st_num_tokens := AList.update rid num_new (st_num_tokens st),
                 st_token_budget := st_token_budget st - num_new\<rparr>;
         n_spec = num_new + num_computed_tokens r - num_tokens r - num_output_placeholders r;
         st = (if spec_token_ids r \<noteq> [] \<and> n_spec > 0
               then st\<lparr>st_spec_tokens := AList.update rid (take (nat n_spec) (spec_token_ids r)) (st_spec_tokens st)\<rparr>
               else st);
         r = r\<lparr>spec_token_ids := []\<rparr>;
         s = put_req r s;
         st = (if inputs \<noteq> []
               then st\<lparr>st_encoder_inputs := AList.update rid inputs (st_encoder_inputs st),
                       st_encoder_budget := new_budget\<rparr>
               else st)
     in ebind (allocate_encoder_inputs r (inputs @ external) s) (\<lambda>s. Inr (st, s)))"

lemma try_schedule_running:
  "try_schedule_encoder_inputs env r n m b sh s = Inr (is, n', b', ex, s') \<Longrightarrow> sd_running s' = sd_running s"
  by (auto simp: try_schedule_encoder_inputs_def ebind_eq_Inr split: if_splits)

lemma allocate_or_preempt_running:
  assumes "allocate_or_preempt env rid n i st s = Inr (b, i', st', s')"
  shows "int (length (sd_running s')) - i' \<le> int (length (sd_running s)) - i"
  using assms
proof (induction "length (sd_running s)" arbitrary: i st s rule: less_induct)
  case less
  from less.prems obtain r nb kv where "get_req rid s = Inr r"
    and a: "allocate_slots (se_pool env) r n 0 None (num_lookahead_tokens (sd_config s)) 0 False 0 (sd_kv s) = Inr (nb, kv)"
    by (subst (asm) allocate_or_preempt.simps) (auto simp: ebind_eq_Inr)
  show ?case
  proof (cases "nb = None")
    case False
    then show ?thesis using less.prems a \<open>get_req rid s = Inr r\<close> by (subst (asm) allocate_or_preempt.simps) auto
  next
    case True
    with less.prems a \<open>get_req rid s = Inr r\<close> obtain v j st1 s1 s2 where
      v: "take_victim i st (s\<lparr>sd_kv := kv\<rparr>) = Inr (v, j, st1, s1)" "preempt_request env v s1 = Inr s2"
      and rest: "if v = rid then (b, i', st', s') = (None, j, st1\<lparr>st_preempted := st_preempted st1 @ [v]\<rparr>, s2)
        else allocate_or_preempt env rid n j (st1\<lparr>st_preempted := st_preempted st1 @ [v]\<rparr>) s2 = Inr (b, i', st', s')"
      by (subst (asm) allocate_or_preempt.simps) (auto simp: ebind_eq_Inr Let_def split: if_splits)
    have l: "Suc (length (sd_running s2)) = length (sd_running s)" "j \<ge> i - 1"
      using take_victim_running [OF v(1)] preempt_request_running [OF v(2)] by simp_all
    show ?thesis
    proof (cases "v = rid")
      case True
      then show ?thesis using rest l by simp
    next
      case False
      have "int (length (sd_running s')) - i' \<le> int (length (sd_running s2)) - j"
        by (rule less.hyps) (use l rest False in simp_all)
      then show ?thesis using l by simp
    qed
  qed
qed

lemma schedule_running_req_running:
  "schedule_running_req rid b n is nb ex st s = Inr (st', s') \<Longrightarrow> sd_running s' = sd_running s"
  unfolding schedule_running_req_def Let_def
  by (auto simp: ebind_eq_Inr allocate_encoder_inputs_def put_req_def split del: if_split)

text \<open>
  One turn of the loop over the running requests; the flag tells whether the loop goes on, with the
  index of the next request.
\<close>

definition running_turn ::
  "sched_env \<Rightarrow> int \<Rightarrow> sched_step \<Rightarrow> scheduler \<Rightarrow> (bool \<times> int \<times> sched_step \<times> scheduler) result" where
  "running_turn env req_index st s =
     ebind (py_index (sd_running s) req_index) (\<lambda>rid.
     ebind (get_req rid s) (\<lambda>r.
     if surely_last_step r then Inr (True, req_index + 1, st, s)
     else
       let num_new = running_num_new (sd_config s) r (st_token_budget st) in
       ebind (if has_encoder_inputs r
              then try_schedule_encoder_inputs env r (num_computed_tokens r) num_new (st_encoder_budget st)
                     (if use_eagle (sd_config s) then 1 else 0) s
              else Inr ([], num_new, st_encoder_budget st, [], s))
         (\<lambda>(inputs, num_new, new_budget, external, s).
       ebind (if need_mamba_block_aligned_split (sd_config s)
              then mamba_block_aligned_split (sd_config s) r num_new 0 0 else Inr num_new) (\<lambda>num_new.
       if num_new = 0 then Inr (True, req_index + 1, st, s)
       else
         ebind (allocate_or_preempt env rid num_new req_index st s) (\<lambda>(new_blocks, req_index, st, s).
         case new_blocks of
           None \<Rightarrow> Inr (False, req_index, st, s)
         | Some b \<Rightarrow>
             ebind (schedule_running_req rid b num_new inputs new_budget external st s) (\<lambda>(st, s).
               Inr (True, req_index + 1, st, s)))))))"

lemma running_turn_cases:
  assumes "running_turn env i st s = Inr (go_on, i', st', s')"
  obtains (last) rid r where "py_index (sd_running s) i = Inr rid" "get_req rid s = Inr r" "surely_last_step r"
      "go_on" "i' = i + 1" "st' = st" "s' = s"
  | (asked) rid r inputs n b ex s1 k where "py_index (sd_running s) i = Inr rid" "get_req rid s = Inr r"
      "(if has_encoder_inputs r
        then try_schedule_encoder_inputs env r (num_computed_tokens r) (running_num_new (sd_config s) r (st_token_budget st))
               (st_encoder_budget st) (if use_eagle (sd_config s) then 1 else 0) s
        else Inr ([], running_num_new (sd_config s) r (st_token_budget st), st_encoder_budget st, [], s)) = Inr (inputs, n, b, ex, s1)"
      "(if need_mamba_block_aligned_split (sd_config s1) then mamba_block_aligned_split (sd_config s1) r n 0 0 else Inr n) = Inr k"
      "if k = 0 then go_on \<and> i' = i + 1 \<and> st' = st \<and> s' = s1
       else \<exists>bs j st2 s2. allocate_or_preempt env rid k i st s1 = Inr (bs, j, st2, s2)
         \<and> (case bs of None \<Rightarrow> \<not> go_on \<and> i' = j \<and> st' = st2 \<and> s' = s2
            | Some bl \<Rightarrow> go_on \<and> i' = j + 1 \<and> schedule_running_req rid bl k inputs b ex st2 s2 = Inr (st', s'))"
proof -
  from assms obtain rid r where r: "py_index (sd_running s) i = Inr rid" "get_req rid s = Inr r"
    by (auto simp: running_turn_def ebind_eq_Inr)
  show ?thesis
  proof (cases "surely_last_step r")
    case True
    then show ?thesis using assms r by (intro last [OF r]) (auto simp: running_turn_def)
  next
    case False
    from assms r False obtain inputs n b ex s1 where
      e: "(if has_encoder_inputs r
        then try_schedule_encoder_inputs env r (num_computed_tokens r) (running_num_new (sd_config s) r (st_token_budget st))
               (st_encoder_budget st) (if use_eagle (sd_config s) then 1 else 0) s
        else Inr ([], running_num_new (sd_config s) r (st_token_budget st), st_encoder_budget st, [], s)) = Inr (inputs, n, b, ex, s1)"
      by (auto simp: running_turn_def ebind_eq_Inr Let_def)
    from assms r False obtain k where
      k: "(if need_mamba_block_aligned_split (sd_config s1) then mamba_block_aligned_split (sd_config s1) r n 0 0 else Inr n) = Inr k"
      by (simp add: running_turn_def ebind_eq_Inr Let_def e del: if_split) blast
    have rest: "(if k = 0 then Inr (True, i + 1, st, s1)
       else ebind (allocate_or_preempt env rid k i st s1) (\<lambda>(bs, j, st, s).
         case bs of None \<Rightarrow> Inr (False, j, st, s)
         | Some bl \<Rightarrow> ebind (schedule_running_req rid bl k inputs b ex st s) (\<lambda>(st, s). Inr (True, j + 1, st, s))))
       = Inr (go_on, i', st', s')"
      using assms r False by (simp add: running_turn_def Let_def e k del: if_split cong: if_cong)
    show ?thesis by (rule asked [OF r e k]) (use rest in \<open>auto simp: returned\<close>)
  qed
qed

lemma running_turn_progress:
  assumes "running_turn env i st s = Inr (True, i', st', s')"
  shows "int (length (sd_running s')) - i' < int (length (sd_running s)) - i"
  using assms
proof (cases rule: running_turn_cases)
  case (asked rid r inputs n b ex s1 k)
  have s1: "sd_running s1 = sd_running s" using asked(3) by (auto split: if_splits dest: try_schedule_running)
  show ?thesis
  proof (cases "k = 0")
    case False
    then obtain bl j st2 s2 where a: "allocate_or_preempt env rid k i st s1 = Inr (Some bl, j, st2, s2)" "i' = j + 1"
      "schedule_running_req rid bl k inputs b ex st2 s2 = Inr (st', s')"
      using asked(5) by (auto split: option.splits)
    then show ?thesis using allocate_or_preempt_running [OF a(1)] schedule_running_req_running [OF a(3)] s1 by simp
  qed (use asked s1 in auto)
qed simp

text \<open>The whole loop over the running requests.\<close>

function running_loop :: "sched_env \<Rightarrow> int \<Rightarrow> sched_step \<Rightarrow> scheduler \<Rightarrow> (sched_step \<times> scheduler) result" where
  "running_loop env req_index st s =
     (if \<not> (req_index < int (length (sd_running s)) \<and> st_token_budget st > 0) then Inr (st, s)
      else ebind (running_turn env req_index st s) (\<lambda>(go_on, req_index, st, s).
        if go_on then running_loop env req_index st s else Inr (st, s)))"
  by pat_completeness auto
termination
  by (relation "measure (\<lambda>(_, i, _, s). nat (int (length (sd_running s)) - i))")
     (auto dest!: running_turn_progress)

declare running_loop.simps [simp del]

end
