(* ===== verification/Sched_Waiting.thy ===== *)
theory Sched_Waiting
  imports Sched_Running
begin

text \<open>
  The waiting requests in \<open>Scheduler.schedule\<close>: blocked requests, the search in the prefix cache, slots, and the move
  to the running list.  The loop ends because every turn that goes on takes a request off a queue.
\<close>

subsection \<open>Blocked requests\<close>

text \<open>\<open>_update_waiting_for_remote_kv\<close>: the blocks that a connector loaded in the background have arrived.\<close>

definition update_waiting_for_remote_kv :: "sched_env \<Rightarrow> string \<Rightarrow> scheduler \<Rightarrow> scheduler result" where
  "update_waiting_for_remote_kv env rid s =
     ebind (eassert (se_connector env \<noteq> None)) (\<lambda>_.
     ebind (get_req rid s) (\<lambda>r.
     ebind (if rid \<in> sd_failed_recving s
            then ebind (if num_computed_tokens r \<noteq> 0
                        then kvm_cache_blocks (se_pool env) r (num_computed_tokens r) (sd_kv s)
                        else kvm_free r (sd_kv s)) (\<lambda>kv.
                   Inr (s\<lparr>sd_kv := kv, sd_failed_recving := sd_failed_recving s - {rid}\<rparr>))
            else ebind (kvm_cache_blocks (se_pool env) r (num_computed_tokens r) (sd_kv s)) (\<lambda>kv.
                   let n = (if num_computed_tokens r = num_tokens r then num_tokens r - 1 else num_computed_tokens r);
                       r = r\<lparr>num_computed_tokens := n,
                             num_cached_tokens := (if num_cached_tokens r < 0 then n else num_cached_tokens r)\<rparr>
                   in Inr (put_req r (s\<lparr>sd_kv := kv\<rparr>)))) (\<lambda>s.
     if rid \<in> sd_finished_recving s
     then Inr (s\<lparr>sd_finished_recving := sd_finished_recving s - {rid}\<rparr>)
     else Inl KeyError)))"

definition try_promote_blocked_waiting_request :: "sched_env \<Rightarrow> string \<Rightarrow> scheduler \<Rightarrow> (bool \<times> scheduler) result" where
  "try_promote_blocked_waiting_request env rid s =
     ebind (get_req rid s) (\<lambda>r.
     if status r = WAITING_FOR_REMOTE_KVS
     then if rid \<notin> sd_finished_recving s then Inr (False, s)
          else ebind (update_waiting_for_remote_kv env rid s) (\<lambda>s.
               ebind (get_req rid s) (\<lambda>r.
                 Inr (True, put_req (r\<lparr>status := (if num_preemptions r \<noteq> 0 then PREEMPTED else WAITING)\<rparr>) s)))
     else if status r = WAITING_FOR_STRUCTURED_OUTPUT_GRAMMAR
     then if \<not> (use_structured_output r \<and> se_has_grammar env rid) then Inr (False, s)
          else Inr (True, put_req (r\<lparr>status := WAITING\<rparr>) s)
     else if status r = WAITING_FOR_STREAMING_REQ
     then ebind (eassert (case streaming_queue r of None \<Rightarrow> True | Some q \<Rightarrow> q = [])) (\<lambda>_. Inr (False, s))
     else Inl AssertionError)"

subsection \<open>The waiting requests\<close>

text \<open>The request is passed over in this step.\<close>

definition skip_waiting :: "sched_env \<Rightarrow> which_queue \<Rightarrow> string \<Rightarrow> sched_step \<Rightarrow> scheduler \<Rightarrow> (sched_step \<times> scheduler) result" where
  "skip_waiting env w rid st s =
     ebind (pop_from env w s) (\<lambda>(_, s).
       Inr (st\<lparr>st_skipped := rq_prepend (id_less env s) rid (st_skipped st)\<rparr>, s))"

text \<open>
  The tokens that are there already: the blocks of the prefix cache, the tokens they hold, those of the
  connector, whether the connector loads in the background, and the total.  \<open>None\<close>: the connector
  cannot tell yet.
\<close>

definition cached_tokens ::
  "sched_env \<Rightarrow> string \<Rightarrow> scheduler \<Rightarrow> ((kv_cache_blocks \<times> int \<times> int \<times> bool \<times> int) option \<times> scheduler) result" where
  "cached_tokens env rid s =
     ebind (get_req rid s) (\<lambda>r.
     if num_computed_tokens r = 0
     then ebind (get_computed_blocks r (sd_kv s)) (\<lambda>(blocks, n_local, kv).
       let s = s\<lparr>sd_kv := kv\<rparr> in
       case se_connector env of
         None \<Rightarrow>
           ebind (eassert (n_local + 0 \<le> num_tokens r)) (\<lambda>_. Inr (Some (blocks, n_local, 0, False, n_local + 0), s))
       | Some cn \<Rightarrow>
           (case get_num_new_matched_tokens cn r n_local of
              (None, load_async) \<Rightarrow> Inr (None, s)
            | (Some ext, load_async) \<Rightarrow>
                let s = put_req (r\<lparr>rq_num_external_computed_tokens := ext\<rparr>) s in
                ebind (eassert (n_local + ext \<le> num_tokens r)) (\<lambda>_.
                  Inr (Some (blocks, n_local, ext, load_async, n_local + ext), s))))
     else Inr (Some (EmptyBlocks, 0, 0, False, num_computed_tokens r), s))"

text \<open>\<open>None\<close>: without chunked prefill the request does not fit.\<close>

definition waiting_num_new :: "sched_config \<Rightarrow> request \<Rightarrow> int \<Rightarrow> int \<Rightarrow> int option" where
  "waiting_num_new cfg r n_computed token_budget =
     (let n = num_tokens r - n_computed;
          n = (if 0 < long_prefill_token_threshold cfg \<and> long_prefill_token_threshold cfg < n
               then long_prefill_token_threshold cfg else n)
      in if \<not> enable_chunked_prefill cfg \<and> n > token_budget then None else Some (min n token_budget))"

text \<open>
  The tokens and encoder inputs to schedule.  A left value means that the loop over the waiting requests
  breaks off here.
\<close>

definition waiting_inputs ::
  "sched_env \<Rightarrow> request \<Rightarrow> bool \<Rightarrow> int \<Rightarrow> int \<Rightarrow> sched_step \<Rightarrow> scheduler
    \<Rightarrow> (scheduler + (nat list \<times> int \<times> int \<times> nat list \<times> scheduler)) result" where
  "waiting_inputs env r load_async n_external n_computed st s =
     (if load_async
      then ebind (eassert (n_external > 0)) (\<lambda>_. Inr (Inr ([], 0, st_encoder_budget st, [], s)))
      else
        case waiting_num_new (sd_config s) r n_computed (st_token_budget st) of
          None \<Rightarrow> Inr (Inl s)
        | Some n \<Rightarrow>
            ebind (eassert (n > 0)) (\<lambda>_.
            if has_encoder_inputs r
            then ebind (try_schedule_encoder_inputs env r n_computed n (st_encoder_budget st)
                          (if use_eagle (sd_config s) then 1 else 0) s)
                   (\<lambda>(inputs, n, budget, external, s).
                     if n = 0 then Inr (Inl s) else Inr (Inr (inputs, n, budget, external, s)))
            else Inr (Inr ([], n, st_encoder_budget st, [], s))))"

definition waiting_tokens ::
  "sched_env \<Rightarrow> string \<Rightarrow> bool \<Rightarrow> int \<Rightarrow> int \<Rightarrow> int \<Rightarrow> sched_step \<Rightarrow> scheduler
    \<Rightarrow> (scheduler + (nat list \<times> int \<times> int \<times> nat list \<times> scheduler)) result" where
  "waiting_tokens env rid load_async n_local n_external n_computed st s =
     ebind (get_req rid s) (\<lambda>r.
     ebind (waiting_inputs env r load_async n_external n_computed st s) (\<lambda>res.
     case res of
       Inl s \<Rightarrow> Inr (Inl s)
     | Inr (inputs, n, budget, external, s) \<Rightarrow>
         if need_mamba_block_aligned_split (sd_config s)
         then ebind (mamba_block_aligned_split (sd_config s) r n n_local n_external) (\<lambda>n.
                if n = 0 then Inr (Inl s) else Inr (Inr (inputs, n, budget, external, s)))
         else Inr (Inr (inputs, n, budget, external, s))))"

text \<open>The slots; a left value again breaks off the loop, after dropping the references to encoder outputs.\<close>

definition drop_encoder_refs :: "sched_env \<Rightarrow> request \<Rightarrow> scheduler \<Rightarrow> scheduler result" where
  "drop_encoder_refs env r s =
     (if has_encoder_inputs r
      then ebind (em_free (se_set_order env) r (sd_encoder s)) (\<lambda>c. Inr (s\<lparr>sd_encoder := c\<rparr>))
      else Inr s)"

definition waiting_slots ::
  "sched_env \<Rightarrow> string \<Rightarrow> nat list \<Rightarrow> int \<Rightarrow> kv_cache_blocks \<Rightarrow> int \<Rightarrow> int \<Rightarrow> bool \<Rightarrow> scheduler
    \<Rightarrow> (scheduler + scheduler) result" where
  "waiting_slots env rid inputs num_new blocks n_local n_external load_async s =
     ebind (get_req rid s) (\<lambda>r.
     let lookahead = (if num_computed_tokens r = 0 then 0 else num_lookahead_tokens (sd_config s)) in
     ebind (if is_encoder_decoder (sd_config s) \<and> has_encoder_inputs r \<and> inputs \<noteq> []
            then sum_encoder_embeds r inputs else Inr 0) (\<lambda>num_encoder_tokens.
     ebind (if scheduler_reserve_full_isl (sd_config s)
            then can_fit_full_sequence r n_local (Some blocks) n_external num_encoder_tokens (sd_kv s)
            else Inr (True, sd_kv s)) (\<lambda>(fits, kv).
     let s = s\<lparr>sd_kv := kv\<rparr> in
     if \<not> fits then ebind (drop_encoder_refs env r s) (\<lambda>s. Inr (Inl s))
     else
       ebind (allocate_slots (se_pool env) r num_new n_local (Some blocks) lookahead n_external load_async
                num_encoder_tokens (sd_kv s)) (\<lambda>(new_blocks, kv).
       let s = s\<lparr>sd_kv := kv\<rparr> in
       if new_blocks = None then ebind (drop_encoder_refs env r s) (\<lambda>s. Inr (Inl s)) else Inr (Inr s)))))"

text \<open>The bookkeeping for a request that moves to the running list.\<close>

text \<open>The list of scheduled requests that the status puts it on.\<close>

definition note_admitted :: "string \<Rightarrow> request \<Rightarrow> sched_step \<Rightarrow> sched_step result" where
  "note_admitted rid r st =
     (if status r = WAITING then Inr (st\<lparr>st_new_reqs := st_new_reqs st @ [rid]\<rparr>)
      else if status r = PREEMPTED then Inr (st\<lparr>st_resumed_reqs := st_resumed_reqs st @ [rid]\<rparr>)
      else Inl RuntimeError)"

definition admit_waiting ::
  "string \<Rightarrow> nat list \<Rightarrow> int \<Rightarrow> int \<Rightarrow> nat list \<Rightarrow> int \<Rightarrow> sched_step \<Rightarrow> scheduler \<Rightarrow> (sched_step \<times> scheduler) result" where
  "admit_waiting rid inputs num_new new_budget external n_computed st s =
     ebind (get_req rid s) (\<lambda>r.
     let s = s\<lparr>sd_running := sd_running s @ [rid]\<rparr> in
     ebind (note_admitted rid r st) (\<lambda>st.
     let st = st\<lparr>st_loras := (case (max_loras (sd_config s), lora_req r) of
                                (Some _, Some l) \<Rightarrow> insert (lora_int_id l) (st_loras st) | _ \<Rightarrow> st_loras st),
                 st_new_blocks := AList.update rid (kvm_get_blocks rid (sd_kv s)) (st_new_blocks st),
                 st_num_tokens := AList.update rid num_new (st_num_tokens st),
                 st_token_budget := st_token_budget st - num_new\<rparr>;
         r = r\<lparr>status := RUNNING, num_computed_tokens := n_computed,
               num_cached_tokens := (if num_cached_tokens r < 0 then n_computed else num_cached_tokens r)\<rparr>;
         s = put_req r s;
         st = (if inputs \<noteq> []
               then st\<lparr>st_encoder_inputs := AList.update rid inputs (st_encoder_inputs st),
                       st_encoder_budget := new_budget\<rparr>
               else st)
     in ebind (allocate_encoder_inputs r (inputs @ external) s) (\<lambda>s. Inr (st, s))))"

definition lora_full :: "sched_config \<Rightarrow> request \<Rightarrow> sched_step \<Rightarrow> bool" where
  "lora_full cfg r st \<longleftrightarrow>
     (case (max_loras cfg, lora_req r) of
        (Some n, Some l) \<Rightarrow> int (card (st_loras st)) = n \<and> lora_int_id l \<notin> st_loras st
      | _ \<Rightarrow> False)"

text \<open>From the prefix cache to the running list; the flag tells whether the loop goes on.\<close>

definition try_admit ::
  "sched_env \<Rightarrow> which_queue \<Rightarrow> string \<Rightarrow> sched_step \<Rightarrow> scheduler \<Rightarrow> (bool \<times> sched_step \<times> scheduler) result" where
  "try_admit env w rid st s =
     ebind (cached_tokens env rid s) (\<lambda>(hit, s).
     case hit of
       None \<Rightarrow> ebind (skip_waiting env w rid st s) (\<lambda>(st, s). Inr (True, st, s))
     | Some (blocks, n_local, n_external, load_async, n_computed) \<Rightarrow>
         ebind (waiting_tokens env rid load_async n_local n_external n_computed st s) (\<lambda>res.
         case res of
           Inl s \<Rightarrow> Inr (False, st, s)
         | Inr (inputs, num_new, new_budget, external, s) \<Rightarrow>
             ebind (waiting_slots env rid inputs num_new blocks n_local n_external load_async s) (\<lambda>res.
             case res of
               Inl s \<Rightarrow> Inr (False, st, s)
             | Inr s \<Rightarrow>
                 ebind (pop_from env w s) (\<lambda>(rid, s).
                 if load_async
                 then ebind (get_req rid s) (\<lambda>r.
                   let s = put_req (r\<lparr>status := WAITING_FOR_REMOTE_KVS, num_computed_tokens := n_computed\<rparr>) s
                   in Inr (True, st\<lparr>st_skipped := rq_prepend (id_less env s) rid (st_skipped st)\<rparr>, s))
                 else ebind (admit_waiting rid inputs num_new new_budget external n_computed st s) (\<lambda>(st, s).
                   Inr (True, st, s))))))"

text \<open>One turn of the loop; the flag tells whether it goes on.\<close>

definition waiting_turn :: "sched_env \<Rightarrow> sched_step \<Rightarrow> scheduler \<Rightarrow> (bool \<times> sched_step \<times> scheduler) result" where
  "waiting_turn env st s =
     (if int (length (sd_running s)) = max_num_running_reqs (sd_config s) then Inr (False, st, s)
      else
        ebind (select_waiting_queue_for_scheduling env s) (\<lambda>qu.
        case qu of
          None \<Rightarrow> Inl AssertionError
        | Some w \<Rightarrow>
            ebind (rq_peek (the_queue w s)) (\<lambda>rid.
            ebind (get_req rid s) (\<lambda>r.
            ebind (if is_blocked_waiting_status (status r) then try_promote_blocked_waiting_request env rid s
                   else Inr (True, s)) (\<lambda>(ready, s).
            ebind (get_req rid s) (\<lambda>r.
            if \<not> ready \<or> lora_full (sd_config s) r st
            then ebind (skip_waiting env w rid st s) (\<lambda>(st, s). Inr (True, st, s))
            else try_admit env w rid st s))))))"

subsection \<open>The loop over the waiting requests ends\<close>

definition queued :: "scheduler \<Rightarrow> string multiset" where
  "queued s = mset (rq_items (sd_waiting s)) + mset (rq_items (sd_skipped s))"

lemma queued_simps [simp]:
  "queued (s\<lparr>sd_kv := kv\<rparr>) = queued s" "queued (s\<lparr>sd_encoder := c\<rparr>) = queued s" "queued (s\<lparr>sd_running := rs\<rparr>) = queued s"
  "queued (put_req r s) = queued s" "queued (s\<lparr>sd_failed_recving := fs\<rparr>) = queued s" "queued (s\<lparr>sd_finished_recving := fs\<rparr>) = queued s"
  "queued (s\<lparr>sd_requests := d\<rparr>) = queued s"
  by (simp_all add: queued_def put_req_def)

lemma pop_from_queued:
  assumes "pop_from env w s = Inr (rid, s')"
  shows "queued s = add_mset rid (queued s')"
  using assms by (cases w) (auto simp: queued_def ebind_eq_Inr dest!: rq_pop_mset)

lemma try_schedule_frame:
  "try_schedule_encoder_inputs env r n m b sh s = Inr (is, n', b', ex, s') \<Longrightarrow> \<exists>c. s' = s\<lparr>sd_encoder := c\<rparr>"
  by (cases s) (auto simp: try_schedule_encoder_inputs_def ebind_eq_Inr split: if_splits intro: exI [of _ "sd_encoder s"])

lemma allocate_encoder_frame:
  "allocate_encoder_inputs r is s = Inr s' \<Longrightarrow> \<exists>c. s' = s\<lparr>sd_encoder := c\<rparr>"
  by (auto simp: allocate_encoder_inputs_def ebind_eq_Inr)

lemma update_remote_queued: "update_waiting_for_remote_kv env rid s = Inr s' \<Longrightarrow> queued s' = queued s"
  by (auto simp: update_waiting_for_remote_kv_def ebind_eq_Inr Let_def split: if_splits)

lemma try_promote_queued: "try_promote_blocked_waiting_request env rid s = Inr (b, s') \<Longrightarrow> queued s' = queued s"
  unfolding try_promote_blocked_waiting_request_def
  by (auto simp: ebind_eq_Inr split: if_splits dest!: update_remote_queued)

lemma cached_tokens_queued: "cached_tokens env rid s = Inr (hit, s') \<Longrightarrow> queued s' = queued s"
  by (auto simp: cached_tokens_def returned)

lemma waiting_inputs_queued:
  "waiting_inputs env r a ne n st s = Inr (Inr (inputs, k, b, ex, s')) \<Longrightarrow> queued s' = queued s"
  by (auto simp: waiting_inputs_def ebind_eq_Inr split: if_splits option.splits dest!: try_schedule_frame)

lemma waiting_tokens_queued:
  assumes "waiting_tokens env rid a nl ne n st s = Inr (Inr (inputs, k, b, ex, s'))"
  shows "queued s' = queued s"
  using assms
  by (auto simp: waiting_tokens_def returned dest!: waiting_inputs_queued)

lemma waiting_slots_queued:
  "waiting_slots env rid is n bs nl ne a s = Inr (Inr s') \<Longrightarrow> queued s' = queued s"
  by (auto simp: waiting_slots_def ebind_eq_Inr Let_def split: if_splits)

lemma admit_waiting_queued:
  assumes "admit_waiting rid inputs n b ex k st s = Inr (st', s')"
  shows "queued s' = queued s"
proof -
  from assms obtain r where "allocate_encoder_inputs (r\<lparr>status := RUNNING, num_computed_tokens := k,
      num_cached_tokens := (if num_cached_tokens r < 0 then k else num_cached_tokens r)\<rparr>) (inputs @ ex)
      (put_req (r\<lparr>status := RUNNING, num_computed_tokens := k,
         num_cached_tokens := (if num_cached_tokens r < 0 then k else num_cached_tokens r)\<rparr>) (s\<lparr>sd_running := sd_running s @ [rid]\<rparr>)) = Inr s'"
    unfolding admit_waiting_def Let_def ebind_eq_Inr by auto
  then show ?thesis by (auto dest!: allocate_encoder_frame)
qed

lemma skip_waiting_queued:
  "skip_waiting env w rid st s = Inr (st', s') \<Longrightarrow> size (queued s') < size (queued s)"
  by (auto simp: skip_waiting_def ebind_eq_Inr dest!: pop_from_queued)

lemma try_admit_queued:
  assumes "try_admit env w rid st s = Inr (True, st', s')"
  shows "size (queued s') < size (queued s)"
proof -
  obtain hit s1 where c: "cached_tokens env rid s = Inr (hit, s1)" using assms by (auto simp: try_admit_def ebind_eq_Inr)
  have q: "queued s1 = queued s" by (rule cached_tokens_queued [OF c])
  show ?thesis
  proof (cases hit)
    case None
    then show ?thesis using assms c skip_waiting_queued [of env w rid st s1] q by (auto simp: try_admit_def ebind_eq_Inr)
  next
    case (Some x)
    obtain bs nl ne a n where "x = (bs, nl, ne, a, n)" by (cases x)
    with assms c Some obtain inputs k b ex s2 s3 rid' s4 where
      s: "waiting_tokens env rid a nl ne n st s1 = Inr (Inr (inputs, k, b, ex, s2))"
      "waiting_slots env rid inputs k bs nl ne a s2 = Inr (Inr s3)" "pop_from env w s3 = Inr (rid', s4)"
      and s': "queued s' = queued s4"
      by (auto simp: try_admit_def returned dest: admit_waiting_queued)
    then show ?thesis using q waiting_tokens_queued [OF s(1)] waiting_slots_queued [OF s(2)]
        arg_cong [where f = size, OF pop_from_queued [OF s(3)]] by simp
  qed
qed

lemma waiting_turn_cases:
  assumes "waiting_turn env st s = Inr (go_on, st', s')"
  obtains (full) "int (length (sd_running s)) = max_num_running_reqs (sd_config s)" "\<not> go_on" "st' = st" "s' = s"
  | (skip) w rid r ready s1 where "select_waiting_queue_for_scheduling env s = Inr (Some w)" "rq_peek (the_queue w s) = Inr rid"
      "get_req rid s = Inr r" "int (length (sd_running s)) \<noteq> max_num_running_reqs (sd_config s)"
      "(if is_blocked_waiting_status (status r) then try_promote_blocked_waiting_request env rid s else Inr (True, s)) = Inr (ready, s1)"
      "skip_waiting env w rid st s1 = Inr (st', s')" "go_on"
  | (admit) w rid r s1 where "select_waiting_queue_for_scheduling env s = Inr (Some w)" "rq_peek (the_queue w s) = Inr rid"
      "get_req rid s = Inr r" "int (length (sd_running s)) \<noteq> max_num_running_reqs (sd_config s)"
      "(if is_blocked_waiting_status (status r) then try_promote_blocked_waiting_request env rid s else Inr (True, s)) = Inr (True, s1)"
      "try_admit env w rid st s1 = Inr (go_on, st', s')"
proof (cases "int (length (sd_running s)) = max_num_running_reqs (sd_config s)")
  case True
  then show ?thesis using assms by (intro full) (auto simp: waiting_turn_def)
next
  case False
  with assms obtain w rid r where wr: "select_waiting_queue_for_scheduling env s = Inr (Some w)" "rq_peek (the_queue w s) = Inr rid"
      "get_req rid s = Inr r"
    by (auto simp: waiting_turn_def returned)
  with assms False obtain ready s1 r1 where
    p: "(if is_blocked_waiting_status (status r) then try_promote_blocked_waiting_request env rid s else Inr (True, s)) = Inr (ready, s1)"
    and rest: "if \<not> ready \<or> lora_full (sd_config s1) r1 st
            then ebind (skip_waiting env w rid st s1) (\<lambda>(st, s). Inr (True, st, s)) = Inr (go_on, st', s')
            else try_admit env w rid st s1 = Inr (go_on, st', s')"
    by (simp add: waiting_turn_def ebind_eq_Inr del: if_split) (metis (no_types, lifting) case_prod_conv)
  show ?thesis
  proof (cases "\<not> ready \<or> lora_full (sd_config s1) r1 st")
    case True
    with rest have "skip_waiting env w rid st s1 = Inr (st', s')" go_on by (auto simp: ebind_eq_Inr)
    then show ?thesis by (rule skip [OF wr False p])
  next
    case f: False
    with p have "(if is_blocked_waiting_status (status r) then try_promote_blocked_waiting_request env rid s else Inr (True, s)) = Inr (True, s1)"
      by simp
    then show ?thesis using rest f by (intro admit [OF wr False]) auto
  qed
qed

lemma waiting_turn_queued:
  assumes "waiting_turn env st s = Inr (True, st', s')"
  shows "size (queued s') < size (queued s)"
  using assms
proof (cases rule: waiting_turn_cases)
  case (skip w rid r ready s1)
  have "queued s1 = queued s" using skip(5) try_promote_queued by (auto split: if_splits)
  then show ?thesis using skip_waiting_queued [OF skip(6)] by simp
next
  case (admit w rid r s1)
  have "queued s1 = queued s" using admit(5) try_promote_queued by (auto split: if_splits)
  then show ?thesis using try_admit_queued [OF admit(6)] by simp
qed simp

function waiting_loop :: "sched_env \<Rightarrow> sched_step \<Rightarrow> scheduler \<Rightarrow> (sched_step \<times> scheduler) result" where
  "waiting_loop env st s =
     (if \<not> ((rq_truth (sd_waiting s) \<or> rq_truth (sd_skipped s)) \<and> st_token_budget st > 0) then Inr (st, s)
      else ebind (waiting_turn env st s) (\<lambda>(go_on, st, s).
        if go_on then waiting_loop env st s else Inr (st, s)))"
  by pat_completeness auto
termination
  by (relation "measure (\<lambda>(_, _, s). size (queued s))") (auto dest: waiting_turn_queued)

declare waiting_loop.simps [simp del]

end
