(* ===== verification/Sched_Step.thy ===== *)
theory Sched_Step
  imports Sched_Waiting
begin

text \<open>
  The rest of \<open>Scheduler.schedule\<close>: the final assertions, the message to the workers (\<open>vllm/v1/core/sched/output.py\<close>), and
  what happens to the requests afterwards, also for \<open>AsyncScheduler\<close> (\<open>vllm/v1/core/sched/async_scheduler.py\<close>).
\<close>

subsection \<open>What the workers are told\<close>

record new_request_data =
  nd_req_id :: string
  nd_prompt_token_ids :: "int list option"
  nd_mm_features :: "mm_feature list"
  nd_sampling_params :: "sampling_params option"
  nd_pooling_params :: "pooling_params option"
  nd_block_ids :: "int list list option"
  nd_num_computed_tokens :: int
  nd_lora_request :: "lora_request option"
  nd_prompt_embeds :: "bytes list option"
  nd_prefill_token_ids :: "int list option"

definition new_request_data_from_request :: "request \<Rightarrow> int list list option \<Rightarrow> int list option \<Rightarrow> new_request_data" where
  "new_request_data_from_request r block_ids prefill =
     \<lparr>nd_req_id = request_id r, nd_prompt_token_ids = prompt_token_ids r, nd_mm_features = mm_features r,
      nd_sampling_params = rq_sampling_params r, nd_pooling_params = rq_pooling_params r, nd_block_ids = block_ids,
      nd_num_computed_tokens = num_computed_tokens r, nd_lora_request = lora_req r,
      nd_prompt_embeds = prompt_embeds r, nd_prefill_token_ids = prefill\<rparr>"

record cached_request_data =
  cd_req_ids :: "string list"
  cd_resumed_req_ids :: "string set"
  cd_new_token_ids :: "int list list"
  cd_all_token_ids :: "(string \<times> int list) list"
  cd_new_block_ids :: "int list list option list"
  cd_num_computed_tokens :: "int list"
  cd_num_output_tokens :: "int list"

definition empty_cached_request_data :: cached_request_data where
  "empty_cached_request_data =
     \<lparr>cd_req_ids = [], cd_resumed_req_ids = {}, cd_new_token_ids = [], cd_all_token_ids = [], cd_new_block_ids = [],
      cd_num_computed_tokens = [], cd_num_output_tokens = []\<rparr>"

definition cd_is_context_phase :: "cached_request_data \<Rightarrow> string \<Rightarrow> bool" where
  "cd_is_context_phase d rid = (map_of (rev (zip (cd_req_ids d) (cd_num_output_tokens d))) rid = Some 0)"

record scheduler_output =
  so_new_reqs :: "new_request_data list"
  so_cached_reqs :: cached_request_data
  so_num_tokens :: "(string \<times> int) list"
  so_total :: int
  so_spec_tokens :: "(string \<times> int list) list"
  so_encoder_inputs :: "(string \<times> nat list) list"
  so_common_prefix_blocks :: "int list"
  so_finished_ids :: "string set"
  so_free_mm_hashes :: "string list"
  so_preempted_ids :: "string set"
  so_has_structured :: bool
  so_pending_structured :: bool
  so_invalid_spec :: "(string \<times> int) list option"
  so_ids_to_zero :: "int list option"

text \<open>One turn of \<open>_make_cached_request_data\<close>.\<close>

definition cached_data_turn ::
  "sched_step \<Rightarrow> scheduler \<Rightarrow> nat \<times> string \<Rightarrow> cached_request_data \<Rightarrow> cached_request_data result" where
  "cached_data_turn st s = (\<lambda>(idx, rid) d.
     ebind (get_req rid s) (\<lambda>r.
     ebind (if use_pp (sd_config s) \<and> \<not> async_scheduling (sd_config s)
            then ebind (dict_get rid (st_num_tokens st)) (\<lambda>n.
                   let n = n - int (length (case map_of (st_spec_tokens st) rid of None \<Rightarrow> [] | Some ts \<Rightarrow> ts)) in
                   Inr [py_slice (all_token_ids r) (num_computed_tokens r) (num_computed_tokens r + n)])
            else Inr []) (\<lambda>new_ids.
     let prev = rid \<in> sd_prev_ids s; resumed = idx \<ge> length (st_running_reqs st) in
     ebind (eassert (resumed \<longrightarrow> \<not> prev)) (\<lambda>_.
     ebind (dict_get rid (st_new_blocks st)) (\<lambda>bs.
       Inr \<lparr>cd_req_ids = cd_req_ids d @ [rid],
            cd_resumed_req_ids = (if resumed then insert rid (cd_resumed_req_ids d) else cd_resumed_req_ids d),
            cd_new_token_ids = cd_new_token_ids d @ new_ids,
            cd_all_token_ids = (if prev then cd_all_token_ids d
                                else AList.update rid (all_token_ids r) (cd_all_token_ids d)),
            cd_new_block_ids = cd_new_block_ids d
              @ [get_block_ids (coord_pool (coord (sd_kv s))) (num_kv_cache_groups (sd_kv s)) True bs],
            cd_num_computed_tokens = cd_num_computed_tokens d @ [num_computed_tokens r],
            cd_num_output_tokens = cd_num_output_tokens d @ [num_output_tokens r + num_output_placeholders r]\<rparr>)))))"

definition make_cached_request_data :: "sched_step \<Rightarrow> scheduler \<Rightarrow> string list \<Rightarrow> cached_request_data result" where
  "make_cached_request_data st s resumed =
     foldE (cached_data_turn st s) (enumerate 0 (st_running_reqs st @ resumed)) empty_cached_request_data"

definition make_new_request_data :: "sched_step \<Rightarrow> scheduler \<Rightarrow> string list \<Rightarrow> new_request_data list result" where
  "make_new_request_data st s new_reqs =
     ebind (mapE (\<lambda>rid _.
       ebind (get_req rid s) (\<lambda>r.
       ebind (dict_get rid (st_new_blocks st)) (\<lambda>bs.
         Inr (new_request_data_from_request r
                (get_block_ids (coord_pool (coord (sd_kv s))) (num_kv_cache_groups (sd_kv s)) False bs)
                (if use_v2_model_runner (sd_config s) then Some (all_token_ids r) else None), ())))) new_reqs ())
       (\<lambda>(ds, _). Inr ds)"

subsection \<open>After the decision\<close>

text \<open>
  \<open>_free_encoder_inputs\<close>: encoder outputs that the decoder has consumed are no longer referenced.
\<close>

definition free_encoder_inputs :: "sched_env \<Rightarrow> request \<Rightarrow> scheduler \<Rightarrow> scheduler result" where
  "free_encoder_inputs env r s =
     ebind (foldE (\<lambda>i c.
       let pos = mm_pos (mm_features r ! i) in
       if is_encoder_decoder (sd_config s) \<and> num_computed_tokens r > 0 \<or> mm_offset pos + mm_length pos \<le> num_computed_tokens r
       then em_free_encoder_input r i c else Inr c)
       (se_set_order env (em_get_cached_input_ids r (sd_encoder s))) (sd_encoder s)) (\<lambda>c.
     Inr (s\<lparr>sd_encoder := c\<rparr>))"

text \<open>The body of the loop of \<open>_update_after_schedule\<close>; the flag collects \<open>has_structured_output_requests\<close>.\<close>

definition after_schedule_turn ::
  "sched_env \<Rightarrow> string \<times> int \<Rightarrow> bool \<times> scheduler \<Rightarrow> (bool \<times> scheduler) result" where
  "after_schedule_turn env = (\<lambda>(rid, n) (structured, s).
     ebind (get_req rid s) (\<lambda>r.
     let n' = num_computed_tokens r + n;
         r = r\<lparr>num_computed_tokens := n', is_prefill_chunk := n' < num_tokens r + num_output_placeholders r\<rparr>;
         s = put_req r s in
     ebind (if has_encoder_inputs r then free_encoder_inputs env r s else Inr s) (\<lambda>s.
       Inr (structured \<or> use_structured_output r \<and> \<not> is_prefill_chunk r, s))))"

definition base_update_after_schedule ::
  "sched_env \<Rightarrow> scheduler_output \<Rightarrow> scheduler \<Rightarrow> (scheduler_output \<times> scheduler) result" where
  "base_update_after_schedule env out s =
     ebind (foldE (after_schedule_turn env) (so_num_tokens out) (so_has_structured out, s)) (\<lambda>(structured, s).
       Inr (out\<lparr>so_has_structured := structured\<rparr>, s\<lparr>sd_finished_ids := {}\<rparr>))"

text \<open>\<open>AsyncScheduler\<close>: every request that will sample a token gets placeholders for it and for its drafts.\<close>

definition placeholder_turn ::
  "(string \<times> int list) list \<Rightarrow> string \<times> int \<Rightarrow> bool \<times> scheduler \<Rightarrow> (bool \<times> scheduler) result" where
  "placeholder_turn spec_tokens = (\<lambda>(rid, _) (pending, s).
     ebind (get_req rid s) (\<lambda>r.
     if is_prefill_chunk r then Inr (pending, s)
     else
       let n_spec = int (length (case map_of spec_tokens rid of None \<Rightarrow> [] | Some ts \<Rightarrow> ts)) in
       Inr (pending \<or> use_structured_output r \<and> num_output_placeholders r > 0,
            put_req (r\<lparr>num_output_placeholders := num_output_placeholders r + 1 + n_spec,
                       spec_token_ids := replicate (nat (num_spec_tokens (sd_config s))) (-1)\<rparr>) s)))"

definition update_after_schedule ::
  "sched_env \<Rightarrow> scheduler_output \<Rightarrow> scheduler \<Rightarrow> (scheduler_output \<times> scheduler) result" where
  "update_after_schedule env out s =
     ebind (base_update_after_schedule env out s) (\<lambda>(out, s).
     if async_scheduling (sd_config s)
     then ebind (foldE (placeholder_turn (so_spec_tokens out)) (so_num_tokens out) (so_pending_structured out, s))
            (\<lambda>(pending, s). Inr (out\<lparr>so_pending_structured := pending\<rparr>, s))
     else Inr (out, s))"

subsection \<open>The whole step\<close>

text \<open>The LoRA adapters of the requests that were scheduled from the running list.\<close>

definition running_loras :: "sched_step \<Rightarrow> scheduler \<Rightarrow> int set" where
  "running_loras st s =
     set (concat (map (\<lambda>rid. case map_of (sd_requests s) rid of
            Some r \<Rightarrow> (case lora_req r of Some l \<Rightarrow> if lora_int_id l > 0 then [lora_int_id l] else [] | None \<Rightarrow> [])
          | None \<Rightarrow> []) (st_running_reqs st)))"

definition check_loras :: "sched_step \<Rightarrow> scheduler \<Rightarrow> sched_step result" where
  "check_loras st s =
     (case max_loras (sd_config s) of
        None \<Rightarrow> Inr st
      | Some n \<Rightarrow> ebind (eassert (int (card (running_loras st s)) \<le> n)) (\<lambda>_. Inr (st\<lparr>st_loras := running_loras st s\<rparr>)))"

definition schedule_waiting :: "sched_env \<Rightarrow> sched_step \<Rightarrow> scheduler \<Rightarrow> (sched_step \<times> scheduler) result" where
  "schedule_waiting env st s =
     (if st_preempted st = [] \<and> sd_pause s = UNPAUSED
      then ebind (waiting_loop env st s) (\<lambda>(st, s).
        Inr (st, if rq_truth (st_skipped st)
                 then s\<lparr>sd_skipped := rq_prepend_all (id_less env s) (st_skipped st) (sd_skipped s)\<rparr> else s))
      else Inr (st, s))"

definition total_tokens :: "sched_step \<Rightarrow> int" where
  "total_tokens st = sum_list (map snd (st_num_tokens st))"

text \<open>The assertions at the end, and the output.\<close>

definition build_output :: "sched_step \<Rightarrow> scheduler \<Rightarrow> (scheduler_output \<times> scheduler) result" where
  "build_output st s =
     ebind (eassert (total_tokens st \<le> max_num_scheduled_tokens (sd_config s))) (\<lambda>_.
     ebind (eassert (st_token_budget st \<ge> 0)) (\<lambda>_.
     ebind (eassert (int (length (sd_running s)) \<le> max_num_running_reqs (sd_config s))) (\<lambda>_.
     ebind (eassert (length (st_new_reqs st) + length (st_resumed_reqs st) + length (st_running_reqs st)
                     \<le> length (sd_running s))) (\<lambda>_.
     ebind (case sd_running s of
              [] \<Rightarrow> Inr (replicate (num_kv_cache_groups (sd_kv s)) 0, sd_kv s)
            | rid # _ \<Rightarrow> kvm_get_num_common_prefix_blocks rid (sd_kv s)) (\<lambda>(common, kv).
     let s = s\<lparr>sd_kv := kv\<rparr>; v2 = use_v2_model_runner (sd_config s);
         new_reqs = (if v2 then st_new_reqs st @ st_resumed_reqs st else st_new_reqs st);
         resumed = (if v2 then [] else st_resumed_reqs st) in
     ebind (make_new_request_data st s new_reqs) (\<lambda>new_data.
     ebind (make_cached_request_data st s resumed) (\<lambda>cached_data.
     let s = s\<lparr>sd_prev_ids := fst ` set (st_num_tokens st)\<rparr>;
         (to_zero, s) = (if needs_kv_cache_zeroing (sd_config s)
                         then (let (ids, kv) = kvm_take_new_block_ids (sd_kv s)
                               in (if ids = [] then None else Some ids, s\<lparr>sd_kv := kv\<rparr>))
                         else (None, s));
         (freed, c) = em_get_freed_mm_hashes (sd_encoder s)
     in Inr (\<lparr>so_new_reqs = new_data, so_cached_reqs = cached_data, so_num_tokens = st_num_tokens st,
              so_total = total_tokens st, so_spec_tokens = st_spec_tokens st,
              so_encoder_inputs = st_encoder_inputs st, so_common_prefix_blocks = common,
              so_finished_ids = sd_finished_ids s, so_free_mm_hashes = freed,
              so_preempted_ids = set (st_preempted st), so_has_structured = False, so_pending_structured = False,
              so_invalid_spec = None, so_ids_to_zero = to_zero\<rparr>,
             s\<lparr>sd_encoder := c\<rparr>))))))))"

definition schedule :: "sched_env \<Rightarrow> scheduler \<Rightarrow> (scheduler_output \<times> scheduler) result" where
  "schedule env s =
     (let s = s\<lparr>sd_kv := kvm_new_step_starts (sd_kv s)\<rparr> in
      ebind (running_loop env 0 (init_step s) s) (\<lambda>(st, s).
      ebind (check_loras st s) (\<lambda>st.
      ebind (schedule_waiting env st s) (\<lambda>(st, s).
      ebind (build_output st s) (\<lambda>(out, s).
        update_after_schedule env out s)))))"

end
