(* ===== verification/Sched_Update.thy ===== *)
theory Sched_Update
  imports Sched_Step
begin

text \<open>
  The other operations of \<open>Scheduler\<close>: adding and finishing requests, streaming sessions, the result of the
  model (\<open>update_from_output\<close>), draft tokens, failed loads of a KV connector, counts and resets.
\<close>

subsection \<open>Streaming sessions\<close>

definition shift_mm_feature :: "int \<Rightarrow> mm_feature \<Rightarrow> mm_feature" where
  "shift_mm_feature base f = f\<lparr>mm_pos := (mm_pos f)\<lparr>mm_offset := mm_offset (mm_pos f) + base\<rparr>\<rparr>"

text \<open>
  \<open>_update_request_as_session\<close> on the request: computed output tokens join the prompt, the last sampled
  token is dropped, and the next chunk of input follows.
\<close>

definition session_request :: "hasher option \<Rightarrow> streaming_update \<Rightarrow> request \<Rightarrow> request result" where
  "session_request block_hasher u r =
     (let n = num_computed_tokens r;
          kept = py_slice (all_token_ids r) (num_prompt_tokens r) n;
          r = r\<lparr>all_token_ids := py_take (all_token_ids r) n, output_token_ids := []\<rparr> in
      case prompt_token_ids r of
        None \<Rightarrow> Inl AssertionError
      | Some prompt \<Rightarrow>
          let prompt = prompt @ kept;
              r = (case su_mm_features u of
                     None \<Rightarrow> r
                   | Some fs \<Rightarrow> r\<lparr>mm_features := mm_features r @ map (shift_mm_feature (num_tokens r)) fs\<rparr>);
              new_ids = (case su_prompt_token_ids u of None \<Rightarrow> [] | Some ts \<Rightarrow> ts);
              r = r\<lparr>all_token_ids := all_token_ids r @ new_ids, prompt_token_ids := Some (prompt @ new_ids)\<rparr>
          in ebind (update_block_hashes block_hasher r) (\<lambda>r.
               Inr (r\<lparr>num_prompt_tokens := int (length (prompt @ new_ids)), arrival_time := su_arrival_time u,
                      rq_sampling_params := su_sampling_params u, status := WAITING\<rparr>)))"

definition update_request_as_session :: "sched_env \<Rightarrow> request \<Rightarrow> streaming_update \<Rightarrow> scheduler \<Rightarrow> scheduler result" where
  "update_request_as_session env r u s =
     ebind (session_request (se_hasher env) u r) (\<lambda>r'.
       Inr (put_req r' (if status r = WAITING_FOR_STREAMING_REQ
                        then s\<lparr>sd_num_streaming := sd_num_streaming s - 1\<rparr> else s)))"

text \<open>\<open>_handle_stopped_request\<close>: true if the request has really finished.\<close>

definition handle_stopped_request :: "sched_env \<Rightarrow> string \<Rightarrow> scheduler \<Rightarrow> (bool \<times> scheduler) result" where
  "handle_stopped_request env rid s =
     ebind (get_req rid s) (\<lambda>r.
     if \<not> resumable r then Inr (True, s)
     else
       case (case streaming_queue r of None \<Rightarrow> [] | Some q \<Rightarrow> q) of
         [] \<Rightarrow>
           let r = r\<lparr>status := WAITING_FOR_STREAMING_REQ\<rparr>;
               s = put_req r (s\<lparr>sd_num_streaming := sd_num_streaming s + 1\<rparr>)
           in Inr (False, enqueue_waiting_request env r s)
       | None # q \<Rightarrow> Inr (True, put_req (r\<lparr>streaming_queue := Some q\<rparr>) s)
       | Some u # q \<Rightarrow>
           let r = r\<lparr>streaming_queue := Some q\<rparr> in
           ebind (update_request_as_session env r u (put_req r s)) (\<lambda>s.
           ebind (get_req rid s) (\<lambda>r. Inr (False, enqueue_waiting_request env r s))))"

subsection \<open>Finishing\<close>

definition free_request_blocks :: "string \<Rightarrow> scheduler \<Rightarrow> scheduler result" where
  "free_request_blocks rid s =
     ebind (get_req rid s) (\<lambda>r.
     ebind (eassert (is_finished r)) (\<lambda>_.
     ebind (kvm_free r (sd_kv s)) (\<lambda>kv.
       Inr (s\<lparr>sd_kv := kv, sd_requests := AList.delete rid (sd_requests s)\<rparr>))))"

text \<open>\<open>_connector_finished\<close>: whether the connector still needs the blocks.\<close>

definition connector_finished :: "sched_env \<Rightarrow> request \<Rightarrow> scheduler \<Rightarrow> (bool \<times> scheduler) result" where
  "connector_finished env r s =
     (case se_connector env of
        None \<Rightarrow> Inr (False, s)
      | Some cn \<Rightarrow>
          ebind (kvm_remove_skipped_blocks (request_id r) (num_tokens r) (sd_kv s)) (\<lambda>kv.
          let s = s\<lparr>sd_kv := kv\<rparr>;
              ids = (case kvm_get_block_ids (request_id r) kv of None \<Rightarrow> [] | Some ids \<Rightarrow> ids) in
          if \<not> supports_hma cn
          then ebind (eassert (num_kv_cache_groups kv = 1)) (\<lambda>_.
               ebind (py_index ids 0) (\<lambda>g. Inr (request_finished cn r g, s)))
          else Inr (request_finished_all_groups cn r ids, s)))"

definition free_request :: "sched_env \<Rightarrow> bool \<Rightarrow> string \<Rightarrow> scheduler \<Rightarrow> scheduler result" where
  "free_request env delay rid s =
     ebind (get_req rid s) (\<lambda>r.
     ebind (eassert (is_finished r)) (\<lambda>_.
     ebind (connector_finished env r s) (\<lambda>(connector_delay, s).
     ebind (em_free (se_set_order env) r (sd_encoder s)) (\<lambda>c.
     let s = s\<lparr>sd_encoder := c, sd_finished_ids := insert rid (sd_finished_ids s)\<rparr> in
     if delay \<or> connector_delay then Inr s else free_request_blocks rid s))))"

text \<open>
  \<open>finish_requests\<close>.  Without ids, all requests; the code turns the ids into a set, so the list stands for the
  order in which that set is walked.
\<close>

definition valid_requests :: "string list \<Rightarrow> scheduler \<Rightarrow> string list" where
  "valid_requests ids s =
     filter (\<lambda>rid. case map_of (sd_requests s) rid of None \<Rightarrow> False | Some r \<Rightarrow> \<not> is_finished r) ids"

definition status_of :: "scheduler \<Rightarrow> string \<Rightarrow> request_status option" where
  "status_of s rid = map_option status (map_of (sd_requests s) rid)"

definition finish_one :: "sched_env \<Rightarrow> request_status \<Rightarrow> string \<Rightarrow> scheduler \<Rightarrow> scheduler result" where
  "finish_one env finished_status rid s =
     ebind (get_req rid s) (\<lambda>r.
     let remote = (status r = WAITING_FOR_REMOTE_KVS);
         delay = remote \<and> rid \<notin> sd_finished_recving s;
         s = (if remote then s\<lparr>sd_finished_recving := sd_finished_recving s - {rid},
                               sd_failed_recving := sd_failed_recving s - {rid}\<rparr> else s)
     in free_request env delay rid (put_req (r\<lparr>status := finished_status\<rparr>) s))"

definition finish_requests ::
  "sched_env \<Rightarrow> string list option \<Rightarrow> request_status \<Rightarrow> scheduler \<Rightarrow> (string list \<times> scheduler) result" where
  "finish_requests env request_ids finished_status s =
     ebind (eassert (status_is_finished finished_status)) (\<lambda>_.
     let ids = (case request_ids of None \<Rightarrow> map fst (sd_requests s) | Some ids \<Rightarrow> ids);
         valid = valid_requests ids s;
         from_running = filter (\<lambda>rid. status_of s rid = Some RUNNING) valid;
         from_waiting = filter (\<lambda>rid. status_of s rid \<noteq> Some RUNNING) valid;
         streaming = filter (\<lambda>rid. status_of s rid = Some WAITING_FOR_STREAMING_REQ) valid;
         s = s\<lparr>sd_num_streaming := sd_num_streaming s - int (length streaming)\<rparr>;
         s = (if from_running \<noteq> [] then s\<lparr>sd_running := remove_all (sd_running s) from_running\<rparr> else s);
         s = (if from_waiting \<noteq> []
              then s\<lparr>sd_waiting := rq_remove_all (id_less env s) (set from_waiting) (sd_waiting s),
                     sd_skipped := rq_remove_all (id_less env s) (set from_waiting) (sd_skipped s)\<rparr> else s)
     in ebind (foldE (finish_one env finished_status) valid s) (\<lambda>s. Inr (valid, s)))"

subsection \<open>Adding\<close>

text \<open>
  \<open>add_request\<close>.  The queue compares requests through the dictionary here, so a new request is stored
  before it is queued.
\<close>

definition add_request :: "sched_env \<Rightarrow> request \<Rightarrow> scheduler \<Rightarrow> scheduler result" where
  "add_request env r s =
     (case map_of (sd_requests s) (request_id r) of
        Some existing \<Rightarrow>
          let u = streaming_update_from_request r in
          if status existing \<noteq> WAITING_FOR_STREAMING_REQ
          then (case streaming_queue existing of
                  None \<Rightarrow> Inl AssertionError
                | Some q \<Rightarrow> Inr (put_req (existing\<lparr>streaming_queue := Some (q @ [u])\<rparr>) s))
          else (case u of
                  Some u \<Rightarrow> update_request_as_session env existing u s
                | None \<Rightarrow> ebind (finish_requests env (Some [request_id r]) FINISHED_ABORTED s) (\<lambda>(_, s). Inr s))
      | None \<Rightarrow>
          let r = (if resumable r then r\<lparr>streaming_queue := Some []\<rparr> else r)
          in Inr (enqueue_waiting_request env r (put_req r s)))"

subsection \<open>Statistics\<close>

record spec_decoding_stats =
  sp_num_spec_tokens :: int
  sp_num_drafts :: int
  sp_num_draft_tokens :: int
  sp_num_accepted_tokens :: int
  sp_accepted_per_pos :: "int list"

definition new_spec_stats :: "int \<Rightarrow> spec_decoding_stats" where
  "new_spec_stats n = \<lparr>sp_num_spec_tokens = n, sp_num_drafts = 0, sp_num_draft_tokens = 0, sp_num_accepted_tokens = 0,
     sp_accepted_per_pos = replicate (nat n) 0\<rparr>"

definition observe_draft :: "int \<Rightarrow> int \<Rightarrow> spec_decoding_stats \<Rightarrow> spec_decoding_stats result" where
  "observe_draft n_draft n_accepted st =
     ebind (eassert (n_accepted \<le> sp_num_spec_tokens st)) (\<lambda>_.
     ebind (foldE (\<lambda>i xs. ebind (py_index xs i) (\<lambda>x. py_set xs i (x + 1))) (py_range 0 n_accepted) (sp_accepted_per_pos st))
       (\<lambda>per_pos.
     Inr (st\<lparr>sp_num_drafts := sp_num_drafts st + 1, sp_num_draft_tokens := sp_num_draft_tokens st + n_draft,
             sp_num_accepted_tokens := sp_num_accepted_tokens st + n_accepted, sp_accepted_per_pos := per_pos\<rparr>)))"

definition make_spec_decoding_stats ::
  "scheduler \<Rightarrow> spec_decoding_stats option \<Rightarrow> int \<Rightarrow> int \<Rightarrow> (string \<times> int) list option \<Rightarrow> string
    \<Rightarrow> spec_decoding_stats option result" where
  "make_spec_decoding_stats s stats n_draft n_accepted invalid rid =
     (if \<not> log_stats (sd_kv s) \<or> n_draft = 0 then Inr None
      else
        let st = (case stats of None \<Rightarrow> new_spec_stats (num_spec_tokens (sd_config s)) | Some st \<Rightarrow> st);
            n_draft = (case invalid of
                         None \<Rightarrow> n_draft
                       | Some d \<Rightarrow> n_draft - (case map_of d rid of None \<Rightarrow> 0 | Some k \<Rightarrow> k))
        in ebind (observe_draft n_draft n_accepted st) (\<lambda>st. Inr (Some st)))"

record scheduler_stats =
  ss_num_running :: int
  ss_num_waiting :: int
  ss_kv_cache_usage :: rat
  ss_encoder_cache_usage :: rat
  ss_prefix_cache_stats :: cache_stats
  ss_spec_decoding_stats :: "spec_decoding_stats option"

definition get_encoder_cache_usage :: "scheduler \<Rightarrow> rat" where
  "get_encoder_cache_usage s =
     (let (size, free) = em_slots (sd_encoder s) in
      if size = 0 then 0 else of_int (size - free) / of_int size)"

definition make_stats :: "spec_decoding_stats option \<Rightarrow> scheduler \<Rightarrow> (scheduler_stats option \<times> scheduler) result" where
  "make_stats spec s =
     (if \<not> log_stats (sd_kv s) then Inr (None, s)
      else
        let (stats, kv) = make_prefix_cache_stats (sd_kv s); s = s\<lparr>sd_kv := kv\<rparr> in
        case stats of
          None \<Rightarrow> Inl AssertionError
        | Some ps \<Rightarrow>
            Inr (Some \<lparr>ss_num_running = int (length (sd_running s)),
                       ss_num_waiting = int (rq_len (sd_waiting s)) + int (rq_len (sd_skipped s)),
                       ss_kv_cache_usage = kvm_usage kv, ss_encoder_cache_usage = get_encoder_cache_usage s,
                       ss_prefix_cache_stats = ps, ss_spec_decoding_stats = spec\<rparr>, s))"

subsection \<open>The result of the model\<close>

text \<open>What the worker returns; logits and logprobs, which the scheduler only forwards, are left out.\<close>

record kv_connector_output =
  kc_finished_recving :: "string list"
  kc_finished_sending :: "string list"
  kc_invalid_block_ids :: "int set"

record model_runner_output =
  mo_req_id_to_index :: "(string \<times> int) list"
  mo_sampled_token_ids :: "int list list"
  mo_prompt_logprobs :: "string set" \<comment> \<open>the requests with prompt logprobs\<close>
  mo_pooler_output :: "string option list"
  mo_num_nans :: "(string \<times> int) list"
  mo_kv_output :: "kv_connector_output option"

text \<open>What goes back to the engine.\<close>

record engine_core_output =
  eo_request_id :: string
  eo_new_token_ids :: "int list"
  eo_pooling_output :: "string option"
  eo_finish_reason :: "finish_reason option"
  eo_stop_reason :: "stop_reason option"
  eo_num_cached_tokens :: int
  eo_num_external_computed_tokens :: int
  eo_num_nans_in_logits :: int

subsection \<open>Failed loads\<close>

text \<open>
  \<open>_update_requests_with_invalid_blocks\<close>.  The inner loop walks the blocks that may hold loaded tokens; the first
  bad block that no earlier request has marked cuts the computed tokens of the request.
\<close>

record invalid_scan =
  iv_affected :: bool
  iv_marked :: bool
  iv_request :: request
  iv_marked_ids :: "int set"
  iv_total :: int
  iv_evict :: "int set"

definition invalid_block_turn ::
  "int set \<Rightarrow> bool \<Rightarrow> int \<Rightarrow> int \<Rightarrow> int list \<Rightarrow> nat \<times> int \<Rightarrow> invalid_scan \<Rightarrow> invalid_scan" where
  "invalid_block_turn invalid evict bs n_computed ids = (\<lambda>(idx, b) v.
     if b \<notin> invalid then v
     else
       let v = v\<lparr>iv_affected := True\<rparr> in
       if b \<in> iv_marked_ids v then v
       else
         let v = v\<lparr>iv_marked_ids := insert b (iv_marked_ids v)\<rparr> in
         if iv_marked v then v
         else
           let r = iv_request v; n = int idx * bs; affected = n_computed - n
           in v\<lparr>iv_marked := True, iv_total := iv_total v + affected,
                iv_request := r\<lparr>num_computed_tokens := n,
                                rq_num_external_computed_tokens := rq_num_external_computed_tokens r - affected\<rparr>,
                iv_evict := (if evict then iv_evict v \<union> set (drop idx ids) else iv_evict v)\<rparr>)"

record invalid_result =
  ir_affected :: "string set"
  ir_total :: int
  ir_evict :: "int set"
  ir_marked_ids :: "int set"

definition invalid_request_turn ::
  "int set \<Rightarrow> bool \<Rightarrow> string \<Rightarrow> invalid_result \<times> scheduler \<Rightarrow> (invalid_result \<times> scheduler) result" where
  "invalid_request_turn invalid evict rid = (\<lambda>(res, s).
     ebind (get_req rid s) (\<lambda>r.
     case kvm_get_block_ids rid (sd_kv s) of
       Some [ids] \<Rightarrow>
         let n_computed = (if status r = WAITING_FOR_REMOTE_KVS then num_computed_tokens r else num_cached_tokens r) in
         ebind (pdiv (n_computed + sched_block_size (sd_config s) - 1) (sched_block_size (sd_config s))) (\<lambda>n_blocks.
         let v = fold (invalid_block_turn invalid evict (sched_block_size (sd_config s)) n_computed ids)
                   (enumerate 0 (take (nat n_blocks) ids))
                   \<lparr>iv_affected = False, iv_marked = False, iv_request = r, iv_marked_ids = ir_marked_ids res,
                    iv_total = ir_total res, iv_evict = ir_evict res\<rparr>;
             r = iv_request v;
             shared_only = iv_affected v \<and> \<not> iv_marked v
         in Inr (\<lparr>ir_affected = (if iv_affected v then insert rid (ir_affected res) else ir_affected res),
                  ir_total = (if shared_only then iv_total v + (num_computed_tokens r - num_cached_tokens r) else iv_total v),
                  ir_evict = iv_evict v, ir_marked_ids = iv_marked_ids v\<rparr>,
                 put_req (if shared_only then r\<lparr>num_computed_tokens := num_cached_tokens r\<rparr> else r) s))
     | _ \<Rightarrow> Inl ValueError))"

definition update_requests_with_invalid_blocks ::
  "string list \<Rightarrow> int set \<Rightarrow> bool \<Rightarrow> scheduler \<Rightarrow> (invalid_result \<times> scheduler) result" where
  "update_requests_with_invalid_blocks rids invalid evict s =
     foldE (invalid_request_turn invalid evict) rids
       (\<lparr>ir_affected = {}, ir_total = 0, ir_evict = {}, ir_marked_ids = {}\<rparr>, s)"

text \<open>
  \<open>_handle_invalid_blocks\<close>: the requests whose outputs are to be dropped.  \<open>set_order\<close> lists the block ids to evict.
\<close>

definition handle_invalid_blocks ::
  "sched_env \<Rightarrow> (int set \<Rightarrow> int list) \<Rightarrow> int set \<Rightarrow> scheduler \<Rightarrow> (string set \<times> scheduler) result" where
  "handle_invalid_blocks env set_order invalid s =
     (let async_reqs = filter (\<lambda>rid. status_of s rid = Some WAITING_FOR_REMOTE_KVS) (rq_iter (id_less env s) (sd_skipped s)) in
      ebind (update_requests_with_invalid_blocks async_reqs invalid False s) (\<lambda>(async_res, s).
      ebind (update_requests_with_invalid_blocks (sd_running s) invalid True s) (\<lambda>(sync_res, s).
      if card (ir_affected async_res) + card (ir_affected sync_res) = 0 then Inr ({}, s)
      else
        ebind (if ir_evict sync_res \<noteq> {} \<and> \<not> recompute_kv_load_failures (sd_config s)
               then kvm_evict_blocks (se_pool env) (set_order (ir_evict sync_res)) (sd_kv s)
               else Inr (sd_kv s)) (\<lambda>kv.
        let s = s\<lparr>sd_kv := kv\<rparr> in
        if \<not> recompute_kv_load_failures (sd_config s) then Inr (ir_affected async_res \<union> ir_affected sync_res, s)
        else Inr (ir_affected sync_res,
                  s\<lparr>sd_failed_recving := sd_failed_recving s \<union> ir_affected async_res\<rparr>)))))"

text \<open>\<open>_update_from_kv_xfer_finished\<close>\<close>

definition recving_turn :: "string \<Rightarrow> scheduler \<Rightarrow> scheduler result" where
  "recving_turn rid s =
     (case map_of (sd_requests s) rid of
        None \<Rightarrow> Inl AssertionError
      | Some r \<Rightarrow>
          if status r = WAITING_FOR_REMOTE_KVS
          then Inr (s\<lparr>sd_finished_recving := insert rid (sd_finished_recving s)\<rparr>)
          else ebind (eassert (status_is_finished (status r))) (\<lambda>_. free_request_blocks rid s))"

definition sending_turn :: "string \<Rightarrow> scheduler \<Rightarrow> scheduler result" where
  "sending_turn rid s =
     (if map_of (sd_requests s) rid = None then Inl AssertionError else free_request_blocks rid s)"

definition update_from_kv_xfer_finished :: "kv_connector_output \<Rightarrow> scheduler \<Rightarrow> scheduler result" where
  "update_from_kv_xfer_finished out s =
     ebind (foldE recving_turn (kc_finished_recving out) s) (foldE sending_turn (kc_finished_sending out))"

subsection \<open>New tokens\<close>

text \<open>\<open>_update_request_with_output\<close>: append until the request stops; later tokens are dropped.\<close>

fun output_loop :: "hasher option \<Rightarrow> int \<Rightarrow> int list \<Rightarrow> int list \<Rightarrow> request \<Rightarrow> (int list \<times> bool \<times> request) result" where
  "output_loop block_hasher max_len kept [] r = Inr (kept, False, r)"
| "output_loop block_hasher max_len kept (t # ts) r =
     ebind (append_output_token_ids block_hasher [t] r) (\<lambda>r.
     ebind (check_stop r max_len) (\<lambda>(stopped, r).
       if stopped then Inr (kept @ [t], True, r)
       else output_loop block_hasher max_len (kept @ [t]) ts r))"

definition update_request_with_output ::
  "sched_env \<Rightarrow> string \<Rightarrow> int list \<Rightarrow> scheduler \<Rightarrow> (int list \<times> bool \<times> scheduler) result" where
  "update_request_with_output env rid new_ids s =
     ebind (get_req rid s) (\<lambda>r.
     if async_scheduling (sd_config s)
     then
       if discard_latest_async_tokens r
       then Inr ([], False, put_req (r\<lparr>discard_latest_async_tokens := False\<rparr>) s)
       else
         let old_status = status r in
         ebind (output_loop (se_hasher env) (max_model_len (sd_config s)) [] new_ids r) (\<lambda>(ids, stopped, r).
         let r = r\<lparr>num_output_placeholders := num_output_placeholders r - int (length ids)\<rparr> in
         ebind (eassert (num_output_placeholders r \<ge> 0)) (\<lambda>_.
         ebind (if old_status = RUNNING
                then kvm_cache_blocks (se_pool env) r (num_computed_tokens r - num_output_placeholders r) (sd_kv s)
                else Inr (sd_kv s)) (\<lambda>kv.
           Inr (ids, stopped, put_req r (s\<lparr>sd_kv := kv\<rparr>)))))
     else
       ebind (output_loop (se_hasher env) (max_model_len (sd_config s)) [] new_ids r) (\<lambda>(ids, stopped, r).
         Inr (ids, stopped, put_req r s)))"

subsection \<open>One request of the batch\<close>

text \<open>The local variables of \<open>update_from_output\<close> that its loop carries.\<close>

record update_step =
  us_outputs :: "engine_core_output list"
  us_stopped_running :: "string list"
  us_stopped_preempted :: "string list"
  us_spec_stats :: "spec_decoding_stats option"

text \<open>Drafts that were rejected are taken back.\<close>

definition reject_drafts :: "int \<Rightarrow> request \<Rightarrow> request" where
  "reject_drafts n_rejected r =
     r\<lparr>num_computed_tokens :=
         (if num_computed_tokens r > 0 then num_computed_tokens r - n_rejected else num_computed_tokens r),
       num_output_placeholders :=
         (if num_output_placeholders r > 0 then num_output_placeholders r - n_rejected else num_output_placeholders r)\<rparr>"

definition account_drafts ::
  "scheduler_output \<Rightarrow> string \<Rightarrow> int list \<Rightarrow> update_step \<Rightarrow> scheduler \<Rightarrow> (update_step \<times> scheduler) result" where
  "account_drafts out rid generated u s =
     ebind (get_req rid s) (\<lambda>r.
     let drafts = (case map_of (so_spec_tokens out) rid of None \<Rightarrow> [] | Some ts \<Rightarrow> ts) in
     if drafts = [] \<or> generated = [] then Inr (u, s)
     else
       let n_draft = int (length drafts); n_accepted = int (length generated) - 1;
           s = put_req (reject_drafts (n_draft - n_accepted) r) s in
       ebind (make_spec_decoding_stats s (us_spec_stats u) n_draft n_accepted (so_invalid_spec out) rid) (\<lambda>stats.
         Inr (u\<lparr>us_spec_stats := stats\<rparr>, s)))"

text \<open>
  The request has stopped: it is freed, or it waits for more input.  The list of stopped requests depends on
  the status it had before.
\<close>

definition stop_request ::
  "sched_env \<Rightarrow> string \<Rightarrow> request_status \<Rightarrow> update_step \<Rightarrow> scheduler \<Rightarrow> (update_step \<times> scheduler) result" where
  "stop_request env rid old_status u s =
     ebind (handle_stopped_request env rid s) (\<lambda>(finished, s).
     ebind (if finished then free_request env False rid s else Inr s) (\<lambda>s.
       Inr (if old_status = RUNNING then u\<lparr>us_stopped_running := us_stopped_running u @ [rid]\<rparr>
            else u\<lparr>us_stopped_preempted := us_stopped_preempted u @ [rid]\<rparr>, s)))"

definition index_if_any :: "'a list \<Rightarrow> int \<Rightarrow> 'a \<Rightarrow> 'a result" where
  "index_if_any xs i dflt = (if xs = [] then Inr dflt else py_index xs i)"

text \<open>New tokens, or the result of a pooling request.\<close>

definition take_output ::
  "sched_env \<Rightarrow> string \<Rightarrow> int list \<Rightarrow> string option \<Rightarrow> scheduler \<Rightarrow> (int list \<times> bool \<times> scheduler) result" where
  "take_output env rid generated pooler_output s =
     ebind (get_req rid s) (\<lambda>r.
     if generated \<noteq> [] then update_request_with_output env rid generated s
     else if rq_pooling_params r \<noteq> None \<and> pooler_output \<noteq> None
     then Inr ([], True, put_req (r\<lparr>status := FINISHED_STOPPED\<rparr>) s)
     else Inr ([], False, s))"

text \<open>What the engine is told of the request; \<open>r\<close> is the request after it was stopped.\<close>

definition note_output ::
  "sched_env \<Rightarrow> model_runner_output \<Rightarrow> string \<Rightarrow> int list \<Rightarrow> string option \<Rightarrow> bool \<Rightarrow> finish_reason option \<Rightarrow> request
    \<Rightarrow> update_step \<Rightarrow> scheduler \<Rightarrow> (update_step \<times> scheduler) result" where
  "note_output env mo rid new_ids pooler_output stopped finish_reason r u s =
     ebind (eassert (new_ids \<noteq> [] \<and> se_should_advance env r \<longrightarrow> use_structured_output r \<and> se_has_grammar env rid)) (\<lambda>_.
     let nans = (case map_of (mo_num_nans mo) rid of None \<Rightarrow> num_nans_in_logits r | Some k \<Rightarrow> k);
         s = (case map_of (sd_requests s) rid of
                None \<Rightarrow> s | Some r \<Rightarrow> put_req (r\<lparr>num_nans_in_logits := nans\<rparr>) s) in
     if new_ids \<noteq> [] \<or> pooler_output \<noteq> None \<or> stopped
     then Inr (u\<lparr>us_outputs := us_outputs u @
                   [\<lparr>eo_request_id = rid, eo_new_token_ids = new_ids, eo_pooling_output = pooler_output,
                     eo_finish_reason = finish_reason, eo_stop_reason = rq_stop_reason r,
                     eo_num_cached_tokens = num_cached_tokens r,
                     eo_num_external_computed_tokens = rq_num_external_computed_tokens r,
                     eo_num_nans_in_logits = nans\<rparr>]\<rparr>, s)
     else ebind (eassert (rid \<notin> mo_prompt_logprobs mo)) (\<lambda>_. Inr (u, s)))"

definition update_one ::
  "sched_env \<Rightarrow> scheduler_output \<Rightarrow> model_runner_output \<Rightarrow> string set \<Rightarrow> string \<times> int \<Rightarrow> update_step \<times> scheduler
    \<Rightarrow> (update_step \<times> scheduler) result" where
  "update_one env out mo failed = (\<lambda>(rid, n_scheduled) (u, s).
     ebind (eassert (n_scheduled > 0)) (\<lambda>_.
     if rid \<in> failed \<or> (case map_of (sd_requests s) rid of None \<Rightarrow> True | Some r \<Rightarrow> is_finished r) then Inr (u, s)
     else
       ebind (dict_get rid (mo_req_id_to_index mo)) (\<lambda>req_index.
       ebind (index_if_any (mo_sampled_token_ids mo) req_index []) (\<lambda>generated.
       ebind (account_drafts out rid generated u s) (\<lambda>(u, s).
       ebind (index_if_any (mo_pooler_output mo) req_index None) (\<lambda>pooler_output.
       ebind (get_req rid s) (\<lambda>r.
       let old_status = status r in
       ebind (take_output env rid generated pooler_output s) (\<lambda>(new_ids, stopped, s).
       ebind (get_req rid s) (\<lambda>r.
       let finish_reason = (if stopped then get_finished_reason r else None) in
       ebind (if stopped then stop_request env rid old_status u s else Inr (u, s)) (\<lambda>(u, s).
         note_output env mo rid new_ids pooler_output stopped finish_reason
           (case map_of (sd_requests s) rid of None \<Rightarrow> r | Some r \<Rightarrow> r) u s))))))))))"

subsection \<open>The whole update\<close>

definition remove_stopped :: "sched_env \<Rightarrow> update_step \<Rightarrow> scheduler \<Rightarrow> scheduler" where
  "remove_stopped env u s =
     (let s = (if us_stopped_running u \<noteq> []
               then s\<lparr>sd_running := remove_all (sd_running s) (us_stopped_running u)\<rparr> else s)
      in if us_stopped_preempted u \<noteq> []
         then s\<lparr>sd_waiting := rq_remove_all (id_less env s) (set (us_stopped_preempted u)) (sd_waiting s)\<rparr> else s)"

text \<open>
  Requests whose external blocks failed to load end with an error if the policy is not to recompute;
  \<open>order\<close> lists the set of their ids.
\<close>

definition fail_loads ::
  "sched_env \<Rightarrow> (string set \<Rightarrow> string list) \<Rightarrow> string set \<Rightarrow> update_step \<Rightarrow> scheduler \<Rightarrow> (update_step \<times> scheduler) result" where
  "fail_loads env order failed u s =
     (if failed = {} \<or> recompute_kv_load_failures (sd_config s) then Inr (u, s)
      else
        ebind (mapE (\<lambda>rid _. ebind (get_req rid s) (\<lambda>r. Inr (r, ()))) (order failed) ()) (\<lambda>(rs, _).
        ebind (finish_requests env (Some (order failed)) FINISHED_ERROR s) (\<lambda>(_, s).
          Inr (u\<lparr>us_outputs := us_outputs u @ map (\<lambda>r.
                   \<lparr>eo_request_id = request_id r, eo_new_token_ids = [], eo_pooling_output = None,
                    eo_finish_reason = status_get_finished_reason FINISHED_ERROR, eo_stop_reason = None,
                    eo_num_cached_tokens = num_cached_tokens r, eo_num_external_computed_tokens = 0,
                    eo_num_nans_in_logits = 0\<rparr>) rs\<rparr>, s))))"

definition update_from_output ::
  "sched_env \<Rightarrow> (int set \<Rightarrow> int list) \<Rightarrow> (string set \<Rightarrow> string list) \<Rightarrow> scheduler_output \<Rightarrow> model_runner_output \<Rightarrow> scheduler
    \<Rightarrow> (engine_core_output list \<times> kv_event list \<times> scheduler_stats option \<times> scheduler) result" where
  "update_from_output env block_order id_order out mo s =
     ebind (case mo_kv_output mo of
              None \<Rightarrow> Inr ({}, s)
            | Some k \<Rightarrow> if kc_invalid_block_ids k = {} then Inr ({}, s)
                        else handle_invalid_blocks env block_order (kc_invalid_block_ids k) s) (\<lambda>(failed, s).
     ebind (foldE (update_one env out mo failed) (so_num_tokens out)
              (\<lparr>us_outputs = [], us_stopped_running = [], us_stopped_preempted = [], us_spec_stats = None\<rparr>, s)) (\<lambda>(u, s).
     ebind (fail_loads env id_order failed u (remove_stopped env u s)) (\<lambda>(u, s).
     ebind (case mo_kv_output mo of None \<Rightarrow> Inr s | Some k \<Rightarrow> update_from_kv_xfer_finished k s) (\<lambda>s.
     let (events, kv) = kvm_take_events (sd_kv s) in
     ebind (make_stats (us_spec_stats u) (s\<lparr>sd_kv := kv\<rparr>)) (\<lambda>(stats, s).
       Inr (us_outputs u, events, stats, s))))))"

subsection \<open>Draft tokens\<close>

definition draft_turn :: "sched_env \<Rightarrow> string \<times> int list \<Rightarrow> scheduler \<Rightarrow> scheduler" where
  "draft_turn env = (\<lambda>(rid, drafts) s.
     case map_of (sd_requests s) rid of
       None \<Rightarrow> s
     | Some r \<Rightarrow>
         if is_finished r then s
         else if is_prefill_chunk r then put_req (r\<lparr>spec_token_ids := []\<rparr>) s
         else put_req (r\<lparr>spec_token_ids := (if se_should_advance env r then se_validate_tokens env r drafts else drafts)\<rparr>) s)"

definition update_draft_token_ids :: "sched_env \<Rightarrow> string list \<Rightarrow> int list list \<Rightarrow> scheduler \<Rightarrow> scheduler" where
  "update_draft_token_ids env req_ids draft_ids s = fold (draft_turn env) (zip req_ids draft_ids) s"

text \<open>
  \<open>update_draft_token_ids_in_output\<close>: drafts are cut to the number scheduled, and those the grammar refuses
  are replaced by padding.
\<close>

definition draft_output_turn ::
  "sched_env \<Rightarrow> scheduler \<Rightarrow> string \<times> int list \<Rightarrow> (string \<times> int list) list \<times> (string \<times> int) list
    \<Rightarrow> (string \<times> int list) list \<times> (string \<times> int) list" where
  "draft_output_turn env s = (\<lambda>(rid, drafts) (sched, invalid).
     case map_of (sd_requests s) rid of
       None \<Rightarrow> (sched, invalid)
     | Some r \<Rightarrow>
         (case map_of sched rid of
            None \<Rightarrow> (sched, invalid)
          | Some placeholders \<Rightarrow>
              if is_finished r \<or> placeholders = [] then (sched, invalid)
              else
                let n = length placeholders; drafts = take n drafts;
                    drafts = (if se_should_advance env r then se_validate_tokens env r drafts else drafts);
                    missing = int n - int (length drafts)
                in (AList.update rid (drafts @ replicate (nat missing) (-1)) sched,
                    if missing \<noteq> 0 then AList.update rid missing invalid else invalid)))"

definition update_draft_token_ids_in_output ::
  "sched_env \<Rightarrow> string list \<Rightarrow> int list list \<Rightarrow> scheduler \<Rightarrow> scheduler_output \<Rightarrow> scheduler_output" where
  "update_draft_token_ids_in_output env req_ids draft_ids s out =
     (let (sched, invalid) = fold (draft_output_turn env s) (zip req_ids draft_ids) (so_spec_tokens out, [])
      in out\<lparr>so_spec_tokens := sched, so_invalid_spec := Some invalid\<rparr>)"

text \<open>The requests whose next token a grammar constrains.\<close>

definition grammar_request_ids :: "scheduler \<Rightarrow> scheduler_output \<Rightarrow> string list" where
  "grammar_request_ids s out =
     (if \<not> so_has_structured out then []
      else filter (\<lambda>rid. case map_of (sd_requests s) rid of
                     None \<Rightarrow> False | Some r \<Rightarrow> use_structured_output r \<and> \<not> is_prefill_chunk r) (map fst (so_num_tokens out)))"

subsection \<open>Counts, pausing, resetting\<close>

definition get_request_counts :: "scheduler \<Rightarrow> int \<times> int" where
  "get_request_counts s = (int (length (sd_running s)), int (rq_len (sd_waiting s)) + int (rq_len (sd_skipped s)))"

definition set_pause_state :: "pause_state \<Rightarrow> scheduler \<Rightarrow> scheduler" where
  "set_pause_state p s = s\<lparr>sd_pause := p\<rparr>"

definition get_num_unfinished_requests :: "scheduler \<Rightarrow> int" where
  "get_num_unfinished_requests s =
     (case sd_pause s of
        PAUSED_ALL \<Rightarrow> 0
      | PAUSED_NEW \<Rightarrow> int (length (sd_running s))
      | UNPAUSED \<Rightarrow> int (rq_len (sd_waiting s)) + int (rq_len (sd_skipped s)) - sd_num_streaming s
                    + int (length (sd_running s)))"

definition has_finished_requests :: "scheduler \<Rightarrow> bool" where
  "has_finished_requests s \<longleftrightarrow> sd_finished_ids s \<noteq> {}"

function preempt_all :: "sched_env \<Rightarrow> scheduler \<Rightarrow> scheduler result" where
  "preempt_all env s =
     (if sd_running s = [] then Inr s
      else
        let rid = last (sd_running s) in
        ebind (preempt_request env rid (s\<lparr>sd_running := butlast (sd_running s)\<rparr>)) (\<lambda>s.
        ebind (get_req rid s) (\<lambda>r.
          preempt_all env (put_req (r\<lparr>num_output_placeholders := 0, discard_latest_async_tokens := True\<rparr>) s))))"
  by pat_completeness auto
termination
  by (relation "measure (\<lambda>(_, s). length (sd_running s))") (auto dest!: preempt_request_running simp: put_req_def)

declare preempt_all.simps [simp del]

definition reset_connector_cache :: "sched_env \<Rightarrow> bool" where
  "reset_connector_cache env \<longleftrightarrow>
     (case se_connector env of None \<Rightarrow> False | Some cn \<Rightarrow> cn_reset_cache cn \<noteq> Some False)"

definition sched_reset_prefix_cache :: "sched_env \<Rightarrow> bool \<Rightarrow> bool \<Rightarrow> scheduler \<Rightarrow> (bool \<times> scheduler) result" where
  "sched_reset_prefix_cache env reset_running_requests reset_connector s =
     ebind (if reset_running_requests
            then ebind (preempt_all env s) (\<lambda>s. Inr (s\<lparr>sd_prev_ids := {}\<rparr>)) else Inr s) (\<lambda>s.
     ebind (kvm_reset_prefix_cache (sd_kv s)) (\<lambda>(ok, kv).
     let s = s\<lparr>sd_kv := kv\<rparr> in
     if reset_running_requests \<and> \<not> ok then Inl RuntimeError
     else Inr (if reset_connector then reset_connector_cache env \<and> ok else ok, s)))"

definition reset_encoder_cache :: "scheduler \<Rightarrow> scheduler" where
  "reset_encoder_cache s = s\<lparr>sd_encoder := em_reset (sd_encoder s)\<rparr>"

end
