(* ===== verification/Sched_Places.thy ===== *)
theory Sched_Places
  imports Sched_Update
begin

text \<open>
  Where a request is: on the running list, in one of the waiting queues, or in neither.  \<open>place_of\<close> reads it off the
  status of the request, \<open>placed\<close> says that the list and the two queues agree with it, and \<open>still\<close> that an operation moves no
  request.  The helpers of \<open>Scheduler.schedule\<close> are still; \<open>_preempt_request\<close> moves one request.
\<close>

subsection \<open>Where a request is\<close>

datatype place = Running | Queued | Nowhere

definition status_place :: "request_status \<Rightarrow> place" where
  "status_place st = (if st = RUNNING then Running else if status_is_finished st then Nowhere else Queued)"

definition place_of :: "scheduler \<Rightarrow> string \<Rightarrow> place" where
  "place_of s rid = (case map_of (sd_requests s) rid of None \<Rightarrow> Nowhere | Some r \<Rightarrow> status_place (status r))"

definition keyed :: "scheduler \<Rightarrow> bool" where
  "keyed s \<longleftrightarrow> distinct (map fst (sd_requests s)) \<and> (\<forall>rid r. map_of (sd_requests s) rid = Some r \<longrightarrow> request_id r = rid)"

text \<open>
  Every running request is on the running list once, every waiting one in one of the queues once,
  and nothing else is on either.
\<close>

definition in_place :: "(string \<Rightarrow> place) \<Rightarrow> string multiset \<Rightarrow> string multiset \<Rightarrow> bool" where
  "in_place P run qu \<longleftrightarrow> (\<forall>rid. count run rid = of_bool (P rid = Running) \<and> count qu rid = of_bool (P rid = Queued))"

definition placed :: "scheduler \<Rightarrow> bool" where
  "placed s \<longleftrightarrow> keyed s \<and> in_place (place_of s) (mset (sd_running s)) (queued s)"

lemma status_place_simps [simp]:
  "status_place RUNNING = Running" "status_place WAITING = Queued" "status_place PREEMPTED = Queued"
  "status_place WAITING_FOR_REMOTE_KVS = Queued" "status_place WAITING_FOR_STREAMING_REQ = Queued"
  "status_place WAITING_FOR_STRUCTURED_OUTPUT_GRAMMAR = Queued"
  by (simp_all add: status_place_def status_is_finished_def less_request_status_def)

lemma status_place_finished [simp]: "status_is_finished st \<Longrightarrow> status_place st = Nowhere"
  by (cases st) (auto simp: status_place_def status_is_finished_def less_request_status_def)

lemma status_place_iff [simp]: "status_place st = Running \<longleftrightarrow> st = RUNNING" "status_place st = Nowhere \<longleftrightarrow> status_is_finished st"
  by (auto simp: status_place_def status_is_finished_def less_request_status_def)

lemma in_place_at:
  assumes "in_place P run qu"
  shows "count run v = of_bool (P v = Running)" "count qu v = of_bool (P v = Queued)"
  using assms by (simp_all add: in_place_def)

lemma in_place_preempt:
  assumes "in_place P (add_mset v run) qu"
  shows "in_place (P(v := Queued)) run (add_mset v qu)"
  unfolding in_place_def
proof (intro allI)
  fix rid
  show "count run rid = of_bool ((P(v := Queued)) rid = Running) \<and> count (add_mset v qu) rid = of_bool ((P(v := Queued)) rid = Queued)"
    using in_place_at [OF assms, of v] in_place_at [OF assms, of rid] by (cases "rid = v"; cases "P v") auto
qed

lemma in_place_admit:
  assumes "in_place P run (add_mset v qu)"
  shows "in_place (P(v := Running)) (add_mset v run) qu"
  unfolding in_place_def
proof (intro allI)
  fix rid
  show "count (add_mset v run) rid = of_bool ((P(v := Running)) rid = Running) \<and> count qu rid = of_bool ((P(v := Running)) rid = Queued)"
    using in_place_at [OF assms, of v] in_place_at [OF assms, of rid] by (cases "rid = v"; cases "P v") auto
qed

lemma in_place_new: "in_place P run qu \<Longrightarrow> P v = Nowhere \<Longrightarrow> in_place (P(v := Queued)) run (add_mset v qu)"
  using in_place_at [of P run qu v] unfolding in_place_def by (simp add: all_conj_distrib)

lemma in_place_gone:
  "in_place P run qu \<Longrightarrow> in_place (P(v := Nowhere)) (filter_mset (\<lambda>x. x \<noteq> v) run) (filter_mset (\<lambda>x. x \<noteq> v) qu)"
  unfolding in_place_def by simp

lemma in_place_D:
  assumes "in_place P run qu"
  shows "v \<in># run \<longleftrightarrow> P v = Running" "v \<in># qu \<longleftrightarrow> P v = Queued"
  using assms by (auto simp: in_place_def count_greater_zero_iff [symmetric] of_bool_def split: if_splits simp del: count_greater_zero_iff)

lemma keyedD: "keyed s \<Longrightarrow> map_of (sd_requests s) rid = Some r \<Longrightarrow> request_id r = rid"
  by (simp add: keyed_def)

lemma get_req_eq [simp]: "get_req rid s = Inr r \<longleftrightarrow> map_of (sd_requests s) rid = Some r"
  by (auto simp: get_req_def split: option.splits)

lemma map_of_put_req [simp]: "map_of (sd_requests (put_req r s)) = (map_of (sd_requests s))(request_id r \<mapsto> r)"
  by (simp add: put_req_def fun_eq_iff update_conv)

lemma put_req_fields [simp]:
  "sd_config (put_req r s) = sd_config s" "sd_kv (put_req r s) = sd_kv s" "sd_encoder (put_req r s) = sd_encoder s"
  "sd_waiting (put_req r s) = sd_waiting s" "sd_skipped (put_req r s) = sd_skipped s"
  "sd_running (put_req r s) = sd_running s" "sd_finished_ids (put_req r s) = sd_finished_ids s"
  "sd_num_streaming (put_req r s) = sd_num_streaming s"
  "sd_prev_ids (put_req r s) = sd_prev_ids s" "sd_pause (put_req r s) = sd_pause s"
  "sd_finished_recving (put_req r s) = sd_finished_recving s" "sd_failed_recving (put_req r s) = sd_failed_recving s"
  by (simp_all add: put_req_def)

lemma place_of_put_req [simp]: "place_of (put_req r s) = (place_of s)(request_id r := status_place (status r))"
  by (auto simp: place_of_def fun_eq_iff)

lemma keyed_put_req [simp]: "keyed s \<Longrightarrow> keyed (put_req r s)"
  by (auto simp: keyed_def put_req_def update_conv distinct_update split: if_splits)

lemma place_of_fields [simp]:
  "place_of (s\<lparr>sd_kv := kv\<rparr>) = place_of s" "place_of (s\<lparr>sd_encoder := c\<rparr>) = place_of s"
  "place_of (s\<lparr>sd_running := rs\<rparr>) = place_of s" "place_of (s\<lparr>sd_waiting := q\<rparr>) = place_of s"
  "place_of (s\<lparr>sd_skipped := q\<rparr>) = place_of s" "place_of (s\<lparr>sd_finished_recving := f\<rparr>) = place_of s"
  "place_of (s\<lparr>sd_failed_recving := f\<rparr>) = place_of s" "place_of (s\<lparr>sd_finished_ids := f\<rparr>) = place_of s"
  "place_of (s\<lparr>sd_prev_ids := f\<rparr>) = place_of s" "place_of (s\<lparr>sd_num_streaming := n\<rparr>) = place_of s"
  "place_of (s\<lparr>sd_pause := p\<rparr>) = place_of s"
  by (simp_all add: place_of_def fun_eq_iff)

lemma keyed_fields [simp]:
  "keyed (s\<lparr>sd_kv := kv\<rparr>) = keyed s" "keyed (s\<lparr>sd_encoder := c\<rparr>) = keyed s"
  "keyed (s\<lparr>sd_running := rs\<rparr>) = keyed s" "keyed (s\<lparr>sd_waiting := q\<rparr>) = keyed s"
  "keyed (s\<lparr>sd_skipped := q\<rparr>) = keyed s" "keyed (s\<lparr>sd_finished_recving := f\<rparr>) = keyed s"
  "keyed (s\<lparr>sd_failed_recving := f\<rparr>) = keyed s" "keyed (s\<lparr>sd_finished_ids := f\<rparr>) = keyed s"
  "keyed (s\<lparr>sd_prev_ids := f\<rparr>) = keyed s" "keyed (s\<lparr>sd_num_streaming := n\<rparr>) = keyed s"
  "keyed (s\<lparr>sd_pause := p\<rparr>) = keyed s"
  by (simp_all add: keyed_def)

lemma queued_fields [simp]:
  "queued (s\<lparr>sd_finished_ids := f\<rparr>) = queued s" "queued (s\<lparr>sd_prev_ids := f\<rparr>) = queued s"
  "queued (s\<lparr>sd_num_streaming := n\<rparr>) = queued s" "queued (s\<lparr>sd_pause := p\<rparr>) = queued s"
  by (simp_all add: queued_def)

lemma place_of_req: "map_of (sd_requests s) rid = Some r \<Longrightarrow> place_of s rid = status_place (status r)"
  by (simp add: place_of_def)

lemma place_of_fun_upd [simp]:
  "map_of (sd_requests s) rid = Some r \<Longrightarrow> (place_of s)(rid := status_place (status r)) = place_of s"
  by (simp add: place_of_def fun_eq_iff)

subsection \<open>Steps that move no request\<close>

definition session :: "scheduler \<Rightarrow> string \<Rightarrow> bool" where
  "session s rid \<longleftrightarrow> (\<exists>r. map_of (sd_requests s) rid = Some r \<and> resumable r)"

lemma session_fields [simp]:
  "session (s\<lparr>sd_kv := kv\<rparr>) = session s" "session (s\<lparr>sd_encoder := c\<rparr>) = session s"
  "session (s\<lparr>sd_running := rs\<rparr>) = session s" "session (s\<lparr>sd_waiting := q\<rparr>) = session s"
  "session (s\<lparr>sd_skipped := q\<rparr>) = session s" "session (s\<lparr>sd_finished_recving := f\<rparr>) = session s"
  "session (s\<lparr>sd_failed_recving := f\<rparr>) = session s" "session (s\<lparr>sd_finished_ids := f\<rparr>) = session s"
  "session (s\<lparr>sd_prev_ids := f\<rparr>) = session s" "session (s\<lparr>sd_pause := p\<rparr>) = session s"
  "session (s\<lparr>sd_num_streaming := n\<rparr>) = session s"
  by (simp_all add: session_def fun_eq_iff)

lemma session_put_req [simp]: "session (put_req r s) = (session s)(request_id r := resumable r)"
  by (auto simp: session_def fun_eq_iff)

lemma session_fun_upd: "map_of (sd_requests s) rid = Some r \<Longrightarrow> (session s)(rid := resumable r) = session s"
  by (simp add: session_def fun_eq_iff)

definition still :: "scheduler \<Rightarrow> scheduler \<Rightarrow> bool" where
  "still s s' \<longleftrightarrow> (keyed s \<longrightarrow> keyed s' \<and> place_of s' = place_of s \<and> session s' = session s) \<and> sd_running s' = sd_running s
     \<and> sd_waiting s' = sd_waiting s \<and> sd_skipped s' = sd_skipped s
     \<and> sd_config s' = sd_config s \<and> sd_prev_ids s' = sd_prev_ids s \<and> sd_pause s' = sd_pause s"

lemma still_refl [simp]: "still s s"
  by (simp add: still_def)

lemma still_trans [trans]: "still s s' \<Longrightarrow> still s' s'' \<Longrightarrow> still s s''"
  by (simp add: still_def)

lemma still_fields [simp]:
  "still s (s'\<lparr>sd_kv := kv\<rparr>) = still s s'" "still s (s'\<lparr>sd_encoder := c\<rparr>) = still s s'"
  "still s (s'\<lparr>sd_finished_recving := f\<rparr>) = still s s'" "still s (s'\<lparr>sd_failed_recving := f\<rparr>) = still s s'"
  "still s (s'\<lparr>sd_finished_ids := f\<rparr>) = still s s'"
  by (simp_all add: still_def)

lemma still_fields' [simp]:
  "still (s\<lparr>sd_kv := kv\<rparr>) s' = still s s'" "still (s\<lparr>sd_encoder := c\<rparr>) s' = still s s'"
  "still (s\<lparr>sd_finished_recving := f\<rparr>) s' = still s s'" "still (s\<lparr>sd_failed_recving := f\<rparr>) s' = still s s'"
  by (simp_all add: still_def)

lemma still_put_req:
  assumes "still s s'" "map_of (sd_requests s') rid = Some r" "request_id r' = request_id r" "status_place (status r') = status_place (status r)"
    "resumable r' = resumable r"
  shows "still s (put_req r' s')"
  using assms keyedD [of s' rid r] place_of_fun_upd [of s' rid r] session_fun_upd [of s' rid r]
  by (auto simp: still_def simp del: place_of_fun_upd)

lemma still_queued: "still s s' \<Longrightarrow> queued s' = queued s"
  by (simp add: still_def queued_def)

lemma still_placed: "still s s' \<Longrightarrow> placed s \<Longrightarrow> placed s'"
  using still_queued [of s s'] by (simp add: still_def placed_def)

lemma try_schedule_still: "try_schedule_encoder_inputs env r n m b sh s = Inr (is, n', b', ex, s') \<Longrightarrow> still s s'"
  by (auto dest: try_schedule_frame)

lemma allocate_encoder_still: "allocate_encoder_inputs r is s = Inr s' \<Longrightarrow> still s s'"
  by (auto dest: allocate_encoder_frame)

lemma drop_encoder_still: "drop_encoder_refs env r s = Inr s' \<Longrightarrow> still s s'"
  by (auto simp: drop_encoder_refs_def ebind_eq_Inr split: if_splits)

lemma update_remote_still:
  assumes "update_waiting_for_remote_kv env rid s = Inr s'"
  shows "still s s'"
  using assms still_put_req [of s s rid]
  by (auto simp: update_waiting_for_remote_kv_def ebind_eq_Inr Let_def split: if_splits intro!: still_put_req)

lemma update_remote_req:
  assumes "update_waiting_for_remote_kv env rid s = Inr s'" "map_of (sd_requests s) rid = Some r"
  shows "\<exists>r'. map_of (sd_requests s') rid = Some r' \<and> status r' = status r"
  using assms by (auto simp: update_waiting_for_remote_kv_def ebind_eq_Inr Let_def split: if_splits)

lemma blocked_place: "is_blocked_waiting_status st \<Longrightarrow> status_place st = Queued"
  by (auto simp: is_blocked_waiting_status_def)

lemma try_promote_still:
  assumes "try_promote_blocked_waiting_request env rid s = Inr (b, s')"
  shows "still s s'"
proof -
  obtain r where r: "map_of (sd_requests s) rid = Some r"
    using assms by (auto simp: try_promote_blocked_waiting_request_def ebind_eq_Inr)
  show ?thesis
  proof (cases "status r = WAITING_FOR_REMOTE_KVS")
    case True
    show ?thesis
    proof (cases "rid \<in> sd_finished_recving s")
      case f: True
      then obtain s1 r1 where s1: "update_waiting_for_remote_kv env rid s = Inr s1" "map_of (sd_requests s1) rid = Some r1"
        "s' = put_req (r1\<lparr>status := (if num_preemptions r1 \<noteq> 0 then PREEMPTED else WAITING)\<rparr>) s1"
        using assms r True by (auto simp: try_promote_blocked_waiting_request_def ebind_eq_Inr)
      have "status r1 = WAITING_FOR_REMOTE_KVS" using update_remote_req [OF s1(1) r] s1(2) True by auto
      then show ?thesis unfolding s1(3) by (intro still_put_req [OF update_remote_still [OF s1(1)] s1(2)]) auto
    qed (use assms r True in \<open>auto simp: try_promote_blocked_waiting_request_def ebind_eq_Inr\<close>)
  next
    case False
    then show ?thesis using assms r
      by (auto simp: try_promote_blocked_waiting_request_def ebind_eq_Inr split: if_splits intro!: still_put_req [OF still_refl r])
  qed
qed

lemma cached_tokens_still:
  assumes "cached_tokens env rid s = Inr (hit, s')"
  shows "still s s'"
  using assms by (auto simp: cached_tokens_def returned intro!: still_put_req)

lemma waiting_inputs_still:
  "waiting_inputs env r a ne n st s = Inr (Inr (inputs, k, b, ex, s')) \<Longrightarrow> still s s'"
  "waiting_inputs env r a ne n st s = Inr (Inl s') \<Longrightarrow> still s s'"
  by (auto simp: waiting_inputs_def returned dest!: try_schedule_still)

lemma waiting_tokens_still:
  "waiting_tokens env rid a nl ne n st s = Inr (Inr (inputs, k, b, ex, s')) \<Longrightarrow> still s s'"
  "waiting_tokens env rid a nl ne n st s = Inr (Inl s') \<Longrightarrow> still s s'"
  by (auto simp: waiting_tokens_def returned dest!: waiting_inputs_still)

lemma waiting_slots_still:
  "waiting_slots env rid is n bs nl ne a s = Inr (Inr s') \<Longrightarrow> still s s'"
  "waiting_slots env rid is n bs nl ne a s = Inr (Inl s') \<Longrightarrow> still s s'"
  by (auto simp: waiting_slots_def returned dest!: drop_encoder_still)

subsection \<open>Preemption\<close>

lemma preempt_request_cases:
  assumes "preempt_request env v s = Inr s'"
  obtains r kv c where "map_of (sd_requests s) v = Some r" "status r = RUNNING"
    "s' = (let s = put_req (r\<lparr>status := PREEMPTED, num_computed_tokens := 0, spec_token_ids := [],
                 num_preemptions := num_preemptions r + 1\<rparr>) (s\<lparr>sd_kv := kv, sd_encoder := c\<rparr>)
       in s\<lparr>sd_waiting := rq_prepend (id_less env s) v (sd_waiting s)\<rparr>)"
  using assms by (auto simp: preempt_request_def ebind_eq_Inr Let_def)

text \<open>A request leaves the running list for the waiting queue.\<close>

lemma preempt_request_moves:
  assumes "preempt_request env v s = Inr s'" "keyed s"
  shows "keyed s'" "place_of s v = Running" "place_of s' = (place_of s)(v := Queued)" "queued s' = add_mset v (queued s)"
    "sd_running s' = sd_running s" "sd_config s' = sd_config s" "sd_skipped s' = sd_skipped s" "sd_pause s' = sd_pause s"
    "rid \<noteq> v \<Longrightarrow> map_of (sd_requests s') rid = map_of (sd_requests s) rid"
    "sd_prev_ids s' = sd_prev_ids s"
proof -
  obtain r kv c where r: "map_of (sd_requests s) v = Some r" "status r = RUNNING"
    and s': "s' = (let s = put_req (r\<lparr>status := PREEMPTED, num_computed_tokens := 0, spec_token_ids := [],
                 num_preemptions := num_preemptions r + 1\<rparr>) (s\<lparr>sd_kv := kv, sd_encoder := c\<rparr>)
       in s\<lparr>sd_waiting := rq_prepend (id_less env s) v (sd_waiting s)\<rparr>)"
    by (rule preempt_request_cases [OF assms(1)])
  have v: "request_id r = v" by (rule keyedD [OF assms(2) r(1)])
  show "keyed s'" "place_of s v = Running" "place_of s' = (place_of s)(v := Queued)" "queued s' = add_mset v (queued s)"
    "sd_running s' = sd_running s" "sd_config s' = sd_config s" "sd_skipped s' = sd_skipped s" "sd_pause s' = sd_pause s"
    "rid \<noteq> v \<Longrightarrow> map_of (sd_requests s') rid = map_of (sd_requests s) rid"
    "sd_prev_ids s' = sd_prev_ids s"
    using v r assms(2) by (simp_all add: s' Let_def place_of_def queued_def)
qed

end
