(* ===== verification/Sched_Budget.thy ===== *)
theory Sched_Budget
  imports Sched_Places
begin

text \<open>
  The loop over the running requests of \<open>Scheduler.schedule\<close>, one turn: what the step has noted agrees with the running
  list (\<open>books\<close>) and with the token budget (\<open>in_budget\<close>), also when a request is preempted that was scheduled before.
\<close>

subsection \<open>The step while the running requests are scheduled\<close>

text \<open>
  What \<open>schedule\<close> has noted so far agrees with the running list: only requests before the index are scheduled,
  each once, and the tokens given and left add up to the budget.
\<close>

definition noted :: "sched_step \<Rightarrow> string list" where
  "noted st = map fst (st_num_tokens st)"

definition books :: "sched_step \<Rightarrow> bool" where
  "books st \<longleftrightarrow> distinct (noted st) \<and> distinct (map fst (st_new_blocks st))
     \<and> set (map fst (st_new_blocks st)) = set (noted st)
     \<and> set (map fst (st_spec_tokens st)) \<subseteq> set (noted st) \<and> set (map fst (st_encoder_inputs st)) \<subseteq> set (noted st)
     \<and> mset (noted st) = mset (st_running_reqs st) + mset (st_new_reqs st) + mset (st_resumed_reqs st)"

definition in_budget :: "int \<Rightarrow> sched_step \<Rightarrow> bool" where
  "in_budget B st \<longleftrightarrow> total_tokens st + st_token_budget st = B \<and> 0 \<le> st_token_budget st
     \<and> (\<forall>n \<in> snd ` set (st_num_tokens st). 0 < n)"

definition running_phase :: "int \<Rightarrow> sched_step \<Rightarrow> scheduler \<Rightarrow> bool" where
  "running_phase i st s \<longleftrightarrow> books st \<and> placed s \<and> 0 \<le> i
     \<and> set (st_running_reqs st) \<subseteq> set (take (nat i) (sd_running s))
     \<and> st_new_reqs st = [] \<and> st_resumed_reqs st = [] \<and> rq_items (st_skipped st) = []
     \<and> (\<forall>x \<in> set (st_preempted st). place_of s x = Queued)"

text \<open>The request whose turn it is.\<close>

definition its_turn :: "string \<Rightarrow> int \<Rightarrow> sched_step \<Rightarrow> scheduler \<Rightarrow> bool" where
  "its_turn rid i st s \<longleftrightarrow> rid \<in> set (take (nat (i + 1)) (sd_running s)) \<and> rid \<notin> set (st_running_reqs st)
     \<and> (policy (sd_config s) = FCFS \<longrightarrow> rid \<notin> set (take (nat i) (sd_running s)))"

lemma set_take_remove1: "set (take n xs) - {v} \<subseteq> set (take n (remove1 v xs))"
proof (induction xs arbitrary: n)
  case (Cons x xs)
  show ?case
  proof (cases n)
    case (Suc m)
    then show ?thesis using Cons.IH [of m] set_take_subset_set_take [of m n xs] by auto
  qed simp
qed simp

lemma set_take_remove1_before:
  "v \<in> set (take n xs) \<Longrightarrow> set (take n xs) - {v} \<subseteq> set (take (n - 1) (remove1 v xs))"
proof (induction xs arbitrary: n)
  case (Cons x xs)
  show ?case
  proof (cases "x = v")
    case False
    with Cons.prems obtain m where m: "n = Suc m" "v \<in> set (take m xs)" by (cases n) auto
    then have "0 < m" by (cases m) auto
    then show ?thesis using Cons.IH [OF m(2)] m False by (cases m) auto
  qed (cases n, auto)
qed simp

lemma set_take_butlast: "set (take n xs) - {last xs} \<subseteq> set (take n (butlast xs))"
proof (cases "n < length xs")
  case True
  then show ?thesis by (simp add: take_butlast)
next
  case False
  then show ?thesis by (cases xs rule: rev_cases) auto
qed

lemma placed_running: "placed s \<Longrightarrow> rid \<in> set (sd_running s) \<longleftrightarrow> place_of s rid = Running"
  using in_place_D(1) [of "place_of s" "mset (sd_running s)" "queued s" rid] by (simp add: placed_def)

lemma placed_queued: "placed s \<Longrightarrow> rid \<in># queued s \<longleftrightarrow> place_of s rid = Queued"
  using in_place_D(2) [of "place_of s" "mset (sd_running s)" "queued s" rid] by (simp add: placed_def)

lemma placed_distinct: "placed s \<Longrightarrow> distinct (sd_running s)"
  using in_place_at(1) [of "place_of s" "mset (sd_running s)" "queued s"]
  by (simp add: distinct_count_atmost_1 placed_running) (simp add: placed_def)

lemma total_delete:
  fixes n :: int
  assumes "distinct (map fst xs)" "map_of xs v = Some n"
  shows "sum_list (map snd (AList.delete v xs)) + n = sum_list (map snd xs)"
  using assms
proof (induction xs)
  case (Cons x xs)
  show ?case
  proof (cases "fst x = v")
    case True
    then have "AList.delete v xs = xs" using Cons.prems by (intro delete_id) auto
    then show ?thesis using True Cons.prems by (cases x) (auto simp: AList.delete_eq)
  next
    case False
    then show ?thesis using Cons by (cases x) (auto simp: AList.delete_eq)
  qed
qed simp

lemma update_new: "v \<notin> fst ` set xs \<Longrightarrow> AList.update v n xs = xs @ [(v, n)]"
  by (induction xs) auto

text \<open>Taking a scheduled request out again.\<close>

lemma undo_scheduled_step:
  assumes u: "undo_scheduled v i st s = Inr (i', st')"
  obtains n k where "map_of (st_num_tokens st) v = Some n" "i' = i - 1" 
    "st' = st\<lparr>st_running_reqs := remove1 v (st_running_reqs st),
               st_token_budget := st_token_budget st + n,
               st_num_tokens := AList.delete v (st_num_tokens st),
               st_new_blocks := AList.delete v (st_new_blocks st),
               st_spec_tokens := AList.delete v (st_spec_tokens st),
               st_encoder_inputs := AList.delete v (st_encoder_inputs st),
               st_encoder_budget := st_encoder_budget st + k\<rparr>"
proof -
  from u obtain n b r k where n: "dict_get v (st_num_tokens st) = Inr n" "dict_get v (st_new_blocks st) = Inr b" "get_req v s = Inr r"
    "(case map_of (st_encoder_inputs st) v of None \<Rightarrow> Inr 0 | Some inputs \<Rightarrow> sum_encoder_embeds r inputs) = Inr k"
    unfolding undo_scheduled_def ebind_eq_Inr by blast
  have m: "map_of (st_num_tokens st) v = Some n" using n(1) by (auto simp: dict_get_def split: option.splits)
  from u n show ?thesis by (intro that [OF m, of k]) (simp_all add: undo_scheduled_def)
qed

lemma undo_scheduled_books:
  assumes u: "undo_scheduled v i st s = Inr (i', st')" and b: "books st" and v: "v \<in> set (st_running_reqs st)"
  shows "books st'" "i' = i - 1" "st_running_reqs st' = remove1 v (st_running_reqs st)"
    "st_new_reqs st' = st_new_reqs st" "st_resumed_reqs st' = st_resumed_reqs st" "st_skipped st' = st_skipped st"
    "st_preempted st' = st_preempted st" "st_loras st' = st_loras st"
proof -
  obtain n k where n: "map_of (st_num_tokens st) v = Some n" and i: "i' = i - 1"
    and st': "st' = st\<lparr>st_running_reqs := remove1 v (st_running_reqs st),
               st_token_budget := st_token_budget st + n,
               st_num_tokens := AList.delete v (st_num_tokens st),
               st_new_blocks := AList.delete v (st_new_blocks st),
               st_spec_tokens := AList.delete v (st_spec_tokens st),
               st_encoder_inputs := AList.delete v (st_encoder_inputs st),
               st_encoder_budget := st_encoder_budget st + k\<rparr>"
    by (rule undo_scheduled_step [OF u])
  have d: "noted st' = remove1 v (noted st)"
    using b by (simp add: noted_def st' delete_keys books_def distinct_remove1_removeAll removeAll_filter_not_eq)
  show "books st'"
    using b v d unfolding books_def by (auto simp: st' delete_keys distinct_removeAll)
  show "i' = i - 1" "st_running_reqs st' = remove1 v (st_running_reqs st)"
    "st_new_reqs st' = st_new_reqs st" "st_resumed_reqs st' = st_resumed_reqs st" "st_skipped st' = st_skipped st"
    "st_preempted st' = st_preempted st" "st_loras st' = st_loras st" using i st' by simp_all
qed

lemma undo_scheduled_budget:
  assumes u: "undo_scheduled v i st s = Inr (i', st')" and b: "in_budget B st" "distinct (noted st)"
  shows "in_budget B st' \<and> st_token_budget st \<le> st_token_budget st'"
proof -
  obtain n k where n: "map_of (st_num_tokens st) v = Some n" and st': "st_num_tokens st' = AList.delete v (st_num_tokens st)"
      "st_token_budget st' = st_token_budget st + n"
    by (rule undo_scheduled_step [OF u]) simp
  have "0 < n" using n b by (auto simp: in_budget_def dest!: map_of_SomeD)
  then show ?thesis using b st' total_delete [OF _ n]
    by (auto simp: in_budget_def total_tokens_def noted_def AList.delete_eq)
qed

lemma last_not_before:
  assumes "rid \<in> set (take (nat (i + 1)) (rs @ [v]))" "rid \<notin> set (take (nat i) (rs @ [v]))" "0 \<le> i"
  shows "nat i \<le> length rs"
  using assms by (cases "nat i \<le> length rs") (auto simp: nat_add_distrib)

lemma not_priority: "p \<noteq> PRIORITY \<Longrightarrow> p = FCFS"
  by (cases p) auto

lemma victim_prefix:
  assumes "rs = remove1 v xs \<or> xs = rs @ [v]"
  shows "set (take n xs) - {v} \<subseteq> set (take n rs)"
  using assms set_take_remove1 [of n xs v] set_take_butlast [of n xs] by auto

text \<open>What is left of the indices when a victim leaves the list.\<close>

lemma victim_index:
  fixes i :: int
  assumes rs: "if p then rs = remove1 v xs else xs = rs @ [v]" and dist: "distinct xs" and i: "0 \<le> i"
    and sub: "set ys \<subseteq> set (take (nat i) xs)" and np: "\<not> p \<longrightarrow> v \<notin> set ys"
  defines "j \<equiv> (if v \<in> set ys then i - 1 else i)"
  shows "0 \<le> j" "set ys - {v} \<subseteq> set (take (nat j) rs)" "set (take (nat (i + 1)) xs) - {v} \<subseteq> set (take (nat (j + 1)) rs)"
proof -
  have i1: "0 < i" if "v \<in> set ys" using that sub i by (cases "i = 0") auto
  then show "0 \<le> j" using i by (auto simp: j_def)
  have "rs = remove1 v xs \<or> xs = rs @ [v]" using rs by (auto split: if_splits)
  note vp = victim_prefix [OF this]
  have "set ys - {v} \<subseteq> set (take (nat j) rs) \<and> set (take (nat (i + 1)) xs) - {v} \<subseteq> set (take (nat (j + 1)) rs)"
  proof (cases "v \<in> set ys")
    case True
    with np have p by blast
    with rs have rm: "rs = remove1 v xs" by simp
    have v: "v \<in> set (take (nat i) xs)" "v \<in> set (take (nat (i + 1)) xs)"
      using True sub set_take_subset_set_take [of "nat i" "nat (i + 1)" xs] by (auto simp: nat_mono)
    have n: "nat j = nat i - 1" "nat (j + 1) = nat (i + 1) - 1" using True i1 [OF True] by (simp_all add: j_def)
    show ?thesis
      using set_take_remove1_before [OF v(1)] set_take_remove1_before [OF v(2)] sub unfolding n rm by auto
  next
    case False
    then show ?thesis
      using vp [of "nat i"] vp [of "nat (i + 1)"] sub by (auto simp: j_def)
  qed
  then show "set ys - {v} \<subseteq> set (take (nat j) rs)" "set (take (nat (i + 1)) xs) - {v} \<subseteq> set (take (nat (j + 1)) rs)" by simp_all
qed

lemma books_scheduled:
  assumes "books st"
  shows "distinct (st_running_reqs st @ st_new_reqs st @ st_resumed_reqs st)"
    "set (noted st) = set (st_running_reqs st @ st_new_reqs st @ st_resumed_reqs st)"
proof -
  have m: "mset (noted st) = mset (st_running_reqs st @ st_new_reqs st @ st_resumed_reqs st)" and d: "distinct (noted st)"
    using assms by (simp_all add: books_def)
  show "distinct (st_running_reqs st @ st_new_reqs st @ st_resumed_reqs st)" using mset_eq_imp_distinct_iff [OF m] d by blast
  show "set (noted st) = set (st_running_reqs st @ st_new_reqs st @ st_resumed_reqs st)" using mset_eq_setD [OF m] by simp
qed

text \<open>The victim leaves what the step has noted.\<close>

lemma take_victim_books:
  assumes t: "take_victim i st s = Inr (v, j, st1, s1)" and b: "books st" and np: "policy (sd_config s) \<noteq> PRIORITY \<longrightarrow> v \<notin> set (st_running_reqs st)"
  shows "books st1" "st_new_reqs st1 = st_new_reqs st" "st_resumed_reqs st1 = st_resumed_reqs st" "st_skipped st1 = st_skipped st"
    "st_preempted st1 = st_preempted st" "j = (if v \<in> set (st_running_reqs st) then i - 1 else i)"
    "st_running_reqs st1 = remove1 v (st_running_reqs st)" "in_budget B st \<Longrightarrow> in_budget B st1 \<and> st_token_budget st \<le> st_token_budget st1"
proof -
  have u: "if policy (sd_config s) = PRIORITY \<and> v \<in> set (st_running_reqs st)
     then undo_scheduled v i st s1 = Inr (j, st1) else j = i \<and> st1 = st"
    by (rule take_victim_cases [OF t])
  show "books st1" "st_new_reqs st1 = st_new_reqs st" "st_resumed_reqs st1 = st_resumed_reqs st" "st_skipped st1 = st_skipped st"
    "st_preempted st1 = st_preempted st" "j = (if v \<in> set (st_running_reqs st) then i - 1 else i)"
    "st_running_reqs st1 = remove1 v (st_running_reqs st)"
    using u np undo_scheduled_books [of v i st s1 j st1] b
    by (cases "v \<in> set (st_running_reqs st)"; simp add: remove1_idem split: if_splits)+
  have "distinct (noted st)" using b by (simp add: books_def)
  then show "in_budget B st1 \<and> st_token_budget st \<le> st_token_budget st1" if "in_budget B st"
    using u that undo_scheduled_budget [of v i st s1 j st1 B] by (auto split: if_splits)
qed

text \<open>One preemption: the victim leaves the running list for the waiting queue.\<close>

lemma preempt_step:
  assumes t: "take_victim i st s = Inr (v, j, st1, s1)" and p: "preempt_request env v s1 = Inr s2"
    and ph: "running_phase i st s" and turn: "its_turn rid i st s"
  defines "st2 \<equiv> st1\<lparr>st_preempted := st_preempted st1 @ [v]\<rparr>"
  shows "running_phase j st2 s2" "v \<noteq> rid \<Longrightarrow> its_turn rid j st2 s2"
    "in_budget B st \<Longrightarrow> in_budget B st2 \<and> st_token_budget st \<le> st_token_budget st2"
    "sd_config s2 = sd_config s" "sd_prev_ids s2 = sd_prev_ids s" "sd_pause s2 = sd_pause s"
    "x \<noteq> v \<Longrightarrow> map_of (sd_requests s2) x = map_of (sd_requests s) x" "place_of s v = Running"
proof -
  obtain rs where s1: "s1 = s\<lparr>sd_running := rs\<rparr>" and ms: "mset (sd_running s) = add_mset v (mset rs)"
    and pol: "if policy (sd_config s) = PRIORITY then rs = remove1 v (sd_running s) else sd_running s = rs @ [v]"
    using take_victim_cases [OF t] by metis
  have pl: "placed s" and k: "keyed s" and i: "0 \<le> i" and sub: "set (st_running_reqs st) \<subseteq> set (take (nat i) (sd_running s))"
    and b: "books st" using ph by (auto simp: running_phase_def placed_def)
  note m = preempt_request_moves [OF p, unfolded s1, simplified, OF k]
  have dist: "distinct (sd_running s)" by (rule placed_distinct [OF pl])
  have np: "policy (sd_config s) \<noteq> PRIORITY \<longrightarrow> v \<notin> set (st_running_reqs st)"
  proof
    assume np: "policy (sd_config s) \<noteq> PRIORITY"
    have f: "policy (sd_config s) = FCFS" by (rule not_priority [OF np])
    have r: "sd_running s = rs @ [v]" using pol np by simp
    have "nat i \<le> length rs" using f r last_not_before [of rid i rs v] turn i by (simp add: its_turn_def)
    then show "v \<notin> set (st_running_reqs st)" using sub r dist by (auto dest: in_set_takeD)
  qed
  note b1 = take_victim_books [OF t b np, folded st2_def]
  have d: "distinct (st_running_reqs st)"
    using books_scheduled(1) [OF b] by simp
  note ix = victim_index [OF pol dist i sub np, folded b1(6)]
  have reqs: "set (st_running_reqs st1) = set (st_running_reqs st) - {v}" using b1(7) d by simp
  have "placed s2"
    using pl in_place_preempt [of "place_of s" v "mset rs" "queued s"] ms m by (simp add: placed_def)
  then show "running_phase j st2 s2"
    using ph ix(1,2) b1 m(3,5) reqs by (auto simp: running_phase_def st2_def books_def noted_def)
  have "policy (sd_config s) = FCFS \<longrightarrow> rid \<notin> set (take (nat j) rs)"
    using turn pol np b1(6) by (auto simp: its_turn_def)
  then show "its_turn rid j st2 s2" if "v \<noteq> rid"
    using turn that ix(3) m(5,6) reqs by (auto simp: its_turn_def st2_def)
  show "in_budget B st2 \<and> st_token_budget st \<le> st_token_budget st2" if "in_budget B st" using b1(8) [OF that] by (simp add: in_budget_def total_tokens_def st2_def)
  show "sd_config s2 = sd_config s" "sd_prev_ids s2 = sd_prev_ids s" "sd_pause s2 = sd_pause s"
    "x \<noteq> v \<Longrightarrow> map_of (sd_requests s2) x = map_of (sd_requests s) x" "place_of s v = Running"
    using m preempt_request_moves(9) [OF p, of x] s1 k by simp_all
qed

text \<open>The running requests are those that ran before, at most their drafts are gone.\<close>

definition runs_from :: "scheduler \<Rightarrow> scheduler \<Rightarrow> bool" where
  "runs_from s s' \<longleftrightarrow> (\<forall>x r. map_of (sd_requests s') x = Some r \<and> status r = RUNNING \<longrightarrow>
     (\<exists>r0. map_of (sd_requests s) x = Some r0 \<and> status r0 = RUNNING \<and> (r = r0 \<or> r = r0\<lparr>spec_token_ids := []\<rparr>)))"

lemma runs_from_refl [simp]: "runs_from s s"
  by (simp add: runs_from_def)

lemma runs_from_trans:
  assumes "runs_from s s1" "runs_from s1 s2"
  shows "runs_from s s2"
  unfolding runs_from_def
proof (intro allI impI)
  fix x r assume "map_of (sd_requests s2) x = Some r \<and> status r = RUNNING"
  with assms(2) obtain r1 where r1: "map_of (sd_requests s1) x = Some r1" "status r1 = RUNNING" "r = r1 \<or> r = r1\<lparr>spec_token_ids := []\<rparr>"
    unfolding runs_from_def by blast
  with assms(1) obtain r0 where "map_of (sd_requests s) x = Some r0" "status r0 = RUNNING" "r1 = r0 \<or> r1 = r0\<lparr>spec_token_ids := []\<rparr>"
    unfolding runs_from_def by blast
  moreover from this(3) r1(3) have "r = r0 \<or> r = r0\<lparr>spec_token_ids := []\<rparr>" by (elim disjE) simp_all
  ultimately show "\<exists>r0. map_of (sd_requests s) x = Some r0 \<and> status r0 = RUNNING \<and> (r = r0 \<or> r = r0\<lparr>spec_token_ids := []\<rparr>)"
    by blast
qed

lemma runs_from_same: "sd_requests s' = sd_requests s \<Longrightarrow> runs_from s s'"
  by (simp add: runs_from_def)

lemma runs_from_encoder: "s' = s\<lparr>sd_encoder := c\<rparr> \<Longrightarrow> runs_from s s'"
  by (simp add: runs_from_def)

lemma preempt_runs_from:
  assumes t: "take_victim i st s = Inr (v, j, st1, s1)" and p: "preempt_request env v s1 = Inr s2" and k: "keyed s"
  shows "runs_from s s2"
proof -
  obtain rs where s1: "s1 = s\<lparr>sd_running := rs\<rparr>" using take_victim_cases [OF t] by metis
  note m = preempt_request_moves [OF p, unfolded s1, simplified, OF k]
  show ?thesis unfolding runs_from_def
  proof (intro allI impI, elim conjE)
    fix x r assume x: "map_of (sd_requests s2) x = Some r" "status r = RUNNING"
    then have "place_of s2 x = Running" by (simp add: place_of_def)
    then have "x \<noteq> v" using m(3) by auto
    then show "\<exists>r0. map_of (sd_requests s) x = Some r0 \<and> status r0 = RUNNING \<and> (r = r0 \<or> r = r0\<lparr>spec_token_ids := []\<rparr>)"
      using m(9) [OF \<open>x \<noteq> v\<close>] x by (intro exI [of _ r]) simp
  qed
qed

text \<open>The inner loop: either the request has its slots, or it was preempted itself.\<close>

lemma allocate_or_preempt_phase:
  assumes "allocate_or_preempt env rid n i st s = Inr (bs, j, st', s')" "running_phase i st s" "its_turn rid i st s"
  shows "running_phase j st' s' \<and> (bs \<noteq> None \<longrightarrow> its_turn rid j st' s' \<and> map_of (sd_requests s') rid = map_of (sd_requests s) rid)
    \<and> (in_budget B st \<longrightarrow> in_budget B st' \<and> st_token_budget st \<le> st_token_budget st') \<and> sd_config s' = sd_config s \<and> sd_prev_ids s' = sd_prev_ids s
    \<and> sd_pause s' = sd_pause s \<and> runs_from s s' \<and> (bs = None \<longrightarrow> st_preempted st' \<noteq> [])"
  using assms
proof (induction "length (sd_running s)" arbitrary: i st s rule: less_induct)
  case less
  from less.prems(1) obtain r nb kv where r: "get_req rid s = Inr r"
    and a: "allocate_slots (se_pool env) r n 0 None (num_lookahead_tokens (sd_config s)) 0 False 0 (sd_kv s) = Inr (nb, kv)"
    by (subst (asm) allocate_or_preempt.simps) (auto simp: ebind_eq_Inr)
  have ph: "running_phase i st (s\<lparr>sd_kv := kv\<rparr>)" and tu: "its_turn rid i st (s\<lparr>sd_kv := kv\<rparr>)"
    using less.prems(2,3) by (simp_all add: running_phase_def its_turn_def placed_def)
  show ?case
  proof (cases "nb = None")
    case False
    then have "bs = nb" "j = i" "st' = st" "s' = s\<lparr>sd_kv := kv\<rparr>"
      using less.prems(1) a r by (subst (asm) allocate_or_preempt.simps; auto)+
    then show ?thesis using ph tu False by (auto simp: runs_from_def)
  next
    case True
    with less.prems(1) a r obtain v k st1 s1 s2 where
      v: "take_victim i st (s\<lparr>sd_kv := kv\<rparr>) = Inr (v, k, st1, s1)" "preempt_request env v s1 = Inr s2"
      and rest: "if v = rid then (bs, j, st', s') = (None, k, st1\<lparr>st_preempted := st_preempted st1 @ [v]\<rparr>, s2)
        else allocate_or_preempt env rid n k (st1\<lparr>st_preempted := st_preempted st1 @ [v]\<rparr>) s2 = Inr (bs, j, st', s')"
      by (subst (asm) allocate_or_preempt.simps) (auto simp: ebind_eq_Inr Let_def split: if_splits)
    note p = preempt_step [OF v ph tu]
    have rf: "runs_from s s2"
      using preempt_runs_from [OF v] less.prems(2) runs_from_same [of "s\<lparr>sd_kv := kv\<rparr>" s] runs_from_trans [of s "s\<lparr>sd_kv := kv\<rparr>" s2]
      by (auto simp: running_phase_def placed_def)
    have len: "length (sd_running s2) < length (sd_running s)"
      using take_victim_running(1) [OF v(1)] preempt_request_running [OF v(2)] by simp
    show ?thesis
    proof (cases "v = rid")
      case True
      then show ?thesis using rest p(1,3,4,5,6) rf by simp
    next
      case False
      with rest p(2) have "allocate_or_preempt env rid n k (st1\<lparr>st_preempted := st_preempted st1 @ [v]\<rparr>) s2 = Inr (bs, j, st', s')"
        "its_turn rid k (st1\<lparr>st_preempted := st_preempted st1 @ [v]\<rparr>) s2" by auto
      from less.hyps [OF len this(1) p(1) this(2)] show ?thesis
        using p(3) [of B] p(4,5,6) p(7) [of rid] False rf runs_from_trans [OF rf] by auto
    qed
  qed
qed

text \<open>The request is noted.\<close>

lemma schedule_running_req_phase:
  assumes a: "schedule_running_req rid b n is nb ex st s = Inr (st', s')" and ph: "running_phase i st s" and tu: "its_turn rid i st s"
  shows "running_phase (i + 1) st' s'" "still s s'" "runs_from s s'"
    "in_budget B st \<Longrightarrow> 0 < n \<Longrightarrow> n \<le> st_token_budget st \<Longrightarrow> in_budget B st'"
proof -
  from a obtain r where r: "map_of (sd_requests s) rid = Some r"
    by (auto simp: schedule_running_req_def ebind_eq_Inr)
  have s': "allocate_encoder_inputs (r\<lparr>spec_token_ids := []\<rparr>) (is @ ex) (put_req (r\<lparr>spec_token_ids := []\<rparr>) s) = Inr s'"
    using a r by (auto simp: schedule_running_req_def ebind_eq_Inr Let_def get_req_def)
  have st': "st_running_reqs st' = st_running_reqs st @ [rid]" "st_new_blocks st' = AList.update rid b (st_new_blocks st)"
      "st_num_tokens st' = AList.update rid n (st_num_tokens st)" "st_token_budget st' = st_token_budget st - n"
      "st_new_reqs st' = st_new_reqs st" "st_resumed_reqs st' = st_resumed_reqs st" "st_skipped st' = st_skipped st"
      "st_preempted st' = st_preempted st"
    using a r by (auto simp: schedule_running_req_def ebind_eq_Inr Let_def get_req_def)
  have sub: "fst ` set (st_spec_tokens st') \<subseteq> insert rid (fst ` set (st_spec_tokens st))"
      "fst ` set (st_encoder_inputs st') \<subseteq> insert rid (fst ` set (st_encoder_inputs st))"
    using a r by (simp_all add: schedule_running_req_def ebind_eq_Inr Let_def get_req_def split: if_splits)
      ((elim conjE, hypsubst, simp add: dom_update subset_insertI)+)
  have "still s (put_req (r\<lparr>spec_token_ids := []\<rparr>) s)" by (rule still_put_req [OF still_refl r]) simp_all
  then show st: "still s s'" using allocate_encoder_still [OF s'] by (rule still_trans)
  have "keyed s" using ph by (simp add: running_phase_def placed_def)
  then have "runs_from s (put_req (r\<lparr>spec_token_ids := []\<rparr>) s)" using r by (auto simp: runs_from_def keyedD)
  then show "runs_from s s'" using allocate_encoder_frame [OF s'] runs_from_encoder runs_from_trans by blast
  have pl: "placed s'" using still_placed [OF st] ph by (simp add: running_phase_def)
  have run: "sd_running s' = sd_running s" "place_of s' = place_of s" using st ph by (simp_all add: still_def running_phase_def placed_def)
  have b: "books st" and n: "st_new_reqs st = []" "st_resumed_reqs st = []" and i: "0 \<le> i" using ph by (simp_all add: running_phase_def)
  have new: "rid \<notin> fst ` set (st_num_tokens st)" "rid \<notin> fst ` set (st_new_blocks st)"
    using books_scheduled(2) [OF b] b n tu by (auto simp: its_turn_def noted_def books_def)
  have "fst ` set (st_spec_tokens st) \<subseteq> set (noted st)" "fst ` set (st_encoder_inputs st) \<subseteq> set (noted st)"
    using b by (simp_all add: books_def)
  with sub have "fst ` set (st_spec_tokens st') \<subseteq> insert rid (set (noted st))"
    "fst ` set (st_encoder_inputs st') \<subseteq> insert rid (set (noted st))" by (meson insert_mono order_trans)+
  then have b': "books st'" using b new n st' by (simp add: books_def noted_def update_new)
  have "set (st_running_reqs st') \<subseteq> set (take (nat (i + 1)) (sd_running s'))"
    using ph tu run(1) st'(1) set_take_subset_set_take [of "nat i" "nat (i + 1)" "sd_running s"] i
    by (auto simp: running_phase_def its_turn_def nat_mono)
  then show "running_phase (i + 1) st' s'" using ph b' pl run st' by (simp add: running_phase_def)
  show "in_budget B st'" if "in_budget B st" "0 < n" "n \<le> st_token_budget st"
    using that new st'(3,4) by (simp add: in_budget_def total_tokens_def update_new)
qed

lemma py_index_nth: "py_index xs i = Inr x \<Longrightarrow> 0 \<le> i \<Longrightarrow> nat i < length xs \<and> x = xs ! nat i"
  by (auto simp: py_index_def split: if_splits)

lemma turn_starts:
  assumes "py_index (sd_running s) i = Inr rid" "running_phase i st s"
  shows "its_turn rid i st s"
proof -
  have i: "0 \<le> i" and d: "distinct (sd_running s)" and sub: "set (st_running_reqs st) \<subseteq> set (take (nat i) (sd_running s))"
    using assms(2) placed_distinct by (auto simp: running_phase_def)
  have n: "nat i < length (sd_running s)" "rid = sd_running s ! nat i" using py_index_nth [OF assms(1) i] by simp_all
  then have "rid \<notin> set (take (nat i) (sd_running s))" using d by (metis distinct_take id_take_nth_drop not_distinct_conv_prefix append_Cons)
  then show ?thesis using n i sub by (auto simp: its_turn_def nat_add_distrib take_Suc_conv_app_nth)
qed

lemma running_phase_next: "running_phase i st s \<Longrightarrow> running_phase (i + 1) st s"
  using set_take_subset_set_take [of "nat i" "nat (i + 1)" "sd_running s"] by (auto simp: running_phase_def nat_mono)

lemma running_phase_still: "running_phase i st s \<Longrightarrow> still s s' \<Longrightarrow> running_phase i st s'"
  using still_placed [of s s'] by (simp add: running_phase_def still_def placed_def)

end
