(* ===== verification/Sched_Turns.thy ===== *)
theory Sched_Turns
  imports Sched_Budget
begin

text \<open>
  The loop over the running requests, all turns: how many tokens a request gets, and that every turn schedules a request,
  passes one over or preempts one, so that the fuel \<open>length running - req_index + 1\<close> is enough.
\<close>

subsection \<open>The number of tokens\<close>

text \<open>Encoder inputs and block alignment only lower the number of tokens, and not below zero.\<close>

lemma encoder_turn_tokens:
  assumes "encoder_turn env cfg r n sh i e = Inr (go_on, e')" "0 \<le> es_num_new e"
  shows "0 \<le> es_num_new e' \<and> es_num_new e' \<le> es_num_new e"
  using assms unfolding encoder_turn_def Let_def
  by (auto simp: returned)

lemma encoder_loop_tokens:
  "encoder_loop env cfg r n sh is e = Inr e' \<Longrightarrow> 0 \<le> es_num_new e \<Longrightarrow> 0 \<le> es_num_new e' \<and> es_num_new e' \<le> es_num_new e"
proof (induction "is" arbitrary: e)
  case (Cons i "is")
  from Cons.prems(1) obtain g e1 where t: "encoder_turn env cfg r n sh i e = Inr (g, e1)"
    and rest: "(if g then encoder_loop env cfg r n sh is e1 else Inr e1) = Inr e'" by (auto simp: ebind_eq_Inr)
  from encoder_turn_tokens [OF t Cons.prems(2)] Cons.IH [of e1] rest show ?case by (auto split: if_splits)
qed simp

lemma try_schedule_tokens:
  assumes "try_schedule_encoder_inputs env r n k b sh s = Inr (is, k', b', ex, s')" "0 \<le> k"
  shows "0 \<le> k'" "k' \<le> k"
  using assms encoder_loop_tokens by (fastforce simp: try_schedule_encoder_inputs_def ebind_eq_Inr split: if_splits)+

lemma mamba_split_tokens:
  assumes "mamba_block_aligned_split cfg r k nl ne = Inr k'" "0 \<le> k" "0 < cache_block_size cfg"
  shows "0 \<le> k'" "k' \<le> k"
proof -
  have "k div cache_block_size cfg * cache_block_size cfg \<le> k" "0 \<le> k div cache_block_size cfg * cache_block_size cfg"
    using assms(2,3) by (simp_all add: pos_imp_zdiv_nonneg_iff minus_mod_eq_div_mult [symmetric] zmod_le_nonneg_dividend)
  then show "0 \<le> k'" "k' \<le> k"
    using assms by (auto simp: mamba_block_aligned_split_def returned)
qed

text \<open>A running request has not computed more than its tokens and stays below the model length.\<close>

definition paced :: "sched_config \<Rightarrow> request \<Rightarrow> bool" where
  "paced cfg r \<longleftrightarrow> 0 \<le> num_computed_tokens r \<and> num_computed_tokens r \<le> num_tokens r + num_output_placeholders r
     \<and> num_computed_tokens r \<le> max_model_len cfg - 1"

lemma running_num_new_bounds:
  assumes "paced cfg r" "0 \<le> b"
  shows "0 \<le> running_num_new cfg r b" "running_num_new cfg r b \<le> b"
  using assms by (auto simp: running_num_new_def paced_def num_tokens_with_spec_def num_tokens_def Let_def)

definition all_paced :: "scheduler \<Rightarrow> bool" where
  "all_paced s \<longleftrightarrow> (\<forall>x r. map_of (sd_requests s) x = Some r \<and> status r = RUNNING \<longrightarrow> paced (sd_config s) r)"

lemma runs_from_paced:
  assumes "runs_from s s'" "all_paced s" "sd_config s' = sd_config s"
  shows "all_paced s'"
  unfolding all_paced_def
proof (intro allI impI)
  fix x r assume "map_of (sd_requests s') x = Some r \<and> status r = RUNNING"
  with assms(1) obtain r0 where "map_of (sd_requests s) x = Some r0" "status r0 = RUNNING" "r = r0 \<or> r = r0\<lparr>spec_token_ids := []\<rparr>"
    unfolding runs_from_def by blast
  then show "paced (sd_config s') r" using assms(2,3) by (auto simp: all_paced_def paced_def num_tokens_def)
qed

text \<open>How many tokens the request at the index is to get.\<close>

lemma asked_tokens:
  assumes e: "(if has_encoder_inputs r then try_schedule_encoder_inputs env r c (running_num_new cfg r b) eb sh s
        else Inr ([], running_num_new cfg r b, eb, [], s)) = Inr (inputs, n, b', ex, s1)"
    and k: "(if need_mamba_block_aligned_split cfg then mamba_block_aligned_split cfg r n 0 0 else Inr n) = Inr k"
    and p: "paced cfg r" "0 \<le> b" "need_mamba_block_aligned_split cfg \<longrightarrow> 0 < cache_block_size cfg"
  shows "0 \<le> k" "k \<le> b"
proof -
  note rn = running_num_new_bounds [OF p(1,2)]
  have n: "0 \<le> n" "n \<le> b"
    using e rn try_schedule_tokens [of env r c "running_num_new cfg r b" eb sh s inputs n b' ex s1] by (auto split: if_splits)
  then show "0 \<le> k" "k \<le> b" using k p(3) mamba_split_tokens [of cfg r n 0 0 k] by (auto split: if_splits)
qed

subsection \<open>The loop over the running requests\<close>

definition well_configured :: "sched_config \<Rightarrow> bool" where
  "well_configured cfg \<longleftrightarrow> (need_mamba_block_aligned_split cfg \<longrightarrow> 0 < cache_block_size cfg)"

lemma running_turn_phase:
  assumes t: "running_turn env i st s = Inr (go_on, j, st', s')" and ph: "running_phase i st s"
  shows "running_phase j st' s' \<and> sd_config s' = sd_config s \<and> sd_prev_ids s' = sd_prev_ids s \<and> sd_pause s' = sd_pause s
    \<and> runs_from s s' \<and> (go_on \<or> st_preempted st' \<noteq> [])
    \<and> (well_configured (sd_config s) \<and> all_paced s \<and> in_budget B st \<longrightarrow> in_budget B st')"
  using t
proof (cases rule: running_turn_cases)
  case (last rid r)
  then show ?thesis using ph running_phase_next by auto
next
  case (asked rid r inputs n b ex s1 k)
  have s1: "\<exists>c. s1 = s\<lparr>sd_encoder := c\<rparr>" using asked(3) try_schedule_frame
    by (auto split: if_splits intro: exI [of _ "sd_encoder s"])
  then obtain c where s1: "s1 = s\<lparr>sd_encoder := c\<rparr>" ..
  have cfg: "sd_config s1 = sd_config s" using s1 by simp
  have ph1: "running_phase i st s1" using running_phase_still [OF ph] s1 by simp
  have rf: "runs_from s s1" using s1 runs_from_encoder by blast
  have tu: "its_turn rid i st s1" using turn_starts [OF asked(1) ph] s1 by (simp add: its_turn_def)
  have rn: "status r = RUNNING"
    using asked(2) tu ph1 placed_running [of s1 rid] s1
    by (auto simp: its_turn_def running_phase_def place_of_def dest: in_set_takeD)
  have kb: "0 \<le> k \<and> k \<le> st_token_budget st" if "well_configured (sd_config s)" "all_paced s" "in_budget B st"
    using asked_tokens [OF asked(3,4) [unfolded cfg]] that asked(2) rn
    by (simp add: all_paced_def well_configured_def in_budget_def)
  show ?thesis
  proof (cases "k = 0")
    case True
    then show ?thesis using asked(5) ph1 running_phase_next rf s1 by auto
  next
    case False
    then obtain bs j2 st2 s2 where a: "allocate_or_preempt env rid k i st s1 = Inr (bs, j2, st2, s2)"
      and rest: "case bs of None \<Rightarrow> \<not> go_on \<and> j = j2 \<and> st' = st2 \<and> s' = s2
            | Some bl \<Rightarrow> go_on \<and> j = j2 + 1 \<and> schedule_running_req rid bl k inputs b ex st2 s2 = Inr (st', s')"
      using asked(5) by auto
    note al = allocate_or_preempt_phase [OF a ph1 tu, of B]
    have rf2: "runs_from s s2" using al runs_from_trans [OF rf] by simp
    show ?thesis
    proof (cases bs)
      case None
      then show ?thesis using rest al rf2 s1 by simp
    next
      case (Some bl)
      with rest have sc: "schedule_running_req rid bl k inputs b ex st2 s2 = Inr (st', s')" and j: "j = j2 + 1" "go_on" by auto
      have tu2: "its_turn rid j2 st2 s2" and ph2: "running_phase j2 st2 s2" using al Some by auto
      note sr = schedule_running_req_phase [OF sc ph2 tu2]
      have "in_budget B st'" if bu: "well_configured (sd_config s)" "all_paced s" "in_budget B st"
      proof (rule sr(4))
        show "in_budget B st2" "0 < k" "k \<le> st_token_budget st2" using kb [OF bu] al bu(3) False by auto
      qed
      then show ?thesis
        using sr(1,2) al j rf2 runs_from_trans [OF rf2 sr(3)] s1 by (auto simp: still_def)
    qed
  qed
qed

lemma running_loop_phase:
  assumes "running_loop env i st s = Inr (st', s')" "running_phase i st s"
  shows "\<exists>j. running_phase j st' s' \<and> sd_config s' = sd_config s \<and> sd_prev_ids s' = sd_prev_ids s \<and> sd_pause s' = sd_pause s
    \<and> runs_from s s' \<and> (well_configured (sd_config s) \<and> all_paced s \<and> in_budget B st \<longrightarrow> in_budget B st')"
  using assms
proof (induction "nat (int (length (sd_running s)) - i)" arbitrary: i st s rule: less_induct)
  case less
  show ?case
  proof (cases "i < int (length (sd_running s)) \<and> st_token_budget st > 0")
    case False
    then have "st' = st" "s' = s" using less.prems(1) by (subst (asm) running_loop.simps; auto)+
    then show ?thesis using less.prems(2) by auto
  next
    case True
    with less.prems(1) obtain g j st1 s1 where t: "running_turn env i st s = Inr (g, j, st1, s1)"
      and rest: "(if g then running_loop env j st1 s1 else Inr (st1, s1)) = Inr (st', s')"
      by (subst (asm) running_loop.simps) (auto simp: ebind_eq_Inr)
    note ph = running_turn_phase [OF t less.prems(2), of B]
    show ?thesis
    proof (cases g)
      case False
      then show ?thesis using rest ph by auto
    next
      case g: True
      have "int (length (sd_running s1)) - j < int (length (sd_running s)) - i" using running_turn_progress [of env i st s j st1 s1] t g by simp
      then have "nat (int (length (sd_running s1)) - j) < nat (int (length (sd_running s)) - i)" using True by simp
      moreover have "running_loop env j st1 s1 = Inr (st', s')" "running_phase j st1 s1" using rest g ph by auto
      ultimately obtain j' where "running_phase j' st' s'" "sd_config s' = sd_config s1"
        "sd_prev_ids s' = sd_prev_ids s1" "sd_pause s' = sd_pause s1" "runs_from s1 s'"
        "well_configured (sd_config s1) \<and> all_paced s1 \<and> in_budget B st1 \<longrightarrow> in_budget B st'" by (blast dest: less.hyps)
      then show ?thesis using ph runs_from_trans [of s s1 s'] runs_from_paced [of s s1] by metis
    qed
  qed
qed

lemma allocate_or_preempt_shrinks:
  assumes "allocate_or_preempt env rid n i st s = Inr (bs, j, st', s')"
  shows "length (sd_running s') \<le> length (sd_running s)"
  using assms
proof (induction "length (sd_running s)" arbitrary: i st s rule: less_induct)
  case less
  from less.prems(1) obtain r nb kv where r: "get_req rid s = Inr r"
    and a: "allocate_slots (se_pool env) r n 0 None (num_lookahead_tokens (sd_config s)) 0 False 0 (sd_kv s) = Inr (nb, kv)"
    by (subst (asm) allocate_or_preempt.simps) (auto simp: ebind_eq_Inr)
  show ?case
  proof (cases "nb = None")
    case False
    then show ?thesis using less.prems(1) a r by (subst (asm) allocate_or_preempt.simps) auto
  next
    case True
    with less.prems(1) a r obtain v k st1 s1 s2 where
      v: "take_victim i st (s\<lparr>sd_kv := kv\<rparr>) = Inr (v, k, st1, s1)" "preempt_request env v s1 = Inr s2"
      and rest: "s' = s2 \<or> allocate_or_preempt env rid n k (st1\<lparr>st_preempted := st_preempted st1 @ [v]\<rparr>) s2 = Inr (bs, j, st', s')"
      by (subst (asm) allocate_or_preempt.simps) (auto simp: ebind_eq_Inr Let_def split: if_splits)
    have len: "length (sd_running s2) < length (sd_running s)"
      using take_victim_running(1) [OF v(1)] preempt_request_running [OF v(2)] by simp
    then show ?thesis using rest less.hyps [OF len] by force
  qed
qed

lemma running_turn_shrinks:
  assumes "running_turn env i st s = Inr (g, j, st', s')"
  shows "length (sd_running s') \<le> length (sd_running s)"
  using assms
proof (cases rule: running_turn_cases)
  case (asked rid r inputs n b ex s1 k)
  have s1: "sd_running s1 = sd_running s" using asked(3) by (auto split: if_splits dest: try_schedule_running)
  show ?thesis
  proof (cases "k = 0")
    case False
    then obtain bs j2 st2 s2 where a: "allocate_or_preempt env rid k i st s1 = Inr (bs, j2, st2, s2)"
      and "case bs of None \<Rightarrow> s' = s2 | Some bl \<Rightarrow> schedule_running_req rid bl k inputs b ex st2 s2 = Inr (st', s')"
      using asked(5) by (auto split: option.splits)
    then have "sd_running s' = sd_running s2" using schedule_running_req_running by (auto split: option.splits)
    then show ?thesis using allocate_or_preempt_shrinks [OF a] s1 by simp
  qed (use asked(5) s1 in auto)
qed simp

lemma running_loop_shrinks:
  assumes "running_loop env i st s = Inr (st', s')"
  shows "length (sd_running s') \<le> length (sd_running s)"
  using assms
proof (induction "nat (int (length (sd_running s)) - i)" arbitrary: i st s rule: less_induct)
  case less
  show ?case
  proof (cases "i < int (length (sd_running s)) \<and> st_token_budget st > 0")
    case False
    then show ?thesis using less.prems(1) by (subst (asm) running_loop.simps) auto
  next
    case True
    with less.prems(1) obtain g j st1 s1 where t: "running_turn env i st s = Inr (g, j, st1, s1)"
      and rest: "(if g then running_loop env j st1 s1 else Inr (st1, s1)) = Inr (st', s')"
      by (subst (asm) running_loop.simps) (auto simp: ebind_eq_Inr)
    show ?thesis
    proof (cases g)
      case False
      then show ?thesis using rest running_turn_shrinks [OF t] by auto
    next
      case g: True
      have "nat (int (length (sd_running s1)) - j) < nat (int (length (sd_running s)) - i)"
        using running_turn_progress [of env i st s j st1 s1] t g True by simp
      from less.hyps [OF this] rest g running_turn_shrinks [OF t] show ?thesis by force
    qed
  qed
qed

end
