(* ===== verification/Sched_Admit.thy ===== *)
theory Sched_Admit
  imports Sched_Turns
begin

text \<open>
  The loop over the waiting requests and the whole of \<open>Scheduler.schedule\<close>: requests move from the queues to the running
  list or to the queue of this step's skipped requests, which is put back at the end.
\<close>

subsection \<open>The loop over the waiting requests\<close>

text \<open>Requests that are passed over in this step sit in a queue of its own.\<close>

definition waiting_phase :: "sched_step \<Rightarrow> scheduler \<Rightarrow> bool" where
  "waiting_phase st s \<longleftrightarrow> books st \<and> keyed s
     \<and> in_place (place_of s) (mset (sd_running s)) (queued s + mset (rq_items (st_skipped st)))
     \<and> set (noted st) \<subseteq> set (sd_running s) \<and> int (length (sd_running s)) \<le> max_num_running_reqs (sd_config s)"

lemma waiting_phase_still: "waiting_phase st s \<Longrightarrow> still s s' \<Longrightarrow> waiting_phase st s'"
  using still_queued [of s s'] by (simp add: waiting_phase_def still_def)

lemma pop_from_moves:
  assumes "pop_from env w s = Inr (x, s')"
  shows "rq_peek (the_queue w s) = Inr x" "queued s = add_mset x (queued s')" "sd_requests s' = sd_requests s"
    "sd_running s' = sd_running s" "sd_config s' = sd_config s" "sd_prev_ids s' = sd_prev_ids s" "sd_pause s' = sd_pause s"
    "sd_kv s' = sd_kv s" "sd_encoder s' = sd_encoder s"
  using assms pop_from_queued [OF assms] by (cases w; auto simp: ebind_eq_Inr dest: rq_pop_peek)+

lemma same_requests: "sd_requests s' = sd_requests s \<Longrightarrow> place_of s' = place_of s \<and> keyed s' = keyed s"
  by (simp add: place_of_def keyed_def fun_eq_iff)

lemma skip_waiting_phase:
  assumes a: "skip_waiting env w rid st s = Inr (st', s')" and ph: "waiting_phase st s" and pk: "rq_peek (the_queue w s) = Inr rid"
  shows "waiting_phase st' s'" "in_budget B st \<Longrightarrow> in_budget B st'" "sd_config s' = sd_config s" "sd_prev_ids s' = sd_prev_ids s"
    "sd_pause s' = sd_pause s" "sd_requests s' = sd_requests s" "st_preempted st' = st_preempted st"
proof -
  obtain x where x: "pop_from env w s = Inr (x, s')" and st': "st' = st\<lparr>st_skipped := rq_prepend (id_less env s') rid (st_skipped st)\<rparr>"
    using a by (auto simp: skip_waiting_def ebind_eq_Inr)
  note m = pop_from_moves [OF x]
  have [simp]: "x = rid" using m(1) pk by simp
  show "waiting_phase st' s'"
    using ph m same_requests [OF m(3)] by (simp add: waiting_phase_def st' books_def noted_def)
  show "in_budget B st'" if "in_budget B st" using that by (simp add: st' in_budget_def total_tokens_def)
  show "sd_config s' = sd_config s" "sd_prev_ids s' = sd_prev_ids s"
    "sd_pause s' = sd_pause s" "sd_requests s' = sd_requests s" "st_preempted st' = st_preempted st"
    by (simp_all add: m st')
qed

text \<open>A request moves to the running list.\<close>

lemma admit_waiting_phase:
  assumes a: "admit_waiting rid inputs n b ex k st s = Inr (st', s')" and bk: "books st" "keyed s"
    and pl: "in_place (place_of s) (mset (sd_running s)) (add_mset rid qu)" and sub: "set (noted st) \<subseteq> set (sd_running s)"
  shows "books st'" "keyed s'" "in_place (place_of s') (mset (sd_running s')) qu" "set (noted st') \<subseteq> set (sd_running s')"
    "sd_running s' = sd_running s @ [rid]" "queued s' = queued s" "st_skipped st' = st_skipped st"
    "sd_config s' = sd_config s" "sd_prev_ids s' = sd_prev_ids s" "sd_pause s' = sd_pause s" "st_preempted st' = st_preempted st"
    "in_budget B st \<Longrightarrow> 0 < n \<Longrightarrow> n \<le> st_token_budget st \<Longrightarrow> in_budget B st'"
proof -
  define up where "up r = r\<lparr>status := RUNNING, num_computed_tokens := k,
      num_cached_tokens := (if num_cached_tokens r < 0 then k else num_cached_tokens r)\<rparr>" for r :: request
  from a obtain r st0 where r: "map_of (sd_requests s) rid = Some r" and n0: "note_admitted rid r st = Inr st0"
    by (auto simp: admit_waiting_def ebind_eq_Inr)
  have s': "allocate_encoder_inputs (up r) (inputs @ ex) (put_req (up r) (s\<lparr>sd_running := sd_running s @ [rid]\<rparr>)) = Inr s'"
    using a r n0 by (auto simp: admit_waiting_def ebind_eq_Inr Let_def get_req_def up_def)
  have st0: "st0 = st\<lparr>st_new_reqs := st_new_reqs st @ [rid]\<rparr> \<or> st0 = st\<lparr>st_resumed_reqs := st_resumed_reqs st @ [rid]\<rparr>"
    using n0 by (auto simp: note_admitted_def split: if_splits)
  have st': "st_new_reqs st' = st_new_reqs st0" "st_resumed_reqs st' = st_resumed_reqs st0" "st_running_reqs st' = st_running_reqs st0"
      "st_new_blocks st' = AList.update rid (kvm_get_blocks rid (sd_kv s)) (st_new_blocks st0)"
      "st_num_tokens st' = AList.update rid n (st_num_tokens st0)" "st_token_budget st' = st_token_budget st0 - n"
      "st_skipped st' = st_skipped st0" "st_preempted st' = st_preempted st0" "st_spec_tokens st' = st_spec_tokens st0"
    using a r n0 by (auto simp: admit_waiting_def ebind_eq_Inr Let_def get_req_def)
  have enc: "fst ` set (st_encoder_inputs st') \<subseteq> insert rid (fst ` set (st_encoder_inputs st0))"
    using a r n0 by (simp_all add: admit_waiting_def ebind_eq_Inr Let_def get_req_def split: if_splits)
      ((elim conjE, hypsubst, simp add: dom_update subset_insertI)+)
  have id: "request_id r = rid" by (rule keyedD [OF bk(2) r])
  obtain c where c: "s' = (put_req (up r) (s\<lparr>sd_running := sd_running s @ [rid]\<rparr>))\<lparr>sd_encoder := c\<rparr>"
    using allocate_encoder_frame [OF s'] by blast
  have place: "place_of s' = (place_of s)(rid := Running)" and run: "sd_running s' = sd_running s @ [rid]"
    using c id by (simp_all add: up_def)
  show "keyed s'" "queued s' = queued s" "sd_config s' = sd_config s" "sd_prev_ids s' = sd_prev_ids s" "sd_pause s' = sd_pause s"
    using c bk(2) by simp_all
  show "sd_running s' = sd_running s @ [rid]" by (rule run)
  show "in_place (place_of s') (mset (sd_running s')) qu" using in_place_admit [OF pl] place run by simp
  have new: "rid \<notin> set (noted st)"
  proof
    assume "rid \<in> set (noted st)"
    then show False using sub in_place_D [OF pl, of rid] by auto
  qed
  have "set (map fst (st_new_blocks st)) = set (noted st)" using bk(1) by (simp add: books_def)
  with new have new': "rid \<notin> fst ` set (st_num_tokens st0)" "rid \<notin> fst ` set (st_new_blocks st0)" and noted0: "noted st0 = noted st"
    using st0 by (elim disjE; simp add: noted_def)+
  show "set (noted st') \<subseteq> set (sd_running s')"
    using sub st'(5) run noted0 new'(1) by (auto simp: noted_def update_new)
  have "fst ` set (st_encoder_inputs st0) \<subseteq> set (noted st)" using bk(1) st0 by (elim disjE; simp add: books_def)
  with enc have "fst ` set (st_encoder_inputs st') \<subseteq> insert rid (set (noted st))" by (meson insert_mono order_trans)
  then show "books st'"
    using bk(1) st0 st' new' subset_insertI2 [of "fst ` set (st_spec_tokens st)"]
    by (elim disjE; simp add: books_def noted_def update_new)
  show "st_skipped st' = st_skipped st" "st_preempted st' = st_preempted st" using st0 st' by auto
  show "in_budget B st'" if "in_budget B st" "0 < n" "n \<le> st_token_budget st"
    using that new' st' st0 by (auto simp: in_budget_def total_tokens_def update_new)
qed

lemma waiting_num_new_le: "waiting_num_new cfg r n b = Some k \<Longrightarrow> k \<le> b"
  by (auto simp: waiting_num_new_def Let_def split: if_splits)

lemma waiting_inputs_tokens:
  assumes "waiting_inputs env r False ne nc st s = Inr (Inr (inputs, k, b, ex, s'))"
  shows "0 < k" "k \<le> st_token_budget st"
proof -
  from assms obtain n where n: "waiting_num_new (sd_config s) r nc (st_token_budget st) = Some n" "0 < n"
    by (auto simp: waiting_inputs_def returned)
  have "0 < k \<and> k \<le> n"
  proof (cases "has_encoder_inputs r")
    case True
    with assms n obtain s1 where "try_schedule_encoder_inputs env r nc n (st_encoder_budget st)
        (if use_eagle (sd_config s) then 1 else 0) s = Inr (inputs, k, b, ex, s1)" "k \<noteq> 0"
      by (auto simp: waiting_inputs_def returned)
    then show ?thesis using try_schedule_tokens n(2) by fastforce
  next
    case False
    then show ?thesis using assms n by (auto simp: waiting_inputs_def returned)
  qed
  then show "0 < k" "k \<le> st_token_budget st" using waiting_num_new_le [OF n(1)] by auto
qed

lemma waiting_tokens_bounds:
  assumes a: "waiting_tokens env rid False nl ne nc st s = Inr (Inr (inputs, k, b, ex, s'))" and w: "well_configured (sd_config s)"
  shows "0 < k" "k \<le> st_token_budget st"
proof -
  from a obtain r k0 where r: "map_of (sd_requests s) rid = Some r"
    and i: "waiting_inputs env r False ne nc st s = Inr (Inr (inputs, k0, b, ex, s'))"
    and m: "if need_mamba_block_aligned_split (sd_config s') then mamba_block_aligned_split (sd_config s') r k0 nl ne = Inr k \<and> k \<noteq> 0 else k = k0"
    by (auto simp: waiting_tokens_def returned)
  have "sd_config s' = sd_config s" using waiting_inputs_still(1) [OF i] by (simp add: still_def)
  then show "0 < k" "k \<le> st_token_budget st"
    using waiting_inputs_tokens [OF i] m w mamba_split_tokens [of "sd_config s" r k0 nl ne k]
    by (auto simp: well_configured_def split: if_splits)
qed

text \<open>What became of the request.\<close>

lemma try_admit_cases:
  assumes "try_admit env w rid st s = Inr (go_on, st', s')"
  obtains (unknown) s1 where "cached_tokens env rid s = Inr (None, s1)" "skip_waiting env w rid st s1 = Inr (st', s')" "go_on"
  | (stop) "\<not> go_on" "st' = st" "still s s'"
  | (loading) bs nl ne nc inputs k b ex s1 s2 s3 x s4 r where "cached_tokens env rid s = Inr (Some (bs, nl, ne, True, nc), s1)"
      "waiting_tokens env rid True nl ne nc st s1 = Inr (Inr (inputs, k, b, ex, s2))"
      "waiting_slots env rid inputs k bs nl ne True s2 = Inr (Inr s3)"
      "pop_from env w s3 = Inr (x, s4)" "map_of (sd_requests s4) x = Some r"
      "s' = put_req (r\<lparr>status := WAITING_FOR_REMOTE_KVS, num_computed_tokens := nc\<rparr>) s4"
      "st' = st\<lparr>st_skipped := rq_prepend (id_less env s') x (st_skipped st)\<rparr>" "go_on"
  | (admit) bs nl ne nc inputs k b ex s1 s2 s3 x s4 where "cached_tokens env rid s = Inr (Some (bs, nl, ne, False, nc), s1)"
      "waiting_tokens env rid False nl ne nc st s1 = Inr (Inr (inputs, k, b, ex, s2))"
      "waiting_slots env rid inputs k bs nl ne False s2 = Inr (Inr s3)"
      "pop_from env w s3 = Inr (x, s4)" "admit_waiting x inputs k b ex nc st s4 = Inr (st', s')" "go_on"
proof -
  from assms obtain hit s1 where c: "cached_tokens env rid s = Inr (hit, s1)" by (auto simp: try_admit_def ebind_eq_Inr)
  note st1 = cached_tokens_still [OF c]
  show ?thesis
  proof (cases hit)
    case None
    then show ?thesis using assms c by (intro unknown) (auto simp: try_admit_def ebind_eq_Inr)
  next
    case (Some h)
    obtain bs nl ne a nc where h: "h = (bs, nl, ne, a, nc)" by (cases h)
    with assms c Some obtain res where t: "waiting_tokens env rid a nl ne nc st s1 = Inr res" by (auto simp: try_admit_def ebind_eq_Inr)
    show ?thesis
    proof (cases res)
      case (Inl s2)
      then show ?thesis using assms c Some h t still_trans [OF st1] waiting_tokens_still(2) by (intro stop) (auto simp: try_admit_def ebind_eq_Inr)
    next
      case (Inr y)
      obtain inputs k b ex s2 where y: "y = (inputs, k, b, ex, s2)" by (cases y)
      have st2: "still s s2" using still_trans [OF st1] waiting_tokens_still(1) t Inr y by blast
      from assms c Some h t Inr y obtain res2 where sl: "waiting_slots env rid inputs k bs nl ne a s2 = Inr res2"
        by (auto simp: try_admit_def ebind_eq_Inr)
      show ?thesis
      proof (cases res2)
        case Inl2: (Inl s3)
        then show ?thesis using assms c Some h t Inr y sl still_trans [OF st2] waiting_slots_still(2)
          by (intro stop) (auto simp: try_admit_def ebind_eq_Inr)
      next
        case Inr2: (Inr s3)
        from assms c Some h t Inr y sl Inr2 obtain x s4 where p: "pop_from env w s3 = Inr (x, s4)"
          by (auto simp: try_admit_def ebind_eq_Inr)
        show ?thesis
        proof (cases a)
          case True
          then show ?thesis using assms c Some h t Inr y sl Inr2 p loading by (auto simp: try_admit_def ebind_eq_Inr Let_def)
        next
          case False
          then show ?thesis using assms c Some h t Inr y sl Inr2 p admit by (auto simp: try_admit_def ebind_eq_Inr)
        qed
      qed
    qed
  qed
qed

lemma still_peek: "still s s' \<Longrightarrow> rq_peek (the_queue w s') = rq_peek (the_queue w s)"
  by (cases w) (simp_all add: still_def)

lemma try_admit_phase:
  assumes a: "try_admit env w rid st s = Inr (go_on, st', s')" and ph: "waiting_phase st s"
    and pk: "rq_peek (the_queue w s) = Inr rid" and room: "int (length (sd_running s)) \<noteq> max_num_running_reqs (sd_config s)"
  shows "waiting_phase st' s' \<and> sd_config s' = sd_config s \<and> sd_prev_ids s' = sd_prev_ids s \<and> sd_pause s' = sd_pause s
    \<and> st_preempted st' = st_preempted st \<and> (well_configured (sd_config s) \<and> in_budget B st \<longrightarrow> in_budget B st')"
  using a
proof (cases rule: try_admit_cases)
  case (unknown s1)
  have st: "still s s1" by (rule cached_tokens_still [OF unknown(1)])
  have "rq_peek (the_queue w s1) = Inr rid" using still_peek [OF st] pk by simp
  from skip_waiting_phase [OF unknown(2) waiting_phase_still [OF ph st] this] st show ?thesis by (simp add: still_def)
next
  case stop
  then show ?thesis using ph waiting_phase_still by (auto simp: still_def)
next
  case (loading bs nl ne nc inputs k b ex s1 s2 s3 x s4 r)
  have st: "still s s3"
    using cached_tokens_still [OF loading(1)] waiting_tokens_still(1) [OF loading(2)] waiting_slots_still(1) [OF loading(3)] still_trans by blast
  note m = pop_from_moves [OF loading(4)]
  have ph3: "waiting_phase st s3" by (rule waiting_phase_still [OF ph st])
  then have k4: "keyed s4" and p4: "in_place (place_of s4) (mset (sd_running s4)) (queued s4 + add_mset x (mset (rq_items (st_skipped st))))"
    using m same_requests [OF m(3)] by (simp_all add: waiting_phase_def add.commute)
  have x: "request_id r = x" by (rule keyedD [OF k4 loading(5)])
  have "x \<in># queued s4 + add_mset x (mset (rq_items (st_skipped st)))" by simp
  then have "place_of s4 x = Queued" using in_place_D(2) [OF p4] by blast
  then have "place_of s' = place_of s4" using loading(6) x by (auto simp: fun_eq_iff)
  then show ?thesis
    using ph3 k4 p4 m loading(6,7) st by (simp add: waiting_phase_def still_def books_def noted_def in_budget_def total_tokens_def)
next
  case (admit bs nl ne nc inputs k b ex s1 s2 s3 x s4)
  have st1: "still s s1" by (rule cached_tokens_still [OF admit(1)])
  have st: "still s s3" using st1 waiting_tokens_still(1) [OF admit(2)] waiting_slots_still(1) [OF admit(3)] still_trans by blast
  note m = pop_from_moves [OF admit(4)]
  have ph3: "waiting_phase st s3" by (rule waiting_phase_still [OF ph st])
  then have k4: "keyed s4" "books st" and p4: "in_place (place_of s4) (mset (sd_running s4)) (add_mset x (queued s4 + mset (rq_items (st_skipped st))))"
    and sub: "set (noted st) \<subseteq> set (sd_running s4)"
    using m same_requests [OF m(3)] by (simp_all add: waiting_phase_def)
  note ad = admit_waiting_phase [OF admit(5) k4(2,1) p4 sub]
  have "int (length (sd_running s')) \<le> max_num_running_reqs (sd_config s')"
    using ad(5,8) m st room ph by (simp add: still_def waiting_phase_def)
  moreover have "in_budget B st'" if "well_configured (sd_config s)" "in_budget B st"
    using waiting_tokens_bounds [OF admit(2)] that ad(12) st1 by (simp add: still_def)
  ultimately show ?thesis using ad m st by (simp add: waiting_phase_def still_def)
qed

lemma waiting_turn_phase:
  assumes a: "waiting_turn env st s = Inr (go_on, st', s')" and ph: "waiting_phase st s"
  shows "waiting_phase st' s' \<and> sd_config s' = sd_config s \<and> sd_prev_ids s' = sd_prev_ids s \<and> sd_pause s' = sd_pause s
    \<and> st_preempted st' = st_preempted st \<and> (well_configured (sd_config s) \<and> in_budget B st \<longrightarrow> in_budget B st')"
  using a
proof (cases rule: waiting_turn_cases)
  case full
  then show ?thesis using ph by simp
next
  case (skip w rid r ready s1)
  have st: "still s s1" using skip(5) try_promote_still by (auto split: if_splits)
  have "rq_peek (the_queue w s1) = Inr rid" using still_peek [OF st] skip(2) by simp
  from skip_waiting_phase [OF skip(6) waiting_phase_still [OF ph st] this] st show ?thesis by (simp add: still_def)
next
  case (admit w rid r s1)
  have st: "still s s1" using admit(5) try_promote_still by (auto split: if_splits)
  have "rq_peek (the_queue w s1) = Inr rid" using still_peek [OF st] admit(2) by simp
  from try_admit_phase [OF admit(6) waiting_phase_still [OF ph st] this, of B] admit(4) st show ?thesis by (simp add: still_def)
qed

lemma waiting_loop_phase:
  assumes "waiting_loop env st s = Inr (st', s')" "waiting_phase st s"
  shows "waiting_phase st' s' \<and> sd_config s' = sd_config s \<and> sd_prev_ids s' = sd_prev_ids s \<and> sd_pause s' = sd_pause s
    \<and> st_preempted st' = st_preempted st \<and> (well_configured (sd_config s) \<and> in_budget B st \<longrightarrow> in_budget B st')"
  using assms
proof (induction "size (queued s)" arbitrary: st s rule: less_induct)
  case less
  show ?case
  proof (cases "(rq_truth (sd_waiting s) \<or> rq_truth (sd_skipped s)) \<and> st_token_budget st > 0")
    case False
    then have "st' = st" "s' = s" using less.prems(1) by (subst (asm) waiting_loop.simps; auto)+
    then show ?thesis using less.prems(2) by auto
  next
    case True
    with less.prems(1) obtain g st1 s1 where t: "waiting_turn env st s = Inr (g, st1, s1)"
      and rest: "(if g then waiting_loop env st1 s1 else Inr (st1, s1)) = Inr (st', s')"
      by (subst (asm) waiting_loop.simps) (auto simp: ebind_eq_Inr)
    note ph = waiting_turn_phase [OF t less.prems(2), of B]
    show ?thesis
    proof (cases g)
      case False
      then show ?thesis using rest ph by auto
    next
      case g: True
      have "size (queued s1) < size (queued s)" using waiting_turn_queued [of env st s st1 s1] t g by simp
      from less.hyps [OF this, of st1] rest g ph show ?thesis by auto
    qed
  qed
qed

lemma schedule_waiting_phase:
  assumes a: "schedule_waiting env st s = Inr (st', s')" and ph: "waiting_phase st s" and e: "rq_items (st_skipped st) = []"
  shows "books st' \<and> placed s' \<and> set (noted st') \<subseteq> set (sd_running s') \<and> int (length (sd_running s')) \<le> max_num_running_reqs (sd_config s')
    \<and> sd_config s' = sd_config s \<and> sd_prev_ids s' = sd_prev_ids s \<and> sd_pause s' = sd_pause s \<and> st_preempted st' = st_preempted st
    \<and> (st_preempted st \<noteq> [] \<longrightarrow> s' = s)
    \<and> (well_configured (sd_config s) \<and> in_budget B st \<longrightarrow> in_budget B st')"
proof (cases "st_preempted st = [] \<and> sd_pause s = UNPAUSED")
  case True
  with a obtain s1 where l: "waiting_loop env st s = Inr (st', s1)"
    and s': "s' = (if rq_truth (st_skipped st') then s1\<lparr>sd_skipped := rq_prepend_all (id_less env s1) (st_skipped st') (sd_skipped s1)\<rparr> else s1)"
    by (auto simp: schedule_waiting_def ebind_eq_Inr)
  note w = waiting_loop_phase [OF l ph, of B]
  have "queued s' = queued s1 + mset (rq_items (st_skipped st'))" by (simp add: s' queued_def rq_truth_def)
  then have "placed s'" using w by (simp add: placed_def waiting_phase_def s')
  then show ?thesis using w True by (auto simp: waiting_phase_def s')
next
  case False
  then show ?thesis using a ph e by (auto simp: schedule_waiting_def waiting_phase_def placed_def)
qed

subsection \<open>The whole step\<close>

lemma free_encoder_inputs_still: "free_encoder_inputs env r s = Inr s' \<Longrightarrow> still s s'"
  by (auto simp: free_encoder_inputs_def ebind_eq_Inr)

lemma after_schedule_turn_still:
  assumes "after_schedule_turn env x (b, s) = Inr (b', s')"
  shows "still s s'"
proof -
  obtain rid n where x: "x = (rid, n)" by (cases x)
  from assms x obtain r where r: "map_of (sd_requests s) rid = Some r" by (auto simp: after_schedule_turn_def ebind_eq_Inr)
  define u where "u = r\<lparr>num_computed_tokens := num_computed_tokens r + n,
     is_prefill_chunk := num_computed_tokens r + n < num_tokens (r\<lparr>num_computed_tokens := num_computed_tokens r + n\<rparr>)
       + num_output_placeholders (r\<lparr>num_computed_tokens := num_computed_tokens r + n\<rparr>)\<rparr>"
  have "still s (put_req u s)" by (rule still_put_req [OF still_refl r]) (simp_all add: u_def)
  moreover have "still (put_req u s) s'"
    using assms r x free_encoder_inputs_still
    by (auto simp: after_schedule_turn_def ebind_eq_Inr Let_def u_def num_tokens_def get_req_def split: if_splits)
  ultimately show ?thesis by (rule still_trans)
qed

lemma placeholder_turn_still:
  assumes "placeholder_turn sp x (b, s) = Inr (b', s')"
  shows "still s s'"
  using assms by (cases x) (auto simp: placeholder_turn_def returned intro!: still_put_req)

lemma update_after_schedule_still:
  assumes "update_after_schedule env out s = Inr (out', s')"
  shows "still s s'" "so_num_tokens out' = so_num_tokens out" "so_preempted_ids out' = so_preempted_ids out"
    "so_total out' = so_total out"
proof -
  from assms obtain o1 s1 where b: "base_update_after_schedule env out s = Inr (o1, s1)"
    and rest: "if async_scheduling (sd_config s1)
       then \<exists>p. foldE (placeholder_turn (so_spec_tokens o1)) (so_num_tokens o1) (so_pending_structured o1, s1) = Inr (p, s')
         \<and> out' = o1\<lparr>so_pending_structured := p\<rparr>
       else out' = o1 \<and> s' = s1"
    by (auto simp: update_after_schedule_def returned)
  from b obtain str s0 where f: "foldE (after_schedule_turn env) (so_num_tokens out) (so_has_structured out, s) = Inr (str, s0)"
    and o1: "o1 = out\<lparr>so_has_structured := str\<rparr>" "s1 = s0\<lparr>sd_finished_ids := {}\<rparr>"
    by (auto simp: base_update_after_schedule_def returned)
  have "still s (snd (str, s0))"
    by (rule foldE_invariant [OF f, where P = "\<lambda>x. still s (snd x)"])
      (auto dest!: after_schedule_turn_still elim: still_trans)
  then have s1: "still s s1" using o1 by simp
  show "still s s'"
  proof (cases "async_scheduling (sd_config s1)")
    case True
    with rest obtain p where p: "foldE (placeholder_turn (so_spec_tokens o1)) (so_num_tokens o1) (so_pending_structured o1, s1) = Inr (p, s')"
      by auto
    have "still s1 (snd (p, s'))"
      by (rule foldE_invariant [OF p, where P = "\<lambda>x. still s1 (snd x)"]) (auto dest!: placeholder_turn_still elim: still_trans)
    then show ?thesis using still_trans [OF s1] by simp
  qed (use rest s1 in simp)
  show "so_num_tokens out' = so_num_tokens out" "so_preempted_ids out' = so_preempted_ids out" "so_total out' = so_total out"
    using rest o1 by (auto split: if_splits)
qed

lemma build_output_moves:
  assumes "build_output st s = Inr (out, s')"
  shows "sd_requests s' = sd_requests s" "sd_running s' = sd_running s" "sd_waiting s' = sd_waiting s" "sd_skipped s' = sd_skipped s"
    "sd_config s' = sd_config s" "sd_pause s' = sd_pause s" "sd_prev_ids s' = set (noted st)"
    "so_num_tokens out = st_num_tokens st" "so_total out = total_tokens st" "so_preempted_ids out = set (st_preempted st)"
    "so_spec_tokens out = st_spec_tokens st" "so_encoder_inputs out = st_encoder_inputs st"
proof -
  have "sd_requests s' = sd_requests s \<and> sd_running s' = sd_running s \<and> sd_waiting s' = sd_waiting s \<and> sd_skipped s' = sd_skipped s
    \<and> sd_config s' = sd_config s \<and> sd_pause s' = sd_pause s \<and> sd_prev_ids s' = fst ` set (st_num_tokens st)
    \<and> so_num_tokens out = st_num_tokens st \<and> so_total out = total_tokens st \<and> so_preempted_ids out = set (st_preempted st)
    \<and> so_spec_tokens out = st_spec_tokens st \<and> so_encoder_inputs out = st_encoder_inputs st"
  proof (cases "needs_kv_cache_zeroing (sd_config s)")
    case True
    with assms show ?thesis by (clarsimp simp: build_output_def ebind_eq_Inr Let_def split_beta)
  next
    case False
    with assms show ?thesis by (clarsimp simp: build_output_def ebind_eq_Inr Let_def split_beta)
  qed
  then show "sd_requests s' = sd_requests s" "sd_running s' = sd_running s" "sd_waiting s' = sd_waiting s" "sd_skipped s' = sd_skipped s"
    "sd_config s' = sd_config s" "sd_pause s' = sd_pause s" "sd_prev_ids s' = set (noted st)"
    "so_num_tokens out = st_num_tokens st" "so_total out = total_tokens st" "so_preempted_ids out = set (st_preempted st)"
    "so_spec_tokens out = st_spec_tokens st" "so_encoder_inputs out = st_encoder_inputs st"
    by (simp_all add: noted_def)
qed

lemma check_loras_moves:
  "check_loras st s = Inr st' \<Longrightarrow> \<exists>l. st' = st\<lparr>st_loras := l\<rparr>"
  by (cases st) (auto simp: check_loras_def returned)

text \<open>Where the requests are after a step, and what was scheduled.\<close>

lemma schedule_phase:
  assumes a: "schedule env s = Inr (out, s')" and pl: "placed s"
    and len: "int (length (sd_running s)) \<le> max_num_running_reqs (sd_config s)"
  defines "B \<equiv> (if sd_pause s = PAUSED_ALL then 0 else max_num_scheduled_tokens (sd_config s))"
  shows "placed s'" "int (length (sd_running s')) \<le> max_num_running_reqs (sd_config s')" "sd_config s' = sd_config s"
    "distinct (map fst (so_num_tokens out))" "set (map fst (so_num_tokens out)) \<subseteq> set (sd_running s')"
    "so_preempted_ids out \<subseteq> {x. place_of s' x = Queued}" "sd_prev_ids s' = set (map fst (so_num_tokens out))"
    "so_total out = sum_list (map snd (so_num_tokens out))"
    "well_configured (sd_config s) \<Longrightarrow> all_paced s \<Longrightarrow> 0 \<le> B \<Longrightarrow> so_total out \<le> B \<and> (\<forall>n \<in> snd ` set (so_num_tokens out). 0 < n)"
proof -
  define s0 where "s0 = s\<lparr>sd_kv := kvm_new_step_starts (sd_kv s)\<rparr>"
  from a obtain st1 s1 st2 st3 s3 out3 s4 where
    r: "running_loop env 0 (init_step s0) s0 = Inr (st1, s1)" and l: "check_loras st1 s1 = Inr st2"
    and w: "schedule_waiting env st2 s1 = Inr (st3, s3)" and b: "build_output st3 s3 = Inr (out3, s4)"
    and u: "update_after_schedule env out3 s4 = Inr (out, s')"
    by (auto simp: schedule_def s0_def ebind_eq_Inr Let_def)
  have ph0: "running_phase 0 (init_step s0) s0"
    using pl by (cases "policy (sd_config s)")
      (auto simp: running_phase_def init_step_def books_def noted_def s0_def placed_def total_tokens_def)
  obtain j where ph1: "running_phase j st1 s1" "sd_config s1 = sd_config s0" "runs_from s0 s1"
    and bu1: "well_configured (sd_config s0) \<and> all_paced s0 \<and> in_budget B (init_step s0) \<longrightarrow> in_budget B st1"
    and len1: "sd_pause s1 = sd_pause s0"
    using running_loop_phase [OF r ph0] by metis
  have "int (length (sd_running s1)) \<le> int (length (sd_running s))"
    using running_loop_shrinks [OF r] by (simp add: s0_def)
  moreover obtain lo where st2: "st2 = st1\<lparr>st_loras := lo\<rparr>" using check_loras_moves [OF l] ..
  moreover have "set (noted st1) \<subseteq> set (sd_running s1)"
    using ph1(1) books_scheduled(2) [of st1] set_take_subset [of "nat j" "sd_running s1"]
    by (simp add: running_phase_def) blast
  ultimately have wp: "waiting_phase st2 s1" "rq_items (st_skipped st2) = []"
    using ph1 len by (simp_all add: running_phase_def waiting_phase_def placed_def books_def noted_def s0_def)
  note sw = schedule_waiting_phase [OF w wp, of B]
  note bo = build_output_moves [OF b]
  note us = update_after_schedule_still [OF u]
  have p4: "placed s4" using sw bo same_requests [OF bo(1)] by (simp add: placed_def queued_def)
  show p': "placed s'" by (rule still_placed [OF us(1) p4])
  have pl': "place_of s' = place_of s3" using us(1) p4 same_requests [OF bo(1)] by (simp add: still_def placed_def)
  show "int (length (sd_running s')) \<le> max_num_running_reqs (sd_config s')" "sd_config s' = sd_config s"
    "distinct (map fst (so_num_tokens out))" "set (map fst (so_num_tokens out)) \<subseteq> set (sd_running s')"
    "sd_prev_ids s' = set (map fst (so_num_tokens out))" "so_total out = sum_list (map snd (so_num_tokens out))"
    using us bo sw ph1(2) by (auto simp: still_def books_def noted_def total_tokens_def s0_def)
  show "so_preempted_ids out \<subseteq> {x. place_of s' x = Queued}"
  proof
    fix x assume "x \<in> so_preempted_ids out"
    then have "x \<in> set (st_preempted st1)" using us bo sw st2 by auto
    moreover from this have "s3 = s1" using sw st2 by auto
    ultimately show "x \<in> {x. place_of s' x = Queued}" using ph1(1) pl' by (auto simp: running_phase_def)
  qed
  show "so_total out \<le> B \<and> (\<forall>n \<in> snd ` set (so_num_tokens out). 0 < n)" if "well_configured (sd_config s)" "all_paced s" "0 \<le> B"
  proof -
    have "in_budget B (init_step s0)" using that(3) by (auto simp: in_budget_def init_step_def total_tokens_def B_def s0_def)
    then have "in_budget B st1" using bu1 that(1,2) by (simp add: s0_def all_paced_def)
    then have "in_budget B st2" by (simp add: st2 in_budget_def total_tokens_def)
    then have "in_budget B st3" using sw that(1) ph1(2) by (simp add: s0_def)
    then show ?thesis using us bo by (simp add: in_budget_def)
  qed
qed

end
