(* ===== verification/Sched_Finish.thy ===== *)
theory Sched_Finish
  imports Sched_Admit
begin

text \<open>
  \<open>finish_requests\<close>, \<open>_free_request\<close> and the update of one request with its new tokens: which requests they move.
\<close>

subsection \<open>Finishing requests\<close>

lemma map_of_AList_delete: "map_of (AList.delete k xs) = (map_of xs)(k := None)"
  by (rule delete_conv')

lemma free_request_blocks_moves:
  assumes "free_request_blocks rid s = Inr s'"
  shows "sd_requests s' = AList.delete rid (sd_requests s)" "sd_running s' = sd_running s" "sd_waiting s' = sd_waiting s"
    "sd_skipped s' = sd_skipped s" "sd_config s' = sd_config s" "place_of s rid = Nowhere" "place_of s' = place_of s" "keyed s \<Longrightarrow> keyed s'"
    "sd_prev_ids s' = sd_prev_ids s" "sd_pause s' = sd_pause s" "sd_num_streaming s' = sd_num_streaming s"
    "map_of (sd_requests s) rid \<noteq> None" "sd_finished_ids s' = sd_finished_ids s" "sd_encoder s' = sd_encoder s"
proof -
  obtain r kv where r: "map_of (sd_requests s) rid = Some r" "is_finished r"
    and s': "s' = s\<lparr>sd_kv := kv, sd_requests := AList.delete rid (sd_requests s)\<rparr>"
    using assms by (auto simp: free_request_blocks_def ebind_eq_Inr)
  show "sd_requests s' = AList.delete rid (sd_requests s)" "sd_running s' = sd_running s" "sd_waiting s' = sd_waiting s"
    "sd_skipped s' = sd_skipped s" "sd_config s' = sd_config s"
    "sd_prev_ids s' = sd_prev_ids s" "sd_pause s' = sd_pause s" "sd_num_streaming s' = sd_num_streaming s"
    "map_of (sd_requests s) rid \<noteq> None" "sd_finished_ids s' = sd_finished_ids s" "sd_encoder s' = sd_encoder s"
    using r by (simp_all add: s')
  show n: "place_of s rid = Nowhere" using r by (simp add: place_of_def is_finished_def)
  show "place_of s' = place_of s"
    using n by (auto simp: s' place_of_def fun_eq_iff map_of_AList_delete)
  show "keyed s \<Longrightarrow> keyed s'"
    by (auto simp: s' keyed_def map_of_AList_delete distinct_delete split: if_splits)
qed

lemma connector_finished_still: "connector_finished env r s = Inr (b, s') \<Longrightarrow> still s s' \<and> sd_requests s' = sd_requests s"
  by (auto simp: connector_finished_def returned)

text \<open>A finished request leaves the dictionary, or stays there, on no list, until its blocks are sent.\<close>

lemma free_request_moves:
  assumes "free_request env delay rid s = Inr s'"
  shows "sd_running s' = sd_running s" "sd_waiting s' = sd_waiting s" "sd_skipped s' = sd_skipped s" "sd_config s' = sd_config s"
    "place_of s rid = Nowhere" "place_of s' = place_of s" "keyed s \<Longrightarrow> keyed s'" "sd_prev_ids s' = sd_prev_ids s" "sd_pause s' = sd_pause s"
    "x \<noteq> rid \<Longrightarrow> map_of (sd_requests s') x = map_of (sd_requests s) x"
    "rid \<in> sd_finished_ids s'"
proof -
  from assms obtain r b s1 c where r: "map_of (sd_requests s) rid = Some r" "is_finished r"
    and c: "connector_finished env r s = Inr (b, s1)"
    and rest: "(if delay \<or> b then Inr (s1\<lparr>sd_encoder := c, sd_finished_ids := insert rid (sd_finished_ids s1)\<rparr>)
      else free_request_blocks rid (s1\<lparr>sd_encoder := c, sd_finished_ids := insert rid (sd_finished_ids s1)\<rparr>)) = Inr s'"
    by (auto simp: free_request_def ebind_eq_Inr Let_def)
  define s2 where "s2 = s1\<lparr>sd_encoder := c, sd_finished_ids := insert rid (sd_finished_ids s1)\<rparr>"
  have s1: "still s s1" "sd_requests s1 = sd_requests s" using connector_finished_still [OF c] by simp_all
  have s2: "sd_running s2 = sd_running s" "sd_waiting s2 = sd_waiting s" "sd_skipped s2 = sd_skipped s" "sd_config s2 = sd_config s"
    "place_of s2 = place_of s" "keyed s2 = keyed s" "sd_prev_ids s2 = sd_prev_ids s" "sd_pause s2 = sd_pause s"
    "sd_requests s2 = sd_requests s" "rid \<in> sd_finished_ids s2"
    using s1 same_requests [OF s1(2)] by (simp_all add: s2_def still_def)
  show "place_of s rid = Nowhere" using r by (simp add: place_of_def is_finished_def)
  have "s' = s2 \<or> free_request_blocks rid s2 = Inr s'" using rest by (simp add: s2_def split: if_splits)
  then have "sd_running s' = sd_running s2 \<and> sd_waiting s' = sd_waiting s2 \<and> sd_skipped s' = sd_skipped s2 \<and> sd_config s' = sd_config s2
    \<and> place_of s' = place_of s2 \<and> (keyed s2 \<longrightarrow> keyed s') \<and> sd_prev_ids s' = sd_prev_ids s2 \<and> sd_pause s' = sd_pause s2
    \<and> (x \<noteq> rid \<longrightarrow> map_of (sd_requests s') x = map_of (sd_requests s2) x) \<and> rid \<in> sd_finished_ids s'"
  proof
    assume "free_request_blocks rid s2 = Inr s'"
    note m = free_request_blocks_moves [OF this]
    show ?thesis using m s2(10) by (simp add: map_of_AList_delete)
  qed (simp add: s2(10))
  then show "sd_running s' = sd_running s" "sd_waiting s' = sd_waiting s" "sd_skipped s' = sd_skipped s" "sd_config s' = sd_config s"
    "place_of s' = place_of s" "keyed s \<Longrightarrow> keyed s'" "sd_prev_ids s' = sd_prev_ids s" "sd_pause s' = sd_pause s"
    "x \<noteq> rid \<Longrightarrow> map_of (sd_requests s') x = map_of (sd_requests s) x" "rid \<in> sd_finished_ids s'"
    using s2 by simp_all
qed

lemma finish_one_moves:
  assumes a: "finish_one env st rid s = Inr s'" and k: "keyed s"
  shows "sd_running s' = sd_running s" "sd_waiting s' = sd_waiting s" "sd_skipped s' = sd_skipped s" "sd_config s' = sd_config s"
    "place_of s' = (place_of s)(rid := Nowhere)" "keyed s'" "sd_prev_ids s' = sd_prev_ids s" "sd_pause s' = sd_pause s"
    "x \<noteq> rid \<Longrightarrow> map_of (sd_requests s') x = map_of (sd_requests s) x"
proof -
  define g where "g s b = (if b then s\<lparr>sd_finished_recving := sd_finished_recving s - {rid},
                               sd_failed_recving := sd_failed_recving s - {rid}\<rparr> else s)" for s :: scheduler and b
  from a obtain r where r: "map_of (sd_requests s) rid = Some r" by (auto simp: finish_one_def ebind_eq_Inr)
  define b where "b = (status r = WAITING_FOR_REMOTE_KVS)"
  define s1 where "s1 = put_req (r\<lparr>status := st\<rparr>) (g s b)"
  have f: "free_request env (b \<and> rid \<notin> sd_finished_recving s) rid s1 = Inr s'"
    using a r by (simp add: finish_one_def get_req_def Let_def g_def b_def s1_def)
  have id: "request_id r = rid" by (rule keyedD [OF k r])
  have s1: "sd_running s1 = sd_running s" "sd_waiting s1 = sd_waiting s" "sd_skipped s1 = sd_skipped s" "sd_config s1 = sd_config s"
    "place_of s1 = (place_of s)(rid := status_place st)" "keyed s1" "sd_prev_ids s1 = sd_prev_ids s" "sd_pause s1 = sd_pause s"
    "map_of (sd_requests s1) = (map_of (sd_requests s))(rid \<mapsto> r\<lparr>status := st\<rparr>)"
    using k id by (simp_all add: s1_def g_def)
  note m = free_request_moves [OF f]
  have fp: "place_of s' = (place_of s)(rid := Nowhere)" using m(5,6) s1(5) by (auto simp: fun_eq_iff)
  then show "place_of s' = (place_of s)(rid := Nowhere)" .
  show "sd_running s' = sd_running s" "sd_waiting s' = sd_waiting s" "sd_skipped s' = sd_skipped s" "sd_config s' = sd_config s"
    "keyed s'" "sd_prev_ids s' = sd_prev_ids s" "sd_pause s' = sd_pause s"
    "x \<noteq> rid \<Longrightarrow> map_of (sd_requests s') x = map_of (sd_requests s) x"
    using m(1-4,7-9) m(10) [of x] s1 by simp_all
qed

lemma finish_all_moves:
  assumes "foldE (finish_one env st) rids s = Inr s'" "keyed s"
  shows "sd_running s' = sd_running s \<and> sd_waiting s' = sd_waiting s \<and> sd_skipped s' = sd_skipped s \<and> sd_config s' = sd_config s
    \<and> place_of s' = (\<lambda>x. if x \<in> set rids then Nowhere else place_of s x) \<and> keyed s'
    \<and> sd_prev_ids s' = sd_prev_ids s \<and> sd_pause s' = sd_pause s
    \<and> (\<forall>x. x \<notin> set rids \<longrightarrow> map_of (sd_requests s') x = map_of (sd_requests s) x)"
  using assms
proof (induction rids arbitrary: s)
  case (Cons rid rids)
  from Cons.prems(1) obtain s1 where f: "finish_one env st rid s = Inr s1" "foldE (finish_one env st) rids s1 = Inr s'"
    by (auto simp: ebind_eq_Inr)
  note m = finish_one_moves [OF f(1) Cons.prems(2)]
  note ih = Cons.IH [OF f(2) m(6)]
  show ?case using ih m(1-8) m(9) by (auto simp: fun_eq_iff)
qed simp

lemma place_of_status: "status_of s rid = Some RUNNING \<longleftrightarrow> place_of s rid = Running"
  by (auto simp: status_of_def place_of_def split: option.splits)

text \<open>The given requests that are not finished leave the lists and queues; all others stay where they are.\<close>

lemma finish_requests_moves:
  assumes a: "finish_requests env ids st s = Inr (valid, s')" and pl: "placed s"
  shows "placed s'" "sd_config s' = sd_config s" "sd_prev_ids s' = sd_prev_ids s" "sd_pause s' = sd_pause s"
    "valid = valid_requests (case ids of None \<Rightarrow> map fst (sd_requests s) | Some xs \<Rightarrow> xs) s"
    "place_of s' = (\<lambda>x. if x \<in> set valid then Nowhere else place_of s x)"
    "sd_running s' = filter (\<lambda>x. x \<notin> set valid) (sd_running s)"
    "mset (rq_items (sd_waiting s')) = filter_mset (\<lambda>x. x \<notin> set valid) (mset (rq_items (sd_waiting s)))"
    "x \<notin> set valid \<Longrightarrow> map_of (sd_requests s') x = map_of (sd_requests s) x"
proof -
  define fr where "fr = filter (\<lambda>rid. status_of s rid = Some RUNNING) valid"
  define fw where "fw = filter (\<lambda>rid. status_of s rid \<noteq> Some RUNNING) valid"
  define s1 where "s1 = s\<lparr>sd_num_streaming := sd_num_streaming s
      - int (length (filter (\<lambda>rid. status_of s rid = Some WAITING_FOR_STREAMING_REQ) valid))\<rparr>"
  define s2 where "s2 = (if fr \<noteq> [] then s1\<lparr>sd_running := remove_all (sd_running s1) fr\<rparr> else s1)"
  define s3 where "s3 = (if fw \<noteq> []
              then s2\<lparr>sd_waiting := rq_remove_all (id_less env s2) (set fw) (sd_waiting s2),
                     sd_skipped := rq_remove_all (id_less env s2) (set fw) (sd_skipped s2)\<rparr> else s2)"
  from a show v: "valid = valid_requests (case ids of None \<Rightarrow> map fst (sd_requests s) | Some xs \<Rightarrow> xs) s"
    by (auto simp: finish_requests_def ebind_eq_Inr Let_def)
  have f: "foldE (finish_one env st) valid s3 = Inr s'"
    using a unfolding finish_requests_def ebind_eq_Inr Let_def v [symmetric] fr_def [symmetric] fw_def [symmetric]
    by (auto simp: s3_def s2_def s1_def)
  have k3: "keyed s3" using pl by (simp add: s3_def s2_def s1_def placed_def)
  note m = finish_all_moves [OF f k3]
  have p3: "place_of s3 = place_of s" "sd_config s3 = sd_config s" "sd_prev_ids s3 = sd_prev_ids s" "sd_pause s3 = sd_pause s"
    "sd_requests s3 = sd_requests s"
    by (simp_all add: s3_def s2_def s1_def)
  have d: "distinct (sd_running s)" by (rule placed_distinct [OF pl])
  have run: "x \<in> set fr \<longleftrightarrow> x \<in> set valid" if "x \<in> set (sd_running s)" for x
    using that placed_running [OF pl, of x] by (simp add: fr_def place_of_status)
  have wait: "x \<in> set fw \<longleftrightarrow> x \<in> set valid" if "x \<in># queued s" for x
    using that placed_queued [OF pl, of x] by (simp add: fw_def place_of_status)
  have r3: "sd_running s3 = filter (\<lambda>x. x \<notin> set valid) (sd_running s)"
  proof -
    have "sd_running s3 = filter (\<lambda>x. x \<notin> set fr) (sd_running s)" using d by (auto simp: s3_def s2_def s1_def remove_all_eq)
    also have "\<dots> = filter (\<lambda>x. x \<notin> set valid) (sd_running s)" using run by (intro filter_cong) auto
    finally show ?thesis .
  qed
  then show "sd_running s' = filter (\<lambda>x. x \<notin> set valid) (sd_running s)" using m by simp
  have w3: "mset (rq_items (sd_waiting s3)) = filter_mset (\<lambda>x. x \<notin> set fw) (mset (rq_items (sd_waiting s)))"
    "mset (rq_items (sd_skipped s3)) = filter_mset (\<lambda>x. x \<notin> set fw) (mset (rq_items (sd_skipped s)))"
    by (simp_all add: s3_def s2_def s1_def)
  have c: "filter_mset (\<lambda>x. x \<notin> set fw) q = filter_mset (\<lambda>x. x \<notin> set valid) q" if "q \<subseteq># queued s" for q
    using wait that by (intro filter_mset_cong refl) (meson mset_subset_eqD)
  have w: "mset (rq_items (sd_waiting s')) = filter_mset (\<lambda>x. x \<notin> set valid) (mset (rq_items (sd_waiting s)))"
    "mset (rq_items (sd_skipped s')) = filter_mset (\<lambda>x. x \<notin> set valid) (mset (rq_items (sd_skipped s)))"
    using w3 m c [of "mset (rq_items (sd_waiting s))"] c [of "mset (rq_items (sd_skipped s))"] by (simp_all add: queued_def)
  then show "mset (rq_items (sd_waiting s')) = filter_mset (\<lambda>x. x \<notin> set valid) (mset (rq_items (sd_waiting s)))" by simp
  show "place_of s' = (\<lambda>x. if x \<in> set valid then Nowhere else place_of s x)" using m p3 by (simp cong: if_cong)
  then show "placed s'" using pl m r3 w by (auto simp: placed_def in_place_def queued_def)
  show "sd_config s' = sd_config s" "sd_prev_ids s' = sd_prev_ids s" "sd_pause s' = sd_pause s"
    "x \<notin> set valid \<Longrightarrow> map_of (sd_requests s') x = map_of (sd_requests s) x" using m p3 by simp_all
qed

subsection \<open>The result of the model\<close>

text \<open>What new tokens change of a request.\<close>

definition grown :: "request \<Rightarrow> request \<Rightarrow> bool" where
  "grown r r' \<longleftrightarrow> (\<exists>ots ats hs st sr. r' = r\<lparr>output_token_ids := ots, all_token_ids := ats, block_hashes := hs, status := st, rq_stop_reason := sr\<rparr>)"

lemma grown_fields:
  assumes "grown r r'"
  shows "request_id r' = request_id r" "resumable r' = resumable r" "num_computed_tokens r' = num_computed_tokens r"
    "streaming_queue r' = streaming_queue r" "num_output_placeholders r' = num_output_placeholders r"
    "num_prompt_tokens r' = num_prompt_tokens r" "spec_token_ids r' = spec_token_ids r" "mm_features r' = mm_features r"
    "rq_sampling_params r' = rq_sampling_params r" "rq_pooling_params r' = rq_pooling_params r" "max_tokens r' = max_tokens r"
    "structured_output_request r' = structured_output_request r" "is_prefill_chunk r' = is_prefill_chunk r"
    "num_preemptions r' = num_preemptions r" "lora_req r' = lora_req r"
  using assms by (auto simp: grown_def)

lemma grown_refl: "grown r r"
  unfolding grown_def
  by (rule exI [of _ "output_token_ids r"], rule exI [of _ "all_token_ids r"], rule exI [of _ "block_hashes r"],
      rule exI [of _ "status r"], rule exI [of _ "rq_stop_reason r"]) simp

lemma grown_trans: "grown r r1 \<Longrightarrow> grown r1 r2 \<Longrightarrow> grown r r2"
  unfolding grown_def by (elim exE) (simp, blast)

lemma append_output_grown:
  assumes "append_output_token_ids h ts r = Inr r'"
  shows "grown r r' \<and> status r' = status r"
proof -
  obtain hs where "r' = r\<lparr>output_token_ids := output_token_ids r @ ts, all_token_ids := all_token_ids r @ ts, block_hashes := hs\<rparr>"
    using assms by (cases h; cases r) (auto simp: append_output_token_ids_def update_block_hashes_def ebind_eq_Inr)
  then show ?thesis unfolding grown_def by (cases r) auto
qed

lemma check_stop_grown:
  assumes "check_stop r m = Inr (b, r')"
  shows "grown r r' \<and> (if b then is_finished r' else r' = r)"
proof -
  have v: "if b then is_finished r' else r' = r" using check_stop_verdict [OF assms] by (auto split: if_splits)
  have "\<exists>st sr. r' = r\<lparr>status := st, rq_stop_reason := sr\<rparr>"
    using assms by (cases r) (auto simp: check_stop_def returned)
  then show ?thesis using v unfolding grown_def by (cases r) auto
qed

lemma output_loop_grown:
  "output_loop h m kept ts r = Inr (ids, stopped, r') \<Longrightarrow> grown r r' \<and> (if stopped then is_finished r' else status r' = status r)"
proof (induction h m kept ts r rule: output_loop.induct)
  case (1 h m kept r)
  then show ?case by (auto intro: grown_refl)
next
  case (2 h m kept t ts r)
  then obtain r1 b r2 where a: "append_output_token_ids h [t] r = Inr r1" "check_stop r1 m = Inr (b, r2)"
    and rest: "(if b then Inr (kept @ [t], True, r2) else output_loop h m (kept @ [t]) ts r2) = Inr (ids, stopped, r')"
    by (auto simp: ebind_eq_Inr)
  note g = append_output_grown [OF a(1)] check_stop_grown [OF a(2)]
  have g2: "grown r r2" using g grown_trans by blast
  show ?case
  proof (cases b)
    case True
    then show ?thesis using rest g g2 by auto
  next
    case False
    then have "grown r2 r' \<and> (if stopped then is_finished r' else status r' = status r2)"
      using 2(1) [OF a(1) a(2) [symmetric, THEN sym] refl] rest a by auto
    then show ?thesis using False g grown_trans [OF g2] by auto
  qed
qed

text \<open>An operation that moves at most this request, and only off or between the queues.\<close>

definition only_at :: "string \<Rightarrow> scheduler \<Rightarrow> scheduler \<Rightarrow> bool" where
  "only_at rid s s' \<longleftrightarrow> (keyed s \<longrightarrow> keyed s') \<and> sd_running s' = sd_running s \<and> sd_waiting s' = sd_waiting s
     \<and> sd_skipped s' = sd_skipped s \<and> sd_config s' = sd_config s \<and> sd_prev_ids s' = sd_prev_ids s \<and> sd_pause s' = sd_pause s
     \<and> (\<forall>x. x \<noteq> rid \<longrightarrow> map_of (sd_requests s') x = map_of (sd_requests s) x)"

lemma only_at_refl [simp]: "only_at rid s s"
  by (simp add: only_at_def)

lemma only_at_trans: "only_at rid s s1 \<Longrightarrow> only_at rid s1 s2 \<Longrightarrow> only_at rid s s2"
  by (auto simp: only_at_def)

lemma only_at_put: "request_id r = rid \<Longrightarrow> only_at rid s (put_req r s)"
  by (simp add: only_at_def)

lemma only_at_kv [simp]: "only_at rid s (s'\<lparr>sd_kv := kv\<rparr>) = only_at rid s s'" "only_at rid (s\<lparr>sd_kv := kv\<rparr>) s' = only_at rid s s'"
  by (simp_all add: only_at_def)

lemma only_at_place: "only_at rid s s' \<Longrightarrow> x \<noteq> rid \<Longrightarrow> place_of s' x = place_of s x"
  by (simp add: only_at_def place_of_def)

lemma account_drafts_moves:
  assumes "account_drafts out rid gen u s = Inr (u', s')" "keyed s" "map_of (sd_requests s) rid = Some r"
  shows "only_at rid s s'" "us_stopped_running u' = us_stopped_running u" "us_stopped_preempted u' = us_stopped_preempted u"
    "us_outputs u' = us_outputs u"
    "\<exists>n. map_of (sd_requests s') rid = Some (reject_drafts n r) \<or> map_of (sd_requests s') rid = Some r"
  using assms keyedD [of s rid r]
  by (auto simp: account_drafts_def returned reject_drafts_def intro!: only_at_put)

text \<open>The request after its output was taken; \<open>b\<close> tells whether it has stopped.\<close>

definition taken :: "bool \<Rightarrow> request \<Rightarrow> request \<Rightarrow> bool" where
  "taken b r r' \<longleftrightarrow> request_id r' = request_id r \<and> resumable r' = resumable r \<and> streaming_queue r' = streaming_queue r
     \<and> (if b then is_finished r' else status r' = status r)"

lemma take_output_put:
  assumes a: "take_output env rid gen po s = Inr (ids, stopped, s')" and r: "map_of (sd_requests s) rid = Some r"
  shows "(\<exists>kv r'. s' = put_req r' (s\<lparr>sd_kv := kv\<rparr>) \<and> taken stopped r r') \<or> s' = s \<and> \<not> stopped"
proof (cases "gen = []")
  case True
  then have "s' = put_req (r\<lparr>status := FINISHED_STOPPED\<rparr>) (s\<lparr>sd_kv := sd_kv s\<rparr>) \<and> stopped \<or> s' = s \<and> \<not> stopped"
    using a r by (auto simp: take_output_def get_req_def split: if_splits)
  moreover have "stopped \<longrightarrow> taken stopped r (r\<lparr>status := FINISHED_STOPPED\<rparr>)"
    by (simp add: taken_def is_finished_def status_is_finished_def less_request_status_def)
  ultimately show ?thesis by blast
next
  case False
  then have u: "update_request_with_output env rid gen s = Inr (ids, stopped, s')" using a r by (simp add: take_output_def get_req_def)
  have loop: "taken stopped r (r'\<lparr>num_output_placeholders := n\<rparr>)" "taken stopped r r'"
    if "output_loop (se_hasher env) (max_model_len (sd_config s)) [] gen r = Inr (ids, stopped, r')" for r' n
    using output_loop_grown [OF that] grown_fields [of r r'] by (auto simp: taken_def is_finished_def)
  show ?thesis
  proof (cases "async_scheduling (sd_config s)")
    case as: True
    show ?thesis
    proof (cases "discard_latest_async_tokens r")
      case True
      then have "s' = put_req (r\<lparr>discard_latest_async_tokens := False\<rparr>) (s\<lparr>sd_kv := sd_kv s\<rparr>) \<and> \<not> stopped"
        using u as r by (auto simp: update_request_with_output_def get_req_def)
      moreover have "\<not> stopped \<longrightarrow> taken stopped r (r\<lparr>discard_latest_async_tokens := False\<rparr>)" by (simp add: taken_def)
      ultimately show ?thesis by blast
    next
      case False
      with u as r obtain r' kv where l: "output_loop (se_hasher env) (max_model_len (sd_config s)) [] gen r = Inr (ids, stopped, r')"
        and s': "s' = put_req (r'\<lparr>num_output_placeholders := num_output_placeholders r' - int (length ids)\<rparr>) (s\<lparr>sd_kv := kv\<rparr>)"
        by (auto simp: update_request_with_output_def ebind_eq_Inr Let_def)
      then show ?thesis using loop(1) [OF l] by blast
    qed
  next
    case False
    with u r obtain r' where l: "output_loop (se_hasher env) (max_model_len (sd_config s)) [] gen r = Inr (ids, stopped, r')"
      and s': "s' = put_req r' (s\<lparr>sd_kv := sd_kv s\<rparr>)"
      by (auto simp: update_request_with_output_def ebind_eq_Inr)
    then show ?thesis using loop(2) [OF l] by blast
  qed
qed

lemma take_output_moves:
  assumes a: "take_output env rid gen po s = Inr (ids, stopped, s')" and k: "keyed s" and r: "map_of (sd_requests s) rid = Some r"
  shows "only_at rid s s' \<and> (\<exists>r'. map_of (sd_requests s') rid = Some r' \<and> taken stopped r r')"
proof -
  have id: "request_id r = rid" by (rule keyedD [OF k r])
  from take_output_put [OF a r] show ?thesis
  proof (elim disjE exE conjE)
    fix kv r' assume s': "s' = put_req r' (s\<lparr>sd_kv := kv\<rparr>)" and t: "taken stopped r r'"
    then show ?thesis using id only_at_put [of r' rid "s\<lparr>sd_kv := kv\<rparr>"] by (simp add: taken_def)
  next
    assume "s' = s" "\<not> stopped"
    then show ?thesis using r by (simp add: taken_def)
  qed
qed

end
