(* ===== verification/Sched_Results.thy ===== *)
theory Sched_Results
  imports Sched_Finish
begin

text \<open>
  \<open>Scheduler.update_from_output\<close>: while the loop over the scheduled requests runs, a stopped request stays on its list or
  queue until all are removed at once (\<open>updating\<close>); afterwards every request is in its place again.
\<close>

lemma ebind_InrE:
  assumes "ebind m f = Inr y"
  obtains x where "m = Inr x" "f x = Inr y"
  using assms by (cases m) auto

text \<open>
  While the results are taken in: a stopped request stays on the running list, or in the waiting queue if it was
  preempted, until the end.
\<close>

definition updating :: "update_step \<Rightarrow> scheduler \<Rightarrow> bool" where
  "updating u s \<longleftrightarrow> keyed s \<and> distinct (sd_running s)
     \<and> (\<forall>x. x \<in> set (sd_running s) \<longleftrightarrow> place_of s x = Running \<or> x \<in> set (us_stopped_running u))
     \<and> (\<forall>x \<in> set (us_stopped_running u). place_of s x \<noteq> Running)
     \<and> (\<forall>x. count (queued s) x = of_bool (place_of s x = Queued \<or> x \<in> set (us_stopped_preempted u)))
     \<and> (\<forall>x \<in> set (us_stopped_preempted u). place_of s x = Nowhere \<and> x \<in> set (rq_items (sd_waiting s)))"

text \<open>
  A request of the batch that was preempted in the meantime waits in the waiting queue, and is not a
  streaming session.
\<close>

definition in_flight :: "string \<Rightarrow> scheduler \<Rightarrow> bool" where
  "in_flight rid s \<longleftrightarrow> (place_of s rid = Queued \<longrightarrow> rid \<in> set (rq_items (sd_waiting s)) \<and> \<not> session s rid)"

lemma updating_same:
  assumes "updating u s" "only_at rid s s'" "place_of s' rid = place_of s rid"
    "us_stopped_running u' = us_stopped_running u" "us_stopped_preempted u' = us_stopped_preempted u"
  shows "updating u' s'" 
proof -
  have "place_of s' x = place_of s x" for x using only_at_place [OF assms(2), of x] assms(3) by (cases "x = rid") auto
  then have "place_of s' = place_of s" ..
  then show ?thesis using assms by (simp add: updating_def only_at_def queued_def)
qed

lemma in_flight_same: "only_at rid s s' \<Longrightarrow> x \<noteq> rid \<Longrightarrow> in_flight x s' = in_flight x s"
  by (simp add: in_flight_def only_at_def place_of_def session_def)

lemma enqueue_adds:
  assumes "r' = enqueue_waiting_request env r s"
  shows "queued r' = add_mset (request_id r) (queued s)" "sd_requests r' = sd_requests s" "sd_running r' = sd_running s"
    "sd_config r' = sd_config s" "sd_prev_ids r' = sd_prev_ids s" "sd_pause r' = sd_pause s"
    "set (rq_items (sd_waiting s)) \<subseteq> set (rq_items (sd_waiting r'))"
    "\<not> is_blocked_waiting_status (status r) \<Longrightarrow> sd_waiting r' = rq_add (id_less env s) (request_id r) (sd_waiting s)
       \<and> sd_skipped r' = sd_skipped s"
    "is_blocked_waiting_status (status r) \<Longrightarrow> sd_skipped r' = rq_add (id_less env s) (request_id r) (sd_skipped s)
       \<and> sd_waiting r' = sd_waiting s"
proof -
  have w: "set (rq_items (rq_add lt x q)) = insert x (set (rq_items q))" for lt x and q :: "string request_queue"
    by (metis rq_add_mset set_mset_add_mset_insert set_mset_mset)
  show "queued r' = add_mset (request_id r) (queued s)" "sd_requests r' = sd_requests s" "sd_running r' = sd_running s"
    "sd_config r' = sd_config s" "sd_prev_ids r' = sd_prev_ids s" "sd_pause r' = sd_pause s"
    "set (rq_items (sd_waiting s)) \<subseteq> set (rq_items (sd_waiting r'))"
    "\<not> is_blocked_waiting_status (status r) \<Longrightarrow> sd_waiting r' = rq_add (id_less env s) (request_id r) (sd_waiting s)
       \<and> sd_skipped r' = sd_skipped s"
    "is_blocked_waiting_status (status r) \<Longrightarrow> sd_skipped r' = rq_add (id_less env s) (request_id r) (sd_skipped s)
       \<and> sd_waiting r' = sd_waiting s"
    by (auto simp: assms enqueue_waiting_request_def queued_def w)
qed

lemma session_request_fields:
  assumes "session_request h u r = Inr r'"
  shows "request_id r' = request_id r" "status r' = WAITING" "resumable r' = resumable r"
  using assms by (auto simp: session_request_def returned update_block_hashes_def split: option.splits)

text \<open>A stopped request has really finished, or it is a session that waits for more input.\<close>

lemma handle_stopped_moves:
  assumes a: "handle_stopped_request env rid s = Inr (b, s')" and k: "keyed s" and r: "map_of (sd_requests s) rid = Some r"
  shows "if b then only_at rid s s' \<and> place_of s' rid = place_of s rid
    else resumable r \<and> keyed s' \<and> place_of s' = (place_of s)(rid := Queued) \<and> queued s' = add_mset rid (queued s)
      \<and> sd_running s' = sd_running s \<and> sd_config s' = sd_config s \<and> sd_prev_ids s' = sd_prev_ids s \<and> sd_pause s' = sd_pause s
      \<and> set (rq_items (sd_waiting s)) \<subseteq> set (rq_items (sd_waiting s'))
      \<and> (\<forall>x. x \<noteq> rid \<longrightarrow> map_of (sd_requests s') x = map_of (sd_requests s) x)"
proof -
  have id: "request_id r = rid" by (rule keyedD [OF k r])
  have queue: "keyed s' \<and> place_of s' = (place_of s)(rid := Queued) \<and> queued s' = add_mset rid (queued s)
      \<and> sd_running s' = sd_running s \<and> sd_config s' = sd_config s \<and> sd_prev_ids s' = sd_prev_ids s \<and> sd_pause s' = sd_pause s
      \<and> set (rq_items (sd_waiting s)) \<subseteq> set (rq_items (sd_waiting s'))
      \<and> (\<forall>x. x \<noteq> rid \<longrightarrow> map_of (sd_requests s') x = map_of (sd_requests s) x)"
    if e: "s' = enqueue_waiting_request env r' s1" and s1: "only_at rid s s1" "place_of s1 rid = Queued" "request_id r' = rid" for r' s1
  proof -
    note q = enqueue_adds [OF e]
    have "place_of s1 = (place_of s)(rid := Queued)" using only_at_place [OF s1(1)] s1(2) by (auto simp: fun_eq_iff)
    then show ?thesis using q(1-7) same_requests [OF q(2)] s1 k by (auto simp: only_at_def queued_def)
  qed
  show ?thesis
  proof (cases "resumable r")
    case False
    then show ?thesis using a r by (auto simp: handle_stopped_request_def get_req_def)
  next
    case res: True
    show ?thesis
    proof (cases "case streaming_queue r of None \<Rightarrow> [] | Some q \<Rightarrow> q")
      case Nil
      let ?r = "r\<lparr>status := WAITING_FOR_STREAMING_REQ\<rparr>"
      let ?s = "put_req ?r (s\<lparr>sd_num_streaming := sd_num_streaming s + 1\<rparr>)"
      have nb: "\<not> b" and e: "s' = enqueue_waiting_request env ?r ?s" using a r res Nil by (auto simp: handle_stopped_request_def get_req_def Let_def)
      have o: "only_at rid s ?s" and p: "place_of ?s rid = Queued" and i: "request_id ?r = rid" using id by (auto simp: only_at_def)
      show ?thesis unfolding if_not_P [OF nb] by (rule conjI [OF res queue [OF e o p i]])
    next
      case (Cons x q)
      let ?r = "r\<lparr>streaming_queue := Some q\<rparr>"
      have o: "only_at rid s (put_req ?r s)" by (rule only_at_put) (simp add: id)
      show ?thesis
      proof (cases x)
        case None
        then have "b" "s' = put_req ?r s" using a r res Cons by (auto simp: handle_stopped_request_def get_req_def Let_def)
        then show ?thesis using o id r by (simp add: place_of_def)
      next
        case (Some u)
        have g: "get_req rid s = Inr r" using r by simp
        have "ebind (update_request_as_session env ?r u (put_req ?r s))
            (\<lambda>s. ebind (get_req rid s) (\<lambda>r. Inr (False, enqueue_waiting_request env r s))) = Inr (b, s')"
          using a res Cons Some unfolding handle_stopped_request_def g by (simp add: Let_def)
        then obtain s1 where u1: "update_request_as_session env ?r u (put_req ?r s) = Inr s1"
          and "ebind (get_req rid s1) (\<lambda>r. Inr (False, enqueue_waiting_request env r s1)) = Inr (b, s')"
          by (rule ebind_InrE)
        then obtain r1 where r1: "get_req rid s1 = Inr r1" and e1: "Inr (False, enqueue_waiting_request env r1 s1) = (Inr (b, s') :: (bool \<times> scheduler) result)"
          by (elim ebind_InrE)
        have s1: "update_request_as_session env ?r u (put_req ?r s) = Inr s1" "map_of (sd_requests s1) rid = Some r1" "\<not> b"
          "s' = enqueue_waiting_request env r1 s1" using u1 r1 e1 by simp_all
        from s1(1) obtain r' where r': "session_request (se_hasher env) u ?r = Inr r'"
          and e0: "Inr (put_req r' (if status ?r = WAITING_FOR_STREAMING_REQ
            then (put_req ?r s)\<lparr>sd_num_streaming := sd_num_streaming (put_req ?r s) - 1\<rparr> else put_req ?r s)) = (Inr s1 :: scheduler result)"
          unfolding update_request_as_session_def by (elim ebind_InrE)
        define s2 where "s2 = (if status ?r = WAITING_FOR_STREAMING_REQ
            then (put_req ?r s)\<lparr>sd_num_streaming := sd_num_streaming (put_req ?r s) - 1\<rparr> else put_req ?r s)"
        have e: "s1 = put_req r' s2" using e0 by (simp only: s2_def sum.inject)
        have o2: "only_at rid s s2" using o by (simp add: s2_def only_at_def)
        note f = session_request_fields [OF r']
        have f1: "request_id r' = rid" using f id by simp
        have "only_at rid s s1" unfolding e using only_at_trans [OF o2] only_at_put [OF f1] by blast
        moreover have "place_of s1 rid = Queued" "request_id r1 = rid" using e s1(2) f f1 by auto
        ultimately show ?thesis unfolding if_not_P [OF s1(3)] using queue [OF s1(4)] by (intro conjI [OF res]) blast
      qed
    qed
  qed
qed

lemma note_output_moves:
  assumes "note_output env mo rid ids po stopped fr r u s = Inr (u', s')"
  obtains nans os where "u' = u\<lparr>us_outputs := os\<rparr>"
    "s' = (case map_of (sd_requests s) rid of None \<Rightarrow> s | Some r \<Rightarrow> put_req (r\<lparr>num_nans_in_logits := nans\<rparr>) s)"
proof -
  have "u' = u\<lparr>us_outputs := us_outputs u'\<rparr>"
    using assms by (cases u) (auto simp: note_output_def returned)
  moreover have "s' = (case map_of (sd_requests s) rid of None \<Rightarrow> s
      | Some x \<Rightarrow> put_req (x\<lparr>num_nans_in_logits := (case map_of (mo_num_nans mo) rid of None \<Rightarrow> num_nans_in_logits r | Some k \<Rightarrow> k)\<rparr>) s)"
    using assms by (auto simp: note_output_def ebind_eq_Inr Let_def split: if_splits)
  ultimately show ?thesis by (rule that)
qed

lemma update_one_cases:
  assumes "update_one env out mo failed (rid, n) (u, s) = Inr (u', s')"
  obtains (ignored) "rid \<in> failed \<or> place_of s rid = Nowhere" "u' = u" "s' = s"
  | (taken) r0 gen po u1 s1 r1 ids stopped s2 u3 s3 fr r where
      "rid \<notin> failed" "map_of (sd_requests s) rid = Some r0" "\<not> is_finished r0"
      "account_drafts out rid gen u s = Inr (u1, s1)" "map_of (sd_requests s1) rid = Some r1"
      "take_output env rid gen po s1 = Inr (ids, stopped, s2)"
      "(if stopped then stop_request env rid (status r1) u1 s2 else Inr (u1, s2)) = Inr (u3, s3)"
      "note_output env mo rid ids po stopped fr r u3 s3 = Inr (u', s')"
proof (cases "rid \<in> failed \<or> (case map_of (sd_requests s) rid of None \<Rightarrow> True | Some r \<Rightarrow> is_finished r)")
  case True
  then have "u' = u" "s' = s" using assms by (auto simp: update_one_def ebind_eq_Inr)
  moreover have "rid \<in> failed \<or> place_of s rid = Nowhere" using True by (auto simp: place_of_def is_finished_def split: option.splits)
  ultimately show ?thesis by (intro ignored)
next
  case False
  then obtain r0 where r0: "rid \<notin> failed" "map_of (sd_requests s) rid = Some r0" "\<not> is_finished r0" by (auto split: option.splits)
  show ?thesis
    using assms False unfolding update_one_def prod.case Let_def
    by (elim ebind_InrE) (simp only: if_False, elim ebind_InrE, auto elim!: ebind_InrE simp del: if_split intro: taken [OF r0])
qed

lemma stop_request_cases:
  assumes "stop_request env rid before u s = Inr (u', s')"
  obtains b s1 where "handle_stopped_request env rid s = Inr (b, s1)"
    "(if b then free_request env False rid s1 else Inr s1) = Inr s'"
    "u' = (if before = RUNNING then u\<lparr>us_stopped_running := us_stopped_running u @ [rid]\<rparr>
           else u\<lparr>us_stopped_preempted := us_stopped_preempted u @ [rid]\<rparr>)"
  using assms unfolding stop_request_def by (elim ebind_InrE) (auto elim!: ebind_InrE simp del: if_split)

text \<open>Where a request is after it was stopped: nowhere, or queued again.\<close>

lemma stop_request_moves:
  assumes a: "stop_request env rid before u s = Inr (u', s')" and k: "keyed s" and r: "map_of (sd_requests s) rid = Some r"
    and fin: "is_finished r"
  shows "keyed s' \<and> sd_running s' = sd_running s \<and> sd_config s' = sd_config s \<and> sd_prev_ids s' = sd_prev_ids s \<and> sd_pause s' = sd_pause s
    \<and> (\<forall>x. x \<noteq> rid \<longrightarrow> map_of (sd_requests s') x = map_of (sd_requests s) x)
    \<and> set (rq_items (sd_waiting s)) \<subseteq> set (rq_items (sd_waiting s'))
    \<and> (place_of s' rid = Nowhere \<and> queued s' = queued s \<or> resumable r \<and> place_of s' rid = Queued \<and> queued s' = add_mset rid (queued s))"
proof -
  from a obtain b s1 where h: "handle_stopped_request env rid s = Inr (b, s1)" and f: "(if b then free_request env False rid s1 else Inr s1) = Inr s'"
    by (rule stop_request_cases)
  note m = handle_stopped_moves [OF h k r]
  show ?thesis
  proof (cases b)
    case True
    then have o: "only_at rid s s1" and fr: "free_request env False rid s1 = Inr s'" using m f by auto
    note g = free_request_moves [OF fr]
    have p: "place_of s' rid = Nowhere" using g(5,6) by simp
    have "map_of (sd_requests s') x = map_of (sd_requests s) x" if "x \<noteq> rid" for x using g(10) [OF that] o that by (simp add: only_at_def)
    then show ?thesis using o g(1-9) p k by (simp add: only_at_def queued_def)
  next
    case False
    then show ?thesis using m f by simp
  qed
qed

lemma place_from_req:
  "map_of (sd_requests s) x = map_of (sd_requests t) x \<Longrightarrow> place_of s x = place_of t x"
  by (simp add: place_of_def)

lemma in_flight_kept:
  assumes "in_flight x s" "map_of (sd_requests s') x = map_of (sd_requests s) x"
    "set (rq_items (sd_waiting s)) \<subseteq> set (rq_items (sd_waiting s'))"
  shows "in_flight x s'"
  using assms place_from_req [OF assms(2)] by (auto simp: in_flight_def session_def)

lemma update_one_updating:
  assumes a: "update_one env out mo failed (rid, n) (u, s) = Inr (u', s')" and up: "updating u s" and fl: "in_flight rid s"
    and new: "rid \<notin> set (us_stopped_running u)" "rid \<notin> set (us_stopped_preempted u)"
  shows "updating u' s' \<and> sd_running s' = sd_running s \<and> sd_config s' = sd_config s \<and> sd_prev_ids s' = sd_prev_ids s \<and> sd_pause s' = sd_pause s
    \<and> set (us_stopped_running u') \<subseteq> insert rid (set (us_stopped_running u))
    \<and> set (us_stopped_preempted u') \<subseteq> insert rid (set (us_stopped_preempted u))
    \<and> (\<forall>x. x \<noteq> rid \<longrightarrow> in_flight x s \<longrightarrow> in_flight x s')"
  using a
proof (cases rule: update_one_cases)
  case ignored
  then show ?thesis using up by auto
next
  case (taken r0 gen po u1 s1 r1 ids stopped s2 u3 s3 fr r)
  have k: "keyed s" using up by (simp add: updating_def)
  note ad = account_drafts_moves [OF taken(4) k taken(2)]
  have k1: "keyed s1" using ad(1) k by (simp add: only_at_def)
  obtain r2 where to: "only_at rid s1 s2" "map_of (sd_requests s2) rid = Some r2" "taken stopped r1 r2"
    using take_output_moves [OF taken(6) k1 taken(5)] by blast
  have o2: "only_at rid s s2" by (rule only_at_trans [OF ad(1) to(1)])
  have k2: "keyed s2" using o2 k by (simp add: only_at_def)
  have r1: "status r1 = status r0" "resumable r1 = resumable r0" using ad(5) taken(5) by (auto simp: reject_drafts_def)
  have res: "resumable r2 = resumable r0" using to(3) r1 by (simp add: taken_def)
  have waiting: "set (rq_items (sd_waiting s2)) = set (rq_items (sd_waiting s))" using o2 by (simp add: only_at_def)
  obtain nans os where n: "u' = u3\<lparr>us_outputs := os\<rparr>"
    "s' = (case map_of (sd_requests s3) rid of None \<Rightarrow> s3 | Some r \<Rightarrow> put_req (r\<lparr>num_nans_in_logits := nans\<rparr>) s3)"
    by (rule note_output_moves [OF taken(8)])
  have last: "only_at rid s3 s' \<and> place_of s' = place_of s3" if "keyed s3"
    using n(2) keyedD [OF that, of rid] by (auto simp: only_at_def place_of_def fun_eq_iff split: option.splits)
  show ?thesis
  proof (cases stopped)
    case False
    then have e: "u3 = u1" "s3 = s2" using taken(7) by auto
    have o: "only_at rid s s'" using only_at_trans [OF o2] last k2 e by blast
    have "status r2 = status r0" using to(3) r1 False by (simp add: taken_def)
    then have "place_of s2 rid = place_of s rid" using to(2) taken(2) by (simp add: place_of_def)
    then have p: "place_of s' rid = place_of s rid" using last k2 e by simp
    have "updating u' s'" by (rule updating_same [OF up o p]) (use ad(2,3) n(1) e in auto)
    moreover have "sd_running s' = sd_running s \<and> sd_config s' = sd_config s \<and> sd_prev_ids s' = sd_prev_ids s \<and> sd_pause s' = sd_pause s" using o by (simp add: only_at_def)
    ultimately show ?thesis using ad(2,3) n(1) e in_flight_same [OF o] by auto
  next
    case True
    then have st: "stop_request env rid (status r1) u1 s2 = Inr (u3, s3)" and fin: "is_finished r2" using taken(7) to(3) by (auto simp: taken_def)
    note m = stop_request_moves [OF st k2 to(2) fin]
    have k3: "keyed s3" using m by blast
    note l = last [OF k3]
    have pl: "place_of s' x = place_of s x" if "x \<noteq> rid" for x
      using l m only_at_place [OF o2 that] that place_from_req [of s3 x s2] by simp
    have reqs: "map_of (sd_requests s') x = map_of (sd_requests s) x" if "x \<noteq> rid" for x
      using l m o2 that by (simp add: only_at_def)
    have u3: "u3 = (if status r0 = RUNNING then u1\<lparr>us_stopped_running := us_stopped_running u1 @ [rid]\<rparr>
           else u1\<lparr>us_stopped_preempted := us_stopped_preempted u1 @ [rid]\<rparr>)"
      using stop_request_cases [OF st] r1 by metis
    have lists: "us_stopped_running u' = us_stopped_running u @ (if status r0 = RUNNING then [rid] else [])"
      "us_stopped_preempted u' = us_stopped_preempted u @ (if status r0 = RUNNING then [] else [rid])"
      using u3 n(1) ad(2,3) by simp_all
    have wait: "set (rq_items (sd_waiting s)) \<subseteq> set (rq_items (sd_waiting s'))" using l m waiting by (simp add: only_at_def)
    have p0: "place_of s rid = (if status r0 = RUNNING then Running else Queued)"
      using taken(2,3) by (simp add: place_of_def status_place_def is_finished_def)
    have q: "place_of s' rid = Nowhere \<and> queued s' = queued s
        \<or> status r0 = RUNNING \<and> place_of s' rid = Queued \<and> queued s' = add_mset rid (queued s)"
      using l m o2 fl p0 taken(2) res by (auto simp: only_at_def queued_def in_flight_def session_def split: if_splits)
    have run: "sd_running s' = sd_running s" using l m o2 by (simp add: only_at_def)
    have "updating u' s'"
      unfolding updating_def
    proof (intro conjI allI ballI)
      show "keyed s'" "distinct (sd_running s')" using l k3 up run by (simp_all add: only_at_def updating_def)
      fix x
      show "x \<in> set (sd_running s') \<longleftrightarrow> place_of s' x = Running \<or> x \<in> set (us_stopped_running u')"
        using up pl [of x] q p0 lists run new by (cases "x = rid") (auto simp: updating_def)
      show "place_of s' x \<noteq> Running" if "x \<in> set (us_stopped_running u')"
        using that up pl [of x] q lists by (cases "x = rid") (auto simp: updating_def)
      show "count (queued s') x = of_bool (place_of s' x = Queued \<or> x \<in> set (us_stopped_preempted u'))"
        using up pl [of x] q p0 lists new by (cases "x = rid") (auto simp: updating_def)
      show "place_of s' x = Nowhere" "x \<in> set (rq_items (sd_waiting s'))" if "x \<in> set (us_stopped_preempted u')"
        using that up pl [of x] q p0 lists fl wait by (cases "x = rid"; auto simp: updating_def in_flight_def split: if_splits)+
    qed
    moreover have "sd_config s' = sd_config s \<and> sd_prev_ids s' = sd_prev_ids s \<and> sd_pause s' = sd_pause s" using l m o2 by (simp add: only_at_def)
    ultimately show ?thesis using run lists in_flight_kept [OF _ reqs wait] by auto
  qed
qed

lemma update_all_updating:
  assumes "foldE (update_one env out mo failed) toks (u, s) = Inr (u', s')" "updating u s" "\<forall>x \<in> fst ` set toks. in_flight x s"
    "distinct (map fst toks)" "fst ` set toks \<inter> (set (us_stopped_running u) \<union> set (us_stopped_preempted u)) = {}"
  shows "updating u' s' \<and> sd_running s' = sd_running s \<and> sd_config s' = sd_config s \<and> sd_prev_ids s' = sd_prev_ids s \<and> sd_pause s' = sd_pause s"
  using assms
proof (induction toks arbitrary: u s)
  case (Cons t toks)
  obtain rid n where t: "t = (rid, n)" by (cases t)
  from Cons.prems(1) t obtain u1 s1 where o: "update_one env out mo failed (rid, n) (u, s) = Inr (u1, s1)"
    and rest: "foldE (update_one env out mo failed) toks (u1, s1) = Inr (u', s')" by (auto simp: ebind_eq_Inr)
  have new: "rid \<notin> set (us_stopped_running u)" "rid \<notin> set (us_stopped_preempted u)" "in_flight rid s" "rid \<notin> fst ` set toks"
    using Cons.prems t by auto
  note m = update_one_updating [OF o Cons.prems(2) new(3,1,2)]
  have "\<forall>x \<in> fst ` set toks. in_flight x s1" using m Cons.prems(3) new(4) t by auto
  moreover have "fst ` set toks \<inter> (set (us_stopped_running u1) \<union> set (us_stopped_preempted u1)) = {}"
  proof -
    have "fst ` set toks \<inter> (set (us_stopped_running u) \<union> set (us_stopped_preempted u)) = {}" using Cons.prems(5) t by auto
    moreover have "set (us_stopped_running u1) \<subseteq> insert rid (set (us_stopped_running u))"
      "set (us_stopped_preempted u1) \<subseteq> insert rid (set (us_stopped_preempted u))" using m by simp_all
    ultimately show ?thesis using new(4) by blast
  qed
  ultimately show ?case using Cons.IH [OF rest] m Cons.prems(4) by auto
qed simp

lemma remove_stopped_placed:
  assumes "updating u s"
  shows "placed (remove_stopped env u s)" "sd_config (remove_stopped env u s) = sd_config s"
    "sd_prev_ids (remove_stopped env u s) = sd_prev_ids s" "sd_pause (remove_stopped env u s) = sd_pause s"
    "set (sd_running (remove_stopped env u s)) \<subseteq> set (sd_running s)" "sd_requests (remove_stopped env u s) = sd_requests s"
    "length (sd_running (remove_stopped env u s)) \<le> length (sd_running s)"
proof -
  let ?s = "remove_stopped env u s"
  have run: "sd_running ?s = filter (\<lambda>x. x \<notin> set (us_stopped_running u)) (sd_running s)"
    using assms by (auto simp: remove_stopped_def Let_def updating_def remove_all_eq)
  have wait: "mset (rq_items (sd_waiting ?s)) = filter_mset (\<lambda>x. x \<notin> set (us_stopped_preempted u)) (mset (rq_items (sd_waiting s)))"
    "sd_skipped ?s = sd_skipped s"
    by (simp_all add: remove_stopped_def Let_def)
  show req: "sd_requests ?s = sd_requests s" and "sd_config ?s = sd_config s" "sd_prev_ids ?s = sd_prev_ids s" "sd_pause ?s = sd_pause s"
    by (simp_all add: remove_stopped_def Let_def)
  show "set (sd_running ?s) \<subseteq> set (sd_running s)" "length (sd_running ?s) \<le> length (sd_running s)" by (auto simp: run)
  note pr = same_requests [OF req]
  show "placed ?s" unfolding placed_def in_place_def
  proof (intro conjI allI)
    show "keyed ?s" using pr assms by (simp add: updating_def)
    fix x
    have d: "distinct (sd_running s)" using assms by (simp add: updating_def)
    show "count (mset (sd_running ?s)) x = of_bool (place_of ?s x = Running)"
      using assms d by (auto simp: run pr updating_def distinct_count_atmost_1)
    have c: "count (mset (rq_items (sd_waiting s))) x + count (mset (rq_items (sd_skipped s))) x
        = of_bool (place_of s x = Queued \<or> x \<in> set (us_stopped_preempted u))"
      using assms by (simp add: updating_def queued_def)
    show "count (queued ?s) x = of_bool (place_of ?s x = Queued)"
    proof (cases "x \<in> set (us_stopped_preempted u)")
      case True
      then have "place_of s x = Nowhere" "x \<in># mset (rq_items (sd_waiting s))" using assms by (auto simp: updating_def)
      moreover from this have "0 < count (mset (rq_items (sd_waiting s))) x" by (simp only: count_greater_zero_iff)
      moreover have "count (mset (rq_items (sd_waiting s))) x + count (mset (rq_items (sd_skipped s))) x = 1" using c True by simp
      ultimately have "place_of s x = Nowhere" "count (mset (rq_items (sd_skipped s))) x = 0" by linarith+
      then show ?thesis using True by (simp add: queued_def wait pr)
    next
      case False
      then show ?thesis using c by (simp add: queued_def wait pr)
    qed
  qed
qed

lemma invalid_request_turn_still:
  assumes "invalid_request_turn bad ev rid (res, s) = Inr (res', s')"
  shows "still s s'"
proof -
  have fold: "request_id (iv_request (fold (invalid_block_turn bad ev bs n ids) xs v)) = request_id (iv_request v)
      \<and> status (iv_request (fold (invalid_block_turn bad ev bs n ids) xs v)) = status (iv_request v)
      \<and> resumable (iv_request (fold (invalid_block_turn bad ev bs n ids) xs v)) = resumable (iv_request v)" for bs n ids xs v
    by (induction xs arbitrary: v) (auto simp: invalid_block_turn_def Let_def split: prod.splits)
  from assms obtain r where r: "map_of (sd_requests s) rid = Some r" by (auto simp: invalid_request_turn_def ebind_eq_Inr)
  from assms r obtain r' where "s' = put_req r' s" "request_id r' = request_id r" "status r' = status r" "resumable r' = resumable r"
    by (auto simp: invalid_request_turn_def ebind_eq_Inr get_req_def Let_def fold split: option.splits list.splits)
  then show ?thesis using still_put_req [OF still_refl r] by simp
qed

lemma handle_invalid_still:
  assumes "handle_invalid_blocks env ord bad s = Inr (failed, s')"
  shows "still s s'"
proof -
  have upd: "still s s'" if "update_requests_with_invalid_blocks rids bad ev s = Inr (res, s')" for rids ev s res s'
  proof -
    have "still s (snd (res, s'))"
      by (rule foldE_invariant [OF that [unfolded update_requests_with_invalid_blocks_def], where P = "\<lambda>x. still s (snd x)"])
        (auto dest!: invalid_request_turn_still elim: still_trans)
    then show ?thesis by simp
  qed
  from assms show ?thesis unfolding handle_invalid_blocks_def Let_def
    by (elim ebind_InrE) (auto simp: returned dest!: upd intro: still_trans)
qed

lemma kv_xfer_placed:
  assumes "update_from_kv_xfer_finished k s = Inr s'" "placed s"
  shows "placed s' \<and> sd_config s' = sd_config s \<and> sd_running s' = sd_running s \<and> sd_waiting s' = sd_waiting s \<and> sd_prev_ids s' = sd_prev_ids s
    \<and> sd_pause s' = sd_pause s"
proof -
  define P where "P t \<longleftrightarrow> placed t \<and> sd_config t = sd_config s \<and> sd_running t = sd_running s \<and> sd_waiting t = sd_waiting s
    \<and> sd_prev_ids t = sd_prev_ids s \<and> sd_pause t = sd_pause s" for t
  have free: "P t'" if f: "free_request_blocks x t = Inr t'" and P: "P t" for x t t'
    using P free_request_blocks_moves(1-10) [OF f] by (auto simp: P_def placed_def queued_def)
  have r: "P t'" if "recving_turn x t = Inr t'" "P t" for x t t'
    using that free by (auto simp: recving_turn_def returned P_def placed_def queued_def)
  have d: "P t'" if "sending_turn x t = Inr t'" "P t" for x t t'
    using that free by (auto simp: sending_turn_def returned split: if_splits)
  obtain t where f: "foldE recving_turn (kc_finished_recving k) s = Inr t" "foldE sending_turn (kc_finished_sending k) t = Inr s'"
    using assms(1) by (auto simp: update_from_kv_xfer_finished_def ebind_eq_Inr)
  have "P t" by (rule foldE_invariant [OF f(1)]) (use assms(2) r in \<open>auto simp: P_def\<close>)
  have "P s'" by (rule foldE_invariant [OF f(2)]) (use \<open>P t\<close> d in auto)
  then show ?thesis by (simp add: P_def)
qed

lemma make_stats_still: "make_stats sp s = Inr (st, s') \<Longrightarrow> still s s'"
  by (auto simp: make_stats_def Let_def split: prod.splits option.splits if_splits)

lemma fail_loads_placed:
  assumes "fail_loads env ord failed u s = Inr (u', s')" "placed s"
  shows "placed s' \<and> sd_config s' = sd_config s \<and> length (sd_running s') \<le> length (sd_running s) \<and> sd_prev_ids s' = sd_prev_ids s
    \<and> sd_pause s' = sd_pause s"
  using assms finish_requests_moves [OF _ assms(2)]
  by (auto simp: fail_loads_def returned)

lemma placed_updating: "placed s \<Longrightarrow> updating \<lparr>us_outputs = os, us_stopped_running = [], us_stopped_preempted = [], us_spec_stats = sp\<rparr> s"
  using placed_distinct placed_running in_place_at(2) [of "place_of s" "mset (sd_running s)" "queued s"]
  by (auto simp: updating_def placed_def)

text \<open>Every request is in its place again once the results are taken in.\<close>

lemma update_from_output_phase:
  assumes a: "update_from_output env bo io out mo s = Inr (os, ev, st, s')" and pl: "placed s"
    and fl: "\<forall>x \<in> fst ` set (so_num_tokens out). in_flight x s" and d: "distinct (map fst (so_num_tokens out))"
  shows "placed s'" "sd_config s' = sd_config s" "length (sd_running s') \<le> length (sd_running s)" "sd_prev_ids s' = sd_prev_ids s"
    "sd_pause s' = sd_pause s"
proof -
  from a obtain failed s0 u1 s1 u2 s2 s3 kv where
    h: "(case mo_kv_output mo of None \<Rightarrow> Inr ({}, s)
              | Some k \<Rightarrow> if kc_invalid_block_ids k = {} then Inr ({}, s)
                        else handle_invalid_blocks env bo (kc_invalid_block_ids k) s) = Inr (failed, s0)"
    and f: "foldE (update_one env out mo failed) (so_num_tokens out)
              (\<lparr>us_outputs = [], us_stopped_running = [], us_stopped_preempted = [], us_spec_stats = None\<rparr>, s0) = Inr (u1, s1)"
    and l: "fail_loads env io failed u1 (remove_stopped env u1 s1) = Inr (u2, s2)"
    and x: "(case mo_kv_output mo of None \<Rightarrow> Inr s2 | Some k \<Rightarrow> update_from_kv_xfer_finished k s2) = Inr s3"
    and m: "make_stats (us_spec_stats u2) (s3\<lparr>sd_kv := kv\<rparr>) = Inr (st, s')"
    unfolding update_from_output_def by (elim ebind_InrE) (auto simp: split_beta Let_def elim!: ebind_InrE simp del: if_split)
  have s0: "still s s0" using h handle_invalid_still by (auto split: option.splits if_splits)
  have up0: "updating \<lparr>us_outputs = [], us_stopped_running = [], us_stopped_preempted = [], us_spec_stats = None\<rparr> s0"
    by (rule placed_updating [OF still_placed [OF s0 pl]])
  have "\<forall>x \<in> fst ` set (so_num_tokens out). in_flight x s0" using fl s0 pl by (simp add: in_flight_def still_def placed_def)
  note up = update_all_updating [OF f up0 this d]
  have up1: "updating u1 s1" "sd_config s1 = sd_config s" "sd_prev_ids s1 = sd_prev_ids s" "sd_pause s1 = sd_pause s"
    using up s0 by (simp_all add: still_def)
  note rs = remove_stopped_placed [OF up1(1), of env]
  note fp = fail_loads_placed [OF l rs(1)]
  have s3: "placed s3 \<and> sd_config s3 = sd_config s2 \<and> sd_running s3 = sd_running s2 \<and> sd_prev_ids s3 = sd_prev_ids s2 \<and> sd_pause s3 = sd_pause s2"
    using x fp kv_xfer_placed [of _ s2 s3] by (auto split: option.splits)
  have s': "still s3 s'" using make_stats_still [OF m] by simp
  then show "placed s'" using still_placed s3 by blast
  show "sd_config s' = sd_config s" "sd_prev_ids s' = sd_prev_ids s" "sd_pause s' = sd_pause s"
    using s' s3 fp rs up1 by (simp_all add: still_def)
  have "length (sd_running s1) = length (sd_running s)" using up s0 by (simp add: still_def)
  then show "length (sd_running s') \<le> length (sd_running s)" using s' s3 fp rs by (simp add: still_def)
qed

end
