(* ===== verification/Sched_Machine.thy ===== *)
theory Sched_Machine
  imports Sched_Results
begin

text \<open>
  The scheduler as a state machine: the calls of the engine (\<open>sched_moves\<close>), with one batch in flight between \<open>schedule\<close>
  and \<open>update_from_output\<close>, and the invariant \<open>sched_inv\<close> of the reachable states.
\<close>

subsection \<open>Adding, preempting all, resetting\<close>

lemma update_session_still:
  assumes "update_request_as_session env r u s = Inr s'" "map_of (sd_requests s) rid = Some r" "status_place (status r) = Queued" "keyed s"
  shows "keyed s'" "place_of s' = place_of s" "session s' = session s" "queued s' = queued s" "sd_running s' = sd_running s"
    "sd_waiting s' = sd_waiting s" "sd_config s' = sd_config s" "sd_prev_ids s' = sd_prev_ids s" "sd_pause s' = sd_pause s"
proof -
  obtain r' where r': "session_request (se_hasher env) u r = Inr r'"
    and s': "Inr (put_req r' (if status r = WAITING_FOR_STREAMING_REQ then s\<lparr>sd_num_streaming := sd_num_streaming s - 1\<rparr> else s)) = (Inr s' :: scheduler result)"
    using assms(1) unfolding update_request_as_session_def by (elim ebind_InrE)
  note f = session_request_fields [OF r']
  have id: "request_id r' = rid" using f keyedD [OF assms(4,2)] by simp
  define t where "t = (if status r = WAITING_FOR_STREAMING_REQ then s\<lparr>sd_num_streaming := sd_num_streaming s - 1\<rparr> else s)"
  have s': "s' = put_req r' t" using s' by (simp add: t_def)
  have t: "keyed t = keyed s" "place_of t = place_of s" "session t = session s" "queued t = queued s" "sd_running t = sd_running s"
    "sd_waiting t = sd_waiting s" "sd_config t = sd_config s" "sd_prev_ids t = sd_prev_ids s" "sd_pause t = sd_pause s"
    by (simp_all add: t_def session_def fun_eq_iff)
  show "keyed s'" "queued s' = queued s" "sd_running s' = sd_running s" "sd_waiting s' = sd_waiting s" "sd_config s' = sd_config s"
    "sd_prev_ids s' = sd_prev_ids s" "sd_pause s' = sd_pause s" using assms(4) t by (simp_all add: s')
  show "place_of s' = place_of s" using t id f assms(2,3) place_of_fun_upd [OF assms(2)] by (simp add: s')
  show "session s' = session s" using t id f session_fun_upd [OF assms(2)] by (simp add: s')
qed

text \<open>A new request is queued; one that exists already gets more input, or ends.\<close>

lemma add_request_moves:
  assumes a: "add_request env r s = Inr s'" and pl: "placed s" and st: "status_place (status r) = Queued"
  shows "placed s'" "sd_config s' = sd_config s" "length (sd_running s') \<le> length (sd_running s)"
    "in_flight x s \<Longrightarrow> (map_of (sd_requests s) (request_id r) = None \<Longrightarrow> x \<noteq> request_id r) \<Longrightarrow> in_flight x s'"
proof -
  have k: "keyed s" using pl by (simp add: placed_def)
  have "placed s' \<and> sd_config s' = sd_config s \<and> length (sd_running s') \<le> length (sd_running s)
    \<and> (in_flight x s \<longrightarrow> (map_of (sd_requests s) (request_id r) = None \<longrightarrow> x \<noteq> request_id r) \<longrightarrow> in_flight x s')"
  proof (cases "map_of (sd_requests s) (request_id r)")
    case None
    define q where "q = (if resumable r then r\<lparr>streaming_queue := Some []\<rparr> else r)"
    have q: "request_id q = request_id r" "status q = status r" by (simp_all add: q_def)
    have e: "s' = enqueue_waiting_request env q (put_req q s)" using a None by (simp add: add_request_def q_def Let_def)
    note m = enqueue_adds [OF e]
    have "place_of s (request_id r) = Nowhere" using None by (simp add: place_of_def)
    then have "placed s'"
      using pl in_place_new [of "place_of s" "mset (sd_running s)" "queued s" "request_id r"]
        m(1,3) same_requests [OF m(2)] q st by (simp add: placed_def queued_def)
    moreover have "in_flight x s'" if "in_flight x s" "x \<noteq> request_id r"
      using in_flight_kept [OF that(1) _ m(7)[simplified]] that(2) m(2) q by simp
    ultimately show ?thesis using m None by simp
  next
    case (Some ex)
    have ex: "request_id ex = request_id r" by (rule keyedD [OF k Some])
    consider (queue) q where "s' = put_req (ex\<lparr>streaming_queue := q\<rparr>) s"
      | (update) u where "update_request_as_session env ex u s = Inr s'" "status ex = WAITING_FOR_STREAMING_REQ"
      | (finish) v where "finish_requests env (Some [request_id r]) FINISHED_ABORTED s = Inr (v, s')"
      using a Some by (auto simp: add_request_def Let_def returned split: option.splits if_splits)
    then show ?thesis
    proof cases
      case queue
      have "still s s'" unfolding queue by (rule still_put_req [OF still_refl Some]) simp_all
      then show ?thesis using still_placed pl k by (auto simp: still_def in_flight_def)
    next
      case update
      have q: "status_place (status ex) = Queued" using update(2) by simp
      note m = update_session_still [OF update(1) Some q k]
      show ?thesis using m pl by (simp add: placed_def in_flight_def)
    next
      case finish
      note m = finish_requests_moves [OF finish pl]
      have len: "length (sd_running s') \<le> length (sd_running s)" using m(7) by simp
      have w: "y \<in> set (rq_items (sd_waiting s')) \<longleftrightarrow> y \<in> set (rq_items (sd_waiting s)) \<and> y \<notin> set v" for y
        using arg_cong [OF m(8), of "\<lambda>q. y \<in># q"] by simp
      have "in_flight x s'" if "in_flight x s"
        using that m(6) m(9) [of x] w [of x] by (auto simp: in_flight_def session_def split: if_splits)
      then show ?thesis using m(1,2) len by blast
    qed
  qed
  then show "placed s'" "sd_config s' = sd_config s" "length (sd_running s') \<le> length (sd_running s)"
    "in_flight x s \<Longrightarrow> (map_of (sd_requests s) (request_id r) = None \<Longrightarrow> x \<noteq> request_id r) \<Longrightarrow> in_flight x s'" by auto
qed

lemma finish_in_flight:
  assumes a: "finish_requests env ids st s = Inr (v, s')" and pl: "placed s" and fl: "in_flight x s"
  shows "in_flight x s'"
proof -
  note m = finish_requests_moves [OF a pl]
  have "y \<in> set (rq_items (sd_waiting s')) \<longleftrightarrow> y \<in> set (rq_items (sd_waiting s)) \<and> y \<notin> set v" for y
    using arg_cong [OF m(8), of "\<lambda>q. y \<in># q"] by simp
  then show ?thesis using fl m(6) m(9) [of x] by (auto simp: in_flight_def session_def split: if_splits)
qed

lemma preempt_waits:
  assumes "preempt_request env v s = Inr s'" "keyed s"
  shows "set (rq_items (sd_waiting s')) = insert v (set (rq_items (sd_waiting s)))" "session s' = session s"
proof -
  obtain r kv c where r: "map_of (sd_requests s) v = Some r" "status r = RUNNING"
    and s': "s' = (let s = put_req (r\<lparr>status := PREEMPTED, num_computed_tokens := 0, spec_token_ids := [],
                 num_preemptions := num_preemptions r + 1\<rparr>) (s\<lparr>sd_kv := kv, sd_encoder := c\<rparr>)
       in s\<lparr>sd_waiting := rq_prepend (id_less env s) v (sd_waiting s)\<rparr>)"
    by (rule preempt_request_cases [OF assms(1)])
  have w: "set (rq_items (rq_prepend lt x q)) = insert x (set (rq_items q))" for lt x and q :: "string request_queue"
    by (metis rq_prepend_mset set_mset_add_mset_insert set_mset_mset)
  show "set (rq_items (sd_waiting s')) = insert v (set (rq_items (sd_waiting s)))" by (simp add: s' Let_def w)
  show "session s' = session s" using keyedD [OF assms(2) r(1)] session_fun_upd [OF r(1)] by (simp add: s' Let_def)
qed

text \<open>All running requests go back to the waiting queue.\<close>

lemma preempt_all_moves:
  assumes "preempt_all env s = Inr s'" "placed s"
  shows "placed s' \<and> sd_running s' = [] \<and> sd_config s' = sd_config s \<and> session s' = session s \<and> sd_pause s' = sd_pause s
    \<and> set (rq_items (sd_waiting s')) = set (sd_running s) \<union> set (rq_items (sd_waiting s))
    \<and> place_of s' = (\<lambda>x. if x \<in> set (sd_running s) then Queued else place_of s x)"
  using assms
proof (induction "length (sd_running s)" arbitrary: s rule: less_induct)
  case less
  show ?case
  proof (cases "sd_running s = []")
    case True
    then have "s' = s" using less.prems(1) by (subst (asm) preempt_all.simps) simp
    then show ?thesis using True less.prems(2) by simp
  next
    case False
    define v where "v = last (sd_running s)"
    define rs where "rs = butlast (sd_running s)"
    have rs: "sd_running s = rs @ [v]" using False by (simp add: v_def rs_def)
    from less.prems(1) obtain s1 r where p: "preempt_request env v (s\<lparr>sd_running := rs\<rparr>) = Inr s1" and r: "map_of (sd_requests s1) v = Some r"
      and rest: "preempt_all env (put_req (r\<lparr>num_output_placeholders := 0, discard_latest_async_tokens := True\<rparr>) s1) = Inr s'"
      by (subst (asm) preempt_all.simps) (auto simp: False v_def rs_def ebind_eq_Inr Let_def)
    have k: "keyed (s\<lparr>sd_running := rs\<rparr>)" using less.prems(2) by (simp add: placed_def)
    note m = preempt_request_moves [OF p k] and w = preempt_waits [OF p k]
    define t where "t = put_req (r\<lparr>num_output_placeholders := 0, discard_latest_async_tokens := True\<rparr>) s1"
    have st: "still s1 t" unfolding t_def by (rule still_put_req [OF still_refl r]) simp_all
    have p1: "placed s1"
      using less.prems(2) in_place_preempt [of "place_of s" v "mset rs" "queued s"] m rs by (simp add: placed_def)
    have p2: "placed t" by (rule still_placed [OF st p1])
    have run: "sd_running t = rs" "length (sd_running t) < length (sd_running s)" "sd_waiting t = sd_waiting s1"
      "sd_config t = sd_config s" "sd_pause t = sd_pause s" using m rs st by (simp_all add: still_def)
    have pl: "place_of t = (place_of s)(v := Queued)" "session t = session s" using st p1 m w by (simp_all add: still_def placed_def)
    have ih: "placed s' \<and> sd_running s' = [] \<and> sd_config s' = sd_config t \<and> session s' = session t \<and> sd_pause s' = sd_pause t
      \<and> set (rq_items (sd_waiting s')) = set (sd_running t) \<union> set (rq_items (sd_waiting t))
      \<and> place_of s' = (\<lambda>x. if x \<in> set (sd_running t) then Queued else place_of t x)"
      by (rule less.hyps [OF run(2) rest [folded t_def] p2])
    have "place_of s' = (\<lambda>x. if x \<in> set (sd_running s) then Queued else place_of s x)"
      using ih run(1) pl(1) rs by (auto simp: fun_eq_iff)
    then show ?thesis using ih run pl(2) w(1) rs by simp
  qed
qed

lemma draft_turn_still: "still s (draft_turn env d s)"
  by (cases d) (auto simp: draft_turn_def split: option.splits intro!: still_put_req)

lemma update_drafts_still: "still s (update_draft_token_ids env ids ds s)"
proof -
  have "still s (fold (draft_turn env) xs s)" for xs
  proof (induction xs arbitrary: s)
    case (Cons x xs)
    show ?case using still_trans [OF draft_turn_still Cons.IH] by simp
  qed simp
  then show ?thesis by (simp add: update_draft_token_ids_def)
qed

lemma reset_moves:
  assumes a: "sched_reset_prefix_cache env rr rc s = Inr (b, s')" and pl: "placed s"
  shows "placed s'" "sd_config s' = sd_config s" "length (sd_running s') \<le> length (sd_running s)"
    "in_flight x s \<Longrightarrow> (rr \<longrightarrow> x \<in> set (sd_running s) \<longrightarrow> \<not> session s x) \<Longrightarrow> in_flight x s'"
proof -
  from a obtain s1 kv ok where
    s1: "(if rr then ebind (preempt_all env s) (\<lambda>s. Inr (s\<lparr>sd_prev_ids := {}\<rparr>)) else Inr s) = Inr s1"
    and s': "s' = s1\<lparr>sd_kv := kv\<rparr>"
    unfolding sched_reset_prefix_cache_def by (elim ebind_InrE) (auto simp: Let_def split_beta split: if_splits)
  have "placed s' \<and> sd_config s' = sd_config s \<and> length (sd_running s') \<le> length (sd_running s)
    \<and> (in_flight x s \<longrightarrow> (rr \<longrightarrow> x \<in> set (sd_running s) \<longrightarrow> \<not> session s x) \<longrightarrow> in_flight x s')"
  proof (cases rr)
    case True
    then obtain s2 where p: "preempt_all env s = Inr s2" and s12: "s1 = s2\<lparr>sd_prev_ids := {}\<rparr>" using s1 by (auto simp: ebind_eq_Inr)
    show ?thesis using preempt_all_moves [OF p pl] True
      by (auto simp: s' s12 placed_def in_flight_def split: if_splits)
  next
    case False
    then show ?thesis using s1 pl by (simp add: s' placed_def in_flight_def)
  qed
  then show "placed s'" "sd_config s' = sd_config s" "length (sd_running s') \<le> length (sd_running s)"
    "in_flight x s \<Longrightarrow> (rr \<longrightarrow> x \<in> set (sd_running s) \<longrightarrow> \<not> session s x) \<Longrightarrow> in_flight x s'" by blast+
qed

subsection \<open>The scheduler as a machine\<close>

text \<open>
  The engine calls the scheduler; between \<open>schedule\<close> and \<open>update_from_output\<close> one batch may be in flight, and
  requests come, end or are preempted meanwhile.  What the code outside answers may change from call to
  call.  A new request has a fresh id, and a streaming session is not preempted by a reset while its
  batch is in flight.
\<close>

inductive sched_moves :: "scheduler \<times> scheduler_output option \<Rightarrow> scheduler \<times> scheduler_output option \<Rightarrow> bool" where
  add: "status_place (status r) = Queued \<Longrightarrow>
     (\<And>out. p = Some out \<Longrightarrow> map_of (sd_requests s) (request_id r) = None \<Longrightarrow> request_id r \<notin> fst ` set (so_num_tokens out)) \<Longrightarrow>
     add_request env r s = Inr s' \<Longrightarrow> sched_moves (s, p) (s', p)"
| finish: "finish_requests env ids st s = Inr (valid, s') \<Longrightarrow> sched_moves (s, p) (s', p)"
| schedule: "schedule env s = Inr (out, s') \<Longrightarrow> sched_moves (s, None) (s', Some out)"
| update: "update_from_output env bo io out mo s = Inr (os, ev, st, s') \<Longrightarrow> sched_moves (s, Some out) (s', None)"
| drafts: "sched_moves (s, p) (update_draft_token_ids env rids ds s, p)"
| drafts_out: "sched_moves (s, Some out) (s, Some (update_draft_token_ids_in_output env rids ds s out))"
| pause: "sched_moves (s, p) (set_pause_state ps s, p)"
| reset: "(rr \<Longrightarrow> p \<noteq> None \<Longrightarrow> \<forall>x \<in> set (sd_running s). \<not> session s x) \<Longrightarrow>
     sched_reset_prefix_cache env rr rc s = Inr (b, s') \<Longrightarrow> sched_moves (s, p) (s', p)"
| reset_encoder: "sched_moves (s, p) (reset_encoder_cache s, p)"

definition sched_inv :: "scheduler \<times> scheduler_output option \<Rightarrow> bool" where
  "sched_inv = (\<lambda>(s, p). placed s \<and> int (length (sd_running s)) \<le> max_num_running_reqs (sd_config s)
     \<and> (\<forall>out. p = Some out \<longrightarrow> distinct (map fst (so_num_tokens out)) \<and> (\<forall>x \<in> fst ` set (so_num_tokens out). in_flight x s)))"

lemma sched_inv_still:
  assumes "still s s'" "sched_inv (s, p)"
  shows "sched_inv (s', p)"
proof -
  have "in_flight x s' = in_flight x s" for x using assms by (simp add: sched_inv_def still_def placed_def in_flight_def)
  then show ?thesis using assms still_placed [OF assms(1)] by (simp add: sched_inv_def still_def)
qed

lemma sched_inv_kept:
  assumes "sched_inv (s, p)" "placed s'" "sd_config s' = sd_config s" "length (sd_running s') \<le> length (sd_running s)"
    "\<And>out x. p = Some out \<Longrightarrow> x \<in> fst ` set (so_num_tokens out) \<Longrightarrow> in_flight x s \<Longrightarrow> in_flight x s'"
  shows "sched_inv (s', p)"
  using assms by (auto simp: sched_inv_def)

lemma placed_in_flight: "placed s \<Longrightarrow> x \<in> set (sd_running s) \<Longrightarrow> in_flight x s"
  by (simp add: placed_running in_flight_def)

lemma sched_moves_inv: "sched_moves a b \<Longrightarrow> sched_inv a \<Longrightarrow> sched_inv b"
proof (induction rule: sched_moves.induct)
  case (add r p s env s')
  have pl: "placed s" using add.prems by (simp add: sched_inv_def)
  note m = add_request_moves [OF add.hyps(3) pl add.hyps(1)]
  show ?case
  proof (rule sched_inv_kept [OF add.prems m(1-3)])
    fix out x
    assume out: "p = Some out" "x \<in> fst ` set (so_num_tokens out)" "in_flight x s"
    show "in_flight x s'" by (rule m(4) [OF out(3)]) (use add.hyps(2) [OF out(1)] out(2) in metis)
  qed
next
  case (finish env ids st s valid s' p)
  have pl: "placed s" using finish.prems by (simp add: sched_inv_def)
  note m = finish_requests_moves [OF finish.hyps pl]
  show ?case
  proof (rule sched_inv_kept [OF finish.prems m(1,2)])
    show "length (sd_running s') \<le> length (sd_running s)" by (simp add: m(7))
    show "in_flight x s'" if "in_flight x s" for x using finish_in_flight [OF finish.hyps pl that] .
  qed
next
  case (schedule env s out s')
  then show ?case
    using schedule_phase(1-5) [OF schedule.hyps] by (auto simp: sched_inv_def intro!: placed_in_flight)
next
  case (update env bo io out mo s os ev st s')
  then show ?case using update_from_output_phase [OF update.hyps] by (auto simp: sched_inv_def)
next
  case (drafts s p env rids ds)
  then show ?case using sched_inv_still update_drafts_still by blast
next
  case (drafts_out s out env rids ds)
  have "so_num_tokens (update_draft_token_ids_in_output env rids ds s out) = so_num_tokens out"
    by (simp add: update_draft_token_ids_in_output_def split_beta)
  then show ?case using drafts_out by (simp add: sched_inv_def)
next
  case (pause s p ps)
  then show ?case by (simp add: sched_inv_def set_pause_state_def placed_def in_flight_def queued_def)
next
  case (reset rr p s env rc b s')
  have pl: "placed s" using reset.prems by (simp add: sched_inv_def)
  note m = reset_moves [OF reset.hyps(2) pl]
  show ?case by (rule sched_inv_kept [OF reset.prems m(1-3)]) (use m(4) reset.hyps(1) in blast)
next
  case (reset_encoder s p)
  have "still s (reset_encoder_cache s)" by (simp add: reset_encoder_cache_def)
  then show ?case using sched_inv_still reset_encoder by blast
qed

lemma init_sched_inv: "0 \<le> max_num_running_reqs cfg \<Longrightarrow> sched_inv (init_scheduler cfg kv n, None)"
  by (cases "policy cfg")
    (simp_all add: sched_inv_def init_scheduler_def placed_def keyed_def in_place_def place_of_def queued_def)

lemma reachable_sched_inv:
  assumes "rtranclp sched_moves (init_scheduler cfg kv n, None) st" "0 \<le> max_num_running_reqs cfg"
  shows "sched_inv st \<and> sd_config (fst st) = cfg"
  using assms(1)
proof (induction rule: rtranclp_induct)
  case base
  then show ?case using init_sched_inv [OF assms(2)] by (simp add: init_scheduler_def)
next
  case (step a b)
  have inv: "sched_inv b" using sched_moves_inv step by blast
  have "sd_config (fst b) = sd_config (fst a)"
    using step(2) step(3)
  proof (induction rule: sched_moves.induct)
    case (add r p s env s')
    then show ?case using add_request_moves(2) by (auto simp: sched_inv_def)
  next
    case (finish env ids st s valid s' p)
    then show ?case using finish_requests_moves(2) by (auto simp: sched_inv_def)
  next
    case (schedule env s out s')
    then show ?case using schedule_phase(3) [OF schedule.hyps] by (auto simp: sched_inv_def)
  next
    case (update env bo io out mo s os ev st s')
    then show ?case using update_from_output_phase(2) [OF update.hyps] by (auto simp: sched_inv_def)
  next
    case (drafts s p env rids ds)
    then show ?case using update_drafts_still [of s env rids ds] by (simp add: still_def)
  next
    case (reset rr p s env rc b s')
    then show ?case using reset_moves(2) by (auto simp: sched_inv_def)
  qed (simp_all add: set_pause_state_def reset_encoder_cache_def)
  then show ?case using inv step.IH by simp
qed

end
