(* ===== verification/Sched_Correct.thy ===== *)
theory Sched_Correct
  imports Sched_Machine
begin

text \<open>
  Properties of the scheduler in its reachable states, and of its operations, with a run of two steps as the example.
\<close>

subsection \<open>An example\<close>

text \<open>
  Two requests with priorities over three free blocks of four tokens: the first step schedules both, and in the
  second step the less urgent one is preempted for the other.
\<close>

definition example_sched_config :: sched_config where
  "example_sched_config = \<lparr>policy = PRIORITY, max_num_running_reqs = 2, max_num_scheduled_tokens = 10, max_model_len = 64,
     long_prefill_token_threshold = 0, enable_chunked_prefill = True, disable_chunked_mm = False, max_encoder_tokens = 0,
     use_eagle = False, num_spec_tokens = 0, num_lookahead_tokens = 0, is_encoder_decoder = False,
     need_mamba_block_aligned_split = False, cache_block_size = 4, sched_block_size = 4, scheduler_reserve_full_isl = False,
     max_loras = None, needs_kv_cache_zeroing = False, use_pp = False, async_scheduling = False, use_v2_model_runner = False,
     recompute_kv_load_failures = False\<rparr>"

definition example_sched_env :: sched_env where
  "example_sched_env = \<lparr>se_pool = example_env, se_hasher = None, se_addr = (\<lambda>_. 0), se_set_order = (\<lambda>_. []), se_connector = None,
     se_has_cache_item = None, se_has_grammar = (\<lambda>_. False), se_should_advance = (\<lambda>_. False), se_validate_tokens = (\<lambda>_ ts. ts)\<rparr>"

abbreviation hashed :: "request" where "hashed \<equiv> example_request\<lparr>block_hashes := [[7], [8], [9]]\<rparr>"
abbreviation less_urgent :: "request" where
  "less_urgent \<equiv> example_request\<lparr>request_id := ''s'', priority := 1, prompt_token_ids := Some [21, 22, 23, 24],
     all_token_ids := [21, 22, 23, 24], num_prompt_tokens := 4, block_hashes := [[17], [18], [19]]\<rparr>"

definition example_scheduler :: "scheduling_policy \<Rightarrow> scheduler result" where
  "example_scheduler p = ebind (init_kv_manager example_config 64 4 False False False False 1 1) (\<lambda>k.
     ebind (add_request example_sched_env less_urgent (init_scheduler (example_sched_config\<lparr>policy := p\<rparr>) k 0))
       (add_request example_sched_env hashed))"

definition example_result :: model_runner_output where
  "example_result = \<lparr>mo_req_id_to_index = [(''r'', 0), (''s'', 1)], mo_sampled_token_ids = [[31], [32]], mo_prompt_logprobs = {},
     mo_pooler_output = [], mo_num_nans = [], mo_kv_output = None\<rparr>"


definition example_two_steps :: "(scheduler \<times> scheduler_output \<times> scheduler \<times> scheduler \<times> scheduler_output \<times> scheduler) result" where
  "example_two_steps = ebind (example_scheduler PRIORITY) (\<lambda>s0. ebind (schedule example_sched_env s0) (\<lambda>(out1, s1).
     ebind (update_from_output example_sched_env (\<lambda>_. []) (\<lambda>_. []) out1 example_result s1) (\<lambda>(_, _, _, s2).
     ebind (schedule example_sched_env s2) (\<lambda>(out2, s3). Inr (s0, out1, s1, s2, out2, s3)))))"


text \<open>A step in which the less urgent request has its tokens already.\<close>

definition example_busy_step :: "sched_step" where
  "example_busy_step = \<lparr>st_new_reqs = [], st_resumed_reqs = [], st_running_reqs = [''s''], st_preempted = [],
     st_new_blocks = [(''s'', EmptyBlocks)], st_num_tokens = [(''s'', 4)], st_token_budget = 6, st_encoder_inputs = [],
     st_encoder_budget = 0, st_spec_tokens = [], st_loras = {}, st_skipped = create_request_queue PRIORITY\<rparr>"

lemma example_two_steps_run:
  "case example_two_steps of Inl _ \<Rightarrow> False
   | Inr (s0, out1, s1, s2, out2, s3) \<Rightarrow>
       so_num_tokens out1 = [(''r'', 6), (''s'', 4)] \<and> so_total out1 = 10 \<and> sd_running s0 = [] \<and> sd_running s1 = [''r'', ''s'']
     \<and> so_num_tokens out2 = [(''r'', 1)] \<and> so_preempted_ids out2 = {''s''}
     \<and> map_option status (map_of (sd_requests s3) ''r'') = Some RUNNING
     \<and> map_option status (map_of (sd_requests s3) ''s'') = Some PREEMPTED
     \<and> policy (sd_config s1) = PRIORITY
     \<and> sd_running s2 = [''r'', ''s''] \<and> map_of (sd_requests s2) ''r'' \<noteq> None \<and> map_of (sd_requests s2) ''s'' \<noteq> None
     \<and> list_all (\<lambda>(rid, r). 0 \<le> num_computed_tokens r \<and> num_computed_tokens r \<le> num_tokens r + num_output_placeholders r
          \<and> num_computed_tokens r \<le> max_model_len example_sched_config - 1) (sd_requests s2)
     \<and> (case take_victim 1 example_busy_step (s1\<lparr>sd_running := [''s'', ''r'']\<rparr>) of
          Inl _ \<Rightarrow> False | Inr (v, i, _, _) \<Rightarrow> v = ''s'' \<and> i = 0)"
  by code_simp

lemma example_two_steps_facts:
  assumes "example_two_steps = Inr (s0, out1, s1, s2, out2, s3)"
  shows "so_num_tokens out1 = [(''r'', 6), (''s'', 4)]" "so_total out1 = 10" "sd_running s0 = []" "sd_running s1 = [''r'', ''s'']"
    "so_num_tokens out2 = [(''r'', 1)]" "so_preempted_ids out2 = {''s''}"
    "map_option status (map_of (sd_requests s3) ''r'') = Some RUNNING"
    "map_option status (map_of (sd_requests s3) ''s'') = Some PREEMPTED"
    "policy (sd_config s1) = PRIORITY"
    "\<exists>st' s'. take_victim 1 example_busy_step (s1\<lparr>sd_running := [''s'', ''r'']\<rparr>) = Inr (''s'', 0, st', s')"
    "sd_running s2 = [''r'', ''s'']"
    "list_all (\<lambda>(rid, r). 0 \<le> num_computed_tokens r \<and> num_computed_tokens r \<le> num_tokens r + num_output_placeholders r
          \<and> num_computed_tokens r \<le> max_model_len example_sched_config - 1) (sd_requests s2)"
proof -
  note run = example_two_steps_run [unfolded assms sum.case prod.case]
  from run show "so_num_tokens out1 = [(''r'', 6), (''s'', 4)]" "so_total out1 = 10" "sd_running s0 = []" "sd_running s1 = [''r'', ''s'']"
    "so_num_tokens out2 = [(''r'', 1)]" "so_preempted_ids out2 = {''s''}"
    "map_option status (map_of (sd_requests s3) ''r'') = Some RUNNING"
    "map_option status (map_of (sd_requests s3) ''s'') = Some PREEMPTED"
    "policy (sd_config s1) = PRIORITY" "sd_running s2 = [''r'', ''s'']"
    "list_all (\<lambda>(rid, r). 0 \<le> num_computed_tokens r \<and> num_computed_tokens r \<le> num_tokens r + num_output_placeholders r
          \<and> num_computed_tokens r \<le> max_model_len example_sched_config - 1) (sd_requests s2)"
    by blast+
  from run show "\<exists>st' s'. take_victim 1 example_busy_step (s1\<lparr>sd_running := [''s'', ''r'']\<rparr>) = Inr (''s'', 0, st', s')"
    by (cases "take_victim 1 example_busy_step (s1\<lparr>sd_running := [''s'', ''r'']\<rparr>)") auto
qed

lemma example_start:
  assumes "example_scheduler p = Inr s0"
  obtains k where "rtranclp sched_moves (init_scheduler (example_sched_config\<lparr>policy := p\<rparr>) k 0, None) (s0, None)"
proof -
  from assms obtain k sa where
    k: "add_request example_sched_env less_urgent (init_scheduler (example_sched_config\<lparr>policy := p\<rparr>) k 0) = Inr sa"
      "add_request example_sched_env hashed sa = Inr s0"
    by (auto simp: example_scheduler_def ebind_eq_Inr)
  have st: "status_place (status less_urgent) = Queued" "status_place (status hashed) = Queued" by (simp_all add: example_request_eq)
  let ?i = "(init_scheduler (example_sched_config\<lparr>policy := p\<rparr>) k 0, None)"
  have "sched_moves ?i (sa, None)" by (rule sched_moves.add [OF st(1) _ k(1)]) simp
  moreover have "sched_moves (sa, None) (s0, None)" by (rule sched_moves.add [OF st(2) _ k(2)]) simp
  ultimately have "rtranclp sched_moves ?i (s0, None)" by (rule converse_rtranclp_into_rtranclp [OF _ r_into_rtranclp])
  then show thesis by (rule that)
qed

lemma example_reachable:
  obtains k s0 out1 s1 s2 out2 s3 where "example_two_steps = Inr (s0, out1, s1, s2, out2, s3)"
    "rtranclp sched_moves (init_scheduler example_sched_config k 0, None) (s0, None)"
    "schedule example_sched_env s0 = Inr (out1, s1)"
    "rtranclp sched_moves (init_scheduler example_sched_config k 0, None) (s2, None)"
    "schedule example_sched_env s2 = Inr (out2, s3)"
    "rtranclp sched_moves (init_scheduler example_sched_config k 0, None) (s3, Some out2)"
proof -
  have "\<exists>x. example_two_steps = Inr x"
  proof (cases example_two_steps)
    case (Inl e)
    then show ?thesis using example_two_steps_run unfolding Inl by simp
  qed blast
  then obtain s0 out1 s1 s2 out2 s3 where e: "example_two_steps = Inr (s0, out1, s1, s2, out2, s3)" by (metis prod_cases6)
  then obtain os ev st where i: "example_scheduler PRIORITY = Inr s0"
    and r: "schedule example_sched_env s0 = Inr (out1, s1)"
      "update_from_output example_sched_env (\<lambda>_. []) (\<lambda>_. []) out1 example_result s1 = Inr (os, ev, st, s2)"
      "schedule example_sched_env s2 = Inr (out2, s3)"
    by (auto simp: example_two_steps_def ebind_eq_Inr)
  have p: "example_sched_config\<lparr>policy := PRIORITY\<rparr> = example_sched_config" by (simp add: example_sched_config_def)
  obtain k where s0: "rtranclp sched_moves (init_scheduler example_sched_config k 0, None) (s0, None)"
    using example_start [OF i] p by metis
  note s1 = rtranclp.rtrancl_into_rtrancl [OF s0 sched_moves.schedule [OF r(1)]]
  note s2 = rtranclp.rtrancl_into_rtrancl [OF s1 sched_moves.update [OF r(2)]]
  show thesis by (rule that [OF e s0 r(1) s2 r(3) rtranclp.rtrancl_into_rtrancl [OF s2 sched_moves.schedule [OF r(3)]]])
qed

text \<open>One step under FCFS, in which both requests run.\<close>

definition example_one_step :: "(scheduler \<times> scheduler_output) result" where
  "example_one_step = ebind (example_scheduler FCFS) (\<lambda>s0. ebind (schedule example_sched_env s0) (\<lambda>(out, s1). Inr (s1, out)))"

lemma example_one_step_run:
  "case example_one_step of Inl _ \<Rightarrow> False
   | Inr (s1, out) \<Rightarrow>
       sd_running s1 = [''s'', ''r''] \<and> sd_waiting s1 = FCFSQueue [] \<and> rq_items (sd_skipped s1) = []
     \<and> (case finish_requests example_sched_env (Some [''s'', ''x'']) FINISHED_ABORTED s1 of
          Inl _ \<Rightarrow> False | Inr (v, _) \<Rightarrow> v = [''s''])
     \<and> (case sched_reset_prefix_cache example_sched_env True False s1 of Inl _ \<Rightarrow> False | Inr (b, _) \<Rightarrow> b)"
  by code_simp

lemma example_running:
  obtains k s1 out fin res where "example_one_step = Inr (s1, out)"
    "rtranclp sched_moves (init_scheduler (example_sched_config\<lparr>policy := FCFS\<rparr>) k 0, None) (s1, Some out)"
    "sd_running s1 = [''s'', ''r'']" "sd_waiting s1 = FCFSQueue []" "rq_items (sd_skipped s1) = []"
    "finish_requests example_sched_env (Some [''s'', ''x'']) FINISHED_ABORTED s1 = Inr ([''s''], fin)"
    "sched_reset_prefix_cache example_sched_env True False s1 = Inr (True, res)"
proof -
  have "\<exists>x. example_one_step = Inr x"
  proof (cases example_one_step)
    case (Inl e)
    then show ?thesis using example_one_step_run unfolding Inl by simp
  qed blast
  then obtain s1 out where e: "example_one_step = Inr (s1, out)" by auto
  then obtain s0 where i: "example_scheduler FCFS = Inr s0" and r: "schedule example_sched_env s0 = Inr (out, s1)"
    by (auto simp: example_one_step_def ebind_eq_Inr)
  obtain k where s0: "rtranclp sched_moves (init_scheduler (example_sched_config\<lparr>policy := FCFS\<rparr>) k 0, None) (s0, None)"
    by (rule example_start [OF i])
  note run = example_one_step_run [unfolded e sum.case prod.case]
  obtain fin where f: "finish_requests example_sched_env (Some [''s'', ''x'']) FINISHED_ABORTED s1 = Inr ([''s''], fin)"
    using run by (cases "finish_requests example_sched_env (Some [''s'', ''x'']) FINISHED_ABORTED s1") auto
  obtain res where res: "sched_reset_prefix_cache example_sched_env True False s1 = Inr (True, res)"
    using run by (cases "sched_reset_prefix_cache example_sched_env True False s1") auto
  show thesis
    by (rule that [OF e rtranclp.rtrancl_into_rtrancl [OF s0 sched_moves.schedule [OF r]] _ _ _ f res]) (use run in blast)+
qed

subsection \<open>Properties\<close>

text \<open>
  C5: No request is lost or doubled: in every state the scheduler reaches with at most one batch in flight, and without
  a reset that preempts a streaming session whose batch is in flight, whatever the connectors and the model
  answer, the running list is within its limit, a request is on it once if it runs, in one of the two waiting queues
  once if it waits, and nothing else is on the list or in the queues.
\<close>

theorem requests_in_one_place:
  assumes "rtranclp sched_moves (init_scheduler cfg kv n, None) (s, p)" "0 \<le> max_num_running_reqs cfg"
  shows "int (length (sd_running s)) \<le> max_num_running_reqs cfg
    \<and> count (mset (sd_running s)) rid = of_bool (map_option status (map_of (sd_requests s) rid) = Some RUNNING)
    \<and> count (mset (rq_items (sd_waiting s)) + mset (rq_items (sd_skipped s))) rid
      = of_bool (\<exists>r. map_of (sd_requests s) rid = Some r \<and> status r \<noteq> RUNNING \<and> \<not> is_finished r)"
proof -
  have inv: "placed s" "int (length (sd_running s)) \<le> max_num_running_reqs (sd_config s)" "sd_config s = cfg"
    using reachable_sched_inv [OF assms] by (auto simp: sched_inv_def)
  have p: "place_of s rid = Running \<longleftrightarrow> map_option status (map_of (sd_requests s) rid) = Some RUNNING"
    "place_of s rid = Queued \<longleftrightarrow> (\<exists>r. map_of (sd_requests s) rid = Some r \<and> status r \<noteq> RUNNING \<and> \<not> is_finished r)"
    by (auto simp: place_of_def status_place_def is_finished_def split: option.splits if_splits)
  have "in_place (place_of s) (mset (sd_running s)) (queued s)" using inv(1) by (simp add: placed_def)
  then show ?thesis using inv(2,3) in_place_at [of "place_of s" "mset (sd_running s)" "queued s" rid]
    by (simp only: p queued_def)
qed

theorem requests_in_one_place_witness:
  "\<exists>s0 out1 s1 s2 out2 s3. example_two_steps = Inr (s0, out1, s1, s2, out2, s3)
    \<and> count (mset (sd_running s3)) ''r'' = 1 \<and> count (mset (sd_running s3)) ''s'' = 0
    \<and> count (mset (rq_items (sd_waiting s3)) + mset (rq_items (sd_skipped s3))) ''s'' = 1"
proof (rule example_reachable)
  fix k s0 out1 s1 s2 out2 s3
  assume e: "example_two_steps = Inr (s0, out1, s1, s2, out2, s3)"
    and r: "rtranclp sched_moves (init_scheduler example_sched_config k 0, None) (s3, Some out2)"
  have "0 \<le> max_num_running_reqs example_sched_config" by (simp add: example_sched_config_def)
  note at = requests_in_one_place [OF r this]
  have "map_option status (map_of (sd_requests s3) ''r'') = Some RUNNING" "map_option status (map_of (sd_requests s3) ''s'') = Some PREEMPTED"
    by (rule example_two_steps_facts [OF e])+
  then have "count (mset (sd_running s3)) ''r'' = 1" "count (mset (sd_running s3)) ''s'' = 0"
    "count (mset (rq_items (sd_waiting s3)) + mset (rq_items (sd_skipped s3))) ''s'' = 1"
    using at [of "''r''"] at [of "''s''"] by (auto simp: is_finished_def status_is_finished_def)
  with e show ?thesis by blast
qed

text \<open>
  C7: What a step schedules: every request at most once, only requests on the running list, none that the step
  preempted; those wait in a queue.  The total is the sum.
\<close>

theorem schedule_output_consistent:
  assumes "rtranclp sched_moves (init_scheduler cfg kv n, None) (s, None)" "0 \<le> max_num_running_reqs cfg"
    "schedule env s = Inr (out, s')"
  shows "distinct (map fst (so_num_tokens out)) \<and> set (map fst (so_num_tokens out)) \<subseteq> set (sd_running s')
    \<and> so_total out = sum_list (map snd (so_num_tokens out))
    \<and> (\<forall>x \<in> so_preempted_ids out. x \<notin> set (sd_running s') \<and> x \<in># mset (rq_items (sd_waiting s')) + mset (rq_items (sd_skipped s')))"
proof -
  have inv: "placed s" "int (length (sd_running s)) \<le> max_num_running_reqs (sd_config s)"
    using reachable_sched_inv [OF assms(1,2)] by (auto simp: sched_inv_def)
  note ph = schedule_phase [OF assms(3) inv]
  have "\<forall>x \<in> so_preempted_ids out. x \<notin> set (sd_running s') \<and> x \<in># queued s'"
    using ph(6) placed_running [OF ph(1)] placed_queued [OF ph(1)] by auto
  with ph(4,5,8) show ?thesis by (simp only: queued_def)
qed

theorem schedule_output_consistent_witness:
  "\<exists>s0 out1 s1 s2 out2 s3. example_two_steps = Inr (s0, out1, s1, s2, out2, s3)
    \<and> so_preempted_ids out2 = {''s''} \<and> ''s'' \<notin> set (sd_running s3) \<and> ''r'' \<in> set (sd_running s3)"
proof (rule example_reachable)
  fix k s0 out1 s1 s2 out2 s3
  assume e: "example_two_steps = Inr (s0, out1, s1, s2, out2, s3)"
    and r: "rtranclp sched_moves (init_scheduler example_sched_config k 0, None) (s2, None)" "schedule example_sched_env s2 = Inr (out2, s3)"
  have "0 \<le> max_num_running_reqs example_sched_config" by (simp add: example_sched_config_def)
  note out = schedule_output_consistent [OF r(1) this r(2)]
  have o2: "so_num_tokens out2 = [(''r'', 1)]" "so_preempted_ids out2 = {''s''}" using example_two_steps_facts [OF e] by simp_all
  have "''s'' \<notin> set (sd_running s3)" "''r'' \<in> set (sd_running s3)" using out unfolding o2 by simp_all
  with e o2 show ?thesis by blast
qed

text \<open>
  C6: A step that starts from a reachable state in which every running request has computed no more tokens than it has
  (with its placeholders) and is below the length of the model: the step stays within its budget of tokens, no request
  is scheduled with zero or fewer tokens, and a scheduler that is paused schedules nothing.  The condition on the
  running requests is a precondition, not an invariant: the code caps the tokens of a running request at
  \<open>max_model_len - 1 - num_computed_tokens\<close> and only tests the result for zero.
\<close>

theorem schedule_within_budget:
  assumes "rtranclp sched_moves (init_scheduler cfg kv n, None) (s, None)" "0 \<le> max_num_running_reqs cfg"
    and "schedule env s = Inr (out, s')"
    and "need_mamba_block_aligned_split cfg \<longrightarrow> 0 < cache_block_size cfg" "0 \<le> max_num_scheduled_tokens cfg"
    and "\<forall>rid \<in> set (sd_running s). \<forall>r. map_of (sd_requests s) rid = Some r \<longrightarrow>
      0 \<le> num_computed_tokens r \<and> num_computed_tokens r \<le> num_tokens r + num_output_placeholders r
      \<and> num_computed_tokens r \<le> max_model_len cfg - 1"
  shows "so_total out \<le> max_num_scheduled_tokens cfg \<and> (\<forall>n \<in> snd ` set (so_num_tokens out). 0 < n)
    \<and> (sd_pause s = PAUSED_ALL \<longrightarrow> so_num_tokens out = [])"
proof -
  have inv: "placed s" "int (length (sd_running s)) \<le> max_num_running_reqs (sd_config s)" and c: "sd_config s = cfg"
    using reachable_sched_inv [OF assms(1,2)] by (auto simp: sched_inv_def)
  have w: "well_configured (sd_config s)" using assms(4) by (simp add: well_configured_def c)
  have p: "all_paced s" using assms(6) placed_running [OF inv(1)] by (auto simp: all_paced_def paced_def c place_of_req)
  have o: "so_total out \<le> (if sd_pause s = PAUSED_ALL then 0 else max_num_scheduled_tokens cfg)"
    "\<forall>n \<in> snd ` set (so_num_tokens out). 0 < n"
    using schedule_phase(9) [OF assms(3) inv w p] assms(5) by (cases "sd_pause s = PAUSED_ALL"; simp add: c)+
  have "so_num_tokens out = []" if "sd_pause s = PAUSED_ALL"
  proof (rule ccontr)
    assume "so_num_tokens out \<noteq> []"
    then have "0 < sum_list (map snd (so_num_tokens out))"
      using o(2) by (cases "so_num_tokens out") (fastforce intro!: add_pos_nonneg sum_list_nonneg)+
    then show False using o(1) that schedule_phase(8) [OF assms(3) inv] by simp
  qed
  then show ?thesis using o assms(5) by (auto split: if_splits)
qed

theorem schedule_within_budget_witness:
  "\<exists>s0 out1 s1 s2 out2 s3. example_two_steps = Inr (s0, out1, s1, s2, out2, s3)
    \<and> sd_running s2 = [''r'', ''s''] \<and> so_num_tokens out2 = [(''r'', 1)] \<and> so_total out2 \<le> 10"
proof (rule example_reachable)
  fix k s0 out1 s1 s2 out2 s3
  assume e: "example_two_steps = Inr (s0, out1, s1, s2, out2, s3)"
    and r: "rtranclp sched_moves (init_scheduler example_sched_config k 0, None) (s2, None)" "schedule example_sched_env s2 = Inr (out2, s3)"
  have p: "\<forall>rid \<in> set (sd_running s2). \<forall>r. map_of (sd_requests s2) rid = Some r \<longrightarrow>
      0 \<le> num_computed_tokens r \<and> num_computed_tokens r \<le> num_tokens r + num_output_placeholders r
      \<and> num_computed_tokens r \<le> max_model_len example_sched_config - 1"
    using example_two_steps_facts(12) [OF e] by (fastforce simp: list_all_iff dest!: map_of_SomeD)
  have "so_total out2 \<le> max_num_scheduled_tokens example_sched_config"
    using schedule_within_budget [OF r(1) _ r(2) _ _ p] by (simp add: example_sched_config_def)
  then have "so_total out2 \<le> 10" by (simp add: example_sched_config_def)
  then show ?thesis using e example_two_steps_facts(5,11) [OF e] by blast
qed

text \<open>A loop and its single turns, related by any relation that composes.\<close>

lemma output_loop_extends:
  assumes "output_loop h m kept ts r = Inr (ids, stopped, r')"
  shows "\<exists>k \<le> length ts. ids = kept @ take k ts \<and> output_token_ids r' = output_token_ids r @ take k ts
    \<and> all_token_ids r' = all_token_ids r @ take k ts \<and> (if stopped then 0 < k else k = length ts)"
  using assms
proof (induction ts arbitrary: kept r)
  case (Cons t ts)
  from Cons.prems obtain r1 b r2 where r1: "append_output_token_ids h [t] r = Inr r1" and c: "check_stop r1 m = Inr (b, r2)"
    and rest: "(if b then Inr (kept @ [t], True, r2) else output_loop h m (kept @ [t]) ts r2) = Inr (ids, stopped, r')"
    by (auto simp: ebind_eq_Inr)
  have a: "output_token_ids r1 = output_token_ids r @ [t]" "all_token_ids r1 = all_token_ids r @ [t]"
    using r1 by (auto simp: append_output_token_ids_def update_block_hashes_def ebind_eq_Inr split: option.splits)
  have s: "output_token_ids r2 = output_token_ids r1" "all_token_ids r2 = all_token_ids r1"
    using check_stop_verdict [OF c] by (auto split: if_splits)
  show ?case
  proof (cases b)
    case True
    then show ?thesis using rest a s by (intro exI [of _ 1]) auto
  next
    case False
    then obtain k where "k \<le> length ts" "ids = (kept @ [t]) @ take k ts" "output_token_ids r' = output_token_ids r2 @ take k ts"
      "all_token_ids r' = all_token_ids r2 @ take k ts" "if stopped then 0 < k else k = length ts"
      using rest Cons.IH [of "kept @ [t]" r2] by auto
    then show ?thesis using a s by (intro exI [of _ "Suc k"]) (auto split: if_splits)
  qed
qed simp

text \<open>The stop check reads the tokens only, not the hashes of the blocks.\<close>

lemma check_stop_block_hashes:
  "check_stop (r\<lparr>block_hashes := hs\<rparr>) m = (case check_stop r m of Inl e \<Rightarrow> Inl e | Inr (b, q) \<Rightarrow> Inr (b, q\<lparr>block_hashes := hs\<rparr>))"
proof -
  have n: "num_output_tokens (r\<lparr>block_hashes := hs\<rparr>) = num_output_tokens r" "num_tokens (r\<lparr>block_hashes := hs\<rparr>) = num_tokens r"
    by (simp_all add: num_output_tokens_def num_tokens_def)
  show ?thesis
    by (simp add: check_stop_def n ebind_def eassert_def split: option.split sum.split)
qed

lemma output_loop_stops:
  assumes "output_loop h m kept ts r = Inr (ids, stopped, r')" "0 < k" "length kept + k \<le> length ids"
  shows "\<exists>q. check_stop (r\<lparr>output_token_ids := output_token_ids r @ take k ts, all_token_ids := all_token_ids r @ take k ts\<rparr>) m
    = Inr (stopped \<and> length kept + k = length ids, q)"
  using assms
proof (induction ts arbitrary: kept r k)
  case (Cons t ts)
  from Cons.prems obtain r1 b r2 where r1: "append_output_token_ids h [t] r = Inr r1" and c: "check_stop r1 m = Inr (b, r2)"
    and rest: "(if b then Inr (kept @ [t], True, r2) else output_loop h m (kept @ [t]) ts r2) = Inr (ids, stopped, r')"
    by (auto simp: ebind_eq_Inr)
  obtain hs where a: "r1 = r\<lparr>output_token_ids := output_token_ids r @ [t], all_token_ids := all_token_ids r @ [t], block_hashes := hs\<rparr>"
  proof (rule that)
    show "r1 = r\<lparr>output_token_ids := output_token_ids r @ [t], all_token_ids := all_token_ids r @ [t], block_hashes := block_hashes r1\<rparr>"
      using r1 by (auto simp: append_output_token_ids_def update_block_hashes_def ebind_eq_Inr split: option.splits)
  qed
  have first: "\<exists>q. check_stop (r\<lparr>output_token_ids := output_token_ids r @ [t], all_token_ids := all_token_ids r @ [t]\<rparr>) m = Inr (b, q)"
    using check_stop_block_hashes [where r = r1 and hs = "block_hashes r" and m = m] c by (simp add: a)
  show ?case
  proof (cases b)
    case True
    then have "ids = kept @ [t]" "stopped" using rest by auto
    then show ?thesis using first Cons.prems(2,3) True by (cases k) auto
  next
    case False
    then have s: "r2 = r1" using check_stop_verdict [OF c] by simp
    have o: "output_loop h m (kept @ [t]) ts r2 = Inr (ids, stopped, r')" using rest False by simp
    show ?thesis
    proof (cases "k = 1")
      case True
      have e: "(stopped \<and> length kept + k = length ids) = b"
        using output_loop_extends [OF o] False True by (auto split: if_splits)
      show ?thesis unfolding e using first True by simp
    next
      case k: False
      then obtain j where j: "k = Suc j" "0 < j" using Cons.prems(2) by (cases k) auto
      have l: "length (kept @ [t]) + j \<le> length ids" using Cons.prems(3) j by simp
      from Cons.IH [OF o j(2) l] obtain q where
        q: "check_stop (r2\<lparr>output_token_ids := output_token_ids r2 @ take j ts, all_token_ids := all_token_ids r2 @ take j ts\<rparr>) m
          = Inr (stopped \<and> length kept + k = length ids, q)"
        using j by auto
      show ?thesis
        using check_stop_block_hashes [where r = "r2\<lparr>output_token_ids := output_token_ids r2 @ take j ts, all_token_ids := all_token_ids r2 @ take j ts\<rparr>"
            and hs = "block_hashes r" and m = m] q
        by (simp add: s a j(1))
    qed
  qed
qed simp

lemma update_with_output_loop:
  assumes "update_request_with_output env rid ts s = Inr (ids, stopped, s')" "map_of (sd_requests s) rid = Some r"
    "\<not> (async_scheduling (sd_config s) \<and> discard_latest_async_tokens r)"
  obtains r' kv n where "output_loop (se_hasher env) (max_model_len (sd_config s)) [] ts r = Inr (ids, stopped, r')"
    "s' = put_req (r'\<lparr>num_output_placeholders := n\<rparr>) (s\<lparr>sd_kv := kv\<rparr>)"
    "n = num_output_placeholders r' - (if async_scheduling (sd_config s) then int (length ids) else 0)"
    "async_scheduling (sd_config s) \<longrightarrow> 0 \<le> n"
proof (cases "async_scheduling (sd_config s)")
  case True
  with assms obtain r' kv where o: "output_loop (se_hasher env) (max_model_len (sd_config s)) [] ts r = Inr (ids, stopped, r')"
    "s' = put_req (r'\<lparr>num_output_placeholders := num_output_placeholders r' - int (length ids)\<rparr>) (s\<lparr>sd_kv := kv\<rparr>)"
    "0 \<le> num_output_placeholders r' - int (length ids)"
    unfolding update_request_with_output_def get_req_def eassert_def
    by (auto simp: ebind_eq_Inr Let_def split del: if_split dest: if_eq_Inr [THEN iffD1])
  show thesis by (rule that [OF o(1,2)]) (use True o(3) in simp_all)
next
  case False
  with assms obtain r' where o: "output_loop (se_hasher env) (max_model_len (sd_config s)) [] ts r = Inr (ids, stopped, r')" "s' = put_req r' s"
    by (auto simp: update_request_with_output_def get_req_def ebind_eq_Inr)
  then have "s' = put_req (r'\<lparr>num_output_placeholders := num_output_placeholders r'\<rparr>) (s\<lparr>sd_kv := sd_kv s\<rparr>)" by simp
  then show thesis by (rule that [OF o(1)]) (use False in simp_all)
qed

text \<open>
  C14: Generated tokens are appended to the request one by one and cut off behind the first one at which the stop
  check stops: after every token that is kept but the last the check says to go on, and after the last one it says
  whether the request stops.  A stopped request has a finished status; one that goes on has taken all tokens.  With
  asynchronous scheduling the placeholders go down by the number of tokens kept and never below zero, and the output
  of a request that is to be discarded is dropped: only the mark is taken off.
\<close>

theorem output_cut_at_first_stop:
  assumes "update_request_with_output env rid ts s = Inr (ids, stopped, s')"
    and "map_of (sd_requests s) rid = Some r" "request_id r = rid"
  shows "if async_scheduling (sd_config s) \<and> discard_latest_async_tokens r
    then ids = [] \<and> \<not> stopped \<and> s' = put_req (r\<lparr>discard_latest_async_tokens := False\<rparr>) s
    else \<exists>r'. map_of (sd_requests s') rid = Some r' \<and> ids = take (length ids) ts
      \<and> output_token_ids r' = output_token_ids r @ ids \<and> all_token_ids r' = all_token_ids r @ ids
      \<and> (if stopped then is_finished r' \<and> ids \<noteq> [] else ids = ts \<and> status r' = status r)
      \<and> num_output_placeholders r' = num_output_placeholders r - (if async_scheduling (sd_config s) then int (length ids) else 0)
      \<and> (async_scheduling (sd_config s) \<longrightarrow> 0 \<le> num_output_placeholders r')
      \<and> (\<forall>k. 0 < k \<and> k \<le> length ids \<longrightarrow> (\<exists>q. check_stop (r\<lparr>output_token_ids := output_token_ids r @ take k ts,
            all_token_ids := all_token_ids r @ take k ts\<rparr>) (max_model_len (sd_config s)) = Inr (stopped \<and> k = length ids, q)))"
proof (cases "async_scheduling (sd_config s) \<and> discard_latest_async_tokens r")
  case True
  then show ?thesis using assms by (simp add: update_request_with_output_def get_req_def)
next
  case False
  obtain r' kv n where l: "output_loop (se_hasher env) (max_model_len (sd_config s)) [] ts r = Inr (ids, stopped, r')"
    and s': "s' = put_req (r'\<lparr>num_output_placeholders := n\<rparr>) (s\<lparr>sd_kv := kv\<rparr>)"
    and n: "n = num_output_placeholders r' - (if async_scheduling (sd_config s) then int (length ids) else 0)"
      "async_scheduling (sd_config s) \<longrightarrow> 0 \<le> n"
    using update_with_output_loop [OF assms(1,2) False] by blast
  from output_loop_grown [OF l] have g: "grown r r'" "if stopped then is_finished r' else status r' = status r" by simp_all
  have id: "request_id r' = rid" "num_output_placeholders r' = num_output_placeholders r" using grown_fields [OF g(1)] assms(3) by simp_all
  obtain k where k: "k \<le> length ts" "ids = take k ts" "output_token_ids r' = output_token_ids r @ take k ts"
    "all_token_ids r' = all_token_ids r @ take k ts" "if stopped then 0 < k else k = length ts"
    using output_loop_extends [OF l] by auto
  have len: "length ids = k" using k(1,2) by simp
  have "map_of (sd_requests s') rid = Some (r'\<lparr>num_output_placeholders := n\<rparr>)" using s' id by simp
  moreover have "ids \<noteq> []" if stopped using k that by auto
  moreover have "\<exists>q. check_stop (r\<lparr>output_token_ids := output_token_ids r @ take j ts, all_token_ids := all_token_ids r @ take j ts\<rparr>)
      (max_model_len (sd_config s)) = Inr (stopped \<and> j = length ids, q)" if "0 < j" "j \<le> length ids" for j
    using output_loop_stops [OF l that(1)] that(2) by simp
  ultimately show ?thesis unfolding if_not_P [OF False]
    using k len g(2) id n by (intro exI [of _ "r'\<lparr>num_output_placeholders := n\<rparr>"]) (auto simp: is_finished_def)
qed

definition example_sampling_state :: scheduler where
  "example_sampling_state = (case example_scheduler PRIORITY of Inr s \<Rightarrow> put_req (hashed\<lparr>status := RUNNING\<rparr>) s)"

theorem output_cut_at_first_stop_witness:
  "\<exists>s' r'. update_request_with_output example_sched_env ''r'' [31, 2, 33] example_sampling_state = Inr ([31, 2], True, s')
    \<and> map_of (sd_requests s') ''r'' = Some r' \<and> output_token_ids r' = [31, 2] \<and> is_finished r'"
proof -
  have "case update_request_with_output example_sched_env ''r'' [31, 2, 33] example_sampling_state of
      Inr (ids, b, s') \<Rightarrow> ids = [31, 2] \<and> b | Inl _ \<Rightarrow> False"
    by code_simp
  then obtain s' where u: "update_request_with_output example_sched_env ''r'' [31, 2, 33] example_sampling_state = Inr ([31, 2], True, s')"
    by (auto split: sum.splits prod.splits)
  have r: "map_of (sd_requests example_sampling_state) ''r'' = Some (hashed\<lparr>status := RUNNING\<rparr>)"
    by code_simp
  have c: "\<not> (async_scheduling (sd_config example_sampling_state) \<and> discard_latest_async_tokens (hashed\<lparr>status := RUNNING\<rparr>))"
    by (simp add: example_request_eq)
  show ?thesis using u output_cut_at_first_stop [OF u r, unfolded if_not_P [OF c]] by (auto simp: example_request_eq)
qed

text \<open>
  C13: The request to preempt: under the priority policy a running request that no running request exceeds in priority
  number and arrival time, otherwise the one that came to the running list last.  Exactly this request leaves the
  list.  If this step had scheduled it, its notes and no others are taken back: its tokens return to the token budget,
  the embeddings of its encoder inputs to the encoder budget, and the index steps back with it; otherwise nothing
  changes.  The books of the step agree with its list of scheduled requests before, and stay so.  Under
  first-come-first-served the requests scheduled so far lie before the index, which is inside the list.
\<close>

theorem preemption_victim:
  assumes "take_victim i st s = Inr (victim, i', st', s')" "books st"
    and "policy (sd_config s) \<noteq> PRIORITY \<longrightarrow> distinct (sd_running s) \<and> nat i < length (sd_running s)
      \<and> set (st_running_reqs st) \<subseteq> set (take (nat i) (sd_running s))"
  shows "mset (sd_running s) = add_mset victim (mset (sd_running s')) \<and> s' = s\<lparr>sd_running := sd_running s'\<rparr>
    \<and> (if policy (sd_config s) = PRIORITY
       then \<forall>x \<in> set (sd_running s). preempt_key s x \<le> preempt_key s victim
       else sd_running s = sd_running s' @ [victim])
    \<and> books st' \<and> total_tokens st' + st_token_budget st' = total_tokens st + st_token_budget st
    \<and> (if victim \<notin> set (st_running_reqs st) then i' = i \<and> st' = st
       else i' = i - 1 \<and> st_running_reqs st' = remove1 victim (st_running_reqs st)
         \<and> map_of (st_num_tokens st') = (map_of (st_num_tokens st))(victim := None)
         \<and> map_of (st_new_blocks st') = (map_of (st_new_blocks st))(victim := None)
         \<and> map_of (st_spec_tokens st') = (map_of (st_spec_tokens st))(victim := None)
         \<and> map_of (st_encoder_inputs st') = (map_of (st_encoder_inputs st))(victim := None)
         \<and> (\<exists>n r e. map_of (st_num_tokens st) victim = Some n \<and> map_of (sd_requests s) victim = Some r
              \<and> sum_encoder_embeds r (case map_of (st_encoder_inputs st) victim of None \<Rightarrow> [] | Some inputs \<Rightarrow> inputs) = Inr e
              \<and> st_token_budget st' = st_token_budget st + n \<and> st_encoder_budget st' = st_encoder_budget st + e)
         \<and> st_new_reqs st' = st_new_reqs st \<and> st_resumed_reqs st' = st_resumed_reqs st \<and> st_preempted st' = st_preempted st
         \<and> st_loras st' = st_loras st \<and> st_skipped st' = st_skipped st)"
proof -
  obtain rs where rs: "s' = s\<lparr>sd_running := rs\<rparr>" "mset (sd_running s) = add_mset victim (mset rs)"
    "if policy (sd_config s) = PRIORITY then rs = remove1 victim (sd_running s) \<and> (\<forall>x \<in> set (sd_running s). preempt_key s x \<le> preempt_key s victim)
     else sd_running s = rs @ [victim]"
    "if policy (sd_config s) = PRIORITY \<and> victim \<in> set (st_running_reqs st)
     then undo_scheduled victim i st s' = Inr (i', st') else i' = i \<and> st' = st"
    using take_victim_cases [OF assms(1)] by metis
  have np: "policy (sd_config s) \<noteq> PRIORITY \<longrightarrow> victim \<notin> set (st_running_reqs st)"
  proof (intro impI notI)
    assume p: "policy (sd_config s) \<noteq> PRIORITY" and v: "victim \<in> set (st_running_reqs st)"
    have r: "sd_running s = rs @ [victim]" using rs(3) p by simp
    have "take (nat i) (sd_running s) = take (nat i) rs" using assms(3) p r by simp
    then have "victim \<in> set rs" using assms(3) p v by (auto dest: in_set_takeD)
    then show False using assms(3) p r by simp
  qed
  note b = take_victim_books [OF assms(1,2) np]
  have d: "distinct (map fst (st_num_tokens st))" using assms(2) by (simp add: books_def noted_def)
  show ?thesis
  proof (cases "victim \<in> set (st_running_reqs st)")
    case False
    then show ?thesis using rs b(1) by auto
  next
    case True
    then have p: "policy (sd_config s) = PRIORITY" using np by blast
    have u: "undo_scheduled victim i st s' = Inr (i', st')" using rs(4) p True by simp
    then obtain n bl r e where n: "dict_get victim (st_num_tokens st) = Inr n" "dict_get victim (st_new_blocks st) = Inr bl"
      "get_req victim s' = Inr r"
      "(case map_of (st_encoder_inputs st) victim of None \<Rightarrow> Inr 0 | Some inputs \<Rightarrow> sum_encoder_embeds r inputs) = Inr e"
      unfolding undo_scheduled_def ebind_eq_Inr by blast
    have st': "i' = i - 1" "st' = st\<lparr>st_running_reqs := remove1 victim (st_running_reqs st),
               st_token_budget := st_token_budget st + n,
               st_num_tokens := AList.delete victim (st_num_tokens st),
               st_new_blocks := AList.delete victim (st_new_blocks st),
               st_spec_tokens := AList.delete victim (st_spec_tokens st),
               st_encoder_inputs := AList.delete victim (st_encoder_inputs st),
               st_encoder_budget := st_encoder_budget st + e\<rparr>"
      using u n by (simp_all add: undo_scheduled_def)
    have m: "map_of (st_num_tokens st) victim = Some n" using n(1) by (auto simp: dict_get_def split: option.splits)
    have r: "map_of (sd_requests s) victim = Some r" using n(3) rs(1) by (auto simp: get_req_def split: option.splits)
    have e: "sum_encoder_embeds r (case map_of (st_encoder_inputs st) victim of None \<Rightarrow> [] | Some inputs \<Rightarrow> inputs) = Inr e"
      using n(4) by (auto simp: sum_encoder_embeds_def split: option.splits)
    have t: "total_tokens st' + st_token_budget st' = total_tokens st + st_token_budget st"
      using total_delete [OF d m] by (simp add: st'(2) total_tokens_def)
    have map: "map_of (AList.delete victim al) = (map_of al)(victim := None)" for al :: "(string \<times> 'x) list"
      by (simp add: delete_conv')
    show ?thesis using rs(1-3) p True b(1) t m r e by (simp add: st' map)
  qed
qed

theorem preemption_victim_witness:
  "\<exists>s0 out1 s1 s2 out2 s3 st' s'. example_two_steps = Inr (s0, out1, s1, s2, out2, s3)
    \<and> take_victim 1 example_busy_step (s1\<lparr>sd_running := [''s'', ''r'']\<rparr>) = Inr (''s'', 0, st', s')
    \<and> st_running_reqs st' = [] \<and> total_tokens st' + st_token_budget st' = 10"
proof (rule example_reachable)
  fix k s0 out1 s1 s2 out2 s3
  assume e: "example_two_steps = Inr (s0, out1, s1, s2, out2, s3)"
  obtain st' s' where t: "take_victim 1 example_busy_step (s1\<lparr>sd_running := [''s'', ''r'']\<rparr>) = Inr (''s'', 0, st', s')"
    using example_two_steps_facts(10) [OF e] by blast
  have "books example_busy_step" by (simp add: books_def noted_def example_busy_step_def)
  moreover have "policy (sd_config (s1\<lparr>sd_running := [''s'', ''r'']\<rparr>)) \<noteq> PRIORITY \<longrightarrow>
      distinct (sd_running (s1\<lparr>sd_running := [''s'', ''r'']\<rparr>)) \<and> nat 1 < length (sd_running (s1\<lparr>sd_running := [''s'', ''r'']\<rparr>))
      \<and> set (st_running_reqs example_busy_step) \<subseteq> set (take (nat 1) (sd_running (s1\<lparr>sd_running := [''s'', ''r'']\<rparr>)))"
    using example_two_steps_facts(9) [OF e] by simp
  ultimately have f: "total_tokens st' + st_token_budget st' = total_tokens example_busy_step + st_token_budget example_busy_step"
    "''s'' \<in> set (st_running_reqs example_busy_step) \<longrightarrow> st_running_reqs st' = remove1 ''s'' (st_running_reqs example_busy_step)"
    using preemption_victim [OF t] by simp_all
  have "st_running_reqs st' = []" "total_tokens st' + st_token_budget st' = 10"
    using f by (simp_all add: example_busy_step_def total_tokens_def)
  with e t show ?thesis by blast
qed

text \<open>
  C15: Finishing requests in a reachable state: the known requests among the ids that have not finished yet leave the
  running list and the queues, whatever their state, and are finished; all other requests stay where they are, in
  the same order on the running list.
\<close>

theorem finish_requests_correct:
  assumes "rtranclp sched_moves (init_scheduler cfg kv n, None) (s, p)" "0 \<le> max_num_running_reqs cfg"
    and "finish_requests env ids st s = Inr (valid, s')"
  shows "valid = filter (\<lambda>x. \<exists>r. map_of (sd_requests s) x = Some r \<and> \<not> is_finished r)
        (case ids of None \<Rightarrow> map fst (sd_requests s) | Some xs \<Rightarrow> xs)
    \<and> sd_running s' = filter (\<lambda>x. x \<notin> set valid) (sd_running s)
    \<and> mset (rq_items (sd_waiting s')) + mset (rq_items (sd_skipped s'))
      = filter_mset (\<lambda>x. x \<notin> set valid) (mset (rq_items (sd_waiting s)) + mset (rq_items (sd_skipped s)))
    \<and> (\<forall>x \<in> set valid. case map_of (sd_requests s') x of None \<Rightarrow> True | Some r \<Rightarrow> is_finished r)
    \<and> (\<forall>x. x \<notin> set valid \<longrightarrow> map_of (sd_requests s') x = map_of (sd_requests s) x)"
proof -
  have pl: "placed s" using reachable_sched_inv [OF assms(1,2)] by (auto simp: sched_inv_def)
  note m = finish_requests_moves [OF assms(3) pl]
  have v: "valid = filter (\<lambda>x. \<exists>r. map_of (sd_requests s) x = Some r \<and> \<not> is_finished r)
      (case ids of None \<Rightarrow> map fst (sd_requests s) | Some xs \<Rightarrow> xs)"
    unfolding m(5) valid_requests_def by (rule filter_cong) (auto split: option.splits)
  have q: "queued s' = filter_mset (\<lambda>x. x \<notin> set valid) (queued s)"
  proof (rule multiset_eqI)
    fix x
    have "in_place (place_of s') (mset (sd_running s')) (queued s')" "in_place (place_of s) (mset (sd_running s)) (queued s)"
      using m(1) pl by (simp_all add: placed_def)
    then show "count (queued s') x = count (filter_mset (\<lambda>x. x \<notin> set valid) (queued s)) x"
      by (simp add: in_place_def m(6))
  qed
  have f: "case map_of (sd_requests s') x of None \<Rightarrow> True | Some r \<Rightarrow> is_finished r" if "x \<in> set valid" for x
    using fun_cong [OF m(6), of x] that by (auto simp: place_of_def is_finished_def split: option.splits)
  show ?thesis using v m(7,9) q f by (simp only: queued_def) blast
qed

theorem finish_requests_correct_witness:
  "\<exists>s out s'. example_one_step = Inr (s, out)
    \<and> finish_requests example_sched_env (Some [''s'', ''x'']) FINISHED_ABORTED s = Inr ([''s''], s')
    \<and> sd_running s = [''s'', ''r''] \<and> sd_running s' = [''r'']
    \<and> mset (rq_items (sd_waiting s')) + mset (rq_items (sd_skipped s')) = {#}"
proof (rule example_running)
  fix k s out s' t
  assume e: "example_one_step = Inr (s, out)"
    and r: "rtranclp sched_moves (init_scheduler (example_sched_config\<lparr>policy := FCFS\<rparr>) k 0, None) (s, Some out)"
    and q: "sd_running s = [''s'', ''r'']" "sd_waiting s = FCFSQueue []" "rq_items (sd_skipped s) = []"
    and f: "finish_requests example_sched_env (Some [''s'', ''x'']) FINISHED_ABORTED s = Inr ([''s''], s')"
  have "0 \<le> max_num_running_reqs (example_sched_config\<lparr>policy := FCFS\<rparr>)" by (simp add: example_sched_config_def)
  from finish_requests_correct [OF r this f] q
  have "sd_running s' = [''r'']" "mset (rq_items (sd_waiting s')) + mset (rq_items (sd_skipped s')) = {#}" by simp_all
  with e f q(1) show ?thesis by blast
qed

text \<open>
  The split for Mamba caches: the number of tokens is not raised and not negative, and when a prefill starts at a
  block boundary it ends at one, or all that is left behind the last full block (the last but one with Eagle) is
  scheduled.
\<close>

theorem mamba_split_aligned:
  assumes "mamba_block_aligned_split cfg r n n_local 0 = Inr k" "0 < cache_block_size cfg" "0 \<le> n"
    and "num_computed_tokens r + n_local < max (num_prompt_tokens r) (num_tokens r - 1)"
    and "cache_block_size cfg dvd num_computed_tokens r + n_local"
  shows "0 \<le> k \<and> k \<le> n \<and> (cache_block_size cfg dvd num_computed_tokens r + n_local + k
    \<or> num_tokens r - (if use_eagle cfg then 2 else 1) * cache_block_size cfg < num_computed_tokens r + n_local \<and> k = n)"
proof -
  define bs where "bs = cache_block_size cfg"
  define c where "c = num_computed_tokens r + n_local"
  define l where "l = (let l = num_tokens r - num_tokens r mod bs in if use_eagle cfg then max (l - bs) 0 else l)"
  have bs: "0 < bs" and dvd: "bs dvd c" using assms(2,5) by (simp_all add: bs_def c_def)
  have k: "k = (if c + n < l then n div bs * bs else if c < l \<and> l < c + n then l - c else n)"
  proof -
    have "mamba_block_aligned_split cfg r n n_local 0 = Inr (if c + n < l then n div bs * bs else if c < l \<and> l < c + n then l - c else n)"
      using assms(2,4) by (simp add: mamba_block_aligned_split_def Let_def c_def l_def bs_def split del: if_split cong: if_cong)
    then show ?thesis using assms(1) by simp
  qed
  have "bs dvd num_tokens r - num_tokens r mod bs" by (simp add: minus_mod_eq_mult_div)
  then have l: "bs dvd l" by (auto simp: l_def Let_def max_def)
  have le: "n div bs * bs \<le> n" using bs pos_mod_sign [of bs n] minus_mod_eq_div_mult [of n bs] by linarith
  have ge: "0 \<le> n div bs * bs" using bs assms(3) by (simp add: pos_imp_zdiv_nonneg_iff)
  have m: "num_tokens r mod bs < bs" using bs by simp
  consider "c + n < l" | "c < l" "l < c + n" | "c + n = l" | "l \<le> c" by linarith
  then show ?thesis
  proof cases
    case 4
    then have "num_tokens r - (if use_eagle cfg then 2 else 1) * bs < c" using m by (auto simp: l_def Let_def split: if_splits)
    then show ?thesis using 4 k assms(3) by (auto simp: bs_def c_def)
  qed (use k l dvd le ge assms(3) in \<open>auto simp: bs_def [symmetric] c_def [symmetric]\<close>)
qed

theorem mamba_split_aligned_witness:
  "\<exists>k. mamba_block_aligned_split example_sched_config example_request 6 0 0 = Inr k \<and> 0 \<le> k \<and> k \<le> 6 \<and> 4 dvd k"
proof -
  have a: "mamba_block_aligned_split example_sched_config example_request 6 0 0 = Inr 4"
    by code_simp
  have "0 \<le> (4 :: int) \<and> 4 \<le> (6 :: int) \<and> 4 dvd (4 :: int)"
    using mamba_split_aligned [OF a] by (auto simp: example_request_eq example_sched_config_def num_tokens_def)
  with a show ?thesis by blast
qed

text \<open>What became of the requests that ran: they start over, ahead of the others and in their order.\<close>

definition starts_over :: "request option \<Rightarrow> bool" where
  "starts_over x \<longleftrightarrow> (\<exists>r. x = Some r \<and> status r = PREEMPTED \<and> num_computed_tokens r = 0 \<and> num_output_placeholders r = 0 \<and> spec_token_ids r = [])"

lemma preempt_all_requests:
  assumes "preempt_all env s = Inr s'" "placed s"
  shows "(\<forall>x. if x \<in> set (sd_running s) then starts_over (map_of (sd_requests s') x)
      else map_of (sd_requests s') x = map_of (sd_requests s) x)
    \<and> (\<forall>xs. sd_waiting s = FCFSQueue xs \<longrightarrow> sd_waiting s' = FCFSQueue (sd_running s @ xs))"
  using assms
proof (induction "length (sd_running s)" arbitrary: s rule: less_induct)
  case less
  show ?case
  proof (cases "sd_running s = []")
    case True
    then have "s' = s" using less.prems(1) by (subst (asm) preempt_all.simps) simp
    then show ?thesis using True by simp
  next
    case False
    define v where "v = last (sd_running s)"
    define rs where "rs = butlast (sd_running s)"
    have rs: "sd_running s = rs @ [v]" using False by (simp add: v_def rs_def)
    from less.prems(1) obtain s1 r where p: "preempt_request env v (s\<lparr>sd_running := rs\<rparr>) = Inr s1" and r: "map_of (sd_requests s1) v = Some r"
      and rest: "preempt_all env (put_req (r\<lparr>num_output_placeholders := 0, discard_latest_async_tokens := True\<rparr>) s1) = Inr s'"
      by (subst (asm) preempt_all.simps) (auto simp: False v_def rs_def ebind_eq_Inr Let_def)
    define t where "t = put_req (r\<lparr>num_output_placeholders := 0, discard_latest_async_tokens := True\<rparr>) s1"
    have k: "keyed (s\<lparr>sd_running := rs\<rparr>)" using less.prems(2) by (simp add: placed_def)
    note m = preempt_request_moves [OF p k]
    have id: "request_id r = v" by (rule keyedD [OF m(1) r])
    have st: "still s1 t" unfolding t_def by (rule still_put_req [OF still_refl r]) simp_all
    have p1: "placed s1"
      using less.prems(2) in_place_preempt [of "place_of s" v "mset rs" "queued s"] m rs by (simp add: placed_def)
    have run: "sd_running t = rs" using m st by (simp add: still_def)
    have nv: "v \<notin> set rs" using placed_distinct [OF less.prems(2)] rs by simp
    have tv: "starts_over (map_of (sd_requests t) v)" "\<And>x. x \<noteq> v \<Longrightarrow> map_of (sd_requests t) x = map_of (sd_requests s) x"
      "\<And>xs. sd_waiting s = FCFSQueue xs \<Longrightarrow> sd_waiting t = FCFSQueue (v # xs)"
    proof -
      obtain r0 kv c u where u: "map_of (sd_requests s) v = Some r0"
        "u = put_req (r0\<lparr>status := PREEMPTED, num_computed_tokens := 0, spec_token_ids := [], num_preemptions := num_preemptions r0 + 1\<rparr>)
            (s\<lparr>sd_running := rs, sd_kv := kv, sd_encoder := c\<rparr>)" "s1 = u\<lparr>sd_waiting := rq_prepend (id_less env u) v (sd_waiting s)\<rparr>"
        by (rule preempt_request_cases [OF p]) (simp add: Let_def)
      have v: "request_id r0 = v" using keyedD [of s v r0] k u(1) by simp
      have "map_of (sd_requests s1) v = Some (r0\<lparr>status := PREEMPTED, num_computed_tokens := 0, spec_token_ids := [],
          num_preemptions := num_preemptions r0 + 1\<rparr>)" by (simp add: u(2,3) v)
      then have "r = r0\<lparr>status := PREEMPTED, num_computed_tokens := 0, spec_token_ids := [], num_preemptions := num_preemptions r0 + 1\<rparr>"
        using r by simp
      then show "starts_over (map_of (sd_requests t) v)" by (simp add: t_def starts_over_def v)
      show "map_of (sd_requests t) x = map_of (sd_requests s) x" if "x \<noteq> v" for x using that m(9) [of x] id by (simp add: t_def)
      show "sd_waiting t = FCFSQueue (v # xs)" if "sd_waiting s = FCFSQueue xs" for xs using that by (simp add: t_def u(3))
    qed
    from less.hyps [OF _ rest [folded t_def] still_placed [OF st p1]] run rs have
      ih: "if x \<in> set rs then starts_over (map_of (sd_requests s') x) else map_of (sd_requests s') x = map_of (sd_requests t) x"
        "sd_waiting t = FCFSQueue xs \<Longrightarrow> sd_waiting s' = FCFSQueue (rs @ xs)" for x xs
      by simp_all
    have "if x \<in> set (sd_running s) then starts_over (map_of (sd_requests s') x) else map_of (sd_requests s') x = map_of (sd_requests s) x" for x
      using ih(1) [of x] ih(1) [of v] tv(1) tv(2) [of x] nv rs by (cases "x = v") (auto split: if_splits)
    then show ?thesis using ih(2) tv(3) rs by auto
  qed
qed

lemma preempt_all_waiting:
  assumes "preempt_all env s = Inr s'" "placed s"
  shows "mset (rq_items (sd_waiting s')) = mset (sd_running s) + mset (rq_items (sd_waiting s))"
  using assms
proof (induction "length (sd_running s)" arbitrary: s rule: less_induct)
  case less
  show ?case
  proof (cases "sd_running s = []")
    case True
    then have "s' = s" using less.prems(1) by (subst (asm) preempt_all.simps) simp
    then show ?thesis using True by simp
  next
    case False
    define v where "v = last (sd_running s)"
    define rs where "rs = butlast (sd_running s)"
    have rs: "sd_running s = rs @ [v]" using False by (simp add: v_def rs_def)
    from less.prems(1) obtain s1 r where p: "preempt_request env v (s\<lparr>sd_running := rs\<rparr>) = Inr s1" and r: "map_of (sd_requests s1) v = Some r"
      and rest: "preempt_all env (put_req (r\<lparr>num_output_placeholders := 0, discard_latest_async_tokens := True\<rparr>) s1) = Inr s'"
      by (subst (asm) preempt_all.simps) (auto simp: False v_def rs_def ebind_eq_Inr Let_def)
    define t where "t = put_req (r\<lparr>num_output_placeholders := 0, discard_latest_async_tokens := True\<rparr>) s1"
    have k: "keyed (s\<lparr>sd_running := rs\<rparr>)" using less.prems(2) by (simp add: placed_def)
    note m = preempt_request_moves [OF p k]
    have st: "still s1 t" unfolding t_def by (rule still_put_req [OF still_refl r]) simp_all
    have p1: "placed s1"
      using less.prems(2) in_place_preempt [of "place_of s" v "mset rs" "queued s"] m rs by (simp add: placed_def)
    have run: "sd_running t = rs" using m st by (simp add: still_def)
    obtain r0 kv c u where "s1 = u\<lparr>sd_waiting := rq_prepend (id_less env u) v (sd_waiting s)\<rparr>"
      by (rule preempt_request_cases [OF p]) (simp add: Let_def)
    then have w: "mset (rq_items (sd_waiting t)) = add_mset v (mset (rq_items (sd_waiting s)))"
      by (simp add: t_def rq_prepend_mset)
    have "mset (rq_items (sd_waiting s')) = mset (sd_running t) + mset (rq_items (sd_waiting t))"
      by (rule less.hyps [OF _ rest [folded t_def] still_placed [OF st p1]]) (simp add: run rs)
    then show ?thesis by (simp add: run w rs)
  qed
qed

text \<open>
  C16: A reset that preempts the running requests: every request that ran starts over from its first token, without
  placeholders and drafts, and waits.  The waiting queue holds these requests and those it held before; if it is a
  first-come-first-served queue, they are ahead of all others and in the order in which they ran (a priority queue
  keeps its own order).  No other request changes.
\<close>

theorem reset_preempts_all:
  assumes "rtranclp sched_moves (init_scheduler cfg kv n, None) (s, p)" "0 \<le> max_num_running_reqs cfg"
    and "sched_reset_prefix_cache env True rc s = Inr (b, s')"
  shows "sd_running s' = []
    \<and> (\<forall>x. if x \<in> set (sd_running s)
         then starts_over (map_of (sd_requests s') x) \<and> x \<in> set (rq_items (sd_waiting s'))
         else map_of (sd_requests s') x = map_of (sd_requests s) x)
    \<and> mset (rq_items (sd_waiting s')) = mset (sd_running s) + mset (rq_items (sd_waiting s))
    \<and> (\<forall>xs. sd_waiting s = FCFSQueue xs \<longrightarrow> sd_waiting s' = FCFSQueue (sd_running s @ xs))"
proof -
  have pl: "placed s" using reachable_sched_inv [OF assms(1,2)] by (auto simp: sched_inv_def)
  from assms(3) obtain s1 kv where s1: "preempt_all env s = Inr s1" and s': "s' = s1\<lparr>sd_prev_ids := {}, sd_kv := kv\<rparr>"
    unfolding sched_reset_prefix_cache_def by (auto simp: ebind_eq_Inr Let_def split_beta split: if_splits)
  have w: "set (rq_items (sd_waiting s1)) = set (sd_running s) \<union> set (rq_items (sd_waiting s))" "sd_running s1 = []"
    using preempt_all_moves [OF s1 pl] by simp_all
  have q: "if x \<in> set (sd_running s) then starts_over (map_of (sd_requests s1) x)
      else map_of (sd_requests s1) x = map_of (sd_requests s) x" for x
    using preempt_all_requests [OF s1 pl] by blast
  have "\<forall>xs. sd_waiting s = FCFSQueue xs \<longrightarrow> sd_waiting s1 = FCFSQueue (sd_running s @ xs)"
    using preempt_all_requests [OF s1 pl] by blast
  moreover have "if x \<in> set (sd_running s) then starts_over (map_of (sd_requests s1) x) \<and> x \<in> set (rq_items (sd_waiting s1))
      else map_of (sd_requests s1) x = map_of (sd_requests s) x" for x
    using q [of x] w by (auto split: if_splits)
  ultimately show ?thesis using w(2) preempt_all_waiting [OF s1 pl] by (simp add: s')
qed

theorem reset_preempts_all_witness:
  "\<exists>s out s'. example_one_step = Inr (s, out) \<and> sched_reset_prefix_cache example_sched_env True False s = Inr (True, s')
    \<and> sd_running s' = [] \<and> sd_waiting s' = FCFSQueue [''s'', ''r''] \<and> starts_over (map_of (sd_requests s') ''r'')"
proof (rule example_running)
  fix k s out t s'
  assume e: "example_one_step = Inr (s, out)"
    and r: "rtranclp sched_moves (init_scheduler (example_sched_config\<lparr>policy := FCFS\<rparr>) k 0, None) (s, Some out)"
    and q: "sd_running s = [''s'', ''r'']" "sd_waiting s = FCFSQueue []"
    and f: "sched_reset_prefix_cache example_sched_env True False s = Inr (True, s')"
  have "0 \<le> max_num_running_reqs (example_sched_config\<lparr>policy := FCFS\<rparr>)" by (simp add: example_sched_config_def)
  note res = reset_preempts_all [OF r this f]
  have "starts_over (map_of (sd_requests s') ''r'')" using res [THEN conjunct2, THEN conjunct1, THEN spec, of "''r''"] q(1) by simp
  moreover have "sd_running s' = []" "sd_waiting s' = FCFSQueue [''s'', ''r'']" using res q by simp_all
  ultimately show ?thesis using e f by blast
qed

end
