(* ===== verification/KV_Cache_Plan.thy ===== *)
theory KV_Cache_Plan
  imports KV_Cache_Spec Complex_Main
begin

text \<open>
  How the KV cache of a model is laid out before the engine starts: the second half of
  \<open>vllm/v1/core/kv_cache_utils.py\<close>.  The layers are split into groups, the memory of every worker is checked and
  turned into a number of blocks, and the scheduler gets one configuration for all workers.  What the
  functions only log is left out, unless computing it can raise.
\<close>

subsection \<open>Groups and tensors\<close>

text \<open>A group has one spec for all its layers, or one per layer (\<open>UniformTypeKVCacheSpecs\<close>).\<close>

datatype group_type = OneType layer_spec | UniformType uniform_type_specs

record kv_group =
  gr_layer_names :: "string list"
  gr_spec :: group_type

record kv_tensor =
  tn_size :: int
  tn_shared_by :: "string list"

record worker_config =
  wk_num_blocks :: int
  wk_tensors :: "kv_tensor list"
  wk_groups :: "kv_group list"

fun group_page_size :: "(string \<Rightarrow> int) \<Rightarrow> group_type \<Rightarrow> int result" where
  "group_page_size d (OneType s) = page_size_bytes d s"
| "group_page_size d (UniformType u) = uniform_page_size_bytes d u"

fun group_memory :: "(string \<Rightarrow> int) \<Rightarrow> engine_config \<Rightarrow> group_type \<Rightarrow> int result" where
  "group_memory d cfg (OneType s) = max_memory_usage_bytes d cfg s"
| "group_memory d cfg (UniformType u) = uniform_max_memory_usage_bytes d cfg u"

fun group_block_size :: "group_type \<Rightarrow> int" where
  "group_block_size (OneType s) = spec_block_size s"
| "group_block_size (UniformType u) = ut_block_size u"

text \<open>What the functions read of \<open>vllm_config\<close>; \<open>auto_fit\<close>: \<open>original_max_model_len\<close> is -1.\<close>

record plan_config =
  pc_engine :: engine_config
  num_gpu_blocks_override :: "int option"
  disable_hybrid_kv_cache_manager :: bool
  auto_fit :: bool

subsection \<open>The longest model that fits\<close>

text \<open>The loop of the binary search, \<open>res\<close> being the greatest length found to fit so far.\<close>

function search_max_len :: "(int \<Rightarrow> bool result) \<Rightarrow> int \<Rightarrow> int \<Rightarrow> int \<Rightarrow> int result" where
  "search_max_len fits left right res =
     (if left > right then Inr res
      else
        let mid = (left + right) div 2 in
        ebind (fits mid) (\<lambda>b.
          if b then search_max_len fits (mid + 1) right mid
          else search_max_len fits left (mid - 1) res))"
  by pat_completeness auto
termination
  by (relation "measure (\<lambda>(_, left, right, _). nat (right - left + 1))") auto

declare search_max_len.simps [simp del]

definition max_len_that_fits :: "(int \<Rightarrow> bool result) \<Rightarrow> int \<Rightarrow> int result" where
  "max_len_that_fits fits max_len =
     ebind (fits 1) (\<lambda>b. if \<not> b then Inr 0 else search_max_len fits 1 max_len 1)"

definition max_memory_usage_all :: "(string \<Rightarrow> int) \<Rightarrow> engine_config \<Rightarrow> layer_spec list \<Rightarrow> int result" where
  "max_memory_usage_all d cfg specs = sumE (max_memory_usage_bytes d cfg) specs"

text \<open>\<open>estimate_max_model_len\<close>: the model length of the configuration is set for the test only.\<close>

definition estimate_max_model_len ::
  "(string \<Rightarrow> int) \<Rightarrow> engine_config \<Rightarrow> (string \<times> layer_spec) list \<Rightarrow> int \<Rightarrow> int result" where
  "estimate_max_model_len d cfg specs available =
     max_len_that_fits (\<lambda>n. ebind (max_memory_usage_all d (cfg\<lparr>max_model_len := n\<rparr>) (map snd specs)) (\<lambda>m. Inr (m \<le> available)))
       (max_model_len cfg)"

text \<open>\<open>_check_enough_kv_cache_memory\<close>\<close>

definition check_enough_memory :: "int \<Rightarrow> int result \<Rightarrow> (int \<Rightarrow> int result) \<Rightarrow> unit result" where
  "check_enough_memory available needed estimate =
     (if available \<le> 0 then Inl ValueError
      else ebind needed (\<lambda>n. if n > available then ebind (estimate available) (\<lambda>_. Inl ValueError) else Inr ()))"

definition check_enough_kv_cache_memory ::
  "(string \<Rightarrow> int) \<Rightarrow> engine_config \<Rightarrow> (string \<times> layer_spec) list \<Rightarrow> int \<Rightarrow> unit result" where
  "check_enough_kv_cache_memory d cfg specs available =
     (if specs = [] then Inr ()
      else check_enough_memory available (max_memory_usage_all d cfg (map snd specs)) (estimate_max_model_len d cfg specs))"

subsection \<open>One group\<close>

definition create_group :: "(string \<times> layer_spec) list \<Rightarrow> string list \<Rightarrow> kv_group result" where
  "create_group specs names =
     ebind (collectE (\<lambda>n. dict_get n specs) names) (\<lambda>ss.
     ebind (merge_specs ss) (\<lambda>merged.
       Inr \<lparr>gr_layer_names = names, gr_spec = OneType merged\<rparr>))"

definition create_kv_cache_group_specs :: "(string \<times> layer_spec) list \<Rightarrow> string list list \<Rightarrow> kv_group list result" where
  "create_kv_cache_group_specs specs grouped = collectE (create_group specs) grouped"

definition is_kv_cache_spec_uniform :: "(string \<times> layer_spec) list \<Rightarrow> bool result" where
  "is_kv_cache_spec_uniform specs =
     (if specs = [] then Inr True
      else case merge_specs (map snd specs) of
        Inr _ \<Rightarrow> Inr True
      | Inl AssertionError \<Rightarrow> Inr False
      | Inl e \<Rightarrow> Inl e)"

definition get_kv_cache_groups_uniform_spec :: "(string \<times> layer_spec) list \<Rightarrow> kv_group list result" where
  "get_kv_cache_groups_uniform_spec specs = create_kv_cache_group_specs specs [map fst specs]"

definition get_kv_cache_groups_uniform_type :: "uniform_type_specs \<Rightarrow> kv_group list" where
  "get_kv_cache_groups_uniform_type u = [\<lparr>gr_layer_names = map fst (ut_specs u), gr_spec = UniformType u\<rparr>]"

subsection \<open>Several groups\<close>

text \<open>\<open>{layer.page_size_bytes for layer in ...}\<close>, as a list without repetitions.\<close>

definition page_sizes :: "(string \<Rightarrow> int) \<Rightarrow> (string \<times> layer_spec) list \<Rightarrow> int list result" where
  "page_sizes d specs = ebind (collectE (\<lambda>(_, s). page_size_bytes d s) specs) (\<lambda>ps. Inr (remdups ps))"

definition is_kv_cache_page_size_uniform :: "(string \<Rightarrow> int) \<Rightarrow> (string \<times> layer_spec) list \<Rightarrow> bool result" where
  "is_kv_cache_page_size_uniform d specs = ebind (page_sizes d specs) (\<lambda>ps. Inr (length ps = 1))"

definition unify_page_size :: "(string \<Rightarrow> int) \<Rightarrow> int \<Rightarrow> layer_spec \<Rightarrow> layer_spec result" where
  "unify_page_size d max_page s =
     ebind (page_size_bytes d s) (\<lambda>page.
     if page = max_page then Inr s
     else
       ebind (if page = 0 then Inl ZeroDivisionError else Inr (max_page mod page)) (\<lambda>m.
       if m \<noteq> 0 then Inl NotImplementedError
       else
         let s = copy_with_new_block_size (spec_block_size s * (max_page div page)) s in
         ebind (page_size_bytes d s) (\<lambda>new_page.
         ebind (eassert (new_page = max_page)) (\<lambda>_. Inr s))))"

definition unify_kv_cache_spec_page_size ::
  "(string \<Rightarrow> int) \<Rightarrow> (string \<times> layer_spec) list \<Rightarrow> (string \<times> layer_spec) list result" where
  "unify_kv_cache_spec_page_size d specs =
     ebind (page_sizes d specs) (\<lambda>ps.
     if length ps \<le> 1 then Inr specs
     else collectE (\<lambda>(n, s). ebind (unify_page_size d (Max (set ps)) s) (\<lambda>s. Inr (n, s))) specs)"

text \<open>The dictionary from specs to the names of their layers.\<close>

definition add_layer :: "string \<times> layer_spec \<Rightarrow> (layer_spec \<times> string list) list \<Rightarrow> (layer_spec \<times> string list) list" where
  "add_layer = (\<lambda>(n, s) d. AList.update s ((case map_of d s of None \<Rightarrow> [] | Some ns \<Rightarrow> ns) @ [n]) d)"

definition same_type_layers :: "(string \<times> layer_spec) list \<Rightarrow> (layer_spec \<times> string list) list" where
  "same_type_layers specs = fold add_layer specs []"

text \<open>The slice \<open>xs[i::n]\<close>.\<close>

definition stride :: "nat \<Rightarrow> nat \<Rightarrow> 'a list \<Rightarrow> 'a list" where
  "stride i n xs = map (\<lambda>k. xs ! k) (filter (\<lambda>k. k mod n = i) [0 ..< length xs])"

text \<open>The heuristic for the number of layers per group; \<open>max < min * 1.5\<close>.\<close>

definition layers_per_group :: "nat \<Rightarrow> nat \<Rightarrow> nat" where
  "layers_per_group min_layers max_layers = (if 2 * max_layers < 3 * min_layers then max_layers else min_layers)"

definition split_layers :: "nat \<Rightarrow> string list \<Rightarrow> string list list" where
  "split_layers group_size layers =
     (let num_groups = nat (cdiv (int (length layers)) (int group_size))
      in map (\<lambda>i. stride i num_groups layers) [0 ..< num_groups])"

definition get_kv_cache_groups_uniform_page_size :: "(string \<times> layer_spec) list \<Rightarrow> kv_group list result" where
  "get_kv_cache_groups_uniform_page_size specs =
     (let layers = map snd (same_type_layers specs); sizes = map length layers in
      if sizes = [] then Inl ValueError
      else
        let group_size = layers_per_group (Min (set sizes)) (Max (set sizes))
        in create_kv_cache_group_specs specs (concat (map (split_layers group_size) layers)))"

subsection \<open>Without the hybrid manager\<close>

definition is_sliding :: "layer_spec \<Rightarrow> bool" where
  "is_sliding s \<longleftrightarrow> (case s of SlidingWindowSpec _ _ \<Rightarrow> True | _ \<Rightarrow> False)"

definition is_chunked :: "layer_spec \<Rightarrow> bool" where
  "is_chunked s \<longleftrightarrow> (case s of ChunkedLocalAttentionSpec _ _ \<Rightarrow> True | _ \<Rightarrow> False)"

fun as_full_attention :: "layer_spec \<Rightarrow> layer_spec" where
  "as_full_attention (SlidingWindowSpec a w) = full_attention_spec a None (Some w) None"
| "as_full_attention (ChunkedLocalAttentionSpec a c) = full_attention_spec a None None (Some c)"
| "as_full_attention s = s"

definition one_type_only :: "(string \<times> layer_spec) list \<Rightarrow> bool result" where
  "one_type_only specs =
     ebind (is_kv_cache_spec_uniform specs) (\<lambda>b. if b then Inr True else is_uniform_type specs)"

definition unify_hybrid_kv_cache_specs :: "(string \<times> layer_spec) list \<Rightarrow> (string \<times> layer_spec) list result" where
  "unify_hybrid_kv_cache_specs specs =
     ebind (one_type_only specs) (\<lambda>b.
     if b then Inr specs
     else
       let ss = map snd specs;
           specs = (if (\<exists>s \<in> set ss. is_full_attention s) \<and> ((\<exists>s \<in> set ss. is_sliding s) \<or> (\<exists>s \<in> set ss. is_chunked s))
                    then map (\<lambda>(n, s). (n, as_full_attention s)) specs else specs)
       in ebind (one_type_only specs) (\<lambda>b. if b then Inr specs else Inl ValueError))"

definition get_kv_cache_groups ::
  "(string \<Rightarrow> int) \<Rightarrow> plan_config \<Rightarrow> (string \<times> layer_spec) list \<Rightarrow> kv_group list result" where
  "get_kv_cache_groups d pc specs =
     ebind (if disable_hybrid_kv_cache_manager pc then unify_hybrid_kv_cache_specs specs else Inr specs) (\<lambda>specs.
     if specs = [] then Inr []
     else
       ebind (is_kv_cache_spec_uniform specs) (\<lambda>uniform.
       if uniform then get_kv_cache_groups_uniform_spec specs
       else
         ebind (uniform_from_specs specs) (\<lambda>u.
         case u of
           Some u \<Rightarrow> Inr (get_kv_cache_groups_uniform_type u)
         | None \<Rightarrow>
             ebind (unify_kv_cache_spec_page_size d specs) get_kv_cache_groups_uniform_page_size)))"

subsection \<open>The number of blocks\<close>

definition may_override_num_blocks :: "plan_config \<Rightarrow> int \<Rightarrow> int" where
  "may_override_num_blocks pc n = (case num_gpu_blocks_override pc of None \<Rightarrow> n | Some k \<Rightarrow> k)"

definition get_num_blocks :: "plan_config \<Rightarrow> int \<Rightarrow> int \<Rightarrow> int \<Rightarrow> int result" where
  "get_num_blocks pc num_layers available page_size =
     ebind (pdiv available page_size) (\<lambda>q.
     ebind (pdiv q num_layers) (\<lambda>n. Inr (may_override_num_blocks pc (max n 0))))"

definition get_uniform_page_size :: "(string \<Rightarrow> int) \<Rightarrow> group_type list \<Rightarrow> int result" where
  "get_uniform_page_size d gs =
     ebind (collectE (group_page_size d) gs) (\<lambda>ps. case remdups ps of [p] \<Rightarrow> Inr p | _ \<Rightarrow> Inl AssertionError)"

definition max_group_size :: "kv_group list \<Rightarrow> nat" where
  "max_group_size gs = Max (set (map (length \<circ> gr_layer_names) gs))"

text \<open>Tensor \<open>i\<close> is shared by the \<open>i\<close>-th layer of every group that has one.\<close>

definition shared_layers :: "kv_group list \<Rightarrow> nat \<Rightarrow> string list" where
  "shared_layers gs i = map (\<lambda>g. gr_layer_names g ! i) (filter (\<lambda>g. i < length (gr_layer_names g)) gs)"

definition uniform_worker_config ::
  "(string \<Rightarrow> int) \<Rightarrow> plan_config \<Rightarrow> kv_group list \<Rightarrow> string list \<Rightarrow> uniform_type_specs \<Rightarrow> int \<Rightarrow> worker_config result" where
  "uniform_worker_config d pc gs names u available =
     ebind (uniform_page_size_bytes d u) (\<lambda>page.
     ebind (pdiv available page) (\<lambda>n.
     let n = may_override_num_blocks pc n in
     ebind (collectE (\<lambda>name.
              ebind (dict_get name (ut_specs u)) (\<lambda>s.
              ebind (page_size_bytes d s) (\<lambda>p. Inr \<lparr>tn_size = p * n, tn_shared_by = [name]\<rparr>))) names) (\<lambda>ts.
       Inr \<lparr>wk_num_blocks = n, wk_tensors = ts, wk_groups = gs\<rparr>)))"

definition general_worker_config ::
  "(string \<Rightarrow> int) \<Rightarrow> plan_config \<Rightarrow> kv_group list \<Rightarrow> int \<Rightarrow> worker_config result" where
  "general_worker_config d pc gs available =
     (let group_size = max_group_size gs in
      ebind (get_uniform_page_size d (map gr_spec gs)) (\<lambda>page.
      ebind (eassert (group_size > 0)) (\<lambda>_.
      ebind (get_num_blocks pc (int group_size) available page) (\<lambda>n.
        Inr \<lparr>wk_num_blocks = n,
             wk_tensors = map (\<lambda>i. \<lparr>tn_size = page * n, tn_shared_by = shared_layers gs i\<rparr>) [0 ..< group_size],
             wk_groups = gs\<rparr>))))"

definition get_kv_cache_config_from_groups ::
  "(string \<Rightarrow> int) \<Rightarrow> plan_config \<Rightarrow> kv_group list \<Rightarrow> int \<Rightarrow> worker_config result" where
  "get_kv_cache_config_from_groups d pc gs available =
     (case gs of
        [] \<Rightarrow> Inr \<lparr>wk_num_blocks = 1, wk_tensors = [], wk_groups = []\<rparr>
      | [g] \<Rightarrow> (case gr_spec g of
                 UniformType u \<Rightarrow> uniform_worker_config d pc gs (gr_layer_names g) u available
               | OneType _ \<Rightarrow> general_worker_config d pc gs available)
      | _ \<Rightarrow> general_worker_config d pc gs available)"

subsection \<open>Memory of the groups\<close>

text \<open>\<open>_max_memory_usage_bytes_from_groups\<close>: padding layers count too.\<close>

definition general_memory :: "(string \<Rightarrow> int) \<Rightarrow> engine_config \<Rightarrow> kv_group list \<Rightarrow> int result" where
  "general_memory d cfg gs =
     ebind (get_uniform_page_size d (map gr_spec gs)) (\<lambda>page.
     ebind (sumE (\<lambda>g. ebind (group_memory d cfg (gr_spec g)) (\<lambda>m. pcdiv m page)) gs) (\<lambda>blocks_needed.
       Inr (int (max_group_size gs) * page * blocks_needed)))"

definition max_memory_usage_bytes_from_groups :: "(string \<Rightarrow> int) \<Rightarrow> engine_config \<Rightarrow> kv_group list \<Rightarrow> int result" where
  "max_memory_usage_bytes_from_groups d cfg gs =
     (case gs of
        [] \<Rightarrow> Inr 0
      | [g] \<Rightarrow> (case gr_spec g of
                 UniformType u \<Rightarrow> max_memory_usage_all d cfg (map snd (ut_specs u))
               | OneType _ \<Rightarrow> general_memory d cfg gs)
      | _ \<Rightarrow> general_memory d cfg gs)"

definition estimate_max_model_len_from_groups ::
  "(string \<Rightarrow> int) \<Rightarrow> engine_config \<Rightarrow> kv_group list \<Rightarrow> int \<Rightarrow> int result" where
  "estimate_max_model_len_from_groups d cfg gs available =
     max_len_that_fits (\<lambda>n. ebind (max_memory_usage_bytes_from_groups d (cfg\<lparr>max_model_len := n\<rparr>) gs) (\<lambda>m. Inr (m \<le> available)))
       (max_model_len cfg)"

text \<open>\<open>_auto_fit_max_model_len\<close>, with the configuration it leaves.\<close>

definition fit_worker :: "(string \<Rightarrow> int) \<Rightarrow> engine_config \<Rightarrow> kv_group list \<times> int \<Rightarrow> int \<Rightarrow> int result" where
  "fit_worker d cfg = (\<lambda>(gs, mem) best.
     if gs = [] then Inr best
     else ebind (estimate_max_model_len_from_groups d cfg gs mem) (\<lambda>n. Inr (if n < best then n else best)))"

definition auto_fit_max_model_len ::
  "(string \<Rightarrow> int) \<Rightarrow> engine_config \<Rightarrow> kv_group list list \<Rightarrow> int list \<Rightarrow> engine_config result" where
  "auto_fit_max_model_len d cfg per_worker available =
     (if \<forall>gs \<in> set per_worker. gs = [] then Inr cfg
      else
        ebind (py_index available 0) (\<lambda>_.
        ebind (foldE (fit_worker d cfg) (zip per_worker available) (max_model_len cfg)) (\<lambda>best.
        if best \<le> 0 then Inl ValueError
        else if best \<ge> max_model_len cfg then Inr cfg
        else Inr (cfg\<lparr>max_model_len := best\<rparr>))))"

subsection \<open>All workers\<close>

definition project_group :: "(string \<times> layer_spec) list \<Rightarrow> kv_group \<Rightarrow> kv_group result" where
  "project_group worker_spec g =
     (let names = filter (\<lambda>n. map_of worker_spec n \<noteq> None) (gr_layer_names g) in
      case gr_spec g of
        UniformType u \<Rightarrow>
          if names = [] then Inr \<lparr>gr_layer_names = names, gr_spec = gr_spec g\<rparr>
          else
            ebind (collectE (\<lambda>n. ebind (dict_get n (ut_specs u)) (\<lambda>s. Inr (n, s))) names) (\<lambda>ss.
              Inr \<lparr>gr_layer_names = names, gr_spec = UniformType (u\<lparr>ut_specs := ss\<rparr>)\<rparr>)
      | OneType s \<Rightarrow> Inr \<lparr>gr_layer_names = names, gr_spec = OneType s\<rparr>)"

definition project_kv_cache_groups_to_worker :: "kv_group list \<Rightarrow> (string \<times> layer_spec) list \<Rightarrow> kv_group list result" where
  "project_kv_cache_groups_to_worker gs worker_spec = collectE (project_group worker_spec) gs"

definition merge_layer :: "string \<times> layer_spec \<Rightarrow> (string \<times> layer_spec) list \<Rightarrow> (string \<times> layer_spec) list result" where
  "merge_layer = (\<lambda>(n, s) merged.
     case map_of merged n of
       None \<Rightarrow> Inr (merged @ [(n, s)])
     | Some t \<Rightarrow> ebind (eassert (t = s)) (\<lambda>_. Inr merged))"

definition merge_worker_specs :: "(string \<times> layer_spec) list list \<Rightarrow> (string \<times> layer_spec) list result" where
  "merge_worker_specs workers = foldE merge_layer (concat workers) []"

definition get_max_concurrency_for_kv_cache_config ::
  "(string \<Rightarrow> int) \<Rightarrow> engine_config \<Rightarrow> worker_config \<Rightarrow> rat result" where
  "get_max_concurrency_for_kv_cache_config d cfg w =
     (case wk_groups w of
        [] \<Rightarrow> Inl ValueError
      | g # _ \<Rightarrow>
          let num_layers = int (max_group_size (wk_groups w)) in
          ebind (sumE (\<lambda>g. group_memory d cfg (gr_spec g)) (wk_groups w)) (\<lambda>mem.
          ebind (group_page_size d (gr_spec g)) (\<lambda>page.
          ebind (pcdiv (num_layers * mem) (page * num_layers)) (\<lambda>per_request.
            if per_request = 0 then Inl ZeroDivisionError
            else Inr (of_int (wk_num_blocks w) / of_int per_request)))))"

text \<open>\<open>_report_kv_cache_config\<close>: the number of tokens and the concurrency that are logged.\<close>

definition report_kv_cache_config :: "(string \<Rightarrow> int) \<Rightarrow> engine_config \<Rightarrow> worker_config \<Rightarrow> (int \<times> rat) result" where
  "report_kv_cache_config d cfg w =
     (if wk_groups w = [] then Inl ValueError
      else
        let min_block_size = Min (set (map (group_block_size \<circ> gr_spec) (wk_groups w)));
            n = wk_num_blocks w div int (length (wk_groups w)) * min_block_size;
            world = prefill_context_parallel_size cfg * decode_context_parallel_size cfg;
            n = (if world > 1 then n * world else n)
        in ebind (get_max_concurrency_for_kv_cache_config d cfg w) (\<lambda>c. Inr (n, c)))"

text \<open>Every worker gets the smallest number of blocks, and its tensors shrink with it.\<close>

definition shrink_tensor :: "int \<Rightarrow> int \<Rightarrow> kv_tensor \<Rightarrow> kv_tensor result" where
  "shrink_tensor old new t =
     ebind (if old = 0 then Inl ZeroDivisionError else Inr (tn_size t mod old)) (\<lambda>m.
     ebind (eassert (m = 0)) (\<lambda>_. Inr (t\<lparr>tn_size := tn_size t div old * new\<rparr>)))"

definition shrink_worker :: "(string \<Rightarrow> int) \<Rightarrow> engine_config \<Rightarrow> int \<Rightarrow> worker_config \<Rightarrow> worker_config result" where
  "shrink_worker d cfg n w =
     ebind (collectE (shrink_tensor (wk_num_blocks w) n) (wk_tensors w)) (\<lambda>ts.
     let w = w\<lparr>wk_num_blocks := n, wk_tensors := ts\<rparr> in
     ebind (if wk_groups w \<noteq> [] then ebind (report_kv_cache_config d cfg w) (\<lambda>_. Inr ()) else Inr ()) (\<lambda>_. Inr w))"

definition check_worker :: "(string \<Rightarrow> int) \<Rightarrow> engine_config \<Rightarrow> kv_group list \<times> int \<Rightarrow> unit \<Rightarrow> unit result" where
  "check_worker d cfg = (\<lambda>(gs, mem) _.
     if gs = [] then Inr ()
     else check_enough_memory mem (max_memory_usage_bytes_from_groups d cfg gs)
            (estimate_max_model_len_from_groups d cfg gs))"

definition worker_config_of ::
  "(string \<Rightarrow> int) \<Rightarrow> plan_config \<Rightarrow> kv_group list \<times> (string \<times> layer_spec) list \<times> int \<Rightarrow> worker_config result" where
  "worker_config_of d pc = (\<lambda>(gs, spec, mem).
     ebind (eassert (sum_list (map (length \<circ> gr_layer_names) gs) = length spec)) (\<lambda>_.
       get_kv_cache_config_from_groups d pc gs mem))"

definition get_kv_cache_configs ::
  "(string \<Rightarrow> int) \<Rightarrow> plan_config \<Rightarrow> (string \<times> layer_spec) list list \<Rightarrow> int list \<Rightarrow> (engine_config \<times> worker_config list) result" where
  "get_kv_cache_configs d pc workers available =
     ebind (merge_worker_specs workers) (\<lambda>merged.
     ebind (get_kv_cache_groups d pc merged) (\<lambda>groups.
     ebind (collectE (project_kv_cache_groups_to_worker groups) workers) (\<lambda>projected.
     ebind (if auto_fit pc then auto_fit_max_model_len d (pc_engine pc) projected available else Inr (pc_engine pc)) (\<lambda>cfg.
     ebind (foldE (check_worker d cfg) (zip projected available) ()) (\<lambda>_.
     ebind (collectE (worker_config_of d pc) (zip projected (zip workers available))) (\<lambda>configs.
     if configs = [] then Inl ValueError
     else
       ebind (collectE (shrink_worker d cfg (Min (set (map wk_num_blocks configs)))) configs) (\<lambda>configs.
         Inr (cfg, configs))))))))"

text \<open>What the scheduler gets: the configuration of any worker, with one spec per group.\<close>

definition scheduler_group :: "kv_group \<Rightarrow> kv_cache_group_spec result" where
  "scheduler_group g =
     (case gr_spec g of
        OneType s \<Rightarrow> Inr \<lparr>layer_names = gr_layer_names g, kv_cache_spec = s\<rparr>
      | UniformType u \<Rightarrow>
          (case ut_specs u of
             [] \<Rightarrow> Inl StopIteration
           | (_, s) # _ \<Rightarrow> Inr \<lparr>layer_names = gr_layer_names g, kv_cache_spec = s\<rparr>))"

definition generate_scheduler_kv_cache_config :: "worker_config list \<Rightarrow> kv_cache_config result" where
  "generate_scheduler_kv_cache_config ws =
     (case ws of
        [] \<Rightarrow> Inl IndexError
      | w # _ \<Rightarrow>
          ebind (eassert (\<forall>v \<in> set ws. wk_num_blocks v = wk_num_blocks w)) (\<lambda>_.
          ebind (collectE scheduler_group (wk_groups w)) (\<lambda>gs.
            Inr \<lparr>num_blocks = wk_num_blocks w, kv_cache_groups = gs\<rparr>)))"

end
