(* ===== verification/Plan_Memory.thy ===== *)
theory Plan_Memory
  imports KV_Cache_Plan
begin

text \<open>
  The longest model that fits (\<open>kv_cache_utils.py\<close>): the binary search finds the greatest length that passes a
  monotone test, the memory of the groups grows with the model length, and the length that all workers
  can serve is found.
\<close>

subsection \<open>The binary search\<close>

text \<open>The greatest length up to \<open>k\<close> that passes a test which every shorter length passes too.\<close>

definition greatest_fitting :: "(int \<Rightarrow> bool result) \<Rightarrow> int \<Rightarrow> int \<Rightarrow> bool" where
  "greatest_fitting fits k n \<longleftrightarrow> 1 \<le> n \<and> n \<le> k \<and> fits n = Inr True \<and> (\<forall>m. n < m \<and> m \<le> k \<longrightarrow> fits m = Inr False)"

definition monotone_test :: "(int \<Rightarrow> bool result) \<Rightarrow> int \<Rightarrow> bool" where
  "monotone_test fits k \<longleftrightarrow> (\<forall>n. 1 \<le> n \<and> n \<le> k \<longrightarrow> (\<exists>b. fits n = Inr b))
     \<and> (\<forall>m n. 1 \<le> m \<and> m \<le> n \<and> n \<le> k \<and> fits n = Inr True \<longrightarrow> fits m = Inr True)"

lemma search_max_len_spec:
  assumes t: "monotone_test fits k"
    and "1 \<le> left" "left \<le> right + 1" "right \<le> k" "1 \<le> res" "res \<le> k" "fits res = Inr True"
      "res = left - 1 \<or> res = 1 \<and> left = 1" "\<And>n. right < n \<Longrightarrow> n \<le> k \<Longrightarrow> fits n = Inr False"
  shows "\<exists>n. search_max_len fits left right res = Inr n \<and> greatest_fitting fits k n"
  using assms(2-)
proof (induction "nat (right - left + 1)" arbitrary: left right res rule: less_induct)
  case less
  show ?case
  proof (cases "left > right")
    case True
    have "fits m = Inr False" if "res < m" "m \<le> k" for m
    proof -
      have "right < m" using less.prems(1-7) True that by linarith
      then show ?thesis by (rule less.prems(8) [OF _ that(2)])
    qed
    then show ?thesis using True less.prems(4-6) by (subst search_max_len.simps) (simp add: greatest_fitting_def)
  next
    case False
    define mid where "mid = (left + right) div 2"
    have m: "left \<le> mid" "mid \<le> right" "1 \<le> mid" "mid \<le> k" using False less.prems(1,3) by (auto simp: mid_def)
    obtain b where b: "fits mid = Inr b" using t m by (auto simp: monotone_test_def)
    have step: "search_max_len fits left right res
        = (if b then search_max_len fits (mid + 1) right mid else search_max_len fits left (mid - 1) res)"
      using False b by (subst search_max_len.simps) (simp add: mid_def Let_def)
    show ?thesis
    proof (cases b)
      case True
      have "\<exists>n. search_max_len fits (mid + 1) right mid = Inr n \<and> greatest_fitting fits k n"
        by (rule less.hyps) (use m less.prems b True in auto)
      then show ?thesis using step True by simp
    next
      case b': False
      have later: "fits n = Inr False" if "mid - 1 < n" "n \<le> k" for n
      proof -
        have n: "1 \<le> n" "n \<le> k" using m that by linarith+
        obtain c where c: "fits n = Inr c" using t n by (auto simp: monotone_test_def)
        have "\<not> c"
        proof
          assume c
          then have "1 \<le> mid \<and> mid \<le> n \<and> n \<le> k \<and> fits n = Inr True" using m that n c by simp
          then have "fits mid = Inr True" using t unfolding monotone_test_def by blast
          then show False using b b' by simp
        qed
        then show ?thesis using c by simp
      qed
      have "\<exists>n. search_max_len fits left (mid - 1) res = Inr n \<and> greatest_fitting fits k n"
        by (rule less.hyps) (use m less.prems later in auto)
      then show ?thesis using step b' by simp
    qed
  qed
qed

lemma max_len_that_fits_spec:
  assumes "monotone_test fits k" "1 \<le> k"
  shows "\<exists>n. max_len_that_fits fits k = Inr n \<and> (if fits 1 = Inr False then n = 0 else greatest_fitting fits k n)"
proof -
  obtain b where b: "fits 1 = Inr b" using assms by (auto simp: monotone_test_def)
  show ?thesis
  proof (cases b)
    case True
    have "\<exists>n. search_max_len fits 1 k 1 = Inr n \<and> greatest_fitting fits k n"
      by (rule search_max_len_spec) (use assms b True in auto)
    then show ?thesis using b True by (simp add: max_len_that_fits_def)
  qed (use b in \<open>simp add: max_len_that_fits_def\<close>)
qed

subsection \<open>Memory grows with the length\<close>

text \<open>A layer whose sizes the configuration can compute: positive block and page size.\<close>

definition sized_spec :: "(string \<Rightarrow> int) \<Rightarrow> engine_config \<Rightarrow> layer_spec \<Rightarrow> bool" where
  "sized_spec d cfg s \<longleftrightarrow> 0 < spec_block_size s \<and> (\<exists>p > 0. page_size_bytes d s = Inr p)
     \<and> (is_sliding s \<longrightarrow> decode_context_parallel_size cfg = 1)"

lemma sized_spec_len [simp]: "sized_spec d (cfg\<lparr>max_model_len := n\<rparr>) s = sized_spec d cfg s"
  by (simp add: sized_spec_def)

lemma max_pages_mono:
  assumes "sized_spec d cfg s" "m \<le> n"
  shows "\<exists>a b. max_pages (cfg\<lparr>max_model_len := m\<rparr>) s = Inr a \<and> max_pages (cfg\<lparr>max_model_len := n\<rparr>) s = Inr b \<and> a \<le> b"
proof -
  have bs: "0 < spec_block_size s" using assms(1) by (simp add: sized_spec_def)
  have full: "\<exists>a b. (let world = decode_context_parallel_size cfg * prefill_context_parallel_size cfg in
      ebind (if world > 1 then pcdiv m world else Inr m) (\<lambda>len. pcdiv len (spec_block_size s))) = Inr a
    \<and> (let world = decode_context_parallel_size cfg * prefill_context_parallel_size cfg in
      ebind (if world > 1 then pcdiv n world else Inr n) (\<lambda>len. pcdiv len (spec_block_size s))) = Inr b \<and> a \<le> b"
  proof -
    define w where "w = decode_context_parallel_size cfg * prefill_context_parallel_size cfg"
    have "w > 1 \<Longrightarrow> w \<noteq> 0" by simp
    then show ?thesis unfolding w_def [symmetric] Let_def using bs assms(2) by (cases "w > 1") (auto intro!: cdiv_mono)
  qed
  show ?thesis
  proof (cases s)
    case (SlidingWindowSpec a w)
    then show ?thesis using assms bs by (auto simp: sized_spec_def is_sliding_def intro!: cdiv_mono)
  next
    case (ChunkedLocalAttentionSpec a c)
    then show ?thesis using assms bs by (auto intro!: cdiv_mono)
  next
    case (MambaSpec mb)
    then show ?thesis using assms bs by (auto intro!: cdiv_mono)
  qed (use full bs in \<open>auto cong: if_cong\<close>)
qed

lemma max_memory_mono:
  assumes "sized_spec d cfg s" "m \<le> n"
  shows "\<exists>a b. max_memory_usage_bytes d (cfg\<lparr>max_model_len := m\<rparr>) s = Inr a
    \<and> max_memory_usage_bytes d (cfg\<lparr>max_model_len := n\<rparr>) s = Inr b \<and> a \<le> b"
proof -
  obtain p where p: "0 < p" "page_size_bytes d s = Inr p" using assms(1) by (auto simp: sized_spec_def)
  obtain a b where ab: "max_pages (cfg\<lparr>max_model_len := m\<rparr>) s = Inr a" "max_pages (cfg\<lparr>max_model_len := n\<rparr>) s = Inr b" "a \<le> b"
    using max_pages_mono [OF assms] by blast
  have "max_memory_usage_bytes d c s = (case s of EncoderOnlyAttentionSpec _ \<Rightarrow> Inr 0 | _ \<Rightarrow> Inr (k * p))"
    if "max_pages c s = Inr k" for c k using that p(2) by (cases s) (simp_all add: max_memory_usage_bytes_def)
  then show ?thesis using ab p(1) by (cases s) (auto simp: mult_right_mono)
qed


subsection \<open>Memory of the groups\<close>

definition sized_group :: "(string \<Rightarrow> int) \<Rightarrow> engine_config \<Rightarrow> group_type \<Rightarrow> bool" where
  "sized_group d cfg g \<longleftrightarrow> (case g of OneType s \<Rightarrow> sized_spec d cfg s
     | UniformType u \<Rightarrow> ut_specs u \<noteq> [] \<and> (\<forall>s \<in> snd ` set (ut_specs u). sized_spec d cfg s))"

lemma sized_group_len [simp]: "sized_group d (cfg\<lparr>max_model_len := n\<rparr>) g = sized_group d cfg g"
  by (cases g) (simp_all add: sized_group_def)

lemma sumE_mono:
  assumes "\<And>x. x \<in> set xs \<Longrightarrow> \<exists>a b. f x = Inr a \<and> g x = Inr b \<and> (a :: int) \<le> b"
  shows "\<exists>a b. sumE f xs = Inr a \<and> sumE g xs = Inr b \<and> a \<le> b"
  using assms
proof (induction xs)
  case (Cons x xs)
  obtain a b where "f x = Inr a" "g x = Inr b" "a \<le> b" using Cons.prems by (meson list.set_intros(1))
  moreover obtain a' b' where "sumE f xs = Inr a'" "sumE g xs = Inr b'" "a' \<le> b'"
    using Cons.IH Cons.prems by (meson list.set_intros(2))
  ultimately show ?case by auto
qed simp

lemma sum_page_sizes_pos:
  assumes "\<forall>s \<in> set ss. sized_spec d cfg s"
  shows "\<exists>p. sum_page_sizes d ss = Inr p \<and> 0 \<le> p \<and> (ss \<noteq> [] \<longrightarrow> 0 < p)"
  using assms
proof (induction ss)
  case (Cons s ss)
  then obtain p q where "page_size_bytes d s = Inr p" "0 < p" "sum_page_sizes d ss = Inr q" "0 \<le> q"
    by (auto simp: sized_spec_def)
  then show ?case by auto
qed simp

lemma max_num_pages_mono:
  assumes "\<forall>s \<in> set ss. sized_spec d cfg s" "m \<le> n" "ss \<noteq> [] \<or> acc \<noteq> None" "rel_option (\<le>) acc acc'"
  shows "\<exists>a b. max_num_pages d (cfg\<lparr>max_model_len := m\<rparr>) ss acc = Inr a \<and> max_num_pages d (cfg\<lparr>max_model_len := n\<rparr>) ss acc' = Inr b \<and> a \<le> b"
  using assms
proof (induction ss arbitrary: acc acc')
  case Nil
  then show ?case by (auto simp: option_rel_Some1 elim: option.rel_cases)
next
  case (Cons s ss)
  have s: "sized_spec d cfg s" using Cons.prems by simp
  obtain p where p: "page_size_bytes d s = Inr p" "0 < p" using s by (auto simp: sized_spec_def)
  obtain a b where ab: "max_memory_usage_bytes d (cfg\<lparr>max_model_len := m\<rparr>) s = Inr a" "max_memory_usage_bytes d (cfg\<lparr>max_model_len := n\<rparr>) s = Inr b" "a \<le> b"
    using max_memory_mono [OF s Cons.prems(2)] by blast
  have c: "cdiv a p \<le> cdiv b p" by (rule cdiv_mono [OF p(2) ab(3)])
  have "rel_option (\<le>) (Some (case acc of None \<Rightarrow> cdiv a p | Some m \<Rightarrow> max m (cdiv a p)))
      (Some (case acc' of None \<Rightarrow> cdiv b p | Some m \<Rightarrow> max m (cdiv b p)))"
    using Cons.prems(4) c by (auto elim!: option.rel_cases)
  from Cons.IH [OF _ Cons.prems(2) _ this] Cons.prems(1) show ?case using ab p by auto
qed

lemma group_memory_mono:
  assumes "sized_group d cfg g" "m \<le> n"
  shows "\<exists>a b. group_memory d (cfg\<lparr>max_model_len := m\<rparr>) g = Inr a \<and> group_memory d (cfg\<lparr>max_model_len := n\<rparr>) g = Inr b \<and> a \<le> b"
proof (cases g)
  case (OneType s)
  then show ?thesis using assms max_memory_mono by (simp add: sized_group_def)
next
  case (UniformType u)
  have s: "\<forall>s \<in> set (map snd (ut_specs u)). sized_spec d cfg s" "map snd (ut_specs u) \<noteq> []"
    using assms(1) UniformType by (auto simp: sized_group_def)
  obtain p where p: "uniform_page_size_bytes d u = Inr p" "0 \<le> p"
    using sum_page_sizes_pos [OF s(1)] by (auto simp: uniform_page_size_bytes_def)
  obtain a b where "max_num_pages d (cfg\<lparr>max_model_len := m\<rparr>) (map snd (ut_specs u)) None = Inr a"
    "max_num_pages d (cfg\<lparr>max_model_len := n\<rparr>) (map snd (ut_specs u)) None = Inr b" "a \<le> b"
    using max_num_pages_mono [OF s(1) assms(2), of None None] s(2) by auto
  then show ?thesis using UniformType p by (simp add: uniform_max_memory_usage_bytes_def mult_right_mono)
qed

lemma group_page_pos: "sized_group d cfg g \<Longrightarrow> \<exists>p > 0. group_page_size d g = Inr p"
  using sum_page_sizes_pos [of "map snd (ut_specs u)" d cfg for u]
  by (cases g) (auto simp: sized_group_def sized_spec_def uniform_page_size_bytes_def)

text \<open>The groups of a worker that a configuration can be made of: sizes known, and one page size unless it is a single group.\<close>

definition sized_groups :: "(string \<Rightarrow> int) \<Rightarrow> engine_config \<Rightarrow> kv_group list \<Rightarrow> bool" where
  "sized_groups d cfg gs \<longleftrightarrow> (\<forall>g \<in> set gs. sized_group d cfg (gr_spec g))
     \<and> (\<forall>g \<in> set gs. \<forall>h \<in> set gs. group_page_size d (gr_spec g) = group_page_size d (gr_spec h))"

lemma collectE_const:
  assumes "\<And>x. x \<in> set xs \<Longrightarrow> f x = Inr p"
  shows "collectE f xs = Inr (replicate (length xs) p)"
  using assms by (induction xs) auto

lemma uniform_page_size:
  assumes "sized_groups d cfg gs" "gs \<noteq> []"
  obtains p where "get_uniform_page_size d (map gr_spec gs) = Inr p" "0 < p" "\<forall>g \<in> set gs. group_page_size d (gr_spec g) = Inr p"
proof -
  obtain p where p: "0 < p" "group_page_size d (gr_spec (hd gs)) = Inr p"
    using group_page_pos [of d cfg "gr_spec (hd gs)"] assms by (auto simp: sized_groups_def)
  have all: "\<forall>g \<in> set gs. group_page_size d (gr_spec g) = Inr p" using assms p(2) by (metis list.set_sel(1) sized_groups_def)
  have "collectE (group_page_size d) (map gr_spec gs) = Inr (replicate (length gs) p)"
    using collectE_const [of "map gr_spec gs" "group_page_size d" p] all by auto
  moreover have "remdups (replicate (Suc n) p) = [p]" for n by (induction n) auto
  then have "remdups (replicate (length gs) p) = [p]" using assms(2) by (cases gs) (auto simp del: replicate_Suc)
  ultimately show thesis using that p(1) all by (simp add: get_uniform_page_size_def)
qed

subsection \<open>The greatest model length\<close>

lemma blocks_needed_mono:
  assumes "sized_group d cfg g" "m \<le> n" "0 < page"
  shows "\<exists>a b. ebind (group_memory d (cfg\<lparr>max_model_len := m\<rparr>) g) (\<lambda>k. pcdiv k page) = Inr a
    \<and> ebind (group_memory d (cfg\<lparr>max_model_len := n\<rparr>) g) (\<lambda>k. pcdiv k page) = Inr b \<and> a \<le> b"
proof -
  obtain a b where "group_memory d (cfg\<lparr>max_model_len := m\<rparr>) g = Inr a"
    "group_memory d (cfg\<lparr>max_model_len := n\<rparr>) g = Inr b" "a \<le> b"
    using group_memory_mono [OF assms(1,2)] by blast
  then show ?thesis using assms(3) by (auto intro: cdiv_mono)
qed

lemma general_memory_mono:
  assumes g: "sized_groups d cfg gs" "gs \<noteq> []" and "m \<le> n"
  shows "\<exists>a b. general_memory d (cfg\<lparr>max_model_len := m\<rparr>) gs = Inr a \<and> general_memory d (cfg\<lparr>max_model_len := n\<rparr>) gs = Inr b \<and> a \<le> b"
proof -
  obtain p where p: "get_uniform_page_size d (map gr_spec gs) = Inr p" "0 < p" by (rule uniform_page_size [OF g])
  let ?f = "\<lambda>k g. ebind (group_memory d (cfg\<lparr>max_model_len := k\<rparr>) (gr_spec g)) (\<lambda>m. pcdiv m p)"
  obtain a b where "sumE (?f m) gs = Inr a" "sumE (?f n) gs = Inr b" "a \<le> b"
    using sumE_mono [of gs "?f m" "?f n"] blocks_needed_mono [OF _ assms(3) p(2)] g(1) by (auto simp: sized_groups_def)
  then show ?thesis using p by (auto simp: general_memory_def mult_left_mono)
qed

lemma memory_from_groups_mono:
  assumes g: "sized_groups d cfg gs" and "m \<le> n"
  shows "\<exists>a b. max_memory_usage_bytes_from_groups d (cfg\<lparr>max_model_len := m\<rparr>) gs = Inr a
    \<and> max_memory_usage_bytes_from_groups d (cfg\<lparr>max_model_len := n\<rparr>) gs = Inr b \<and> a \<le> b"
proof (cases "\<exists>x u. gs = [x] \<and> gr_spec x = UniformType u")
  case True
  then obtain x u where x: "gs = [x]" "gr_spec x = UniformType u" by blast
  have "sized_spec d cfg s" if "s \<in> set (map snd (ut_specs u))" for s
    using g x that by (auto simp: sized_groups_def sized_group_def)
  then have "\<exists>a b. max_memory_usage_all d (cfg\<lparr>max_model_len := m\<rparr>) (map snd (ut_specs u)) = Inr a
      \<and> max_memory_usage_all d (cfg\<lparr>max_model_len := n\<rparr>) (map snd (ut_specs u)) = Inr b \<and> a \<le> b"
    unfolding max_memory_usage_all_def by (intro sumE_mono max_memory_mono [OF _ assms(2)])
  then show ?thesis using x by (simp add: max_memory_usage_bytes_from_groups_def)
next
  case False
  have "max_memory_usage_bytes_from_groups d c gs = (if gs = [] then Inr 0 else general_memory d c gs)" for c
    using False by (auto simp: max_memory_usage_bytes_from_groups_def split: list.splits group_type.splits)
  then show ?thesis using general_memory_mono [OF g _ assms(2)] by (cases "gs = []") auto
qed

definition memory_fits :: "(string \<Rightarrow> int) \<Rightarrow> engine_config \<Rightarrow> kv_group list \<Rightarrow> int \<Rightarrow> int \<Rightarrow> bool" where
  "memory_fits d cfg gs available n \<longleftrightarrow>
     (\<exists>m. max_memory_usage_bytes_from_groups d (cfg\<lparr>max_model_len := n\<rparr>) gs = Inr m \<and> m \<le> available)"

lemma estimate_spec:
  assumes g: "sized_groups d cfg gs" and pos: "1 \<le> max_model_len cfg"
  shows "\<exists>n. estimate_max_model_len_from_groups d cfg gs available = Inr n \<and> 0 \<le> n \<and> n \<le> max_model_len cfg
    \<and> (\<forall>m. 1 \<le> m \<and> m \<le> max_model_len cfg \<longrightarrow> memory_fits d cfg gs available m = (m \<le> n))"
proof -
  define fits where "fits = (\<lambda>n. ebind (max_memory_usage_bytes_from_groups d (cfg\<lparr>max_model_len := n\<rparr>) gs) (\<lambda>m. Inr (m \<le> available)))"
  let ?k = "max_model_len cfg"
  have fits: "fits m = Inr (memory_fits d cfg gs available m)" for m
    using memory_from_groups_mono [OF g order_refl, of m] by (auto simp: fits_def memory_fits_def)
  have mono: "memory_fits d cfg gs available m" if "m \<le> n" "memory_fits d cfg gs available n" for m n
    using memory_from_groups_mono [OF g that(1)] that(2) by (auto simp: memory_fits_def)
  have "monotone_test fits ?k" unfolding monotone_test_def fits using mono by blast
  from max_len_that_fits_spec [OF this pos] obtain n where n: "max_len_that_fits fits ?k = Inr n"
    "if fits 1 = Inr False then n = 0 else greatest_fitting fits ?k n" by blast
  have e: "estimate_max_model_len_from_groups d cfg gs available = Inr n"
    using n(1) by (simp add: estimate_max_model_len_from_groups_def fits_def)
  show ?thesis
  proof (cases "fits 1 = Inr False")
    case True
    have "\<not> memory_fits d cfg gs available m" if "1 \<le> m" for m using mono [OF that] True fits by auto
    then show ?thesis using e n(2) True pos by (intro exI [of _ n]) auto
  next
    case False
    then have gr: "greatest_fitting fits ?k n" using n(2) by simp
    have "memory_fits d cfg gs available m = (m \<le> n)" if "1 \<le> m" "m \<le> ?k" for m
    proof (cases "m \<le> n")
      case True
      then show ?thesis using mono [OF True] gr fits by (simp add: greatest_fitting_def)
    next
      case False
      then have "fits m = Inr False" using gr that by (simp add: greatest_fitting_def)
      then show ?thesis using False fits by simp
    qed
    then show ?thesis using e gr by (intro exI [of _ n]) (auto simp: greatest_fitting_def)
  qed
qed

subsection \<open>Fitting the model length to the workers\<close>

definition every_worker_fits :: "(string \<Rightarrow> int) \<Rightarrow> engine_config \<Rightarrow> (kv_group list \<times> int) list \<Rightarrow> int \<Rightarrow> bool" where
  "every_worker_fits d cfg ws n \<longleftrightarrow> (\<forall>(gs, mem) \<in> set ws. gs \<noteq> [] \<longrightarrow> memory_fits d cfg gs mem n)"

lemma auto_fit_fold:
  assumes "\<forall>(gs, mem) \<in> set ws. sized_groups d cfg gs" "1 \<le> max_model_len cfg" "0 \<le> best" "best \<le> max_model_len cfg"
  shows "\<exists>n. foldE (fit_worker d cfg) ws best = Inr n
    \<and> 0 \<le> n \<and> n \<le> best
    \<and> (\<forall>m. 1 \<le> m \<and> m \<le> max_model_len cfg \<longrightarrow> (m \<le> n) = (m \<le> best \<and> every_worker_fits d cfg ws m))"
  using assms
proof (induction ws arbitrary: best)
  case (Cons w ws)
  obtain gs mem where w: "w = (gs, mem)" by (cases w)
  show ?case
  proof (cases "gs = []")
    case True
    then show ?thesis using Cons.IH [of best] Cons.prems w by (auto simp: every_worker_fits_def fit_worker_def)
  next
    case False
    have "sized_groups d cfg gs" using Cons.prems(1) w by simp
    from estimate_spec [OF this Cons.prems(2), of mem] obtain k where
      k: "estimate_max_model_len_from_groups d cfg gs mem = Inr k" "0 \<le> k"
      "\<forall>m. 1 \<le> m \<and> m \<le> max_model_len cfg \<longrightarrow> memory_fits d cfg gs mem m = (m \<le> k)" by blast
    define best' where "best' = (if k < best then k else best)"
    have b: "0 \<le> best'" "best' \<le> max_model_len cfg" using Cons.prems k(2) by (auto simp: best'_def)
    have "\<forall>(gs, mem) \<in> set ws. sized_groups d cfg gs" using Cons.prems(1) by simp
    from Cons.IH [OF this Cons.prems(2) b] obtain n where
      n: "foldE (fit_worker d cfg) ws best' = Inr n"
      "0 \<le> n" "n \<le> best'"
      "\<forall>m. 1 \<le> m \<and> m \<le> max_model_len cfg \<longrightarrow> (m \<le> n) = (m \<le> best' \<and> every_worker_fits d cfg ws m)"
      by blast
    have "(m \<le> n) = (m \<le> best \<and> every_worker_fits d cfg (w # ws) m)" if "1 \<le> m" "m \<le> max_model_len cfg" for m
      using n(4) k(3) that False w by (auto simp: every_worker_fits_def best'_def)
    moreover have "fit_worker d cfg w best = Inr best'" using k(1) False w by (simp add: fit_worker_def best'_def)
    moreover have "n \<le> best" using n(3) by (auto simp: best'_def split: if_splits)
    ultimately show ?thesis using n(1,2) by (intro exI [of _ n]) auto
  qed
qed (auto simp: every_worker_fits_def)

lemma same_len [simp]: "cfg\<lparr>max_model_len := max_model_len cfg\<rparr> = (cfg :: engine_config)"
  by simp

lemma memory_fits_len [simp]: "memory_fits d (cfg\<lparr>max_model_len := k\<rparr>) gs mem n = memory_fits d cfg gs mem n"
  by (simp add: memory_fits_def)

lemma auto_fit_spec:
  assumes s: "\<forall>gs \<in> set per_worker. sized_groups d cfg gs" and pos: "1 \<le> max_model_len cfg"
    and l: "length available = length per_worker"
  defines "fitting \<equiv> every_worker_fits d cfg (zip per_worker available)"
  shows "case auto_fit_max_model_len d cfg per_worker available of
      Inr cfg' \<Rightarrow> cfg' = cfg\<lparr>max_model_len := max_model_len cfg'\<rparr> \<and> 1 \<le> max_model_len cfg' \<and> max_model_len cfg' \<le> max_model_len cfg
        \<and> (\<forall>m. 1 \<le> m \<and> m \<le> max_model_len cfg \<longrightarrow> fitting m = (m \<le> max_model_len cfg'))
    | Inl e \<Rightarrow> e = ValueError \<and> \<not> fitting 1"
proof (cases "\<forall>gs \<in> set per_worker. gs = []")
  case True
  then have f: "fitting m" for m by (auto simp: fitting_def every_worker_fits_def dest: set_zip_leftD)
  show ?thesis using True pos f by (simp add: auto_fit_max_model_len_def)
next
  case False
  then have av: "\<exists>x. py_index available 0 = Inr x" using l by (cases available) (auto simp: py_index_def)
  have sw: "\<forall>(gs, mem) \<in> set (zip per_worker available). sized_groups d cfg gs" using s by (auto dest: set_zip_leftD)
  from auto_fit_fold [OF sw pos, of "max_model_len cfg"] pos obtain n where
    n: "foldE (fit_worker d cfg) (zip per_worker available) (max_model_len cfg) = Inr n" "0 \<le> n" "n \<le> max_model_len cfg"
    "\<forall>m. 1 \<le> m \<and> m \<le> max_model_len cfg \<longrightarrow> (m \<le> n) = fitting m"
    by (auto simp: fitting_def)
  have a: "auto_fit_max_model_len d cfg per_worker available
      = (if n \<le> 0 then Inl ValueError else if n \<ge> max_model_len cfg then Inr cfg else Inr (cfg\<lparr>max_model_len := n\<rparr>))"
    using False av n(1) by (auto simp: auto_fit_max_model_len_def)
  show ?thesis
  proof (cases "n \<le> 0")
    case True
    then show ?thesis using a n pos by simp
  next
    case pos': False
    show ?thesis
    proof (cases "n \<ge> max_model_len cfg")
      case True
      then have "n = max_model_len cfg" using n(3) by simp
      then show ?thesis using a n pos by simp
    next
      case False
      then have "auto_fit_max_model_len d cfg per_worker available = Inr (cfg\<lparr>max_model_len := n\<rparr>)" using a pos' by simp
      moreover have "1 \<le> n" using pos' by simp
      ultimately show ?thesis using n(3,4) by auto
    qed
  qed
qed

end
