(* ===== verification/Plan_Groups.thy ===== *)
theory Plan_Groups
  imports Plan_Memory "HOL-Library.Multiset"
begin

text \<open>
  The groups of layers (\<open>kv_cache_utils.py\<close>): splitting the layers of one type in strides loses and repeats none,
  and every path of \<open>get_kv_cache_groups\<close> puts each layer in one group.
\<close>

subsection \<open>Splitting the layers of one type\<close>

lemma mset_filter_classes:
  "mset (concat (map (\<lambda>i. filter (\<lambda>k. f k = i) ks) [0 ..< n])) = mset (filter (\<lambda>k. f k < n) ks)"
proof (induction n)
  case (Suc n)
  have "mset (filter (\<lambda>k. f k < n) ks) + mset (filter (\<lambda>k. f k = n) ks) = mset (filter (\<lambda>k. f k < Suc n) ks)"
    by (induction ks) auto
  then show ?case using Suc by simp
qed simp

lemma mset_strides:
  assumes "0 < n"
  shows "mset (concat (map (\<lambda>i. stride i n xs) [0 ..< n])) = mset xs"
proof -
  let ?ks = "[0 ..< length xs]"
  have c: "concat (map (\<lambda>i. stride i n xs) is') = map ((!) xs) (concat (map (\<lambda>i. filter (\<lambda>k. k mod n = i) ?ks) is'))" for is'
    by (induction is') (simp_all add: stride_def)
  have "mset (concat (map (\<lambda>i. filter (\<lambda>k. k mod n = i) ?ks) [0 ..< n])) = mset ?ks"
    using mset_filter_classes [of "\<lambda>k. k mod n" ?ks n] assms by simp
  then have "mset (concat (map (\<lambda>i. stride i n xs) [0 ..< n])) = mset (map ((!) xs) ?ks)"
    by (simp only: c mset_map)
  then show ?thesis by (simp only: map_nth)
qed

lemma length_stride:
  assumes "i < n" "n \<le> length xs" "length xs \<le> n * m"
  shows "1 \<le> length (stride i n xs) \<and> length (stride i n xs) \<le> m"
proof -
  have "i \<in> set (filter (\<lambda>k. k mod n = i) [0 ..< length xs])" using assms by simp
  then have "0 < length (filter (\<lambda>k. k mod n = i) [0 ..< length xs])" by (rule length_pos_if_in_set)
  then have 1: "1 \<le> length (stride i n xs)" unfolding stride_def length_map by linarith
  let ?K = "{k. k < length xs \<and> k mod n = i}"
  have l: "length (stride i n xs) = card ?K" by (auto simp: stride_def distinct_card [symmetric] intro!: arg_cong [of _ _ card])
  have "inj_on (\<lambda>k. k div n) ?K" by (rule inj_onI) (metis (mono_tags, lifting) div_mult_mod_eq mem_Collect_eq)
  moreover have "(\<lambda>k. k div n) ` ?K \<subseteq> {0 ..< m}"
    using assms(3) by (auto intro!: less_mult_imp_div_less simp: mult.commute)
  ultimately have "card ?K \<le> card {0 ..< m}" by (intro card_inj_on_le) auto
  then show ?thesis using 1 l by simp
qed

lemma num_groups_bounds:
  assumes "0 < m" "n = nat (cdiv (int len) (int m))"
  shows "n \<le> len" "len \<le> n * m" "0 < len \<Longrightarrow> 0 < n"
proof -
  have c: "cdiv (int len) (int m) = int n" using assms cdiv_nonneg [of "int m" "int len"] by simp
  have b: "int len \<le> int n * int m" using c assms(1) cdiv_bounds(1) [of "int m" "int len"] by simp
  then have "int len \<le> int (n * m)" by simp
  then show l: "len \<le> n * m" by (simp only: of_nat_le_iff)
  then show "0 < len \<Longrightarrow> 0 < n" by (cases n) auto
  have "int len \<le> int len * int m" using assms(1) by (simp add: mult_le_cancel_left1)
  then show "n \<le> len" using c cdiv_least [of "int m" "int len" "int len"] assms(1) by simp
qed

lemma mset_split_layers:
  assumes "0 < m"
  shows "mset (concat (split_layers m layers)) = mset layers"
proof (cases "layers = []")
  case False
  then have "0 < nat (cdiv (int (length layers)) (int m))" using num_groups_bounds(3) [OF assms refl] by simp
  from mset_strides [OF this, of layers] show ?thesis by (simp only: split_layers_def Let_def)
qed (simp add: split_layers_def)

lemma length_split_layers:
  assumes "0 < m" "ls \<in> set (split_layers m layers)"
  shows "1 \<le> length ls \<and> length ls \<le> m" "set ls \<subseteq> set layers"
proof -
  define n where "n = nat (cdiv (int (length layers)) (int m))"
  obtain i where i: "i < n" "ls = stride i n layers" using assms(2) by (auto simp: split_layers_def Let_def n_def)
  show "1 \<le> length ls \<and> length ls \<le> m"
    using length_stride [OF i(1) num_groups_bounds(1,2) [OF assms(1) n_def]] i(2) by simp
  show "set ls \<subseteq> set layers" using i(2) by (auto simp: stride_def)
qed

subsection \<open>Layers by spec\<close>

lemma mset_add_layer:
  "mset (concat (map snd (AList.update s ((case map_of d s of None \<Rightarrow> [] | Some ns \<Rightarrow> ns) @ [n]) d))) = add_mset n (mset (concat (map snd d)))"
  by (induction d) auto

definition layers_with :: "(string \<times> layer_spec) list \<Rightarrow> layer_spec \<Rightarrow> string list" where
  "layers_with specs s = map fst (filter (\<lambda>(_, t). t = s) specs)"

lemma same_type_layers_spec:
  "mset (concat (map snd (same_type_layers specs))) = mset (map fst specs)
   \<and> distinct (map fst (same_type_layers specs))
   \<and> (\<forall>s. map_of (same_type_layers specs) s = (if layers_with specs s = [] then None else Some (layers_with specs s)))"
proof (induction specs rule: rev_induct)
  case (snoc x specs)
  obtain n s where x: "x = (n, s)" by (cases x)
  let ?d = "same_type_layers specs"
  have d: "same_type_layers (specs @ [x]) = AList.update s ((case map_of ?d s of None \<Rightarrow> [] | Some ns \<Rightarrow> ns) @ [n]) ?d"
    by (simp add: same_type_layers_def add_layer_def x)
  have l: "layers_with (specs @ [x]) t = layers_with specs t @ (if t = s then [n] else [])" for t
    by (simp add: layers_with_def x)
  show ?case unfolding d mset_add_layer l using snoc
    by (auto simp: x distinct_update update_conv' split: option.splits)
qed (simp add: same_type_layers_def layers_with_def)

lemma same_type_layers_in:
  assumes "(s, ls) \<in> set (same_type_layers specs)"
  shows "ls = layers_with specs s" "ls \<noteq> []"
proof -
  have "map_of (same_type_layers specs) s = Some ls" using assms same_type_layers_spec [of specs] by (intro map_of_is_SomeI) auto
  then show "ls = layers_with specs s" "ls \<noteq> []" using same_type_layers_spec [of specs] by (metis option.distinct(1) option.inject)+
qed

subsection \<open>The groups of a hybrid model\<close>

lemma collectE_map_eq:
  assumes "collectE f xs = Inr ys" "\<And>x y. f x = Inr y \<Longrightarrow> h y = g x"
  shows "map h ys = map g xs"
  using assms by (induction xs arbitrary: ys) (auto simp: ebind_eq_Inr)

lemma create_group_names: "create_group specs names = Inr g \<Longrightarrow> gr_layer_names g = names"
  by (auto simp: create_group_def ebind_eq_Inr)

lemma create_groups_names: "create_kv_cache_group_specs specs grouped = Inr gs \<Longrightarrow> map gr_layer_names gs = grouped"
  using collectE_map_eq [of "create_group specs" grouped gs gr_layer_names id] create_group_names
  by (simp add: create_kv_cache_group_specs_def)

lemma layers_per_group_pos: "0 < min_layers \<Longrightarrow> min_layers \<le> max_layers \<Longrightarrow> 0 < layers_per_group min_layers max_layers"
  by (simp add: layers_per_group_def)

lemma layers_with_spec:
  assumes "distinct (map fst specs)" "n \<in> set (layers_with specs s)"
  shows "map_of specs n = Some s"
  using assms by (auto simp: layers_with_def)

lemma page_size_groups_spec:
  assumes g: "get_kv_cache_groups_uniform_page_size specs = Inr gs" and d: "distinct (map fst specs)"
  shows "mset (concat (map gr_layer_names gs)) = mset (map fst specs)"
    and "\<forall>g \<in> set gs. gr_layer_names g \<noteq> [] \<and> length (gr_layer_names g)
          \<le> layers_per_group (Min (set (map (length \<circ> snd) (same_type_layers specs)))) (Max (set (map (length \<circ> snd) (same_type_layers specs))))"
    and "\<forall>g \<in> set gs. \<exists>s. \<forall>n \<in> set (gr_layer_names g). map_of specs n = Some s"
proof -
  let ?layers = "map snd (same_type_layers specs)"
  let ?sizes = "map length ?layers"
  define m where "m = layers_per_group (Min (set ?sizes)) (Max (set ?sizes))"
  have ne: "?sizes \<noteq> []" and c: "create_kv_cache_group_specs specs (concat (map (split_layers m) ?layers)) = Inr gs"
    using g by (auto simp: get_kv_cache_groups_uniform_page_size_def Let_def m_def split: if_splits)
  have "0 < x" if "x \<in> set ?sizes" for x using that same_type_layers_in(2) by fastforce
  then have "0 < Min (set ?sizes)" "Min (set ?sizes) \<le> Max (set ?sizes)" using ne by (simp_all del: set_map)
  then have m: "0 < m" by (auto simp: m_def intro: layers_per_group_pos)
  have names: "map gr_layer_names gs = concat (map (split_layers m) ?layers)" by (rule create_groups_names [OF c])
  have "mset (concat (concat (map (split_layers m) lss))) = mset (concat lss)" for lss
    by (induction lss) (simp_all add: mset_split_layers [OF m])
  then show "mset (concat (map gr_layer_names gs)) = mset (map fst specs)"
    using same_type_layers_spec [of specs] by (simp only: names)
  have each: "\<exists>s ls. (s, ls) \<in> set (same_type_layers specs) \<and> gr_layer_names g \<in> set (split_layers m ls)" if "g \<in> set gs" for g
  proof -
    have "gr_layer_names g \<in> set (map gr_layer_names gs)" using that by simp
    then show ?thesis unfolding names by fastforce
  qed
  have "gr_layer_names g \<noteq> [] \<and> length (gr_layer_names g) \<le> m" if "g \<in> set gs" for g
    using each [OF that] length_split_layers(1) [OF m] by fastforce
  then show "\<forall>g \<in> set gs. gr_layer_names g \<noteq> [] \<and> length (gr_layer_names g)
          \<le> layers_per_group (Min (set (map (length \<circ> snd) (same_type_layers specs)))) (Max (set (map (length \<circ> snd) (same_type_layers specs))))"
    by (simp add: m_def image_image)
  show "\<forall>g \<in> set gs. \<exists>s. \<forall>n \<in> set (gr_layer_names g). map_of specs n = Some s"
  proof
    fix g assume "g \<in> set gs"
    from each [OF this] obtain s ls where s: "(s, ls) \<in> set (same_type_layers specs)" "gr_layer_names g \<in> set (split_layers m ls)" by blast
    show "\<exists>s. \<forall>n \<in> set (gr_layer_names g). map_of specs n = Some s"
      using length_split_layers(2) [OF m s(2)] same_type_layers_in(1) [OF s(1)] layers_with_spec [OF d] by blast
  qed
qed

subsection \<open>Every layer keeps a page of positive size\<close>

definition page_pos :: "(string \<Rightarrow> int) \<Rightarrow> layer_spec \<Rightarrow> bool" where
  "page_pos d s \<longleftrightarrow> (\<exists>p > 0. page_size_bytes d s = Inr p)"

lemma merge_mla_cache_dtype_eq:
  assumes "merge_mla_cache_dtype (MLAAttentionSpec a hv sw ac c # ss) = Inr c'"
  shows "c' = c"
proof -
  let ?cs = "map (\<lambda>s. case s of MLAAttentionSpec a hv sw ac c \<Rightarrow> c | _ \<Rightarrow> None) (MLAAttentionSpec a hv sw ac c # ss)"
  have "remdups ?cs = [c']"
    using assms by (auto simp: merge_mla_cache_dtype_def ebind_eq_Inr simp del: list.map remdups.simps split: list.splits)
  then have "set ?cs = {c'}" by (metis list.set(1) list.simps(15) set_remdups)
  then show ?thesis by simp
qed

lemma merge_specs_page:
  assumes "merge_specs (s # ss) = Inr t"
  shows "page_size_bytes d t = page_size_bytes d s"
proof -
  have e: "real_page_size_bytes d t = real_page_size_bytes d s \<and> page_size_padded t = page_size_padded s"
    using assms merge_mla_cache_dtype_eq
    by (cases s) (fastforce simp: ebind_eq_Inr page_size_padded_def mla_real_page_size_bytes_def)+
  then show ?thesis by (simp add: page_size_bytes_def)
qed

lemma as_full_page: "page_size_bytes d (as_full_attention s) = page_size_bytes d s"
  by (cases s) (auto simp: page_size_bytes_def page_size_padded_def full_attention_spec_def full_real_page_size_bytes_def
    attention_real_page_size_bytes_def algebra_simps)

lemma collectE_names:
  assumes "collectE (\<lambda>(n, s). ebind (f s) (\<lambda>s. Inr (n, s))) xs = Inr ys"
  shows "map fst ys = map fst xs" "\<forall>(n, s) \<in> set ys. \<exists>t. (n, t) \<in> set xs \<and> f t = Inr s"
  using assms by (induction xs arbitrary: ys) (fastforce simp: ebind_eq_Inr)+

lemma unify_hybrid_keeps:
  assumes "unify_hybrid_kv_cache_specs specs = Inr specs'" "\<forall>(n, s) \<in> set specs. page_pos d s"
  shows "map fst specs' = map fst specs" "\<forall>(n, s) \<in> set specs'. page_pos d s"
proof -
  have "specs' = specs \<or> specs' = map (\<lambda>(n, s). (n, as_full_attention s)) specs"
    using assms(1) by (auto simp: unify_hybrid_kv_cache_specs_def ebind_eq_Inr Let_def split: if_splits)
  moreover have "page_pos d (as_full_attention s) = page_pos d s" for s by (simp add: page_pos_def as_full_page)
  ultimately show "map fst specs' = map fst specs" "\<forall>(n, s) \<in> set specs'. page_pos d s"
    using assms(2) by (auto simp: o_def case_prod_unfold) fastforce+
qed

lemma unify_page_size_pos:
  assumes "unify_page_size d m s = Inr t" "0 < m"
  shows "page_pos d t"
  using assms by (auto simp: unify_page_size_def ebind_eq_Inr Let_def page_pos_def split: if_splits)

lemma collectE_Max_pos:
  assumes "collectE f xs = Inr ys" "\<forall>x \<in> set xs. \<exists>p > (0 :: int). f x = Inr p" "xs \<noteq> []"
  shows "0 < Max (set ys)"
proof -
  have "\<forall>y \<in> set ys. 0 < y" using assms(1,2) by (induction xs arbitrary: ys) (auto simp: ebind_eq_Inr)
  moreover have "set ys \<noteq> {}" using assms(1,3) by (cases xs) (auto simp: ebind_eq_Inr)
  ultimately show ?thesis by simp
qed

lemma unify_pages_keeps:
  assumes u: "unify_kv_cache_spec_page_size d specs = Inr specs'" and p: "\<forall>(n, s) \<in> set specs. page_pos d s" and ne: "specs \<noteq> []"
  shows "map fst specs' = map fst specs" "\<forall>(n, s) \<in> set specs'. page_pos d s"
proof -
  obtain ps where ps: "collectE (\<lambda>(_, s). page_size_bytes d s) specs = Inr ps"
    "specs' = specs \<or> collectE (\<lambda>(n, s). ebind (unify_page_size d (Max (set ps)) s) (\<lambda>s. Inr (n, s))) specs = Inr specs'"
    using u by (auto simp: unify_kv_cache_spec_page_size_def page_sizes_def ebind_eq_Inr split: if_splits)
  have "0 < Max (set ps)" by (rule collectE_Max_pos [OF ps(1) _ ne]) (use p in \<open>auto simp: page_pos_def\<close>)
  then show "map fst specs' = map fst specs" "\<forall>(n, s) \<in> set specs'. page_pos d s"
    using ps(2) p collectE_names [of "unify_page_size d (Max (set ps))" specs specs'] unify_page_size_pos
    by (fastforce simp: case_prod_beta)+
qed

subsection \<open>The groups of the whole model\<close>

text \<open>
  What the groups of a model or of a worker satisfy: pages of positive size; a group with one spec per layer is alone
  and its specs are those of its layers, except for a worker with none of its layers.
\<close>

definition group_ok :: "(string \<Rightarrow> int) \<Rightarrow> kv_group \<Rightarrow> bool" where
  "group_ok d g \<longleftrightarrow> (case gr_spec g of
     OneType s \<Rightarrow> page_pos d s
   | UniformType u \<Rightarrow> ut_specs u \<noteq> [] \<and> distinct (map fst (ut_specs u)) \<and> (\<forall>(n, s) \<in> set (ut_specs u). page_pos d s)
       \<and> (gr_layer_names g = [] \<or> gr_layer_names g = map fst (ut_specs u)))"

definition one_type :: "kv_group \<Rightarrow> bool" where
  "one_type g \<longleftrightarrow> (\<exists>s. gr_spec g = OneType s)"

definition groups_ok :: "(string \<Rightarrow> int) \<Rightarrow> kv_group list \<Rightarrow> bool" where
  "groups_ok d gs \<longleftrightarrow> (\<forall>g \<in> set gs. group_ok d g) \<and> ((\<forall>g \<in> set gs. one_type g) \<or> length gs = 1)"

lemma collectE_all: "collectE f xs = Inr ys \<Longrightarrow> (\<And>x y. f x = Inr y \<Longrightarrow> P y) \<Longrightarrow> \<forall>y \<in> set ys. P y"
  by (induction xs arbitrary: ys) (auto simp: ebind_eq_Inr)

lemma create_group_ok:
  assumes "create_group specs names = Inr g" "\<forall>(n, s) \<in> set specs. page_pos d s"
  shows "group_ok d g \<and> one_type g"
proof -
  obtain ss m where s: "collectE (\<lambda>n. dict_get n specs) names = Inr ss" "merge_specs ss = Inr m" "gr_spec g = OneType m"
    using assms(1) by (auto simp: create_group_def ebind_eq_Inr)
  have "\<forall>s \<in> set ss. page_pos d s" 
    by (rule collectE_all [OF s(1)]) (use assms(2) in \<open>auto simp: dict_get_def dest!: map_of_SomeD split: option.splits\<close>)
  moreover obtain t ts where "ss = t # ts" using s(2) by (cases ss) auto
  ultimately show ?thesis using s merge_specs_page [of t ts m d] by (simp add: group_ok_def one_type_def page_pos_def)
qed

lemma create_groups_ok:
  assumes "create_kv_cache_group_specs specs grouped = Inr gs" "\<forall>(n, s) \<in> set specs. page_pos d s"
  shows "groups_ok d gs"
  using collectE_all [OF assms(1) [unfolded create_kv_cache_group_specs_def], of "\<lambda>g. group_ok d g \<and> one_type g"]
    create_group_ok [OF _ assms(2)] by (auto simp: groups_ok_def)

lemma page_size_groups_created:
  "get_kv_cache_groups_uniform_page_size specs = Inr gs \<Longrightarrow> \<exists>grouped. create_kv_cache_group_specs specs grouped = Inr gs"
  by (auto simp: get_kv_cache_groups_uniform_page_size_def Let_def split: if_splits)

lemma uniform_from_specs_eq: "uniform_from_specs specs = Inr (Some u) \<Longrightarrow> ut_specs u = specs"
  by (auto simp: uniform_from_specs_def ebind_eq_Inr split: if_splits)

lemma get_groups_ok:
  assumes g: "get_kv_cache_groups d pc specs = Inr gs" and dist: "distinct (map fst specs)" and p: "\<forall>(n, s) \<in> set specs. page_pos d s"
  shows "mset (concat (map gr_layer_names gs)) = mset (map fst specs)" "groups_ok d gs"
proof -
  obtain specs' where s: "map fst specs' = map fst specs" "\<forall>(n, s) \<in> set specs'. page_pos d s"
    and g': "(if specs' = [] then Inr []
     else
       ebind (is_kv_cache_spec_uniform specs') (\<lambda>uniform.
       if uniform then get_kv_cache_groups_uniform_spec specs'
       else
         ebind (uniform_from_specs specs') (\<lambda>u.
         case u of
           Some u \<Rightarrow> Inr (get_kv_cache_groups_uniform_type u)
         | None \<Rightarrow>
             ebind (unify_kv_cache_spec_page_size d specs') get_kv_cache_groups_uniform_page_size))) = Inr gs"
    using g p unify_hybrid_keeps [OF _ p] by (auto simp: get_kv_cache_groups_def ebind_eq_Inr split: if_splits)
  have dist': "distinct (map fst specs')" using dist s(1) by simp
  consider "specs' = []" "gs = []"
    | "specs' \<noteq> []" "create_kv_cache_group_specs specs' [map fst specs'] = Inr gs"
    | u where "specs' \<noteq> []" "uniform_from_specs specs' = Inr (Some u)" "gs = get_kv_cache_groups_uniform_type u"
    | specs2 where "specs' \<noteq> []" "unify_kv_cache_spec_page_size d specs' = Inr specs2" "get_kv_cache_groups_uniform_page_size specs2 = Inr gs"
    using g' by (auto simp: ebind_eq_Inr get_kv_cache_groups_uniform_spec_def split: if_splits option.splits)
  then have "mset (concat (map gr_layer_names gs)) = mset (map fst specs') \<and> groups_ok d gs"
  proof cases
    case 1
    then show ?thesis by (simp add: groups_ok_def)
  next
    case 2
    then show ?thesis using create_groups_names [OF 2(2)] create_groups_ok [OF 2(2) s(2)] by simp
  next
    case 3
    then show ?thesis using uniform_from_specs_eq [OF 3(2)] s(2) dist'
      by (simp add: get_kv_cache_groups_uniform_type_def groups_ok_def group_ok_def)
  next
    case 4
    note k = unify_pages_keeps [OF 4(2) s(2) 4(1)]
    obtain grouped where "create_kv_cache_group_specs specs2 grouped = Inr gs" using page_size_groups_created [OF 4(3)] by blast
    then show ?thesis using page_size_groups_spec(1) [OF 4(3)] k dist' create_groups_ok by simp
  qed
  then show "mset (concat (map gr_layer_names gs)) = mset (map fst specs)" "groups_ok d gs" using s(1) by simp_all
qed

end
