(* ===== verification/Plan_Workers.thy ===== *)
theory Plan_Workers
  imports Plan_Groups
begin

text \<open>
  The configuration of one worker (\<open>kv_cache_utils.py\<close>): the layers of the workers are merged and the groups
  projected back, every layer gets a tensor, and the tensors fit the memory before and after they shrink.
\<close>

subsection \<open>The layers of the workers\<close>

lemma merge_layers_spec:
  assumes "foldE merge_layer xs m = Inr m'" "distinct (map fst m)"
  shows "distinct (map fst m') \<and> set (map fst m') = set (map fst m) \<union> set (map fst xs) \<and> set m' \<subseteq> set m \<union> set xs"
  using assms
proof (induction xs arbitrary: m)
  case (Cons x xs)
  obtain n s where x: "x = (n, s)" by (cases x)
  obtain m1 where m1: "merge_layer x m = Inr m1" "foldE merge_layer xs m1 = Inr m'" using Cons.prems(1) by (auto simp: ebind_eq_Inr)
  have "distinct (map fst m1) \<and> set (map fst m1) = insert n (set (map fst m)) \<and> set m1 \<subseteq> insert x (set m)"
    using m1(1) Cons.prems(2)
    by (auto simp: merge_layer_def x ebind_eq_Inr map_of_eq_None_iff split: option.splits dest!: map_of_SomeD intro: rev_image_eqI)
  then show ?case using Cons.IH [OF m1(2)] x by auto
qed auto

lemma merge_workers_spec:
  assumes "merge_worker_specs workers = Inr merged"
  shows "distinct (map fst merged)" "set (map fst merged) = (\<Union>w \<in> set workers. set (map fst w))" "set merged \<subseteq> (\<Union>w \<in> set workers. set w)"
  using merge_layers_spec [OF assms [unfolded merge_worker_specs_def]] by auto

lemma project_names:
  "project_group ws g = Inr h \<Longrightarrow> gr_layer_names h = filter (\<lambda>n. map_of ws n \<noteq> None) (gr_layer_names g)"
  by (auto simp: project_group_def Let_def ebind_eq_Inr split: group_type.splits if_splits)

lemma projected_names:
  assumes p: "project_kv_cache_groups_to_worker gs ws = Inr hs"
    and g: "mset (concat (map gr_layer_names gs)) = mset (map fst merged)" "distinct (map fst merged)"
    and w: "distinct (map fst ws)" "set (map fst ws) \<subseteq> set (map fst merged)"
  shows "mset (concat (map gr_layer_names hs)) = mset (map fst ws)"
proof -
  let ?P = "\<lambda>n. map_of ws n \<noteq> None"
  have "map gr_layer_names hs = map (\<lambda>g. filter ?P (gr_layer_names g)) gs"
    by (rule collectE_map_eq [OF p [unfolded project_kv_cache_groups_to_worker_def]]) (rule project_names)
  then have "concat (map gr_layer_names hs) = filter ?P (concat (map gr_layer_names gs))" by (simp add: filter_concat o_def)
  then have "mset (concat (map gr_layer_names hs)) = mset (filter ?P (map fst merged))" using g(1) by (simp del: filter_map map_map)
  also have "\<dots> = mset (map fst ws)"
    using g(2) w by (subst set_eq_iff_mset_eq_distinct [symmetric]) (auto simp: distinct_filter map_of_eq_None_iff)
  finally show ?thesis .
qed

lemma collectE_pairs:
  assumes "collectE (\<lambda>n. ebind (dict_get n d) (\<lambda>s. Inr (n, s))) names = Inr ys"
  shows "map fst ys = names" "set ys \<subseteq> set d"
  using assms by (induction names arbitrary: ys) (auto simp: ebind_eq_Inr dict_get_def dest: map_of_SomeD split: option.splits)

lemma project_group_ok:
  assumes p: "project_group ws g = Inr h" and g: "group_ok d g" "distinct (gr_layer_names g)"
  shows "group_ok d h \<and> one_type h = one_type g \<and> (one_type g \<longrightarrow> gr_spec h = gr_spec g)"
proof (cases "gr_spec g")
  case (OneType s)
  then show ?thesis using p g by (auto simp: project_group_def group_ok_def one_type_def Let_def)
next
  case (UniformType u)
  let ?names = "filter (\<lambda>n. map_of ws n \<noteq> None) (gr_layer_names g)"
  show ?thesis
  proof (cases "?names = []")
    case True
    then have "h = \<lparr>gr_layer_names = [], gr_spec = gr_spec g\<rparr>" using p UniformType by (simp add: project_group_def Let_def)
    then show ?thesis using g UniformType by (simp add: group_ok_def one_type_def)
  next
    case False
    obtain ss where ss: "collectE (\<lambda>n. ebind (dict_get n (ut_specs u)) (\<lambda>s. Inr (n, s))) ?names = Inr ss"
      "h = \<lparr>gr_layer_names = ?names, gr_spec = UniformType (u\<lparr>ut_specs := ss\<rparr>)\<rparr>"
      using p UniformType False by (auto simp: project_group_def Let_def ebind_eq_Inr split: if_splits)
    note k = collectE_pairs [OF ss(1)]
    have "distinct ?names" using g(2) by simp
    moreover have "ss \<noteq> []" using k(1) False by auto
    ultimately show ?thesis using ss(2) k g(1) UniformType by (auto simp: group_ok_def one_type_def)
  qed
qed

lemma collectE_length: "collectE f xs = Inr ys \<Longrightarrow> length ys = length xs"
  by (induction xs arbitrary: ys) (auto simp: ebind_eq_Inr)

lemma collectE_nth: "collectE f xs = Inr ys \<Longrightarrow> i < length xs \<Longrightarrow> f (xs ! i) = Inr (ys ! i)"
  by (induction xs arbitrary: ys i) (auto simp: ebind_eq_Inr less_Suc_eq_0_disj)

lemma collectE_in:
  assumes "collectE f xs = Inr ys" "y \<in> set ys"
  obtains x where "x \<in> set xs" "f x = Inr y"
  using assms by (metis collectE_length collectE_nth in_set_conv_nth)

lemma distinct_concat_part: "distinct (concat xss) \<Longrightarrow> xs \<in> set xss \<Longrightarrow> distinct xs"
  by (induction xss) auto

lemma projected_ok:
  assumes p: "project_kv_cache_groups_to_worker gs ws = Inr hs" and g: "groups_ok d gs" "distinct (concat (map gr_layer_names gs))"
  shows "groups_ok d hs"
proof -
  note c = p [unfolded project_kv_cache_groups_to_worker_def]
  have "group_ok d h \<and> ((\<forall>g \<in> set gs. one_type g) \<longrightarrow> one_type h)" if "h \<in> set hs" for h
  proof -
    obtain g' where g': "g' \<in> set gs" "project_group ws g' = Inr h" by (rule collectE_in [OF c \<open>h \<in> set hs\<close>])
    have "distinct (gr_layer_names g')" using g(2) g'(1) distinct_concat_part by (metis imageI list.set_map)
    then show ?thesis using project_group_ok [OF g'(2), of d] g(1) g'(1) by (auto simp: groups_ok_def)
  qed
  then show ?thesis using g(1) collectE_length [OF c] by (auto simp: groups_ok_def)
qed

lemma project_one_type: "project_group ws g = Inr h \<Longrightarrow> one_type g \<Longrightarrow> gr_spec h = gr_spec g"
  by (auto simp: project_group_def one_type_def Let_def)

lemma projected_specs:
  assumes p: "project_kv_cache_groups_to_worker gs ws = Inr hs" and "\<forall>g \<in> set gs. one_type g"
  shows "map gr_spec hs = map gr_spec gs"
proof (rule nth_equalityI)
  note c = p [unfolded project_kv_cache_groups_to_worker_def]
  show "length (map gr_spec hs) = length (map gr_spec gs)" using collectE_length [OF c] by simp
  fix i assume "i < length (map gr_spec hs)"
  then have i: "i < length gs" using collectE_length [OF c] by simp
  have "one_type (gs ! i)" using assms(2) i by simp
  then show "map gr_spec hs ! i = map gr_spec gs ! i"
    using project_one_type [OF collectE_nth [OF c i]] i collectE_length [OF c] by simp
qed

subsection \<open>The tensors\<close>

lemma concat_nth_upto: "length xs \<le> k \<Longrightarrow> concat (map (\<lambda>i. if i < length xs then [xs ! i] else []) [0 ..< k]) = xs"
proof -
  assume l: "length xs \<le> k"
  let ?f = "\<lambda>i. if i < length xs then [xs ! i] else []"
  have "[0 ..< k] = [0 ..< length xs] @ [length xs ..< k]" using l by (metis le0 le_add_diff_inverse upt_add_eq_append)
  moreover have "concat (map ?f [length xs ..< k]) = []" by auto
  moreover have "map ?f [0 ..< length xs] = map (\<lambda>i. [xs ! i]) [0 ..< length xs]" by (rule map_cong) auto
  moreover have "concat (map (\<lambda>i. [xs ! i]) [0 ..< length xs]) = xs"
    using concat_map_singleton [of "(!) xs" "[0 ..< length xs]"] map_nth [of xs] by simp
  ultimately show ?thesis by (simp only: map_append concat_append append_Nil2)
qed

lemma mset_concat_append: "mset (concat (map (\<lambda>i. f i @ h i) is')) = mset (concat (map f is')) + mset (concat (map h is'))"
  by (induction is') auto

lemma mset_shared_layers:
  assumes "\<forall>g \<in> set gs. length (gr_layer_names g) \<le> k"
  shows "mset (concat (map (shared_layers gs) [0 ..< k])) = mset (concat (map gr_layer_names gs))"
  using assms
proof (induction gs)
  case Nil
  have "concat (map (shared_layers []) [0 ..< k]) = []" by (auto simp: shared_layers_def)
  then show ?case by simp
next
  case (Cons g gs)
  have "shared_layers (g # gs) = (\<lambda>i. (if i < length (gr_layer_names g) then [gr_layer_names g ! i] else []) @ shared_layers gs i)"
    by (auto simp: shared_layers_def fun_eq_iff)
  then show ?case using Cons by (simp add: mset_concat_append concat_nth_upto)
qed

subsection \<open>The tensors of a worker\<close>

text \<open>What holds for the tensors of a worker, before and after they shrink.\<close>

definition tensors_ok :: "string list \<Rightarrow> int \<Rightarrow> worker_config \<Rightarrow> bool" where
  "tensors_ok names mem w \<longleftrightarrow> mset (concat (map tn_shared_by (wk_tensors w))) = mset names
     \<and> (\<forall>t \<in> set (wk_tensors w). 0 \<le> tn_size t) \<and> sum_list (map tn_size (wk_tensors w)) \<le> max 0 mem \<and> 0 \<le> wk_num_blocks w"

lemma get_uniform_page_size_in:
  assumes "get_uniform_page_size d ss = Inr p" "s \<in> set ss"
  shows "group_page_size d s = Inr p"
proof -
  obtain ps where ps: "collectE (group_page_size d) ss = Inr ps" "(case remdups ps of [p] \<Rightarrow> Inr p | _ \<Rightarrow> Inl AssertionError) = Inr p"
    using assms(1) by (auto simp: get_uniform_page_size_def ebind_eq_Inr)
  have r: "remdups ps = [p]" using ps(2) by (auto split: list.split_asm)
  obtain i where i: "i < length ss" "ss ! i = s" using assms(2) by (auto simp: in_set_conv_nth)
  have "set ps = {p}" using r by (metis list.set(1) list.simps(15) set_remdups)
  moreover have "ps ! i \<in> set ps" using i(1) collectE_length [OF ps(1)] by simp
  ultimately show ?thesis using collectE_nth [OF ps(1) i(1)] i(2) by simp
qed

lemma sum_page_sizes_nonneg:
  assumes "\<forall>s \<in> set ss. page_pos d s" "sum_page_sizes d ss = Inr p"
  shows "0 \<le> p" "ss \<noteq> [] \<Longrightarrow> 0 < p"
proof -
  have "0 \<le> p \<and> (ss \<noteq> [] \<longrightarrow> 0 < p)" using assms
  proof (induction ss arbitrary: p)
    case (Cons s ss)
    then obtain a b where "page_size_bytes d s = Inr a" "0 < a" "sum_page_sizes d ss = Inr b" "p = a + b"
      by (auto simp: page_pos_def ebind_eq_Inr)
    moreover have "0 \<le> b" using Cons.IH [of b] Cons.prems(1) \<open>sum_page_sizes d ss = Inr b\<close> by simp
    ultimately show ?case by simp
  qed simp
  then show "0 \<le> p" "ss \<noteq> [] \<Longrightarrow> 0 < p" by auto
qed

lemma group_page_positive:
  assumes "group_ok d g" "group_page_size d (gr_spec g) = Inr p"
  shows "0 < p"
proof (cases "gr_spec g")
  case (OneType s)
  then show ?thesis using assms by (auto simp: group_ok_def page_pos_def)
next
  case (UniformType u)
  have "\<forall>s \<in> set (map snd (ut_specs u)). page_pos d s" "map snd (ut_specs u) \<noteq> []"
    using assms(1) UniformType by (auto simp: group_ok_def)
  from sum_page_sizes_nonneg(2) [OF this(1) _ this(2), of p] show ?thesis
    using assms(2) UniformType by (simp add: uniform_page_size_bytes_def)
qed

lemma max_group_size_ge: "g \<in> set gs \<Longrightarrow> length (gr_layer_names g) \<le> max_group_size gs"
  by (simp add: max_group_size_def)

lemma sum_list_const_int: "sum_list (map (\<lambda>i. c) is') = int (length is') * (c :: int)"
  by (induction is') (simp_all add: algebra_simps)

lemma nested_div_le:
  assumes "0 < a" "0 < b" "0 \<le> (x :: int)"
  shows "a * (b * (x div b div a)) \<le> x"
proof -
  have "a * (x div b div a) \<le> x div b" using assms by (metis minus_mod_eq_mult_div pos_mod_sign diff_ge_0_iff_ge diff_le_eq le_add_same_cancel1)
  then have "b * (a * (x div b div a)) \<le> b * (x div b)" using assms(2) by simp
  also have "\<dots> \<le> x" using assms by (metis minus_mod_eq_mult_div pos_mod_sign diff_ge_0_iff_ge diff_le_eq le_add_same_cancel1)
  finally show ?thesis by (simp add: mult.left_commute)
qed

lemma general_worker:
  assumes w: "general_worker_config d pc gs mem = Inr w" and ok: "\<forall>g \<in> set gs. group_ok d g" "gs \<noteq> []"
    and o: "num_gpu_blocks_override pc = None" and mem: "0 < mem"
  obtains page where "get_uniform_page_size d (map gr_spec gs) = Inr page" "0 < page" "0 < max_group_size gs"
    "wk_num_blocks w = mem div page div int (max_group_size gs)" "wk_groups w = gs"
    "tensors_ok (concat (map gr_layer_names gs)) mem w"
proof -
  let ?k = "max_group_size gs"
  obtain page n where p: "get_uniform_page_size d (map gr_spec gs) = Inr page" "0 < ?k"
    and n: "get_num_blocks pc (int ?k) mem page = Inr n"
    and w': "w = \<lparr>wk_num_blocks = n,
             wk_tensors = map (\<lambda>i. \<lparr>tn_size = page * n, tn_shared_by = shared_layers gs i\<rparr>) [0 ..< ?k], wk_groups = gs\<rparr>"
    using w by (auto simp: general_worker_config_def Let_def ebind_eq_Inr)
  have "group_page_size d (gr_spec (hd gs)) = Inr page" by (rule get_uniform_page_size_in [OF p(1)]) (use ok(2) in simp)
  then have page: "0 < page" using group_page_positive ok by (metis list.set_sel(1))
  have "0 \<le> mem div page div int ?k" using mem page by (simp add: pos_imp_zdiv_nonneg_iff p(2))
  then have n': "n = mem div page div int ?k" using n o page p(2) by (simp add: get_num_blocks_def may_override_num_blocks_def)
  have n0: "0 \<le> n" using n' \<open>0 \<le> mem div page div int ?k\<close> by simp
  have "int ?k * (page * n) \<le> mem" unfolding n' by (rule nested_div_le) (use p(2) page mem in auto)
  then have "sum_list (map tn_size (wk_tensors w)) \<le> max 0 mem" by (simp add: w' o_def sum_list_const_int)
  moreover have "mset (concat (map tn_shared_by (wk_tensors w))) = mset (concat (map gr_layer_names gs))"
    using mset_shared_layers [of gs ?k] max_group_size_ge by (simp add: w' o_def)
  ultimately have "tensors_ok (concat (map gr_layer_names gs)) mem w" using n0 page by (auto simp: tensors_ok_def w')
  then show thesis using that p page n' w' by simp
qed

lemma uniform_tensors:
  assumes "collectE (\<lambda>name. ebind (dict_get name dd) (\<lambda>s. ebind (page_size_bytes d s) (\<lambda>p. Inr \<lparr>tn_size = p * n, tn_shared_by = [name]\<rparr>)))
      (map fst specs) = Inr ts"
    and "set specs \<subseteq> set dd" "distinct (map fst dd)" "\<forall>(x, s) \<in> set specs. page_pos d s" "0 \<le> n" "sum_page_sizes d (map snd specs) = Inr all_pages"
  shows "concat (map tn_shared_by ts) = map fst specs \<and> sum_list (map tn_size ts) = all_pages * n \<and> (\<forall>t \<in> set ts. 0 \<le> tn_size t)"
  using assms
proof (induction specs arbitrary: ts all_pages)
  case (Cons x specs)
  obtain a s where x: "x = (a, s)" by (cases x)
  have "map_of dd a = Some s" using Cons.prems(2,3) x by simp
  moreover obtain p where "page_size_bytes d s = Inr p" "0 < p" using Cons.prems(4) x by (auto simp: page_pos_def)
  ultimately show ?case using Cons.prems x Cons.IH
    by (auto simp: ebind_eq_Inr dict_get_def distrib_right)
qed simp

lemma uniform_worker:
  assumes w: "uniform_worker_config d pc gs (gr_layer_names g) u mem = Inr w" and g: "group_ok d g" "gr_spec g = UniformType u"
    and o: "num_gpu_blocks_override pc = None" and mem: "0 < mem"
  obtains page where "uniform_page_size_bytes d u = Inr page" "0 < page" "wk_num_blocks w = mem div page" "wk_groups w = gs"
    "tensors_ok (gr_layer_names g) mem w"
proof -
  obtain page where p: "uniform_page_size_bytes d u = Inr page" using w by (auto simp: uniform_worker_config_def ebind_eq_Inr)
  have page: "0 < page" by (rule group_page_positive [OF g(1)]) (simp add: g(2) p)
  let ?n = "mem div page"
  obtain ts where ts: "collectE (\<lambda>name. ebind (dict_get name (ut_specs u)) (\<lambda>s. ebind (page_size_bytes d s) (\<lambda>p. Inr \<lparr>tn_size = p * ?n, tn_shared_by = [name]\<rparr>)))
      (gr_layer_names g) = Inr ts" "w = \<lparr>wk_num_blocks = ?n, wk_tensors = ts, wk_groups = gs\<rparr>"
    using w p o page by (auto simp: uniform_worker_config_def ebind_eq_Inr Let_def may_override_num_blocks_def)
  have n: "0 \<le> ?n" using mem page by (simp add: pos_imp_zdiv_nonneg_iff)
  have le: "page * ?n \<le> mem" using nested_div_le [of 1 page mem] page mem by simp
  have "tensors_ok (gr_layer_names g) mem w"
  proof (cases "gr_layer_names g = []")
    case True
    then show ?thesis using ts n by (simp add: tensors_ok_def)
  next
    case False
    then have u: "gr_layer_names g = map fst (ut_specs u)" "distinct (map fst (ut_specs u))" "\<forall>(x, s) \<in> set (ut_specs u). page_pos d s"
      using g by (auto simp: group_ok_def)
    show ?thesis
      using uniform_tensors [OF ts(1) [unfolded u(1)] subset_refl u(2,3) n] p le mem n ts(2) u(1)
      by (simp add: tensors_ok_def uniform_page_size_bytes_def)
  qed
  then show thesis using that p page ts(2) by simp
qed

lemma shrink_tensor_le:
  assumes "shrink_tensor old new t = Inr t'" "0 \<le> tn_size t" "0 \<le> old" "0 \<le> new" "new \<le> old"
  shows "tn_shared_by t' = tn_shared_by t" "0 \<le> tn_size t'" "tn_size t' \<le> tn_size t"
proof -
  have t': "t' = t\<lparr>tn_size := tn_size t div old * new\<rparr>" and old: "0 < old"
    using assms(1,3) by (auto simp: shrink_tensor_def ebind_eq_Inr split: if_splits)
  have q: "0 \<le> tn_size t div old" using old assms(2) by (simp add: pos_imp_zdiv_nonneg_iff)
  have "tn_size t div old * new \<le> tn_size t div old * old" using q assms(5) by (rule mult_left_mono [rotated])
  also have "\<dots> \<le> tn_size t" using nested_div_le [of 1 old "tn_size t"] old assms(2) by (simp add: mult.commute)
  finally show "tn_shared_by t' = tn_shared_by t" "0 \<le> tn_size t'" "tn_size t' \<le> tn_size t" using t' q assms(4) by simp_all
qed

lemma shrink_tensors:
  assumes "collectE (shrink_tensor old new) ts = Inr ts'" "\<forall>t \<in> set ts. 0 \<le> tn_size t" "0 \<le> old" "0 \<le> new" "new \<le> old"
  shows "map tn_shared_by ts' = map tn_shared_by ts \<and> (\<forall>t \<in> set ts'. 0 \<le> tn_size t) \<and> sum_list (map tn_size ts') \<le> sum_list (map tn_size ts)"
  using assms
proof (induction ts arbitrary: ts')
  case (Cons t ts)
  obtain t' us where "shrink_tensor old new t = Inr t'" "collectE (shrink_tensor old new) ts = Inr us" "ts' = t' # us"
    using Cons.prems(1) by (auto simp: ebind_eq_Inr)
  then show ?case using Cons.IH [of us] Cons.prems shrink_tensor_le [of old new t t'] by auto
qed simp

lemma shrink_worker_ok:
  assumes s: "shrink_worker d cfg n w = Inr w'" and ok: "tensors_ok names mem w" and n: "0 \<le> n" "n \<le> wk_num_blocks w"
  shows "tensors_ok names mem w'" "wk_num_blocks w' = n" "wk_groups w' = wk_groups w"
proof -
  obtain ts where ts: "collectE (shrink_tensor (wk_num_blocks w) n) (wk_tensors w) = Inr ts" "w' = w\<lparr>wk_num_blocks := n, wk_tensors := ts\<rparr>"
    using s by (auto simp: shrink_worker_def ebind_eq_Inr Let_def split: if_splits)
  show "tensors_ok names mem w'" "wk_num_blocks w' = n" "wk_groups w' = wk_groups w"
    using shrink_tensors [OF ts(1)] ok n ts(2) by (auto simp: tensors_ok_def)
qed

end
