(* ===== verification/Plan_Correct.thy ===== *)
theory Plan_Correct
  imports Plan_Workers
begin

text \<open>
  The configurations of all workers (\<open>get_kv_cache_configs\<close>): the blocks cover one request of maximal length
  and the scheduler gets a configuration that fits every worker.  The properties of the planning are here.
\<close>

subsection \<open>The blocks that one request of maximal length takes\<close>

text \<open>The layer of a group whose spec the scheduler gets.\<close>

definition group_head :: "group_type \<Rightarrow> layer_spec" where
  "group_head g = (case g of OneType s \<Rightarrow> s | UniformType u \<Rightarrow> snd (hd (ut_specs u)))"

definition request_pages :: "engine_config \<Rightarrow> kv_group \<Rightarrow> int result" where
  "request_pages cfg g = max_pages cfg (group_head (gr_spec g))"

definition is_encoder :: "layer_spec \<Rightarrow> bool" where
  "is_encoder s \<longleftrightarrow> (\<exists>a. s = EncoderOnlyAttentionSpec a)"

text \<open>All layers of a group with one spec per layer need equally many pages.\<close>

definition pages_agree :: "engine_config \<Rightarrow> kv_group \<Rightarrow> bool" where
  "pages_agree cfg g \<longleftrightarrow> (\<forall>u. gr_spec g = UniformType u \<longrightarrow>
     (\<forall>s \<in> snd ` set (ut_specs u). \<not> is_encoder s \<and> max_pages cfg s = request_pages cfg g))"

lemma pages_agreeD:
  "pages_agree cfg g \<Longrightarrow> gr_spec g = UniformType u \<Longrightarrow> (n, s) \<in> set (ut_specs u) \<Longrightarrow> \<not> is_encoder s \<and> max_pages cfg s = request_pages cfg g"
  by (force simp: pages_agree_def)

lemma same_type_pages:
  assumes "same_type one s = Inr True" "spec_block_size one = spec_block_size s"
  shows "\<not> is_encoder s \<and> max_pages cfg s = max_pages cfg one"
  using assms by (cases one; cases s) (auto simp: same_type_def is_encoder_def cong: if_cong)

lemma all_same_type_each: "all_same_type one ss = Inr True \<Longrightarrow> s \<in> set ss \<Longrightarrow> same_type one s = Inr True"
  by (induction ss) (auto simp: ebind_eq_Inr split: if_splits)

lemma length_remdups_le_1: "length (remdups xs) \<le> 1 \<Longrightarrow> x \<in> set xs \<Longrightarrow> y \<in> set xs \<Longrightarrow> x = y"
  by (metis One_nat_def card_le_Suc0_iff_eq length_remdups_card_conv finite_set)

lemma uniform_type_pages:
  assumes u: "uniform_from_specs specs = Inr (Some u)" and names: "gr_spec g = UniformType u"
  shows "pages_agree cfg g"
proof -
  have t: "is_uniform_type specs = Inr True" "ut_specs u = specs"
    using u by (auto simp: uniform_from_specs_def ebind_eq_Inr split: if_splits)
  have b: "length (remdups (map (spec_block_size \<circ> snd) specs)) \<le> 1" using t(1) by (auto simp: is_uniform_type_def split: if_splits)
  obtain n one rst where s: "specs = (n, one) # rst" using t(1) b by (cases specs) (auto simp: is_uniform_type_def)
  have a: "all_same_type one (map snd specs) = Inr True" using t(1) b s by (simp add: is_uniform_type_def)
  have "\<not> is_encoder x \<and> max_pages cfg x = max_pages cfg one" if "x \<in> snd ` set specs" for x
  proof (rule same_type_pages)
    show "same_type one x = Inr True" using all_same_type_each [OF a, of x] that by simp
    show "spec_block_size one = spec_block_size x"
      by (rule length_remdups_le_1 [OF b]) (use that s in \<open>auto intro: rev_image_eqI\<close>)
  qed
  moreover have "snd (hd specs) = one" using s by simp
  ultimately show ?thesis using names t(2) by (simp add: pages_agree_def request_pages_def group_head_def)
qed

lemma one_type_agree: "one_type g \<Longrightarrow> pages_agree cfg g"
  by (auto simp: one_type_def pages_agree_def)

lemma create_groups_one_type: "create_kv_cache_group_specs specs grouped = Inr gs \<Longrightarrow> \<forall>g \<in> set gs. one_type g"
  unfolding create_kv_cache_group_specs_def
  by (erule collectE_all) (auto simp: create_group_def ebind_eq_Inr one_type_def)

lemma get_groups_agree:
  assumes g: "get_kv_cache_groups d pc specs = Inr gs"
  shows "\<forall>g \<in> set gs. pages_agree cfg g"
proof -
  consider "gs = []" | specs' grouped where "create_kv_cache_group_specs specs' grouped = Inr gs"
    | specs' u where "uniform_from_specs specs' = Inr (Some u)" "gs = get_kv_cache_groups_uniform_type u"
  proof -
    obtain specs' where "(if specs' = [] then Inr []
     else
       ebind (is_kv_cache_spec_uniform specs') (\<lambda>uniform.
       if uniform then get_kv_cache_groups_uniform_spec specs'
       else
         ebind (uniform_from_specs specs') (\<lambda>u.
         case u of
           Some u \<Rightarrow> Inr (get_kv_cache_groups_uniform_type u)
         | None \<Rightarrow>
             ebind (unify_kv_cache_spec_page_size d specs') get_kv_cache_groups_uniform_page_size))) = Inr gs"
      using g unfolding get_kv_cache_groups_def ebind_eq_Inr by blast
    then have "gs = [] \<or> (\<exists>grouped. create_kv_cache_group_specs specs' grouped = Inr gs)
        \<or> (\<exists>u. uniform_from_specs specs' = Inr (Some u) \<and> gs = get_kv_cache_groups_uniform_type u)
        \<or> (\<exists>specs'. get_kv_cache_groups_uniform_page_size specs' = Inr gs)"
      by (auto simp: ebind_eq_Inr get_kv_cache_groups_uniform_spec_def split: if_splits option.splits)
    then show thesis using that page_size_groups_created by metis
  qed
  then show ?thesis
  proof cases
    case 2
    then show ?thesis using create_groups_one_type one_type_agree by blast
  next
    case 3
    then show ?thesis using uniform_type_pages [OF 3(1)] by (simp add: get_kv_cache_groups_uniform_type_def)
  qed simp
qed

lemma project_pages:
  assumes p: "project_group ws g = Inr h" and a: "pages_agree cfg g"
  shows "request_pages cfg h = request_pages cfg g \<and> pages_agree cfg h"
proof (cases "gr_spec g")
  case (OneType s)
  then have "gr_spec h = gr_spec g" using p project_one_type by (simp add: one_type_def)
  then show ?thesis using OneType by (simp add: request_pages_def pages_agree_def)
next
  case (UniformType u)
  let ?names = "filter (\<lambda>n. map_of ws n \<noteq> None) (gr_layer_names g)"
  show ?thesis
  proof (cases "?names = []")
    case True
    then have "gr_spec h = gr_spec g" using p UniformType by (auto simp: project_group_def Let_def)
    then show ?thesis using a by (simp add: request_pages_def pages_agree_def)
  next
    case False
    obtain ss where ss: "collectE (\<lambda>n. ebind (dict_get n (ut_specs u)) (\<lambda>s. Inr (n, s))) ?names = Inr ss"
      "h = \<lparr>gr_layer_names = ?names, gr_spec = UniformType (u\<lparr>ut_specs := ss\<rparr>)\<rparr>"
      using p UniformType False by (auto simp: project_group_def Let_def ebind_eq_Inr split: if_splits)
    note k = collectE_pairs [OF ss(1)]
    have "ss \<noteq> []" using k(1) False by auto
    then have hd: "hd ss \<in> set (ut_specs u)" using k(2) by auto
    have r: "request_pages cfg h = request_pages cfg g"
      using pages_agreeD [OF a UniformType, of "fst (hd ss)" "snd (hd ss)"] hd by (simp add: ss(2) request_pages_def group_head_def)
    then show ?thesis using pages_agreeD [OF a UniformType] k(2) ss(2) by (auto simp: pages_agree_def)
  qed
qed

lemma sumE_cong: "(\<And>x. x \<in> set xs \<Longrightarrow> f x = g x) \<Longrightarrow> sumE f xs = sumE g xs"
  by (induction xs) auto

lemma sumE_map_eq: "map f xs = map g ys \<Longrightarrow> sumE f xs = sumE g ys"
proof (induction xs arbitrary: ys)
  case (Cons x xs)
  then show ?case by (cases ys) auto
qed simp

lemma projected_pages:
  assumes p: "project_kv_cache_groups_to_worker gs ws = Inr hs" and a: "\<forall>g \<in> set gs. pages_agree cfg g"
  shows "sumE (request_pages cfg) hs = sumE (request_pages cfg) gs" "\<forall>h \<in> set hs. pages_agree cfg h"
proof -
  note c = p [unfolded project_kv_cache_groups_to_worker_def]
  have each: "request_pages cfg (hs ! i) = request_pages cfg (gs ! i) \<and> pages_agree cfg (hs ! i)" if "i < length gs" for i
    using project_pages [OF collectE_nth [OF c that]] a that by simp
  have "map (request_pages cfg) hs = map (request_pages cfg) gs"
    using each collectE_length [OF c] by (intro nth_equalityI) auto
  then show "sumE (request_pages cfg) hs = sumE (request_pages cfg) gs" by (rule sumE_map_eq)
  show "\<forall>h \<in> set hs. pages_agree cfg h" using each collectE_length [OF c] by (auto simp: in_set_conv_nth)
qed

subsection \<open>The memory check covers one request\<close>

lemma sumE_each: "sumE f xs = Inr n \<Longrightarrow> x \<in> set xs \<Longrightarrow> \<exists>k. f x = Inr k"
  by (induction xs arbitrary: n) (auto simp: ebind_eq_Inr)

lemma max_memory_pages:
  assumes "max_memory_usage_bytes d cfg s = Inr m" "page_size_bytes d s = Inr p" "0 < p"
  shows "\<exists>k. max_pages cfg s = Inr k \<and> (\<not> is_encoder s \<longrightarrow> m = k * p) \<and> pcdiv m p = Inr k"
proof -
  have "cdiv (k * p) p = k" for k
    using cdiv_least [OF assms(3), of "k * p" k] cdiv_bounds(1) [OF assms(3), of "k * p"] assms(3) by simp
  then show ?thesis using assms by (cases s) (auto simp: max_memory_usage_bytes_def ebind_eq_Inr is_encoder_def)
qed

lemma general_memory_pages:
  assumes m: "general_memory d cfg gs = Inr m" and p: "get_uniform_page_size d (map gr_spec gs) = Inr page" "0 < page"
    and o: "\<forall>g \<in> set gs. one_type g"
  shows "\<exists>b. sumE (request_pages cfg) gs = Inr b \<and> m = int (max_group_size gs) * page * b"
proof -
  let ?f = "\<lambda>g. ebind (group_memory d cfg (gr_spec g)) (\<lambda>m. pcdiv m page)"
  obtain b where b: "sumE ?f gs = Inr b" "m = int (max_group_size gs) * page * b"
    using m p(1) by (auto simp: general_memory_def ebind_eq_Inr)
  have "request_pages cfg g = ?f g" if "g \<in> set gs" for g
  proof -
    obtain s where s: "gr_spec g = OneType s" using o \<open>g \<in> set gs\<close> by (auto simp: one_type_def)
    have "page_size_bytes d s = Inr page" using get_uniform_page_size_in [OF p(1), of "gr_spec g"] imageI [OF \<open>g \<in> set gs\<close>, of gr_spec] s by simp
    moreover obtain x where "max_memory_usage_bytes d cfg s = Inr x" using sumE_each [OF b(1) \<open>g \<in> set gs\<close>] s by (auto simp: ebind_eq_Inr)
    ultimately show ?thesis using max_memory_pages [of d cfg s x page] p(2) s by (auto simp: request_pages_def group_head_def)
  qed
  then have "sumE (request_pages cfg) gs = sumE ?f gs" by (rule sumE_cong)
  then show ?thesis using b by simp
qed

lemma uniform_memory_pages:
  assumes "sumE (max_memory_usage_bytes d cfg) ss = Inr m" "sum_page_sizes d ss = Inr page"
    and "\<forall>s \<in> set ss. page_pos d s \<and> \<not> is_encoder s \<and> max_pages cfg s = Inr k"
  shows "m = k * page"
  using assms
proof (induction ss arbitrary: m page)
  case (Cons s ss)
  obtain a b p q where ab: "max_memory_usage_bytes d cfg s = Inr a" "sumE (max_memory_usage_bytes d cfg) ss = Inr b" "m = a + b"
    "page_size_bytes d s = Inr p" "sum_page_sizes d ss = Inr q" "page = p + q"
    using Cons.prems(1,2) by (auto simp: ebind_eq_Inr)
  have "0 < p" using Cons.prems(3) ab(4) by (auto simp: page_pos_def)
  then have "a = k * p" using max_memory_pages [OF ab(1,4)] Cons.prems(3) by auto
  moreover have "b = k * q" by (rule Cons.IH [OF ab(2,5)]) (use Cons.prems(3) in simp)
  ultimately show ?case using ab by (simp add: distrib_left)
qed simp

subsection \<open>The configuration of one worker\<close>

lemma check_worker_memory:
  assumes "check_worker d cfg (gs, mem) () = Inr u" "gs \<noteq> []"
  obtains m where "0 < mem" "max_memory_usage_bytes_from_groups d cfg gs = Inr m" "m \<le> mem"
  using assms by (auto simp: check_worker_def check_enough_memory_def ebind_eq_Inr split: if_splits)

lemma div_div_ge:
  assumes "0 < a" "0 < b" "a * b * k \<le> (x :: int)"
  shows "k \<le> x div b div a"
proof -
  have "b * (a * k) \<le> x" using assms(3) by (simp add: mult.left_commute mult.commute)
  then have "a * k \<le> x div b" using assms(2) by (metis nonzero_mult_div_cancel_left less_irrefl zdiv_mono1)
  then show ?thesis using assms(1) by (metis nonzero_mult_div_cancel_left less_irrefl zdiv_mono1)
qed

lemma worker_general:
  assumes w: "general_worker_config d pc gs mem = Inr w" and m: "general_memory d cfg gs = Inr m" "m \<le> mem" "0 < mem"
    and ok: "\<forall>g \<in> set gs. group_ok d g \<and> one_type g" "gs \<noteq> []" and o: "num_gpu_blocks_override pc = None"
  shows "tensors_ok (concat (map gr_layer_names gs)) mem w \<and> wk_groups w = gs
    \<and> (\<exists>b. sumE (request_pages cfg) gs = Inr b \<and> b \<le> wk_num_blocks w)"
proof -
  have g: "\<forall>g \<in> set gs. group_ok d g" and t: "\<forall>g \<in> set gs. one_type g" using ok(1) by auto
  obtain page where p: "get_uniform_page_size d (map gr_spec gs) = Inr page" "0 < page" "0 < max_group_size gs"
    "wk_num_blocks w = mem div page div int (max_group_size gs)" "wk_groups w = gs"
    "tensors_ok (concat (map gr_layer_names gs)) mem w"
    by (rule general_worker [OF w g ok(2) o m(3)])
  obtain b where b: "sumE (request_pages cfg) gs = Inr b" "m = int (max_group_size gs) * page * b"
    using general_memory_pages [OF m(1) p(1,2) t] by blast
  have "b \<le> wk_num_blocks w" unfolding p(4) by (rule div_div_ge) (use p m b in auto)
  then show ?thesis using b p by blast
qed

lemma worker_uniform:
  assumes w: "uniform_worker_config d pc [g] (gr_layer_names g) u mem = Inr w"
    and m: "max_memory_usage_all d cfg (map snd (ut_specs u)) = Inr m" "m \<le> mem" "0 < mem"
    and g: "group_ok d g" "gr_spec g = UniformType u" "pages_agree cfg g" and o: "num_gpu_blocks_override pc = None"
  shows "tensors_ok (concat (map gr_layer_names [g])) mem w \<and> wk_groups w = [g]
    \<and> (\<exists>b. sumE (request_pages cfg) [g] = Inr b \<and> b \<le> wk_num_blocks w)"
proof -
  obtain page where p: "uniform_page_size_bytes d u = Inr page" "0 < page" "wk_num_blocks w = mem div page" "wk_groups w = [g]"
    "tensors_ok (gr_layer_names g) mem w"
    by (rule uniform_worker [OF w g(1,2) o m(3)])
  have s: "page_pos d s \<and> \<not> is_encoder s \<and> max_pages cfg s = request_pages cfg g" if "s \<in> set (map snd (ut_specs u))" for s
    using that g pages_agreeD [OF g(3,2)] by (auto simp: group_ok_def)
  have ne: "map snd (ut_specs u) \<noteq> []" using g by (simp add: group_ok_def)
  then obtain s where s0: "s \<in> set (map snd (ut_specs u))" by (meson list.set_sel(1))
  obtain x where "max_memory_usage_bytes d cfg s = Inr x" using sumE_each [OF m(1) [unfolded max_memory_usage_all_def] s0] by blast
  then obtain b where b: "request_pages cfg g = Inr b" using s [OF s0] by (auto simp: max_memory_usage_bytes_def ebind_eq_Inr)
  have "m = b * page"
    by (rule uniform_memory_pages [OF m(1) [unfolded max_memory_usage_all_def]])
      (use p(1) s b in \<open>auto simp: uniform_page_size_bytes_def\<close>)
  then have "b \<le> wk_num_blocks w" using div_div_ge [of 1 page b mem] p(2,3) m(2) by (simp add: mult.commute)
  then show ?thesis using p b by simp
qed

lemma foldE_unit: "foldE f xs () = Inr () \<Longrightarrow> x \<in> set xs \<Longrightarrow> f x () = Inr ()"
  by (induction xs) (auto simp: ebind_eq_Inr)

lemma worker_blocks:
  assumes c: "check_worker d cfg (gs, mem) () = Inr ()" and w: "worker_config_of d pc (gs, spec, mem) = Inr w"
    and ok: "groups_ok d gs" "\<forall>g \<in> set gs. pages_agree cfg g" and o: "num_gpu_blocks_override pc = None"
  shows "tensors_ok (concat (map gr_layer_names gs)) mem w \<and> wk_groups w = gs
    \<and> (\<exists>b. sumE (request_pages cfg) gs = Inr b \<and> b \<le> wk_num_blocks w)"
proof -
  have w': "get_kv_cache_config_from_groups d pc gs mem = Inr w" using w by (auto simp: worker_config_of_def ebind_eq_Inr)
  consider "gs = []" | g u where "gs = [g]" "gr_spec g = UniformType u" | "gs \<noteq> []" "\<forall>g \<in> set gs. one_type g"
  proof (cases "\<forall>g \<in> set gs. one_type g")
    case False
    then obtain g where "gs = [g]" "\<not> one_type g" using ok(1) by (auto simp: groups_ok_def length_Suc_conv)
    then show thesis using that(2) by (cases "gr_spec g") (auto simp: one_type_def)
  qed (use that in blast)
  then show ?thesis
  proof cases
    case 1
    then show ?thesis using w' by (auto simp: get_kv_cache_config_from_groups_def tensors_ok_def)
  next
    case 2
    obtain m where m: "0 < mem" "max_memory_usage_bytes_from_groups d cfg gs = Inr m" "m \<le> mem"
      by (rule check_worker_memory [OF c]) (use 2 in simp)
    show ?thesis unfolding 2(1)
      by (rule worker_uniform [of d pc g u mem w cfg m])
        (use 2 m w' ok o in \<open>simp_all add: get_kv_cache_config_from_groups_def max_memory_usage_bytes_from_groups_def groups_ok_def\<close>)
  next
    case 3
    obtain m where m: "0 < mem" "max_memory_usage_bytes_from_groups d cfg gs = Inr m" "m \<le> mem"
      by (rule check_worker_memory [OF c 3(1)])
    have "max_memory_usage_bytes_from_groups d cfg gs = general_memory d cfg gs"
      "get_kv_cache_config_from_groups d pc gs mem = general_worker_config d pc gs mem"
      using 3 by (auto simp: max_memory_usage_bytes_from_groups_def get_kv_cache_config_from_groups_def one_type_def
          split: list.splits group_type.splits)
    then show ?thesis using worker_general [of d pc gs mem w cfg m] 3 m w' ok(1) o by (simp add: groups_ok_def)
  qed
qed

subsection \<open>The configurations of all workers\<close>

lemma configs_parts:
  assumes g: "get_kv_cache_configs d pc workers available = Inr (cfg, configs)" and l: "length available = length workers"
  obtains merged groups projected raw where
    "merge_worker_specs workers = Inr merged" "get_kv_cache_groups d pc merged = Inr groups"
    "length projected = length workers" "length raw = length workers" "length configs = length workers" "workers \<noteq> []"
    "\<And>i. i < length workers \<Longrightarrow> project_kv_cache_groups_to_worker groups (workers ! i) = Inr (projected ! i)
       \<and> check_worker d cfg (projected ! i, available ! i) () = Inr ()
       \<and> worker_config_of d pc (projected ! i, workers ! i, available ! i) = Inr (raw ! i)
       \<and> shrink_worker d cfg (Min (set (map wk_num_blocks raw))) (raw ! i) = Inr (configs ! i)"
proof -
  obtain merged groups projected raw where
    p: "merge_worker_specs workers = Inr merged" "get_kv_cache_groups d pc merged = Inr groups"
    "collectE (project_kv_cache_groups_to_worker groups) workers = Inr projected"
    "foldE (check_worker d cfg) (zip projected available) () = Inr ()"
    "collectE (worker_config_of d pc) (zip projected (zip workers available)) = Inr raw" "raw \<noteq> []"
    "collectE (shrink_worker d cfg (Min (set (map wk_num_blocks raw)))) raw = Inr configs"
    using g by (auto simp: get_kv_cache_configs_def ebind_eq_Inr simp del: set_map split: if_splits)
  have len: "length projected = length workers" "length raw = length workers" "length configs = length workers"
    using collectE_length [OF p(3)] collectE_length [OF p(5)] collectE_length [OF p(7)] l by auto
  have "project_kv_cache_groups_to_worker groups (workers ! i) = Inr (projected ! i)
       \<and> check_worker d cfg (projected ! i, available ! i) () = Inr ()
       \<and> worker_config_of d pc (projected ! i, workers ! i, available ! i) = Inr (raw ! i)
       \<and> shrink_worker d cfg (Min (set (map wk_num_blocks raw))) (raw ! i) = Inr (configs ! i)" if i: "i < length workers" for i
  proof (intro conjI)
    show "project_kv_cache_groups_to_worker groups (workers ! i) = Inr (projected ! i)" by (rule collectE_nth [OF p(3) i])
    have "(projected ! i, available ! i) \<in> set (zip projected available)" using i len l by (auto simp: in_set_zip)
    then show "check_worker d cfg (projected ! i, available ! i) () = Inr ()" by (rule foldE_unit [OF p(4)])
    show "worker_config_of d pc (projected ! i, workers ! i, available ! i) = Inr (raw ! i)"
      using collectE_nth [OF p(5), of i] i len l by simp
    show "shrink_worker d cfg (Min (set (map wk_num_blocks raw))) (raw ! i) = Inr (configs ! i)"
      using collectE_nth [OF p(7), of i] i len by simp
  qed
  moreover have "workers \<noteq> []" using p(6) len(2) by auto
  ultimately show thesis using that [OF p(1,2) len] by blast
qed

lemma kv_cache_configs_ok:
  assumes g: "get_kv_cache_configs d pc workers available = Inr (cfg, configs)" and l: "length available = length workers"
    and o: "num_gpu_blocks_override pc = None"
    and ws: "\<forall>ws \<in> set workers. distinct (map fst ws) \<and> (\<forall>(n, s) \<in> set ws. page_pos d s)"
  obtains n b where "length configs = length workers" "workers \<noteq> []" "b \<le> n"
    "\<And>i. i < length workers \<Longrightarrow> wk_num_blocks (configs ! i) = n \<and> tensors_ok (map fst (workers ! i)) (available ! i) (configs ! i)
       \<and> groups_ok d (wk_groups (configs ! i)) \<and> mset (concat (map gr_layer_names (wk_groups (configs ! i)))) = mset (map fst (workers ! i))
       \<and> sumE (request_pages cfg) (wk_groups (configs ! i)) = Inr b"
proof -
  obtain merged groups projected raw where
    p: "merge_worker_specs workers = Inr merged" "get_kv_cache_groups d pc merged = Inr groups"
    and len: "length projected = length workers" "length raw = length workers" "length configs = length workers" "workers \<noteq> []"
    and each: "\<And>i. i < length workers \<Longrightarrow> project_kv_cache_groups_to_worker groups (workers ! i) = Inr (projected ! i)
       \<and> check_worker d cfg (projected ! i, available ! i) () = Inr ()
       \<and> worker_config_of d pc (projected ! i, workers ! i, available ! i) = Inr (raw ! i)
       \<and> shrink_worker d cfg (Min (set (map wk_num_blocks raw))) (raw ! i) = Inr (configs ! i)"
    by (rule configs_parts [OF g l]) blast
  note m = merge_workers_spec [OF p(1)]
  have pos: "\<forall>(n, s) \<in> set merged. page_pos d s" using m(3) ws by blast
  note gr = get_groups_ok [OF p(2) m(1) pos]
  note agree = get_groups_agree [OF p(2), of cfg]
  have "distinct (concat (map gr_layer_names groups))" using gr(1) m(1) mset_eq_imp_distinct_iff by blast
  define n where "n = Min (set (map wk_num_blocks raw))"
  have worker: "mset (concat (map gr_layer_names (projected ! i))) = mset (map fst (workers ! i)) \<and> groups_ok d (projected ! i)
      \<and> tensors_ok (map fst (workers ! i)) (available ! i) (raw ! i) \<and> wk_groups (raw ! i) = projected ! i
      \<and> (\<exists>b. sumE (request_pages cfg) groups = Inr b \<and> b \<le> wk_num_blocks (raw ! i))
      \<and> sumE (request_pages cfg) (projected ! i) = sumE (request_pages cfg) groups"
    if i: "i < length workers" for i
  proof -
    have w: "workers ! i \<in> set workers" using i by simp
    then have "set (map fst (workers ! i)) \<subseteq> set (map fst merged)" using m(2) by blast
    then have names: "mset (concat (map gr_layer_names (projected ! i))) = mset (map fst (workers ! i))"
      using projected_names [of groups "workers ! i" "projected ! i" merged] each [OF i] gr(1) m(1) ws w by blast
    have ok: "groups_ok d (projected ! i)"
      using projected_ok each [OF i] gr(2) \<open>distinct (concat (map gr_layer_names groups))\<close> by blast
    note pp = projected_pages [of groups "workers ! i" "projected ! i" cfg]
    have "\<forall>g \<in> set (projected ! i). pages_agree cfg g" using pp(2) each [OF i] agree by blast
    then have "tensors_ok (concat (map gr_layer_names (projected ! i))) (available ! i) (raw ! i) \<and> wk_groups (raw ! i) = projected ! i
      \<and> (\<exists>b. sumE (request_pages cfg) (projected ! i) = Inr b \<and> b \<le> wk_num_blocks (raw ! i))"
      using worker_blocks [of d cfg "projected ! i" "available ! i" pc "workers ! i" "raw ! i"] each [OF i] ok o by blast
    moreover have "sumE (request_pages cfg) (projected ! i) = sumE (request_pages cfg) groups" using pp(1) each [OF i] agree by blast
    ultimately show ?thesis using names ok by (simp add: tensors_ok_def)
  qed
  have raw_ne: "set (map wk_num_blocks raw) \<noteq> {}" using len by auto
  have "n \<in> set (map wk_num_blocks raw)" unfolding n_def by (rule Min_in) (use raw_ne in auto)
  then obtain j where j: "j < length workers" "wk_num_blocks (raw ! j) = n" using len(2) by (auto simp: in_set_conv_nth)
  obtain b where b: "sumE (request_pages cfg) groups = Inr b" "b \<le> n" using worker [OF j(1)] j(2) by auto
  have n0: "0 \<le> n" using worker [OF j(1)] j(2) by (simp add: tensors_ok_def)
  show thesis
  proof (rule that [OF len(3,4) b(2)])
    fix i assume i: "i < length workers"
    have "n \<le> wk_num_blocks (raw ! i)" unfolding n_def by (rule Min_le) (use i len(2) in auto)
    moreover have "shrink_worker d cfg n (raw ! i) = Inr (configs ! i)" using each [OF i] by (simp add: n_def del: set_map)
    ultimately show "wk_num_blocks (configs ! i) = n \<and> tensors_ok (map fst (workers ! i)) (available ! i) (configs ! i)
       \<and> groups_ok d (wk_groups (configs ! i)) \<and> mset (concat (map gr_layer_names (wk_groups (configs ! i)))) = mset (map fst (workers ! i))
       \<and> sumE (request_pages cfg) (wk_groups (configs ! i)) = Inr b"
      using shrink_worker_ok [of d cfg n "raw ! i" "configs ! i" "map fst (workers ! i)" "available ! i"] worker [OF i] n0 b(1)
      by simp
  qed
qed

subsection \<open>The configuration of the scheduler\<close>

lemma scheduler_groups:
  assumes "\<forall>g \<in> set gs. group_ok d g"
  shows "\<exists>ss. collectE scheduler_group gs = Inr ss \<and> map layer_names ss = map gr_layer_names gs
    \<and> map kv_cache_spec ss = map (group_head \<circ> gr_spec) gs"
  using assms
proof (induction gs)
  case (Cons g gs)
  have "\<exists>s. scheduler_group g = Inr s \<and> layer_names s = gr_layer_names g \<and> kv_cache_spec s = group_head (gr_spec g)"
  proof (cases "gr_spec g")
    case (UniformType u)
    then have "ut_specs u \<noteq> []" using Cons.prems by (simp add: group_ok_def)
    then show ?thesis using UniformType by (cases "ut_specs u") (auto simp: scheduler_group_def group_head_def)
  qed (simp add: scheduler_group_def group_head_def)
  then show ?case using Cons by auto
qed simp

lemma scheduler_config:
  assumes "configs \<noteq> []" "\<forall>w \<in> set configs. wk_num_blocks w = n" "groups_ok d (wk_groups (hd configs))"
  obtains sc where "generate_scheduler_kv_cache_config configs = Inr sc" "num_blocks sc = n"
    "map kv_cache_spec (kv_cache_groups sc) = map (group_head \<circ> gr_spec) (wk_groups (hd configs))"
proof -
  obtain w ws where c: "configs = w # ws" using assms(1) by (cases configs) auto
  obtain ss where ss: "collectE scheduler_group (wk_groups w) = Inr ss" "map kv_cache_spec ss = map (group_head \<circ> gr_spec) (wk_groups w)"
    using scheduler_groups [of "wk_groups w" d] assms(3) c by (auto simp: groups_ok_def)
  show thesis
    by (rule that [of "\<lparr>num_blocks = n, kv_cache_groups = ss\<rparr>"])
      (use ss assms(2) c in \<open>simp_all add: generate_scheduler_kv_cache_config_def\<close>)
qed

lemma kv_cache_configs_scheduled:
  assumes g: "get_kv_cache_configs d pc workers available = Inr (cfg, configs)" "length available = length workers"
    "num_gpu_blocks_override pc = None"
    and ws: "\<forall>ws \<in> set workers. distinct (map fst ws) \<and> (\<forall>(n, s) \<in> set ws. \<exists>p > 0. page_size_bytes d s = Inr p)"
  obtains sc b where "generate_scheduler_kv_cache_config configs = Inr sc" "length configs = length workers"
    "sumE (\<lambda>g. max_pages cfg (kv_cache_spec g)) (kv_cache_groups sc) = Inr b" "b \<le> num_blocks sc"
    "\<And>i. i < length workers \<Longrightarrow> wk_num_blocks (configs ! i) = num_blocks sc \<and> tensors_ok (map fst (workers ! i)) (available ! i) (configs ! i)
       \<and> mset (concat (map gr_layer_names (wk_groups (configs ! i)))) = mset (map fst (workers ! i))"
proof -
  obtain n b where c: "length configs = length workers" "workers \<noteq> []" "b \<le> n"
    "\<And>i. i < length workers \<Longrightarrow> wk_num_blocks (configs ! i) = n \<and> tensors_ok (map fst (workers ! i)) (available ! i) (configs ! i)
       \<and> groups_ok d (wk_groups (configs ! i)) \<and> mset (concat (map gr_layer_names (wk_groups (configs ! i)))) = mset (map fst (workers ! i))
       \<and> sumE (request_pages cfg) (wk_groups (configs ! i)) = Inr b"
    by (rule kv_cache_configs_ok [OF g]) (use ws in \<open>auto simp: page_pos_def\<close>)
  have ne: "configs \<noteq> []" using c(1,2) by auto
  then have hd: "hd configs = configs ! 0" "0 < length workers" using c(1) by (auto simp: hd_conv_nth)
  have h: "groups_ok d (wk_groups (hd configs))" "sumE (request_pages cfg) (wk_groups (hd configs)) = Inr b"
    using c(4) [OF hd(2)] hd(1) by simp_all
  have "\<forall>w \<in> set configs. wk_num_blocks w = n" using c(1,4) by (auto simp: in_set_conv_nth)
  then obtain sc where sc: "generate_scheduler_kv_cache_config configs = Inr sc" "num_blocks sc = n"
    "map kv_cache_spec (kv_cache_groups sc) = map (group_head \<circ> gr_spec) (wk_groups (hd configs))"
    by (rule scheduler_config [OF ne _ h(1)])
  have "map (\<lambda>g. max_pages cfg (kv_cache_spec g)) (kv_cache_groups sc) = map (max_pages cfg) (map kv_cache_spec (kv_cache_groups sc))"
    by simp
  also have "\<dots> = map (request_pages cfg) (wk_groups (hd configs))" unfolding sc(3) by (simp add: request_pages_def)
  finally have "sumE (\<lambda>g. max_pages cfg (kv_cache_spec g)) (kv_cache_groups sc) = sumE (request_pages cfg) (wk_groups (hd configs))"
    by (rule sumE_map_eq)
  then show thesis using that [OF sc(1) c(1)] h(2) c(3,4) sc(2) by simp
qed

subsection \<open>An example\<close>

definition plan_attention :: attention_fields where
  "plan_attention = \<lparr>at_block_size = 16, num_kv_heads = 1, head_size = 1, at_dtype = ''bfloat16'', at_page_size_padded = None\<rparr>"

definition plan_engine :: engine_config where
  "plan_engine = \<lparr>max_model_len = 64, max_num_batched_tokens = 32, max_num_encoder_input_tokens = 0,
     decode_context_parallel_size = 1, prefill_context_parallel_size = 1, cfg_mamba_cache_mode = ''none''\<rparr>"

definition example_plan :: plan_config where
  "example_plan = \<lparr>pc_engine = plan_engine, num_gpu_blocks_override = None, disable_hybrid_kv_cache_manager = False, auto_fit = False\<rparr>"

text \<open>Two layers of full attention and four with a sliding window, on two workers with the same layers.\<close>

definition hybrid_layers :: "(string \<times> layer_spec) list" where
  "hybrid_layers = (let f = FullAttentionSpec plan_attention 1 None None; w = SlidingWindowSpec plan_attention 32 in
     [(''a'', f), (''b'', w), (''c'', w), (''d'', f), (''e'', w), (''f'', w)])"

definition example_group :: kv_group where
  "example_group = \<lparr>gr_layer_names = [''a''], gr_spec = OneType (FullAttentionSpec plan_attention 1 None None)\<rparr>"

lemma hybrid_layers_ok: "\<forall>ws \<in> set [hybrid_layers, hybrid_layers]. distinct (map fst ws) \<and> (\<forall>(n, s) \<in> set ws. \<exists>p > 0. page_size_bytes (\<lambda>_. 2) s = Inr p)"
  by (simp add: hybrid_layers_def page_size_bytes_def page_size_padded_def plan_attention_def full_real_page_size_bytes_def
      attention_real_page_size_bytes_def Let_def)

lemma hybrid_configs:
  obtains cfg ws where "get_kv_cache_configs (\<lambda>_. 2) example_plan [hybrid_layers, hybrid_layers] [2000, 1800] = Inr (cfg, ws)"
    "max_model_len cfg = 64" "map wk_num_blocks ws = [14, 14]" "map (map tn_size \<circ> wk_tensors) ws = [[896, 896], [896, 896]]"
proof -
  have "case get_kv_cache_configs (\<lambda>_. 2) example_plan [hybrid_layers, hybrid_layers] [2000, 1800] of Inl _ \<Rightarrow> False
    | Inr (cfg, ws) \<Rightarrow> max_model_len cfg = 64 \<and> map wk_num_blocks ws = [14, 14] \<and> map (map tn_size \<circ> wk_tensors) ws = [[896, 896], [896, 896]]"
    by code_simp
  then show thesis using that by (auto split: sum.splits prod.splits)
qed

text \<open>
  Two cases that the code refuses: full attention with two window sizes, where the test for one type raises instead of
  answering no, and a worker without any layer that has a cache.
\<close>

lemma different_windows_raise:
  "is_kv_cache_spec_uniform [(''a'', FullAttentionSpec plan_attention 1 (Some 32) None), (''b'', FullAttentionSpec plan_attention 1 (Some 64) None)]
    = Inl ValueError"
  by code_simp

lemma worker_without_layers_fails:
  "get_kv_cache_configs (\<lambda>_. 2) example_plan [[(''a'', FullAttentionSpec plan_attention 1 None None)], []] [2000, 2000] = Inl AssertionError"
  by code_simp

subsection \<open>Properties\<close>

text \<open>
  C8: \<open>get_kv_cache_configs\<close>, when it succeeds, the number of blocks is not overridden and every layer of a
  worker has a page size (positive) and a name of its own.  All workers get the same
  number of blocks, which is the one of the scheduler's configuration; every layer of a worker is in exactly
  one of its groups and in exactly one of its tensors; and the tensors fit the memory of the worker.
\<close>

theorem kv_cache_configs_correct:
  assumes "get_kv_cache_configs d pc workers available = Inr (cfg, configs)" "length available = length workers"
    and "num_gpu_blocks_override pc = None"
    and "\<forall>ws \<in> set workers. distinct (map fst ws) \<and> (\<forall>(n, s) \<in> set ws. \<exists>p > 0. page_size_bytes d s = Inr p)"
  shows "\<exists>sc. generate_scheduler_kv_cache_config configs = Inr sc \<and> length configs = length workers
    \<and> (\<forall>i < length workers. wk_num_blocks (configs ! i) = num_blocks sc
        \<and> mset (concat (map gr_layer_names (wk_groups (configs ! i)))) = mset (map fst (workers ! i))
        \<and> mset (concat (map tn_shared_by (wk_tensors (configs ! i)))) = mset (map fst (workers ! i))
        \<and> sum_list (map tn_size (wk_tensors (configs ! i))) \<le> max 0 (available ! i))"
  by (rule kv_cache_configs_scheduled [OF assms]) (auto simp: tensors_ok_def)

theorem kv_cache_configs_correct_witness:
  "\<exists>cfg ws. get_kv_cache_configs (\<lambda>_. 2) example_plan [hybrid_layers, hybrid_layers] [2000, 1800] = Inr (cfg, ws)
    \<and> map wk_num_blocks ws = [14, 14] \<and> (\<exists>sc. generate_scheduler_kv_cache_config ws = Inr sc \<and> num_blocks sc = 14)"
proof (rule hybrid_configs)
  fix cfg ws assume c: "get_kv_cache_configs (\<lambda>_. 2) example_plan [hybrid_layers, hybrid_layers] [2000, 1800] = Inr (cfg, ws)"
    "map wk_num_blocks ws = [14, 14]"
  have "wk_num_blocks (ws ! 0) = 14" using c(2) by (cases ws) auto
  then show ?thesis using kv_cache_configs_correct [OF c(1) _ _ hybrid_layers_ok] c by (fastforce simp: example_plan_def)
qed

text \<open>
  C9: The memory check of \<open>get_kv_cache_configs\<close>, when it passes, the number of blocks is not overridden and every
  layer of a worker has a page size (positive) and a name of its own: over the groups of the scheduler's
  configuration, the pages that a request of maximal length needs are at most the number of blocks that
  all workers got, also when the workers have different memory and padding layers.  The bound does not leave room for
  the null block, which the pool takes from these blocks and the check does not count.
\<close>

theorem blocks_cover_one_request:
  assumes "get_kv_cache_configs d pc workers available = Inr (cfg, configs)" "length available = length workers"
    and "num_gpu_blocks_override pc = None"
    and "\<forall>ws \<in> set workers. distinct (map fst ws) \<and> (\<forall>(n, s) \<in> set ws. \<exists>p > 0. page_size_bytes d s = Inr p)"
  shows "\<exists>sc b. generate_scheduler_kv_cache_config configs = Inr sc
    \<and> sumE (\<lambda>g. max_pages cfg (kv_cache_spec g)) (kv_cache_groups sc) = Inr b \<and> b \<le> num_blocks sc"
  by (rule kv_cache_configs_scheduled [OF assms]) blast

theorem blocks_cover_one_request_witness:
  "\<exists>cfg ws sc b. get_kv_cache_configs (\<lambda>_. 2) example_plan [hybrid_layers, hybrid_layers] [2000, 1800] = Inr (cfg, ws)
    \<and> max_model_len cfg = 64 \<and> generate_scheduler_kv_cache_config ws = Inr sc
    \<and> sumE (\<lambda>g. max_pages cfg (kv_cache_spec g)) (kv_cache_groups sc) = Inr b \<and> b \<le> num_blocks sc"
proof (rule hybrid_configs)
  fix cfg ws assume c: "get_kv_cache_configs (\<lambda>_. 2) example_plan [hybrid_layers, hybrid_layers] [2000, 1800] = Inr (cfg, ws)"
    "max_model_len cfg = 64"
  show ?thesis using blocks_cover_one_request [OF c(1) _ _ hybrid_layers_ok] c by (auto simp: example_plan_def)
qed

text \<open>
  C11: \<open>_get_kv_cache_groups_uniform_page_size\<close>, when it succeeds on layers with different names.  Every layer of a hybrid model is in exactly one group, the layers of a
  group have the same spec, no group is empty, and no group has more layers than the group size that the
  heuristic chooses, which bounds the padding.
\<close>

theorem hybrid_groups_partition:
  assumes "get_kv_cache_groups_uniform_page_size specs = Inr gs" "distinct (map fst specs)"
  shows "mset (concat (map gr_layer_names gs)) = mset (map fst specs)
    \<and> (\<forall>g \<in> set gs. (\<exists>s. \<forall>n \<in> set (gr_layer_names g). map_of specs n = Some s) \<and> gr_layer_names g \<noteq> []
        \<and> (let sizes = map (length \<circ> snd) (same_type_layers specs)
            in length (gr_layer_names g) \<le> layers_per_group (Min (set sizes)) (Max (set sizes))))"
  using page_size_groups_spec [OF assms] by (auto simp: Let_def)

theorem hybrid_groups_partition_witness:
  "\<exists>gs. get_kv_cache_groups_uniform_page_size hybrid_layers = Inr gs
    \<and> map gr_layer_names gs = [[''a'', ''d''], [''b'', ''e''], [''c'', ''f'']]
    \<and> mset (concat (map gr_layer_names gs)) = {#''a'', ''b'', ''c'', ''d'', ''e'', ''f''#}"
proof -
  have "case get_kv_cache_groups_uniform_page_size hybrid_layers of Inl _ \<Rightarrow> False
    | Inr gs \<Rightarrow> map gr_layer_names gs = [[''a'', ''d''], [''b'', ''e''], [''c'', ''f'']]"
    by code_simp
  then obtain gs where gs: "get_kv_cache_groups_uniform_page_size hybrid_layers = Inr gs"
    "map gr_layer_names gs = [[''a'', ''d''], [''b'', ''e''], [''c'', ''f'']]" by (auto split: sum.splits)
  have "distinct (map fst hybrid_layers)" "map fst hybrid_layers = [''a'', ''b'', ''c'', ''d'', ''e'', ''f'']" by (simp_all add: hybrid_layers_def Let_def)
  with hybrid_groups_partition [OF gs(1)] gs show ?thesis by auto
qed

text \<open>
  C10: \<open>_auto_fit_max_model_len\<close>, for groups with positive block and page sizes, one page size per worker, and no sliding
  window under decode context parallelism.  The model length is set to the greatest one, up to the model's own, at which one request
  fits the memory of every worker; if not even one token fits, \<open>ValueError\<close> is raised.  The binary
  searches of the workers end, and never miss the greatest length, because the memory grows with the length.
\<close>

theorem auto_fit_is_greatest:
  assumes "\<forall>gs \<in> set per_worker. sized_groups d cfg gs" "1 \<le> max_model_len cfg" "length available = length per_worker"
  shows "case auto_fit_max_model_len d cfg per_worker available of
      Inr cfg' \<Rightarrow> cfg' = cfg\<lparr>max_model_len := max_model_len cfg'\<rparr> \<and> 1 \<le> max_model_len cfg' \<and> max_model_len cfg' \<le> max_model_len cfg
        \<and> (\<forall>m. 1 \<le> m \<and> m \<le> max_model_len cfg \<longrightarrow> every_worker_fits d cfg (zip per_worker available) m = (m \<le> max_model_len cfg'))
    | Inl e \<Rightarrow> e = ValueError \<and> \<not> every_worker_fits d cfg (zip per_worker available) 1"
  by (rule auto_fit_spec [OF assms])

theorem auto_fit_is_greatest_witness:
  "\<exists>cfg. auto_fit_max_model_len (\<lambda>_. 2) plan_engine [[example_group], [example_group]] [500, 150] = Inr cfg \<and> max_model_len cfg = 32
    \<and> every_worker_fits (\<lambda>_. 2) plan_engine [([example_group], 500), ([example_group], 150)] 32
    \<and> \<not> every_worker_fits (\<lambda>_. 2) plan_engine [([example_group], 500), ([example_group], 150)] 33"
proof -
  have "case auto_fit_max_model_len (\<lambda>_. 2) plan_engine [[example_group], [example_group]] [500, 150] of
      Inl _ \<Rightarrow> False | Inr cfg \<Rightarrow> max_model_len cfg = 32"
    by code_simp
  then obtain cfg where c: "auto_fit_max_model_len (\<lambda>_. 2) plan_engine [[example_group], [example_group]] [500, 150] = Inr cfg"
    "max_model_len cfg = 32" by (auto split: sum.splits)
  have g: "sized_groups (\<lambda>_. 2) plan_engine [example_group]"
    by (simp add: sized_groups_def sized_group_def sized_spec_def example_group_def plan_attention_def page_size_bytes_def
        page_size_padded_def full_real_page_size_bytes_def is_sliding_def Let_def)
  have "max_model_len plan_engine = 64" by (simp add: plan_engine_def)
  with auto_fit_is_greatest [of "[[example_group], [example_group]]" "\<lambda>_. 2" plan_engine "[500, 150]"] g c show ?thesis
    by auto
qed

end
