(* ===== verification/Spec2Isabelle.thy ===== *)
theory Spec2Isabelle
  imports Sched_Correct Plan_Correct
begin

text \<open>
  Verification of the KV-cache management and scheduling data structures of vLLM, the Python package
  under \<open>vllm-src/vllm\<close>; the paths below are relative to it.

  The program and its parts.  \<open>Scheduler\<close> (\<open>v1/core/sched/scheduler.py\<close>) decides in every step how many
  tokens of which requests the model computes; it keeps the requests, a list of running ones, two queues of waiting
  ones, and asks for room in the caches.  It gives every request a table of KV-cache blocks per cache
  group.  \<open>KVCacheManager\<close> (\<open>v1/core/kv_cache_manager.py\<close>) is what it calls; the manager passes each call
  to a coordinator (\<open>v1/core/kv_cache_coordinator.py\<close>), which holds one single-type manager per cache
  group (\<open>v1/core/single_type_kv_cache_manager.py\<close>) and the one pool of blocks they share
  (\<open>v1/core/block_pool.py\<close>).  The pool keeps its free blocks on a doubly linked list through the block
  objects and the cached ones in an index by block hash (\<open>v1/core/kv_cache_utils.py\<close>).  Outputs of the encoders
  of multi-modal requests are cached by \<open>v1/core/encoder_cache_manager.py\<close>.

  Theories.
  Prelude: results with errors, Python indexing and slicing, dictionaries as association lists, \<open>cdiv\<close>.
  Block_Queue: the free list as pointers (\<open>FreeKVCacheBlockQueue\<close>) over a heap of block objects,
  refining a list of blocks.
  Request_Model: \<open>v1/request.py\<close>.  Block_Hash: block hash keys and the incremental block hasher.
  Hash_Block_Map: \<open>BlockHashToBlockMap\<close>.  Block_Pool: \<open>BlockPool\<close> and its invariant \<open>pool_inv\<close> (the free
  list is exactly the blocks without references, the index is exactly the hashed blocks).
  KV_Cache_Spec: the layer specifications of \<open>v1/kv_cache_interface.py\<close>.
  Cache_Hit: \<open>find_longest_cache_hit\<close> of every manager class, compared with the longest cached prefix.
  Block_Tables, Single_Type_Manager: the tables of one group; every operation keeps \<open>mgr_ok\<close>, which
  counts the references of each block over all tables.
  Coordinator, KV_Invariant, Admission: all groups over one pool, with a loop rule that carries the
  invariant \<open>coord_ok\<close> through a pass over the managers, and the proof that the number of blocks counted
  beforehand covers what an allocation takes.  Admission also holds the properties of the allocation and the caching of one
  manager, since they cover the Mamba manager (allocation: outside its \<open>align\<close> mode).
  KV_Cache_Manager, Cache_Metrics, Slot_Allocation: the operations of \<open>KVCacheManager\<close>, its statistics,
  and the manager as a state machine (\<open>kv_step\<close>) whose reachable states are well formed.  Hybrid_Search: the search of the
  hybrid coordinator ends and all groups agree.
  Sched_Utils: the stop check of \<open>v1/core/sched/utils.py\<close>.  Encoder_Cache: the two encoder cache managers
  of \<open>v1/core/encoder_cache_manager.py\<close>, as a state machine with exact slot accounting.  Request_Queue: the
  waiting queues of \<open>v1/core/sched/request_queue.py\<close>, over a translation of \<open>heapq\<close> that is verified there.

  Scheduler_State: the state of \<open>Scheduler\<close>, its configuration and what it asks of code outside it.
  Sched_Running, Sched_Waiting, Sched_Step: \<open>schedule\<close>, that is the loop over the running requests with
  preemption, the loop over the waiting ones, the message to the workers and the update that follows, also of
  \<open>AsyncScheduler\<close>.  Sched_Update: every other operation of the scheduler, above all
  \<open>update_from_output\<close>.
  Sched_Places, Sched_Budget, Sched_Turns, Sched_Admit, Sched_Finish, Sched_Results: which requests each operation moves
  between the list and the queues, and that the books of a step agree with its budget.  Sched_Machine: the scheduler
  as a state machine (\<open>sched_moves\<close>) and its invariant.  Sched_Correct: the properties of the scheduler.

  KV_Cache_Plan: the second half of \<open>v1/core/kv_cache_utils.py\<close>, which before the engine starts splits the layers of the
  model into cache groups, checks the memory of every worker and fixes the number of blocks.  Plan_Memory: the binary
  search for the longest model that fits.  Plan_Groups: every layer is in one group.  Plan_Workers: the tensors of one
  worker.  Plan_Correct: all workers and the scheduler agree, and the properties of the planning.

  How the code is translated.  Every fallible function returns \<open>error + 'a\<close> (\<open>result\<close>), with the
  Python exception as the error.  Objects that the code shares and mutates (the blocks) live in a heap
  field of the pool; everything else is a record passed along.  Python integers are \<open>int\<close>, byte strings
  are lists of numbers, dictionaries are association lists in insertion order.  Loops are structural
  recursions or functions with a measure; the walk of the free list, which does not end on a corrupted
  list, is a \<open>partial_function\<close> into \<open>option\<close> and is proved to return; the search of the hybrid coordinator
  has fuel, one more than the length it starts from, which every turn but the last lowers.

  The loops of \<open>schedule\<close> need no fuel: every turn over the running requests moves the index towards the end of
  the list, every preemption shortens it, and every turn over the waiting requests takes one off a queue.

  Parameters.  The hash functions (sha256, xxhash, pickling) are arguments of the definitions or fields of the record \<open>pool_env\<close>;
  the one assumption on them, in the properties that need it, is that the inputs at hand do not collide.
  The record \<open>sched_env\<close> holds what the scheduler asks of the KV connector, the encoder-cache connector and the
  structured-output manager; they may answer differently in every call, and the invariant of the scheduler assumes nothing
  of them.  The order in which Python walks a set is an argument too.

  What the properties leave out.  The state machine of the scheduler (\<open>sched_moves\<close>) has one batch in flight at most,
  although the engine may have several, since with two of them a stopped request can stay in a queue; a streaming
  session is not reset while its batch is in flight, since the code then loses it (a request that is preempted with its
  last output in flight is queued again and then removed with the stopped ones).  The invariant \<open>coord_ok\<close> is proved
  for configurations as in \<open>config_ok\<close> (no sink, cross-attention or encoder-only groups, no Mamba \<open>align\<close> mode)
  and requests as in \<open>slots_ok\<close>; the definitions themselves model all of these.  The agreement of the hybrid
  search is proved for one spec over all full-attention groups, the kinds of groups in \<open>searchable\<close> and no context
  parallelism.  Each property says which of these it needs.

  Not modelled: device tensors, workers, kernels and model definitions, which are programs over torch
  and CUDA; process and network glue; clocks, logging and profiling; log-probabilities, routed experts and metadata
  of the connectors, which the scheduler only forwards; the other fields of objects that the code only
  forwards.
\<close>

section \<open>Properties of the whole KV cache\<close>

text \<open>
  What the five properties of this section assume.  A configuration is supported (\<open>config_ok\<close>) if it has
  at least one block, positive block sizes, windows and chunks, no group of sink, cross-attention or encoder-only
  layers, no Mamba group in the \<open>align\<close> mode, and no Mamba group together with context parallelism.  The excluded
  managers break these properties or keep other books: sink blocks are taken off the free list for good, cross attention
  counts the tokens of the encoder, and \<open>align\<close> keeps only some of its blocks.

  A reachable state is one that \<open>kv_step\<close> reaches from construction, that is by any calls of the
  operations of \<open>KVCacheManager\<close> whose slots are asked for as in \<open>slots_ok\<close>: the hits are one list per group
  of blocks that the index knows, a request that holds blocks brings no hits and no external tokens and its tables cover
  its computed tokens, the computed tokens do not exceed the length of the model, and with the prefix cache on its block
  hashes are up to date.  With external tokens only the first group may bring hits: \<open>allocate_new_computed_blocks\<close>
  of the coordinator goes group by group, and the blocks that the first group takes for external tokens may be the very
  hits of a later group, which then end up in two tables.
\<close>

text \<open>
  C1: \<open>KVCacheManager.allocate_slots\<close>.  In every reachable state of a supported configuration
  (\<open>config_ok\<close>), and for every request as in \<open>slots_ok\<close> (with external tokens only the first group
  may bring hits), the call never raises: the count of blocks it
  makes beforehand really covers what adopting the hits, the external tokens and the new tokens take
  from the free list, over all groups.  If it refuses (\<open>None\<close>) the tables have their lengths as before;
  otherwise the table of the request covers the tokens in every group.  No other request's table
  changes.
\<close>

theorem allocate_slots_never_fails:
  assumes "init_kv_manager config max_len hbs caching eagle stats events dcp pcp = Inr k0" "config_ok config dcp pcp"
    and "rtranclp (kv_step env) k0 k"
    and "slots_ok r new_tokens new_computed blocks lookahead external delay k"
  shows "\<exists>res k'. allocate_slots env r new_tokens new_computed blocks lookahead external delay enc k = Inr (res, k')
    \<and> length (coord_managers (coord k')) = length (coord_managers (coord k))
    \<and> (\<forall>i < length (coord_managers (coord k)).
         (\<forall>t. t \<noteq> request_id r \<longrightarrow> table (coord_managers (coord k') ! i) t = table (coord_managers (coord k) ! i) t)
         \<and> (let tab = table (coord_managers (coord k') ! i) (request_id r) in
             case res of
               None \<Rightarrow> length tab = length (table (coord_managers (coord k) ! i) (request_id r))
             | Some _ \<Rightarrow> min (num_computed_tokens r + new_computed + external + new_tokens + lookahead) (kvm_max_model_len k)
                 \<le> int (length tab) * block_size (coord_managers (coord k') ! i)))"
proof -
  obtain xs where "kvm_ok k xs" by (rule kv_reachable_from_init [OF assms(1-3)])
  from allocate_slots_total [OF this assms(4), of env enc] obtain res k' xs' where
    a: "allocate_slots env r new_tokens new_computed blocks lookahead external delay enc k = Inr (res, k')"
    "coord_step (coord k) (coord k') xs'"
    "\<forall>i < length (coord_managers (coord k)). \<forall>t. t \<noteq> request_id r \<longrightarrow>
         table (coord_managers (coord k') ! i) t = table (coord_managers (coord k) ! i) t"
    and res: "case res of
         None \<Rightarrow> \<forall>i < length (coord_managers (coord k)).
           length (table (coord_managers (coord k') ! i) (request_id r)) = length (table (coord_managers (coord k) ! i) (request_id r))
       | Some _ \<Rightarrow> all_managers (\<lambda>m. min (num_computed_tokens r + new_computed + external + new_tokens + lookahead) (kvm_max_model_len k)
           \<le> int (length (table m (request_id r))) * block_size m) (coord k')"
    by blast
  have l: "length (coord_managers (coord k')) = length (coord_managers (coord k))" using a(2) by (simp add: coord_step_def)
  show ?thesis using a(1,3) l res
    by (intro exI [of _ res] exI [of _ k']) (auto simp: Let_def all_managers_def split: option.splits)
qed

theorem allocate_slots_never_fails_witness:
  "\<exists>k k' m'. init_kv_manager example_config 64 4 True False False False 1 1 = Inr k
    \<and> allocate_slots example_env hashed_request 6 0 None 1 0 False 0 k = Inr (Some (KVBlocks [[Blk 1, Blk 2]]), k')
    \<and> coord_managers (coord k') = [m'] \<and> 7 \<le> int (length (table m' ''r'')) * block_size m'"
proof (rule example_allocated)
  fix k k' m' assume k: "init_kv_manager example_config 64 4 True False False False 1 1 = Inr k"
    "slots_ok hashed_request 6 0 None 1 0 False k"
    "allocate_slots example_env hashed_request 6 0 None 1 0 False 0 k = Inr (Some (KVBlocks [[Blk 1, Blk 2]]), k')"
    "coord_managers (coord k') = [m']"
  have e: "request_id hashed_request = ''r''" "num_computed_tokens hashed_request = 0" by (simp_all add: example_request_eq)
  have "kvm_max_model_len k = 64" by (rule init_kv_manager_inv(8) [OF k(1) example_config_ok])
  moreover have "length (coord_managers (coord k)) = 1" using init_kv_manager_inv(7) [OF k(1) example_config_ok] by simp
  ultimately have "7 \<le> int (length (table m' ''r'')) * block_size m'"
    using allocate_slots_never_fails [OF k(1) example_config_ok rtranclp.rtrancl_refl k(2), of example_env 0]
    by (auto simp: Let_def e k(3,4))
  with k(1,3,4) show ?thesis by blast
qed

text \<open>
  C2: In every reachable state of a supported configuration (\<open>config_ok\<close>, so without sink blocks; slots are asked
  for as in \<open>slots_ok\<close>) a block other than the null block is on the free list exactly when no request holds it in any
  group; the list has no duplicates and its length is the count that the pool keeps.  No block leaks
  and no block in use is handed out again.
\<close>

theorem free_blocks_are_the_unused_ones:
  assumes "init_kv_manager config max_len hbs caching eagle stats events dcp pcp = Inr k0" "config_ok config dcp pcp"
    and "rtranclp (kv_step env) k0 k"
  shows "\<exists>xs. get_all_free_blocks (coord_pool (coord k)) = Some (Inr xs) \<and> distinct xs
    \<and> get_num_free_blocks (coord_pool (coord k)) = int (length xs)
    \<and> set xs = Blk ` {i. 0 < i \<and> int i < num_blocks config
        \<and> (\<forall>m \<in> set (coord_managers (coord k)). \<forall>r. Blk i \<notin> set (table m r))}"
proof -
  obtain xs where "kvm_ok k xs" "num_gpu_blocks (coord_pool (coord k)) = num_blocks config"
    by (rule kv_reachable_from_init [OF assms])
  with free_iff_unused [OF this(1)] show ?thesis by auto
qed

theorem free_blocks_are_the_unused_ones_witness:
  "\<exists>k k'. init_kv_manager example_config 64 4 True False False False 1 1 = Inr k
    \<and> kv_step example_env k k'
    \<and> (\<exists>xs. get_all_free_blocks (coord_pool (coord k')) = Some (Inr xs) \<and> distinct xs
        \<and> get_num_free_blocks (coord_pool (coord k')) = int (length xs) \<and> set xs = {Blk 3})"
proof (rule example_allocated)
  fix k k' m' assume k: "init_kv_manager example_config 64 4 True False False False 1 1 = Inr k"
    "kv_step example_env k k'" "coord_managers (coord k') = [m']" "table m' = (\<lambda>_. [])(''r'' := [Blk 1, Blk 2])"
  have e: "Blk ` {i. 0 < i \<and> int i < 4 \<and> Blk i \<notin> {Blk 1, Blk 2}} = {Blk 3}"
    by (force simp: image_iff less_Suc_eq eval_nat_numeral)
  from free_blocks_are_the_unused_ones [OF k(1) example_config_ok r_into_rtranclp [of "kv_step example_env", OF k(2)]] k e show ?thesis
    by auto
qed

text \<open>
  C34: Block tables are well typed in every reachable state of a supported configuration (\<open>config_ok\<close>, with slots
  asked for as in \<open>slots_ok\<close>): every entry of the table of a request, in every group, is
  the null block or a block of the pool (never an end of the free list), no block but the null block occurs twice in
  a table, and the count of cached blocks is not negative.
\<close>

theorem block_tables_well_typed:
  assumes "init_kv_manager config max_len hbs caching eagle stats events dcp pcp = Inr k0" "config_ok config dcp pcp"
    and "rtranclp (kv_step env) k0 k" and "m \<in> set (coord_managers (coord k))"
  shows "(\<forall>b \<in> set (table m r). \<exists>i. b = Blk i \<and> int i < num_blocks config)
    \<and> distinct (filter (\<lambda>b. b \<noteq> mgr_null_block m) (table m r)) \<and> 0 \<le> num_cached m r \<and> 0 < block_size m"
proof -
  obtain xs where k: "kvm_ok k xs" "num_gpu_blocks (coord_pool (coord k)) = num_blocks config"
    by (rule kv_reachable_from_init [OF assms(1-3)])
  then have wf: "mgr_wf (nblocks (coord_pool (coord k))) m" and inv: "pool_inv (coord_pool (coord k)) xs"
    using assms(4) by (auto simp: kvm_ok_def coord_ok_def kv_ok_def mgr_fits_def)
  have n: "int (nblocks (coord_pool (coord k))) = num_blocks config"
    using pool_coreD(1) [OF inv] k(2) by (simp add: nblocks_def)
  have t: "table_ok (nblocks (coord_pool (coord k))) (table m r)" by (rule mgr_wf_table [OF wf])
  have "0 \<le> num_cached m r" using wf by (auto simp: mgr_wf_def num_cached_def split: option.splits dest: map_of_SomeD)
  then show ?thesis using t wf n by (force simp: table_ok_def mgr_wf_def)
qed

theorem block_tables_well_typed_witness:
  "\<exists>k k' m'. init_kv_manager example_config 64 4 True False False False 1 1 = Inr k
    \<and> kv_step example_env k k' \<and> coord_managers (coord k') = [m'] \<and> table m' ''r'' = [Blk 1, Blk 2]
    \<and> (\<forall>b \<in> set (table m' ''r''). \<exists>i. b = Blk i \<and> int i < 4)"
proof (rule example_allocated)
  fix k k' m' assume k: "init_kv_manager example_config 64 4 True False False False 1 1 = Inr k"
    "kv_step example_env k k'" "coord_managers (coord k') = [m']" "table m' = (\<lambda>_. [])(''r'' := [Blk 1, Blk 2])"
  from block_tables_well_typed [OF k(1) example_config_ok r_into_rtranclp [of "kv_step example_env", OF k(2)], of m' "''r''"] k
  show ?thesis by auto
qed

text \<open>
  C3: In every reachable state of a supported configuration (\<open>config_ok\<close>) with the prefix cache on, where
  slots are asked for as in \<open>slots_ok\<close> (with external tokens only the first group may bring hits), the blocks a request still writes to (those of
  its table behind the cached ones) are held by that request alone, in that group alone and once, and
  the prefix cache does not know them.
\<close>

theorem uncached_blocks_are_exclusive:
  assumes "init_kv_manager config max_len hbs True eagle stats events dcp pcp = Inr k0" "config_ok config dcp pcp"
    and "rtranclp (kv_step env) k0 k"
    and "j < length (coord_managers (coord k))" "0 < i"
    and "Blk i \<in> set (drop (nat (num_cached (coord_managers (coord k) ! j) r)) (table (coord_managers (coord k) ! j) r))"
  shows "hash_of (coord_pool (coord k)) i = None
    \<and> count_list (table (coord_managers (coord k) ! j) r) (Blk i) = 1
    \<and> (\<forall>l < length (coord_managers (coord k)). \<forall>s.
         Blk i \<in> set (table (coord_managers (coord k) ! l) s) \<longrightarrow> l = j \<and> s = r)"
proof -
  obtain xs where "kvm_ok k xs" "enable_caching (coord_pool (coord k))"
    using kv_reachable_from_init [OF assms(1-3)] by metis
  note ex = exclusive_tail [OF this assms(4-6)]
  show ?thesis using ex(1) ex(2,3) [OF assms(4)] assms(6) by (auto dest: in_set_dropD)
qed

theorem uncached_blocks_are_exclusive_witness:
  "\<exists>k k' m'. init_kv_manager example_config 64 4 True False False False 1 1 = Inr k
    \<and> kv_step example_env k k' \<and> coord_managers (coord k') = [m'] \<and> table m' ''r'' = [Blk 1, Blk 2]
    \<and> hash_of (coord_pool (coord k')) 2 = None \<and> Blk 2 \<notin> set (table m' ''s'')"
proof (rule example_allocated)
  fix k k' m' assume k: "init_kv_manager example_config 64 4 True False False False 1 1 = Inr k"
    "kv_step example_env k k'" "coord_managers (coord k') = [m']" "table m' = (\<lambda>_. [])(''r'' := [Blk 1, Blk 2])" "num_cached m' ''r'' = 1"
  have "Blk 2 \<in> set (drop (nat (num_cached (coord_managers (coord k') ! 0) ''r'')) (table (coord_managers (coord k') ! 0) ''r''))"
    using k by simp
  from uncached_blocks_are_exclusive [OF k(1) example_config_ok r_into_rtranclp [of "kv_step example_env", OF k(2)] _ _ this] k
  show ?thesis by auto
qed

text \<open>
  C4: When in a reachable state of a supported configuration (\<open>config_ok\<close>, so without sink blocks; slots are asked
  for as in \<open>slots_ok\<close>) the last request that holds blocks is freed, the call does not raise, every block but the
  null block is free again, and resetting the prefix cache succeeds.
\<close>

theorem freeing_all_restores_the_pool:
  assumes "init_kv_manager config max_len hbs caching eagle stats events dcp pcp = Inr k0" "config_ok config dcp pcp"
    and "rtranclp (kv_step env) k0 k"
    and "\<forall>m \<in> set (coord_managers (coord k)). \<forall>s. s \<noteq> request_id r \<longrightarrow> table m s = []"
  shows "\<exists>k'. kvm_free r k = Inr k' \<and> get_num_free_blocks (coord_pool (coord k')) = num_blocks config - 1
    \<and> kvm_usage k' = 0 \<and> (\<exists>k''. kvm_reset_prefix_cache k' = Inr (True, k''))"
proof -
  obtain xs where k: "kvm_ok k xs" "num_gpu_blocks (coord_pool (coord k)) = num_blocks config" "stats_ready k"
    by (rule kv_reachable_from_init [OF assms(1-3)])
  obtain c' xs' where c: "coord_free (request_id r) (coord k) = Inr c'" "coord_ok c' xs'"
    "tables_become (coord k) c' (request_id r) (\<lambda>_. [])" "static (coord_pool c') = static (coord_pool (coord k))"
    using coord_free_spec [of "coord k" xs "request_id r"] k by (auto simp: kvm_ok_def)
  have "\<forall>m \<in> set (coord_managers c'). \<forall>s. table m s = []"
    using c(3) assms(4) by (fastforce simp: tables_become_def in_set_conv_nth)
  from all_free [OF c(2) this] c(4) k(2) have free: "get_num_free_blocks (coord_pool c') = num_blocks config - 1"
    by (auto dest: staticD)
  then have "kvm_usage (k\<lparr>coord := c'\<rparr>) = 0"
    using c(4) k(2) by (auto simp: kvm_usage_def get_usage_def Let_def dest: staticD)
  moreover have "\<exists>k''. kvm_reset_prefix_cache (k\<lparr>coord := c'\<rparr>) = Inr (True, k'')"
  proof -
    have inv: "pool_inv (coord_pool c') xs'" using c(2) by (simp add: coord_ok_def kv_ok_def)
    have "int (length xs') + 1 = int (nblocks (coord_pool c'))"
      using free pool_core_num_free [OF inv] pool_coreD(1) [OF inv] c(4) k(2) by (auto simp: nblocks_def dest: staticD)
    with reset_prefix_cache_spec [OF inv] obtain p' where "reset_prefix_cache (coord_pool c') = (True, p')" by auto
    then show ?thesis using k(3) by (auto simp: kvm_reset_prefix_cache_def stats_ready_def Let_def)
  qed
  ultimately show ?thesis using c(1) free by (simp add: kvm_free_def)
qed

theorem freeing_all_restores_the_pool_witness:
  "\<exists>k k' k''. init_kv_manager example_config 64 4 True False False False 1 1 = Inr k
    \<and> kv_step example_env k k' \<and> (\<exists>m' \<in> set (coord_managers (coord k')). table m' ''r'' = [Blk 1, Blk 2])
    \<and> kvm_free hashed_request k' = Inr k'' \<and> get_num_free_blocks (coord_pool (coord k'')) = 3
    \<and> (\<exists>k3. kvm_reset_prefix_cache k'' = Inr (True, k3))"
proof (rule example_allocated)
  fix k k' m' assume k: "init_kv_manager example_config 64 4 True False False False 1 1 = Inr k"
    "kv_step example_env k k'" "coord_managers (coord k') = [m']" "table m' = (\<lambda>_. [])(''r'' := [Blk 1, Blk 2])"
  have "\<forall>m \<in> set (coord_managers (coord k')). \<forall>s. s \<noteq> request_id hashed_request \<longrightarrow> table m s = []"
    using k(3,4) by (simp add: example_request_eq)
  from freeing_all_restores_the_pool [OF k(1) example_config_ok r_into_rtranclp [of "kv_step example_env", OF k(2)] this] k show ?thesis
    by auto
qed

section \<open>From the plan to the cache\<close>

text \<open>
  The plan of \<open>KV_Cache_Plan\<close> and the cache that is built from it do not fit exactly: the memory check counts the
  blocks of one request of maximal length, the pool takes one of them as the null block.  Here two blocks pass the
  check for a request of six tokens, and the cache with two blocks refuses that request even when it is empty.
\<close>

definition tight_plan :: plan_config where
  "tight_plan = example_plan\<lparr>pc_engine := engine_config.max_model_len_update (\<lambda>_. 6) plan_engine\<rparr>"

lemma null_block_not_counted:
  "case get_kv_cache_configs (\<lambda>_. 2) tight_plan [[(''l'', example_full)]] [32] of Inl _ \<Rightarrow> False
   | Inr (cfg, ws) \<Rightarrow>
     (case generate_scheduler_kv_cache_config ws of Inl _ \<Rightarrow> False
      | Inr sc \<Rightarrow> engine_config.max_model_len cfg = 6 \<and> max_pages cfg example_full = Inr 2 \<and> num_blocks sc = 2
        \<and> (case init_kv_manager sc 6 4 True False False False 1 1 of Inl _ \<Rightarrow> False
           | Inr k \<Rightarrow> (case allocate_slots example_env hashed_request 6 0 None 0 0 False 0 k of
               Inr (None, _) \<Rightarrow> True | _ \<Rightarrow> False)))"
  by code_simp

end
